(* ===== verification/Prelude.thy ===== *)
theory Prelude
  imports Main "HOL-Library.Word"
begin

text \<open>
  What the component theories share: the C integer types of the ILP32 ports, the ways a
  kernel routine can end, the errno values, and generic facts about machine words and
  lists. Facts that belong to the development's automation are collected in
  \<open>word_order\<close> (order facts about words whose sums do not wrap) and \<open>kout_simps\<close>
  (case analysis on the end of a routine).
\<close>

unbundle bit_operations_syntax

named_theorems word_order
named_theorems kout_simps

subsection \<open>Machine types\<close>

text \<open>
  The ports whose \<open>long\<close> and pointers have 32 bits (i386, sparc, m68k, arm32, pc532, vax).
\<close>

type_synonym u8 = "8 word"
type_synonym u16 = "16 word"
type_synonym u32 = "32 word"
type_synonym u64 = "64 word"
type_synonym u_long = "32 word"

subsection \<open>Error numbers of sys/errno.h\<close>

datatype errno =
    EPERM | ENOENT | ESRCH | EINTR | EIO | E2BIG | EBADF | EDEADLK | ENOMEM | EACCES
  | EFAULT | EBUSY | EEXIST | EINVAL | ENFILE | EMFILE | EFBIG | ENOSPC | ERANGE | EAGAIN
  | EWOULDBLOCK | EIDRM | ENOLCK | EOPNOTSUPP | ERESTART | ENODEV | ENXIO | ENOBUFS

subsection \<open>How a kernel routine ends\<close>

text \<open>
  \<open>Ret s v\<close>: it returns \<open>v\<close> and leaves the state \<open>s\<close>. \<open>Sleeps s k\<close>: the calling process
  goes to sleep in state \<open>s\<close>, holding \<open>k\<close> in its local variables; what it does after the
  wakeup is a definition of its own in the component. \<open>Panics\<close>: the routine calls \<open>panic\<close>.
\<close>

datatype ('s, 'k, 'a) kout = Ret 's 'a | Sleeps 's 'k | Panics

fun kout_state :: "('s, 'k, 'a) kout \<Rightarrow> 's option" where
  "kout_state (Ret s v) = Some s"
| "kout_state (Sleeps s k) = Some s"
| "kout_state Panics = None"

lemma kout_state_Some [kout_simps]:
  "kout_state r = Some s \<longleftrightarrow> (\<exists>v. r = Ret s v) \<or> (\<exists>k. r = Sleeps s k)"
  by (cases r) auto

subsection \<open>Words whose sums do not wrap\<close>

lemma word_succ_le [word_order]: "a < b \<Longrightarrow> a + 1 \<le> b" for a b :: "'a::len word"
  by (rule inc_le)

lemma word_less_succ [word_order]: "a < b \<Longrightarrow> a < a + 1" for a b :: "'a::len word"
  by (metis (no_types, lifting) add_cancel_left_right inc_i leI olen_add_eqv
      order.order_iff_strict word_less_1 zero_neq_one add.commute)

lemma word_le_pred [word_order]: "a < b \<Longrightarrow> a \<le> b - 1" for a b :: "'a::len word"
  by (metis less_imp_less_eq_dec)

lemma word_pred_less [word_order]: "a < b \<Longrightarrow> b - 1 < b" for a b :: "'a::len word"
  using interval_class.less_eq_dec_imp_less by auto

lemma word_less_succ_iff: "a < b \<Longrightarrow> x < a + 1 \<longleftrightarrow> x \<le> a" for a b x :: "'a::len word"
  by (metis linorder_not_less word_less_succ word_succ_le order.strict_trans1)

lemma word_succ_le_iff: "a < b \<Longrightarrow> a + 1 \<le> x \<longleftrightarrow> a < x" for a b x :: "'a::len word"
  by (metis word_less_succ word_succ_le order.strict_trans2)

lemma word_le_pred_iff: "a < b \<Longrightarrow> x \<le> b - 1 \<longleftrightarrow> x < b" for a b x :: "'a::len word"
  by (metis word_pred_less word_le_pred order.strict_trans1)

lemma unat_u_long_bound: "unat x < 4294967296" for x :: u_long
  using unsigned_less [of x, where ?'a = nat] by simp

text \<open>Intervals of addresses that touch, as sets of words.\<close>

lemma word_interval_join:
  fixes s a b e :: "'a::len word"
  assumes "a + 1 = b" and "s \<le> a" and "a < b" and "b \<le> e"
  shows "{s..a} \<union> {b..e} = {s..e}"
proof -
  have cut: "x \<le> a \<or> b \<le> x" for x
    using assms(1) word_succ_le [of a x] by (cases "x \<le> a") (auto simp: not_le)
  have "x \<le> e" if "x \<le> a" for x
    using that assms(3,4) by simp
  moreover have "s \<le> x" if "b \<le> x" for x
    using that assms(2,3) by simp
  ultimately show ?thesis
    by (auto; metis cut)
qed

text \<open>The signed value of a 32-bit word.\<close>

lemma sint_u32:
  fixes w :: u32
  shows "sint w = (if uint w < 2 ^ 31 then uint w else uint w - 2 ^ 32)"
proof -
  have eq: "uint w = sint w mod 2 ^ 32"
    by (simp add: uint_sint take_bit_eq_mod)
  have lo: "- (2 ^ 31) \<le> sint w" and hi: "sint w < 2 ^ 31"
    using sint_greater_eq [of w] sint_less [of w] by simp_all
  show ?thesis
  proof (cases "0 \<le> sint w")
    case True
    with eq hi show ?thesis by simp
  next
    case False
    then have "sint w mod 2 ^ 32 = sint w + 2 ^ 32"
      using lo mod_pos_pos_trivial [of "sint w + 2 ^ 32" "2 ^ 32"] by simp
    with eq lo False show ?thesis by simp
  qed
qed

lemma sint_nonneg_u32: "0 \<le> sint w \<Longrightarrow> sint w = uint w \<and> uint w < 2 ^ 31" for w :: u32
  using uint_lt2p [of w] by (auto simp: sint_u32 split: if_splits)

subsection \<open>Values that are stored in narrower types\<close>

text \<open>What an \<open>int\<close> becomes when it is stored in a \<open>short\<close>, and when it is computed in an \<open>off_t\<close>, which has 64 bits.\<close>

definition s16 :: "int \<Rightarrow> int" where
  "s16 x = (x + 32768) mod 65536 - 32768"

definition s64 :: "int \<Rightarrow> int" where
  "s64 x = (x + 2 ^ 63) mod 2 ^ 64 - 2 ^ 63"

lemma s16_id: "- 32768 \<le> x \<Longrightarrow> x < 32768 \<Longrightarrow> s16 x = x"
  by (simp add: s16_def mod_pos_pos_trivial)

lemma s16_add [simp]: "s16 (s16 a + b) = s16 (a + b)" "s16 (b + s16 a) = s16 (b + a)"
  by (simp_all add: s16_def algebra_simps mod_simps)

lemma s16_diff [simp]: "s16 (s16 a - b) = s16 (a - b)"
  using s16_add(1)[of a "- b"] by simp

lemma s64_id: "- (2 ^ 63) \<le> x \<Longrightarrow> x < 2 ^ 63 \<Longrightarrow> s64 x = x"
  by (simp add: s64_def mod_pos_pos_trivial)

subsection \<open>Memory\<close>

text \<open>\<open>bcopy\<close> of the bytes \<open>src\<close> into the buffer \<open>dst\<close>, to offset \<open>i\<close>.\<close>

definition bcopy_to :: "u8 list \<Rightarrow> u8 list \<Rightarrow> nat \<Rightarrow> u8 list" where
  "bcopy_to src dst i = take i dst @ src @ drop (i + length src) dst"

lemma bcopy_to_nth:
  assumes "i + length src \<le> length dst"
  shows "length (bcopy_to src dst i) = length dst"
    "j < length dst \<Longrightarrow> bcopy_to src dst i ! j = (if i \<le> j \<and> j < i + length src then src ! (j - i) else dst ! j)"
  using assms by (auto simp: bcopy_to_def nth_append)

lemma bcopy_to_length [simp]: "i + length src \<le> length dst \<Longrightarrow> length (bcopy_to src dst i) = length dst"
  by (simp add: bcopy_to_def)

end
