(* ===== verification/Extent.thy ===== *)
theory Extent
  imports Prelude "HOL-Library.While_Combinator"
begin

text \<open>
  The extent manager, \<^verbatim>\<open>sys/kern/subr_extent.c\<close>: allocation of ranges out of an address
  range that is described by a sorted list of allocated regions.

  A region descriptor is a record; the list \<open>ex_regions\<close> is the C list in its order. A
  pointer into that list (\<open>last\<close>, \<open>bestlast\<close>, \<open>after\<close>) is the number of descriptors up to
  and including the one it points to, so that 0 is the null pointer. The flag words are
  sets of named bits. Three fields are bookkeeping for what the code does through calls:
  \<open>ex_wakeups\<close> is the log of its \<open>wakeup\<close> calls (newest first), \<open>ex_heap\<close> counts
  the descriptors it got from \<open>malloc\<close> and has not given back to \<open>free\<close>, and the free list of a
  \<open>struct extent_fixed\<close> is part of the same record. The allocator
  \<open>malloc\<close> (\<^verbatim>\<open>kern_malloc.c\<close>) is an argument: the block it hands out, or \<open>None\<close>.
  The argument \<open>diag\<close> says whether the kernel was built with \<^verbatim>\<open>DIAGNOSTIC\<close>.
\<close>

subsection \<open>State\<close>

datatype ex_flag =
  EX_WAITOK | EX_FAST | EX_CATCH | EX_NOCOALESCE | EX_MALLOCOK | EX_WAITSPACE | EX_BOUNDZERO

datatype exf_flag = EXF_FIXED | EXF_NOCOALESCE | EXF_WANTED | EXF_FLWANTED

datatype ex_chan = Chan_extent | Chan_freelist

record extent_region =
  er_start :: u_long
  er_end :: u_long
  er_alloc :: bool

record extent =
  ex_name :: string
  ex_regions :: "extent_region list"
  ex_start :: u_long
  ex_end :: u_long
  ex_flags :: "exf_flag set"
  fex_freelist :: "extent_region list"
  ex_wakeups :: "ex_chan list"
  ex_heap :: int

text \<open>What a sleeping process holds: nothing, or the descriptor it allocated.\<close>

datatype ex_hold = Hold_nothing | Hold_region extent_region

type_synonym 'a ex_out = "(extent, ex_hold, 'a) kout"

subsection \<open>Creation and destruction\<close>

text \<open>
  The loop that cuts the storage of a fixed extent into descriptors; \<open>rsz\<close> is
  \<open>ALIGN(sizeof(struct extent_region))\<close> on the port.
\<close>

function extent_fixed_descriptors :: "nat \<Rightarrow> nat \<Rightarrow> extent_region list \<Rightarrow> extent_region list" where
  "extent_fixed_descriptors rsz sz fl =
     (if 0 < rsz \<and> rsz \<le> sz
      then extent_fixed_descriptors rsz (sz - rsz)
             (\<lparr>er_start = 0, er_end = 0, er_alloc = False\<rparr> # fl)
      else fl)"
  by pat_completeness auto
termination
  by (relation "measure (\<lambda>(rsz, sz, fl). sz)") auto

declare extent_fixed_descriptors.simps [simp del]

text \<open>
  \<open>storage\<close> is \<open>Some\<close> of the storage size when the caller supplies storage. \<open>fsz\<close> is
  \<open>ALIGN(sizeof(struct extent_fixed))\<close>. The size is a \<open>size_t\<close>: without \<^verbatim>\<open>DIAGNOSTIC\<close> the subtraction wraps when the
  storage is too small, and the descriptors that are then cut lie beyond the storage. \<open>mem\<close> says whether \<open>malloc\<close> finds a block for the
  descriptor of a dynamic extent.
\<close>

definition extent_create ::
  "bool \<Rightarrow> nat \<Rightarrow> nat \<Rightarrow> bool \<Rightarrow> string \<Rightarrow> u_long \<Rightarrow> u_long \<Rightarrow> u_long option \<Rightarrow> ex_flag set
     \<Rightarrow> (extent option, unit, unit) kout" where
  "extent_create diag fsz rsz mem name start endd storage flags =
     (let fixed_extent = (storage \<noteq> None);
          ex = \<lparr>ex_name = name, ex_regions = [], ex_start = start, ex_end = endd,
                ex_flags = (if fixed_extent then {EXF_FIXED} else {}) \<union>
                  (if EX_NOCOALESCE \<in> flags then {EXF_NOCOALESCE} else {}),
                fex_freelist =
                  (case storage of
                     Some sz \<Rightarrow> extent_fixed_descriptors rsz (unat (sz - of_nat fsz)) []
                   | None \<Rightarrow> []),
                ex_wakeups = [], ex_heap = 0\<rparr>
      in if diag \<and> endd < start then Panics
         else if diag \<and> fixed_extent \<and> unat (the storage) < fsz then Panics
         else if \<not> fixed_extent \<and> \<not> mem then Ret None ()
         else Ret (Some ex) ())"

definition extent_free_region_descriptor :: "extent \<Rightarrow> extent_region \<Rightarrow> extent" where
  "extent_free_region_descriptor ex rp =
     (let wake_em_up = (\<lambda>ex. ex\<lparr>ex_flags := ex_flags ex - {EXF_FLWANTED},
                               ex_wakeups := Chan_freelist # ex_wakeups ex\<rparr>)
      in if EXF_FIXED \<in> ex_flags ex then
           if er_alloc rp then
             if EXF_FLWANTED \<in> ex_flags ex
             then wake_em_up (ex\<lparr>fex_freelist := rp\<lparr>er_alloc := True\<rparr> # fex_freelist ex\<rparr>)
             else ex\<lparr>ex_heap := ex_heap ex - 1\<rparr>
           else
             let ex = ex\<lparr>fex_freelist := rp\<lparr>er_alloc := False\<rparr> # fex_freelist ex\<rparr>
             in if EXF_FLWANTED \<in> ex_flags ex then wake_em_up ex else ex
         else ex\<lparr>ex_heap := ex_heap ex - 1\<rparr>)"

fun extent_destroy_loop :: "extent \<Rightarrow> extent_region list \<Rightarrow> extent" where
  "extent_destroy_loop ex [] = ex\<lparr>ex_regions := []\<rparr>"
| "extent_destroy_loop ex (rp # rps) =
     extent_destroy_loop (extent_free_region_descriptor (ex\<lparr>ex_regions := rps\<rparr>) rp) rps"

text \<open>The result says whether the extent descriptor itself is given back to \<open>free\<close>.\<close>

definition extent_destroy :: "extent \<Rightarrow> extent \<times> bool" where
  "extent_destroy ex =
     (let ex' = extent_destroy_loop ex (ex_regions ex)
      in (ex', EXF_FIXED \<notin> ex_flags ex'))"

definition extent_malloc_descriptor ::
  "extent_region option \<Rightarrow> extent \<Rightarrow> extent_region option ex_out" where
  "extent_malloc_descriptor mem ex =
     (case mem of
        Some rp \<Rightarrow> Ret (ex\<lparr>ex_heap := ex_heap ex + 1\<rparr>) (Some (rp\<lparr>er_alloc := True\<rparr>))
      | None \<Rightarrow> Ret ex None)"

definition extent_alloc_region_descriptor ::
  "extent_region option \<Rightarrow> extent \<Rightarrow> ex_flag set \<Rightarrow> extent_region option ex_out" where
  "extent_alloc_region_descriptor mem ex flags =
     (if EXF_FIXED \<in> ex_flags ex then
        (case fex_freelist ex of
           [] \<Rightarrow>
             if EX_MALLOCOK \<in> flags then extent_malloc_descriptor mem ex
             else if EX_WAITOK \<notin> flags then Ret ex None
             else Sleeps (ex\<lparr>ex_flags := insert EXF_FLWANTED (ex_flags ex)\<rparr>) Hold_nothing
         | rp # fl \<Rightarrow> Ret (ex\<lparr>fex_freelist := fl\<rparr>) (Some rp))
      else extent_malloc_descriptor mem ex)"

subsection \<open>Insertion\<close>

definition extent_insert_and_optimize ::
  "extent \<Rightarrow> u_long \<Rightarrow> u_long \<Rightarrow> nat \<Rightarrow> extent_region \<Rightarrow> extent" where
  "extent_insert_and_optimize ex start sz after rp =
     (let new = rp\<lparr>er_start := start, er_end := start + (sz - 1)\<rparr> in
      if after = 0 then
        (case ex_regions ex of
           [] \<Rightarrow> ex\<lparr>ex_regions := [new]\<rparr>
         | first # others \<Rightarrow>
             if EXF_NOCOALESCE \<notin> ex_flags ex \<and> start + sz = er_start first
             then extent_free_region_descriptor
                    (ex\<lparr>ex_regions := first\<lparr>er_start := start\<rparr> # others\<rparr>) rp
             else ex\<lparr>ex_regions := new # first # others\<rparr>)
      else
        let before = take (after - 1) (ex_regions ex);
            cur = ex_regions ex ! (after - 1);
            rest = drop after (ex_regions ex);
            cant_coalesce = ex\<lparr>ex_regions := before @ cur # new # rest\<rparr>;
            appended = (er_end cur + 1 = start);
            cur' = (if appended then cur\<lparr>er_end := start + (sz - 1)\<rparr> else cur)
        in if EXF_NOCOALESCE \<in> ex_flags ex then cant_coalesce
           else if rest \<noteq> [] \<and> start + sz = er_start (hd rest) then
             if appended
             then extent_free_region_descriptor
                    (extent_free_region_descriptor
                       (ex\<lparr>ex_regions := before @ cur'\<lparr>er_end := er_end (hd rest)\<rparr> # tl rest\<rparr>)
                       (hd rest)) rp
             else extent_free_region_descriptor
                    (ex\<lparr>ex_regions := before @ cur' # (hd rest)\<lparr>er_start := start\<rparr> # tl rest\<rparr>) rp
           else if appended
           then extent_free_region_descriptor (ex\<lparr>ex_regions := before @ cur' # rest\<rparr>) rp
           else cant_coalesce)"

subsection \<open>Allocation of a given region\<close>

text \<open>
  The search for the place of the region: \<open>None\<close> when it conflicts with an allocated
  region, otherwise the pointer to the region it falls after.
\<close>

fun extent_region_scan ::
  "extent_region list \<Rightarrow> u_long \<Rightarrow> u_long \<Rightarrow> nat \<Rightarrow> nat option" where
  "extent_region_scan [] start endd lastp = Some lastp"
| "extent_region_scan (rp # rps) start endd lastp =
     (if er_start rp > endd then Some lastp
      else if er_end rp \<ge> start then None
      else extent_region_scan rps start endd (Suc lastp))"

text \<open>From the label \<open>alloc_start\<close> on, with the descriptor \<open>myrp\<close> in hand.\<close>

definition extent_alloc_region_start ::
  "extent \<Rightarrow> u_long \<Rightarrow> u_long \<Rightarrow> ex_flag set \<Rightarrow> extent_region \<Rightarrow> (errno + unit) ex_out" where
  "extent_alloc_region_start ex start sz flags myrp =
     (case extent_region_scan (ex_regions ex) start (start + (sz - 1)) 0 of
        Some lastp \<Rightarrow> Ret (extent_insert_and_optimize ex start sz lastp myrp) (Inr ())
      | None \<Rightarrow>
          if EX_WAITSPACE \<in> flags
          then Sleeps (ex\<lparr>ex_flags := insert EXF_WANTED (ex_flags ex)\<rparr>) (Hold_region myrp)
          else Ret (extent_free_region_descriptor ex myrp) (Inl EAGAIN))"

definition extent_alloc_region ::
  "bool \<Rightarrow> extent_region option \<Rightarrow> extent \<Rightarrow> u_long \<Rightarrow> u_long \<Rightarrow> ex_flag set
     \<Rightarrow> (errno + unit) ex_out" where
  "extent_alloc_region diag mem ex start sz flags =
     (let endd = start + (sz - 1)
      in if diag \<and> sz < 1 then Panics
         else if diag \<and> endd < start then Panics
         else if start < ex_start ex \<or> endd > ex_end ex then
           if diag then Panics else Ret ex (Inl EINVAL)
         else
           (case extent_alloc_region_descriptor mem ex flags of
              Ret ex None \<Rightarrow> Ret ex (Inl ENOMEM)
            | Ret ex (Some myrp) \<Rightarrow> extent_alloc_region_start ex start sz flags myrp
            | Sleeps ex k \<Rightarrow> Sleeps ex k
            | Panics \<Rightarrow> Panics))"

text \<open>
  After the sleep: \<open>tsleep\<close> returned \<open>error\<close> (\<open>None\<close> for 0). A process that held
  its descriptor goes back to \<open>alloc_start\<close>; one that waited for a descriptor asks again.
\<close>

fun extent_alloc_region_wake ::
  "extent_region option \<Rightarrow> extent \<Rightarrow> u_long \<Rightarrow> u_long \<Rightarrow> ex_flag set \<Rightarrow> ex_hold \<Rightarrow> errno option
     \<Rightarrow> (errno + unit) ex_out" where
  "extent_alloc_region_wake mem ex start sz flags (Hold_region myrp) (Some error) =
     Ret ex (Inl error)"
| "extent_alloc_region_wake mem ex start sz flags (Hold_region myrp) None =
     extent_alloc_region_start ex start sz flags myrp"
| "extent_alloc_region_wake mem ex start sz flags Hold_nothing (Some error) =
     Ret ex (Inl ENOMEM)"
| "extent_alloc_region_wake mem ex start sz flags Hold_nothing None =
     (case extent_alloc_region_descriptor mem ex flags of
        Ret ex None \<Rightarrow> Ret ex (Inl ENOMEM)
      | Ret ex (Some myrp) \<Rightarrow> extent_alloc_region_start ex start sz flags myrp
      | Sleeps ex k \<Rightarrow> Sleeps ex k
      | Panics \<Rightarrow> Panics)"

subsection \<open>Allocation in a subregion\<close>

definition EXTENT_ALIGN :: "u_long \<Rightarrow> u_long \<Rightarrow> u_long" where
  "EXTENT_ALIGN start align = (start + (align - 1)) AND (- align)"

text \<open>\<open>x + y \<le> z\<close>, false when the sum wraps.\<close>

definition LE_OV :: "u_long \<Rightarrow> u_long \<Rightarrow> u_long \<Rightarrow> bool" where
  "LE_OV x y z \<longleftrightarrow> x + y \<ge> x \<and> x + y \<le> z"

text \<open>
  The first boundary line at or after the subregion start. The loop of the code may run
  forever, when the lines wrap around without one of them reaching \<open>substart\<close>:
  \<open>None\<close> is that case.
\<close>

definition extent_first_line ::
  "extent \<Rightarrow> u_long \<Rightarrow> u_long \<Rightarrow> ex_flag set \<Rightarrow> u_long option" where
  "extent_first_line ex substart boundary flags =
     (if boundary = 0 then Some 0
      else while_option (\<lambda>dontcross. dontcross < substart) (\<lambda>dontcross. dontcross + boundary)
             ((if EX_BOUNDZERO \<in> flags then 0 else ex_start ex) + boundary))"

text \<open>
  The loop that moves the boundary line past \<open>newstart\<close>; \<open>None\<close> is the jump to
  \<open>fail\<close>. Its caller has tested that \<open>boundary\<close> is not 0.
\<close>

function extent_adjust_line :: "u_long \<Rightarrow> u_long \<Rightarrow> u_long \<Rightarrow> u_long \<Rightarrow> u_long option" where
  "extent_adjust_line exend boundary newstart dontcross =
     (if dontcross \<le> newstart then
        if boundary = 0 \<or> dontcross + boundary > exend \<or> dontcross + boundary < dontcross then None
        else extent_adjust_line exend boundary newstart (dontcross + boundary)
      else Some dontcross)"
  by pat_completeness auto
termination
proof (relation "measure (\<lambda>(exend, boundary, newstart, dontcross). 2 ^ 32 - unat dontcross)")
  fix exend boundary newstart dontcross :: u_long
  assume "\<not> (boundary = 0 \<or> dontcross + boundary > exend \<or> dontcross + boundary < dontcross)"
  then have "dontcross < dontcross + boundary"
    by (auto simp: order.order_iff_strict not_less)
  moreover have "unat (dontcross + boundary) < 2 ^ 32"
    using unsigned_less [of "dontcross + boundary"] by simp
  ultimately show "((exend, boundary, newstart, dontcross + boundary),
      exend, boundary, newstart, dontcross)
    \<in> measure (\<lambda>(exend, boundary, newstart, dontcross). 2 ^ 32 - unat dontcross)"
    by (simp add: word_less_nat_alt)
qed simp

declare extent_adjust_line.simps [simp del]

record extent_best =
  bestovh :: u_long
  beststart :: u_long
  bestlast :: nat

text \<open>
  How the loop over the allocated regions ends: a place was found (the address and the
  pointer to the region before it), it jumped to \<open>fail\<close>, or the list ran out.
\<close>

datatype sub_search =
  Sub_found u_long nat | Sub_fail extent_best | Sub_end u_long nat extent_best

definition better_choice ::
  "u_long \<Rightarrow> u_long \<Rightarrow> nat \<Rightarrow> extent_best \<Rightarrow> extent_best" where
  "better_choice ovh newstart lastp b =
     (if bestovh b = 0 \<or> ovh < bestovh b
      then \<lparr>bestovh = ovh, beststart = newstart, bestlast = lastp\<rparr> else b)"

fun extent_subregion_loop ::
  "u_long \<Rightarrow> u_long \<Rightarrow> u_long \<Rightarrow> u_long \<Rightarrow> ex_flag set \<Rightarrow> extent_region list \<Rightarrow> nat
     \<Rightarrow> u_long \<Rightarrow> nat \<Rightarrow> u_long \<Rightarrow> extent_best \<Rightarrow> sub_search" where
  "extent_subregion_loop exend sz alignment boundary flags [] pos newstart lastp dontcross b =
     Sub_end newstart lastp b"
| "extent_subregion_loop exend sz alignment boundary flags (rp # rps) pos newstart lastp dontcross b =
     (let skip = (\<lambda>dontcross b.
            let newstart' = EXTENT_ALIGN (er_end rp + 1) alignment
            in if newstart' < er_end rp then Sub_fail b
               else extent_subregion_loop exend sz alignment boundary flags rps (Suc pos)
                      newstart' (Suc pos) dontcross b)
      in if LE_OV newstart sz (er_start rp) then
           (case (if boundary \<noteq> 0 then extent_adjust_line exend boundary newstart dontcross
                  else Some dontcross) of
              None \<Rightarrow> Sub_fail b
            | Some dontcross' \<Rightarrow>
                if boundary \<noteq> 0 \<and> newstart + (sz - 1) \<ge> dontcross' then
                  extent_subregion_loop exend sz alignment boundary flags rps (Suc pos)
                    newstart lastp dontcross' b
                else
                  let ovh = er_start rp - newstart - sz
                  in if EX_FAST \<in> flags \<or> ovh = 0 then Sub_found newstart lastp
                     else skip dontcross' (better_choice ovh newstart lastp b))
         else skip dontcross b)"

text \<open>The final check up to the subregion end, and the label \<open>fail\<close>: the place taken, if any.\<close>

definition extent_subregion_fail :: "ex_flag set \<Rightarrow> extent_best \<Rightarrow> (u_long \<times> nat) option" where
  "extent_subregion_fail flags b =
     (if EX_FAST \<notin> flags \<and> bestovh b \<noteq> 0 then Some (beststart b, bestlast b) else None)"

fun extent_subregion_finish ::
  "u_long \<Rightarrow> u_long \<Rightarrow> u_long \<Rightarrow> ex_flag set \<Rightarrow> sub_search \<Rightarrow> (u_long \<times> nat) option" where
  "extent_subregion_finish exend subend sz flags (Sub_found newstart lastp) = Some (newstart, lastp)"
| "extent_subregion_finish exend subend sz flags (Sub_fail b) = extent_subregion_fail flags b"
| "extent_subregion_finish exend subend sz flags (Sub_end newstart lastp b) =
     (if LE_OV newstart (sz - 1) subend then
        let ovh = exend - newstart - (sz - 1)
        in if EX_FAST \<in> flags \<or> ovh = 0 then Some (newstart, lastp)
           else extent_subregion_fail flags (better_choice ovh newstart lastp b)
      else extent_subregion_fail flags b)"

text \<open>
  The search from \<open>alloc_start\<close> on: it starts behind the last region that begins before
  \<open>newstart\<close>.
\<close>

definition extent_subregion_search ::
  "extent \<Rightarrow> u_long \<Rightarrow> u_long \<Rightarrow> u_long \<Rightarrow> u_long \<Rightarrow> ex_flag set \<Rightarrow> u_long \<Rightarrow> u_long
     \<Rightarrow> (u_long \<times> nat) option" where
  "extent_subregion_search ex subend sz alignment boundary flags dontcross newstart =
     (let lastp = length (takeWhile (\<lambda>rp. er_start rp < newstart) (ex_regions ex))
      in extent_subregion_finish (ex_end ex) subend sz flags
           (extent_subregion_loop (ex_end ex) sz alignment boundary flags
              (drop lastp (ex_regions ex)) lastp newstart lastp dontcross
              \<lparr>bestovh = 0, beststart = 0, bestlast = 0\<rparr>))"

text \<open>\<open>None\<close>: the call does not return, because the first loop over the lines never ends.\<close>

definition extent_alloc_subregion_start ::
  "bool \<Rightarrow> extent \<Rightarrow> u_long \<Rightarrow> u_long \<Rightarrow> u_long \<Rightarrow> u_long \<Rightarrow> u_long \<Rightarrow> ex_flag set
     \<Rightarrow> extent_region \<Rightarrow> (errno + u_long) ex_out option" where
  "extent_alloc_subregion_start diag ex substart subend sz alignment boundary flags myrp =
     (case extent_first_line ex substart boundary flags of
        None \<Rightarrow> None
      | Some dontcross \<Rightarrow>
          let newstart = EXTENT_ALIGN substart alignment
          in Some
            (if newstart < ex_start ex then
               if diag then Panics
               else Ret (extent_free_region_descriptor ex myrp) (Inl EINVAL)
             else
               (case extent_subregion_search ex subend sz alignment boundary flags dontcross newstart of
                  Some (result, lastp) \<Rightarrow>
                    Ret (extent_insert_and_optimize ex result sz lastp myrp) (Inr result)
                | None \<Rightarrow>
                    if EX_WAITSPACE \<in> flags
                    then Sleeps (ex\<lparr>ex_flags := insert EXF_WANTED (ex_flags ex)\<rparr>) (Hold_region myrp)
                    else Ret (extent_free_region_descriptor ex myrp) (Inl EAGAIN))))"

definition extent_subregion_bad_args ::
  "extent \<Rightarrow> u_long \<Rightarrow> u_long \<Rightarrow> u_long \<Rightarrow> u_long \<Rightarrow> u_long \<Rightarrow> bool" where
  "extent_subregion_bad_args ex substart subend sz alignment boundary \<longleftrightarrow>
     substart < ex_start ex \<or> substart > ex_end ex \<or> subend > ex_end ex \<or> subend < ex_start ex
     \<or> sz < 1 \<or> sz - 1 > subend - substart \<or> alignment = 0
     \<or> (boundary \<noteq> 0 \<and> boundary < sz)"

definition extent_alloc_subregion ::
  "bool \<Rightarrow> extent_region option \<Rightarrow> extent \<Rightarrow> u_long \<Rightarrow> u_long \<Rightarrow> u_long \<Rightarrow> u_long \<Rightarrow> u_long
     \<Rightarrow> ex_flag set \<Rightarrow> (errno + u_long) ex_out option" where
  "extent_alloc_subregion diag mem ex substart subend sz alignment boundary flags =
     (if diag \<and> extent_subregion_bad_args ex substart subend sz alignment boundary then Some Panics
      else
        (case extent_alloc_region_descriptor mem ex flags of
           Ret ex None \<Rightarrow> Some (Ret ex (Inl ENOMEM))
         | Ret ex (Some myrp) \<Rightarrow>
             extent_alloc_subregion_start diag ex substart subend sz alignment boundary flags myrp
         | Sleeps ex k \<Rightarrow> Some (Sleeps ex k)
         | Panics \<Rightarrow> Some Panics))"

text \<open>The macro \<^verbatim>\<open>extent_alloc\<close> of \<^verbatim>\<open>sys/sys/extent.h\<close>.\<close>

definition extent_alloc ::
  "bool \<Rightarrow> extent_region option \<Rightarrow> extent \<Rightarrow> u_long \<Rightarrow> u_long \<Rightarrow> u_long \<Rightarrow> ex_flag set
     \<Rightarrow> (errno + u_long) ex_out option" where
  "extent_alloc diag mem ex sz alignment boundary flags =
     extent_alloc_subregion diag mem ex (ex_start ex) (ex_end ex) sz alignment boundary flags"

fun extent_alloc_subregion_wake ::
  "bool \<Rightarrow> extent_region option \<Rightarrow> extent \<Rightarrow> u_long \<Rightarrow> u_long \<Rightarrow> u_long \<Rightarrow> u_long \<Rightarrow> u_long
     \<Rightarrow> ex_flag set \<Rightarrow> ex_hold \<Rightarrow> errno option \<Rightarrow> (errno + u_long) ex_out option" where
  "extent_alloc_subregion_wake diag mem ex substart subend sz alignment boundary flags
     (Hold_region myrp) (Some error) = Some (Ret ex (Inl error))"
| "extent_alloc_subregion_wake diag mem ex substart subend sz alignment boundary flags
     (Hold_region myrp) None =
     extent_alloc_subregion_start diag ex substart subend sz alignment boundary flags myrp"
| "extent_alloc_subregion_wake diag mem ex substart subend sz alignment boundary flags
     Hold_nothing (Some error) = Some (Ret ex (Inl ENOMEM))"
| "extent_alloc_subregion_wake diag mem ex substart subend sz alignment boundary flags
     Hold_nothing None =
     (case extent_alloc_region_descriptor mem ex flags of
        Ret ex None \<Rightarrow> Some (Ret ex (Inl ENOMEM))
      | Ret ex (Some myrp) \<Rightarrow>
          extent_alloc_subregion_start diag ex substart subend sz alignment boundary flags myrp
      | Sleeps ex k \<Rightarrow> Some (Sleeps ex k)
      | Panics \<Rightarrow> Some Panics)"

subsection \<open>Freeing\<close>

text \<open>The four cases of the comment in \<^verbatim>\<open>extent_free\<close>.\<close>

datatype free_case = Free_whole | Free_head | Free_tail | Free_middle

text \<open>The index of the region that holds the chunk and the case it is in.\<close>

fun extent_free_scan ::
  "exf_flag set \<Rightarrow> extent_region list \<Rightarrow> u_long \<Rightarrow> u_long \<Rightarrow> nat \<Rightarrow> (nat \<times> free_case) option" where
  "extent_free_scan exf [] start endd i = None"
| "extent_free_scan exf (rp # rps) start endd i =
     (if er_end rp < start then extent_free_scan exf rps start endd (Suc i)
      else if er_start rp > endd then None
      else if start = er_start rp \<and> endd = er_end rp then Some (i, Free_whole)
      else if EXF_NOCOALESCE \<in> exf then extent_free_scan exf rps start endd (Suc i)
      else if start = er_start rp \<and> endd < er_end rp then Some (i, Free_head)
      else if start > er_start rp \<and> endd = er_end rp then Some (i, Free_tail)
      else if start > er_start rp \<and> endd < er_end rp then Some (i, Free_middle)
      else extent_free_scan exf rps start endd (Suc i))"

text \<open>The label \<open>done\<close>.\<close>

definition extent_free_done :: "extent \<Rightarrow> extent" where
  "extent_free_done ex =
     (if EXF_WANTED \<in> ex_flags ex
      then ex\<lparr>ex_flags := ex_flags ex - {EXF_WANTED}, ex_wakeups := Chan_extent # ex_wakeups ex\<rparr>
      else ex)"

definition extent_free_split :: "extent \<Rightarrow> u_long \<Rightarrow> u_long \<Rightarrow> nat \<Rightarrow> extent_region \<Rightarrow> extent" where
  "extent_free_split ex start endd i nrp =
     (let rp = ex_regions ex ! i
      in ex\<lparr>ex_regions := take i (ex_regions ex) @ rp\<lparr>er_end := start - 1\<rparr>
              # nrp\<lparr>er_start := endd + 1, er_end := er_end rp\<rparr> # drop (Suc i) (ex_regions ex)\<rparr>)"

definition extent_free ::
  "bool \<Rightarrow> extent_region option \<Rightarrow> extent \<Rightarrow> u_long \<Rightarrow> u_long \<Rightarrow> ex_flag set
     \<Rightarrow> (errno + unit) ex_out" where
  "extent_free diag mem ex start sz flags =
     (let endd = start + (sz - 1);
          regions = ex_regions ex
      in if diag \<and> (start < ex_start ex \<or> start > ex_end ex) then Panics
         else if diag \<and> endd < start then Panics
         else
           (case extent_free_scan (ex_flags ex) regions start endd 0 of
              None \<Rightarrow> Panics
            | Some (i, Free_whole) \<Rightarrow>
                Ret (extent_free_done (extent_free_region_descriptor
                       (ex\<lparr>ex_regions := take i regions @ drop (Suc i) regions\<rparr>) (regions ! i)))
                  (Inr ())
            | Some (i, Free_head) \<Rightarrow>
                Ret (extent_free_done
                       (ex\<lparr>ex_regions := regions[i := (regions ! i)\<lparr>er_start := endd + 1\<rparr>]\<rparr>)) (Inr ())
            | Some (i, Free_tail) \<Rightarrow>
                Ret (extent_free_done
                       (ex\<lparr>ex_regions := regions[i := (regions ! i)\<lparr>er_end := start - 1\<rparr>]\<rparr>)) (Inr ())
            | Some (i, Free_middle) \<Rightarrow>
                (case extent_alloc_region_descriptor mem ex flags of
                   Ret ex None \<Rightarrow> Ret ex (Inl ENOMEM)
                 | Ret ex (Some nrp) \<Rightarrow>
                     Ret (extent_free_done (extent_free_split ex start endd i nrp)) (Inr ())
                 | Sleeps ex k \<Rightarrow> Sleeps ex k
                 | Panics \<Rightarrow> Panics)))"

end
