(* ===== verification/Allocator.thy ===== *)
theory Allocator
  imports Prelude
begin

text \<open>
  The contract between an address allocator of the kernel and its clients. The extent
  manager and the resource maps both provide it; the clients (bus space, swap space, the
  System V facilities) rely on it. \<open>give s B s'\<close> says that a step from \<open>s\<close> to \<open>s'\<close>
  handed out the block \<open>B\<close>, \<open>take s B s'\<close> that the owner of \<open>B\<close> gave it back, and
  \<open>taken s\<close> is the set of addresses the allocator considers allocated.
\<close>

text \<open>What clients do: they ask for a block, or give back a block they hold.\<close>

inductive client_run ::
  "('s \<Rightarrow> 'a set \<Rightarrow> 's \<Rightarrow> bool) \<Rightarrow> ('s \<Rightarrow> 'a set \<Rightarrow> 's \<Rightarrow> bool) \<Rightarrow> 's \<Rightarrow> 's \<Rightarrow> 'a set list \<Rightarrow> bool"
  for give take_back s0 where
  start: "client_run give take_back s0 s0 []"
| alloc: "client_run give take_back s0 s bs \<Longrightarrow> give s b s' \<Longrightarrow>
    client_run give take_back s0 s' (b # bs)"
| free: "client_run give take_back s0 s bs \<Longrightarrow> bs = xs @ b # ys \<Longrightarrow> take_back s b s' \<Longrightarrow>
    client_run give take_back s0 s' (xs @ ys)"

fun disjoint_blocks :: "'a set list \<Rightarrow> bool" where
  "disjoint_blocks [] = True"
| "disjoint_blocks (b # bs) = (b \<inter> \<Union> (set bs) = {} \<and> disjoint_blocks bs)"

lemma disjoint_blocks_append [simp]:
  "disjoint_blocks (xs @ ys) \<longleftrightarrow>
     disjoint_blocks xs \<and> disjoint_blocks ys \<and> \<Union> (set xs) \<inter> \<Union> (set ys) = {}"
  by (induction xs) auto

locale allocator =
  fixes inv :: "'s \<Rightarrow> bool"
    and taken :: "'s \<Rightarrow> 'a set"
    and give :: "'s \<Rightarrow> 'a set \<Rightarrow> 's \<Rightarrow> bool"
    and take_back :: "'s \<Rightarrow> 'a set \<Rightarrow> 's \<Rightarrow> bool"
  assumes give_inv: "inv s \<Longrightarrow> give s b s' \<Longrightarrow> inv s'"
    and give_fresh: "inv s \<Longrightarrow> give s b s' \<Longrightarrow> b \<inter> taken s = {}"
    and give_taken: "inv s \<Longrightarrow> give s b s' \<Longrightarrow> taken s' = taken s \<union> b"
    and take_back_inv: "inv s \<Longrightarrow> b \<subseteq> taken s \<Longrightarrow> take_back s b s' \<Longrightarrow> inv s'"
    and take_back_keeps: "inv s \<Longrightarrow> b \<subseteq> taken s \<Longrightarrow> take_back s b s' \<Longrightarrow> taken s - b \<subseteq> taken s'"
begin

text \<open>
  No address is given out twice: whatever the clients do, the blocks they hold are pairwise
  disjoint and all of them count as taken.
\<close>

lemma run_sound:
  assumes "client_run give take_back s0 s bs" and "inv s0"
  shows "inv s \<and> disjoint_blocks bs \<and> \<Union> (set bs) \<subseteq> taken s"
  using assms
proof (induction rule: client_run.induct)
  case (alloc s bs b s')
  then show ?case
    using give_inv [of s b s'] give_fresh [of s b s'] give_taken [of s b s'] by auto
next
  case (free s bs xs b ys s')
  then have held: "b \<subseteq> taken s" and "inv s" by auto
  then have "inv s'" "taken s - b \<subseteq> taken s'"
    using free.hyps(3) take_back_inv take_back_keeps by blast+
  moreover have "\<Union> (set (xs @ ys)) \<subseteq> taken s - b"
    using free by auto
  ultimately show ?case using free by auto
qed simp

lemma run_disjoint:
  assumes "client_run give take_back s0 s bs" and "inv s0"
    and "i < j" and "j < length bs"
  shows "bs ! i \<inter> bs ! j = {}"
proof -
  have "disjoint_blocks bs" using run_sound [OF assms(1,2)] by simp
  then show ?thesis using assms(3,4)
  proof (induction bs arbitrary: i j)
    case (Cons b bs)
    show ?case
    proof (cases i)
      case 0
      then have "bs ! (j - 1) \<subseteq> \<Union> (set bs)"
        using Cons.prems by (intro Union_upper nth_mem) auto
      with 0 Cons.prems show ?thesis by (auto simp: nth_Cons')
    next
      case (Suc i')
      with Cons.IH [of i' "j - 1"] Cons.prems show ?thesis by (auto simp: nth_Cons')
    qed
  qed simp
qed

end

text \<open>
  An allocator that takes back exactly what it is given: then nothing is lost either, and
  what is taken is what was taken at the start together with what the clients hold.
\<close>

locale exact_allocator = allocator +
  assumes take_back_exact:
    "inv s \<Longrightarrow> b \<subseteq> taken s \<Longrightarrow> take_back s b s' \<Longrightarrow> taken s' = taken s - b"
begin

lemma run_exact:
  assumes "client_run give take_back s0 s bs" and "inv s0" and "taken s0 = {}"
  shows "taken s = \<Union> (set bs)"
  using assms
proof (induction rule: client_run.induct)
  case (alloc s bs b s')
  then show ?case
    using give_taken [of s b s'] run_sound [OF alloc.hyps(1) alloc.prems(1)] by auto
next
  case (free s bs xs b ys s')
  note sound = run_sound [OF free.hyps(1) free.prems(1)]
  then have "taken s' = taken s - b"
    using free take_back_exact [of s b s'] by auto
  with sound free show ?case by auto
qed simp

end

end
