(* ===== verification/Extent_Correct.thy ===== *)
theory Extent_Correct
  imports Extent Allocator
begin

text \<open>
  Correctness of the extent manager: the invariant of the region list (sorted, disjoint,
  inside the extent), what every operation does to the set of allocated addresses, and the
  completeness of the best-fit search. The alignment macro comes first.
\<close>

subsection \<open>The alignment macro\<close>

lemma unat_and_exp_mask:
  fixes x :: u_long
  assumes "k < 32"
  shows "unat (x AND - (2 ^ k)) = unat x - unat x mod 2 ^ k"
proof -
  have "x AND - (2 ^ k) = push_bit k (drop_bit k x)"
    unfolding minus_exp_eq_not_mask by (rule bit_eqI) (auto simp: bit_simps)
  then have eq: "x AND - (2 ^ k) = x - take_bit k x"
    using bits_ident [of k x] by (simp add: eq_diff_eq)
  have "unat (take_bit k x) = unat x mod 2 ^ k"
    unfolding unsigned_take_bit_eq by (rule take_bit_eq_mod)
  moreover from this have "take_bit k x \<le> x"
    by (simp add: word_le_nat_alt)
  ultimately show ?thesis
    by (simp add: eq unat_sub)
qed

lemma unat_EXTENT_ALIGN:
  assumes "k < 32"
  shows "unat (EXTENT_ALIGN x (2 ^ k)) =
    ((unat x + (2 ^ k - 1)) mod 2 ^ 32) - ((unat x + (2 ^ k - 1)) mod 2 ^ 32) mod 2 ^ k"
proof -
  have "unat ((2::u_long) ^ k) = 2 ^ k"
    using assms unat_of_nat [of "2 ^ k", where 'a = 32] power_strict_increasing [of k 32 "2::nat"]
    by simp
  then have "unat ((2::u_long) ^ k - 1) = 2 ^ k - 1"
    by (simp add: unat_sub word_le_nat_alt)
  then have "unat (x + (2 ^ k - 1)) = (unat x + (2 ^ k - 1)) mod 2 ^ 32"
    by (simp add: unat_word_ariths)
  with unat_and_exp_mask [OF assms] show ?thesis
    by (simp add: EXTENT_ALIGN_def)
qed

lemma EXTENT_ALIGN_dvd:
  assumes "k < 32"
  shows "2 ^ k dvd unat (EXTENT_ALIGN x (2 ^ k))"
  by (simp add: unat_EXTENT_ALIGN [OF assms] minus_mod_eq_mult_div)

lemma nat_align_up: "(m + (a - 1)) - (m + (a - 1)) mod a \<ge> m" if "0 < a" for m a :: nat
proof -
  have "(m + (a - 1)) mod a \<le> a - 1"
    using that by (metis Suc_pred' less_Suc_eq_le mod_less_divisor)
  then show ?thesis by linarith
qed

lemma nat_align_least:
  fixes m a y :: nat
  assumes "0 < a" and "a dvd y" and "m \<le> y"
  shows "(m + (a - 1)) - (m + (a - 1)) mod a \<le> y"
proof -
  obtain q where y: "y = a * q" using assms(2) by blast
  have "m + (a - 1) < a * Suc q" using assms y by simp
  then have "(m + (a - 1)) div a \<le> q"
    using assms(1) by (metis less_mult_imp_div_less less_Suc_eq_le mult.commute)
  then show ?thesis unfolding minus_mod_eq_mult_div y by (rule mult_le_mono2)
qed

lemma EXTENT_ALIGN_ge:
  assumes "k < 32"
  shows "x \<le> EXTENT_ALIGN x (2 ^ k) \<or> EXTENT_ALIGN x (2 ^ k) = 0"
proof (cases "unat x + (2 ^ k - 1) < 2 ^ 32")
  case True
  then have "unat x \<le> unat (EXTENT_ALIGN x (2 ^ k))"
    using nat_align_up [of "2 ^ k" "unat x"] by (simp add: unat_EXTENT_ALIGN [OF assms])
  then show ?thesis by (simp add: word_le_nat_alt)
next
  case False
  have x: "unat x < 2 ^ 32" using unsigned_less [of x] by simp
  have "(unat x + (2 ^ k - 1)) mod 2 ^ 32 = unat x + (2 ^ k - 1) - 2 ^ 32"
    using False x power_strict_increasing [OF assms, of "2::nat"] by (simp add: le_mod_geq)
  moreover have "unat x + (2 ^ k - 1) - 2 ^ 32 < 2 ^ k"
    using x False by linarith
  ultimately have "unat (EXTENT_ALIGN x (2 ^ k)) = 0"
    by (simp add: unat_EXTENT_ALIGN [OF assms])
  then show ?thesis by (simp add: unat_eq_zero)
qed

lemma EXTENT_ALIGN_least:
  assumes "k < 32" and "2 ^ k dvd unat y" and "x \<le> y"
  shows "x \<le> EXTENT_ALIGN x (2 ^ k) \<and> EXTENT_ALIGN x (2 ^ k) \<le> y"
proof -
  obtain q where q: "unat y = 2 ^ k * q" using assms(2) by blast
  have "unat y < 2 ^ 32" using unsigned_less [of y] by simp
  then have "2 ^ k * q < 2 ^ k * 2 ^ (32 - k)"
    using q assms(1) by (simp flip: power_add)
  then have "Suc q \<le> 2 ^ (32 - k)" by simp
  then have "2 ^ k * Suc q \<le> (2::nat) ^ k * 2 ^ (32 - k)" by (rule mult_le_mono2)
  then have "unat y + 2 ^ k \<le> 2 ^ 32"
    using q assms(1) by (simp flip: power_add)
  then have "unat x + (2 ^ k - 1) < 2 ^ 32"
    using assms(3) by (simp add: word_le_nat_alt)
  then show ?thesis
    using nat_align_up [of "2 ^ k" "unat x"] nat_align_least [of "2 ^ k" "unat y" "unat x"] assms
    by (simp add: unat_EXTENT_ALIGN [OF assms(1)] word_le_nat_alt)
qed

subsection \<open>The region list\<close>

definition region_set :: "extent_region \<Rightarrow> u_long set" where
  "region_set r = {er_start r..er_end r}"

definition used :: "extent_region list \<Rightarrow> u_long set" where
  "used rs = (\<Union>r \<in> set rs. region_set r)"

definition regions_wf :: "u_long \<Rightarrow> u_long \<Rightarrow> extent_region list \<Rightarrow> bool" where
  "regions_wf lo hi rs \<longleftrightarrow>
     sorted_wrt (\<lambda>a b. er_end a < er_start b) rs \<and>
     (\<forall>r \<in> set rs. lo \<le> er_start r \<and> er_start r \<le> er_end r \<and> er_end r \<le> hi)"

definition extent_wf :: "extent \<Rightarrow> bool" where
  "extent_wf ex \<longleftrightarrow> regions_wf (ex_start ex) (ex_end ex) (ex_regions ex)"

lemma used_simps [simp]:
  "used [] = {}" "used (r # rs) = region_set r \<union> used rs" "used (xs @ ys) = used xs \<union> used ys"
  by (auto simp: used_def)

lemma regions_wf_simps [simp]:
  "regions_wf lo hi []"
  "regions_wf lo hi (r # rs) \<longleftrightarrow> (\<forall>r' \<in> set rs. er_end r < er_start r') \<and> lo \<le> er_start r \<and>
     er_start r \<le> er_end r \<and> er_end r \<le> hi \<and> regions_wf lo hi rs"
  "regions_wf lo hi (xs @ ys) \<longleftrightarrow> regions_wf lo hi xs \<and> regions_wf lo hi ys \<and>
     (\<forall>x \<in> set xs. \<forall>y \<in> set ys. er_end x < er_start y)"
  by (auto simp: regions_wf_def sorted_wrt_append)

lemma free_descriptor_frame [simp]:
  "ex_regions (extent_free_region_descriptor ex rp) = ex_regions ex"
  "ex_start (extent_free_region_descriptor ex rp) = ex_start ex"
  "ex_end (extent_free_region_descriptor ex rp) = ex_end ex"
  by (simp_all add: extent_free_region_descriptor_def Let_def)

lemma free_done_frame [simp]:
  "ex_regions (extent_free_done ex) = ex_regions ex"
  "ex_start (extent_free_done ex) = ex_start ex"
  "ex_end (extent_free_done ex) = ex_end ex"
  by (simp_all add: extent_free_done_def)

lemma alloc_descriptor_frame:
  assumes "extent_alloc_region_descriptor mem ex flags = Ret ex' d \<or>
    extent_alloc_region_descriptor mem ex flags = Sleeps ex' k"
  shows "ex_regions ex' = ex_regions ex \<and> ex_start ex' = ex_start ex \<and> ex_end ex' = ex_end ex"
  using assms
  by (auto simp: extent_alloc_region_descriptor_def extent_malloc_descriptor_def
      split: if_splits list.splits option.splits)

lemma alloc_descriptor_no_panic [simp]: "extent_alloc_region_descriptor mem ex flags \<noteq> Panics"
  by (auto simp: extent_alloc_region_descriptor_def extent_malloc_descriptor_def
      split: list.splits option.splits)

subsection \<open>Insertion\<close>

text \<open>The place at which a region can be inserted: between the regions before and after it.\<close>

definition place_ok :: "extent_region list \<Rightarrow> u_long \<Rightarrow> u_long \<Rightarrow> nat \<Rightarrow> bool" where
  "place_ok rs s e i \<longleftrightarrow> i \<le> length rs \<and> (\<forall>r \<in> set (take i rs). er_end r < s) \<and>
     (\<forall>r \<in> set (drop i rs). e < er_start r)"

lemma place_ok_disjoint:
  assumes "place_ok rs s e i"
  shows "used rs \<inter> {s..e} = {}"
proof -
  have "set rs = set (take i rs) \<union> set (drop i rs)"
    by (metis append_take_drop_id set_append)
  with assms show ?thesis
    by (fastforce simp: place_ok_def used_def region_set_def)
qed

lemma insert_frame [simp]:
  "ex_start (extent_insert_and_optimize ex s sz i rp) = ex_start ex"
  "ex_end (extent_insert_and_optimize ex s sz i rp) = ex_end ex"
  by (simp_all add: extent_insert_and_optimize_def Let_def split: list.split)

lemma insert_first:
  assumes wf: "regions_wf lo hi (ex_regions ex)" and place: "place_ok (ex_regions ex) s e 0"
    and e: "e = s + (sz - 1)" and bounds: "lo \<le> s" "s \<le> e" "e \<le> hi"
  shows "regions_wf lo hi (ex_regions (extent_insert_and_optimize ex s sz 0 rp)) \<and>
    used (ex_regions (extent_insert_and_optimize ex s sz 0 rp)) = used (ex_regions ex) \<union> {s..e}"
proof (cases "ex_regions ex")
  case Nil
  then show ?thesis
    using assms by (auto simp: extent_insert_and_optimize_def region_set_def)
next
  case (Cons first others)
  have next_addr: "s + sz = e + 1" using e by simp
  have lt: "e < er_start first" using place Cons by (simp add: place_ok_def)
  show ?thesis
  proof (cases "EXF_NOCOALESCE \<notin> ex_flags ex \<and> s + sz = er_start first")
    case True
    have "{s..e} \<union> {er_start first..er_end first} = {s..er_end first}"
      using word_interval_join [of e "er_start first" s "er_end first"] True lt wf Cons next_addr bounds
      by simp
    with True show ?thesis
      using Cons wf bounds lt
      by (auto simp: extent_insert_and_optimize_def region_set_def intro: order.strict_trans1)
  next
    case False
    then show ?thesis
      using Cons wf bounds place e
      by (auto simp: extent_insert_and_optimize_def region_set_def place_ok_def)
  qed
qed

lemma insert_after:
  assumes wf: "regions_wf lo hi (ex_regions ex)" and place: "place_ok (ex_regions ex) s e (Suc i)"
    and e: "e = s + (sz - 1)" and bounds: "lo \<le> s" "s \<le> e" "e \<le> hi"
  shows "regions_wf lo hi (ex_regions (extent_insert_and_optimize ex s sz (Suc i) rp)) \<and>
    used (ex_regions (extent_insert_and_optimize ex s sz (Suc i) rp)) = used (ex_regions ex) \<union> {s..e}"
proof -
  define before where "before = take i (ex_regions ex)"
  define cur where "cur = ex_regions ex ! i"
  define rest where "rest = drop (Suc i) (ex_regions ex)"
  have i: "i < length (ex_regions ex)" using place by (simp add: place_ok_def)
  have rs: "ex_regions ex = before @ cur # rest"
    using i by (simp add: before_def cur_def rest_def id_take_nth_drop)
  have next_addr: "s + sz = e + 1" using e by simp
  have cur: "er_end cur < s" and rest: "\<forall>r \<in> set rest. e < er_start r"
    using place i by (auto simp: place_ok_def take_Suc_conv_app_nth cur_def rest_def)
  have before: "\<forall>r \<in> set before. er_end r < s"
    using place by (auto simp: place_ok_def before_def take_Suc_conv_app_nth i)
  have wf': "regions_wf lo hi (before @ cur # rest)" using wf rs by simp
  have app: "{er_start cur..er_end cur} \<union> {s..e} = {er_start cur..e}" if "er_end cur + 1 = s"
    using word_interval_join [of "er_end cur" s "er_start cur" e] that cur wf' bounds by simp
  have pre: "{s..e} \<union> {er_start n..er_end n} = {s..er_end n}"
    if "s + sz = er_start n" "n \<in> set rest" for n
  proof -
    have "er_start n \<le> er_end n" using that(2) wf' by (auto simp: regions_wf_def)
    then show ?thesis
      using word_interval_join [of e "er_start n" s "er_end n"] that rest next_addr bounds by simp
  qed
  define appended where "appended = (er_end cur + 1 = s)"
  define cur' where "cur' = (if appended then cur\<lparr>er_end := e\<rparr> else cur)"
  have unf: "ex_regions (extent_insert_and_optimize ex s sz (Suc i) rp) =
    (if EXF_NOCOALESCE \<in> ex_flags ex then before @ cur # rp\<lparr>er_start := s, er_end := e\<rparr> # rest
     else if rest \<noteq> [] \<and> s + sz = er_start (hd rest) then
       if appended then before @ cur'\<lparr>er_end := er_end (hd rest)\<rparr> # tl rest
       else before @ cur' # (hd rest)\<lparr>er_start := s\<rparr> # tl rest
     else if appended then before @ cur' # rest
     else before @ cur # rp\<lparr>er_start := s, er_end := e\<rparr> # rest)"
    by (simp add: extent_insert_and_optimize_def Let_def before_def cur_def rest_def e
        appended_def cur'_def)
  show ?thesis
  proof (cases "EXF_NOCOALESCE \<notin> ex_flags ex \<and> rest \<noteq> [] \<and> s + sz = er_start (hd rest)")
    case True
    then obtain n others where n: "rest = n # others" "s + sz = er_start n" by (cases rest) auto
    have le: "er_start cur \<le> e" "er_start n \<le> er_end n" "e < er_start n"
      using n wf' cur rest bounds by (auto intro: order.trans)
    then have le': "er_start cur \<le> er_end n" "s \<le> er_end n" "er_end cur < er_start n"
      using n wf' bounds by (auto intro: order.trans)
    show ?thesis
    proof (cases appended)
      case True': True
      have "{er_start cur..er_end n} = {er_start cur..er_end cur} \<union> {s..e} \<union> {er_start n..er_end n}"
        using app True' word_interval_join [of e "er_start n" "er_start cur" "er_end n"] le n next_addr
        by (simp add: appended_def)
      with True True' n wf' before le le' show ?thesis
        by (simp add: unf rs cur'_def region_set_def Un_ac)
    next
      case False
      with True n wf' before le le' cur rest bounds pre [OF n(2)] show ?thesis
        by (auto simp: unf rs cur'_def region_set_def simp flip: pre [OF n(2)])
    qed
  next
    case False
    have "er_start cur \<le> e" using cur bounds wf' by (auto intro: order.trans)
    with False show ?thesis
      using wf' before cur rest bounds app rs
      by (auto simp: unf appended_def cur'_def region_set_def)
  qed
qed

lemma insert_correct:
  assumes "regions_wf lo hi (ex_regions ex)" and "place_ok (ex_regions ex) s e i"
    and "e = s + (sz - 1)" and "lo \<le> s" "s \<le> e" "e \<le> hi"
  shows "regions_wf lo hi (ex_regions (extent_insert_and_optimize ex s sz i rp))"
    and "used (ex_regions (extent_insert_and_optimize ex s sz i rp)) = used (ex_regions ex) \<union> {s..e}"
  using insert_first [of lo hi ex s e sz rp] insert_after [of lo hi ex s e "i - 1" sz rp] assms
  by (cases i; simp)+

subsection \<open>Allocation of a given region\<close>

lemma scan_Some:
  assumes "regions_wf lo hi rs" and "extent_region_scan rs s e n = Some l"
  shows "n \<le> l \<and> place_ok rs s e (l - n)"
  using assms
proof (induction rs arbitrary: n)
  case Nil
  then show ?case by (simp add: place_ok_def)
next
  case (Cons r rs)
  show ?case
  proof (cases "er_start r > e")
    case True
    then show ?thesis
      using Cons.prems by (auto simp: place_ok_def regions_wf_def intro: order.strict_trans1)
  next
    case False
    then have later: "extent_region_scan rs s e (Suc n) = Some l" and before: "er_end r < s"
      using Cons.prems(2) by (auto split: if_splits)
    have l: "Suc n \<le> l" and place: "place_ok rs s e (l - Suc n)"
      using Cons.IH [OF _ later] Cons.prems(1) by simp_all
    have "l - n = Suc (l - Suc n)" using l by simp
    then show ?thesis using before place l by (simp add: place_ok_def)
  qed
qed

lemma scan_None:
  assumes "regions_wf lo hi rs" and "extent_region_scan rs s e n = None" and "s \<le> e"
  shows "used rs \<inter> {s..e} \<noteq> {}"
  using assms
proof (induction rs arbitrary: n)
  case Nil
  then show ?case by simp
next
  case (Cons r rs)
  show ?case
  proof (cases "er_end r \<ge> s")
    case True
    then have "er_start r \<le> e" using Cons.prems(2) by (auto split: if_splits)
    then have "max (er_start r) s \<in> region_set r \<inter> {s..e}"
      using True Cons.prems(1,3) by (simp add: region_set_def max_def)
    then show ?thesis by auto
  next
    case False
    then show ?thesis using Cons by (auto split: if_splits)
  qed
qed

lemma scan_correct:
  assumes "regions_wf lo hi rs" and "s \<le> e"
  shows "extent_region_scan rs s e 0 = None \<longleftrightarrow> used rs \<inter> {s..e} \<noteq> {}"
  using scan_None [OF assms(1) _ assms(2), of 0] scan_Some [OF assms(1), of s e 0]
    place_ok_disjoint [of rs s e]
  by (cases "extent_region_scan rs s e 0") auto

lemma alloc_region_start_correct:
  assumes wf: "extent_wf ex" and e: "e = s + (sz - 1)" and "s \<le> e"
    and "ex_start ex \<le> s" and "e \<le> ex_end ex"
    and ret: "extent_alloc_region_start ex s sz flags myrp = Ret ex' (Inr ())"
  shows "extent_wf ex' \<and> used (ex_regions ex) \<inter> {s..e} = {} \<and>
    used (ex_regions ex') = used (ex_regions ex) \<union> {s..e} \<and>
    ex_start ex' = ex_start ex \<and> ex_end ex' = ex_end ex"
proof -
  have wf': "regions_wf (ex_start ex) (ex_end ex) (ex_regions ex)"
    using wf by (simp add: extent_wf_def)
  from ret e obtain l where l: "extent_region_scan (ex_regions ex) s e 0 = Some l"
    and ex': "ex' = extent_insert_and_optimize ex s sz l myrp"
    by (auto simp: extent_alloc_region_start_def split: option.splits if_splits)
  have place: "place_ok (ex_regions ex) s e l"
    using scan_Some [OF wf' l] by simp
  show ?thesis
    using insert_correct [OF wf' place e] place_ok_disjoint [OF place] assms(3-5)
    by (simp add: ex' extent_wf_def)
qed

subsection \<open>The search for a gap\<close>

lemma LE_OV_room:
  assumes "LE_OV n sz z" and "sz \<noteq> 0"
  shows "n \<le> n + (sz - 1)" and "n + (sz - 1) < z"
proof -
  have "unat (n + sz) = unat n + unat sz" and "unat n + unat sz \<le> unat z" and "unat sz \<noteq> 0"
    using assms unat_u_long_bound [of sz]
    by (auto simp: LE_OV_def word_le_nat_alt unat_plus_if' unat_eq_zero split: if_splits)
  moreover have "unat (sz - 1) = unat sz - 1"
    using assms(2) by (metis One_nat_def unat_minus_one)
  ultimately show "n \<le> n + (sz - 1)" and "n + (sz - 1) < z"
    by (auto simp: word_le_nat_alt word_less_nat_alt unat_plus_if' split: if_splits)
qed

lemma end_no_room:
  fixes n c z x :: u_long
  assumes "\<not> LE_OV n c z" and "n \<le> x" and "x \<le> x + c"
  shows "z < x + c"
  using assms
  by (auto simp: LE_OV_def word_le_nat_alt word_less_nat_alt unat_plus_if' not_le split: if_splits)

lemma no_room_overlaps:
  fixes n sz z x :: u_long
  assumes "\<not> LE_OV n sz z" and "sz \<noteq> 0" and "n \<le> x" and "x \<le> x + (sz - 1)" and "x < z"
  shows "z \<le> x + (sz - 1)"
proof -
  have "unat (sz - 1) = unat sz - 1" and "unat sz \<noteq> 0"
    using assms(2) by (metis One_nat_def unat_minus_one, simp add: unat_eq_zero)
  then show ?thesis
    using assms unat_u_long_bound [of z]
    by (auto simp: LE_OV_def word_le_nat_alt word_less_nat_alt unat_plus_if' not_le split: if_splits)
qed

text \<open>An address at which a request of \<open>sz\<close> bytes aligned to \<open>2 ^ k\<close> fits between the regions.\<close>

definition fits :: "u_long \<Rightarrow> u_long \<Rightarrow> extent_region list \<Rightarrow> u_long \<Rightarrow> nat \<Rightarrow> u_long \<Rightarrow> bool" where
  "fits lo hi rs sz k x \<longleftrightarrow> 2 ^ k dvd unat x \<and> lo \<le> x \<and> x \<le> x + (sz - 1) \<and> x + (sz - 1) \<le> hi \<and>
     used rs \<inter> {x..x + (sz - 1)} = {}"

text \<open>The same with the place in the list at which it would be inserted.\<close>

definition fits_at ::
  "u_long \<Rightarrow> u_long \<Rightarrow> extent_region list \<Rightarrow> u_long \<Rightarrow> nat \<Rightarrow> u_long \<Rightarrow> nat \<Rightarrow> bool" where
  "fits_at lo hi rs sz k x i \<longleftrightarrow> 2 ^ k dvd unat x \<and> lo \<le> x \<and> x \<le> x + (sz - 1) \<and> x + (sz - 1) \<le> hi \<and>
     place_ok rs x (x + (sz - 1)) i"

lemma fits_at_fits: "fits_at lo hi rs sz k x i \<Longrightarrow> fits lo hi rs sz k x"
  unfolding fits_at_def fits_def using place_ok_disjoint by blast

lemma fits_not_in_region:
  assumes "fits lo hi rs sz k x" and "r \<in> set rs"
  shows "x \<notin> region_set r"
  using assms by (auto simp: fits_def used_def)

text \<open>No fit between \<open>n\<close> and the end of a region before which there is no room.\<close>

lemma no_fit_before:
  assumes fit: "fits lo hi rs sz k x" and r: "r \<in> set rs" "er_start r \<le> er_end r"
    and n: "n \<le> x" "\<not> LE_OV n sz (er_start r)" and sz: "sz \<noteq> 0"
  shows "er_end r < x"
proof (rule ccontr)
  assume "\<not> er_end r < x"
  moreover have "x \<notin> region_set r" using fits_not_in_region [OF fit r(1)] .
  ultimately have lt: "x < er_start r" by (auto simp: region_set_def not_less)
  have "x \<le> x + (sz - 1)" using fit by (simp add: fits_def)
  from no_room_overlaps [OF n(2) sz n(1) this lt]
  have "er_start r \<in> region_set r \<inter> {x..x + (sz - 1)}"
    using lt r(2) by (simp add: region_set_def)
  with fit r(1) show False by (auto simp: fits_def used_def)
qed

text \<open>What the search has established when it looks at the region after \<open>xs\<close>.\<close>

definition best_ok ::
  "u_long \<Rightarrow> u_long \<Rightarrow> extent_region list \<Rightarrow> u_long \<Rightarrow> nat \<Rightarrow> ex_flag set \<Rightarrow> extent_best \<Rightarrow> bool" where
  "best_ok lo hi rs sz k flags b \<longleftrightarrow>
     (bestovh b \<noteq> 0 \<longrightarrow> EX_FAST \<notin> flags \<and> fits_at lo hi rs sz k (beststart b) (bestlast b))"

definition search_inv ::
  "u_long \<Rightarrow> u_long \<Rightarrow> extent_region list \<Rightarrow> u_long \<Rightarrow> nat \<Rightarrow> ex_flag set \<Rightarrow> extent_region list
     \<Rightarrow> u_long \<Rightarrow> extent_best \<Rightarrow> bool" where
  "search_inv lo hi rs sz k flags xs newstart b \<longleftrightarrow>
     (\<forall>r \<in> set xs. er_end r < newstart) \<and> lo \<le> newstart \<and> 2 ^ k dvd unat newstart \<and>
     best_ok lo hi rs sz k flags b \<and>
     (bestovh b = 0 \<longrightarrow> (\<forall>x < newstart. \<not> fits lo hi rs sz k x))"

fun search_result_ok ::
  "u_long \<Rightarrow> u_long \<Rightarrow> extent_region list \<Rightarrow> u_long \<Rightarrow> nat \<Rightarrow> ex_flag set \<Rightarrow> sub_search \<Rightarrow> bool" where
  "search_result_ok lo hi rs sz k flags (Sub_found x i) \<longleftrightarrow> fits_at lo hi rs sz k x i"
| "search_result_ok lo hi rs sz k flags (Sub_fail b) \<longleftrightarrow>
     best_ok lo hi rs sz k flags b \<and> (bestovh b = 0 \<longrightarrow> (\<forall>x. \<not> fits lo hi rs sz k x))"
| "search_result_ok lo hi rs sz k flags (Sub_end x i b) \<longleftrightarrow>
     i = length rs \<and> search_inv lo hi rs sz k flags rs x b"

lemma room_fits_at:
  assumes wf: "regions_wf lo' hi (xs @ rp # rps)"
    and inv: "search_inv lo hi (xs @ rp # rps) sz k flags xs newstart b"
    and room: "LE_OV newstart sz (er_start rp)" and sz: "sz \<noteq> 0"
  shows "fits_at lo hi (xs @ rp # rps) sz k newstart (length xs)"
proof -
  note r = LE_OV_room [OF room sz]
  have "newstart + (sz - 1) \<le> hi"
    using r wf by auto
  with r wf inv show ?thesis
    by (auto simp: fits_at_def search_inv_def place_ok_def intro: order.strict_trans order.strict_trans1)
qed

text \<open>Skipping a region: the next candidate address lies behind it, or the addresses ran out.\<close>

lemma align_past:
  assumes k: "k < 32" and ge: "\<not> EXTENT_ALIGN (e + 1) (2 ^ k) < e"
  shows "e < EXTENT_ALIGN (e + 1) (2 ^ k)"
proof (cases "EXTENT_ALIGN (e + 1) (2 ^ k) = 0")
  case True
  with ge have "e = 0" by (simp add: word_gt_0)
  have "unat ((2::u_long) ^ k) = 2 ^ k"
    using k unat_of_nat [of "2 ^ k", where 'a = 32] power_strict_increasing [of k 32 "2::nat"]
    by simp
  then have "2 ^ k dvd unat ((2::u_long) ^ k)" and "(1::u_long) \<le> 2 ^ k"
    by (simp_all add: word_le_nat_alt)
  from EXTENT_ALIGN_least [OF k this] True \<open>e = 0\<close> show ?thesis by simp
next
  case False
  then have le: "e + 1 \<le> EXTENT_ALIGN (e + 1) (2 ^ k)"
    using EXTENT_ALIGN_ge [OF k, of "e + 1"] by simp
  have "e + 1 \<noteq> 0"
    using EXTENT_ALIGN_least [OF k, of 0 0] False by auto
  then have "e < e + 1"
    by unat_arith
  with le show ?thesis by simp
qed

lemma no_fit_up_to:
  assumes wf: "regions_wf lo' hi (xs @ rp # rps)" and sz: "sz \<noteq> 0"
    and inv: "search_inv lo hi (xs @ rp # rps) sz k flags xs newstart b"
    and room: "\<not> LE_OV newstart sz (er_start rp)" and "bestovh b = 0"
    and fit: "fits lo hi (xs @ rp # rps) sz k x"
  shows "er_end rp < x"
proof -
  have "newstart \<le> x"
    using inv assms(5) fit by (auto simp: search_inv_def not_less)
  then show ?thesis
    using no_fit_before [OF fit, of rp newstart] room wf sz by auto
qed

text \<open>
  \<open>b'\<close> is the best choice after the look at \<open>rp\<close>: unchanged when there was no room, and not
  empty when there was.
\<close>

lemma skip_region:
  assumes wf: "regions_wf lo' hi (xs @ rp # rps)" and k: "k < 32" and sz: "sz \<noteq> 0"
    and floor: "lo \<le> er_start rp"
    and inv: "search_inv lo hi (xs @ rp # rps) sz k flags xs newstart b"
    and best: "best_ok lo hi (xs @ rp # rps) sz k flags b'"
    and none: "bestovh b' = 0 \<Longrightarrow> \<not> LE_OV newstart sz (er_start rp) \<and> b' = b"
    and n': "n' = EXTENT_ALIGN (er_end rp + 1) (2 ^ k)"
  shows "if n' < er_end rp then search_result_ok lo hi (xs @ rp # rps) sz k flags (Sub_fail b')
    else search_inv lo hi (xs @ rp # rps) sz k flags (xs @ [rp]) n' b'"
proof -
  let ?rs = "xs @ rp # rps"
  have past: "er_end rp < x" if "fits lo hi ?rs sz k x" "bestovh b' = 0" for x
    using no_fit_up_to [OF wf sz inv _ _ that(1)] none [OF that(2)] that(2) by auto
  have least: "er_end rp + 1 \<le> n' \<and> n' \<le> x" if "2 ^ k dvd unat x" "er_end rp < x" for x
    using EXTENT_ALIGN_least [OF k that(1), of "er_end rp + 1"] that(2) n' by (simp add: word_succ_le)
  have after: "n' \<le> x \<and> er_end rp < n'" if "fits lo hi ?rs sz k x" "bestovh b' = 0" for x
    using past [OF that] least [of x] that(1) word_less_succ [of "er_end rp" x]
    by (auto simp: fits_def intro: order.strict_trans2)
  show ?thesis
  proof (cases "n' < er_end rp")
    case True
    then show ?thesis
      using best after by (auto simp: not_less dest: order.strict_trans)
  next
    case False
    have gt: "er_end rp < n'" using align_past [OF k] False n' by simp
    have "\<forall>r \<in> set (xs @ [rp]). er_end r < n'"
      using wf gt by (auto simp: regions_wf_def sorted_wrt_append intro: order.strict_trans order.strict_trans1)
    moreover have "lo \<le> n'"
      using wf gt floor by (auto intro: order.trans order.strict_trans2)
    ultimately show ?thesis
      using False best after EXTENT_ALIGN_dvd [OF k] n' by (auto simp: search_inv_def dest!: leD)
  qed
qed

lemma better_choice_ok:
  assumes "best_ok lo hi rs sz k flags b" and "fits_at lo hi rs sz k n i"
    and "ovh \<noteq> 0" and "EX_FAST \<notin> flags"
  shows "best_ok lo hi rs sz k flags (better_choice ovh n i b) \<and> bestovh (better_choice ovh n i b) \<noteq> 0"
  using assms by (auto simp: best_ok_def better_choice_def)

lemma subregion_loop_correct:
  assumes "regions_wf lo' hi (xs @ rps)" and "k < 32" and "sz \<noteq> 0"
    and "\<forall>r \<in> set rps. lo \<le> er_start r"
    and "search_inv lo hi (xs @ rps) sz k flags xs newstart b"
  shows "search_result_ok lo hi (xs @ rps) sz k flags
    (extent_subregion_loop exend sz (2 ^ k) 0 flags rps (length xs) newstart (length xs) dontcross b)"
  using assms
proof (induction rps arbitrary: xs newstart dontcross b)
  case Nil
  then show ?case by simp
next
  case (Cons rp rps)
  note wf = Cons.prems(1) and k = Cons.prems(2) and sz = Cons.prems(3)
    and floor = Cons.prems(4) and inv = Cons.prems(5)
  let ?rs = "xs @ rp # rps"
  let ?n' = "EXTENT_ALIGN (er_end rp + 1) (2 ^ k)"
  let ?skip = "\<lambda>b. if ?n' < er_end rp then Sub_fail b
    else extent_subregion_loop exend sz (2 ^ k) 0 flags rps (Suc (length xs)) ?n' (Suc (length xs)) dontcross b"
  have skip: "search_result_ok lo hi ?rs sz k flags (?skip b')"
    if "best_ok lo hi ?rs sz k flags b'"
      "bestovh b' = 0 \<Longrightarrow> \<not> LE_OV newstart sz (er_start rp) \<and> b' = b" for b'
    using skip_region [OF wf k sz _ inv that refl] Cons.IH [of "xs @ [rp]" ?n' b' dontcross]
      wf k sz floor
    by (auto split: if_splits)
  show ?case
  proof (cases "LE_OV newstart sz (er_start rp)")
    case False
    then show ?thesis
      using skip [of b] inv by (simp add: search_inv_def Let_def)
  next
    case True
    let ?ovh = "er_start rp - newstart - sz"
    note fit = room_fits_at [OF wf inv True sz]
    show ?thesis
    proof (cases "EX_FAST \<in> flags \<or> ?ovh = 0")
      case True
      with \<open>LE_OV _ _ _\<close> fit show ?thesis by simp
    next
      case False
      let ?b' = "better_choice ?ovh newstart (length xs) b"
      have "best_ok lo hi ?rs sz k flags ?b' \<and> bestovh ?b' \<noteq> 0"
        by (rule better_choice_ok [OF _ fit]) (use False inv in \<open>auto simp: search_inv_def\<close>)
      then have "search_result_ok lo hi ?rs sz k flags (?skip ?b')"
        by (intro skip) auto
      with \<open>LE_OV _ _ _\<close> False show ?thesis by (simp add: Let_def)
    qed
  qed
qed


lemma subregion_finish_Some:
  assumes "search_result_ok lo hi rs sz k flags r" and "sz \<noteq> 0" and "subend \<le> hi"
    and "extent_subregion_finish hi subend sz flags r = Some (x, i)"
  shows "fits_at lo hi rs sz k x i"
proof -
  have fail: "fits_at lo hi rs sz k x i"
    if "best_ok lo hi rs sz k flags b" "extent_subregion_fail flags b = Some (x, i)" for b
    using that by (auto simp: extent_subregion_fail_def best_ok_def split: if_splits)
  show ?thesis
  proof (cases r)
    case (Sub_end n j b)
    have here: "fits_at lo hi rs sz k n (length rs)" if "LE_OV n (sz - 1) subend"
      using that assms(1,3) Sub_end
      by (auto simp: fits_at_def place_ok_def search_inv_def LE_OV_def)
    show ?thesis
      using Sub_end assms(1,4) here fail [of b]
        fail [of "better_choice (hi - n - (sz - 1)) n (length rs) b"]
        better_choice_ok [of lo hi rs sz k flags b n "length rs" "hi - n - (sz - 1)"]
      by (auto simp: Let_def search_inv_def split: if_splits)
  qed (use assms fail in auto)
qed

lemma subregion_finish_None:
  assumes "search_result_ok lo hi rs sz k flags r" and "sz \<noteq> 0"
    and "extent_subregion_finish hi hi sz flags r = None"
  shows "\<not> fits lo hi rs sz k x"
proof -
  have fail: "bestovh b = 0"
    if "best_ok lo hi rs sz k flags b" "extent_subregion_fail flags b = None" for b
    using that by (auto simp: extent_subregion_fail_def best_ok_def split: if_splits)
  show ?thesis
  proof (cases r)
    case (Sub_end n j b)
    have inv: "search_inv lo hi rs sz k flags rs n b" using Sub_end assms(1) by simp
    have here: "fits_at lo hi rs sz k n (length rs)" if "LE_OV n (sz - 1) hi"
      using that inv by (auto simp: fits_at_def place_ok_def search_inv_def LE_OV_def)
    have no_room: "\<not> LE_OV n (sz - 1) hi"
      using Sub_end assms(3) here inv fail [of "better_choice (hi - n - (sz - 1)) n j b"]
        better_choice_ok [of lo hi rs sz k flags b n j "hi - n - (sz - 1)"] assms(1)
      by (auto simp: Let_def search_inv_def split: if_splits)
    then have "bestovh b = 0"
      using Sub_end assms(3) fail [of b] inv by (simp add: search_inv_def)
    with inv end_no_room [OF no_room] show ?thesis
      by (fastforce simp: search_inv_def fits_def not_less [symmetric])
  qed (use assms fail in auto)
qed

text \<open>The place the search returns, and its completeness, when no region straddles the start.\<close>

lemma subregion_search_correct:
  assumes wf: "extent_wf ex" and k: "k < 32" and sz: "sz \<noteq> 0" and subend: "subend \<le> ex_end ex"
    and al: "2 ^ k dvd unat n"
    and straddle: "\<forall>r \<in> set (ex_regions ex). er_start r < n \<longrightarrow> er_end r < n"
  shows "extent_subregion_search ex subend sz (2 ^ k) 0 flags dontcross n = Some (x, i) \<Longrightarrow>
      fits_at n (ex_end ex) (ex_regions ex) sz k x i"
    and "extent_subregion_search ex (ex_end ex) sz (2 ^ k) 0 flags dontcross n = None \<Longrightarrow>
      \<not> fits n (ex_end ex) (ex_regions ex) sz k y"
proof -
  let ?rs = "ex_regions ex" and ?hi = "ex_end ex"
  define xs where "xs = takeWhile (\<lambda>rp. er_start rp < n) ?rs"
  define rps where "rps = dropWhile (\<lambda>rp. er_start rp < n) ?rs"
  have rs: "?rs = xs @ rps" by (simp add: xs_def rps_def)
  have wf': "regions_wf (ex_start ex) ?hi (xs @ rps)" using wf rs by (simp add: extent_wf_def)
  have ends: "er_start r \<le> er_end r" if "r \<in> set rps" for r
    using wf' that by (simp add: regions_wf_def)
  have hd: "n \<le> er_start (hd rps)" if "rps \<noteq> []"
    using that hd_dropWhile [of "\<lambda>rp. er_start rp < n" ?rs] by (simp add: rps_def not_less)
  have floor: "\<forall>r \<in> set rps. n \<le> er_start r"
  proof (cases rps)
    case (Cons a list)
    then have "n \<le> er_start a" "\<forall>r \<in> set list. er_end a < er_start r"
      using hd wf' by auto
    then show ?thesis using Cons ends [of a] by (auto intro: order.trans less_imp_le)
  qed simp
  have before: "\<forall>r \<in> set xs. er_end r < n"
    using straddle unfolding xs_def by (blast dest: set_takeWhileD)
  have init: "search_inv n ?hi (xs @ rps) sz k flags xs n \<lparr>bestovh = 0, beststart = 0, bestlast = 0\<rparr>"
    using before al by (auto simp: search_inv_def best_ok_def fits_def)
  have res: "search_result_ok n ?hi ?rs sz k flags
      (extent_subregion_loop ?hi sz (2 ^ k) 0 flags (drop (length xs) ?rs) (length xs) n (length xs)
        dontcross \<lparr>bestovh = 0, beststart = 0, bestlast = 0\<rparr>)"
    using subregion_loop_correct [OF wf' k sz floor init] rs by simp
  show "extent_subregion_search ex subend sz (2 ^ k) 0 flags dontcross n = Some (x, i) \<Longrightarrow>
      fits_at n ?hi ?rs sz k x i"
    using subregion_finish_Some [OF res sz subend, of x i]
    by (simp add: extent_subregion_search_def xs_def Let_def)
  show "extent_subregion_search ex ?hi sz (2 ^ k) 0 flags dontcross n = None \<Longrightarrow>
      \<not> fits n ?hi ?rs sz k y"
    using subregion_finish_None [OF res sz, of y]
    by (simp add: extent_subregion_search_def xs_def Let_def)
qed

subsection \<open>Allocation anywhere in the extent\<close>

lemma alloc_descriptor_cases:
  obtains (got) ex1 myrp where "extent_alloc_region_descriptor mem ex flags = Ret ex1 (Some myrp)"
      "ex_regions ex1 = ex_regions ex" "ex_start ex1 = ex_start ex" "ex_end ex1 = ex_end ex"
  | (none) ex1 where "extent_alloc_region_descriptor mem ex flags = Ret ex1 None"
      "ex_regions ex1 = ex_regions ex" "ex_start ex1 = ex_start ex" "ex_end ex1 = ex_end ex"
  | (sleep) ex1 k where "extent_alloc_region_descriptor mem ex flags = Sleeps ex1 k"
      "ex_regions ex1 = ex_regions ex" "ex_start ex1 = ex_start ex" "ex_end ex1 = ex_end ex"
proof (cases "extent_alloc_region_descriptor mem ex flags")
  case (Ret ex1 d)
  then show ?thesis using alloc_descriptor_frame [of mem ex flags ex1] got none by (cases d) auto
next
  case (Sleeps ex1 k)
  then show ?thesis using alloc_descriptor_frame [of mem ex flags ex1] sleep by auto
qed simp

lemma alloc_region_correct:
  assumes wf: "extent_wf ex" and e: "e = s + (sz - 1)" "s \<le> e"
    and ret: "extent_alloc_region diag mem ex s sz flags = Ret ex' (Inr ())"
  shows "extent_wf ex' \<and> used (ex_regions ex) \<inter> {s..e} = {} \<and>
    used (ex_regions ex') = used (ex_regions ex) \<union> {s..e} \<and>
    ex_start ex' = ex_start ex \<and> ex_end ex' = ex_end ex \<and> ex_start ex \<le> s \<and> e \<le> ex_end ex"
proof -
  have bounds: "ex_start ex \<le> s" "e \<le> ex_end ex"
    using ret e by (auto simp: extent_alloc_region_def Let_def split: if_splits)
  show ?thesis
  proof (cases rule: alloc_descriptor_cases [of mem ex flags])
    case (got ex1 myrp)
    then have "extent_alloc_region_start ex1 s sz flags myrp = Ret ex' (Inr ())"
      using ret by (auto simp: extent_alloc_region_def Let_def split: if_splits)
    from alloc_region_start_correct [OF _ e _ _ this] got bounds wf show ?thesis
      by (auto simp: extent_wf_def)
  qed (use ret in \<open>auto simp: extent_alloc_region_def Let_def split: if_splits\<close>)
qed

text \<open>When the region is free and a descriptor is at hand, the allocation succeeds.\<close>

lemma alloc_region_succeeds:
  assumes wf: "extent_wf ex" and e: "e = s + (sz - 1)" "s \<le> e" "1 \<le> sz"
    and bounds: "ex_start ex \<le> s" "e \<le> ex_end ex"
    and free: "used (ex_regions ex) \<inter> {s..e} = {}"
    and desc: "extent_alloc_region_descriptor mem ex flags = Ret ex1 (Some myrp)"
  shows "\<exists>ex'. extent_alloc_region diag mem ex s sz flags = Ret ex' (Inr ())"
proof -
  have regs: "ex_regions ex1 = ex_regions ex"
    using alloc_descriptor_frame [of mem ex flags ex1] desc by auto
  then have "extent_region_scan (ex_regions ex1) s e 0 \<noteq> None"
    using scan_correct [OF _ e(2), of "ex_start ex" "ex_end ex"] wf free
    by (simp add: extent_wf_def)
  then show ?thesis
    using desc bounds e by (auto simp: extent_alloc_region_def extent_alloc_region_start_def Let_def)
qed

lemma alloc_subregion_correct:
  assumes wf: "extent_wf ex" and sz: "sz \<noteq> 0" and k: "k < 32" and n: "n = EXTENT_ALIGN substart (2 ^ k)"
    and subend: "subend \<le> ex_end ex"
    and straddle: "\<forall>r \<in> set (ex_regions ex). er_start r < n \<longrightarrow> er_end r < n"
    and ret: "extent_alloc_subregion diag mem ex substart subend sz (2 ^ k) 0 flags
      = Some (Ret ex' (Inr x))"
  shows "extent_wf ex' \<and> fits n (ex_end ex) (ex_regions ex) sz k x \<and> ex_start ex \<le> x \<and>
    used (ex_regions ex') = used (ex_regions ex) \<union> {x..x + (sz - 1)} \<and>
    ex_start ex' = ex_start ex \<and> ex_end ex' = ex_end ex"
proof (cases rule: alloc_descriptor_cases [of mem ex flags])
  case (got ex1 myrp)
  then have start: "extent_alloc_subregion_start diag ex1 substart subend sz (2 ^ k) 0 flags myrp
      = Some (Ret ex' (Inr x))"
    using ret by (auto simp: extent_alloc_subregion_def split: if_splits)
  then have ge: "ex_start ex \<le> n"
    using n got by (auto simp: extent_alloc_subregion_start_def extent_first_line_def Let_def
        split: if_splits)
  obtain i where found: "extent_subregion_search ex1 subend sz (2 ^ k) 0 flags 0 n = Some (x, i)"
    and ex': "ex' = extent_insert_and_optimize ex1 x sz i myrp"
    using start n by (auto simp: extent_alloc_subregion_start_def extent_first_line_def Let_def
        split: if_splits option.splits prod.splits)
  have wf1: "extent_wf ex1" using wf got by (simp add: extent_wf_def)
  have fit: "fits_at n (ex_end ex) (ex_regions ex) sz k x i"
    using subregion_search_correct(1) [OF wf1 k sz _ _ _ found] subend straddle got n
      EXTENT_ALIGN_dvd [OF k] by simp
  then have place: "place_ok (ex_regions ex1) x (x + (sz - 1)) i" and "n \<le> x"
    and ends: "x \<le> x + (sz - 1)" "x + (sz - 1) \<le> ex_end ex"
    using got by (simp_all add: fits_at_def)
  then have lo: "ex_start ex \<le> x" using ge by simp
  show ?thesis
    using insert_correct [OF _ place refl, of "ex_start ex" "ex_end ex" myrp] wf1 got lo ends
      fits_at_fits [OF fit]
    by (simp add: ex' extent_wf_def)
qed (use ret in \<open>auto simp: extent_alloc_subregion_def split: if_splits\<close>)

lemma alloc_subregion_complete:
  assumes wf: "extent_wf ex" and sz: "sz \<noteq> 0" and k: "k < 32" and n: "n = EXTENT_ALIGN substart (2 ^ k)"
    and straddle: "\<forall>r \<in> set (ex_regions ex). er_start r < n \<longrightarrow> er_end r < n"
    and ret: "extent_alloc_subregion diag mem ex substart (ex_end ex) sz (2 ^ k) 0 flags
      = Some (Ret ex' (Inl EAGAIN))"
  shows "\<not> fits n (ex_end ex) (ex_regions ex) sz k x \<and> ex_regions ex' = ex_regions ex"
proof (cases rule: alloc_descriptor_cases [of mem ex flags])
  case (got ex1 myrp)
  then have start: "extent_alloc_subregion_start diag ex1 substart (ex_end ex1) sz (2 ^ k) 0 flags myrp
      = Some (Ret ex' (Inl EAGAIN))"
    using ret by (auto simp: extent_alloc_subregion_def split: if_splits)
  then have found: "extent_subregion_search ex1 (ex_end ex1) sz (2 ^ k) 0 flags 0 n = None"
    and ex': "ex' = extent_free_region_descriptor ex1 myrp"
    using n by (auto simp: extent_alloc_subregion_start_def extent_first_line_def Let_def
        split: if_splits option.splits prod.splits)
  have wf1: "extent_wf ex1" using wf got by (simp add: extent_wf_def)
  show ?thesis
    using subregion_search_correct(2) [OF wf1 k sz order.refl _ _ found] straddle got n
      EXTENT_ALIGN_dvd [OF k] ex' by simp
qed (use ret in \<open>auto simp: extent_alloc_subregion_def split: if_splits\<close>)

subsection \<open>Freeing\<close>

fun free_case_of :: "free_case \<Rightarrow> extent_region \<Rightarrow> u_long \<Rightarrow> u_long \<Rightarrow> bool" where
  "free_case_of Free_whole r s e \<longleftrightarrow> s = er_start r \<and> e = er_end r"
| "free_case_of Free_head r s e \<longleftrightarrow> s = er_start r \<and> e < er_end r"
| "free_case_of Free_tail r s e \<longleftrightarrow> er_start r < s \<and> e = er_end r"
| "free_case_of Free_middle r s e \<longleftrightarrow> er_start r < s \<and> e < er_end r"

lemma free_scan_Some:
  "extent_free_scan exf rs s e n = Some (i, c) \<Longrightarrow>
    n \<le> i \<and> i - n < length rs \<and> free_case_of c (rs ! (i - n)) s e"
  by (induction rs arbitrary: n) (fastforce split: if_splits simp: nth_Cons' Suc_le_eq)+

lemma used_cut:
  assumes wf: "regions_wf lo hi rs" and i: "i < length rs"
    and sub: "{s..e} \<subseteq> region_set (rs ! i)"
    and new: "used new = region_set (rs ! i) - {s..e}"
  shows "used (take i rs @ new @ drop (Suc i) rs) = used rs - {s..e}"
proof -
  let ?r = "rs ! i" and ?a = "take i rs" and ?b = "drop (Suc i) rs"
  have rs: "rs = ?a @ ?r # ?b" using i by (simp add: id_take_nth_drop)
  have wf': "regions_wf lo hi (?a @ ?r # ?b)" using wf rs by simp
  then have "used ?a \<inter> region_set ?r = {}" "used ?b \<inter> region_set ?r = {}"
    by (fastforce simp: used_def region_set_def)+
  then have "used ?a \<inter> {s..e} = {}" "used ?b \<inter> {s..e} = {}" using sub by blast+
  moreover have "used rs = used ?a \<union> region_set ?r \<union> used ?b"
    by (subst rs) (simp only: used_simps Un_assoc)
  ultimately show ?thesis using new by (simp only: used_simps) blast
qed

text \<open>Replacing a region by others inside it keeps the list well-formed.\<close>

lemma wf_cut:
  assumes wf: "regions_wf lo hi rs" and i: "i < length rs"
    and new: "regions_wf (er_start (rs ! i)) (er_end (rs ! i)) new"
  shows "regions_wf lo hi (take i rs @ new @ drop (Suc i) rs)"
proof -
  have "regions_wf lo hi (take i rs @ rs ! i # drop (Suc i) rs)"
    using wf i by (simp add: id_take_nth_drop [symmetric])
  moreover have "er_start (rs ! i) \<le> er_start x \<and> er_start x \<le> er_end x \<and> er_end x \<le> er_end (rs ! i)"
    if "x \<in> set new" for x using new that by (simp add: regions_wf_def)
  ultimately show ?thesis
    using new by (fastforce simp: regions_wf_def sorted_wrt_append intro: order.trans)
qed

text \<open>What is left of a region when a chunk is cut out of it.\<close>

fun remains :: "free_case \<Rightarrow> extent_region \<Rightarrow> extent_region \<Rightarrow> u_long \<Rightarrow> u_long \<Rightarrow> extent_region list" where
  "remains Free_whole r d s e = []"
| "remains Free_head r d s e = [r\<lparr>er_start := e + 1\<rparr>]"
| "remains Free_tail r d s e = [r\<lparr>er_end := s - 1\<rparr>]"
| "remains Free_middle r d s e = [r\<lparr>er_end := s - 1\<rparr>, d\<lparr>er_start := e + 1, er_end := er_end r\<rparr>]"

lemma remains_set:
  assumes "free_case_of c r s e" and "s \<le> e"
  shows "used (remains c r d s e) = region_set r - {s..e}" and "{s..e} \<subseteq> region_set r"
  using assms
  by (cases c; auto simp: region_set_def word_succ_le_iff word_le_pred_iff)+

lemma remains_wf:
  assumes "free_case_of c r s e" and "s \<le> e"
  shows "regions_wf (er_start r) (er_end r) (remains c r d s e)"
proof -
  have head: "e < er_end r \<Longrightarrow> s \<le> e + 1 \<and> e + 1 \<le> er_end r"
    using assms(2) word_less_succ [of e "er_end r"] by (auto simp: word_succ_le)
  have tail: "er_start r < s \<Longrightarrow> er_start r \<le> s - 1 \<and> s - 1 < s"
    by (simp add: word_le_pred word_pred_less)
  have mid: "e < er_end r \<Longrightarrow> er_start r < s \<Longrightarrow> s - 1 < e + 1"
    using assms(2) word_less_succ [of e "er_end r"] tail by auto
  show ?thesis
    using assms head tail mid by (cases c) auto
qed

lemma free_region_list:
  assumes ret: "extent_free diag mem ex s sz flags = Ret ex' (Inr ())"
    and scan: "extent_free_scan (ex_flags ex) (ex_regions ex) s e 0 = Some (i, c)"
    and e: "e = s + (sz - 1)" and i: "i < length (ex_regions ex)"
  obtains d where "ex_regions ex' = take i (ex_regions ex) @ remains c (ex_regions ex ! i) d s e
      @ drop (Suc i) (ex_regions ex)"
    and "ex_start ex' = ex_start ex" and "ex_end ex' = ex_end ex"
proof (cases "c = Free_middle")
  case True
  show ?thesis
  proof (cases rule: alloc_descriptor_cases [of mem ex flags])
    case (got ex1 d)
    then have "ex' = extent_free_done (extent_free_split ex1 s e i d)"
      using ret scan e True by (auto simp: extent_free_def Let_def split: if_splits)
    then show ?thesis
      using that [of d] True got by (simp add: extent_free_split_def Let_def)
  qed (use ret scan e True in \<open>auto simp: extent_free_def Let_def split: if_splits\<close>)
next
  case False
  then have "ex_regions ex' = take i (ex_regions ex) @ remains c (ex_regions ex ! i) undefined s e
      @ drop (Suc i) (ex_regions ex) \<and> ex_start ex' = ex_start ex \<and> ex_end ex' = ex_end ex"
    using ret scan e i
    by (cases c) (auto simp: extent_free_def Let_def upd_conv_take_nth_drop split: if_splits)
  then show ?thesis using that by blast
qed

lemma extent_free_correct:
  assumes wf: "extent_wf ex" and e: "e = s + (sz - 1)" "s \<le> e"
    and ret: "extent_free diag mem ex s sz flags = Ret ex' (Inr ())"
  shows "extent_wf ex' \<and> {s..e} \<subseteq> used (ex_regions ex) \<and>
    used (ex_regions ex') = used (ex_regions ex) - {s..e} \<and>
    ex_start ex' = ex_start ex \<and> ex_end ex' = ex_end ex"
proof -
  let ?rs = "ex_regions ex"
  have wf': "regions_wf (ex_start ex) (ex_end ex) ?rs" using wf by (simp add: extent_wf_def)
  obtain i c where scan: "extent_free_scan (ex_flags ex) ?rs s e 0 = Some (i, c)"
    using ret e by (auto simp: extent_free_def Let_def split: option.splits if_splits)
  from free_scan_Some [OF this] have i: "i < length ?rs" and c: "free_case_of c (?rs ! i) s e"
    by simp_all
  obtain d where regs: "ex_regions ex' = take i ?rs @ remains c (?rs ! i) d s e @ drop (Suc i) ?rs"
    and same: "ex_start ex' = ex_start ex" "ex_end ex' = ex_end ex"
    by (rule free_region_list [OF ret scan e(1) i])
  have "region_set (?rs ! i) \<subseteq> used ?rs" using nth_mem [OF i] unfolding used_def by blast
  then show ?thesis
    using wf_cut [OF wf' i remains_wf [OF c e(2)], of d] remains_set(2) [OF c e(2)]
      used_cut [OF wf' i remains_set(2) [OF c e(2)] remains_set(1) [OF c e(2), of d]]
    by (auto simp: extent_wf_def regs same)
qed

text \<open>Freeing a chunk of one region of a coalescing extent never panics.\<close>

lemma free_scan_finds:
  assumes "regions_wf lo hi rs" and "r \<in> set rs" and "er_start r \<le> s" and "s \<le> e" and "e \<le> er_end r"
    and "EXF_NOCOALESCE \<notin> exf"
  shows "extent_free_scan exf rs s e n \<noteq> None"
  using assms
proof (induction rs arbitrary: n)
  case (Cons a rs)
  show ?case
  proof (cases "a = r")
    case True
    have "\<not> er_end r < s" "\<not> e < er_start r" "er_start r \<noteq> s \<longrightarrow> er_start r < s"
      "e \<noteq> er_end r \<longrightarrow> e < er_end r"
      using Cons.prems by auto
    with True Cons.prems(6) show ?thesis
      by (cases "er_start r = s"; cases "e = er_end r"; simp)
  next
    case False
    with Cons.prems have r: "r \<in> set rs" and lt: "er_end a < s"
      by (auto intro: order.strict_trans2)
    have "regions_wf lo hi rs" using Cons.prems(1) by simp
    from Cons.IH [OF this r Cons.prems(3-6)] lt show ?thesis by simp
  qed
qed simp

subsection \<open>The allocator contract\<close>

text \<open>
  One step in which the extent manager hands out a region: a call of
  \<^verbatim>\<open>extent_alloc_region\<close> or, without boundary lines and with no region across the aligned
  start, of \<^verbatim>\<open>extent_alloc_subregion\<close>.
\<close>

inductive extent_gives :: "extent \<Rightarrow> u_long set \<Rightarrow> extent \<Rightarrow> bool" where
  region: "extent_alloc_region diag mem ex s sz flags = Ret ex' (Inr ()) \<Longrightarrow> s \<le> s + (sz - 1) \<Longrightarrow>
    extent_gives ex {s..s + (sz - 1)} ex'"
| subregion: "extent_alloc_subregion diag mem ex substart subend sz (2 ^ k) 0 flags
      = Some (Ret ex' (Inr x)) \<Longrightarrow> sz \<noteq> 0 \<Longrightarrow> k < 32 \<Longrightarrow> subend \<le> ex_end ex \<Longrightarrow>
    \<forall>r \<in> set (ex_regions ex). er_start r < EXTENT_ALIGN substart (2 ^ k) \<longrightarrow>
      er_end r < EXTENT_ALIGN substart (2 ^ k) \<Longrightarrow>
    extent_gives ex {x..x + (sz - 1)} ex'"

inductive extent_takes_back :: "extent \<Rightarrow> u_long set \<Rightarrow> extent \<Rightarrow> bool" where
  free: "extent_free diag mem ex s sz flags = Ret ex' (Inr ()) \<Longrightarrow> s \<le> s + (sz - 1) \<Longrightarrow>
    extent_takes_back ex {s..s + (sz - 1)} ex'"

lemma extent_gives_correct:
  assumes "extent_gives ex b ex'" and "extent_wf ex"
  shows "extent_wf ex' \<and> b \<inter> used (ex_regions ex) = {} \<and>
    used (ex_regions ex') = used (ex_regions ex) \<union> b"
  using assms(1)
proof cases
  case (region diag mem s sz flags)
  then show ?thesis
    using alloc_region_correct [OF assms(2) refl region(3) region(2)] by auto
next
  case (subregion diag mem substart subend sz k flags x)
  then show ?thesis
    using alloc_subregion_correct [OF assms(2) subregion(3,4) refl subregion(5,6,2)]
    by (auto simp: fits_def)
qed

lemma extent_takes_back_correct:
  assumes "extent_takes_back ex b ex'" and "extent_wf ex"
  shows "extent_wf ex' \<and> used (ex_regions ex') = used (ex_regions ex) - b"
  using assms(1)
proof cases
  case (free diag mem s sz flags)
  then show ?thesis
    using extent_free_correct [OF assms(2) refl free(3) free(2)] by auto
qed

interpretation extent: exact_allocator extent_wf "\<lambda>ex. used (ex_regions ex)" extent_gives
  extent_takes_back
  by unfold_locales (auto dest: extent_gives_correct extent_takes_back_correct)

lemma extent_wf_empty: "ex_regions ex = [] \<Longrightarrow> extent_wf ex"
  by (simp add: extent_wf_def)

lemma extent_create_regions:
  "extent_create diag fsz rsz mem name lo hi storage flags = Ret (Some ex) () \<Longrightarrow> ex_regions ex = []"
  by (auto simp: extent_create_def Let_def split: if_splits)

subsection \<open>Properties\<close>

definition sample_extent :: extent where
  "sample_extent = \<lparr>ex_name = ''iomem'', ex_regions =
      [\<lparr>er_start = 16, er_end = 31, er_alloc = True\<rparr>, \<lparr>er_start = 48, er_end = 63, er_alloc = True\<rparr>],
    ex_start = 0, ex_end = 127, ex_flags = {}, fex_freelist = [], ex_wakeups = [], ex_heap = 2\<rparr>"

definition sample_block :: extent_region where
  "sample_block = \<lparr>er_start = 0, er_end = 0, er_alloc = True\<rparr>"

text \<open>
  No descriptor is to be had: the caller of a fixed extent may sleep for one, or there is none and the call fails.
\<close>

definition waits_for_descriptor :: "extent \<Rightarrow> ex_flag set \<Rightarrow> bool" where
  "waits_for_descriptor ex flags \<longleftrightarrow>
     EXF_FIXED \<in> ex_flags ex \<and> fex_freelist ex = [] \<and> EX_MALLOCOK \<notin> flags \<and> EX_WAITOK \<in> flags"

definition no_descriptor :: "extent_region option \<Rightarrow> extent \<Rightarrow> ex_flag set \<Rightarrow> bool" where
  "no_descriptor mem ex flags \<longleftrightarrow>
     (if EXF_FIXED \<in> ex_flags ex then fex_freelist ex = [] \<and> (if EX_MALLOCOK \<in> flags then mem = None else EX_WAITOK \<notin> flags)
      else mem = None)"

lemma alloc_descriptor_exact:
  obtains (got) ex1 myrp where "extent_alloc_region_descriptor mem ex flags = Ret ex1 (Some myrp)"
      "\<not> no_descriptor mem ex flags" "\<not> waits_for_descriptor ex flags"
  | (none) "extent_alloc_region_descriptor mem ex flags = Ret ex None" "no_descriptor mem ex flags" "\<not> waits_for_descriptor ex flags"
  | (sleep) "extent_alloc_region_descriptor mem ex flags = Sleeps (ex\<lparr>ex_flags := insert EXF_FLWANTED (ex_flags ex)\<rparr>) Hold_nothing"
      "waits_for_descriptor ex flags" "\<not> no_descriptor mem ex flags"
  unfolding extent_alloc_region_descriptor_def extent_malloc_descriptor_def no_descriptor_def waits_for_descriptor_def
  by (cases "EXF_FIXED \<in> ex_flags ex"; cases "fex_freelist ex"; cases mem; cases "EX_MALLOCOK \<in> flags"; cases "EX_WAITOK \<in> flags") auto

text \<open>
  C19: for a region inside the extent, \<^verbatim>\<open>extent_alloc_region\<close> succeeds exactly when the region is free and a descriptor is at hand.
  It then adds that range. Otherwise the regions stay and the
  outcome says why: without a descriptor the call fails with \<open>ENOMEM\<close>, or sleeps for one, whether or not the region is free;
  with a descriptor and a region that is not free it fails with \<open>EAGAIN\<close>, or sleeps for space.
\<close>

theorem extent_alloc_region_spec:
  assumes wf: "extent_wf ex" and sz: "1 \<le> sz" and e: "e = s + (sz - 1)" "s \<le> e"
    and bounds: "ex_start ex \<le> s" "e \<le> ex_end ex"
  shows "case extent_alloc_region diag mem ex s sz flags of
      Ret ex' (Inr _) \<Rightarrow> used (ex_regions ex) \<inter> {s..e} = {} \<and> \<not> no_descriptor mem ex flags \<and> \<not> waits_for_descriptor ex flags \<and>
        extent_wf ex' \<and> used (ex_regions ex') = used (ex_regions ex) \<union> {s..e}
    | Ret ex' (Inl err) \<Rightarrow> ex_regions ex' = ex_regions ex \<and>
        (if no_descriptor mem ex flags then err = ENOMEM
         else err = EAGAIN \<and> used (ex_regions ex) \<inter> {s..e} \<noteq> {} \<and> EX_WAITSPACE \<notin> flags)
    | Sleeps ex' k \<Rightarrow> ex_regions ex' = ex_regions ex \<and>
        (if waits_for_descriptor ex flags then k = Hold_nothing \<and> EXF_FLWANTED \<in> ex_flags ex'
         else used (ex_regions ex) \<inter> {s..e} \<noteq> {} \<and> EX_WAITSPACE \<in> flags \<and> EXF_WANTED \<in> ex_flags ex' \<and> k \<noteq> Hold_nothing)
    | Panics \<Rightarrow> False"
proof (cases rule: alloc_descriptor_exact [of mem ex flags])
  case (got ex1 myrp)
  show ?thesis
  proof (cases "used (ex_regions ex) \<inter> {s..e} = {}")
    case True
    obtain ex' where ok: "extent_alloc_region diag mem ex s sz flags = Ret ex' (Inr ())"
      using alloc_region_succeeds [OF wf e sz bounds True got(1)] by blast
    from alloc_region_correct [OF wf e this] got show ?thesis by (simp add: ok)
  next
    case False
    have regs: "ex_regions ex1 = ex_regions ex"
      using alloc_descriptor_frame [of mem ex flags ex1] got by auto
    have "extent_region_scan (ex_regions ex1) s e 0 = None"
      using scan_correct [OF _ e(2), of "ex_start ex" "ex_end ex"] wf False regs
      by (simp add: extent_wf_def)
    then show ?thesis
      using False got bounds e sz regs
      by (auto simp: extent_alloc_region_def extent_alloc_region_start_def Let_def)
  qed
qed (use bounds e sz in \<open>auto simp: extent_alloc_region_def Let_def\<close>)

lemma sample_extent_wf: "extent_wf sample_extent"
  by (simp add: extent_wf_def sample_extent_def)

theorem extent_alloc_region_spec_witness:
  "\<exists>ex'. extent_alloc_region True (Some sample_block) sample_extent 32 16 {} = Ret ex' (Inr ()) \<and>
     ex_regions ex' = [\<lparr>er_start = 16, er_end = 63, er_alloc = True\<rparr>] \<and> extent_wf ex'"
proof -
  have run: "extent_alloc_region True (Some sample_block) sample_extent 32 16 {} =
     Ret (sample_extent\<lparr>ex_heap := 1, ex_regions := [\<lparr>er_start = 16, er_end = 63, er_alloc = True\<rparr>]\<rparr>) (Inr ())"
    by (simp add: extent_alloc_region_def extent_alloc_region_start_def
        extent_alloc_region_descriptor_def extent_malloc_descriptor_def
        extent_insert_and_optimize_def extent_free_region_descriptor_def sample_extent_def sample_block_def)
  from extent_alloc_region_spec [where s = 32 and sz = 16 and diag = True and mem = "Some sample_block" and flags = "{}", OF sample_extent_wf _ refl]
  show ?thesis by (simp add: run) (simp add: sample_extent_def)
qed

text \<open>
  A subregion search can hand out addresses that are already allocated.
\<close>

theorem extent_subregion_double_allocation:
  "\<exists>ex'. extent_alloc_subregion True (Some sample_block) sample_extent 20 127 8 4 0 {EX_FAST}
      = Some (Ret ex' (Inr 20)) \<and> {20..27} \<subseteq> used (ex_regions sample_extent)"
proof -
  have "{20..27::u_long} \<subseteq> {16..31}" by simp
  then have "{20..27} \<subseteq> used (ex_regions sample_extent)"
    by (simp add: sample_extent_def region_set_def le_supI1)
  moreover have "\<exists>ex'. extent_alloc_subregion True (Some sample_block) sample_extent 20 127 8 4 0 {EX_FAST}
      = Some (Ret ex' (Inr 20))"
    by (simp add: extent_alloc_subregion_def extent_subregion_bad_args_def
        extent_alloc_region_descriptor_def extent_malloc_descriptor_def
        extent_alloc_subregion_start_def extent_first_line_def EXTENT_ALIGN_def
        extent_subregion_search_def LE_OV_def sample_extent_def sample_block_def Let_def)
  ultimately show ?thesis by blast
qed

text \<open>
  C17: without boundary lines and with a descriptor at hand, \<^verbatim>\<open>extent_alloc\<close> on an extent whose
  start is aligned returns. It hands out an aligned free range inside the extent and adds
  it to the allocated addresses, and it fails (or sleeps) only if no aligned free range of
  that size exists.
\<close>

theorem extent_alloc_spec:
  assumes wf: "extent_wf ex" and sz: "sz \<noteq> 0" "sz - 1 \<le> ex_end ex - ex_start ex"
    and k: "k < 32" and al: "2 ^ k dvd unat (ex_start ex)" and le: "ex_start ex \<le> ex_end ex"
    and desc: "extent_alloc_region_descriptor mem ex flags = Ret ex1 (Some myrp)"
  shows "case extent_alloc diag mem ex sz (2 ^ k) 0 flags of
      Some (Ret ex' (Inr x)) \<Rightarrow> fits (ex_start ex) (ex_end ex) (ex_regions ex) sz k x \<and>
        extent_wf ex' \<and> used (ex_regions ex') = used (ex_regions ex) \<union> {x..x + (sz - 1)}
    | Some (Ret ex' (Inl err)) \<Rightarrow> err = EAGAIN \<and> EX_WAITSPACE \<notin> flags \<and>
        ex_regions ex' = ex_regions ex \<and>
        (\<nexists>y. fits (ex_start ex) (ex_end ex) (ex_regions ex) sz k y)
    | Some (Sleeps ex' h) \<Rightarrow> EX_WAITSPACE \<in> flags \<and> EXF_WANTED \<in> ex_flags ex' \<and>
        ex_regions ex' = ex_regions ex \<and>
        (\<nexists>y. fits (ex_start ex) (ex_end ex) (ex_regions ex) sz k y)
    | Some Panics \<Rightarrow> False
    | None \<Rightarrow> False"
proof -
  let ?out = "extent_alloc diag mem ex sz (2 ^ k) 0 flags"
  have n: "ex_start ex = EXTENT_ALIGN (ex_start ex) (2 ^ k)"
    using EXTENT_ALIGN_least [OF k al order.refl] by (simp add: order.antisym)
  have straddle: "\<forall>r \<in> set (ex_regions ex). er_start r < ex_start ex \<longrightarrow> er_end r < ex_start ex"
    using wf by (auto simp: extent_wf_def regions_wf_def)
  have frame: "ex_regions ex1 = ex_regions ex" "ex_start ex1 = ex_start ex" "ex_end ex1 = ex_end ex"
    using alloc_descriptor_frame [of mem ex flags ex1] desc by auto
  have wf1: "extent_wf ex1" using wf frame by (simp add: extent_wf_def)
  have "(2::u_long) ^ k \<noteq> 0" using k by simp
  then have args: "\<not> extent_subregion_bad_args ex (ex_start ex) (ex_end ex) sz (2 ^ k) 0"
    using sz le by (auto simp: extent_subregion_bad_args_def not_less word_gt_0)
  define search where "search = extent_subregion_search ex1 (ex_end ex) sz (2 ^ k) 0 flags 0 (ex_start ex)"
  have out: "?out = Some (case search of
      Some (x, i) \<Rightarrow> Ret (extent_insert_and_optimize ex1 x sz i myrp) (Inr x)
    | None \<Rightarrow> if EX_WAITSPACE \<in> flags
        then Sleeps (ex1\<lparr>ex_flags := insert EXF_WANTED (ex_flags ex1)\<rparr>) (Hold_region myrp)
        else Ret (extent_free_region_descriptor ex1 myrp) (Inl EAGAIN))"
    using args desc n frame
    by (simp add: extent_alloc_def extent_alloc_subregion_def extent_alloc_subregion_start_def
        extent_first_line_def Let_def search_def)
  show ?thesis
  proof (cases search)
    case None
    then show ?thesis
      using subregion_search_correct(2) [OF wf1 k sz(1) order.refl, of "ex_start ex" flags 0]
        al straddle frame
      by (simp add: out search_def)
  next
    case (Some p)
    then obtain x i where p: "search = Some (x, i)" by (cases p) auto
    then have ok: "?out = Some (Ret (extent_insert_and_optimize ex1 x sz i myrp) (Inr x))"
      using out by simp
    from alloc_subregion_correct [OF wf sz(1) k n order.refl straddle ok [unfolded extent_alloc_def]]
    show ?thesis by (simp add: ok)
  qed
qed

theorem extent_alloc_spec_witness:
  "\<exists>ex'. extent_alloc True (Some sample_block) sample_extent 16 16 0 {} = Some (Ret ex' (Inr 0)) \<and>
     fits 0 127 (ex_regions sample_extent) 16 4 0 \<and>
     used (ex_regions ex') = used (ex_regions sample_extent) \<union> {0..15}"
proof -
  let ?ex' = "sample_extent\<lparr>ex_heap := 2, ex_regions :=
      [\<lparr>er_start = 0, er_end = 31, er_alloc = True\<rparr>, \<lparr>er_start = 48, er_end = 63, er_alloc = True\<rparr>]\<rparr>"
  have run: "extent_alloc True (Some sample_block) sample_extent 16 16 0 {} = Some (Ret ?ex' (Inr 0))"
    by (simp add: extent_alloc_def extent_alloc_subregion_def extent_subregion_bad_args_def
        extent_alloc_region_descriptor_def extent_malloc_descriptor_def
        extent_alloc_subregion_start_def extent_first_line_def EXTENT_ALIGN_def
        extent_subregion_search_def LE_OV_def sample_extent_def sample_block_def Let_def
        extent_insert_and_optimize_def extent_free_region_descriptor_def)
  have desc: "extent_alloc_region_descriptor (Some sample_block) sample_extent {}
      = Ret (sample_extent\<lparr>ex_heap := 3\<rparr>) (Some sample_block)"
    by (simp add: extent_alloc_region_descriptor_def extent_malloc_descriptor_def sample_extent_def
        sample_block_def)
  have "ex_start sample_extent = 0" "ex_end sample_extent = 127"
    by (simp_all add: sample_extent_def)
  with extent_alloc_spec [OF sample_extent_wf _ _ _ _ _ desc, of 16 4 True] run
  show ?thesis by simp
qed

text \<open>
  C22: \<^verbatim>\<open>extent_free\<close> removes exactly the given range from the allocated addresses, whichever
  of its four cases applies, keeps the list sorted, disjoint and in bounds, and wakes the
  processes that wait for space.
\<close>

theorem extent_free_spec:
  assumes "extent_wf ex" and "e = s + (sz - 1)" "s \<le> e"
    and "extent_free diag mem ex s sz flags = Ret ex' (Inr ())"
  shows "{s..e} \<subseteq> used (ex_regions ex) \<and> extent_wf ex' \<and>
    used (ex_regions ex') = used (ex_regions ex) - {s..e} \<and> EXF_WANTED \<notin> ex_flags ex'"
proof -
  have "EXF_WANTED \<notin> ex_flags ex'"
    using assms(4)
    by (auto simp: extent_free_def extent_free_done_def Let_def split: if_splits option.splits
        free_case.splits prod.splits kout.splits)
  then show ?thesis using extent_free_correct [OF assms] by simp
qed

theorem extent_free_spec_witness:
  "\<exists>ex'. extent_free True (Some sample_block) sample_extent 20 4 {} = Ret ex' (Inr ()) \<and>
     used (ex_regions ex') = used (ex_regions sample_extent) - {20..23}"
proof -
  have "extent_free True (Some sample_block) sample_extent 20 4 {} =
    Ret (sample_extent\<lparr>ex_heap := 3, ex_regions :=
      [\<lparr>er_start = 16, er_end = 19, er_alloc = True\<rparr>, \<lparr>er_start = 24, er_end = 31, er_alloc = True\<rparr>,
       \<lparr>er_start = 48, er_end = 63, er_alloc = True\<rparr>]\<rparr>) (Inr ())"
    by (simp add: extent_free_def extent_alloc_region_descriptor_def extent_malloc_descriptor_def
        extent_free_split_def extent_free_done_def sample_extent_def sample_block_def Let_def)
  from extent_free_spec [OF sample_extent_wf _ _ this, of 23] this show ?thesis by simp
qed

text \<open>
  C15: whatever sequence of allocations and frees its clients make on a fresh extent, the
  blocks they hold are pairwise disjoint and are exactly the addresses the extent records
  as allocated.
\<close>

theorem extent_clients_disjoint:
  assumes "extent_create diag fsz rsz mem name lo hi storage flags = Ret (Some ex0) ()"
    and "client_run extent_gives extent_takes_back ex0 ex bs"
  shows "disjoint_blocks bs \<and> used (ex_regions ex) = \<Union> (set bs) \<and> extent_wf ex"
proof -
  have empty: "ex_regions ex0 = []" by (rule extent_create_regions [OF assms(1)])
  have wf: "extent_wf ex0" using empty by (rule extent_wf_empty)
  from extent.run_sound [OF assms(2) wf] extent.run_exact [OF assms(2) wf] empty show ?thesis
    by simp
qed

theorem extent_clients_disjoint_witness:
  "\<exists>ex0 ex. extent_create True 36 20 True ''iomem'' 0 127 None {} = Ret (Some ex0) () \<and>
     client_run extent_gives extent_takes_back ex0 ex [{16..31}] \<and> used (ex_regions ex) = {16..31}"
proof -
  let ?fresh = "\<lparr>ex_name = ''iomem'', ex_regions = [], ex_start = 0, ex_end = 127, ex_flags = {},
      fex_freelist = [], ex_wakeups = [], ex_heap = 0\<rparr>"
  let ?ex = "?fresh\<lparr>ex_heap := 1, ex_regions := [\<lparr>er_start = 16, er_end = 31, er_alloc = True\<rparr>]\<rparr>"
  have create: "extent_create True 36 20 True ''iomem'' 0 127 None {} = Ret (Some ?fresh) ()"
    by code_simp
  have "extent_alloc_region True (Some sample_block) ?fresh 16 16 {} = Ret ?ex (Inr ())"
    by (simp add: extent_alloc_region_def extent_alloc_region_start_def
        extent_alloc_region_descriptor_def extent_malloc_descriptor_def
        extent_insert_and_optimize_def sample_block_def)
  from extent_gives.region [OF this] have "extent_gives ?fresh {16..31} ?ex" by simp
  then have "client_run extent_gives extent_takes_back ?fresh ?ex [{16..31}]"
    by (rule client_run.alloc [OF client_run.start])
  with extent_clients_disjoint [OF create this] create show ?thesis by auto
qed

end
