(* ===== verification/Machine.thy ===== *)
theory Machine
  imports Prelude
begin

text \<open>
  Loops of the form \<open>while (1)\<close> whose body either goes round again or leaves the routine:
  \<open>iterate\<close> repeats a step until it yields a result, and its value is \<open>None\<close> when it never
  does. The locale is the contract of a step that makes progress: a state invariant, a
  rank that every step decreases, and what the results satisfy.
\<close>

partial_function (option) iterate :: "('s \<Rightarrow> 's + 'r) \<Rightarrow> 's \<Rightarrow> 'r option" where
  "iterate step s = (case step s of Inl s' \<Rightarrow> iterate step s' | Inr r \<Rightarrow> Some r)"

declare iterate.simps [code]

lemma iterate_Inl: "step s = Inl s' \<Longrightarrow> iterate step s = iterate step s'"
  by (subst iterate.simps) simp

lemma iterate_Inr: "step s = Inr r \<Longrightarrow> iterate step s = Some r"
  by (subst iterate.simps) simp

locale forward_machine =
  fixes step :: "'e \<Rightarrow> 's \<Rightarrow> 's + 'r"
    and inv :: "'e \<Rightarrow> 's \<Rightarrow> bool"
    and rank :: "'e \<Rightarrow> 's \<Rightarrow> nat"
    and good :: "'e \<Rightarrow> 'r \<Rightarrow> bool"
  assumes step_inv: "inv e s \<Longrightarrow> step e s = Inl s' \<Longrightarrow> inv e s'"
    and step_rank: "inv e s \<Longrightarrow> step e s = Inl s' \<Longrightarrow> rank e s' < rank e s"
    and step_good: "inv e s \<Longrightarrow> step e s = Inr r \<Longrightarrow> good e r"
begin

lemma returns: "inv e s \<Longrightarrow> \<exists>r. iterate (step e) s = Some r \<and> good e r"
proof (induction "rank e s" arbitrary: s rule: less_induct)
  case less
  show ?case
  proof (cases "step e s")
    case (Inl s')
    then obtain r where "iterate (step e) s' = Some r" "good e r"
      using less step_inv step_rank by blast
    with Inl show ?thesis by (simp add: iterate_Inl)
  next
    case (Inr r)
    then show ?thesis using less.prems step_good by (simp add: iterate_Inr)
  qed
qed

end

end
