(* ===== verification/Bpf.thy ===== *)
theory Bpf
  imports Machine
begin

text \<open>
  The packet filter of \<^verbatim>\<open>sys/net/bpf_filter.c\<close>: the instruction set, the interpreter
  \<^verbatim>\<open>bpf_filter\<close> with its loads from a contiguous buffer and from an mbuf chain, and the
  check \<^verbatim>\<open>bpf_validate\<close> that the kernel makes before it accepts a program.

  C leaves some actions undefined; the interpreter yields \<open>Wrong\<close> for them, with what went
  wrong: an instruction fetched outside the program, a scratch word or a packet byte
  outside its array, a division by zero, a shift by at least the width. The
  scratch memory starts as stack garbage (\<open>mem0\<close>), and so does the local \<open>merr\<close> of the
  mbuf loads (\<open>be_junk\<close>: whether the garbage is nonzero), which \<open>MINDEX\<close> leaves unset when
  it returns early.
\<close>

subsection \<open>Instructions\<close>

record bpf_insn =
  insn_code :: u16
  insn_jt :: u8
  insn_jf :: u8
  insn_k :: u32

abbreviation (input) BPF_LD :: u16 where "BPF_LD \<equiv> 0x00"
abbreviation (input) BPF_LDX :: u16 where "BPF_LDX \<equiv> 0x01"
abbreviation (input) BPF_ST :: u16 where "BPF_ST \<equiv> 0x02"
abbreviation (input) BPF_STX :: u16 where "BPF_STX \<equiv> 0x03"
abbreviation (input) BPF_ALU :: u16 where "BPF_ALU \<equiv> 0x04"
abbreviation (input) BPF_JMP :: u16 where "BPF_JMP \<equiv> 0x05"
abbreviation (input) BPF_RET :: u16 where "BPF_RET \<equiv> 0x06"
abbreviation (input) BPF_MISC :: u16 where "BPF_MISC \<equiv> 0x07"
abbreviation (input) BPF_W :: u16 where "BPF_W \<equiv> 0x00"
abbreviation (input) BPF_H :: u16 where "BPF_H \<equiv> 0x08"
abbreviation (input) BPF_B :: u16 where "BPF_B \<equiv> 0x10"
abbreviation (input) BPF_IMM :: u16 where "BPF_IMM \<equiv> 0x00"
abbreviation (input) BPF_ABS :: u16 where "BPF_ABS \<equiv> 0x20"
abbreviation (input) BPF_IND :: u16 where "BPF_IND \<equiv> 0x40"
abbreviation (input) BPF_MEM :: u16 where "BPF_MEM \<equiv> 0x60"
abbreviation (input) BPF_LEN :: u16 where "BPF_LEN \<equiv> 0x80"
abbreviation (input) BPF_MSH :: u16 where "BPF_MSH \<equiv> 0xa0"
abbreviation (input) BPF_ADD :: u16 where "BPF_ADD \<equiv> 0x00"
abbreviation (input) BPF_SUB :: u16 where "BPF_SUB \<equiv> 0x10"
abbreviation (input) BPF_MUL :: u16 where "BPF_MUL \<equiv> 0x20"
abbreviation (input) BPF_DIV :: u16 where "BPF_DIV \<equiv> 0x30"
abbreviation (input) BPF_OR :: u16 where "BPF_OR \<equiv> 0x40"
abbreviation (input) BPF_AND :: u16 where "BPF_AND \<equiv> 0x50"
abbreviation (input) BPF_LSH :: u16 where "BPF_LSH \<equiv> 0x60"
abbreviation (input) BPF_RSH :: u16 where "BPF_RSH \<equiv> 0x70"
abbreviation (input) BPF_NEG :: u16 where "BPF_NEG \<equiv> 0x80"
abbreviation (input) BPF_JA :: u16 where "BPF_JA \<equiv> 0x00"
abbreviation (input) BPF_JEQ :: u16 where "BPF_JEQ \<equiv> 0x10"
abbreviation (input) BPF_JGT :: u16 where "BPF_JGT \<equiv> 0x20"
abbreviation (input) BPF_JGE :: u16 where "BPF_JGE \<equiv> 0x30"
abbreviation (input) BPF_JSET :: u16 where "BPF_JSET \<equiv> 0x40"
abbreviation (input) BPF_K :: u16 where "BPF_K \<equiv> 0x00"
abbreviation (input) BPF_X :: u16 where "BPF_X \<equiv> 0x08"
abbreviation (input) BPF_A :: u16 where "BPF_A \<equiv> 0x10"
abbreviation (input) BPF_TAX :: u16 where "BPF_TAX \<equiv> 0x00"
abbreviation (input) BPF_TXA :: u16 where "BPF_TXA \<equiv> 0x80"

definition BPF_CLASS :: "u16 \<Rightarrow> u16" where "BPF_CLASS c = c AND 0x07"
definition BPF_OP :: "u16 \<Rightarrow> u16" where "BPF_OP c = c AND 0xf0"
definition BPF_MODE :: "u16 \<Rightarrow> u16" where "BPF_MODE c = c AND 0xe0"

definition BPF_MEMWORDS :: nat where "BPF_MEMWORDS = 16"

subsection \<open>State and environment\<close>

record bpf_state =
  bs_pc :: nat
  bs_A :: u32
  bs_X :: u32
  bs_mem :: "u32 list"

text \<open>The packet: one buffer, or, when \<open>buflen\<close> is 0, a chain of mbufs.\<close>

datatype bpf_packet = Contig "u8 list" | Chain "u8 list list"

record bpf_env =
  be_prog :: "bpf_insn list"
  be_pkt :: bpf_packet
  be_wirelen :: u32
  be_buflen :: u32
  be_junk :: bool

datatype bpf_fault = Pc_range | Mem_range | Pkt_range | Div_zero | Shift_range

datatype bpf_result = Value u32 | Wrong bpf_fault

subsection \<open>Loads\<close>

definition byte_at :: "u8 list \<Rightarrow> int \<Rightarrow> u8 option" where
  "byte_at bs i = (if 0 \<le> i \<and> i < int (length bs) then Some (bs ! nat i) else None)"

fun EXTRACT_SHORT :: "u8 \<Rightarrow> u8 \<Rightarrow> u32" where
  "EXTRACT_SHORT b0 b1 = push_bit 8 (ucast b0) OR ucast b1"

fun EXTRACT_LONG :: "u8 \<Rightarrow> u8 \<Rightarrow> u8 \<Rightarrow> u8 \<Rightarrow> u32" where
  "EXTRACT_LONG b0 b1 b2 b3 =
     push_bit 24 (ucast b0) OR push_bit 16 (ucast b1) OR push_bit 8 (ucast b2) OR ucast b3"

definition short_at :: "u8 list \<Rightarrow> int \<Rightarrow> u32 option" where
  "short_at bs i =
     (case (byte_at bs i, byte_at bs (i + 1)) of
        (Some b0, Some b1) \<Rightarrow> Some (EXTRACT_SHORT b0 b1) | _ \<Rightarrow> None)"

definition long_at :: "u8 list \<Rightarrow> int \<Rightarrow> u32 option" where
  "long_at bs i =
     (case (byte_at bs i, byte_at bs (i + 1), byte_at bs (i + 2), byte_at bs (i + 3)) of
        (Some b0, Some b1, Some b2, Some b3) \<Rightarrow> Some (EXTRACT_LONG b0 b1 b2 b3) | _ \<Rightarrow> None)"

text \<open>
  The macro \<open>MINDEX\<close>: the mbuf that holds byte \<open>k\<close> and the ones after it, and the offset in
  it; \<open>None\<close> when the chain is too short and the macro returns 0 from its function.
\<close>

fun MINDEX :: "u8 list list \<Rightarrow> int \<Rightarrow> (u8 list list \<times> int) option" where
  "MINDEX [] k = None"
| "MINDEX (m # ms) k =
     (if k \<ge> int (length m) then MINDEX ms (k - int (length m)) else Some (m # ms, k))"

text \<open>
  What a load from a chain gives: the value with \<open>*err\<close> 0, \<open>*err\<close> 1 and the value 0, the
  value 0 with \<open>*err\<close> not written, or a read outside an mbuf.
\<close>

datatype mload = Loaded u32 | Load_err | Load_unset | Load_wild

definition m_xword :: "u8 list list \<Rightarrow> int \<Rightarrow> mload" where
  "m_xword m k0 =
     (case MINDEX m k0 of
        None \<Rightarrow> Load_unset
      | Some (ms, k) \<Rightarrow>
          let cp = hd ms; len = int (length cp) in
          if len - k \<ge> 4 then (case long_at cp k of Some v \<Rightarrow> Loaded v | None \<Rightarrow> Load_wild)
          else if tl ms = [] \<or> int (length (hd (tl ms))) + len - k < 4 then Load_err
          else if k < 0 then Load_wild
          else
            let np = hd (tl ms) in
            if len - k = 1
            then Loaded (EXTRACT_LONG (cp ! nat k) (np ! 0) (np ! 1) (np ! 2))
            else if len - k = 2
            then Loaded (EXTRACT_LONG (cp ! nat k) (cp ! nat (k + 1)) (np ! 0) (np ! 1))
            else Loaded (EXTRACT_LONG (cp ! nat k) (cp ! nat (k + 1)) (cp ! nat (k + 2)) (np ! 0)))"

definition m_xhalf :: "u8 list list \<Rightarrow> int \<Rightarrow> mload" where
  "m_xhalf m k0 =
     (case MINDEX m k0 of
        None \<Rightarrow> Load_unset
      | Some (ms, k) \<Rightarrow>
          let cp = hd ms; len = int (length cp) in
          if len - k \<ge> 2 then (case short_at cp k of Some v \<Rightarrow> Loaded v | None \<Rightarrow> Load_wild)
          else
            (case tl ms of
               [] \<Rightarrow> Load_err
             | np # _ \<Rightarrow>
                 (case (byte_at cp k, byte_at np 0) of
                    (Some a, Some b) \<Rightarrow> Loaded (EXTRACT_SHORT a b) | _ \<Rightarrow> Load_wild)))"

definition m_xbyte :: "u8 list list \<Rightarrow> int \<Rightarrow> mload" where
  "m_xbyte m k0 =
     (case MINDEX m k0 of
        None \<Rightarrow> Load_unset
      | Some (ms, k) \<Rightarrow>
          (case byte_at (hd ms) k of Some b \<Rightarrow> Loaded (ucast b) | None \<Rightarrow> Load_wild))"

text \<open>
  One packet load at offset \<open>k\<close>, as the interpreter makes it: the value, a rejection of the
  packet (\<open>return 0\<close>), or undefined behaviour. \<open>checked\<close> says whether the case of the switch
  tests \<open>merr\<close>; the byte loads have no \<open>merr\<close> but return at once when \<open>MINDEX\<close> does.
\<close>

datatype bpf_load = Got u32 | Reject | Wild

definition of_contig :: "u32 option \<Rightarrow> bpf_load" where
  "of_contig v = (case v of Some a \<Rightarrow> Got a | None \<Rightarrow> Wild)"

definition of_chain :: "bool \<Rightarrow> bool \<Rightarrow> mload \<Rightarrow> bpf_load" where
  "of_chain checked junk r =
     (case r of
        Loaded v \<Rightarrow> Got v
      | Load_err \<Rightarrow> if checked then Reject else Got 0
      | Load_unset \<Rightarrow> if checked \<and> junk then Reject else Got 0
      | Load_wild \<Rightarrow> Wild)"

definition load_word :: "bpf_env \<Rightarrow> u32 \<Rightarrow> bpf_load" where
  "load_word e k =
     (if k + 4 > be_buflen e then
        if be_buflen e \<noteq> 0 then Reject
        else (case be_pkt e of
                Chain m \<Rightarrow> of_chain True (be_junk e) (m_xword m (sint k)) | Contig bs \<Rightarrow> Wild)
      else (case be_pkt e of Contig bs \<Rightarrow> of_contig (long_at bs (sint k)) | Chain m \<Rightarrow> Wild))"

definition load_half :: "bool \<Rightarrow> bpf_env \<Rightarrow> u32 \<Rightarrow> bpf_load" where
  "load_half checked e k =
     (if k + 2 > be_buflen e then
        if be_buflen e \<noteq> 0 then Reject
        else (case be_pkt e of
                Chain m \<Rightarrow> of_chain checked (be_junk e) (m_xhalf m (sint k)) | Contig bs \<Rightarrow> Wild)
      else (case be_pkt e of Contig bs \<Rightarrow> of_contig (short_at bs (sint k)) | Chain m \<Rightarrow> Wild))"

definition load_byte :: "bpf_env \<Rightarrow> u32 \<Rightarrow> bpf_load" where
  "load_byte e k =
     (if k \<ge> be_buflen e then
        if be_buflen e \<noteq> 0 then Reject
        else (case be_pkt e of
                Chain m \<Rightarrow> (case m_xbyte m (sint k) of
                    Loaded v \<Rightarrow> Got v | Load_wild \<Rightarrow> Wild | _ \<Rightarrow> Reject)
              | Contig bs \<Rightarrow> Wild)
      else (case be_pkt e of
              Contig bs \<Rightarrow> of_contig (map_option ucast (byte_at bs (sint k))) | Chain m \<Rightarrow> Wild))"

subsection \<open>The interpreter\<close>

type_synonym bpf_step = "bpf_state + bpf_result"

definition bpf_next :: "bpf_state \<Rightarrow> bpf_step" where
  "bpf_next s = Inl (s\<lparr>bs_pc := bs_pc s + 1\<rparr>)"

definition set_A :: "bpf_state \<Rightarrow> u32 \<Rightarrow> bpf_step" where
  "set_A s a = bpf_next (s\<lparr>bs_A := a\<rparr>)"

definition set_X :: "bpf_state \<Rightarrow> u32 \<Rightarrow> bpf_step" where
  "set_X s x = bpf_next (s\<lparr>bs_X := x\<rparr>)"

definition load_A :: "bpf_state \<Rightarrow> bpf_load \<Rightarrow> bpf_step" where
  "load_A s r = (case r of Got v \<Rightarrow> set_A s v | Reject \<Rightarrow> Inr (Value 0) | Wild \<Rightarrow> Inr (Wrong Pkt_range))"

text \<open>\<open>pc += off\<close> followed by the \<open>++pc\<close> at the head of the loop.\<close>

definition jump :: "bpf_state \<Rightarrow> int \<Rightarrow> bpf_step" where
  "jump s off =
     (let pc' = int (bs_pc s) + off + 1
      in if pc' < 0 then Inr (Wrong Pc_range) else Inl (s\<lparr>bs_pc := nat pc'\<rparr>))"

definition branch :: "bpf_state \<Rightarrow> bpf_insn \<Rightarrow> bool \<Rightarrow> bpf_step" where
  "branch s i c = jump s (uint (if c then insn_jt i else insn_jf i))"

definition mem_get :: "bpf_state \<Rightarrow> u32 \<Rightarrow> u32 option" where
  "mem_get s k =
     (if 0 \<le> sint k \<and> sint k < int BPF_MEMWORDS then Some (bs_mem s ! nat (sint k)) else None)"

definition mem_set :: "bpf_state \<Rightarrow> u32 \<Rightarrow> u32 \<Rightarrow> bpf_step" where
  "mem_set s k v =
     (if 0 \<le> sint k \<and> sint k < int BPF_MEMWORDS
      then bpf_next (s\<lparr>bs_mem := (bs_mem s)[nat (sint k) := v]\<rparr>)
      else Inr (Wrong Mem_range))"

text \<open>The cases of the switch, in the order of the source: returns and packet loads.\<close>

definition bpf_step_load :: "bpf_env \<Rightarrow> bpf_insn \<Rightarrow> bpf_state \<Rightarrow> bpf_step option" where
  "bpf_step_load e i s =
     (let c = insn_code i; k = insn_k i; ind = bs_X s + insn_k i in
      if c = BPF_RET OR BPF_K then Some (Inr (Value k))
      else if c = BPF_RET OR BPF_A then Some (Inr (Value (bs_A s)))
      else if c = BPF_LD OR BPF_W OR BPF_ABS then Some (load_A s (load_word e k))
      else if c = BPF_LD OR BPF_H OR BPF_ABS then Some (load_A s (load_half False e k))
      else if c = BPF_LD OR BPF_B OR BPF_ABS then Some (load_A s (load_byte e k))
      else if c = BPF_LD OR BPF_W OR BPF_LEN then Some (set_A s (be_wirelen e))
      else if c = BPF_LDX OR BPF_W OR BPF_LEN then Some (set_X s (be_wirelen e))
      else if c = BPF_LD OR BPF_W OR BPF_IND then Some (load_A s (load_word e ind))
      else if c = BPF_LD OR BPF_H OR BPF_IND then Some (load_A s (load_half True e ind))
      else if c = BPF_LD OR BPF_B OR BPF_IND then Some (load_A s (load_byte e ind))
      else if c = BPF_LDX OR BPF_MSH OR BPF_B then
        Some (case load_byte e k of
                Got v \<Rightarrow> set_X s (push_bit 2 (v AND 0xf))
              | Reject \<Rightarrow> Inr (Value 0) | Wild \<Rightarrow> Inr (Wrong Pkt_range))
      else None)"

text \<open>Immediates, the scratch memory and jumps.\<close>

definition bpf_step_mem_jmp :: "bpf_insn \<Rightarrow> bpf_state \<Rightarrow> bpf_step option" where
  "bpf_step_mem_jmp i s =
     (let c = insn_code i; k = insn_k i; A = bs_A s; X = bs_X s in
      if c = BPF_LD OR BPF_IMM then Some (set_A s k)
      else if c = BPF_LDX OR BPF_IMM then Some (set_X s k)
      else if c = BPF_LD OR BPF_MEM then
        Some (case mem_get s k of Some v \<Rightarrow> set_A s v | None \<Rightarrow> Inr (Wrong Mem_range))
      else if c = BPF_LDX OR BPF_MEM then
        Some (case mem_get s k of Some v \<Rightarrow> set_X s v | None \<Rightarrow> Inr (Wrong Mem_range))
      else if c = BPF_ST then Some (mem_set s k A)
      else if c = BPF_STX then Some (mem_set s k X)
      else if c = BPF_JMP OR BPF_JA then Some (jump s (sint k))
      else if c = BPF_JMP OR BPF_JGT OR BPF_K then Some (branch s i (A > k))
      else if c = BPF_JMP OR BPF_JGE OR BPF_K then Some (branch s i (A \<ge> k))
      else if c = BPF_JMP OR BPF_JEQ OR BPF_K then Some (branch s i (A = k))
      else if c = BPF_JMP OR BPF_JSET OR BPF_K then Some (branch s i (A AND k \<noteq> 0))
      else if c = BPF_JMP OR BPF_JGT OR BPF_X then Some (branch s i (A > X))
      else if c = BPF_JMP OR BPF_JGE OR BPF_X then Some (branch s i (A \<ge> X))
      else if c = BPF_JMP OR BPF_JEQ OR BPF_X then Some (branch s i (A = X))
      else if c = BPF_JMP OR BPF_JSET OR BPF_X then Some (branch s i (A AND X \<noteq> 0))
      else None)"

definition shift_A :: "bpf_state \<Rightarrow> (nat \<Rightarrow> u32 \<Rightarrow> u32) \<Rightarrow> u32 \<Rightarrow> bpf_step" where
  "shift_A s sh n = (if n < 32 then set_A s (sh (unat n) (bs_A s)) else Inr (Wrong Shift_range))"

text \<open>Arithmetic and register moves; every other code is the default case.\<close>

definition bpf_step_alu :: "bpf_insn \<Rightarrow> bpf_state \<Rightarrow> bpf_step" where
  "bpf_step_alu i s =
     (let c = insn_code i; k = insn_k i; A = bs_A s; X = bs_X s in
      if c = BPF_ALU OR BPF_ADD OR BPF_X then set_A s (A + X)
      else if c = BPF_ALU OR BPF_SUB OR BPF_X then set_A s (A - X)
      else if c = BPF_ALU OR BPF_MUL OR BPF_X then set_A s (A * X)
      else if c = BPF_ALU OR BPF_DIV OR BPF_X then
        if X = 0 then Inr (Value 0) else set_A s (A div X)
      else if c = BPF_ALU OR BPF_AND OR BPF_X then set_A s (A AND X)
      else if c = BPF_ALU OR BPF_OR OR BPF_X then set_A s (A OR X)
      else if c = BPF_ALU OR BPF_LSH OR BPF_X then shift_A s push_bit X
      else if c = BPF_ALU OR BPF_RSH OR BPF_X then shift_A s drop_bit X
      else if c = BPF_ALU OR BPF_ADD OR BPF_K then set_A s (A + k)
      else if c = BPF_ALU OR BPF_SUB OR BPF_K then set_A s (A - k)
      else if c = BPF_ALU OR BPF_MUL OR BPF_K then set_A s (A * k)
      else if c = BPF_ALU OR BPF_DIV OR BPF_K then
        if k = 0 then Inr (Wrong Div_zero) else set_A s (A div k)
      else if c = BPF_ALU OR BPF_AND OR BPF_K then set_A s (A AND k)
      else if c = BPF_ALU OR BPF_OR OR BPF_K then set_A s (A OR k)
      else if c = BPF_ALU OR BPF_LSH OR BPF_K then shift_A s push_bit k
      else if c = BPF_ALU OR BPF_RSH OR BPF_K then shift_A s drop_bit k
      else if c = BPF_ALU OR BPF_NEG then set_A s (- A)
      else if c = BPF_MISC OR BPF_TAX then set_X s A
      else if c = BPF_MISC OR BPF_TXA then set_A s X
      else Inr (Value 0))"

definition bpf_step :: "bpf_env \<Rightarrow> bpf_state \<Rightarrow> bpf_step" where
  "bpf_step e s =
     (if bs_pc s < length (be_prog e) then
        let i = be_prog e ! bs_pc s in
        (case bpf_step_load e i s of
           Some r \<Rightarrow> r
         | None \<Rightarrow> (case bpf_step_mem_jmp i s of Some r \<Rightarrow> r | None \<Rightarrow> bpf_step_alu i s))
      else Inr (Wrong Pc_range))"

text \<open>
  The whole function. A null program accepts everything (\<open>(u_int)-1\<close>). The value is \<open>None\<close>
  when the interpreter never returns.
\<close>

definition bpf_filter ::
  "bpf_insn list option \<Rightarrow> bpf_packet \<Rightarrow> u32 \<Rightarrow> u32 \<Rightarrow> u32 list \<Rightarrow> bool \<Rightarrow> bpf_result option" where
  "bpf_filter pc p wirelen buflen mem0 junk =
     (case pc of
        None \<Rightarrow> Some (Value (- 1))
      | Some f \<Rightarrow>
          iterate (bpf_step \<lparr>be_prog = f, be_pkt = p, be_wirelen = wirelen, be_buflen = buflen,
                             be_junk = junk\<rparr>)
            \<lparr>bs_pc = 0, bs_A = 0, bs_X = 0, bs_mem = mem0\<rparr>)"

subsection \<open>Validation\<close>

text \<open>The body of the loop for instruction \<open>i\<close>: whether the program is still acceptable.\<close>

definition bpf_validate_insn :: "int \<Rightarrow> nat \<Rightarrow> bpf_insn \<Rightarrow> bool" where
  "bpf_validate_insn len i p =
     (let c = insn_code p; k = insn_k p; from = word_of_nat (i + 1) in
      if BPF_CLASS c = BPF_JMP \<and> BPF_OP c = BPF_JA \<and>
         (sint k < 0 \<or> sint (from + k) \<ge> len \<or> sint (from + k) < 0) then False
      else if BPF_CLASS c = BPF_JMP \<and> BPF_OP c \<noteq> BPF_JA \<and>
         (int (i + 1) + uint (insn_jt p) \<ge> len \<or> int (i + 1) + uint (insn_jf p) \<ge> len) then False
      else if (BPF_CLASS c = BPF_ST \<or> (BPF_CLASS c = BPF_LD \<and> BPF_MODE c = BPF_MEM)) \<and>
         (sint k \<ge> int BPF_MEMWORDS \<or> sint k < 0) then False
      else if c = BPF_ALU OR BPF_DIV OR BPF_K \<and> k = 0 then False
      else True)"

fun bpf_validate_loop :: "int \<Rightarrow> nat \<Rightarrow> bpf_insn list \<Rightarrow> bool" where
  "bpf_validate_loop len i [] = True"
| "bpf_validate_loop len i (p # ps) =
     (bpf_validate_insn len i p \<and> bpf_validate_loop len (i + 1) ps)"

text \<open>\<open>None\<close>: the final test reads \<open>f[-1]\<close>, in front of an empty program.\<close>

definition bpf_validate :: "bpf_insn list \<Rightarrow> bool option" where
  "bpf_validate f =
     (if f = [] then None
      else Some (bpf_validate_loop (int (length f)) 0 f \<and>
                 BPF_CLASS (insn_code (last f)) = BPF_RET))"

end
