(* ===== verification/Bpf_Correct.thy ===== *)
theory Bpf_Correct
  imports Bpf
begin

text \<open>
  The packet filter is safe as far as \<^verbatim>\<open>bpf_validate\<close> looks: the instruction counter only
  moves forward and stays in the program, so every accepted program returns. The
  predicates \<open>unchecked_mem\<close>, \<open>unchecked_shift\<close> and \<open>unchecked_load\<close> say exactly which
  instructions validation lets through that can still go wrong. The loads from an mbuf
  chain are related to loads from one buffer.
\<close>

subsection \<open>What validation leaves unchecked\<close>

definition unchecked_mem :: "bpf_insn \<Rightarrow> bool" where
  "unchecked_mem i \<longleftrightarrow>
     (insn_code i = BPF_LDX OR BPF_MEM \<or> insn_code i = BPF_STX) \<and>
     \<not> (0 \<le> sint (insn_k i) \<and> sint (insn_k i) < int BPF_MEMWORDS)"

definition unchecked_shift :: "bpf_insn \<Rightarrow> bool" where
  "unchecked_shift i \<longleftrightarrow>
     insn_code i = BPF_ALU OR BPF_LSH OR BPF_X \<or> insn_code i = BPF_ALU OR BPF_RSH OR BPF_X \<or>
     ((insn_code i = BPF_ALU OR BPF_LSH OR BPF_K \<or> insn_code i = BPF_ALU OR BPF_RSH OR BPF_K) \<and>
       32 \<le> insn_k i)"

definition unchecked_load :: "bpf_insn \<Rightarrow> bool" where
  "unchecked_load i \<longleftrightarrow>
     insn_code i = BPF_LD OR BPF_W OR BPF_IND \<or> insn_code i = BPF_LD OR BPF_H OR BPF_IND \<or>
     insn_code i = BPF_LD OR BPF_B OR BPF_IND \<or> sint (insn_k i) < 0"

text \<open>The packet is in one buffer and the caller's length is its length.\<close>

definition pkt_in_buffer :: "bpf_env \<Rightarrow> bool" where
  "pkt_in_buffer e \<longleftrightarrow>
     (\<exists>bs. be_pkt e = Contig bs \<and> bs \<noteq> [] \<and> uint (be_buflen e) = int (length bs))"

definition bpf_good :: "bpf_env \<Rightarrow> bpf_result \<Rightarrow> bool" where
  "bpf_good e r =
     (case r of
        Value v \<Rightarrow> True
      | Wrong Pc_range \<Rightarrow> False
      | Wrong Div_zero \<Rightarrow> False
      | Wrong Mem_range \<Rightarrow> \<exists>i \<in> set (be_prog e). unchecked_mem i
      | Wrong Shift_range \<Rightarrow> \<exists>i \<in> set (be_prog e). unchecked_shift i
      | Wrong Pkt_range \<Rightarrow> \<not> pkt_in_buffer e \<or> (\<exists>i \<in> set (be_prog e). unchecked_load i))"

definition bpf_inv :: "bpf_env \<Rightarrow> bpf_state \<Rightarrow> bool" where
  "bpf_inv e s \<longleftrightarrow> length (be_prog e) < 2 ^ 31 \<and> bpf_validate (be_prog e) = Some True \<and>
     bs_pc s < length (be_prog e) \<and> length (bs_mem s) = BPF_MEMWORDS"

subsection \<open>What validation establishes\<close>

lemma validate_loop_nth:
  "bpf_validate_loop len n ps \<Longrightarrow> i < length ps \<Longrightarrow> bpf_validate_insn len (n + i) (ps ! i)"
  by (induction ps arbitrary: n i) (fastforce simp: nth_Cons' less_Suc_eq_0_disj)+

lemma validate_nth:
  assumes "bpf_validate f = Some True" and "i < length f"
  shows "bpf_validate_insn (int (length f)) i (f ! i)"
  using assms validate_loop_nth [of "int (length f)" 0 f i]
  by (simp add: bpf_validate_def split: if_splits)

lemma validate_last:
  assumes "bpf_validate f = Some True"
  shows "f \<noteq> [] \<and> BPF_CLASS (insn_code (last f)) = BPF_RET"
  using assms by (simp add: bpf_validate_def split: if_splits)

lemma uint_of_nat_u32: "n < 2 ^ 32 \<Longrightarrow> uint (word_of_nat n :: u32) = int n"
  using unat_of_nat [of n, where 'a = 32] by (simp add: uint_nat)

text \<open>A step that stays in the loop: to the next instruction, or along a checked jump.\<close>

lemma step_load_next:
  assumes "bpf_step_load e i s = Some (Inl s')"
  shows "bs_pc s' = bs_pc s + 1 \<and> length (bs_mem s') = length (bs_mem s) \<and> BPF_CLASS (insn_code i) \<noteq> BPF_RET"
  using assms
  by (auto simp: bpf_step_load_def load_A_def set_A_def set_X_def bpf_next_def BPF_CLASS_def Let_def
      split: if_splits bpf_load.splits)

lemma step_alu_next:
  assumes "bpf_step_alu i s = Inl s'"
  shows "bs_pc s' = bs_pc s + 1 \<and> length (bs_mem s') = length (bs_mem s) \<and> BPF_CLASS (insn_code i) \<noteq> BPF_RET"
  using assms
  by (auto simp: bpf_step_alu_def shift_A_def set_A_def set_X_def bpf_next_def BPF_CLASS_def Let_def
      split: if_splits)

lemma jump_forward:
  assumes "0 \<le> off" and "jump s off = Inl s'" and "int (bs_pc s) + off + 1 < len"
  shows "bs_pc s < bs_pc s' \<and> int (bs_pc s') < len \<and> bs_mem s' = bs_mem s"
  using assms by (auto simp: jump_def Let_def split: if_splits)

lemma valid_ja:
  assumes "bpf_validate_insn len i p" and "insn_code p = BPF_JMP OR BPF_JA"
    and "int i + 1 < 2 ^ 31"
  shows "0 \<le> sint (insn_k p) \<and> int i + sint (insn_k p) + 1 < len"
proof -
  let ?k = "insn_k p"
  have k: "0 \<le> sint ?k" and lt: "sint (word_of_nat (i + 1) + ?k) < len"
    and ge: "0 \<le> sint (word_of_nat (i + 1) + ?k)"
    using assms(1,2)
    by (simp_all add: bpf_validate_insn_def BPF_CLASS_def BPF_OP_def Let_def not_le split: if_splits)
  note sk = sint_nonneg_u32 [OF k]
  have "uint (word_of_nat (i + 1) :: u32) = int i + 1"
    using assms(3) by (subst uint_of_nat_u32) simp_all
  then have "uint (word_of_nat (i + 1) + ?k) = int i + 1 + uint ?k"
    using assms(3) sk by (simp add: uint_word_ariths)
  with sint_nonneg_u32 [OF ge] sk lt k show ?thesis by simp
qed

lemma valid_branch:
  assumes "bpf_validate_insn len i p" and "BPF_CLASS (insn_code p) = BPF_JMP" "BPF_OP (insn_code p) \<noteq> BPF_JA"
  shows "int i + uint (insn_jt p) + 1 < len" and "int i + uint (insn_jf p) + 1 < len"
  using assms by (auto simp: bpf_validate_insn_def Let_def split: if_splits)

lemma branch_forward:
  assumes "bpf_validate_insn len (bs_pc s) i" and "branch s i c = Inl s'"
    and "BPF_CLASS (insn_code i) = BPF_JMP" "BPF_OP (insn_code i) \<noteq> BPF_JA"
  shows "bs_pc s < bs_pc s' \<and> int (bs_pc s') < len \<and> bs_mem s' = bs_mem s"
  using jump_forward [of "uint (if c then insn_jt i else insn_jf i)" s s' len]
    valid_branch [OF assms(1,3,4)] assms(2)
  by (simp add: branch_def)

lemma step_mem_jmp_next:
  assumes "bpf_step_mem_jmp i s = Some (Inl s')" and "bpf_validate_insn len (bs_pc s) i"
    and "int (bs_pc s) + 1 < 2 ^ 31"
  shows "length (bs_mem s') = length (bs_mem s) \<and>
    (bs_pc s < bs_pc s' \<and> int (bs_pc s') < len \<or>
     bs_pc s' = bs_pc s + 1 \<and> BPF_CLASS (insn_code i) \<noteq> BPF_RET)"
proof (cases "BPF_CLASS (insn_code i) = BPF_JMP")
  case True
  then show ?thesis
    using assms(1) branch_forward [OF assms(2), of _ s'] valid_ja [OF assms(2) _ assms(3)]
      jump_forward [of "sint (insn_k i)" s s' len]
    by (auto simp: bpf_step_mem_jmp_def BPF_CLASS_def BPF_OP_def Let_def split: if_splits)
next
  case False
  with assms(1) show ?thesis
    by (auto simp: bpf_step_mem_jmp_def mem_set_def set_A_def set_X_def bpf_next_def BPF_CLASS_def
        Let_def split: if_splits option.splits)
qed

lemma bpf_step_inv:
  assumes inv: "bpf_inv e s" and step: "bpf_step e s = Inl s'"
  shows "bpf_inv e s' \<and> bs_pc s < bs_pc s'"
proof -
  let ?f = "be_prog e" and ?i = "be_prog e ! bs_pc s"
  have pc: "bs_pc s < length ?f" and valid: "bpf_validate ?f = Some True" and len: "length ?f < 2 ^ 31"
    using inv by (simp_all add: bpf_inv_def)
  note ok = validate_nth [OF valid pc]
  have "int (bs_pc s) + 1 \<le> int (length ?f)" and "int (length ?f) < 2 ^ 31"
    using pc len by simp_all
  then have small: "int (bs_pc s) + 1 < 2 ^ 31" by linarith
  have "length (bs_mem s') = length (bs_mem s) \<and>
      (bs_pc s < bs_pc s' \<and> int (bs_pc s') < int (length ?f) \<or>
       bs_pc s' = bs_pc s + 1 \<and> BPF_CLASS (insn_code ?i) \<noteq> BPF_RET)"
    using step pc step_load_next [of e ?i s s'] step_mem_jmp_next [OF _ ok small, of s'] step_alu_next [of ?i s s']
    by (auto simp: bpf_step_def Let_def split: option.splits)
  moreover have "bs_pc s + 1 < length ?f" if "BPF_CLASS (insn_code ?i) \<noteq> BPF_RET"
  proof (rule ccontr)
    assume "\<not> bs_pc s + 1 < length ?f"
    with pc have "bs_pc s = length ?f - 1" by linarith
    with that validate_last [OF valid] show False by (auto simp: last_conv_nth)
  qed
  ultimately show ?thesis
    using inv by (auto simp: bpf_inv_def)
qed


subsection \<open>How the interpreter can go wrong\<close>

lemma long_at_in: "0 \<le> i \<Longrightarrow> i + 4 \<le> int (length bs) \<Longrightarrow> long_at bs i \<noteq> None"
  by (simp add: long_at_def byte_at_def)

lemma short_at_in: "0 \<le> i \<Longrightarrow> i + 2 \<le> int (length bs) \<Longrightarrow> short_at bs i \<noteq> None"
  by (simp add: short_at_def byte_at_def)

lemma uint_add_small: "uint k < 2 ^ 31 \<Longrightarrow> n < 2 ^ 31 \<Longrightarrow> uint (k + n) = uint k + uint n" for k n :: u32
  by (simp add: uint_word_ariths word_less_def)

lemma load_word_wild:
  assumes "load_word e k = Wild" and "pkt_in_buffer e"
  shows "sint k < 0"
proof (rule ccontr)
  assume "\<not> sint k < 0"
  then have k: "sint k = uint k" "uint k < 2 ^ 31" using sint_nonneg_u32 [of k] by auto
  obtain bs where bs: "be_pkt e = Contig bs" "bs \<noteq> []" "uint (be_buflen e) = int (length bs)"
    using assms(2) by (auto simp: pkt_in_buffer_def)
  then have "be_buflen e \<noteq> 0" by auto
  moreover have "uint (k + 4) = uint k + 4" using uint_add_small [of k 4] k by simp
  ultimately show False
    using assms(1) bs k long_at_in [of "uint k" bs]
    by (auto simp: load_word_def of_contig_def word_less_def not_less split: if_splits option.splits)
qed

lemma load_half_wild:
  assumes "load_half c e k = Wild" and "pkt_in_buffer e"
  shows "sint k < 0"
proof (rule ccontr)
  assume "\<not> sint k < 0"
  then have k: "sint k = uint k" "uint k < 2 ^ 31" using sint_nonneg_u32 [of k] by auto
  obtain bs where bs: "be_pkt e = Contig bs" "bs \<noteq> []" "uint (be_buflen e) = int (length bs)"
    using assms(2) by (auto simp: pkt_in_buffer_def)
  then have "be_buflen e \<noteq> 0" by auto
  moreover have "uint (k + 2) = uint k + 2" using uint_add_small [of k 2] k by simp
  ultimately show False
    using assms(1) bs k short_at_in [of "uint k" bs]
    by (auto simp: load_half_def of_contig_def word_less_def not_less split: if_splits option.splits)
qed

lemma load_byte_wild:
  assumes "load_byte e k = Wild" and "pkt_in_buffer e"
  shows "sint k < 0"
proof (rule ccontr)
  assume "\<not> sint k < 0"
  then have k: "sint k = uint k" using sint_nonneg_u32 [of k] by auto
  obtain bs where bs: "be_pkt e = Contig bs" "bs \<noteq> []" "uint (be_buflen e) = int (length bs)"
    using assms(2) by (auto simp: pkt_in_buffer_def)
  then have "be_buflen e \<noteq> 0" by auto
  then show False
    using assms(1) bs k
    by (auto simp: load_byte_def of_contig_def byte_at_def word_less_def word_le_def not_less
        split: if_splits option.splits)
qed

lemmas load_wild = load_word_wild load_half_wild load_byte_wild

lemma step_load_wrong:
  assumes "bpf_step_load e i s = Some (Inr (Wrong w))"
  shows "w = Pkt_range \<and> (pkt_in_buffer e \<longrightarrow> unchecked_load i)"
  using assms load_wild
  by (auto simp: bpf_step_load_def load_A_def set_A_def set_X_def bpf_next_def unchecked_load_def Let_def
      split: if_splits bpf_load.splits)

lemma step_mem_jmp_wrong:
  assumes "bpf_step_mem_jmp i s = Some (Inr (Wrong w))" and "bpf_validate_insn len (bs_pc s) i"
    and "int (bs_pc s) + 1 < 2 ^ 31"
  shows "w = Mem_range \<and> unchecked_mem i"
proof -
  have ja: "insn_code i = BPF_JMP OR BPF_JA \<Longrightarrow> 0 \<le> sint (insn_k i)"
    using valid_ja [OF assms(2) _ assms(3)] by simp
  have off: "0 \<le> uint b" for b :: u8 by simp
  have br: "branch s i c \<noteq> Inr r" for c r
  proof -
    have "\<not> int (bs_pc s) + uint (if c then insn_jt i else insn_jf i) + 1 < 0"
      using off [of "if c then insn_jt i else insn_jf i"] by linarith
    then show ?thesis by (simp only: branch_def jump_def Let_def if_False not_False_eq_True) simp
  qed
  show ?thesis
    using assms(1,2) ja br
    by (auto simp: bpf_step_mem_jmp_def mem_get_def mem_set_def set_A_def set_X_def bpf_next_def
        unchecked_mem_def bpf_validate_insn_def BPF_CLASS_def BPF_MODE_def BPF_OP_def jump_def Let_def
        split: if_splits option.splits)
qed

lemma step_alu_wrong:
  assumes "bpf_step_alu i s = Inr (Wrong w)" and "bpf_validate_insn len n i"
  shows "w = Shift_range \<and> unchecked_shift i"
  using assms
  by (auto simp: bpf_step_alu_def shift_A_def set_A_def set_X_def bpf_next_def unchecked_shift_def
      bpf_validate_insn_def not_less Let_def split: if_splits)

lemma bpf_step_good:
  assumes inv: "bpf_inv e s" and step: "bpf_step e s = Inr r"
  shows "bpf_good e r"
proof (cases r)
  case (Wrong w)
  let ?f = "be_prog e" and ?i = "be_prog e ! bs_pc s"
  have pc: "bs_pc s < length ?f" and valid: "bpf_validate ?f = Some True" and len: "length ?f < 2 ^ 31"
    using inv by (simp_all add: bpf_inv_def)
  note ok = validate_nth [OF valid pc]
  have "int (bs_pc s) + 1 \<le> int (length ?f)" and "int (length ?f) < 2 ^ 31"
    using pc len by simp_all
  then have small: "int (bs_pc s) + 1 < 2 ^ 31" by linarith
  have mem: "?i \<in> set ?f" using pc by simp
  consider "bpf_step_load e ?i s = Some (Inr (Wrong w))" | "bpf_step_mem_jmp ?i s = Some (Inr (Wrong w))"
    | "bpf_step_alu ?i s = Inr (Wrong w)"
    using step pc Wrong by (auto simp: bpf_step_def Let_def split: option.splits)
  then show ?thesis
    using step_load_wrong [of e ?i s w] step_mem_jmp_wrong [OF _ ok small, of w]
      step_alu_wrong [OF _ ok, of s w] mem Wrong
    by cases (auto simp: bpf_good_def)
qed (simp add: bpf_good_def)

interpretation bpf: forward_machine bpf_step bpf_inv "\<lambda>e s. length (be_prog e) - bs_pc s" bpf_good
proof
  fix e s s'
  assume "bpf_inv e s" and "bpf_step e s = Inl s'"
  from bpf_step_inv [OF this] show "bpf_inv e s'" and "length (be_prog e) - bs_pc s' < length (be_prog e) - bs_pc s"
    by (auto simp: bpf_inv_def)
next
  fix e s r
  assume "bpf_inv e s" and "bpf_step e s = Inr r"
  then show "bpf_good e r" by (rule bpf_step_good)
qed


subsection \<open>Loads from an mbuf chain\<close>

lemma byte_at_append:
  "0 \<le> i \<Longrightarrow> byte_at (xs @ ys) i =
     (if i < int (length xs) then byte_at xs i else byte_at ys (i - int (length xs)))"
  by (auto simp: byte_at_def nth_append nat_less_iff nat_diff_distrib')

lemma MINDEX_Some:
  assumes "MINDEX m k = Some (ms, j)" and "0 \<le> k"
  shows "ms \<noteq> [] \<and> 0 \<le> j \<and> j < int (length (hd ms)) \<and>
    (\<forall>i \<ge> 0. byte_at (concat m) (k + i) = byte_at (concat ms) (j + i))"
  using assms
proof (induction m k rule: MINDEX.induct)
  case (2 m ms' k)
  show ?case
  proof (cases "k \<ge> int (length m)")
    case True
    with 2 have "ms \<noteq> [] \<and> 0 \<le> j \<and> j < int (length (hd ms)) \<and>
      (\<forall>i \<ge> 0. byte_at (concat ms') (k - int (length m) + i) = byte_at (concat ms) (j + i))"
      by simp
    with True show ?thesis by (simp add: byte_at_append algebra_simps)
  next
    case False
    with 2 show ?thesis by auto
  qed
qed simp

lemma MINDEX_None:
  assumes "MINDEX m k = None" and "0 \<le> k"
  shows "int (length (concat m)) \<le> k"
  using assms by (induction m k rule: MINDEX.induct) (auto split: if_splits)

lemma byte_at_in: "0 \<le> i \<Longrightarrow> i < int (length bs) \<Longrightarrow> byte_at bs i = Some (bs ! nat i)"
  by (simp add: byte_at_def)

lemma byte_at_first: "0 \<le> i \<Longrightarrow> i < int (length cp) \<Longrightarrow> byte_at (cp @ bs) i = Some (cp ! nat i)"
  by (subst byte_at_append) (simp_all add: byte_at_in)

lemma byte_at_second:
  "int (length cp) \<le> i \<Longrightarrow> i - int (length cp) < int (length np) \<Longrightarrow>
     byte_at (cp @ np @ bs) i = Some (np ! nat (i - int (length cp)))"
  by (subst byte_at_append, simp, subst byte_at_append) (simp_all add: byte_at_in)

text \<open>The bytes from the last \<open>1\<close>, \<open>2\<close> or \<open>3\<close> of one mbuf on, into the next.\<close>

lemma byte_at_across:
  assumes "int (length cp) - j = d" and "d \<le> e" and "e - d < int (length np)"
  shows "byte_at (cp @ np @ bs) (j + e) = Some (np ! nat (e - d))"
proof -
  have "j + e - int (length cp) = e - d" using assms(1) by simp
  with assms(2,3) assms(1) byte_at_second [of cp "j + e" np bs] show ?thesis by simp
qed

lemma m_xword_concat:
  assumes k: "0 \<le> k" and v: "m_xword m k = Loaded v"
  shows "long_at (concat m) k = Some v"
proof -
  obtain ms j where ix: "MINDEX m k = Some (ms, j)"
    using v by (auto simp: m_xword_def split: option.splits)
  note at = MINDEX_Some [OF ix k]
  then obtain cp rest where ms: "ms = cp # rest" and j: "0 \<le> j" "j < int (length cp)"
    by (cases ms) auto
  have eq: "long_at (concat m) k = long_at (concat ms) j"
    using at [THEN conjunct2, THEN conjunct2, THEN conjunct2, rule_format, of 0]
      at [THEN conjunct2, THEN conjunct2, THEN conjunct2, rule_format, of 1]
      at [THEN conjunct2, THEN conjunct2, THEN conjunct2, rule_format, of 2]
      at [THEN conjunct2, THEN conjunct2, THEN conjunct2, rule_format, of 3]
    by (simp add: long_at_def)
  show ?thesis
  proof (cases "int (length cp) - j \<ge> 4")
    case True
    with v ix ms j eq show ?thesis
      by (auto simp: m_xword_def long_at_def byte_at_append split: option.splits)
  next
    case False
    then obtain np rest' where rest: "rest = np # rest'" and room: "int (length np) + int (length cp) - j \<ge> 4"
      using v ix ms by (cases rest) (auto simp: m_xword_def Let_def split: if_splits)
    have "v = (if int (length cp) - j = 1
            then EXTRACT_LONG (cp ! nat j) (np ! 0) (np ! 1) (np ! 2)
            else if int (length cp) - j = 2
            then EXTRACT_LONG (cp ! nat j) (cp ! nat (j + 1)) (np ! 0) (np ! 1)
            else EXTRACT_LONG (cp ! nat j) (cp ! nat (j + 1)) (cp ! nat (j + 2)) (np ! 0))"
      using v ix ms rest False room by (simp add: m_xword_def Let_def split: if_splits)
    moreover have "int (length cp) - j = 1 \<or> int (length cp) - j = 2 \<or> int (length cp) - j = 3"
      using False j by linarith
    then have "long_at (concat ms) j = Some (if int (length cp) - j = 1
            then EXTRACT_LONG (cp ! nat j) (np ! 0) (np ! 1) (np ! 2)
            else if int (length cp) - j = 2
            then EXTRACT_LONG (cp ! nat j) (cp ! nat (j + 1)) (np ! 0) (np ! 1)
            else EXTRACT_LONG (cp ! nat j) (cp ! nat (j + 1)) (cp ! nat (j + 2)) (np ! 0))"
    proof (elim disjE)
      assume d: "int (length cp) - j = 1"
      with room have "np \<noteq> []" by auto
      then show ?thesis
        using room j d byte_at_across [OF d, of 1 np "concat rest'"] byte_at_across [OF d, of 2 np "concat rest'"]
          byte_at_across [OF d, of 3 np "concat rest'"]
        by (simp add: long_at_def ms rest byte_at_first)
    next
      assume d: "int (length cp) - j = 2"
      with room have "np \<noteq> []" by auto
      then show ?thesis
        using room j d byte_at_across [OF d, of 2 np "concat rest'"] byte_at_across [OF d, of 3 np "concat rest'"]
        by (simp add: long_at_def ms rest byte_at_first)
    next
      assume d: "int (length cp) - j = 3"
      with room have "np \<noteq> []" by auto
      then show ?thesis
        using room j d byte_at_across [OF d, of 3 np "concat rest'"]
        by (simp add: long_at_def ms rest byte_at_first)
    qed
    ultimately show ?thesis using eq by simp
  qed
qed

lemma m_xhalf_concat:
  assumes k: "0 \<le> k" and v: "m_xhalf m k = Loaded v"
  shows "short_at (concat m) k = Some v"
proof -
  obtain ms j where ix: "MINDEX m k = Some (ms, j)"
    using v by (auto simp: m_xhalf_def split: option.splits)
  note at = MINDEX_Some [OF ix k]
  then obtain cp rest where ms: "ms = cp # rest" and j: "0 \<le> j" "j < int (length cp)"
    by (cases ms) auto
  have eq: "short_at (concat m) k = short_at (concat ms) j"
    using at [THEN conjunct2, THEN conjunct2, THEN conjunct2, rule_format, of 0]
      at [THEN conjunct2, THEN conjunct2, THEN conjunct2, rule_format, of 1]
    by (simp add: short_at_def)
  show ?thesis
  proof (cases "int (length cp) - j \<ge> 2")
    case True
    with v ix ms j eq show ?thesis
      by (auto simp: m_xhalf_def short_at_def byte_at_append split: option.splits)
  next
    case False
    with j have d: "int (length cp) - j = 1" by linarith
    obtain np rest' b where rest: "rest = np # rest'" and b: "byte_at np 0 = Some b"
      and v': "v = EXTRACT_SHORT (cp ! nat j) b"
      using v ix ms False j by (cases rest) (auto simp: m_xhalf_def byte_at_in Let_def split: option.splits)
    then have "np \<noteq> []" and "b = np ! 0" by (auto simp: byte_at_def split: if_splits)
    then show ?thesis
      using eq v' j d byte_at_across [OF d, of 1 np "concat rest'"]
      by (simp add: short_at_def ms rest byte_at_first)
  qed
qed

lemma m_xbyte_concat:
  assumes k: "0 \<le> k" and v: "m_xbyte m k = Loaded v"
  shows "map_option ucast (byte_at (concat m) k) = Some v"
proof -
  obtain ms j where ix: "MINDEX m k = Some (ms, j)"
    using v by (auto simp: m_xbyte_def split: option.splits)
  note at = MINDEX_Some [OF ix k]
  then obtain cp rest where ms: "ms = cp # rest" and j: "0 \<le> j" "j < int (length cp)"
    by (cases ms) auto
  have "byte_at (concat m) k = byte_at (concat ms) j"
    using at [THEN conjunct2, THEN conjunct2, THEN conjunct2, rule_format, of 0] by simp
  also have "\<dots> = byte_at cp j"
    using ms j byte_at_first [of j cp] by (simp add: byte_at_in)
  finally show ?thesis
    using v ix ms by (auto simp: m_xbyte_def split: option.splits)
qed

subsection \<open>The properties of the filter\<close>

text \<open>
  C24: a program that \<open>bpf_validate\<close> accepts makes \<open>bpf_filter\<close> return on every packet, and it
  never fetches an instruction outside the program nor divides by zero; what may still go
  wrong comes only from the instructions that validation does not look at.
\<close>

theorem bpf_validate_sound:
  assumes "bpf_validate f = Some True" and "length f < 2 ^ 31" and "length mem0 = BPF_MEMWORDS"
  shows "\<exists>r. bpf_filter (Some f) p wirelen buflen mem0 junk = Some r \<and>
    bpf_good \<lparr>be_prog = f, be_pkt = p, be_wirelen = wirelen, be_buflen = buflen, be_junk = junk\<rparr> r"
proof -
  let ?e = "\<lparr>be_prog = f, be_pkt = p, be_wirelen = wirelen, be_buflen = buflen, be_junk = junk\<rparr>"
  have "bpf_inv ?e \<lparr>bs_pc = 0, bs_A = 0, bs_X = 0, bs_mem = mem0\<rparr>"
    using assms validate_last [OF assms(1)] by (simp add: bpf_inv_def)
  from bpf.returns [OF this] show ?thesis by (simp add: bpf_filter_def)
qed

text \<open>A program that looks at the type of an Ethernet frame and keeps IP packets.\<close>

definition ip_filter :: "bpf_insn list" where
  "ip_filter =
     [\<lparr>insn_code = BPF_LD OR BPF_H OR BPF_ABS, insn_jt = 0, insn_jf = 0, insn_k = 12\<rparr>,
      \<lparr>insn_code = BPF_JMP OR BPF_JEQ OR BPF_K, insn_jt = 0, insn_jf = 1, insn_k = 0x800\<rparr>,
      \<lparr>insn_code = BPF_RET OR BPF_K, insn_jt = 0, insn_jf = 0, insn_k = 96\<rparr>,
      \<lparr>insn_code = BPF_RET OR BPF_K, insn_jt = 0, insn_jf = 0, insn_k = 0\<rparr>]"

theorem bpf_validate_sound_witness:
  "bpf_validate ip_filter = Some True \<and>
   (\<exists>r. bpf_filter (Some ip_filter) (Contig (replicate 12 0 @ [8, 0])) 14 14 (replicate 16 0) False = Some r)"
proof -
  have v: "bpf_validate ip_filter = Some True"
    by (simp add: bpf_validate_def ip_filter_def bpf_validate_insn_def BPF_CLASS_def BPF_OP_def
        BPF_MODE_def Let_def)
  moreover have "length ip_filter < 2 ^ 31" by (simp add: ip_filter_def)
  moreover have "length (replicate 16 (0 :: u32)) = BPF_MEMWORDS" by (simp add: BPF_MEMWORDS_def)
  ultimately show ?thesis using bpf_validate_sound by blast
qed

text \<open>
  What a load from an mbuf chain returns is what the same load returns from the bytes of
  the chain laid out in one buffer, also when the word straddles two mbufs.
\<close>

theorem bpf_chain_loads_agree:
  assumes "0 \<le> k"
  shows "(m_xword m k = Loaded v \<longrightarrow> long_at (concat m) k = Some v) \<and>
    (m_xhalf m k = Loaded v \<longrightarrow> short_at (concat m) k = Some v) \<and>
    (m_xbyte m k = Loaded v \<longrightarrow> map_option ucast (byte_at (concat m) k) = Some v)"
  using m_xword_concat [OF assms] m_xhalf_concat [OF assms] m_xbyte_concat [OF assms] by blast

theorem bpf_chain_loads_agree_witness:
  "m_xword [[1, 2, 3], [4, 5]] 1 = Loaded 0x02030405 \<and>
   long_at (concat [[1, 2, 3], [4, 5]]) 1 = Some 0x02030405"
proof -
  have "m_xword [[1, 2, 3], [4, 5]] 1 = Loaded 0x02030405"
    by (simp add: m_xword_def Let_def)
  with bpf_chain_loads_agree [of 1 "[[1, 2, 3], [4, 5]]" "0x02030405"] show ?thesis by simp
qed

text \<open>
  Validation accepts a program whose \<open>BPF_STX\<close> stores outside the scratch memory: the
  test of the offset covers \<open>BPF_ST\<close> and \<open>BPF_LD\<close> only.
\<close>

theorem bpf_validate_misses_stx:
  "bpf_validate [\<lparr>insn_code = BPF_STX, insn_jt = 0, insn_jf = 0, insn_k = 16\<rparr>,
                 \<lparr>insn_code = BPF_RET, insn_jt = 0, insn_jf = 0, insn_k = 0\<rparr>] = Some True \<and>
   bpf_filter (Some [\<lparr>insn_code = BPF_STX, insn_jt = 0, insn_jf = 0, insn_k = 16\<rparr>,
                 \<lparr>insn_code = BPF_RET, insn_jt = 0, insn_jf = 0, insn_k = 0\<rparr>])
     p wirelen buflen mem0 junk = Some (Wrong Mem_range)"
  by (simp add: bpf_validate_def bpf_validate_insn_def BPF_CLASS_def BPF_OP_def BPF_MODE_def
      BPF_MEMWORDS_def bpf_filter_def bpf_step_def bpf_step_load_def bpf_step_mem_jmp_def mem_set_def
      iterate_Inr Let_def)

text \<open>
  The same frame, too short for the load, is rejected from a contiguous buffer and
  accepted from an mbuf: the absolute halfword load does not look at the error of \<open>m_xhalf\<close>.
\<close>

theorem bpf_short_frame_accepted:
  "bpf_filter (Some [\<lparr>insn_code = BPF_LD OR BPF_H OR BPF_ABS, insn_jt = 0, insn_jf = 0, insn_k = 12\<rparr>,
                     \<lparr>insn_code = BPF_RET OR BPF_K, insn_jt = 0, insn_jf = 0, insn_k = 96\<rparr>])
     (Contig [1, 2, 3]) 3 3 mem0 junk = Some (Value 0) \<and>
   bpf_filter (Some [\<lparr>insn_code = BPF_LD OR BPF_H OR BPF_ABS, insn_jt = 0, insn_jf = 0, insn_k = 12\<rparr>,
                     \<lparr>insn_code = BPF_RET OR BPF_K, insn_jt = 0, insn_jf = 0, insn_k = 96\<rparr>])
     (Chain [[1, 2, 3]]) 3 0 mem0 junk = Some (Value 96)"
  by (simp add: bpf_filter_def bpf_step_def bpf_step_load_def load_half_def load_A_def m_xhalf_def
      of_chain_def set_A_def bpf_next_def iterate_Inl iterate_Inr Let_def)

end
