(* ===== verification/Rmap.thy ===== *)
theory Rmap
  imports Machine
begin

text \<open>
  The resource maps of \<^verbatim>\<open>sys/kern/subr_rmap.c\<close>: an array of free segments, sorted by address,
  with the unused slots (address 0) last. A \<open>long\<close> is an \<open>int\<close> here: C leaves its overflow
  undefined, and \<open>rm_inv\<close> in the theory of the proofs keeps every address of a map in range.

  The array is followed in memory by whatever comes next, \<open>m_beyond\<close>, since \<open>rmfree\<close> looks at
  the slot after the last one. \<open>RmWild\<close> is a copy with a negative length or a null pointer.
\<close>

record mapent =
  m_size :: int
  m_addr :: int

record rmap =
  m_name :: string
  m_slots :: "mapent list"
  m_beyond :: mapent

datatype 'a rmout = RmRet rmap 'a | RmPanic | RmWild

text \<open>\<open>rminit\<close> on the memory \<open>mem\<close> that follows the first element of the array.\<close>

definition rminit :: "mapent list \<Rightarrow> int \<Rightarrow> int \<Rightarrow> string \<Rightarrow> int \<Rightarrow> unit rmout" where
  "rminit mem sz addr name nelem =
     (if nelem < 2 \<or> addr \<le> 0 \<or> sz < 0 then RmPanic
      else RmRet \<lparr>m_name = name,
                  m_slots = \<lparr>m_size = sz, m_addr = addr\<rparr>
                    # map (\<lambda>ep. ep\<lparr>m_addr := 0\<rparr>) (take (nat nelem - 2) (drop 1 mem)),
                  m_beyond = mem ! (nat nelem - 1)\<rparr> ())"

text \<open>The \<open>ovbcopy\<close> that closes the gap of slot \<open>i\<close>; the last slot becomes unused.\<close>

definition remove_slot :: "nat \<Rightarrow> mapent list \<Rightarrow> mapent list" where
  "remove_slot i sl = take i sl @ drop (Suc i) sl @ [(last sl)\<lparr>m_addr := 0\<rparr>]"

text \<open>
  The search of \<open>rmalloc\<close>: the first exact fit, or the smallest larger slot. \<open>fp\<close> carries
  the index and the size of the slot it points to.
\<close>

fun rmalloc_scan ::
  "int \<Rightarrow> nat \<Rightarrow> mapent list \<Rightarrow> (nat \<times> int) option \<Rightarrow> nat + (nat \<times> int) option" where
  "rmalloc_scan sz i [] fp = Inr fp"
| "rmalloc_scan sz i (ep # es) fp =
     (if m_addr ep = 0 then Inr fp
      else if m_size ep = sz then Inl i
      else rmalloc_scan sz (i + 1) es
        (if m_size ep > sz \<and> (case fp of None \<Rightarrow> True | Some (j, s) \<Rightarrow> s > m_size ep)
         then Some (i, m_size ep) else fp))"

definition rmalloc :: "rmap \<Rightarrow> int \<Rightarrow> int rmout" where
  "rmalloc mp sz =
     (let sl = m_slots mp in
      if sz < 0 then RmPanic
      else if sz = 0 then RmRet mp 0
      else
        (case rmalloc_scan sz 0 sl None of
           Inl i \<Rightarrow> RmRet (mp\<lparr>m_slots := remove_slot i sl\<rparr>) (m_addr (sl ! i))
         | Inr (Some (i, s)) \<Rightarrow>
             RmRet (mp\<lparr>m_slots := sl[i := (sl ! i)\<lparr>m_addr := m_addr (sl ! i) + sz,
                                                     m_size := m_size (sl ! i) - sz\<rparr>]\<rparr>)
               (m_addr (sl ! i))
         | Inr None \<Rightarrow> RmRet mp 0))"

text \<open>
  One pass of \<open>rmfree\<close> over the slots: \<open>pre\<close> is the part already passed. The pass ends with
  the new array, with a panic, or at the first unused slot (or the end), with \<open>fp\<close> at the
  smallest slot.
\<close>

datatype rmfree_exit =
    Done "mapent list"
  | Overlap
  | Astray
  | Fell "mapent list" "mapent list" "(nat \<times> int) option"

fun rmfree_scan ::
  "int \<Rightarrow> int \<Rightarrow> mapent \<Rightarrow> mapent list \<Rightarrow> mapent list \<Rightarrow> (nat \<times> int) option \<Rightarrow> rmfree_exit" where
  "rmfree_scan sz addr beyond pre [] fp = Fell pre [] fp"
| "rmfree_scan sz addr beyond pre (ep # es) fp =
     (if m_addr ep = 0 then Fell pre (ep # es) fp
      else if m_addr ep + m_size ep = addr then
        let nxt = (case es of [] \<Rightarrow> beyond | e # _ \<Rightarrow> e) in
        if m_addr nxt \<noteq> 0 \<and> addr + sz \<ge> m_addr nxt then
          if addr + sz > m_addr nxt then Overlap
          else (case es of
                  [] \<Rightarrow> Astray
                | e # es' \<Rightarrow>
                    Done (pre @ ep\<lparr>m_size := m_size ep + sz + m_size e\<rparr>
                            # es' @ [(last es)\<lparr>m_addr := 0\<rparr>]))
        else Done (pre @ ep\<lparr>m_size := m_size ep + sz\<rparr> # es)
      else if addr + sz = m_addr ep then
        Done (pre @ ep\<lparr>m_addr := addr, m_size := m_size ep + sz\<rparr> # es)
      else if addr < m_addr ep \<and> m_addr (last (ep # es)) = 0 then
        Done (pre @ ep\<lparr>m_addr := addr, m_size := sz\<rparr> # butlast (ep # es))
      else rmfree_scan sz addr beyond (pre @ [ep]) es
        (case fp of
           None \<Rightarrow> Some (length pre, m_size ep)
         | Some (j, s) \<Rightarrow> if s > m_size ep then Some (length pre, m_size ep) else fp))"

text \<open>The body of the \<open>while (1)\<close>: the slot array to try again with, or the result.\<close>

datatype rmfree_res = Freed "mapent list" | Rm_panic | Rm_wild

definition rmfree_step ::
  "int \<Rightarrow> int \<Rightarrow> mapent \<Rightarrow> mapent list \<Rightarrow> mapent list + rmfree_res" where
  "rmfree_step sz addr beyond sl =
     (case rmfree_scan sz addr beyond [] sl None of
        Done sl' \<Rightarrow> Inr (Freed sl')
      | Overlap \<Rightarrow> Inr Rm_panic
      | Astray \<Rightarrow> Inr Rm_wild
      | Fell pre rest fp \<Rightarrow>
          if pre \<noteq> [] \<and> m_addr (last pre) + m_size (last pre) = addr then
            Inr (Freed (butlast pre @ (last pre)\<lparr>m_size := m_size (last pre) + sz\<rparr> # rest))
          else
            (case rest of
               ep # es \<Rightarrow> Inr (Freed (pre @ ep\<lparr>m_addr := addr, m_size := sz\<rparr> # es))
             | [] \<Rightarrow>
                 (case fp of
                    None \<Rightarrow> Inr Rm_wild
                  | Some (j, s) \<Rightarrow>
                      if s > sz then Inr (Freed sl) else Inl (remove_slot j sl))))"

definition rmfree :: "rmap \<Rightarrow> int \<Rightarrow> int \<Rightarrow> unit rmout option" where
  "rmfree mp sz addr =
     (if sz \<le> 0 \<or> addr \<le> 0 then Some RmPanic
      else
        (case iterate (rmfree_step sz addr (m_beyond mp)) (m_slots mp) of
           None \<Rightarrow> None
         | Some (Freed sl) \<Rightarrow> Some (RmRet (mp\<lparr>m_slots := sl\<rparr>) ())
         | Some Rm_panic \<Rightarrow> Some RmPanic
         | Some Rm_wild \<Rightarrow> Some RmWild))"

end
