(* ===== verification/Rmap_Correct.thy ===== *)
theory Rmap_Correct
  imports Rmap Allocator
begin

text \<open>
  Resource maps are correct: \<open>rmalloc\<close> takes a best fit, \<open>rmfree\<close> returns (its loop makes at
  most one slot free before it succeeds) and loses space only as its comment says, and the
  maps provide the contract of an allocator. \<open>rm_inv\<close> is the invariant, \<open>rm_free\<close> the set of
  free addresses. The range handed to \<open>rmfree\<close> must be wholly allocated.
\<close>

subsection \<open>Well-formed maps\<close>

definition rm_used :: "mapent list \<Rightarrow> mapent list" where
  "rm_used sl = takeWhile (\<lambda>e. m_addr e \<noteq> 0) sl"

definition rm_unused :: "mapent list \<Rightarrow> mapent list" where
  "rm_unused sl = dropWhile (\<lambda>e. m_addr e \<noteq> 0) sl"

definition segment :: "mapent \<Rightarrow> int set" where
  "segment e = {m_addr e ..< m_addr e + m_size e}"

definition segments :: "mapent list \<Rightarrow> int set" where
  "segments es = (\<Union>e \<in> set es. segment e)"

definition rm_free :: "rmap \<Rightarrow> int set" where
  "rm_free mp = segments (rm_used (m_slots mp))"

definition zeros :: "mapent list \<Rightarrow> bool" where
  "zeros zs \<longleftrightarrow> (\<forall>e \<in> set zs. m_addr e = 0)"

text \<open>
  Segments are in range, not empty, sorted, and never adjacent: \<open>rmfree\<close> joins those.
\<close>

definition rm_ok :: "mapent list \<Rightarrow> bool" where
  "rm_ok us \<longleftrightarrow> sorted_wrt (\<lambda>a b. m_addr a + m_size a < m_addr b) us \<and>
     (\<forall>e \<in> set us. 0 < m_addr e \<and> 0 < m_size e \<and> m_addr e + m_size e < 2 ^ 31)"

definition rm_inv :: "rmap \<Rightarrow> bool" where
  "rm_inv mp \<longleftrightarrow> m_slots mp \<noteq> [] \<and> rm_ok (rm_used (m_slots mp)) \<and> zeros (rm_unused (m_slots mp))"

lemma zeros_Nil [simp]: "zeros []"
  by (simp add: zeros_def)

lemma zeros_Cons [simp]: "zeros (e # es) \<longleftrightarrow> m_addr e = 0 \<and> zeros es"
  by (simp add: zeros_def)

lemma zeros_append [simp]: "zeros (xs @ ys) \<longleftrightarrow> zeros xs \<and> zeros ys"
  by (auto simp: zeros_def)

lemma zeros_last: "zeros zs \<Longrightarrow> zs \<noteq> [] \<Longrightarrow> m_addr (last zs) = 0"
  by (simp add: zeros_def)

lemma segments_simps [simp]:
  "segments [] = {}" "segments (e # es) = segment e \<union> segments es"
  "segments (xs @ ys) = segments xs \<union> segments ys"
  by (auto simp: segments_def)

lemma rm_ok_Nil [simp]: "rm_ok []"
  by (simp add: rm_ok_def)

lemma rm_ok_Cons:
  "rm_ok (e # es) \<longleftrightarrow> 0 < m_addr e \<and> 0 < m_size e \<and> m_addr e + m_size e < 2 ^ 31 \<and>
     (\<forall>x \<in> set es. m_addr e + m_size e < m_addr x) \<and> rm_ok es"
  by (auto simp: rm_ok_def)

lemma rm_ok_append:
  "rm_ok (xs @ ys) \<longleftrightarrow> rm_ok xs \<and> rm_ok ys \<and>
     (\<forall>x \<in> set xs. \<forall>y \<in> set ys. m_addr x + m_size x < m_addr y)"
  by (auto simp: rm_ok_def sorted_wrt_append)

lemma rm_ok_pos: "rm_ok us \<Longrightarrow> e \<in> set us \<Longrightarrow> 0 < m_addr e \<and> 0 < m_size e"
  by (simp add: rm_ok_def)

lemma used_split:
  assumes "rm_ok us" and "zeros zs"
  shows "rm_used (us @ zs) = us \<and> rm_unused (us @ zs) = zs"
proof -
  have "\<forall>e \<in> set us. m_addr e \<noteq> 0" using assms(1) by (auto simp: rm_ok_def)
  then show ?thesis
    using assms(2) by (cases zs) (simp_all add: rm_used_def rm_unused_def)
qed

lemma rm_inv_split:
  "rm_inv mp \<longleftrightarrow> (\<exists>us zs. m_slots mp = us @ zs \<and> us @ zs \<noteq> [] \<and> rm_ok us \<and> zeros zs)"
proof
  assume "rm_inv mp"
  then show "\<exists>us zs. m_slots mp = us @ zs \<and> us @ zs \<noteq> [] \<and> rm_ok us \<and> zeros zs"
    unfolding rm_inv_def rm_used_def rm_unused_def by (metis takeWhile_dropWhile_id)
next
  assume "\<exists>us zs. m_slots mp = us @ zs \<and> us @ zs \<noteq> [] \<and> rm_ok us \<and> zeros zs"
  then show "rm_inv mp"
    using used_split by (auto simp: rm_inv_def)
qed

lemma rm_free_split:
  "m_slots mp = us @ zs \<Longrightarrow> rm_ok us \<Longrightarrow> zeros zs \<Longrightarrow> rm_free mp = segments us"
  using used_split by (simp add: rm_free_def)

lemma last_remove: "zeros zs \<Longrightarrow> zs \<noteq> [] \<Longrightarrow> m_addr (last (us @ zs)) = 0"
  by (simp add: zeros_def)

text \<open>Closing the gap of a used slot.\<close>

lemma remove_slot_split:
  assumes "rm_ok (as @ e # bs)" and "zeros zs"
  shows "\<exists>zs'. remove_slot (length as) ((as @ e # bs) @ zs) = (as @ bs) @ zs' \<and> zeros zs' \<and> zs' \<noteq> [] \<and>
    length ((as @ bs) @ zs') = length ((as @ e # bs) @ zs)"
  using assms(2) by (auto simp: remove_slot_def)

lemma rm_ok_remove: "rm_ok (as @ e # bs) \<Longrightarrow> rm_ok (as @ bs)"
  by (auto simp: rm_ok_append rm_ok_Cons)

lemma segments_remove:
  assumes "rm_ok (as @ e # bs)"
  shows "segments (as @ bs) = segments (as @ e # bs) - segment e"
proof -
  have "x \<notin> segment e" if "x \<in> segments as \<or> x \<in> segments bs" for x
    using that assms by (fastforce simp: rm_ok_append rm_ok_Cons segments_def segment_def)
  then show ?thesis by auto
qed

subsection \<open>Allocation\<close>

text \<open>What the search of \<open>rmalloc\<close> finds in a well-formed map.\<close>

definition best_fit :: "int \<Rightarrow> mapent list \<Rightarrow> nat \<Rightarrow> bool" where
  "best_fit sz us i \<longleftrightarrow> i < length us \<and> m_size (us ! i) \<ge> sz \<and>
     (\<forall>j < length us. m_size (us ! j) \<ge> sz \<longrightarrow> m_size (us ! i) \<le> m_size (us ! j))"

definition fp_ok :: "int \<Rightarrow> mapent list \<Rightarrow> (nat \<times> int) option \<Rightarrow> bool" where
  "fp_ok sz pre fp \<longleftrightarrow> (\<forall>e \<in> set pre. m_size e \<noteq> sz) \<and>
     (case fp of
        None \<Rightarrow> \<forall>e \<in> set pre. m_size e < sz
      | Some (i, s) \<Rightarrow> i < length pre \<and> m_size (pre ! i) = s \<and> sz < s \<and>
          (\<forall>e \<in> set pre. m_size e < sz \<or> s \<le> m_size e))"

lemma fp_ok_step:
  assumes "fp_ok sz pre fp" and "m_size ep \<noteq> sz"
  shows "fp_ok sz (pre @ [ep])
    (if m_size ep > sz \<and> (case fp of None \<Rightarrow> True | Some (j, s) \<Rightarrow> s > m_size ep)
     then Some (length pre, m_size ep) else fp)"
  using assms by (auto simp: fp_ok_def nth_append split: option.splits)

lemma rmalloc_scan_spec:
  assumes "fp_ok sz pre fp" and "rm_ok us" and "zeros zs"
  shows "case rmalloc_scan sz (length pre) (us @ zs) fp of
      Inl i \<Rightarrow> i < length (pre @ us) \<and> m_size ((pre @ us) ! i) = sz
    | Inr fp' \<Rightarrow> fp_ok sz (pre @ us) fp'"
  using assms
proof (induction us arbitrary: pre fp)
  case Nil
  then show ?case by (cases zs) auto
next
  case (Cons ep us)
  show ?case
  proof (cases "m_size ep = sz")
    case True
    with Cons show ?thesis by (auto simp: rm_ok_Cons)
  next
    case False
    have eq: "(pre @ [ep]) @ us = pre @ ep # us" by simp
    from Cons.IH [OF fp_ok_step [OF Cons.prems(1) False], unfolded eq] Cons.prems False show ?thesis
      by (simp add: rm_ok_Cons split del: if_split)
  qed
qed

lemma fp_best_fit:
  assumes "fp_ok sz us (Some (i, s))"
  shows "best_fit sz us i \<and> sz < m_size (us ! i) \<and> m_size (us ! i) = s"
proof -
  have "i < length us" "m_size (us ! i) = s" "sz < s" "\<forall>e \<in> set us. m_size e < sz \<or> s \<le> m_size e"
    using assms by (auto simp: fp_ok_def)
  moreover from this(4) have "m_size (us ! i) \<le> m_size (us ! j)"
    if "j < length us" "sz \<le> m_size (us ! j)" for j
    using that nth_mem [OF that(1)] \<open>m_size (us ! i) = s\<close> by fastforce
  ultimately show ?thesis unfolding best_fit_def by simp
qed

lemma fp_no_fit: "fp_ok sz us None \<Longrightarrow> i < length us \<Longrightarrow> m_size (us ! i) < sz"
  by (simp add: fp_ok_def)

text \<open>Taking the first \<open>sz\<close> units of a larger slot.\<close>

lemma steal_slot:
  assumes "rm_ok (as @ e # bs)" and "0 < sz" "sz < m_size e"
  shows "rm_ok (as @ e\<lparr>m_addr := m_addr e + sz, m_size := m_size e - sz\<rparr> # bs) \<and>
    segments (as @ e\<lparr>m_addr := m_addr e + sz, m_size := m_size e - sz\<rparr> # bs) =
      segments (as @ e # bs) - {m_addr e ..< m_addr e + sz}"
proof -
  have "segment e - {m_addr e ..< m_addr e + sz} =
      segment (e\<lparr>m_addr := m_addr e + sz, m_size := m_size e - sz\<rparr>)"
    using assms(2) by (auto simp: segment_def)
  moreover have "x \<notin> {m_addr e ..< m_addr e + sz}" if "x \<in> segments as \<or> x \<in> segments bs" for x
    using that assms by (fastforce simp: rm_ok_append rm_ok_Cons segments_def segment_def)
  moreover have "rm_ok (as @ e\<lparr>m_addr := m_addr e + sz, m_size := m_size e - sz\<rparr> # bs)"
    using assms by (fastforce simp: rm_ok_append rm_ok_Cons)
  ultimately show ?thesis by auto
qed

lemma rmalloc_exact:
  assumes "m_slots mp = us @ zs" "rm_ok us" "zeros zs" and "i < length us" "m_size (us ! i) = sz"
  shows "let mp' = mp\<lparr>m_slots := remove_slot i (m_slots mp)\<rparr> in
    rm_inv mp' \<and> rm_free mp' = rm_free mp - {m_addr (us ! i) ..< m_addr (us ! i) + sz}"
proof -
  obtain as e bs where us: "us = as @ e # bs" "length as = i" "us ! i = e"
    using id_take_nth_drop [OF assms(4)] assms(4) by (metis length_take min.absorb4)
  obtain zs' where rs: "remove_slot i (us @ zs) = (as @ bs) @ zs'" "zeros zs'" "zs' \<noteq> []"
    using remove_slot_split [of as e bs zs] assms(2,3) us by auto
  have ok: "rm_ok (as @ bs)" using rm_ok_remove assms(2) us by blast
  let ?mp' = "mp\<lparr>m_slots := remove_slot i (m_slots mp)\<rparr>"
  have m: "m_slots ?mp' = (as @ bs) @ zs'" using rs assms(1) by simp
  have "rm_inv ?mp'"
    unfolding rm_inv_split using m ok rs by blast
  moreover have "rm_free ?mp' = segments (as @ bs)"
    using rm_free_split [OF m ok rs(2)] .
  moreover have "segment e = {m_addr (us ! i) ..< m_addr (us ! i) + sz}"
    using us assms(5) by (simp add: segment_def)
  ultimately show ?thesis
    using segments_remove [of as e bs] assms(2) us(1) rm_free_split [OF assms(1-3)] by (simp add: Let_def)
qed

lemma rmalloc_steal:
  assumes "m_slots mp = us @ zs" "rm_ok us" "zeros zs" and "i < length us" "sz < m_size (us ! i)" "0 < sz"
  shows "let mp' = mp\<lparr>m_slots := (m_slots mp)[i := (m_slots mp ! i)
            \<lparr>m_addr := m_addr (m_slots mp ! i) + sz, m_size := m_size (m_slots mp ! i) - sz\<rparr>]\<rparr> in
    rm_inv mp' \<and> rm_free mp' = rm_free mp - {m_addr (us ! i) ..< m_addr (us ! i) + sz}"
proof -
  obtain as e bs where us: "us = as @ e # bs" "length as = i" "us ! i = e"
    using id_take_nth_drop [OF assms(4)] assms(4) by (metis length_take min.absorb4)
  let ?e' = "e\<lparr>m_addr := m_addr e + sz, m_size := m_size e - sz\<rparr>"
  let ?mp' = "mp\<lparr>m_slots := (m_slots mp)[i := (m_slots mp ! i)
            \<lparr>m_addr := m_addr (m_slots mp ! i) + sz, m_size := m_size (m_slots mp ! i) - sz\<rparr>]\<rparr>"
  have m: "m_slots ?mp' = (as @ ?e' # bs) @ zs" using assms(1) us by (auto simp: list_update_append nth_append)
  have st: "rm_ok (as @ ?e' # bs)" "segments (as @ ?e' # bs) = segments us - {m_addr e ..< m_addr e + sz}"
    using steal_slot [of as e bs sz] assms us by auto
  have "rm_inv ?mp'" unfolding rm_inv_split using m st(1) assms(3) by blast
  then show ?thesis
    using rm_free_split [OF m st(1) assms(3)] st(2) us rm_free_split [OF assms(1-3)] by (simp add: Let_def)
qed

lemma rmalloc_found:
  assumes "rm_inv mp" and "0 < sz"
  shows "\<exists>mp' a. rmalloc mp sz = RmRet mp' a \<and> rm_inv mp' \<and>
    (if \<forall>e \<in> set (rm_used (m_slots mp)). m_size e < sz then mp' = mp \<and> a = 0
     else (\<exists>i. best_fit sz (rm_used (m_slots mp)) i \<and> a = m_addr (rm_used (m_slots mp) ! i) \<and> 0 < a) \<and>
       {a ..< a + sz} \<subseteq> rm_free mp \<and> rm_free mp' = rm_free mp - {a ..< a + sz})"
proof -
  obtain us zs where us: "m_slots mp = us @ zs" "rm_ok us" "zeros zs"
    using assms(1) unfolding rm_inv_split by auto
  then have used: "rm_used (m_slots mp) = us" using used_split by simp
  with us(1) have used': "rm_used (us @ zs) = us" by simp
  have nth: "(us @ zs) ! i = us ! i" if "i < length us" for i using that by (simp add: nth_append)
  have sub: "{m_addr (us ! i) ..< m_addr (us ! i) + sz} \<subseteq> rm_free mp" and pos: "0 < m_addr (us ! i)"
    if "best_fit sz us i" for i
  proof -
    have i: "i < length us" "sz \<le> m_size (us ! i)" using that by (auto simp: best_fit_def)
    then have "segment (us ! i) \<subseteq> rm_free mp"
      unfolding rm_free_split [OF us] segments_def by (auto intro: nth_mem)
    moreover have "{m_addr (us ! i) ..< m_addr (us ! i) + sz} \<subseteq> segment (us ! i)"
      using i by (auto simp: segment_def)
    ultimately show "{m_addr (us ! i) ..< m_addr (us ! i) + sz} \<subseteq> rm_free mp" by blast
    show "0 < m_addr (us ! i)" using us(2) i(1) by (simp add: rm_ok_def)
  qed
  have some: "\<not> (\<forall>e \<in> set us. m_size e < sz)" if "best_fit sz us i" for i
    using that unfolding best_fit_def by (meson not_le nth_mem)
  have "fp_ok sz [] None" by (simp add: fp_ok_def)
  from rmalloc_scan_spec [OF this us(2,3)]
  consider i where "rmalloc_scan sz 0 (m_slots mp) None = Inl i" "i < length us" "m_size (us ! i) = sz"
    | i s where "rmalloc_scan sz 0 (m_slots mp) None = Inr (Some (i, s))" "fp_ok sz us (Some (i, s))"
    | "rmalloc_scan sz 0 (m_slots mp) None = Inr None" "fp_ok sz us None"
    unfolding us(1) by (auto split: sum.splits option.splits)
      (metis not_None_eq surj_pair)
  then show ?thesis
  proof cases
    case 1
    then have fit: "best_fit sz us i" by (simp add: best_fit_def)
    show ?thesis
      using rmalloc_exact [OF us 1(2,3)] 1 assms(2) nth [OF 1(2)] us(1) sub [OF fit] some [OF fit] pos [OF fit] fit
      by (auto simp: rmalloc_def used used' Let_def)
  next
    case 2
    from fp_best_fit [OF 2(2)] have fit: "best_fit sz us i" and lt: "sz < m_size (us ! i)" by auto
    then have i: "i < length us" by (simp add: best_fit_def)
    show ?thesis
      using rmalloc_steal [OF us i lt assms(2)] 2 assms(2) nth [OF i] us(1) sub [OF fit] some [OF fit] pos [OF fit] fit
      by (auto simp: rmalloc_def used used' Let_def)
  next
    case 3
    then have "\<forall>e \<in> set us. m_size e < sz" by (simp add: fp_ok_def)
    with 3 assms show ?thesis by (simp add: rmalloc_def used used' Let_def)
  qed
qed

subsection \<open>Freeing\<close>

text \<open>The slot array \<open>sl'\<close> has the free space \<open>F\<close> and is well formed.\<close>

definition describes :: "nat \<Rightarrow> mapent list \<Rightarrow> int set \<Rightarrow> bool" where
  "describes n sl' F \<longleftrightarrow>
     (\<exists>us zs. sl' = us @ zs \<and> rm_ok us \<and> zeros zs \<and> segments us = F \<and> length sl' = n)"

lemma describesI:
  "sl' = us @ zs \<Longrightarrow> rm_ok us \<Longrightarrow> zeros zs \<Longrightarrow> segments us = F \<Longrightarrow> length sl' = n \<Longrightarrow> describes n sl' F"
  by (auto simp: describes_def)

text \<open>
  The slots the pass has left behind do not touch the block, and none lies above it while
  there is still an unused slot. \<open>fp\<close> is the first smallest of them.
\<close>

definition passed :: "int \<Rightarrow> int \<Rightarrow> mapent list \<Rightarrow> mapent list \<Rightarrow> bool" where
  "passed sz addr pre zs \<longleftrightarrow>
     (\<forall>e \<in> set pre. m_addr e + m_size e < addr \<or> (addr + sz < m_addr e \<and> zs = []))"

definition least_fp :: "mapent list \<Rightarrow> (nat \<times> int) option \<Rightarrow> bool" where
  "least_fp pre fp \<longleftrightarrow>
     (case fp of
        None \<Rightarrow> pre = []
      | Some (j, s) \<Rightarrow> j < length pre \<and> m_size (pre ! j) = s \<and> (\<forall>e \<in> set pre. s \<le> m_size e))"

lemma least_fp_step:
  "least_fp pre fp \<Longrightarrow> least_fp (pre @ [ep])
     (case fp of
        None \<Rightarrow> Some (length pre, m_size ep)
      | Some (j, s) \<Rightarrow> if s > m_size ep then Some (length pre, m_size ep) else fp)"
  by (auto simp: least_fp_def nth_append split: option.splits)

lemma disjoint_segment:
  assumes "segment e \<inter> {addr ..< addr + sz} = {}" and "0 < sz" "0 < m_size e"
  shows "m_addr e + m_size e \<le> addr \<or> addr + sz \<le> m_addr e"
proof (rule ccontr)
  assume "\<not> ?thesis"
  then have "max (m_addr e) addr \<in> segment e \<inter> {addr ..< addr + sz}"
    using assms(2,3) by (auto simp: segment_def)
  with assms(1) show False by blast
qed

lemma segment_join:
  assumes "0 < sz" "0 < m_size e"
  shows "m_addr e + m_size e = addr \<Longrightarrow>
      segment (e\<lparr>m_size := m_size e + sz\<rparr>) = segment e \<union> {addr ..< addr + sz}"
    and "addr + sz = m_addr e \<Longrightarrow>
      segment (e\<lparr>m_addr := addr, m_size := m_size e + sz\<rparr>) = segment e \<union> {addr ..< addr + sz}"
  using assms by (auto simp: segment_def)

lemma segment_new: "segment (e\<lparr>m_addr := addr, m_size := sz\<rparr>) = {addr ..< addr + sz}"
  by (simp add: segment_def)

text \<open>
  Every slot is used, the last one ends where the range starts, and the range reaches up to what the
  word after the array holds: the only case in which that word matters.
\<close>

definition looks_beyond :: "int \<Rightarrow> int \<Rightarrow> mapent \<Rightarrow> mapent list \<Rightarrow> mapent list \<Rightarrow> bool" where
  "looks_beyond sz addr beyond us zs \<longleftrightarrow>
     zs = [] \<and> us \<noteq> [] \<and> m_addr (last us) + m_size (last us) = addr \<and> m_addr beyond \<noteq> 0 \<and> m_addr beyond \<le> addr + sz"

text \<open>The five ways the pass can end.\<close>

definition pass_result :: "int \<Rightarrow> int \<Rightarrow> mapent \<Rightarrow> mapent list \<Rightarrow> mapent list \<Rightarrow> rmfree_exit \<Rightarrow> bool" where
  "pass_result sz addr beyond us zs r =
     (case r of
        Done sl' \<Rightarrow> describes (length (us @ zs)) sl' (segments us \<union> {addr ..< addr + sz})
      | Overlap \<Rightarrow> looks_beyond sz addr beyond us zs
      | Astray \<Rightarrow> looks_beyond sz addr beyond us zs
      | Fell pre rest fp \<Rightarrow> pre = us \<and> rest = zs \<and> passed sz addr us zs \<and> least_fp us fp)"

lemma rmfree_scan_spec:
  assumes "rm_ok (pre @ us)" "zeros zs" "passed sz addr pre zs" "least_fp pre fp"
    and "segments (pre @ us) \<inter> {addr ..< addr + sz} = {}" "0 < sz" "0 < addr" "addr + sz < 2 ^ 31"
  shows "pass_result sz addr beyond (pre @ us) zs (rmfree_scan sz addr beyond pre (us @ zs) fp)"
  using assms
proof (induction us arbitrary: pre fp)
  case Nil
  then show ?case by (cases zs) (auto simp: pass_result_def)
next
  case (Cons ep us)
  have ep: "0 < m_addr ep" "0 < m_size ep" "m_addr ep + m_size ep < 2 ^ 31"
      "\<forall>x \<in> set us. m_addr ep + m_size ep < m_addr x"
      "\<forall>x \<in> set pre. m_addr x + m_size x < m_addr ep" and ok: "rm_ok pre" "rm_ok us"
      "\<forall>x \<in> set pre. \<forall>y \<in> set us. m_addr x + m_size x < m_addr y"
    using Cons.prems(1) by (auto simp: rm_ok_append rm_ok_Cons)
  have dj: "segment ep \<inter> {addr ..< addr + sz} = {}" using Cons.prems(5) by auto
  have side: "m_addr ep + m_size ep \<le> addr \<or> addr + sz \<le> m_addr ep"
    using disjoint_segment [OF dj Cons.prems(6) ep(2)] .
  have later: "addr + sz \<le> m_addr x" if "x \<in> set us" "m_addr ep + m_size ep = addr" for x
  proof -
    have "segment x \<inter> {addr ..< addr + sz} = {}" "0 < m_size x"
      using Cons.prems(5) that(1) ok(2) by (auto simp: segments_def rm_ok_def)
    from disjoint_segment [OF this(1) Cons.prems(6) this(2)] that ep(4) \<open>0 < m_size x\<close> show ?thesis by force
  qed
  have before: "m_addr x + m_size x < addr" if "x \<in> set pre" "m_addr ep \<le> addr + sz \<or> zs \<noteq> []" for x
    using Cons.prems(3) that ep(5) ok(1) unfolding passed_def by (fastforce simp: rm_ok_def)
  note defs = pass_result_def rm_ok_append rm_ok_Cons
  show ?case
  proof (cases "m_addr ep + m_size ep = addr")
    case True
    let ?ep = "ep\<lparr>m_size := m_size ep + sz\<rparr>"
    have pre: "\<forall>x \<in> set pre. m_addr x + m_size x < m_addr ep" using ep by simp
    have plain: "describes (length ((pre @ ep # us) @ zs)) (pre @ ?ep # us @ zs)
        (segments (pre @ ep # us) \<union> {addr ..< addr + sz})"
      if "\<forall>x \<in> set us. addr + sz < m_addr x"
      using that ep ok True Cons.prems(2,6,8) segment_join(1) [OF Cons.prems(6) ep(2) True]
      by (intro describesI [where us = "pre @ ?ep # us" and zs = zs]) (auto simp: rm_ok_append rm_ok_Cons)
    show ?thesis
    proof (cases us)
      case Nil
      with True plain ep(1) Cons.prems(2) show ?thesis
        by (cases zs) (auto simp: pass_result_def looks_beyond_def Let_def)
    next
      case us: (Cons u us')
      have u: "0 < m_addr u" "addr + sz \<le> m_addr u" "0 < m_size u" "m_addr u + m_size u < 2 ^ 31"
        "\<forall>x \<in> set us'. m_addr u + m_size u < m_addr x" "rm_ok us'"
        using later [OF _ True] ok(2) us by (auto simp: rm_ok_Cons)
      show ?thesis
      proof (cases "addr + sz = m_addr u")
        case join: True
        let ?ep2 = "ep\<lparr>m_size := m_size ep + sz + m_size u\<rparr>"
        have "segment ?ep2 = segment ep \<union> {addr ..< addr + sz} \<union> segment u"
          using True join ep(2) u(3) Cons.prems(6) by (auto simp: segment_def)
        then have "describes (length ((pre @ ep # us) @ zs))
            (pre @ ?ep2 # us' @ zs @ [(last (u # us' @ zs))\<lparr>m_addr := 0\<rparr>])
            (segments (pre @ ep # us) \<union> {addr ..< addr + sz})"
          using True join ep ok u us Cons.prems(2)
          by (intro describesI [where us = "pre @ ?ep2 # us'" and zs = "zs @ [(last (u # us' @ zs))\<lparr>m_addr := 0\<rparr>]"])
            (auto simp: rm_ok_append rm_ok_Cons)
        with True join us u(1) ep(1) show ?thesis by (simp add: pass_result_def Let_def)
      next
        case False
        with u(2) have "addr + sz < m_addr u" by simp
        moreover from this have "\<forall>x \<in> set us. addr + sz < m_addr x" using u(3,5) us by auto
        ultimately show ?thesis
          using plain True us u(1) ep(1) by (simp add: pass_result_def Let_def)
      qed
    qed
  next
    case False
    show ?thesis
    proof (cases "addr + sz = m_addr ep")
      case True
      let ?ep = "ep\<lparr>m_addr := addr, m_size := m_size ep + sz\<rparr>"
      have "describes (length ((pre @ ep # us) @ zs)) (pre @ ?ep # us @ zs)
          (segments (pre @ ep # us) \<union> {addr ..< addr + sz})"
        using before True ep ok Cons.prems(2,6,7,8) segment_join(2) [OF Cons.prems(6) ep(2) True]
        by (intro describesI [where us = "pre @ ?ep # us" and zs = zs]) (auto simp: rm_ok_append rm_ok_Cons)
      with True False ep(1) show ?thesis by (simp add: pass_result_def)
    next
      case apart: False
      have last: "m_addr (last (ep # us @ zs)) = 0 \<longleftrightarrow> zs \<noteq> []"
      proof (cases "zs = []")
        case True
        have "last (ep # us) \<in> set (ep # us)" by (rule last_in_set) simp
        with ep(1) ok(2) have "0 < m_addr (last (ep # us))" by (auto simp: rm_ok_def)
        with True show ?thesis by simp
      qed (use Cons.prems(2) zeros_last [of zs] in simp)
      show ?thesis
      proof (cases "addr < m_addr ep \<and> zs \<noteq> []")
        case True
        let ?new = "ep\<lparr>m_addr := addr, m_size := sz\<rparr>"
        have bl: "butlast (ep # us @ zs) = ep # us @ butlast zs" using True by (simp add: butlast_append)
        have zb: "zeros (butlast zs)" using Cons.prems(2) by (auto simp: zeros_def dest: in_set_butlastD)
        have lt: "addr + sz < m_addr ep" using True side apart ep(2) by auto
        have "describes (length ((pre @ ep # us) @ zs)) (pre @ ?new # ep # us @ butlast zs)
            (segments (pre @ ep # us) \<union> {addr ..< addr + sz})"
          using before True lt ep ok zb Cons.prems(6,7,8) segment_new [where e = ep and addr = addr and sz = sz]
          by (intro describesI [where us = "pre @ ?new # ep # us" and zs = "butlast zs"])
            (auto simp: rm_ok_append rm_ok_Cons)
        with True apart False ep(1) last bl show ?thesis by (simp add: pass_result_def)
      next
        case no: False
        have "passed sz addr (pre @ [ep]) zs"
          using Cons.prems(3) no side False apart ep(2) Cons.prems(6) by (auto simp: passed_def)
        note IH = Cons.IH [OF _ Cons.prems(2) this least_fp_step [OF Cons.prems(4)] _ Cons.prems(6-8)]
        have "\<not> (addr < m_addr ep \<and> m_addr (last (ep # us @ zs)) = 0)" using no last by simp
        then have "rmfree_scan sz addr beyond pre ((ep # us) @ zs) fp =
            rmfree_scan sz addr beyond (pre @ [ep]) (us @ zs)
              (case fp of
                 None \<Rightarrow> Some (length pre, m_size ep)
               | Some (j, s) \<Rightarrow> if s > m_size ep then Some (length pre, m_size ep) else fp)"
          using apart False ep(1) by (auto simp del: last.simps butlast.simps)
        then show ?thesis using IH Cons.prems(1,5) by simp
      qed
    qed
  qed
qed

text \<open>One round of the loop.\<close>

definition no_fit_lost :: "int \<Rightarrow> mapent list \<Rightarrow> mapent \<Rightarrow> bool" where
  "no_fit_lost sz us e \<longleftrightarrow> e \<in> set us \<and> m_size e \<le> sz \<and> (\<forall>x \<in> set us. m_size e \<le> m_size x)"

definition step_result :: "int \<Rightarrow> int \<Rightarrow> mapent \<Rightarrow> mapent list \<Rightarrow> mapent list \<Rightarrow> mapent list + rmfree_res \<Rightarrow> bool" where
  "step_result sz addr beyond us zs r =
     (case r of
        Inr (Freed sl') \<Rightarrow>
          describes (length (us @ zs)) sl' (segments us \<union> {addr ..< addr + sz}) \<or>
          (zs = [] \<and> sl' = us \<and> (\<forall>e \<in> set us. sz < m_size e))
      | Inr Rm_panic \<Rightarrow> looks_beyond sz addr beyond us zs
      | Inr Rm_wild \<Rightarrow> looks_beyond sz addr beyond us zs \<or> us = [] \<and> zs = []
      | Inl sl' \<Rightarrow> zs = [] \<and> (\<exists>us' zs' e. sl' = us' @ zs' \<and> rm_ok us' \<and> zeros zs' \<and> zs' \<noteq> [] \<and>
          length sl' = length us \<and> no_fit_lost sz us e \<and> segments us' = segments us - segment e))"

lemma rmfree_step_spec:
  assumes "rm_ok us" "zeros zs" and "segments us \<inter> {addr ..< addr + sz} = {}" "0 < sz" "0 < addr" "addr + sz < 2 ^ 31"
  shows "step_result sz addr beyond us zs (rmfree_step sz addr beyond (us @ zs))"
proof -
  have "pass_result sz addr beyond us zs (rmfree_scan sz addr beyond [] (us @ zs) None)"
    using rmfree_scan_spec [of "[]" us zs sz addr None beyond] assms
    by (simp add: passed_def least_fp_def)
  then show ?thesis
  proof (cases "rmfree_scan sz addr beyond [] (us @ zs) None")
    case (Fell pre rest fp)
    assume "pass_result sz addr beyond us zs (rmfree_scan sz addr beyond [] (us @ zs) None)"
    with Fell have eq: "pre = us" "rest = zs" and ps: "passed sz addr us zs" and fp: "least_fp us fp"
      by (simp_all add: pass_result_def)
    have noend: "\<not> (us \<noteq> [] \<and> m_addr (last us) + m_size (last us) = addr)"
    proof
      assume l: "us \<noteq> [] \<and> m_addr (last us) + m_size (last us) = addr"
      then have "last us \<in> set us" by simp
      then have "0 < m_size (last us)"
        and "m_addr (last us) + m_size (last us) < addr \<or> addr + sz < m_addr (last us)"
        using ps assms(1) by (auto simp: passed_def rm_ok_def)
      with l assms(4) show False by linarith
    qed
    show ?thesis
    proof (cases zs)
      case (Cons z zs')
      have "\<forall>e \<in> set us. m_addr e + m_size e < addr" using ps Cons by (simp add: passed_def)
      then have "describes (length (us @ zs)) (us @ z\<lparr>m_addr := addr, m_size := sz\<rparr> # zs')
          (segments us \<union> {addr ..< addr + sz})"
        using assms Cons segment_new [where e = z and addr = addr and sz = sz]
        by (intro describesI [where us = "us @ [z\<lparr>m_addr := addr, m_size := sz\<rparr>]" and zs = zs'])
          (auto simp: rm_ok_append rm_ok_Cons)
      with Fell eq noend Cons show ?thesis by (auto simp: rmfree_step_def step_result_def)
    next
      case Nil
      show ?thesis
      proof (cases fp)
        case None
        with fp Fell eq Nil show ?thesis by (simp add: least_fp_def rmfree_step_def step_result_def)
      next
        case (Some js)
        then obtain j s where js: "fp = Some (j, s)" by (cases js) auto
        with fp have j: "j < length us" "m_size (us ! j) = s" "\<forall>e \<in> set us. s \<le> m_size e"
          by (auto simp: least_fp_def)
        show ?thesis
        proof (cases "s > sz")
          case True
          with j have "\<forall>e \<in> set us. sz < m_size e" by auto
          with True Fell eq noend Nil js show ?thesis by (auto simp: rmfree_step_def step_result_def)
        next
          case False
          obtain as e bs where us: "us = as @ e # bs" "length as = j" "us ! j = e"
            using id_take_nth_drop [OF j(1)] j(1) by (metis length_take min.absorb4)
          obtain zs' where rs: "remove_slot j us = (as @ bs) @ zs'" "zeros zs'" "zs' \<noteq> []"
            "length ((as @ bs) @ zs') = length us"
            using remove_slot_split [of as e bs "[]"] assms(1) us by auto
          have "no_fit_lost sz us e" using j us False by (auto simp: no_fit_lost_def)
          moreover have "rm_ok (as @ bs)" using rm_ok_remove assms(1) us by blast
          moreover have "segments (as @ bs) = segments us - segment e"
            using segments_remove [of as e bs] assms(1) us by simp
          moreover have "rmfree_step sz addr beyond (us @ zs) = Inl (remove_slot j us)"
            using False Fell eq noend Nil js by (auto simp: rmfree_step_def)
          ultimately have "\<exists>us' zs'' x. remove_slot j us = us' @ zs'' \<and> rm_ok us' \<and> zeros zs'' \<and> zs'' \<noteq> [] \<and>
              length (remove_slot j us) = length us \<and> no_fit_lost sz us x \<and> segments us' = segments us - segment x"
            using rs by (intro exI [of _ "as @ bs"] exI [of _ zs'] exI [of _ e]) simp
          moreover have "rmfree_step sz addr beyond (us @ zs) = Inl (remove_slot j us)"
            using False Fell eq noend Nil js by (auto simp: rmfree_step_def)
          ultimately show ?thesis using Nil by (simp add: step_result_def)
        qed
      qed
    qed
  qed (auto simp: pass_result_def rmfree_step_def step_result_def)
qed

text \<open>What a call has to free and the map it starts from; what the loop keeps and yields.\<close>

record rm_call =
  rc_sz :: int
  rc_addr :: int
  rc_beyond :: mapent
  rc_used :: "mapent list"
  rc_unused :: "mapent list"

definition rm_block :: "rm_call \<Rightarrow> int set" where
  "rm_block c = {rc_addr c ..< rc_addr c + rc_sz c}"

definition rm_call_ok :: "rm_call \<Rightarrow> bool" where
  "rm_call_ok c \<longleftrightarrow> rm_ok (rc_used c) \<and> zeros (rc_unused c) \<and> rc_used c @ rc_unused c \<noteq> [] \<and>
     segments (rc_used c) \<inter> rm_block c = {} \<and> 0 < rc_sz c \<and> 0 < rc_addr c \<and> rc_addr c + rc_sz c < 2 ^ 31"

definition rm_loop_inv :: "rm_call \<Rightarrow> mapent list \<Rightarrow> bool" where
  "rm_loop_inv c sl \<longleftrightarrow> rm_call_ok c \<and> length sl = length (rc_used c @ rc_unused c) \<and>
     (\<exists>us zs. sl = us @ zs \<and> rm_ok us \<and> zeros zs \<and>
        (us = rc_used c \<and> zs = rc_unused c \<or>
         rc_unused c = [] \<and> zs \<noteq> [] \<and>
         (\<exists>e. no_fit_lost (rc_sz c) (rc_used c) e \<and> segments us = segments (rc_used c) - segment e)))"

definition rm_freed :: "int \<Rightarrow> int set \<Rightarrow> mapent list \<Rightarrow> bool \<Rightarrow> int set \<Rightarrow> bool" where
  "rm_freed sz b us full F \<longleftrightarrow> F = segments us \<union> b \<or>
     full \<and> (F = segments us \<and> (\<forall>e \<in> set us. sz < m_size e) \<or>
             (\<exists>e. no_fit_lost sz us e \<and> F = segments us - segment e \<union> b))"

definition rm_loop_good :: "rm_call \<Rightarrow> rmfree_res \<Rightarrow> bool" where
  "rm_loop_good c r =
     (case r of
        Freed sl \<Rightarrow> \<exists>F. describes (length (rc_used c @ rc_unused c)) sl F \<and>
          rm_freed (rc_sz c) (rm_block c) (rc_used c) (rc_unused c = []) F
      | _ \<Rightarrow> looks_beyond (rc_sz c) (rc_addr c) (rc_beyond c) (rc_used c) (rc_unused c))"

lemma rm_loop_step:
  assumes "rm_loop_inv c sl"
  obtains us zs where "sl = us @ zs" "rm_ok us" "zeros zs"
    "step_result (rc_sz c) (rc_addr c) (rc_beyond c) us zs
       (rmfree_step (rc_sz c) (rc_addr c) (rc_beyond c) sl)"
    "us = rc_used c \<and> zs = rc_unused c \<or> rc_unused c = [] \<and> zs \<noteq> [] \<and>
       (\<exists>e. no_fit_lost (rc_sz c) (rc_used c) e \<and> segments us = segments (rc_used c) - segment e)"
proof -
  obtain us zs where us: "sl = us @ zs" "rm_ok us" "zeros zs"
    and eq: "us = rc_used c \<and> zs = rc_unused c \<or> rc_unused c = [] \<and> zs \<noteq> [] \<and>
       (\<exists>e. no_fit_lost (rc_sz c) (rc_used c) e \<and> segments us = segments (rc_used c) - segment e)"
    using assms by (auto simp: rm_loop_inv_def)
  have "segments us \<subseteq> segments (rc_used c)" using eq by auto
  with assms have "segments us \<inter> {rc_addr c ..< rc_addr c + rc_sz c} = {}"
    and "0 < rc_sz c" "0 < rc_addr c" "rc_addr c + rc_sz c < 2 ^ 31"
    by (auto simp: rm_loop_inv_def rm_call_ok_def rm_block_def)
  from rmfree_step_spec [OF us(2,3) this] us eq show thesis by (intro that [of us zs]) auto
qed

interpretation rmfree: forward_machine
  "\<lambda>c. rmfree_step (rc_sz c) (rc_addr c) (rc_beyond c)" rm_loop_inv
  "\<lambda>c sl. length (rm_used sl)" rm_loop_good
proof
  fix c sl sl'
  assume inv: "rm_loop_inv c sl" and step: "rmfree_step (rc_sz c) (rc_addr c) (rc_beyond c) sl = Inl sl'"
  obtain us zs where us: "sl = us @ zs" "rm_ok us" "zeros zs"
    and res: "step_result (rc_sz c) (rc_addr c) (rc_beyond c) us zs (Inl sl')"
    and eq: "us = rc_used c \<and> zs = rc_unused c \<or> rc_unused c = [] \<and> zs \<noteq> [] \<and>
       (\<exists>e. no_fit_lost (rc_sz c) (rc_used c) e \<and> segments us = segments (rc_used c) - segment e)"
    using rm_loop_step [OF inv] step by metis
  obtain us' zs' e where us': "sl' = us' @ zs'" "rm_ok us'" "zeros zs'" "zs' \<noteq> []"
    and len: "length sl' = length us" and zs: "zs = []"
    and lost: "no_fit_lost (rc_sz c) us e" "segments us' = segments us - segment e"
    using res by (auto simp: step_result_def)
  then have same: "us = rc_used c" "rc_unused c = []" using eq by auto
  show "rm_loop_inv c sl'"
    unfolding rm_loop_inv_def
    using inv us' len zs lost same by (auto simp: rm_loop_inv_def)
  have "length us' < length us" using len us'(1,4) by (cases zs') auto
  then show "length (rm_used sl') < length (rm_used sl)"
    using used_split [OF us(2,3)] used_split [OF us'(2,3)] us(1) us'(1) by simp
next
  fix c sl r
  assume inv: "rm_loop_inv c sl" and step: "rmfree_step (rc_sz c) (rc_addr c) (rc_beyond c) sl = Inr r"
  obtain us zs where us: "sl = us @ zs" "rm_ok us" "zeros zs"
    and res: "step_result (rc_sz c) (rc_addr c) (rc_beyond c) us zs (Inr r)"
    and eq: "us = rc_used c \<and> zs = rc_unused c \<or> rc_unused c = [] \<and> zs \<noteq> [] \<and>
       (\<exists>e. no_fit_lost (rc_sz c) (rc_used c) e \<and> segments us = segments (rc_used c) - segment e)"
    using rm_loop_step [OF inv] step by metis
  have len: "length (us @ zs) = length (rc_used c @ rc_unused c)" and ne: "us @ zs \<noteq> []"
    using inv us(1) by (auto simp: rm_loop_inv_def rm_call_ok_def)
  show "rm_loop_good c r"
  proof (cases r)
    case (Freed sl')
    with res consider "describes (length (us @ zs)) sl' (segments us \<union> rm_block c)"
      | "zs = []" "sl' = us" "\<forall>e \<in> set us. rc_sz c < m_size e"
      by (auto simp: step_result_def rm_block_def)
    then show ?thesis
    proof cases
      case 1
      moreover have "rm_freed (rc_sz c) (rm_block c) (rc_used c) (rc_unused c = []) (segments us \<union> rm_block c)"
        using eq by (auto simp: rm_freed_def)
      ultimately show ?thesis using len Freed by (auto simp: rm_loop_good_def)
    next
      case 2
      then have "us = rc_used c" "rc_unused c = []" using eq by auto
      moreover have "describes (length us) us (segments us)"
        using describesI [of us us "[]"] us(2) by simp
      ultimately show ?thesis using 2 len Freed by (auto simp: rm_loop_good_def rm_freed_def)
    qed
  qed (use res eq ne in \<open>auto simp: step_result_def rm_loop_good_def looks_beyond_def\<close>)
qed

lemma describes_rm:
  assumes "describes n sl F" and "0 < n"
  shows "rm_inv (mp\<lparr>m_slots := sl\<rparr>) \<and> rm_free (mp\<lparr>m_slots := sl\<rparr>) = F"
proof -
  obtain us zs where sl: "sl = us @ zs" "rm_ok us" "zeros zs" "segments us = F" "length sl = n"
    using assms(1) by (auto simp: describes_def)
  then have "us @ zs \<noteq> []" using assms(2) by auto
  with sl have "rm_inv (mp\<lparr>m_slots := sl\<rparr>)" unfolding rm_inv_split by auto
  with sl rm_free_split [of "mp\<lparr>m_slots := sl\<rparr>" us zs] show ?thesis by simp
qed

lemma rmfree_result:
  assumes "rm_inv mp" and "{addr ..< addr + sz} \<inter> rm_free mp = {}"
    and "0 < sz" "0 < addr" "addr + sz < 2 ^ 31"
  shows "(\<exists>mp'. rmfree mp sz addr = Some (RmRet mp' ()) \<and> rm_inv mp' \<and>
      rm_freed sz {addr ..< addr + sz} (rm_used (m_slots mp)) (rm_unused (m_slots mp) = []) (rm_free mp')) \<or>
    looks_beyond sz addr (m_beyond mp) (rm_used (m_slots mp)) (rm_unused (m_slots mp)) \<and>
      (rmfree mp sz addr = Some RmPanic \<or> rmfree mp sz addr = Some RmWild)"
proof -
  obtain us zs where us: "m_slots mp = us @ zs" "rm_ok us" "zeros zs" "us @ zs \<noteq> []"
    using assms(1) unfolding rm_inv_split by auto
  let ?c = "\<lparr>rc_sz = sz, rc_addr = addr, rc_beyond = m_beyond mp, rc_used = us, rc_unused = zs\<rparr>"
  have "rm_loop_inv ?c (m_slots mp)"
    using us assms rm_free_split [OF us(1-3)] by (auto simp: rm_loop_inv_def rm_call_ok_def rm_block_def)
  from rmfree.returns [OF this] obtain r
    where it: "iterate (rmfree_step sz addr (m_beyond mp)) (m_slots mp) = Some r" and good: "rm_loop_good ?c r"
    by auto
  have u: "rm_used (m_slots mp) = us" "rm_unused (m_slots mp) = zs" using used_split us by simp_all
  show ?thesis
  proof (cases r)
    case (Freed sl)
    with good obtain F where F: "describes (length (us @ zs)) sl F" "rm_freed sz {addr ..< addr + sz} us (zs = []) F"
      by (auto simp: rm_loop_good_def rm_block_def)
    have "0 < length (us @ zs)" using us(4) by blast
    from describes_rm [OF F(1) this, of mp] F(2) it Freed assms(3,4) u show ?thesis
      by (simp add: rmfree_def)
  qed (use good it assms(3,4) u in \<open>simp_all add: rm_loop_good_def rmfree_def\<close>)
qed

lemma full_used: "rm_unused (m_slots mp) = [] \<Longrightarrow> rm_used (m_slots mp) = m_slots mp"
  using takeWhile_dropWhile_id [of "\<lambda>e. m_addr e \<noteq> 0" "m_slots mp"] by (simp add: rm_used_def rm_unused_def)

text \<open>In the case where the word after the array matters, the pass does reach the last slot.\<close>

lemma rmfree_scan_beyond:
  assumes "rm_ok us" "looks_beyond sz addr beyond us []" "0 < sz"
  shows "rmfree_scan sz addr beyond pre us fp \<in> {Overlap, Astray}"
  using assms
proof (induction us arbitrary: pre fp)
  case Nil
  then show ?case by (simp add: looks_beyond_def)
next
  case (Cons ep us)
  show ?case
  proof (cases "us = []")
    case True
    with Cons.prems show ?thesis by (auto simp: looks_beyond_def rm_ok_Cons Let_def)
  next
    case False
    then have e: "last us \<in> set us" "m_addr (last us) + m_size (last us) = addr" "looks_beyond sz addr beyond us []"
      using Cons.prems(2) by (auto simp: looks_beyond_def)
    have "0 < m_addr ep" "0 < m_size ep" "m_addr ep + m_size ep < m_addr (last us)" "0 < m_size (last us)" "rm_ok us" "0 < m_addr (last us)"
      using Cons.prems(1) e(1) by (auto simp: rm_ok_Cons rm_ok_pos)
    then show ?thesis using Cons.IH [OF _ e(3)] Cons.prems(3) e(2) False by auto
  qed
qed

lemma rmfree_beyond:
  assumes "rm_inv mp" "{addr ..< addr + sz} \<inter> rm_free mp = {}" "0 < sz" "0 < addr" "addr + sz < 2 ^ 31"
    and "looks_beyond sz addr (m_beyond mp) (rm_used (m_slots mp)) (rm_unused (m_slots mp))"
  shows "rmfree mp sz addr = Some RmPanic \<or> rmfree mp sz addr = Some RmWild"
proof -
  have u: "rm_used (m_slots mp) = m_slots mp" using assms(6) full_used by (auto simp: looks_beyond_def)
  obtain us zs where "m_slots mp = us @ zs" "rm_ok us" "zeros zs" using assms(1) unfolding rm_inv_split by auto
  then have "rm_ok (m_slots mp)" using used_split(1) u by metis
  from rmfree_scan_beyond [OF this _ assms(3), of addr "m_beyond mp" "[]" None] assms(6) u
  have "rmfree_scan sz addr (m_beyond mp) [] (m_slots mp) None \<in> {Overlap, Astray}" by (auto simp: looks_beyond_def)
  then show ?thesis using assms(3,4) by (auto simp: rmfree_def rmfree_step_def iterate_Inr)
qed

text \<open>
  C36: given a range that is not free yet, \<open>rmfree\<close> ends, with exactly that range made
  free; only when every slot is used may it lose space, and then either the range itself,
  smaller than every slot, or one slot that is the smallest and not larger than the range. The one
  exception is the case in which it looks at the word after the array: every slot is used, the last
  one ends where the range starts, and that word is an address the range reaches. Then it panics or writes beyond the array.
\<close>

theorem rmfree_spec:
  assumes "rm_inv mp" and "{addr ..< addr + sz} \<inter> rm_free mp = {}"
    and "0 < sz" "0 < addr" "addr + sz < 2 ^ 31"
  shows "if rm_unused (m_slots mp) = [] \<and> m_addr (last (m_slots mp)) + m_size (last (m_slots mp)) = addr \<and>
       m_addr (m_beyond mp) \<noteq> 0 \<and> m_addr (m_beyond mp) \<le> addr + sz
    then rmfree mp sz addr = Some RmPanic \<or> rmfree mp sz addr = Some RmWild
    else \<exists>mp'. rmfree mp sz addr = Some (RmRet mp' ()) \<and> rm_inv mp' \<and>
      (rm_free mp' = rm_free mp \<union> {addr ..< addr + sz} \<or>
       rm_unused (m_slots mp) = [] \<and>
        (rm_free mp' = rm_free mp \<and> (\<forall>e \<in> set (m_slots mp). sz < m_size e) \<or>
         (\<exists>e \<in> set (m_slots mp). m_size e \<le> sz \<and> (\<forall>x \<in> set (m_slots mp). m_size e \<le> m_size x) \<and>
            rm_free mp' = rm_free mp - segment e \<union> {addr ..< addr + sz})))"
proof (cases "looks_beyond sz addr (m_beyond mp) (rm_used (m_slots mp)) (rm_unused (m_slots mp))")
  case True
  then have "rm_used (m_slots mp) = m_slots mp" by (simp add: looks_beyond_def full_used)
  with rmfree_beyond [OF assms True] True show ?thesis by (simp add: looks_beyond_def)
next
  case False
  have ne: "m_slots mp \<noteq> []" using assms(1) by (auto simp: rm_inv_def)
  from rmfree_result [OF assms] False obtain mp' where
    r: "rmfree mp sz addr = Some (RmRet mp' ())" "rm_inv mp'"
      "rm_freed sz {addr ..< addr + sz} (rm_used (m_slots mp)) (rm_unused (m_slots mp) = []) (rm_free mp')" by blast
  then show ?thesis using False ne full_used [of mp] unfolding looks_beyond_def rm_freed_def no_fit_lost_def rm_free_def by auto
qed

text \<open>
  C38: \<open>rmalloc\<close> hands out the start of a slot that fits best and takes exactly that range out
  of the free space; it returns 0 only when no slot is large enough.
\<close>

theorem rmalloc_spec:
  assumes "rm_inv mp" and "0 < sz"
  shows "\<exists>mp' a. rmalloc mp sz = RmRet mp' a \<and> rm_inv mp' \<and>
    (if \<forall>e \<in> set (rm_used (m_slots mp)). m_size e < sz then mp' = mp \<and> a = 0
     else (\<exists>i. best_fit sz (rm_used (m_slots mp)) i \<and> a = m_addr (rm_used (m_slots mp) ! i) \<and> 0 < a) \<and>
       {a ..< a + sz} \<subseteq> rm_free mp \<and> rm_free mp' = rm_free mp - {a ..< a + sz})"
  by (rule rmalloc_found [OF assms])

text \<open>A map of seven slots for addresses 1 to 99, of which 1 to 9 are handed out.\<close>

definition swap_map :: rmap where
  "swap_map = \<lparr>m_name = ''swap'',
     m_slots = \<lparr>m_size = 90, m_addr = 10\<rparr> # replicate 6 \<lparr>m_size = 0, m_addr = 0\<rparr>,
     m_beyond = \<lparr>m_size = 0, m_addr = 0\<rparr>\<rparr>"

lemma swap_map_inv: "rm_inv swap_map \<and> rm_free swap_map = {10 ..< 100}"
  by (simp add: swap_map_def rm_inv_def rm_free_def rm_used_def rm_unused_def rm_ok_def segment_def zeros_def)

theorem rmalloc_spec_witness:
  "\<exists>mp'. rmalloc swap_map 5 = RmRet mp' 10 \<and> rm_free mp' = {15 ..< 100}"
proof -
  have u: "rm_used (m_slots swap_map) = [\<lparr>m_size = 90, m_addr = 10\<rparr>]"
    by (simp add: swap_map_def rm_used_def)
  obtain mp' a where "rmalloc swap_map 5 = RmRet mp' a"
    and "\<exists>i. best_fit 5 (rm_used (m_slots swap_map)) i \<and> a = m_addr (rm_used (m_slots swap_map) ! i)"
    and "rm_free mp' = rm_free swap_map - {a ..< a + 5}"
    using rmalloc_spec [of swap_map 5] swap_map_inv u by auto
  with u swap_map_inv show ?thesis by (force simp: best_fit_def)
qed

theorem rmfree_spec_witness:
  "\<exists>mp'. rmfree swap_map 4 3 = Some (RmRet mp' ()) \<and> rm_free mp' = {10 ..< 100} \<union> {3 ..< 7}"
proof -
  have u: "m_addr (m_beyond swap_map) = 0" "rm_unused (m_slots swap_map) \<noteq> []" by (simp_all add: swap_map_def rm_unused_def)
  have "{3 ..< 3 + 4} \<inter> rm_free swap_map = {}" using swap_map_inv by auto
  from rmfree_spec [OF _ this] swap_map_inv u show ?thesis by auto
qed

subsection \<open>The clients of a map\<close>

definition rm_give :: "rmap \<Rightarrow> int set \<Rightarrow> rmap \<Rightarrow> bool" where
  "rm_give mp b mp' \<longleftrightarrow>
     (\<exists>sz a. 0 < sz \<and> rmalloc mp sz = RmRet mp' a \<and> a \<noteq> 0 \<and> b = {a ..< a + sz})"

definition rm_take_back :: "rmap \<Rightarrow> int set \<Rightarrow> rmap \<Rightarrow> bool" where
  "rm_take_back mp b mp' \<longleftrightarrow>
     (\<exists>sz a. 0 < sz \<and> 0 < a \<and> a + sz < 2 ^ 31 \<and> b = {a ..< a + sz} \<and>
        rmfree mp sz a = Some (RmRet mp' ()))"

lemma rm_give_result:
  assumes "rm_inv mp" and "rm_give mp b mp'"
  shows "rm_inv mp' \<and> b \<subseteq> rm_free mp \<and> rm_free mp' = rm_free mp - b"
proof -
  obtain sz a where c: "0 < sz" "rmalloc mp sz = RmRet mp' a" "a \<noteq> 0" "b = {a ..< a + sz}"
    using assms(2) by (auto simp: rm_give_def)
  show ?thesis
    using rmalloc_found [OF assms(1) c(1)] c by (auto split: if_splits)
qed

lemma rm_take_back_result:
  assumes "rm_inv mp" and "b \<inter> rm_free mp = {}" and "rm_take_back mp b mp'"
  shows "rm_inv mp' \<and> rm_free mp' \<subseteq> rm_free mp \<union> b"
proof -
  obtain sz a where c: "0 < sz" "0 < a" "a + sz < 2 ^ 31" "b = {a ..< a + sz}"
      "rmfree mp sz a = Some (RmRet mp' ())"
    using assms(3) by (auto simp: rm_take_back_def)
  show ?thesis
    using rmfree_result [OF assms(1), of a sz] assms(2) c by (auto simp: rm_freed_def rm_free_def)
qed

interpretation rm: allocator rm_inv "\<lambda>mp. - rm_free mp" rm_give rm_take_back
proof
  fix s b s' assume "rm_inv s" and "rm_give s b s'"
  from rm_give_result [OF this] show "rm_inv s'" and "b \<inter> - rm_free s = {}" and "- rm_free s' = - rm_free s \<union> b"
    by auto
next
  fix s b s' assume "rm_inv s" and "b \<subseteq> - rm_free s" and "rm_take_back s b s'"
  then show "rm_inv s'" and "- rm_free s - b \<subseteq> - rm_free s'"
    using rm_take_back_result [of s b s'] by auto
qed

lemma rminit_inv:
  assumes "rminit mem sz addr name nelem = RmRet mp ()" and "0 < sz" and "addr + sz < 2 ^ 31"
  shows "rm_inv mp \<and> rm_free mp = {addr ..< addr + sz}"
proof -
  obtain zs where "m_slots mp = [\<lparr>m_size = sz, m_addr = addr\<rparr>] @ zs" and z: "zeros zs" and "0 < addr"
    using assms(1) by (auto simp: rminit_def zeros_def split: if_splits)
  moreover from this have ok: "rm_ok [\<lparr>m_size = sz, m_addr = addr\<rparr>]"
    using assms by (simp add: rm_ok_def)
  ultimately have "rm_inv mp"
    unfolding rm_inv_split by (intro exI [of _ "[\<lparr>m_size = sz, m_addr = addr\<rparr>]"] exI [of _ zs]) simp
  then show ?thesis
    using rm_free_split [of mp "[\<lparr>m_size = sz, m_addr = addr\<rparr>]" zs] ok z
      \<open>m_slots mp = [\<lparr>m_size = sz, m_addr = addr\<rparr>] @ zs\<close>
    by (simp add: segment_def)
qed

text \<open>
  C34: on a fresh map, whatever sequence of \<open>rmalloc\<close> and \<open>rmfree\<close> calls the clients make, also
  when the map is too fragmented and loses space, the blocks they hold are pairwise
  disjoint, and none of their addresses counts as free.
\<close>

theorem rmap_clients_disjoint:
  assumes "rminit mem sz addr name nelem = RmRet mp0 ()" and "0 < sz" and "addr + sz < 2 ^ 31"
    and "client_run rm_give rm_take_back mp0 mp bs"
  shows "disjoint_blocks bs \<and> \<Union> (set bs) \<inter> rm_free mp = {}"
  using rm.run_sound [OF assms(4)] rminit_inv [OF assms(1-3)] by auto

theorem rmap_clients_disjoint_witness:
  "\<exists>mp0 mp. rminit (replicate 4 \<lparr>m_size = 0, m_addr = 7\<rparr>) 99 1 ''swap'' 4 = RmRet mp0 () \<and>
     client_run rm_give rm_take_back mp0 mp [{6 ..< 9}, {1 ..< 6}] \<and>
     disjoint_blocks [{6 ..< 9}, {1 ..< (6 :: int)}] \<and> {6 ..< 9} \<inter> rm_free mp = {}"
proof -
  let ?z = "\<lparr>m_size = 0, m_addr = 0\<rparr>" and ?b = "\<lparr>m_size = 0, m_addr = 7\<rparr>"
  define mp where "mp sz a = \<lparr>m_name = ''swap'',
    m_slots = [\<lparr>m_size = sz, m_addr = a\<rparr>, ?z, ?z], m_beyond = ?b\<rparr>" for sz a
  have init: "rminit (replicate 4 ?b) 99 1 ''swap'' 4 = RmRet (mp 99 1) ()"
    by (simp add: rminit_def mp_def numeral_eq_Suc)
  have a1: "rmalloc (mp 99 1) 5 = RmRet (mp 94 6) 1" and a2: "rmalloc (mp 94 6) 3 = RmRet (mp 91 9) 6"
    by (simp_all add: rmalloc_def mp_def Let_def)
  have g1: "rm_give (mp 99 1) {1 ..< 6} (mp 94 6)"
    using a1 unfolding rm_give_def by (intro exI [of _ 5] exI [of _ 1]) simp
  have g2: "rm_give (mp 94 6) {6 ..< 9} (mp 91 9)"
    using a2 unfolding rm_give_def by (intro exI [of _ 3] exI [of _ 6]) simp
  have run: "client_run rm_give rm_take_back (mp 99 1) (mp 91 9) [{6 ..< 9}, {1 ..< 6}]"
    by (intro client_run.alloc [where give = rm_give and b = "{6 ..< 9}", OF _ g2]
        client_run.alloc [where give = rm_give and b = "{1 ..< 6}", OF _ g1] client_run.start)
  from rmap_clients_disjoint [OF init _ _ run] init run show ?thesis by auto
qed

text \<open>
  With every slot used and the last one ending where the freed range starts, \<open>rmfree\<close>
  looks at the word after the array: there it may find a reason to panic.
\<close>

theorem rmfree_reads_beyond:
  "rmfree \<lparr>m_name = ''map'', m_slots = [\<lparr>m_size = 10, m_addr = 10\<rparr>],
            m_beyond = \<lparr>m_size = 1, m_addr = 5\<rparr>\<rparr> 10 20 = Some RmPanic \<and>
   rmfree \<lparr>m_name = ''map'', m_slots = [\<lparr>m_size = 10, m_addr = 10\<rparr>],
            m_beyond = \<lparr>m_size = 1, m_addr = 0\<rparr>\<rparr> 10 20 =
     Some (RmRet \<lparr>m_name = ''map'', m_slots = [\<lparr>m_size = 20, m_addr = 10\<rparr>],
            m_beyond = \<lparr>m_size = 1, m_addr = 0\<rparr>\<rparr> ())"
  by (simp add: rmfree_def rmfree_step_def iterate_Inr Let_def)

end
