(* ===== verification/Lockf.thy ===== *)
theory Lockf
  imports Prelude
begin

text \<open>
  Advisory byte-range locks, \<^verbatim>\<open>sys/kern/vfs_lockf.c\<close>: the list of locks of one inode, the
  queues of processes blocked on a lock, and the operations set, clear and get.

  A \<open>struct lockf\<close> is named by its address (\<open>lf_addr\<close>); the list linked through \<open>lf_next\<close>
  from the inode's head is the list \<open>lf_list\<close>, and the queue linked through \<open>lf_block\<close> from a
  lock is its list \<open>lf_block\<close> of the addresses of the sleeping requests. A sleeping request
  keeps in \<open>lf_next\<close> the lock that blocks it; the state has these in \<open>lf_blocker\<close>. Addresses
  that \<open>MALLOC\<close> returns are arguments. The range of a request is computed in an \<open>off_t\<close> of 64 bits (\<open>s64\<close>). The locks
  themselves have their ends as integers: \<open>lf_end + 1\<close> and \<open>lf_start - 1\<close> do not overflow unless a request
  ends at the last offset.
\<close>

subsection \<open>Data\<close>

datatype lf_kind = F_RDLCK | F_UNLCK | F_WRLCK

definition F_WAIT :: u16 where "F_WAIT = 0x010"
definition F_FLOCK :: u16 where "F_FLOCK = 0x020"
definition F_POSIX :: u16 where "F_POSIX = 0x040"

record lockf =
  lf_addr :: nat
  lf_flags :: u16
  lf_type :: lf_kind
  lf_start :: int
  lf_end :: int
  lf_id :: nat
  lf_block :: "nat list"

record lf_state =
  lf_list :: "lockf list"
  lf_blocker :: "nat \<Rightarrow> nat option"
  lf_woken :: "nat list"

text \<open>
  What the routines read elsewhere in the kernel: for a process that sleeps in \<open>lf_setlock\<close>
  the flags and the owner of the lock it waits for, its process id, and \<open>maxlockdepth\<close>.
\<close>

record lf_env =
  le_waits :: "nat \<Rightarrow> (u16 \<times> nat) option"
  le_pid :: "nat \<Rightarrow> int"
  le_maxdepth :: nat

datatype lf_whence = SEEK_SET | SEEK_CUR | SEEK_END | Seek_other

record flock =
  l_start :: int
  l_len :: int
  l_pid :: int
  l_type :: lf_kind
  l_whence :: lf_whence

datatype lf_op = Op_SETLK | Op_UNLCK | Op_GETLK | Op_other

datatype lf_who = SELF | OTHERS

text \<open>
  How an operation ends: with 0 (\<open>None\<close>) or an error number, asleep with the request it waits
  with, in a panic, or by using a freed lock or linking a lock twice (\<open>Lf_wild\<close>).
\<close>

datatype lf_out =
    Lf_ret lf_state "errno option"
  | Lf_sleeps lf_state lockf
  | Lf_panic
  | Lf_wild

subsection \<open>Overlaps\<close>

text \<open>
  The body of the loop of \<open>lf_findoverlap\<close> for one lock of the list: go on to the next, stop
  with case 0, return a case, or panic.
\<close>

datatype lf_case = Lf_next | Lf_stop | Lf_case nat | Lf_default

definition lf_compare :: "lf_who \<Rightarrow> lockf \<Rightarrow> lockf \<Rightarrow> lf_case" where
  "lf_compare who lock lf =
     (if (who = SELF \<and> lf_id lf \<noteq> lf_id lock) \<or> (who = OTHERS \<and> lf_id lf = lf_id lock) then Lf_next
      else if (lf_end lf \<noteq> -1 \<and> lf_start lock > lf_end lf) \<or>
              (lf_end lock \<noteq> -1 \<and> lf_start lf > lf_end lock) then
        if who = SELF \<and> lf_end lock \<noteq> -1 \<and> lf_start lf > lf_end lock then Lf_stop else Lf_next
      else if lf_start lf = lf_start lock \<and> lf_end lf = lf_end lock then Lf_case 1
      else if lf_start lf \<le> lf_start lock \<and> lf_end lock \<noteq> -1 \<and>
              (lf_end lf \<ge> lf_end lock \<or> lf_end lf = -1) then Lf_case 2
      else if lf_start lock \<le> lf_start lf \<and>
              (lf_end lock = -1 \<or> (lf_end lf \<noteq> -1 \<and> lf_end lock \<ge> lf_end lf)) then Lf_case 3
      else if lf_start lf < lf_start lock \<and>
              (lf_end lf \<ge> lf_start lock \<or> lf_end lf = -1) then Lf_case 4
      else if lf_start lf > lf_start lock \<and> lf_end lock \<noteq> -1 \<and>
              (lf_end lf > lf_end lock \<or> lf_end lf = -1) then Lf_case 5
      else Lf_default)"

text \<open>
  \<open>lf_findoverlap\<close>: the case number, the locks in front of \<open>*overlap\<close> (\<open>*prev\<close> is the link
  at their end) and the rest of the list, which starts with \<open>*overlap\<close>. \<open>None\<close>: panic.
\<close>

fun lf_findoverlap ::
  "lf_who \<Rightarrow> lockf \<Rightarrow> lockf list \<Rightarrow> lockf list \<Rightarrow> (nat \<times> lockf list \<times> lockf list) option" where
  "lf_findoverlap who lock pre [] = Some (0, pre, [])"
| "lf_findoverlap who lock pre (lf # ls) =
     (case lf_compare who lock lf of
        Lf_next \<Rightarrow> lf_findoverlap who lock (pre @ [lf]) ls
      | Lf_stop \<Rightarrow> Some (0, pre, lf # ls)
      | Lf_case n \<Rightarrow> Some (n, pre, lf # ls)
      | Lf_default \<Rightarrow> None)"

lemma lf_findoverlap_length:
  "lf_findoverlap who lock pre ls = Some (n, pre', rest) \<Longrightarrow> length rest \<le> length ls"
  by (induction who lock pre ls rule: lf_findoverlap.induct) (fastforce split: lf_case.splits)+

text \<open>\<open>lf_getblock\<close>: the first lock of another owner that conflicts. The outer \<open>None\<close>: panic.\<close>

function lf_getblock_from :: "lockf \<Rightarrow> lockf list \<Rightarrow> lockf option option" where
  "lf_getblock_from lock ls =
     (case lf_findoverlap OTHERS lock [] ls of
        None \<Rightarrow> None
      | Some (n, pre, rest) \<Rightarrow>
          if n = 0 then Some None
          else
            (case rest of
               [] \<Rightarrow> Some None
             | overlap # rest' \<Rightarrow>
                 if lf_type lock = F_WRLCK \<or> lf_type overlap = F_WRLCK then Some (Some overlap)
                 else lf_getblock_from lock rest'))"
  by pat_completeness auto
termination
  by (relation "measure (\<lambda>(lock, ls). length ls)") (auto dest: lf_findoverlap_length)

declare lf_getblock_from.simps [simp del]

definition lf_getblock :: "lf_state \<Rightarrow> lockf \<Rightarrow> lockf option option" where
  "lf_getblock s lock = lf_getblock_from lock (lf_list s)"

subsection \<open>Blocked requests\<close>

definition upd_lock :: "nat \<Rightarrow> (lockf \<Rightarrow> lockf) \<Rightarrow> lockf list \<Rightarrow> lockf list" where
  "upd_lock a f ls = map (\<lambda>l. if lf_addr l = a then f l else l) ls"

definition lf_addblock :: "lockf \<Rightarrow> nat list \<Rightarrow> lockf" where
  "lf_addblock lock blocked = lock\<lparr>lf_block := lf_block lock @ blocked\<rparr>"

text \<open>
  \<open>lf_wakelock\<close>: every request in the queue of the lock loses its \<open>lf_next\<close> and is woken. The
  lock itself, with an empty queue, is the second part of the value.
\<close>

definition lf_wakelock :: "lf_state \<Rightarrow> lockf \<Rightarrow> lf_state \<times> lockf" where
  "lf_wakelock s lock =
     (s\<lparr>lf_blocker := (\<lambda>a. if a \<in> set (lf_block lock) then None else lf_blocker s a),
        lf_woken := lf_woken s @ lf_block lock\<rparr>,
      lock\<lparr>lf_block := []\<rparr>)"

text \<open>
  \<open>lf_split\<close>: the chain that starts at \<open>lock1\<close> afterwards, in place of \<open>lock1\<close>. With a common
  start \<open>lock2\<close> points to \<open>lock1\<close> and nothing points to \<open>lock2\<close>.
\<close>

definition lf_split :: "nat \<Rightarrow> lockf \<Rightarrow> lockf \<Rightarrow> lockf list" where
  "lf_split new lock1 lock2 =
     (if lf_start lock1 = lf_start lock2 then [lock1\<lparr>lf_start := lf_end lock2 + 1\<rparr>]
      else if lf_end lock1 = lf_end lock2 then [lock1\<lparr>lf_end := lf_start lock2 - 1\<rparr>, lock2]
      else [lock1\<lparr>lf_end := lf_start lock2 - 1\<rparr>, lock2,
            lock1\<lparr>lf_addr := new, lf_start := lf_end lock2 + 1, lf_block := []\<rparr>])"

subsection \<open>Clearing\<close>

text \<open>The loop of \<open>lf_clearlock\<close>, with the locks before \<open>*prev\<close> and the ones from \<open>lf\<close> on.\<close>

function lf_clear_loop ::
  "nat \<Rightarrow> lf_state \<Rightarrow> lockf \<Rightarrow> lockf list \<Rightarrow> lockf list \<Rightarrow> lf_state option" where
  "lf_clear_loop new s unlock pre ls =
     (case lf_findoverlap SELF unlock pre ls of
        None \<Rightarrow> None
      | Some (n, pre', rest) \<Rightarrow>
          if n = 0 then Some (s\<lparr>lf_list := pre' @ rest\<rparr>)
          else
            (case rest of
               [] \<Rightarrow> Some (s\<lparr>lf_list := pre'\<rparr>)
             | overlap0 # rest' \<Rightarrow>
                 let (s', overlap) = lf_wakelock s overlap0 in
                 if n = 1 then Some (s'\<lparr>lf_list := pre' @ rest'\<rparr>)
                 else if n = 2 then
                   if lf_start overlap = lf_start unlock
                   then Some (s'\<lparr>lf_list := pre' @ overlap\<lparr>lf_start := lf_end unlock + 1\<rparr> # rest'\<rparr>)
                   else
                     (case lf_split new overlap unlock of
                        lock1 # lock2 # more_ \<Rightarrow> Some (s'\<lparr>lf_list := pre' @ lock1 # more_ @ rest'\<rparr>)
                      | chain \<Rightarrow> Some (s'\<lparr>lf_list := pre' @ chain @ rest'\<rparr>))
                 else if n = 3 then lf_clear_loop new s' unlock pre' rest'
                 else if n = 4 then
                   lf_clear_loop new s' unlock (pre' @ [overlap\<lparr>lf_end := lf_start unlock - 1\<rparr>]) rest'
                 else Some (s'\<lparr>lf_list := pre' @ overlap\<lparr>lf_start := lf_end unlock + 1\<rparr> # rest'\<rparr>)))"
  by pat_completeness auto
termination
  by (relation "measure (\<lambda>(new, s, unlock, pre, ls). length ls)")
    (auto dest!: lf_findoverlap_length)

declare lf_clear_loop.simps [simp del]

definition lf_clearlock :: "nat \<Rightarrow> lf_state \<Rightarrow> lockf \<Rightarrow> lf_state option" where
  "lf_clearlock new s unlock =
     (if lf_list s = [] then Some s else lf_clear_loop new s unlock [] (lf_list s))"

subsection \<open>Setting\<close>

text \<open>
  The loop of \<open>lf_setlock\<close> that links the granted lock into the list and adjusts the locks of
  the same owner that it overlaps. When \<open>needtolink\<close> is false the lock is in \<open>pre\<close> already,
  and the argument \<open>lock\<close> is a copy of it.
\<close>

definition downgrade :: "lockf \<Rightarrow> lockf \<Rightarrow> bool" where
  "downgrade lock overlap \<longleftrightarrow> lf_type lock = F_RDLCK \<and> lf_type overlap = F_WRLCK"

text \<open>Case 1: the overlapping lock takes the new type, the request is freed.\<close>

definition lf_link_equal :: "lf_state \<Rightarrow> lockf \<Rightarrow> lockf list \<Rightarrow> lockf \<Rightarrow> lockf list \<Rightarrow> lf_out" where
  "lf_link_equal s lock pre overlap rest =
     (let (s', overlap') = (if downgrade lock overlap then lf_wakelock s overlap else (s, overlap))
      in Lf_ret (s'\<lparr>lf_list := pre @ overlap'\<lparr>lf_type := lf_type lock\<rparr> # rest\<rparr>) None)"

text \<open>Case 2: the overlapping lock contains the request.\<close>

definition lf_link_inside ::
  "nat \<Rightarrow> lf_state \<Rightarrow> lockf \<Rightarrow> lockf list \<Rightarrow> lockf \<Rightarrow> lockf list \<Rightarrow> lf_out" where
  "lf_link_inside new s lock pre overlap rest =
     (if lf_type overlap = lf_type lock then Lf_ret (s\<lparr>lf_list := pre @ overlap # rest\<rparr>) None
      else
        let (s', overlap') = lf_wakelock s overlap in
        if lf_start overlap = lf_start lock
        then Lf_ret (s'\<lparr>lf_list := pre @ lock # overlap'\<lparr>lf_start := lf_end lock + 1\<rparr> # rest\<rparr>) None
        else Lf_ret (s'\<lparr>lf_list := pre @ lf_split new overlap' lock @ rest\<rparr>) None)"

text \<open>Case 3: what the request takes over from an overlapping lock that goes away.\<close>

definition lf_absorb :: "lf_state \<Rightarrow> lockf \<Rightarrow> lockf \<Rightarrow> lf_state \<times> lockf" where
  "lf_absorb s lock overlap =
     (if downgrade lock overlap then (fst (lf_wakelock s overlap), lock)
      else (s, lf_addblock (lock\<lparr>lf_block := lf_block overlap\<rparr>) (lf_block lock)))"

function lf_link ::
  "nat \<Rightarrow> lf_state \<Rightarrow> lockf \<Rightarrow> bool \<Rightarrow> lockf list \<Rightarrow> lockf list \<Rightarrow> lf_out" where
  "lf_link new s lock needtolink pre ls =
     (case lf_findoverlap SELF lock pre ls of
        None \<Rightarrow> Lf_panic
      | Some (n, pre', rest) \<Rightarrow>
          if n = 0 then
            Lf_ret (s\<lparr>lf_list := pre' @ (if needtolink then lock # rest else rest)\<rparr>) None
          else
            (case rest of
               [] \<Rightarrow> Lf_wild
             | overlap # rest' \<Rightarrow>
                 if n = 1 then
                   if needtolink then lf_link_equal s lock pre' overlap rest' else Lf_wild
                 else if n = 2 then
                   if needtolink then lf_link_inside new s lock pre' overlap rest' else Lf_wild
                 else if n = 3 then
                   let (s', lock') = lf_absorb s lock overlap in
                   if needtolink then lf_link new s' lock' False (pre' @ [lock']) rest'
                   else lf_link new s' lock' False
                     (upd_lock (lf_addr lock) (\<lambda>l. l\<lparr>lf_block := lf_block lock'\<rparr>) pre') rest'
                 else if n = 4 then
                   if needtolink then
                     let (s', overlap') = lf_wakelock s overlap in
                     lf_link new s' lock False
                       (pre' @ [overlap'\<lparr>lf_end := lf_start lock - 1\<rparr>, lock]) rest'
                   else Lf_wild
                 else
                   let (s', overlap') = lf_wakelock s overlap;
                       tail = overlap'\<lparr>lf_start := lf_end lock + 1\<rparr> # rest'
                   in Lf_ret (s'\<lparr>lf_list := pre' @ (if needtolink then lock # tail else tail)\<rparr>) None))"
  by pat_completeness auto
termination
  by (relation "measure (\<lambda>(new, s, lock, needtolink, pre, ls). length ls)")
    (auto dest!: lf_findoverlap_length)

declare lf_link.simps [simp del]

text \<open>
  Deadlock detection: follow the owners of the locks that processes wait for, at most
  \<open>maxlockdepth\<close> times, and look for \<open>me\<close>.
\<close>

fun lf_deadlock :: "lf_env \<Rightarrow> nat \<Rightarrow> nat \<Rightarrow> nat \<Rightarrow> bool" where
  "lf_deadlock e 0 me wproc = False"
| "lf_deadlock e (Suc n) me wproc =
     (case le_waits e wproc of
        None \<Rightarrow> False
      | Some (flags, owner) \<Rightarrow>
          if flags AND F_POSIX = 0 then False
          else if owner = me then True
          else lf_deadlock e n me owner)"

text \<open>
  \<open>lf_setlock\<close> up to its return or its \<open>tsleep\<close>; the wakeup runs \<open>lf_setlock_wake\<close> with the
  value of \<open>tsleep\<close>, which goes round the loop again.
\<close>

definition lf_setlock :: "lf_env \<Rightarrow> nat \<Rightarrow> lf_state \<Rightarrow> lockf \<Rightarrow> lf_out" where
  "lf_setlock e new s lock =
     (case lf_getblock s lock of
        None \<Rightarrow> Lf_panic
      | Some None \<Rightarrow> lf_link new s lock True [] (lf_list s)
      | Some (Some block) \<Rightarrow>
          if lf_flags lock AND F_WAIT = 0 then Lf_ret s (Some EAGAIN)
          else if lf_flags lock AND F_POSIX \<noteq> 0 \<and> lf_flags block AND F_POSIX \<noteq> 0 \<and>
                  lf_deadlock e (le_maxdepth e) (lf_id lock) (lf_id block)
          then Lf_ret s (Some EDEADLK)
          else
            (case (if lf_flags lock AND F_FLOCK \<noteq> 0 \<and> lf_type lock = F_WRLCK
                   then lf_clearlock new s (lock\<lparr>lf_type := F_UNLCK\<rparr>) else Some s) of
               None \<Rightarrow> Lf_panic
             | Some s1 \<Rightarrow>
                 Lf_sleeps
                   (s1\<lparr>lf_list := upd_lock (lf_addr block) (\<lambda>l. lf_addblock l [lf_addr lock]) (lf_list s1),
                       lf_blocker := (lf_blocker s1)(lf_addr lock := Some (lf_addr block))\<rparr>)
                   lock))"

definition lf_setlock_wake :: "lf_env \<Rightarrow> nat \<Rightarrow> lf_state \<Rightarrow> lockf \<Rightarrow> errno option \<Rightarrow> lf_out" where
  "lf_setlock_wake e new s lock error =
     (case error of
        None \<Rightarrow> lf_setlock e new s lock
      | Some err \<Rightarrow>
          (case lf_blocker s (lf_addr lock) of
             None \<Rightarrow> Lf_ret s (Some err)
           | Some b \<Rightarrow>
               (case find (\<lambda>l. lf_addr l = b) (lf_list s) of
                  None \<Rightarrow> Lf_wild
                | Some block \<Rightarrow>
                    if lf_addr lock \<in> set (lf_block block)
                    then Lf_ret (s\<lparr>lf_list := upd_lock b
                           (\<lambda>l. l\<lparr>lf_block := remove1 (lf_addr lock) (lf_block l)\<rparr>) (lf_list s)\<rparr>) (Some err)
                    else Lf_panic)))"

subsection \<open>Getting, and the entry point\<close>

definition lf_getlock :: "lf_env \<Rightarrow> lf_state \<Rightarrow> lockf \<Rightarrow> flock \<Rightarrow> lf_out \<times> flock" where
  "lf_getlock e s lock fl =
     (case lf_getblock s lock of
        None \<Rightarrow> (Lf_panic, fl)
      | Some (Some block) \<Rightarrow>
          (Lf_ret s None,
           fl\<lparr>l_type := lf_type block, l_whence := SEEK_SET, l_start := lf_start block,
              l_len := (if lf_end block = -1 then 0 else lf_end block - lf_start block + 1),
              l_pid := (if lf_flags block AND F_POSIX \<noteq> 0 then le_pid e (lf_id block) else -1)\<rparr>)
      | Some None \<Rightarrow> (Lf_ret s None, fl\<lparr>l_type := F_UNLCK\<rparr>))"

text \<open>The request that \<open>lf_advlock\<close> builds, at the address \<open>addr\<close>.\<close>

definition lf_request :: "nat \<Rightarrow> int \<Rightarrow> nat \<Rightarrow> flock \<Rightarrow> u16 \<Rightarrow> lockf" where
  "lf_request addr start owner fl flags =
     \<lparr>lf_addr = addr, lf_flags = flags, lf_type = l_type fl, lf_start = start,
      lf_end = (if l_len fl = 0 then -1 else s64 (start + l_len fl - 1)), lf_id = owner, lf_block = []\<rparr>"

definition lf_advlock ::
  "lf_env \<Rightarrow> nat \<Rightarrow> nat \<Rightarrow> lf_state \<Rightarrow> int \<Rightarrow> nat \<Rightarrow> lf_op \<Rightarrow> flock \<Rightarrow> u16 \<Rightarrow> lf_out \<times> flock" where
  "lf_advlock e addr new s fsize owner op fl flags =
     (if l_whence fl = Seek_other then (Lf_ret s (Some EINVAL), fl)
      else
        let start = (if l_whence fl = SEEK_END then s64 (fsize + l_start fl) else l_start fl) in
        if start < 0 then (Lf_ret s (Some EINVAL), fl)
        else if lf_list s = [] \<and> op \<noteq> Op_SETLK then (Lf_ret s None, fl\<lparr>l_type := F_UNLCK\<rparr>)
        else
          let lock = lf_request addr start owner fl flags in
          (case op of
             Op_SETLK \<Rightarrow> (lf_setlock e new s lock, fl)
           | Op_UNLCK \<Rightarrow>
               (case lf_clearlock new s lock of
                  None \<Rightarrow> (Lf_panic, fl) | Some s' \<Rightarrow> (Lf_ret s' None, fl))
           | Op_GETLK \<Rightarrow> lf_getlock e s lock fl
           | Op_other \<Rightarrow> (Lf_ret s (Some EINVAL), fl)))"

end
