(* ===== verification/Lockf_Correct.thy ===== *)
theory Lockf_Correct
  imports Lockf
begin

text \<open>
  Advisory locks are correct: \<open>holds ls owner b t\<close> says that in the list \<open>ls\<close> the owner has
  a lock of type \<open>t\<close> on byte \<open>b\<close>. Setting and clearing change exactly the requested bytes of
  the caller (the five overlap cases cut the old lock, \<open>cut_out\<close>, and place the new one,
  \<open>placed\<close>); the relation \<open>lf_step\<close> lets any number of processes call, sleep and wake up, and
  no reachable state grants conflicting locks. Requests have a length that is not
  negative: \<open>lf_negative_length\<close> shows what happens otherwise.
\<close>

subsection \<open>Ranges and what a list of locks holds\<close>

definition covers :: "lockf \<Rightarrow> int \<Rightarrow> bool" where
  "covers l b \<longleftrightarrow> lf_start l \<le> b \<and> (lf_end l = -1 \<or> b \<le> lf_end l)"

definition range_ok :: "lockf \<Rightarrow> bool" where
  "range_ok l \<longleftrightarrow> 0 \<le> lf_start l \<and> (lf_end l = -1 \<or> lf_start l \<le> lf_end l)"

definition before :: "lockf \<Rightarrow> lockf \<Rightarrow> bool" where
  "before a b \<longleftrightarrow> lf_end a \<noteq> -1 \<and> lf_end a < lf_start b"

text \<open>Every owner's locks are in order and disjoint, and none has the type \<open>F_UNLCK\<close>.\<close>

definition lf_ok :: "lockf list \<Rightarrow> bool" where
  "lf_ok ls \<longleftrightarrow> sorted_wrt (\<lambda>a b. lf_id a = lf_id b \<longrightarrow> before a b) ls \<and>
     (\<forall>l \<in> set ls. range_ok l \<and> lf_type l \<noteq> F_UNLCK)"

definition holds :: "lockf list \<Rightarrow> nat \<Rightarrow> int \<Rightarrow> lf_kind \<Rightarrow> bool" where
  "holds ls owner b t \<longleftrightarrow> (\<exists>l \<in> set ls. lf_id l = owner \<and> covers l b \<and> lf_type l = t)"

text \<open>A lock with the same owner, type and range.\<close>

definition alike :: "lockf \<Rightarrow> lockf \<Rightarrow> bool" where
  "alike l l' \<longleftrightarrow> lf_id l' = lf_id l \<and> lf_type l' = lf_type l \<and> lf_start l' = lf_start l \<and> lf_end l' = lf_end l"

lemma lf_ok_Nil [simp]: "lf_ok []"
  by (simp add: lf_ok_def)

lemma lf_ok_Cons:
  "lf_ok (l # ls) \<longleftrightarrow> range_ok l \<and> lf_type l \<noteq> F_UNLCK \<and>
     (\<forall>x \<in> set ls. lf_id x = lf_id l \<longrightarrow> before l x) \<and> lf_ok ls"
  by (auto simp: lf_ok_def)

lemma lf_ok_append:
  "lf_ok (xs @ ys) \<longleftrightarrow> lf_ok xs \<and> lf_ok ys \<and>
     (\<forall>x \<in> set xs. \<forall>y \<in> set ys. lf_id x = lf_id y \<longrightarrow> before x y)"
  by (auto simp: lf_ok_def sorted_wrt_append)

lemmas lf_ok_simps = lf_ok_Cons lf_ok_append

lemma holds_simps [simp]:
  "holds [] owner b t \<longleftrightarrow> False"
  "holds (l # ls) owner b t \<longleftrightarrow> (lf_id l = owner \<and> covers l b \<and> lf_type l = t) \<or> holds ls owner b t"
  "holds (xs @ ys) owner b t \<longleftrightarrow> holds xs owner b t \<or> holds ys owner b t"
  by (auto simp: holds_def)

lemma before_apart: "before a b \<Longrightarrow> covers a x \<Longrightarrow> \<not> covers b x"
  by (auto simp: before_def covers_def)

lemma before_trans: "before a b \<Longrightarrow> range_ok b \<Longrightarrow> before b c \<Longrightarrow> before a c"
  by (auto simp: before_def range_ok_def)

lemma lf_ok_range: "lf_ok ls \<Longrightarrow> l \<in> set ls \<Longrightarrow> range_ok l"
  by (simp add: lf_ok_def)

text \<open>The fields that the queues live in play no part in this.\<close>

lemma lf_ok_alike: "list_all2 alike ls ls' \<Longrightarrow> lf_ok ls \<Longrightarrow> lf_ok ls'"
proof (induction rule: list_all2_induct)
  case (Cons l ls l' ls')
  have "\<forall>x' \<in> set ls'. \<exists>x \<in> set ls. alike x x'"
    using Cons.hyps(2) by (metis in_set_conv_nth list_all2_conv_all_nth)
  moreover have "range_ok l' \<longleftrightarrow> range_ok l" and "lf_type l' = lf_type l" "lf_id l' = lf_id l"
    using Cons.hyps(1) by (auto simp: alike_def range_ok_def)
  moreover have "before l' x' \<longleftrightarrow> before l x" and "lf_id x' = lf_id x" if "alike x x'" for x x'
    using that Cons.hyps(1) by (auto simp: alike_def before_def)
  ultimately show ?case using Cons.prems Cons.IH by (fastforce simp: lf_ok_Cons)
qed simp

lemma holds_alike: "list_all2 alike ls ls' \<Longrightarrow> holds ls' owner b t \<longleftrightarrow> holds ls owner b t"
  by (induction rule: list_all2_induct) (auto simp: alike_def covers_def)

lemma alike_refl [simp]: "alike l l"
  by (simp add: alike_def)

lemma alike_upd_block:
  "list_all2 alike ls (upd_lock a (\<lambda>l. l\<lparr>lf_block := f l\<rparr>) ls)"
  by (auto simp: upd_lock_def list_all2_conv_all_nth alike_def)

subsection \<open>Comparing and searching\<close>

definition case_rel :: "nat \<Rightarrow> lockf \<Rightarrow> lockf \<Rightarrow> bool" where
  "case_rel n lock ov \<longleftrightarrow>
     n = 1 \<and> lf_start ov = lf_start lock \<and> lf_end ov = lf_end lock \<or>
     n = 2 \<and> lf_start ov \<le> lf_start lock \<and> lf_end lock \<noteq> -1 \<and>
       (lf_end lock \<le> lf_end ov \<or> lf_end ov = -1) \<and>
       \<not> (lf_start ov = lf_start lock \<and> lf_end ov = lf_end lock) \<or>
     n = 3 \<and> lf_start lock \<le> lf_start ov \<and> (lf_end lock = -1 \<or> lf_end ov \<noteq> -1 \<and> lf_end ov \<le> lf_end lock) \<or>
     n = 4 \<and> lf_start ov < lf_start lock \<and> (lf_start lock \<le> lf_end ov \<or> lf_end ov = -1) \<and>
       (lf_end lock = -1 \<or> lf_end ov \<noteq> -1 \<and> lf_end ov < lf_end lock) \<or>
     n = 5 \<and> lf_start lock < lf_start ov \<and> lf_start ov \<le> lf_end lock \<and> lf_end lock \<noteq> -1 \<and>
       (lf_end lock < lf_end ov \<or> lf_end ov = -1)"

lemma compare_never_default: "lf_compare who lock lf \<noteq> Lf_default"
  by (auto simp: lf_compare_def)

lemma compare_next:
  "lf_compare who lock lf = Lf_next \<Longrightarrow>
     (who = SELF \<longrightarrow> lf_id lf = lf_id lock \<longrightarrow> before lf lock) \<and>
     (who = OTHERS \<longrightarrow> lf_id lf \<noteq> lf_id lock \<longrightarrow> before lf lock \<or> before lock lf)"
  by (auto simp: lf_compare_def before_def split: if_splits)

lemma compare_stop:
  "lf_compare who lock lf = Lf_stop \<Longrightarrow> who = SELF \<and> lf_id lf = lf_id lock \<and> before lock lf"
  by (auto simp: lf_compare_def before_def split: if_splits)

lemma compare_case:
  "lf_compare who lock lf = Lf_case n \<Longrightarrow>
     n \<noteq> 0 \<and> case_rel n lock lf \<and> \<not> before lf lock \<and> \<not> before lock lf \<and>
     (who = SELF \<longrightarrow> lf_id lf = lf_id lock) \<and> (who = OTHERS \<longrightarrow> lf_id lf \<noteq> lf_id lock)"
  by (auto simp: lf_compare_def case_rel_def before_def split: if_splits)

lemma findoverlap_spec:
  "\<exists>n skip rest. lf_findoverlap who lock pre ls = Some (n, pre @ skip, rest) \<and> ls = skip @ rest \<and>
     (\<forall>x \<in> set skip. lf_compare who lock x = Lf_next) \<and>
     (n = 0 \<longrightarrow> rest = [] \<or> lf_compare who lock (hd rest) = Lf_stop) \<and>
     (n \<noteq> 0 \<longrightarrow> rest \<noteq> [] \<and> lf_compare who lock (hd rest) = Lf_case n)"
proof (induction ls arbitrary: pre)
  case (Cons lf ls)
  show ?case
  proof (cases "lf_compare who lock lf")
    case Lf_next
    with Cons.IH [of "pre @ [lf]"] obtain n skip rest
      where "lf_findoverlap who lock (pre @ [lf]) ls = Some (n, pre @ lf # skip, rest) \<and> ls = skip @ rest \<and>
       (\<forall>x \<in> set skip. lf_compare who lock x = Lf_next) \<and>
       (n = 0 \<longrightarrow> rest = [] \<or> lf_compare who lock (hd rest) = Lf_stop) \<and>
       (n \<noteq> 0 \<longrightarrow> rest \<noteq> [] \<and> lf_compare who lock (hd rest) = Lf_case n)"
      by auto
    with Lf_next show ?thesis
      by (rule_tac x = n in exI, rule_tac x = "lf # skip" in exI, rule_tac x = rest in exI) simp
  next
    case (Lf_case n)
    with compare_case [OF this] show ?thesis
      by (rule_tac x = n in exI, rule_tac x = "[]" in exI, rule_tac x = "lf # ls" in exI) simp
  qed (use compare_never_default in auto)
qed simp

text \<open>The two ways a search among the owner's own locks ends.\<close>

lemma find_self:
  obtains (none) skip rest where "lf_findoverlap SELF lock pre ls = Some (0, pre @ skip, rest)" "ls = skip @ rest"
      "\<forall>x \<in> set skip. lf_id x = lf_id lock \<longrightarrow> before x lock"
      "rest = [] \<or> lf_id (hd rest) = lf_id lock \<and> before lock (hd rest)"
  | (some) n skip ov rest where "lf_findoverlap SELF lock pre ls = Some (n, pre @ skip, ov # rest)"
      "ls = skip @ ov # rest" "n \<noteq> 0" "\<forall>x \<in> set skip. lf_id x = lf_id lock \<longrightarrow> before x lock"
      "lf_id ov = lf_id lock" "case_rel n lock ov" "\<not> before ov lock"
proof -
  obtain n skip rest where f: "lf_findoverlap SELF lock pre ls = Some (n, pre @ skip, rest)" "ls = skip @ rest"
    and skip: "\<forall>x \<in> set skip. lf_compare SELF lock x = Lf_next"
    and stop: "n = 0 \<Longrightarrow> rest = [] \<or> lf_compare SELF lock (hd rest) = Lf_stop"
    and hit: "n \<noteq> 0 \<Longrightarrow> rest \<noteq> [] \<and> lf_compare SELF lock (hd rest) = Lf_case n"
    using findoverlap_spec [of SELF lock pre ls] by blast
  have sk: "\<forall>x \<in> set skip. lf_id x = lf_id lock \<longrightarrow> before x lock" using skip compare_next by blast
  show thesis
  proof (cases "n = 0")
    case True
    then show thesis using none [of skip rest] f sk stop compare_stop by blast
  next
    case False
    with hit obtain ov rest' where "rest = ov # rest'" by (cases rest) auto
    then show thesis using some [of n skip ov rest'] f sk hit [OF False] False compare_case by force
  qed
qed

subsection \<open>Replacing a lock by pieces of it\<close>

definition piece :: "lockf \<Rightarrow> lockf \<Rightarrow> bool" where
  "piece ov x \<longleftrightarrow> lf_id x = lf_id ov \<and> lf_type x = lf_type ov \<and> range_ok x \<and> lf_start ov \<le> lf_start x \<and>
     (lf_end ov = -1 \<or> lf_end x \<noteq> -1 \<and> lf_end x \<le> lf_end ov)"

definition pieces :: "lockf \<Rightarrow> lockf list \<Rightarrow> bool" where
  "pieces ov xs \<longleftrightarrow> (\<forall>x \<in> set xs. piece ov x) \<and> sorted_wrt before xs"

lemma before_piece:
  "before a ov \<Longrightarrow> piece ov x \<Longrightarrow> before a x"
  "before ov a \<Longrightarrow> piece ov x \<Longrightarrow> before x a"
  by (auto simp: before_def piece_def)

lemma lf_ok_pieces:
  assumes "lf_ok (pre @ ov # rest)" and "pieces ov xs"
  shows "lf_ok (pre @ xs @ rest)"
proof -
  have id: "\<forall>x \<in> set xs. lf_id x = lf_id ov \<and> lf_type x = lf_type ov \<and> range_ok x"
    and srt: "sorted_wrt before xs"
    using assms(2) by (auto simp: pieces_def piece_def)
  have "lf_type ov \<noteq> F_UNLCK" using assms(1) by (auto simp: lf_ok_simps)
  moreover have "sorted_wrt (\<lambda>a b. lf_id a = lf_id b \<longrightarrow> before a b) xs"
    using srt by (rule sorted_wrt_mono_rel [rotated]) simp
  ultimately have "lf_ok xs" using id by (auto simp: lf_ok_def)
  moreover have "before a x" if "a \<in> set pre" "x \<in> set xs" "lf_id a = lf_id x" for a x
    using that assms id before_piece(1) by (fastforce simp: lf_ok_simps pieces_def)
  moreover have "before x a" if "a \<in> set rest" "x \<in> set xs" "lf_id a = lf_id x" for a x
    using that assms id before_piece(2) by (fastforce simp: lf_ok_simps pieces_def)
  ultimately show ?thesis using assms(1) by (auto simp: lf_ok_simps)
qed

text \<open>What is left of the overlapping lock once the range of \<open>lock\<close> is cut out of it.\<close>

definition cut_out :: "lockf \<Rightarrow> lockf \<Rightarrow> lockf list \<Rightarrow> bool" where
  "cut_out lock ov xs \<longleftrightarrow> pieces ov xs \<and>
     (\<forall>b. (\<exists>x \<in> set xs. covers x b) \<longleftrightarrow> covers ov b \<and> \<not> covers lock b)"

lemma holds_cut_out:
  assumes "cut_out lock ov xs"
  shows "holds xs owner b t \<longleftrightarrow> lf_id ov = owner \<and> covers ov b \<and> \<not> covers lock b \<and> lf_type ov = t"
proof -
  have "\<forall>x \<in> set xs. lf_id x = lf_id ov \<and> lf_type x = lf_type ov"
    using assms by (simp add: cut_out_def pieces_def piece_def)
  then have "holds xs owner b t \<longleftrightarrow> lf_id ov = owner \<and> lf_type ov = t \<and> (\<exists>x \<in> set xs. covers x b)"
    by (auto simp: holds_def)
  with assms show ?thesis by (auto simp: cut_out_def)
qed

lemma cut_equal: "case_rel 1 lock ov \<Longrightarrow> cut_out lock ov []"
  by (auto simp: case_rel_def cut_out_def pieces_def covers_def)

lemma cut_cover: "case_rel 3 lock ov \<Longrightarrow> cut_out lock ov []"
  by (auto simp: case_rel_def cut_out_def pieces_def covers_def)

lemma cut_front:
  assumes "lf_start lock \<le> lf_start ov" "lf_start ov \<le> lf_end lock" "lf_end lock \<noteq> -1"
    and "lf_end ov = -1 \<or> lf_end lock < lf_end ov" "range_ok lock" "range_ok ov"
  shows "cut_out lock ov [ov\<lparr>lf_block := q, lf_start := lf_end lock + 1\<rparr>]"
proof -
  have r: "0 \<le> lf_start ov" "0 \<le> lf_end lock" using assms by (auto simp: range_ok_def)
  have "covers (ov\<lparr>lf_block := q, lf_start := lf_end lock + 1\<rparr>) b \<longleftrightarrow> covers ov b \<and> \<not> covers lock b" for b
    using assms(1-4) r by (simp add: covers_def) linarith
  moreover have "piece ov (ov\<lparr>lf_block := q, lf_start := lf_end lock + 1\<rparr>)"
    using assms(1-4) r by (auto simp: piece_def range_ok_def)
  ultimately show ?thesis by (simp add: cut_out_def pieces_def)
qed

lemma front_cases:
  assumes "case_rel n lock ov" "n = 5 \<or> n = 2 \<and> lf_start ov = lf_start lock" "range_ok lock" "range_ok ov"
  shows "cut_out lock ov [ov\<lparr>lf_block := q, lf_start := lf_end lock + 1\<rparr>]"
  by (rule cut_front) (use assms in \<open>auto simp: case_rel_def range_ok_def\<close>)

lemma cut_back:
  assumes "case_rel 4 lock ov" "range_ok lock" "range_ok ov"
  shows "cut_out lock ov [ov\<lparr>lf_block := q, lf_end := lf_start lock - 1\<rparr>]"
proof -
  have c: "lf_start ov < lf_start lock" "lf_end lock = -1 \<or> lf_end ov \<noteq> -1 \<and> lf_end ov < lf_end lock"
    "lf_start lock \<le> lf_end ov \<or> lf_end ov = -1" "0 \<le> lf_start ov"
    using assms by (auto simp: case_rel_def range_ok_def)
  then have "covers (ov\<lparr>lf_block := q, lf_end := lf_start lock - 1\<rparr>) b \<longleftrightarrow> covers ov b \<and> \<not> covers lock b" for b
    by (simp add: covers_def) linarith
  moreover have "piece ov (ov\<lparr>lf_block := q, lf_end := lf_start lock - 1\<rparr>)"
    using c by (auto simp: piece_def range_ok_def)
  ultimately show ?thesis by (simp add: cut_out_def pieces_def)
qed

text \<open>The two shapes of \<open>lf_split\<close>: the lock at the end of the containing one, or in the middle.\<close>

lemma cut_end:
  assumes "lf_start ov < lf_start lock" "lf_end ov = lf_end lock" "lf_end lock \<noteq> -1" "range_ok lock" "range_ok ov"
  shows "cut_out lock ov [ov\<lparr>lf_block := q, lf_end := lf_start lock - 1\<rparr>]"
  using assms by (auto simp: cut_out_def pieces_def piece_def covers_def range_ok_def)

lemma cut_two:
  assumes "lf_start ov < lf_start lock" "lf_end ov = -1 \<or> lf_end lock < lf_end ov" "lf_end lock \<noteq> -1"
    and "range_ok lock" "range_ok ov"
  shows "cut_out lock ov [ov\<lparr>lf_block := q, lf_end := lf_start lock - 1\<rparr>,
           ov\<lparr>lf_addr := new, lf_start := lf_end lock + 1, lf_block := []\<rparr>]"
proof -
  have r: "0 \<le> lf_start ov" "0 \<le> lf_start lock" "lf_start lock \<le> lf_end lock"
    using assms by (auto simp: range_ok_def)
  have "covers (ov\<lparr>lf_block := q, lf_end := lf_start lock - 1\<rparr>) b \<or>
      covers (ov\<lparr>lf_addr := new, lf_start := lf_end lock + 1, lf_block := []\<rparr>) b \<longleftrightarrow>
      covers ov b \<and> \<not> covers lock b" for b
    using assms(1-3) r by (simp add: covers_def) linarith
  moreover have "piece ov (ov\<lparr>lf_block := q, lf_end := lf_start lock - 1\<rparr>)"
    and "piece ov (ov\<lparr>lf_addr := new, lf_start := lf_end lock + 1, lf_block := []\<rparr>)"
    using assms(1-3) r by (auto simp: piece_def range_ok_def)
  ultimately show ?thesis using r assms(1) by (simp add: cut_out_def pieces_def before_def)
qed

lemma cut_middle:
  assumes "case_rel 2 lock ov" "range_ok lock" "range_ok ov" "lf_start ov \<noteq> lf_start lock"
  obtains lock1 others where "lf_split new (ov\<lparr>lf_block := q\<rparr>) lock = lock1 # lock # others"
    and "cut_out lock ov (lock1 # others)" "\<forall>x \<in> set others. before lock x" "before lock1 lock"
proof -
  have st: "lf_start ov < lf_start lock" and en: "lf_end lock \<noteq> -1" "lf_end lock \<le> lf_end ov \<or> lf_end ov = -1"
    using assms(1,4) by (auto simp: case_rel_def)
  have "lf_start lock - 1 \<noteq> -1" using st assms(3) by (simp add: range_ok_def)
  show thesis
  proof (cases "lf_end ov = lf_end lock")
    case True
    from cut_end [OF st True en(1) assms(2,3)] show thesis
      using True st \<open>lf_start lock - 1 \<noteq> -1\<close>
      by (intro that [of "ov\<lparr>lf_block := q, lf_end := lf_start lock - 1\<rparr>" "[]"])
        (simp_all add: lf_split_def before_def)
  next
    case False
    with en have "lf_end ov = -1 \<or> lf_end lock < lf_end ov" by auto
    from cut_two [OF st this en(1) assms(2,3)] show thesis
      using False st en \<open>lf_start lock - 1 \<noteq> -1\<close>
      by (intro that [of "ov\<lparr>lf_block := q, lf_end := lf_start lock - 1\<rparr>"
            "[ov\<lparr>lf_addr := new, lf_start := lf_end lock + 1, lf_block := []\<rparr>]"])
        (simp_all add: lf_split_def before_def)
  qed
qed

lemma own_after:
  assumes "lf_ok (ov # rest)" "lf_id ov = lf_id lock" "case_rel n lock ov" "n = 1 \<or> n = 2 \<or> n = 5"
    and "x \<in> set rest" "lf_id x = lf_id lock"
  shows "before lock x"
  using assms by (auto simp: lf_ok_Cons case_rel_def before_def)

subsection \<open>Clearing a range\<close>

text \<open>\<open>ls'\<close> is \<open>ls\<close> without the range of \<open>unlock\<close> of its owner.\<close>

definition cleared :: "lockf \<Rightarrow> lockf list \<Rightarrow> lockf list \<Rightarrow> bool" where
  "cleared unlock ls ls' \<longleftrightarrow> lf_ok ls' \<and>
     (\<forall>owner b t. holds ls' owner b t \<longleftrightarrow> holds ls owner b t \<and> \<not> (owner = lf_id unlock \<and> covers unlock b))"

lemma not_held_before:
  "\<forall>x \<in> set xs. lf_id x = lf_id lock \<longrightarrow> before x lock \<or> before lock x \<Longrightarrow>
     holds xs (lf_id lock) b t \<Longrightarrow> \<not> covers lock b"
  unfolding holds_def using before_apart by blast

lemma cleared_last:
  assumes "lf_ok (pre @ ov # rest)" "\<forall>x \<in> set pre. lf_id x = lf_id lock \<longrightarrow> before x lock"
    and "lf_id ov = lf_id lock" "case_rel n lock ov" "n = 1 \<or> n = 2 \<or> n = 5" and "cut_out lock ov xs"
  shows "cleared lock (pre @ ov # rest) (pre @ xs @ rest)"
proof -
  have "lf_ok (ov # rest)" using assms(1) by (auto simp: lf_ok_append)
  note after = own_after [OF this assms(3-5)]
  have "\<not> covers lock b" if "holds pre (lf_id lock) b t \<or> holds rest (lf_id lock) b t" for b t
    using that not_held_before [of pre lock b t] not_held_before [of rest lock b t] assms(2) after by blast
  moreover have "lf_ok (pre @ xs @ rest)"
    using lf_ok_pieces [OF assms(1)] assms(6) by (simp add: cut_out_def)
  ultimately show ?thesis
    using holds_cut_out [OF assms(6)] assms(3) by (auto simp: cleared_def)
qed

lemma cleared_step:
  assumes "cut_out lock ov xs" and "lf_id ov = lf_id lock" and "cleared lock (pre @ xs @ rest) ls'"
  shows "cleared lock (pre @ ov # rest) ls'"
  using assms(3) holds_cut_out [OF assms(1)] assms(2) by (auto simp: cleared_def)

lemma cleared_none:
  assumes "lf_ok (pre @ rest)" "\<forall>x \<in> set pre. lf_id x = lf_id lock \<longrightarrow> before x lock" "range_ok lock"
    and "rest = [] \<or> lf_id (hd rest) = lf_id lock \<and> before lock (hd rest)"
  shows "(\<forall>x \<in> set rest. lf_id x = lf_id lock \<longrightarrow> before lock x) \<and> cleared lock (pre @ rest) (pre @ rest)"
proof -
  have after: "\<forall>x \<in> set rest. lf_id x = lf_id lock \<longrightarrow> before lock x"
  proof (cases rest)
    case (Cons r rs)
    then have "range_ok r" and "\<forall>x \<in> set rs. lf_id x = lf_id r \<longrightarrow> before r x"
      using assms(1) by (auto simp: lf_ok_simps)
    with Cons assms(4) before_trans show ?thesis by auto
  qed simp
  have "\<not> covers lock b" if "holds (pre @ rest) (lf_id lock) b t" for b t
    using that not_held_before [of "pre @ rest" lock b t] assms(2) after by auto
  with assms(1) after show ?thesis by (auto simp: cleared_def)
qed

lemma lf_clear_loop_spec:
  assumes "lf_ok (pre @ ls)" "\<forall>x \<in> set pre. lf_id x = lf_id unlock \<longrightarrow> before x unlock" "range_ok unlock"
  shows "\<exists>s'. lf_clear_loop new s unlock pre ls = Some s' \<and> cleared unlock (pre @ ls) (lf_list s')"
  using assms
proof (induction new s unlock pre ls rule: lf_clear_loop.induct)
  case (1 new s unlock pre ls)
  from find_self [of unlock pre ls] show ?case
  proof cases
    case (none skip rest)
    have "\<forall>x \<in> set (pre @ skip). lf_id x = lf_id unlock \<longrightarrow> before x unlock" using none(3) 1(4) by auto
    with cleared_none [of "pre @ skip" rest unlock] none 1(3,5) show ?thesis
      by (subst lf_clear_loop.simps) simp
  next
    case (some n skip ov rest)
    let ?pre = "pre @ skip"
    have ok: "lf_ok (?pre @ ov # rest)" using 1(3) some(2) by simp
    have pre: "\<forall>x \<in> set ?pre. lf_id x = lf_id unlock \<longrightarrow> before x unlock" using some(4) 1(4) by auto
    have rng: "range_ok ov" using ok by (simp add: lf_ok_simps)
    have one: "pre @ ls = ?pre @ ov # rest" using some(2) by simp
    obtain s1 where wake: "lf_wakelock s ov = (s1, ov\<lparr>lf_block := []\<rparr>)" by (simp add: lf_wakelock_def)
    note unf = lf_clear_loop.simps [of new s unlock pre ls]
    note last = cleared_last [OF ok pre some(5,6)]
    consider "n = 1" | "n = 2" "lf_start ov = lf_start unlock" | "n = 2" "lf_start ov \<noteq> lf_start unlock"
      | "n = 3" | "n = 4" | "n = 5"
      using some(6) by (auto simp: case_rel_def)
    then show ?thesis
    proof cases
      case 1
      with last [of "[]"] cut_equal some(6) show ?thesis
        unfolding one unf by (simp add: some(1) wake)
    next
      case 2
      with front_cases [OF some(6) _ \<open>range_ok unlock\<close> rng, of "[]"]
        last [of "[ov\<lparr>lf_block := [], lf_start := lf_end unlock + 1\<rparr>]"] 2 show ?thesis unfolding one unf by (simp add: some(1) wake)
    next
      case 3
      obtain lock1 others where "lf_split new (ov\<lparr>lf_block := []\<rparr>) unlock = lock1 # unlock # others"
        and "cut_out unlock ov (lock1 # others)"
        using cut_middle [of unlock ov new "[]"] some(6) 3 rng \<open>range_ok unlock\<close> by metis
      with last [of "lock1 # others"] 3 show ?thesis unfolding one unf by (simp add: some(1) wake)
    next
      case 4
      then have cut: "cut_out unlock ov []" using cut_cover some(6) by blast
      have "lf_ok (?pre @ rest)" using lf_ok_pieces [OF ok, of "[]"] by (simp add: pieces_def)
      then obtain s' where "lf_clear_loop new s1 unlock ?pre rest = Some s'" "cleared unlock (?pre @ rest) (lf_list s')"
        using "1.IH"(1) [OF some(1) refl refl some(3) refl wake [symmetric] refl] 4 pre \<open>range_ok unlock\<close> by auto
      with cleared_step [OF cut some(5), of ?pre rest] 4 show ?thesis
        unfolding one unf by (simp add: some(1) wake)
    next
      case 5
      let ?ov = "ov\<lparr>lf_block := [], lf_end := lf_start unlock - 1\<rparr>"
      have cut: "cut_out unlock ov [?ov]" using cut_back [of unlock ov] some(6) 5 rng \<open>range_ok unlock\<close> by blast
      have "lf_ok ((?pre @ [?ov]) @ rest)" using lf_ok_pieces [OF ok, of "[?ov]"] cut by (simp add: cut_out_def)
      moreover have "before ?ov unlock" using 5 some(6) rng by (auto simp: case_rel_def before_def range_ok_def)
      ultimately obtain s' where "lf_clear_loop new s1 unlock (?pre @ [?ov]) rest = Some s'"
        "cleared unlock ((?pre @ [?ov]) @ rest) (lf_list s')"
        using "1.IH"(2) [OF some(1) refl refl some(3) refl wake [symmetric] refl] 5 pre \<open>range_ok unlock\<close> some(5) by auto
      with cleared_step [OF cut some(5), of ?pre rest] 5 show ?thesis
        unfolding one unf by (simp add: some(1) wake)
    next
      case 6
      with front_cases [OF some(6) _ \<open>range_ok unlock\<close> rng, of "[]"]
        last [of "[ov\<lparr>lf_block := [], lf_start := lf_end unlock + 1\<rparr>]"] show ?thesis unfolding one unf by (simp add: some(1) wake)
    qed
  qed
qed

subsection \<open>Granting a lock\<close>

text \<open>\<open>ls'\<close> is \<open>ls\<close> with the range of \<open>lock\<close> set to its type for its owner.\<close>

definition granted :: "lockf \<Rightarrow> lockf list \<Rightarrow> lockf list \<Rightarrow> bool" where
  "granted lock ls ls' \<longleftrightarrow> lf_ok ls' \<and>
     (\<forall>owner b t. holds ls' owner b t \<longleftrightarrow>
        (if owner = lf_id lock \<and> covers lock b then t = lf_type lock else holds ls owner b t))"

definition own_before :: "lockf \<Rightarrow> lockf list \<Rightarrow> bool" where
  "own_before lock xs \<longleftrightarrow> (\<forall>x \<in> set xs. lf_id x = lf_id lock \<longrightarrow> before x lock)"

definition own_behind :: "lockf \<Rightarrow> lockf list \<Rightarrow> bool" where
  "own_behind lock xs \<longleftrightarrow> (\<forall>x \<in> set xs. lf_id x = lf_id lock \<longrightarrow> before lock x)"

definition foreign :: "lockf \<Rightarrow> lockf list \<Rightarrow> bool" where
  "foreign lock xs \<longleftrightarrow> (\<forall>x \<in> set xs. lf_id x \<noteq> lf_id lock)"

lemma own_append [simp]:
  "own_before lock (xs @ ys) \<longleftrightarrow> own_before lock xs \<and> own_before lock ys"
  "own_behind lock (xs @ ys) \<longleftrightarrow> own_behind lock xs \<and> own_behind lock ys"
  "foreign lock (xs @ ys) \<longleftrightarrow> foreign lock xs \<and> foreign lock ys"
  by (auto simp: own_before_def own_behind_def foreign_def)

lemma own_Cons [simp]:
  "own_before lock (x # xs) \<longleftrightarrow> (lf_id x = lf_id lock \<longrightarrow> before x lock) \<and> own_before lock xs"
  "own_behind lock (x # xs) \<longleftrightarrow> (lf_id x = lf_id lock \<longrightarrow> before lock x) \<and> own_behind lock xs"
  "foreign lock (x # xs) \<longleftrightarrow> lf_id x \<noteq> lf_id lock \<and> foreign lock xs"
  by (auto simp: own_before_def own_behind_def foreign_def)

lemma own_Nil [simp]: "own_before lock []" "own_behind lock []" "foreign lock []"
  by (auto simp: own_before_def own_behind_def foreign_def)

lemma foreign_own: "foreign lock xs \<Longrightarrow> own_before lock xs \<and> own_behind lock xs"
  by (auto simp: own_before_def own_behind_def foreign_def)

text \<open>Where the result of the linking loop puts the lock.\<close>

definition placed :: "lockf \<Rightarrow> lockf list \<Rightarrow> lockf list \<Rightarrow> bool" where
  "placed lock ls ls' \<longleftrightarrow>
     (\<exists>p l q. ls' = p @ l # q \<and> alike lock l \<and> own_before lock p \<and> own_behind lock q \<and>
        cleared lock ls (p @ q))"

lemma placedI:
  "ls' = p @ l # q \<Longrightarrow> alike lock l \<Longrightarrow> own_before lock p \<Longrightarrow> own_behind lock q \<Longrightarrow>
     cleared lock ls (p @ q) \<Longrightarrow> placed lock ls ls'"
  by (auto simp: placed_def)

lemma placed_granted:
  assumes "placed lock ls ls'" "range_ok lock" "lf_type lock \<noteq> F_UNLCK"
  shows "granted lock ls ls'"
proof -
  obtain p l q where ls': "ls' = p @ l # q" and l: "alike lock l" and own: "own_before lock p" "own_behind lock q"
    and c: "cleared lock ls (p @ q)"
    using assms(1) by (auto simp: placed_def)
  have "before x l \<longleftrightarrow> before x lock" and "before l x \<longleftrightarrow> before lock x" for x
    using l by (auto simp: before_def alike_def)
  moreover have "range_ok l" "lf_id l = lf_id lock" "lf_type l = lf_type lock"
    using l assms(2) by (auto simp: range_ok_def alike_def)
  ultimately have "lf_ok ls'"
    using c own assms(3) unfolding ls' by (auto simp: lf_ok_simps cleared_def own_before_def own_behind_def)
  moreover have "covers l b \<longleftrightarrow> covers lock b" for b using l by (simp add: covers_def alike_def)
  ultimately show ?thesis
    using c \<open>lf_id l = lf_id lock\<close> \<open>lf_type l = lf_type lock\<close>
    unfolding granted_def cleared_def ls' by auto
qed

lemma placed_step:
  assumes "cut_out lock ov xs" "lf_id ov = lf_id lock" "placed lock (pre @ xs @ rest) ls'"
  shows "placed lock (pre @ ov # rest) ls'"
  using assms(3) cleared_step [OF assms(1,2)] unfolding placed_def by blast

lemma placed_alike:
  assumes "list_all2 alike ls ls1" and "placed lock ls1 ls'"
  shows "placed lock ls ls'"
  using assms(2) holds_alike [OF assms(1)] by (auto simp: placed_def cleared_def)

lemma alike_own:
  assumes "list_all2 alike xs ys"
  shows "own_before lock xs \<longrightarrow> own_before lock ys" and "foreign lock xs \<longrightarrow> foreign lock ys"
  using assms by (induction rule: list_all2_induct) (auto simp: alike_def before_def)

lemma own_request:
  assumes "alike lock lock1"
  shows "alike lock1 = alike lock" "covers lock1 = covers lock" "lf_id lock1 = lf_id lock"
    "own_before lock1 = own_before lock" "own_behind lock1 = own_behind lock" "foreign lock1 = foreign lock"
    "range_ok lock1 = range_ok lock"
  using assms
  by (auto simp: fun_eq_iff alike_def covers_def own_before_def own_behind_def before_def foreign_def range_ok_def)

lemma placed_request: "alike lock lock1 \<Longrightarrow> placed lock1 ls ls' = placed lock ls ls'"
  using own_request [of lock lock1] by (simp add: placed_def cleared_def)

lemma lf_link_linked:
  assumes "pre = p1 @ l # p2" "alike lock l" "own_before lock p1" "foreign lock p2"
    and "lf_ok (p1 @ p2 @ ls)" "\<forall>x \<in> set ls. lf_id x = lf_id lock \<longrightarrow> lf_start lock < lf_start x"
    and "range_ok lock"
  shows "\<exists>s'. lf_link new s lock False pre ls = Lf_ret s' None \<and> placed lock (p1 @ p2 @ ls) (lf_list s')"
  using assms
proof (induction new s lock False pre ls arbitrary: p1 l p2 rule: lf_link.induct)
  case (1 new s lock pre ls)
  note rl = \<open>range_ok lock\<close>
  have fskip: "foreign lock skip" if "ls = skip @ rest" "\<forall>x \<in> set skip. lf_id x = lf_id lock \<longrightarrow> before x lock"
    for skip rest
  proof -
    have "lf_start x \<le> lf_end x \<or> lf_end x = -1" if "x \<in> set skip" for x
      using that \<open>ls = skip @ rest\<close> "1.prems"(5) by (auto simp: lf_ok_append lf_ok_def range_ok_def)
    with that "1.prems"(6) show ?thesis by (fastforce simp: foreign_def before_def)
  qed
  note unf = lf_link.simps [of new s lock False pre ls]
  from find_self [of lock pre ls] show ?case
  proof cases
    case (none skip rest)
    have fs: "foreign lock skip" using fskip none(2,3) .
    have pre: "\<forall>x \<in> set (p1 @ p2 @ skip). lf_id x = lf_id lock \<longrightarrow> before x lock"
      using fs foreign_own "1.prems"(3,4) by (auto simp: own_before_def foreign_def)
    have "lf_ok ((p1 @ p2 @ skip) @ rest)" using "1.prems"(5) none(2) by simp
    from cleared_none [OF this pre rl none(4)]
    have "own_behind lock rest" "cleared lock (p1 @ p2 @ ls) (p1 @ p2 @ skip @ rest)"
      using none(2) by (auto simp: own_behind_def)
    then have "placed lock (p1 @ p2 @ ls) (pre @ skip @ rest)"
      using "1.prems"(1-4) fs foreign_own by (intro placedI [where p = p1 and l = l and q = "p2 @ skip @ rest"]) auto
    then show ?thesis by (simp add: unf none(1))
  next
    case (some n skip ov rest)
    have fs: "foreign lock skip" using fskip some(2,4) .
    have "lf_start lock < lf_start ov" using "1.prems"(6) some(2,5) by auto
    then have "n = 3 \<or> n = 5" using some(6) by (auto simp: case_rel_def)
    have ok: "lf_ok ((p1 @ p2 @ skip) @ ov # rest)" using "1.prems"(5) some(2) by simp
    have rng: "range_ok ov" using ok by (simp add: lf_ok_simps)
    from \<open>n = 3 \<or> n = 5\<close> show ?thesis
    proof
      assume n: "n = 3"
      obtain s1 lock1 where ab: "lf_absorb s lock ov = (s1, lock1)" by (cases "lf_absorb s lock ov")
      then have lock1: "alike lock lock1"
        by (auto simp: lf_absorb_def lf_wakelock_def lf_addblock_def alike_def split: if_splits)
      let ?f = "\<lambda>l. l\<lparr>lf_block := lf_block lock1\<rparr>"
      let ?upd = "upd_lock (lf_addr lock) ?f"
      have al: "list_all2 alike xs (?upd xs)" for xs by (rule alike_upd_block)
      obtain l1 where split: "?upd (pre @ skip) = ?upd p1 @ l1 # ?upd (p2 @ skip)" and l1: "alike lock l1"
        using "1.prems"(1,2) by (auto simp: upd_lock_def alike_def)
      have own: "own_before lock1 (?upd p1)" "foreign lock1 (?upd (p2 @ skip))" "alike lock1 l1" "range_ok lock1"
        unfolding own_request [OF lock1]
        using alike_own(1) [OF al, of lock p1] alike_own(2) [OF al, of lock "p2 @ skip"] "1.prems"(3,4) fs l1 rl
        by simp_all
      have "list_all2 alike (p1 @ (p2 @ skip) @ rest) (?upd p1 @ ?upd (p2 @ skip) @ rest)"
        by (intro list_all2_appendI al list_all2_refl alike_refl)
      then have al2: "list_all2 alike ((p1 @ p2 @ skip) @ rest) (?upd p1 @ ?upd (p2 @ skip) @ rest)" by simp
      have cut: "cut_out lock ov []" using cut_cover some(6) n by blast
      have "lf_ok ((p1 @ p2 @ skip) @ rest)" using lf_ok_pieces [OF ok, of "[]"] by (simp add: pieces_def)
      then have ok1: "lf_ok (?upd p1 @ ?upd (p2 @ skip) @ rest)" by (rule lf_ok_alike [OF al2])
      have "\<forall>x \<in> set rest. lf_id x = lf_id lock1 \<longrightarrow> lf_start lock1 < lf_start x"
        using "1.prems"(6) some(2) lock1 by (simp add: alike_def)
      then obtain s' where run: "lf_link new s1 lock1 False (?upd (pre @ skip)) rest = Lf_ret s' None"
        and pl: "placed lock1 (?upd p1 @ ?upd (p2 @ skip) @ rest) (lf_list s')"
        using "1.hyps"(2) [OF some(1) refl refl some(3) refl _ _ n ab [symmetric] refl _ split own(3,1,2) ok1 _ own(4)] n
        by auto
      have "placed lock (?upd p1 @ ?upd (p2 @ skip) @ rest) (lf_list s')"
        using pl placed_request [OF lock1] by blast
      then have "placed lock ((p1 @ p2 @ skip) @ rest) (lf_list s')" by (rule placed_alike [OF al2])
      with placed_step [OF cut some(5), of "p1 @ p2 @ skip" rest "lf_list s'"] some(2)
      have "placed lock (p1 @ p2 @ ls) (lf_list s')" by simp
      with run show ?thesis using n by (simp add: unf some(1) ab)
    next
      assume n: "n = 5"
      obtain s1 where wake: "lf_wakelock s ov = (s1, ov\<lparr>lf_block := []\<rparr>)" by (simp add: lf_wakelock_def)
      let ?ov = "ov\<lparr>lf_block := [], lf_start := lf_end lock + 1\<rparr>"
      have cut: "cut_out lock ov [?ov]" using front_cases [OF some(6) _ rl rng] n by simp
      have pre: "\<forall>x \<in> set (p1 @ p2 @ skip). lf_id x = lf_id lock \<longrightarrow> before x lock"
        using fs foreign_own "1.prems"(3,4) by (auto simp: own_before_def foreign_def)
      have "lf_ok (ov # rest)" using ok by (simp add: lf_ok_append)
      from own_after [OF this some(5,6)] n have "own_behind lock (?ov # rest)"
        using some(6) by (auto simp: own_behind_def before_def case_rel_def)
      moreover have "cleared lock (p1 @ p2 @ ls) ((p1 @ p2 @ skip) @ [?ov] @ rest)"
        using cleared_last [OF ok pre some(5,6) _ cut] n some(2) by simp
      ultimately have "placed lock (p1 @ p2 @ ls) (pre @ skip @ ?ov # rest)"
        using "1.prems"(1-4) fs foreign_own
        by (intro placedI [where p = p1 and l = l and q = "p2 @ skip @ ?ov # rest"]) auto
      then show ?thesis using n by (simp add: unf some(1) wake)
    qed
  qed
qed

lemma lf_wakelock_eq: "\<exists>s1. lf_wakelock s ov = (s1, ov\<lparr>lf_block := []\<rparr>)"
  by (simp add: lf_wakelock_def)

text \<open>The cases in which the new lock goes into the list next to what is left of the old one.\<close>

lemma granted_apart:
  assumes "lf_ok (pre @ ov # rest)" "own_before lock pre" "lf_id ov = lf_id lock" "case_rel n lock ov"
    and "n = 2 \<or> n = 5" "cut_out lock ov (as @ bs)" "own_before lock as" "own_behind lock bs"
    and "range_ok lock" "lf_type lock \<noteq> F_UNLCK"
  shows "granted lock (pre @ ov # rest) (pre @ as @ lock # bs @ rest)"
proof -
  have ok: "lf_ok (ov # rest)" using assms(1) by (simp add: lf_ok_append)
  have "own_behind lock rest" using own_after [OF ok assms(3,4)] assms(5) by (auto simp: own_behind_def)
  moreover have "cleared lock (pre @ ov # rest) (pre @ (as @ bs) @ rest)"
    using cleared_last [OF assms(1) _ assms(3,4) _ assms(6)] assms(2,5) by (auto simp: own_before_def)
  ultimately have "placed lock (pre @ ov # rest) (pre @ as @ lock # bs @ rest)"
    using assms(2,7,8) by (intro placedI [where p = "pre @ as" and l = lock and q = "bs @ rest"]) auto
  then show ?thesis using assms(9,10) by (rule placed_granted)
qed

lemma granted_equal:
  assumes "lf_ok (pre @ ov # rest)" "own_before lock pre" "lf_id ov = lf_id lock" "case_rel 1 lock ov"
    and "lf_type lock \<noteq> F_UNLCK" "range_ok lock"
    and "alike lock ov'"
  shows "granted lock (pre @ ov # rest) (pre @ ov' # rest)"
proof -
  have ok: "lf_ok (ov # rest)" using assms(1) by (simp add: lf_ok_append)
  have "own_behind lock rest" using own_after [OF ok assms(3,4)] by (auto simp: own_behind_def)
  moreover have "cleared lock (pre @ ov # rest) (pre @ [] @ rest)"
    using cleared_last [OF assms(1) _ assms(3,4) _ cut_equal [OF assms(4)]] assms(2) by (simp add: own_before_def)
  ultimately have "placed lock (pre @ ov # rest) (pre @ ov' # rest)"
    using assms(2,7) by (intro placedI [where p = pre and l = ov' and q = rest]) auto
  then show ?thesis using assms(5,6) placed_granted by blast
qed

lemma granted_inside:
  assumes "lf_ok (pre @ ov # rest)" "own_before lock pre" "lf_id ov = lf_id lock" "case_rel 2 lock ov"
    and "lf_type ov = lf_type lock"
  shows "granted lock (pre @ ov # rest) (pre @ ov # rest)"
proof -
  have ok: "lf_ok (ov # rest)" using assms(1) by (simp add: lf_ok_append)
  have "own_behind lock rest" using own_after [OF ok assms(3,4)] by (auto simp: own_behind_def)
  then have "\<not> covers lock b" if "holds pre (lf_id lock) b t \<or> holds rest (lf_id lock) b t" for b t
    using that not_held_before [of pre lock b t] not_held_before [of rest lock b t] assms(2)
    by (auto simp: own_before_def own_behind_def)
  moreover have "covers ov b" if "covers lock b" for b
    using that assms(4) by (auto simp: case_rel_def covers_def)
  ultimately show ?thesis using assms(1,3,5) by (auto simp: granted_def)
qed

lemma lf_link_inside_spec:
  assumes "lf_ok (pre @ ov # rest)" "own_before lock pre" "lf_id ov = lf_id lock" "case_rel 2 lock ov"
    and "range_ok lock" "lf_type lock \<noteq> F_UNLCK"
  shows "\<exists>s'. lf_link_inside new s lock pre ov rest = Lf_ret s' None \<and>
    granted lock (pre @ ov # rest) (lf_list s')"
proof -
  have rng: "range_ok ov" using assms(1) by (simp add: lf_ok_simps)
  obtain s1 where wake: "lf_wakelock s ov = (s1, ov\<lparr>lf_block := []\<rparr>)" using lf_wakelock_eq by blast
  show ?thesis
  proof (cases "lf_type ov = lf_type lock")
    case True
    then show ?thesis using granted_inside [OF assms(1-4)] by (simp add: lf_link_inside_def)
  next
    case ty: False
    show ?thesis
    proof (cases "lf_start ov = lf_start lock")
      case True
      let ?ov = "ov\<lparr>lf_block := [], lf_start := lf_end lock + 1\<rparr>"
      have "cut_out lock ov ([] @ [?ov])" using front_cases [OF assms(4) _ assms(5) rng] True by simp
      moreover have "own_behind lock [?ov]" using assms(4) by (auto simp: before_def case_rel_def)
      ultimately show ?thesis
        using granted_apart [OF assms(1-4), of "[]" "[?ov]"] assms(5,6) True ty
        by (simp add: lf_link_inside_def wake)
    next
      case False
      obtain lock1 others where sp: "lf_split new (ov\<lparr>lf_block := []\<rparr>) lock = lock1 # lock # others"
        "cut_out lock ov ([lock1] @ others)" "\<forall>x \<in> set others. before lock x" "before lock1 lock"
        using cut_middle [OF assms(4,5) rng False, of new "[]"] by (metis append_Cons append_Nil)
      then have "own_before lock [lock1]" "own_behind lock others" by (auto simp: own_behind_def)
      from granted_apart [OF assms(1-4) _ sp(2) this assms(5,6)] show ?thesis
        using False ty sp(1) by (simp add: lf_link_inside_def wake)
    qed
  qed
qed

lemma lf_link_spec:
  assumes "lf_ok (pre @ ls)" "own_before lock pre" "range_ok lock" "lf_type lock \<noteq> F_UNLCK"
  shows "\<exists>s'. lf_link new s lock True pre ls = Lf_ret s' None \<and> granted lock (pre @ ls) (lf_list s')"
proof -
  note unf = lf_link.simps [of new s lock True pre ls]
  from find_self [of lock pre ls] show ?thesis
  proof cases
    case (none skip rest)
    have pre: "\<forall>x \<in> set (pre @ skip). lf_id x = lf_id lock \<longrightarrow> before x lock"
      using none(3) assms(2) by (auto simp: own_before_def)
    have "lf_ok ((pre @ skip) @ rest)" using assms(1) none(2) by simp
    from cleared_none [OF this pre assms(3) none(4)] pre
    have "placed lock (pre @ ls) (pre @ skip @ lock # rest)"
      using none(2) by (intro placedI [where p = "pre @ skip" and l = lock and q = rest])
        (auto simp: own_before_def own_behind_def)
    with placed_granted [OF this assms(3,4)] show ?thesis by (simp add: unf none(1))
  next
    case (some n skip ov rest)
    let ?pre = "pre @ skip"
    have ok: "lf_ok (?pre @ ov # rest)" using assms(1) some(2) by simp
    have pre: "own_before lock ?pre" using some(4) assms(2) by (auto simp: own_before_def)
    have rng: "range_ok ov" using ok by (simp add: lf_ok_simps)
    have one: "pre @ ls = ?pre @ ov # rest" using some(2) by simp
    have later: "before ov x" if "x \<in> set rest" "lf_id x = lf_id lock" for x
      using ok that some(5) by (auto simp: lf_ok_simps)
    obtain s1 where wake: "lf_wakelock s ov = (s1, ov\<lparr>lf_block := []\<rparr>)" using lf_wakelock_eq by blast
    have fin: ?thesis if "lf_link new s1' lock' False pre' rest = Lf_ret s' None" "alike lock lock'"
        "placed lock' (?pre @ xs @ rest) (lf_list s')" "cut_out lock ov xs"
        "lf_link new s lock True pre ls = lf_link new s1' lock' False pre' rest" for s1' lock' pre' s' xs
      using that(1,5) placed_granted [OF placed_step [OF that(4) some(5) that(3) [unfolded placed_request [OF that(2)]]] assms(3,4)]
      unfolding one by simp
    consider "n = 1" | "n = 2" | "n = 3" | "n = 4" | "n = 5" using some(6) by (auto simp: case_rel_def)
    then show ?thesis
    proof cases
      case 1
      obtain s2 ov2 where e: "(if downgrade lock ov then lf_wakelock s ov else (s, ov)) = (s2, ov2)"
        by (cases "if downgrade lock ov then lf_wakelock s ov else (s, ov)")
      then have "lf_id ov2 = lf_id ov" "lf_start ov2 = lf_start ov" "lf_end ov2 = lf_end ov"
        by (auto simp: wake split: if_splits)
      then have "alike lock (ov2\<lparr>lf_type := lf_type lock\<rparr>)"
        using some(5,6) 1 by (simp add: alike_def case_rel_def)
      with granted_equal [OF ok pre some(5) _ assms(4,3)] some(6) 1 show ?thesis
        unfolding one unf by (simp add: some(1) lf_link_equal_def e)
    next
      case 2
      then show ?thesis
        using lf_link_inside_spec [OF ok pre some(5) _ assms(3,4)] some(6) unfolding one
        by (simp add: unf some(1))
    next
      case 3
      obtain s1' lock' where ab: "lf_absorb s lock ov = (s1', lock')" by (cases "lf_absorb s lock ov")
      then have lock': "alike lock lock'"
        by (auto simp: lf_absorb_def lf_wakelock_def lf_addblock_def alike_def split: if_splits)
      have cut: "cut_out lock ov []" using cut_cover some(6) 3 by blast
      have "lf_ok (?pre @ [] @ rest)" using lf_ok_pieces [OF ok, of "[]"] by (simp add: pieces_def)
      moreover have "\<forall>x \<in> set rest. lf_id x = lf_id lock' \<longrightarrow> lf_start lock' < lf_start x"
        using later some(6) 3 rng lock' by (fastforce simp: case_rel_def before_def range_ok_def alike_def)
      ultimately obtain s' where "lf_link new s1' lock' False (?pre @ [lock']) rest = Lf_ret s' None"
        "placed lock' (?pre @ [] @ rest) (lf_list s')"
        using lf_link_linked [of "?pre @ [lock']" ?pre lock' "[]" lock' rest new s1'] pre assms(3)
          own_request [OF lock'] lock' by auto
      from fin [OF this(1) lock' this(2) cut] show ?thesis using 3 by (simp add: unf some(1) ab)
    next
      case 4
      let ?ov = "ov\<lparr>lf_block := [], lf_end := lf_start lock - 1\<rparr>"
      have cut: "cut_out lock ov [?ov]" using cut_back [of lock ov] some(6) 4 assms(3) rng by blast
      have "before ?ov lock" using 4 some(6) rng by (auto simp: case_rel_def before_def range_ok_def)
      moreover have "lf_ok (?pre @ [?ov] @ rest)" using lf_ok_pieces [OF ok, of "[?ov]"] cut by (simp add: cut_out_def)
      moreover have "\<forall>x \<in> set rest. lf_id x = lf_id lock \<longrightarrow> lf_start lock < lf_start x"
        using later some(6) 4 by (fastforce simp: case_rel_def before_def)
      ultimately obtain s' where "lf_link new s1 lock False (?pre @ [?ov, lock]) rest = Lf_ret s' None"
        "placed lock (?pre @ [?ov] @ rest) (lf_list s')"
        using lf_link_linked [of "?pre @ [?ov, lock]" "?pre @ [?ov]" lock "[]" lock rest new s1] pre assms(3)
        by auto
      from fin [OF this(1) alike_refl this(2) cut] show ?thesis using 4 by (simp add: unf some(1) wake)
    next
      case 5
      let ?ov = "ov\<lparr>lf_block := [], lf_start := lf_end lock + 1\<rparr>"
      have "cut_out lock ov ([] @ [?ov])" using front_cases [OF some(6) _ assms(3) rng] 5 by simp
      moreover have "own_behind lock [?ov]" using some(6) 5 by (auto simp: before_def case_rel_def)
      ultimately show ?thesis
        using granted_apart [OF ok pre some(5,6), of "[]" "[?ov]"] 5 assms(3,4) unfolding one
        by (simp add: unf some(1) wake)
    qed
  qed
qed

subsection \<open>Conflicts\<close>

definition conflicts :: "lockf \<Rightarrow> lockf \<Rightarrow> bool" where
  "conflicts lock x \<longleftrightarrow> lf_id x \<noteq> lf_id lock \<and> (lf_type lock = F_WRLCK \<or> lf_type x = F_WRLCK) \<and>
     (\<exists>b. covers lock b \<and> covers x b)"

lemma overlap_covers:
  assumes "range_ok a" "range_ok b"
  shows "(\<exists>x. covers a x \<and> covers b x) \<longleftrightarrow> \<not> before a b \<and> \<not> before b a"
proof
  assume "\<not> before a b \<and> \<not> before b a"
  then have "covers a (max (lf_start a) (lf_start b)) \<and> covers b (max (lf_start a) (lf_start b))"
    using assms by (auto simp: covers_def before_def range_ok_def)
  then show "\<exists>x. covers a x \<and> covers b x" by blast
qed (use before_apart in blast)

lemma find_others:
  obtains (none) pre where "lf_findoverlap OTHERS lock [] ls = Some (0, pre, [])"
      "\<forall>x \<in> set ls. lf_id x \<noteq> lf_id lock \<longrightarrow> before x lock \<or> before lock x"
  | (some) n skip ov rest where "lf_findoverlap OTHERS lock [] ls = Some (n, skip, ov # rest)"
      "ls = skip @ ov # rest" "n \<noteq> 0" "\<forall>x \<in> set skip. lf_id x \<noteq> lf_id lock \<longrightarrow> before x lock \<or> before lock x"
      "lf_id ov \<noteq> lf_id lock" "\<not> before ov lock" "\<not> before lock ov"
proof -
  obtain n skip rest where f: "lf_findoverlap OTHERS lock [] ls = Some (n, skip, rest)" "ls = skip @ rest"
    and skip: "\<forall>x \<in> set skip. lf_compare OTHERS lock x = Lf_next"
    and stop: "n = 0 \<Longrightarrow> rest = [] \<or> lf_compare OTHERS lock (hd rest) = Lf_stop"
    and hit: "n \<noteq> 0 \<Longrightarrow> rest \<noteq> [] \<and> lf_compare OTHERS lock (hd rest) = Lf_case n"
    using findoverlap_spec [of OTHERS lock "[]" ls] by force
  have sk: "\<forall>x \<in> set skip. lf_id x \<noteq> lf_id lock \<longrightarrow> before x lock \<or> before lock x"
    using skip compare_next by blast
  show thesis
  proof (cases "n = 0")
    case True
    with stop compare_stop have "rest = []" by blast
    with none [of skip] f sk True show thesis by simp
  next
    case False
    with hit obtain ov rest' where "rest = ov # rest'" by (cases rest) auto
    then show thesis using some [of n skip ov rest'] f sk hit [OF False] False compare_case by force
  qed
qed

lemma getblock_spec:
  assumes "\<forall>x \<in> set ls. range_ok x" "range_ok lock"
  shows "case lf_getblock_from lock ls of
      None \<Rightarrow> False
    | Some None \<Rightarrow> \<forall>x \<in> set ls. \<not> conflicts lock x
    | Some (Some x) \<Rightarrow> x \<in> set ls \<and> conflicts lock x"
  using assms
proof (induction lock ls rule: lf_getblock_from.induct)
  case (1 lock ls)
  note unf = lf_getblock_from.simps [of lock ls]
  from find_others [of lock ls] show ?case
  proof cases
    case (none pre)
    then have "\<forall>x \<in> set ls. \<not> conflicts lock x" using before_apart by (auto simp: conflicts_def)
    with none(1) show ?thesis by (simp add: unf)
  next
    case (some n skip ov rest)
    have no: "\<forall>x \<in> set skip. \<not> conflicts lock x" using some(4) before_apart unfolding conflicts_def by blast
    have ov: "\<exists>b. covers lock b \<and> covers ov b"
      using overlap_covers [of lock ov] some(2,6,7) 1(2,3) by simp
    show ?thesis
    proof (cases "lf_type lock = F_WRLCK \<or> lf_type ov = F_WRLCK")
      case True
      then have "lf_getblock_from lock ls = Some (Some ov)" using some(1,3) by (subst unf) simp
      with True some(2,5) ov show ?thesis by (simp add: conflicts_def)
    next
      case False
      then have "\<not> conflicts lock ov" by (simp add: conflicts_def)
      moreover have "case lf_getblock_from lock rest of
          None \<Rightarrow> False
        | Some None \<Rightarrow> \<forall>x \<in> set rest. \<not> conflicts lock x
        | Some (Some x) \<Rightarrow> x \<in> set rest \<and> conflicts lock x"
        using "1.IH" [OF some(1) refl refl some(3) refl False] 1(2,3) some(2) by simp
      moreover have "lf_getblock_from lock ls = lf_getblock_from lock rest"
        using some(1,3) False by (subst unf) simp
      ultimately show ?thesis using no some(2) by (auto split: option.splits)
    qed
  qed
qed

lemma lf_getblock_cases:
  assumes "lf_ok (lf_list s)" "range_ok lock"
  obtains "lf_getblock s lock = Some None" "\<forall>x \<in> set (lf_list s). \<not> conflicts lock x"
  | block where "lf_getblock s lock = Some (Some block)" "block \<in> set (lf_list s)" "conflicts lock block"
proof -
  have "\<forall>x \<in> set (lf_list s). range_ok x" using assms(1) by (simp add: lf_ok_def)
  note spec = getblock_spec [OF this assms(2)]
  show thesis
  proof (cases "lf_getblock_from lock (lf_list s)")
    case None
    with spec show thesis by simp
  next
    case (Some r)
    with spec that show thesis by (cases r) (auto simp: lf_getblock_def)
  qed
qed

definition compatible :: "lockf list \<Rightarrow> bool" where
  "compatible ls \<longleftrightarrow> (\<forall>o1 o2 b t1 t2. o1 \<noteq> o2 \<longrightarrow> holds ls o1 b t1 \<longrightarrow> holds ls o2 b t2 \<longrightarrow>
     t1 = F_RDLCK \<and> t2 = F_RDLCK)"







subsection \<open>Requests\<close>

definition request_ok :: "lockf \<Rightarrow> bool" where
  "request_ok lock \<longleftrightarrow> range_ok lock \<and> lf_type lock \<noteq> F_UNLCK"

lemma lf_setlock_free:
  assumes "lf_ok (lf_list s)" "request_ok lock" "\<forall>x \<in> set (lf_list s). \<not> conflicts lock x"
  shows "\<exists>s'. lf_setlock e new s lock = Lf_ret s' None \<and> granted lock (lf_list s) (lf_list s')"
proof -
  have rl: "range_ok lock" "lf_type lock \<noteq> F_UNLCK" using assms(2) by (auto simp: request_ok_def)
  obtain s' where "lf_link new s lock True [] (lf_list s) = Lf_ret s' None" "granted lock (lf_list s) (lf_list s')"
    using lf_link_spec [of "[]" "lf_list s" lock new s] assms(1) rl by auto
  moreover have "lf_getblock s lock = Some None"
    using lf_getblock_cases [OF assms(1) rl(1)] assms(3) by metis
  ultimately show ?thesis by (simp add: lf_setlock_def)
qed

text \<open>A request that must wait leaves the holders alone, but for its own flock-style lock.\<close>

lemma lf_clearlock_cleared:
  assumes "lf_ok (lf_list s)" "range_ok lock"
  shows "\<exists>s'. lf_clearlock new s lock = Some s' \<and> cleared lock (lf_list s) (lf_list s')"
  using lf_clear_loop_spec [of "[]" "lf_list s" lock new s] assms
  by (cases "lf_list s = []") (auto simp: lf_clearlock_def cleared_def)

lemma lf_setlock_blocked:
  assumes "lf_ok (lf_list s)" "request_ok lock" "x \<in> set (lf_list s)" "conflicts lock x"
  obtains "lf_flags lock AND F_WAIT = 0" "lf_setlock e new s lock = Lf_ret s (Some EAGAIN)"
  | block where "lf_flags lock AND F_WAIT \<noteq> 0" "lf_setlock e new s lock = Lf_ret s (Some EDEADLK)"
      "block \<in> set (lf_list s)" "conflicts lock block"
      "lf_deadlock e (le_maxdepth e) (lf_id lock) (lf_id block)"
  | s1 s' :: lf_state where "lf_flags lock AND F_WAIT \<noteq> 0" "lf_setlock e new s lock = Lf_sleeps s' lock"
      "lf_list s1 = lf_list s \<or> cleared lock (lf_list s) (lf_list s1)"
      "list_all2 alike (lf_list s1) (lf_list s')"
proof -
  have rl: "range_ok lock" using assms(2) by (simp add: request_ok_def)
  obtain block where block: "lf_getblock s lock = Some (Some block)" "block \<in> set (lf_list s)" "conflicts lock block"
    using lf_getblock_cases [OF assms(1) rl] assms(3,4) by metis
  let ?unlock = "lock\<lparr>lf_type := F_UNLCK\<rparr>"
  have un: "range_ok ?unlock" "cleared ?unlock = cleared lock"
    using rl by (auto simp: range_ok_def cleared_def covers_def fun_eq_iff)
  obtain s1 where s1: "(if lf_flags lock AND F_FLOCK \<noteq> 0 \<and> lf_type lock = F_WRLCK
      then lf_clearlock new s ?unlock else Some s) = Some s1"
    "lf_list s1 = lf_list s \<or> cleared lock (lf_list s) (lf_list s1)"
  proof (cases "lf_flags lock AND F_FLOCK \<noteq> 0 \<and> lf_type lock = F_WRLCK")
    case True
    obtain s1 where "lf_clearlock new s ?unlock = Some s1" "cleared ?unlock (lf_list s) (lf_list s1)"
      using lf_clearlock_cleared [OF assms(1) un(1)] by blast
    with that [of s1] True un(2) show thesis by simp
  next
    case False
    with that [of s] show thesis by simp
  qed
  have al: "list_all2 alike (lf_list s1)
      (upd_lock (lf_addr block) (\<lambda>l. lf_addblock l [lf_addr lock]) (lf_list s1))"
    unfolding lf_addblock_def by (rule alike_upd_block)
  show thesis
  proof (cases "lf_flags lock AND F_WAIT = 0")
    case True
    then show thesis using that(1) block(1) by (simp add: lf_setlock_def)
  next
    case False
    show thesis
    proof (cases "lf_flags lock AND F_POSIX \<noteq> 0 \<and> lf_flags block AND F_POSIX \<noteq> 0 \<and>
        lf_deadlock e (le_maxdepth e) (lf_id lock) (lf_id block)")
      case True
      then show thesis using that(2) [of block] block False by (simp add: lf_setlock_def)
    next
      case no: False
      let ?s' = "s1\<lparr>lf_list := upd_lock (lf_addr block) (\<lambda>l. lf_addblock l [lf_addr lock]) (lf_list s1),
          lf_blocker := (lf_blocker s1)(lf_addr lock := Some (lf_addr block))\<rparr>"
      have "lf_setlock e new s lock = Lf_sleeps ?s' lock"
        using no False block(1) s1(1) by (simp add: lf_setlock_def)
      moreover have "lf_list ?s' = upd_lock (lf_addr block) (\<lambda>l. lf_addblock l [lf_addr lock]) (lf_list s1)"
        by simp
      ultimately show thesis using that(3) [OF False _ s1(2)] al by metis
    qed
  qed
qed


subsection \<open>Any number of processes on one file\<close>

record lf_system =
  sys_locks :: lf_state
  sys_asleep :: "lockf list"

fun lf_outcome :: "lf_out \<Rightarrow> lockf list \<Rightarrow> lf_system option" where
  "lf_outcome (Lf_ret s r) asleep = Some \<lparr>sys_locks = s, sys_asleep = asleep\<rparr>"
| "lf_outcome (Lf_sleeps s l) asleep = Some \<lparr>sys_locks = s, sys_asleep = l # asleep\<rparr>"
| "lf_outcome Lf_panic asleep = None"
| "lf_outcome Lf_wild asleep = None"

text \<open>
  A process calls \<open>lf_advlock\<close> with a length that is not negative and a range that ends before the last offset
  (\<open>lf_call_ok\<close>; a type other than \<open>F_UNLCK\<close> for \<open>F_SETLK\<close> is what \<open>fcntl\<close> and \<open>flock\<close> pass), or a sleeping request is woken, by
  \<open>lf_wakelock\<close>, by a signal or spuriously. There is no step where the code follows a freed \<open>lf_next\<close> (\<open>Lf_wild\<close>) or panics.
\<close>

definition lf_call_ok :: "int \<Rightarrow> lf_op \<Rightarrow> flock \<Rightarrow> bool" where
  "lf_call_ok fsize op fl \<longleftrightarrow> 0 \<le> l_len fl \<and>
     (if l_whence fl = SEEK_END then s64 (fsize + l_start fl) else l_start fl) + l_len fl < 2 ^ 63 \<and>
     (op = Op_SETLK \<longrightarrow> l_type fl \<noteq> F_UNLCK)"

inductive lf_step :: "lf_system \<Rightarrow> lf_system \<Rightarrow> bool" where
  call: "lf_advlock e addr new (sys_locks S) fsize owner op fl flags = (out, fl') \<Longrightarrow>
    lf_call_ok fsize op fl \<Longrightarrow> lf_outcome out (sys_asleep S) = Some S' \<Longrightarrow> lf_step S S'"
| wake: "lock \<in> set (sys_asleep S) \<Longrightarrow> lf_setlock_wake e new (sys_locks S) lock err = out \<Longrightarrow>
    lf_outcome out (remove1 lock (sys_asleep S)) = Some S' \<Longrightarrow> lf_step S S'"

inductive_cases lf_stepE: "lf_step S S'"



lemma compatible_Nil [simp]: "compatible []"
  by (simp add: compatible_def)







subsection \<open>Deadlock detection\<close>

text \<open>One edge of the graph that \<open>lf_setlock\<close> walks: a process and the owner it waits for.\<close>

definition waits_for :: "lf_env \<Rightarrow> (nat \<times> nat) set" where
  "waits_for e = {(a, b). \<exists>flags. le_waits e a = Some (flags, b) \<and> flags AND F_POSIX \<noteq> 0}"

lemma lf_deadlock_none: "le_waits e w = None \<Longrightarrow> \<not> lf_deadlock e n me w"
  by (cases n) simp_all

lemma lf_deadlock_path:
  "lf_deadlock e n me w \<longleftrightarrow> (\<exists>k. 0 < k \<and> k \<le> n \<and> (w, me) \<in> waits_for e ^^ k)"
proof (induction n arbitrary: w)
  case (Suc n)
  show ?case
  proof (cases "\<exists>b. (w, b) \<in> waits_for e")
    case False
    then have "\<not> lf_deadlock e (Suc n) me w" by (auto simp: waits_for_def split: option.splits)
    moreover have "(w, me) \<notin> waits_for e ^^ k" if "0 < k" for k
      using False that by (cases k) (auto simp del: relpow.simps dest: relpow_Suc_D2)
    ultimately show ?thesis by blast
  next
    case True
    then obtain b where b: "(w, b) \<in> waits_for e" by blast
    then have uniq: "(w, c) \<in> waits_for e \<longleftrightarrow> c = b" for c by (auto simp: waits_for_def)
    have step: "(w, me) \<in> waits_for e ^^ Suc k \<longleftrightarrow> (b, me) \<in> waits_for e ^^ k" for k
      using uniq relpow_Suc_D2 [of w me k "waits_for e"] relpow_Suc_I2 [of w b "waits_for e" me k] by auto
    have "lf_deadlock e (Suc n) me w \<longleftrightarrow> b = me \<or> lf_deadlock e n me b"
      using b by (auto simp: waits_for_def split: option.splits)
    also have "\<dots> \<longleftrightarrow> (\<exists>k \<le> n. (b, me) \<in> waits_for e ^^ k)"
      unfolding Suc.IH
    proof
      assume "b = me \<or> (\<exists>k. 0 < k \<and> k \<le> n \<and> (b, me) \<in> waits_for e ^^ k)"
      then show "\<exists>k \<le> n. (b, me) \<in> waits_for e ^^ k" by (metis le0 relpow_0_I)
    next
      assume "\<exists>k \<le> n. (b, me) \<in> waits_for e ^^ k"
      then obtain k where "k \<le> n" "(b, me) \<in> waits_for e ^^ k" by blast
      then show "b = me \<or> (\<exists>k. 0 < k \<and> k \<le> n \<and> (b, me) \<in> waits_for e ^^ k)" by (cases "k = 0") auto
    qed
    also have "\<dots> \<longleftrightarrow> (\<exists>k. 0 < k \<and> k \<le> Suc n \<and> (w, me) \<in> waits_for e ^^ k)"
      unfolding step [symmetric] by (metis Suc_le_mono Suc_pred zero_less_Suc)
    finally show ?thesis .
  qed
qed simp

subsection \<open>The properties of the locks\<close>


text \<open>
  C29: \<open>lf_setlock\<close> without a conflicting lock of another owner succeeds, sets the type of
  exactly the requested bytes of the owner, whatever locks it held there, and keeps the
  owner's locks sorted and disjoint; with a conflict and no \<open>F_WAIT\<close> it changes nothing.
\<close>

theorem lf_setlock_spec:
  assumes "lf_ok (lf_list s)" "range_ok lock" "lf_type lock \<noteq> F_UNLCK"
  shows "if \<exists>x \<in> set (lf_list s). conflicts lock x
    then lf_flags lock AND F_WAIT = 0 \<longrightarrow> lf_setlock e new s lock = Lf_ret s (Some EAGAIN)
    else \<exists>s'. lf_setlock e new s lock = Lf_ret s' None \<and> lf_ok (lf_list s') \<and>
      (\<forall>owner b t. holds (lf_list s') owner b t \<longleftrightarrow>
        (if owner = lf_id lock \<and> covers lock b then t = lf_type lock else holds (lf_list s) owner b t))"
proof -
  have "request_ok lock" using assms(2,3) by (simp add: request_ok_def)
  with lf_setlock_free [OF assms(1) this, of e new] lf_setlock_blocked [OF assms(1) this, where e = e and new = new]
  show ?thesis unfolding granted_def by (metis (no_types, lifting))
qed

text \<open>
  C31: \<open>lf_clearlock\<close> returns, takes exactly the given bytes from the owner, and changes
  nothing else that anyone holds.
\<close>

theorem lf_clearlock_spec:
  assumes "lf_ok (lf_list s)" "range_ok unlock"
  shows "\<exists>s'. lf_clearlock new s unlock = Some s' \<and> lf_ok (lf_list s') \<and>
    (\<forall>owner b t. holds (lf_list s') owner b t \<longleftrightarrow>
       holds (lf_list s) owner b t \<and> \<not> (owner = lf_id unlock \<and> covers unlock b))"
  using lf_clearlock_cleared [OF assms, of new] by (simp add: cleared_def)

text \<open>
  \<open>F_GETLK\<close> reports \<open>F_UNLCK\<close> exactly when the lock could be set, and otherwise the type
  and range of a lock that is in the way.
\<close>

theorem lf_getlock_spec:
  assumes "lf_ok (lf_list s)" "range_ok lock"
  shows "\<exists>fl'. lf_getlock e s lock fl = (Lf_ret s None, fl') \<and>
    (if \<exists>x \<in> set (lf_list s). conflicts lock x
     then \<exists>x \<in> set (lf_list s). conflicts lock x \<and> l_type fl' = lf_type x \<and> l_start fl' = lf_start x \<and>
       (\<forall>b. covers x b \<longleftrightarrow> l_start fl' \<le> b \<and> (l_len fl' = 0 \<or> b < l_start fl' + l_len fl'))
     else l_type fl' = F_UNLCK)"
proof (rule lf_getblock_cases [OF assms])
  assume "lf_getblock s lock = Some None" "\<forall>x \<in> set (lf_list s). \<not> conflicts lock x"
  then show ?thesis by (simp add: lf_getlock_def)
next
  fix x assume x: "lf_getblock s lock = Some (Some x)" "x \<in> set (lf_list s)" "conflicts lock x"
  have "range_ok x" using assms(1) x(2) by (simp add: lf_ok_def)
  then have "covers x b \<longleftrightarrow> lf_start x \<le> b \<and>
      ((if lf_end x = -1 then 0 else lf_end x - lf_start x + 1) = 0 \<or>
       b < lf_start x + (if lf_end x = -1 then 0 else lf_end x - lf_start x + 1))" for b
    by (auto simp: covers_def range_ok_def)
  with x(2,3) have "\<exists>y \<in> set (lf_list s). conflicts lock y \<and> lf_type x = lf_type y \<and> lf_start x = lf_start y \<and>
      (\<forall>b. covers y b \<longleftrightarrow> lf_start x \<le> b \<and>
        ((if lf_end x = -1 then 0 else lf_end x - lf_start x + 1) = 0 \<or>
         b < lf_start x + (if lf_end x = -1 then 0 else lf_end x - lf_start x + 1)))"
    by (intro bexI [of _ x] conjI allI) simp_all
  moreover have "\<exists>x \<in> set (lf_list s). conflicts lock x" using x(2,3) by blast
  ultimately show ?thesis using x(1) by (simp add: lf_getlock_def del: if_not_P)
qed

text \<open>
  For byte-range locks of processes, \<open>lf_setlock\<close> fails with \<open>EDEADLK\<close> exactly when the
  owner of the blocking lock waits, through at most \<open>maxlockdepth\<close> others, for the caller.
\<close>

theorem lf_setlock_deadlock:
  assumes "lf_getblock s lock = Some (Some block)"
    and "lf_flags lock AND F_WAIT \<noteq> 0" "lf_flags lock AND F_POSIX \<noteq> 0" "lf_flags block AND F_POSIX \<noteq> 0"
  shows "lf_setlock e new s lock = Lf_ret s (Some EDEADLK) \<longleftrightarrow>
    (\<exists>k. 0 < k \<and> k \<le> le_maxdepth e \<and> (lf_id block, lf_id lock) \<in> waits_for e ^^ k)"
proof (cases "lf_deadlock e (le_maxdepth e) (lf_id lock) (lf_id block)")
  case True
  then show ?thesis using assms lf_deadlock_path [of e] by (simp add: lf_setlock_def)
next
  case False
  have "lf_setlock e new s lock \<noteq> Lf_ret s (Some EDEADLK)"
    using False assms(1,2) by (simp add: lf_setlock_def split: option.split)
  with False show ?thesis using lf_deadlock_path [of e] by simp
qed

subsection \<open>Concrete requests\<close>

definition quiet :: lf_env where
  "quiet = \<lparr>le_waits = (\<lambda>p. None), le_pid = int, le_maxdepth = 50\<rparr>"

definition posix_lock :: "nat \<Rightarrow> nat \<Rightarrow> lf_kind \<Rightarrow> int \<Rightarrow> int \<Rightarrow> lockf" where
  "posix_lock addr owner ty start fin =
     \<lparr>lf_addr = addr, lf_flags = 0x050, lf_type = ty, lf_start = start, lf_end = fin, lf_id = owner, lf_block = []\<rparr>"

definition one_lock :: "lockf \<Rightarrow> lf_state" where
  "one_lock l = \<lparr>lf_list = [l], lf_blocker = (\<lambda>a. None), lf_woken = []\<rparr>"

lemmas lf_eval = posix_lock_def one_lock_def quiet_def lf_setlock_def lf_setlock_wake_def lf_getblock_def
  lf_getblock_from.simps lf_compare_def lf_link.simps lf_link_inside_def lf_link_equal_def lf_absorb_def
  lf_addblock_def lf_wakelock_def lf_split_def downgrade_def upd_lock_def F_WAIT_def F_POSIX_def F_FLOCK_def
  lf_clear_loop.simps lf_clearlock_def lf_advlock_def lf_request_def s64_def

lemma one_lock_ok:
  "lf_ok (lf_list (one_lock (posix_lock 1 1 F_RDLCK 0 9)))"
  by (simp add: one_lock_def posix_lock_def lf_ok_Cons range_ok_def)

theorem lf_setlock_spec_witness:
  "\<exists>s'. lf_setlock quiet 9 (one_lock (posix_lock 1 1 F_RDLCK 0 9)) (posix_lock 2 1 F_WRLCK 3 5) = Lf_ret s' None \<and>
     holds (lf_list s') 1 4 F_WRLCK \<and> holds (lf_list s') 1 2 F_RDLCK \<and> \<not> holds (lf_list s') 1 4 F_RDLCK"
proof -
  let ?s = "one_lock (posix_lock 1 1 F_RDLCK 0 9)" and ?l = "posix_lock 2 1 F_WRLCK 3 5"
  have "range_ok ?l" "lf_type ?l \<noteq> F_UNLCK" by (simp_all add: posix_lock_def range_ok_def)
  moreover have "\<not> (\<exists>x \<in> set (lf_list ?s). conflicts ?l x)"
    by (simp add: one_lock_def posix_lock_def conflicts_def)
  ultimately obtain s' where "lf_setlock quiet 9 ?s ?l = Lf_ret s' None"
    and "\<forall>owner b t. holds (lf_list s') owner b t \<longleftrightarrow>
        (if owner = lf_id ?l \<and> covers ?l b then t = lf_type ?l else holds (lf_list ?s) owner b t)"
    using lf_setlock_spec [OF one_lock_ok, of ?l quiet 9] by auto
  then show ?thesis by (simp add: one_lock_def posix_lock_def covers_def)
qed

theorem lf_clearlock_spec_witness:
  "\<exists>s'. lf_clearlock 9 (one_lock (posix_lock 1 1 F_RDLCK 0 9)) (posix_lock 2 1 F_UNLCK 3 5) = Some s' \<and>
     holds (lf_list s') 1 2 F_RDLCK \<and> \<not> holds (lf_list s') 1 4 F_RDLCK"
proof -
  let ?s = "one_lock (posix_lock 1 1 F_RDLCK 0 9)" and ?l = "posix_lock 2 1 F_UNLCK 3 5"
  have "range_ok ?l" by (simp add: posix_lock_def range_ok_def)
  from lf_clearlock_spec [OF one_lock_ok this, of 9] show ?thesis
    by (auto simp: one_lock_def posix_lock_def covers_def)
qed

theorem lf_getlock_spec_witness:
  "\<exists>fl'. lf_getlock quiet (one_lock (posix_lock 1 1 F_RDLCK 0 9)) (posix_lock 2 7 F_WRLCK 3 5)
      \<lparr>l_start = 3, l_len = 3, l_pid = 0, l_type = F_WRLCK, l_whence = SEEK_SET\<rparr> =
        (Lf_ret (one_lock (posix_lock 1 1 F_RDLCK 0 9)) None, fl') \<and> l_type fl' = F_RDLCK \<and> l_start fl' = 0"
proof -
  let ?s = "one_lock (posix_lock 1 1 F_RDLCK 0 9)" and ?l = "posix_lock 2 7 F_WRLCK 3 5"
  have "range_ok ?l" by (simp add: posix_lock_def range_ok_def)
  moreover have "covers ?l 3 \<and> covers (posix_lock 1 1 F_RDLCK 0 9) 3" by (simp add: posix_lock_def covers_def)
  then have "\<exists>x \<in> set (lf_list ?s). conflicts ?l x"
    unfolding conflicts_def one_lock_def by (auto simp: posix_lock_def)
  ultimately show ?thesis
    using lf_getlock_spec [OF one_lock_ok, of ?l quiet
        "\<lparr>l_start = 3, l_len = 3, l_pid = 0, l_type = F_WRLCK, l_whence = SEEK_SET\<rparr>"]
    by (auto simp: one_lock_def posix_lock_def)
qed

theorem lf_setlock_deadlock_witness:
  "lf_setlock \<lparr>le_waits = (\<lambda>p. if p = 1 then Some (F_POSIX, 2) else None), le_pid = int, le_maxdepth = 50\<rparr> 9
     (one_lock (posix_lock 1 1 F_RDLCK 0 9)) (posix_lock 2 2 F_WRLCK 3 5) =
   Lf_ret (one_lock (posix_lock 1 1 F_RDLCK 0 9)) (Some EDEADLK)"
proof -
  let ?e = "\<lparr>le_waits = (\<lambda>p. if p = 1 then Some (F_POSIX, 2) else None), le_pid = int, le_maxdepth = 50\<rparr>"
  let ?s = "one_lock (posix_lock 1 1 F_RDLCK 0 9)" and ?l = "posix_lock 2 2 F_WRLCK 3 5"
  have "lf_getblock ?s ?l = Some (Some (posix_lock 1 1 F_RDLCK 0 9))"
    by (simp add: lf_eval)
  moreover have "(1, 2) \<in> waits_for ?e" by (simp add: waits_for_def F_POSIX_def)
  then have "(lf_id (posix_lock 1 1 F_RDLCK 0 9), lf_id ?l) \<in> waits_for ?e ^^ 1"
    by (simp add: posix_lock_def)
  then have "\<exists>k. 0 < k \<and> k \<le> le_maxdepth ?e \<and>
      (lf_id (posix_lock 1 1 F_RDLCK 0 9), lf_id ?l) \<in> waits_for ?e ^^ k"
    by (intro exI [of _ 1]) simp
  ultimately show ?thesis
    using lf_setlock_deadlock [of ?s ?l "posix_lock 1 1 F_RDLCK 0 9" ?e 9]
    by (simp add: posix_lock_def F_WAIT_def F_POSIX_def)
qed



text \<open>
  A negative length is not refused, and a lock that ends before it starts makes the
  owner hold overlapping locks: the list is no longer well formed.
\<close>

theorem lf_negative_length:
  "\<exists>s'. lf_advlock quiet 2 3 (one_lock (posix_lock 1 1 F_RDLCK 0 20)) 0 1 Op_SETLK
      \<lparr>l_start = 10, l_len = -5, l_pid = 0, l_type = F_WRLCK, l_whence = SEEK_SET\<rparr> 0x050 =
      (Lf_ret s' None, \<lparr>l_start = 10, l_len = -5, l_pid = 0, l_type = F_WRLCK, l_whence = SEEK_SET\<rparr>) \<and>
    \<not> lf_ok (lf_list s') \<and> map (\<lambda>l. (lf_start l, lf_end l)) (lf_list s') = [(0, 9), (10, 4), (5, 20)]"
  by (simp add: lf_eval lf_ok_Cons before_def)

text \<open>
  A process waits for a lock that its owner then extends; the wait is interrupted, and
  \<open>lf_setlock\<close> looks for its request in the queue of the lock that was freed.
\<close>

theorem lf_interrupted_wait_dangles:
  "\<exists>s1 s2. lf_setlock quiet 9 (one_lock (posix_lock 1 1 F_RDLCK 0 9)) (posix_lock 2 2 F_WRLCK 0 9) =
       Lf_sleeps s1 (posix_lock 2 2 F_WRLCK 0 9) \<and>
     lf_setlock quiet 9 s1 (posix_lock 3 1 F_RDLCK 0 20) = Lf_ret s2 None \<and>
     lf_setlock_wake quiet 9 s2 (posix_lock 2 2 F_WRLCK 0 9) (Some EINTR) = Lf_wild"
proof -
  let ?s1 = "\<lparr>lf_list = [(posix_lock 1 1 F_RDLCK 0 9)\<lparr>lf_block := [2]\<rparr>],
    lf_blocker = (\<lambda>a. None)(2 := Some 1), lf_woken = []\<rparr>"
  let ?s2 = "\<lparr>lf_list = [(posix_lock 3 1 F_RDLCK 0 20)\<lparr>lf_block := [2]\<rparr>],
    lf_blocker = (\<lambda>a. None)(2 := Some 1), lf_woken = []\<rparr>"
  have "lf_setlock quiet 9 (one_lock (posix_lock 1 1 F_RDLCK 0 9)) (posix_lock 2 2 F_WRLCK 0 9) =
      Lf_sleeps ?s1 (posix_lock 2 2 F_WRLCK 0 9)"
    by (simp add: lf_eval lf_deadlock_none)
  moreover have "lf_setlock quiet 9 ?s1 (posix_lock 3 1 F_RDLCK 0 20) = Lf_ret ?s2 None"
    by (simp add: lf_eval)
  moreover have "lf_setlock_wake quiet 9 ?s2 (posix_lock 2 2 F_WRLCK 0 9) (Some EINTR) = Lf_wild"
    by (simp add: lf_eval)
  ultimately show ?thesis by blast
qed

end
