(* ===== verification/Descrip.thy ===== *)
theory Descrip
  imports Lockf
begin

text \<open>
  File descriptors, \<^verbatim>\<open>sys/kern/kern_descrip.c\<close>: the table of open files with their reference
  counts, the descriptor tables of the processes with their hints \<open>fd_lastfile\<close> and
  \<open>fd_freefile\<close>, and the system calls on them; and \<open>sys_open\<close> of \<^verbatim>\<open>vfs_syscalls.c\<close>, the client that
  undoes a descriptor by hand.

  Pointers are names (numbers): \<open>k_files\<close> maps the name of an open file to the structure,
  \<open>k_fds\<close> that of a descriptor table, \<open>k_procs\<close> a process. Names that \<open>MALLOC\<close> returns are
  arguments. What the routines call outside the kernel's descriptor code (the operations
  of vnodes and sockets) is the environment, and each such call is recorded in
  \<open>k_events\<close>. An operation has the value \<open>None\<close> when it panics; the kernel has the
  \<open>DIAGNOSTIC\<close> test of \<open>fd_unused\<close>.

  The count \<open>f_count\<close> is a \<open>short\<close>: every increment and decrement wraps around at 16 bits (\<open>s16\<close>). References
  that messages hold (\<open>f_msgcount\<close>, \<^verbatim>\<open>uipc_usrreq.c\<close>) are not modelled.
\<close>

subsection \<open>Data\<close>

definition NDFILE :: nat where "NDFILE = 20"
definition NDEXTENT :: nat where "NDEXTENT = 50"

definition UF_EXCLOSE :: u8 where "UF_EXCLOSE = 0x01"
definition UF_MAPPED :: u8 where "UF_MAPPED = 0x02"

abbreviation (input) FREAD :: u16 where "FREAD \<equiv> 0x0001"
abbreviation (input) FWRITE :: u16 where "FWRITE \<equiv> 0x0002"
abbreviation (input) FNONBLOCK :: u16 where "FNONBLOCK \<equiv> 0x0004"
abbreviation (input) FAPPEND :: u16 where "FAPPEND \<equiv> 0x0008"
abbreviation (input) O_SHLOCK :: u16 where "O_SHLOCK \<equiv> 0x0010"
abbreviation (input) O_EXLOCK :: u16 where "O_EXLOCK \<equiv> 0x0020"
abbreviation (input) FASYNC :: u16 where "FASYNC \<equiv> 0x0040"
abbreviation (input) FFSYNC :: u16 where "FFSYNC \<equiv> 0x0080"
abbreviation (input) FHASLOCK :: u16 where "FHASLOCK \<equiv> 0x4000"

definition FFLAGS :: "int \<Rightarrow> int" where "FFLAGS oflags = oflags + 1"
definition OFLAGS :: "int \<Rightarrow> int" where "OFLAGS fflags = fflags - 1"

definition FCNTLFLAGS :: u16 where "FCNTLFLAGS = FAPPEND OR FASYNC OR FFSYNC OR FNONBLOCK"
definition FMASK :: u16 where
  "FMASK = FREAD OR FWRITE OR FAPPEND OR FASYNC OR FFSYNC OR FNONBLOCK"

datatype dtype = DTYPE_none | DTYPE_VNODE | DTYPE_SOCKET

record kfile =
  f_flag :: u16
  f_type :: dtype
  f_count :: int
  f_cred :: nat
  f_ops :: bool
  f_offset :: int
  f_data :: nat

record filedesc =
  fd_ofiles :: "nat option list"
  fd_ofileflags :: "u8 list"
  fd_cdir :: nat
  fd_rdir :: "nat option"
  fd_lastfile :: int
  fd_freefile :: int
  fd_refcnt :: int

abbreviation fd_nfiles :: "filedesc \<Rightarrow> nat" where
  "fd_nfiles fdp \<equiv> length (fd_ofiles fdp)"

record dproc =
  p_fd :: "nat option"
  p_rlim_nofile :: int
  p_advlock :: bool
  p_ucred :: nat
  p_dupfd :: int

datatype lock_id = Id_proc nat | Id_file nat

datatype ioctl_cmd = FIONBIO | FIOASYNC | TIOCGPGRP | TIOCSPGRP

datatype devent =
    Ev_advlock nat lock_id lf_op flock u16
  | Ev_close nat
  | Ev_munmap nat nat
  | Ev_ioctl nat ioctl_cmd int
  | Ev_vref nat
  | Ev_vrele nat
  | Ev_vn_close nat
  | Ev_tablefull

record dstate =
  k_files :: "nat \<Rightarrow> kfile option"
  k_filehead :: "nat list"
  k_nfiles :: int
  k_fds :: "nat \<Rightarrow> filedesc option"
  k_procs :: "nat \<Rightarrow> dproc"
  k_cr_ref :: "nat \<Rightarrow> int"
  k_pgid :: "nat \<Rightarrow> int"
  k_events :: "devent list"

text \<open>The kernel around the descriptors.\<close>

record denv =
  de_maxfiles :: int
  de_close :: "nat \<Rightarrow> kfile \<Rightarrow> errno option"
  de_ioctl :: "nat \<Rightarrow> ioctl_cmd \<Rightarrow> int \<Rightarrow> errno option \<times> int"
  de_advlock :: "nat \<Rightarrow> lock_id \<Rightarrow> lf_op \<Rightarrow> flock \<Rightarrow> u16 \<Rightarrow> errno option \<times> flock"
  de_stat :: "kfile \<Rightarrow> errno option"
  de_copyout :: "errno option"
  de_pathconf :: "nat \<Rightarrow> int \<Rightarrow> errno + int"
  de_pgrp :: "int \<Rightarrow> int option"

type_synonym 'a dres = "(dstate \<times> 'a) option"

text \<open>The test \<open>(u_int)i >= n\<close> for a bound \<open>n\<close> that fits an \<open>int\<close>.\<close>

definition u_ge :: "int \<Rightarrow> int \<Rightarrow> bool" where "u_ge i n \<longleftrightarrow> i < 0 \<or> n \<le> i"

definition event :: "devent \<Rightarrow> dstate \<Rightarrow> dstate" where
  "event ev s = s\<lparr>k_events := k_events s @ [ev]\<rparr>"

definition cur_fd :: "nat \<Rightarrow> dstate \<Rightarrow> nat" where
  "cur_fd pid s = the (p_fd (k_procs s pid))"

definition cur_fdp :: "nat \<Rightarrow> dstate \<Rightarrow> filedesc" where
  "cur_fdp pid s = the (k_fds s (cur_fd pid s))"

definition put_fdp :: "nat \<Rightarrow> filedesc \<Rightarrow> dstate \<Rightarrow> dstate" where
  "put_fdp d fdp s = s\<lparr>k_fds := (k_fds s)(d := Some fdp)\<rparr>"

definition upd_file :: "nat \<Rightarrow> (kfile \<Rightarrow> kfile) \<Rightarrow> dstate \<Rightarrow> dstate" where
  "upd_file fp f s = s\<lparr>k_files := (k_files s)(fp := map_option f (k_files s fp))\<rparr>"

definition upd_proc :: "nat \<Rightarrow> (dproc \<Rightarrow> dproc) \<Rightarrow> dstate \<Rightarrow> dstate" where
  "upd_proc pid f s = s\<lparr>k_procs := (k_procs s)(pid := f (k_procs s pid))\<rparr>"

text \<open>The open file behind descriptor \<open>fd\<close>, when there is one.\<close>

definition getfile :: "filedesc \<Rightarrow> int \<Rightarrow> nat option" where
  "getfile fdp fd = (if u_ge fd (int (fd_nfiles fdp)) then None else fd_ofiles fdp ! nat fd)"

subsection \<open>The hints of a descriptor table\<close>

definition fd_used :: "filedesc \<Rightarrow> nat \<Rightarrow> filedesc" where
  "fd_used fdp fd = (if int fd > fd_lastfile fdp then fdp\<lparr>fd_lastfile := int fd\<rparr> else fdp)"

text \<open>The loop of \<open>fd_unused\<close>: the last open descriptor below \<open>fd\<close>, or -1.\<close>

fun fd_prev :: "nat option list \<Rightarrow> nat \<Rightarrow> int" where
  "fd_prev ofs 0 = -1"
| "fd_prev ofs (Suc fd) = (if ofs ! fd = None then fd_prev ofs fd else int fd)"

definition fd_unused :: "filedesc \<Rightarrow> nat \<Rightarrow> filedesc option" where
  "fd_unused fdp fd =
     (let fdp1 = (if int fd < fd_freefile fdp then fdp\<lparr>fd_freefile := int fd\<rparr> else fdp) in
      if int fd > fd_lastfile fdp1 then None
      else if int fd = fd_lastfile fdp1 then Some (fdp1\<lparr>fd_lastfile := fd_prev (fd_ofiles fdp1) fd\<rparr>)
      else Some fdp1)"

subsection \<open>Allocation\<close>

text \<open>The new table, with the old one copied and the rest cleared.\<close>

definition fd_expand :: "filedesc \<Rightarrow> filedesc" where
  "fd_expand fdp =
     (let n = fd_nfiles fdp; nfiles = (if n < NDEXTENT then NDEXTENT else 2 * n)
      in fdp\<lparr>fd_ofiles := fd_ofiles fdp @ replicate (nfiles - n) None,
             fd_ofileflags := fd_ofileflags fdp @ replicate (nfiles - n) 0\<rparr>)"

lemma fd_expand_nfiles: "fd_nfiles fdp < fd_nfiles (fd_expand fdp)"
  by (simp add: fd_expand_def NDEXTENT_def Let_def del: length_greater_0_conv length_0_conv)

lemma fd_expand_measure:
  "\<not> lim \<le> int (fd_nfiles fdp) \<Longrightarrow>
     nat (lim - int (fd_nfiles (fd_expand fdp))) < nat (lim - int (fd_nfiles fdp))"
  using fd_expand_nfiles [of fdp] by linarith

text \<open>The \<open>for (;;)\<close> of \<open>fdalloc\<close>; \<open>lim\<close> is the limit on descriptors, which is not negative as \<open>maxfiles\<close> is not.\<close>

function fdalloc_loop :: "int \<Rightarrow> filedesc \<Rightarrow> nat \<Rightarrow> filedesc \<times> (errno + nat)" where
  "fdalloc_loop lim fdp want =
     (let stop = min (int (fd_nfiles fdp)) lim;
          start = nat (max (int want) (fd_freefile fdp))
      in case find (\<lambda>i. fd_ofiles fdp ! i = None) [start ..< nat stop] of
           Some i \<Rightarrow>
             let fdp' = fd_used fdp i in
             (if int want \<le> fd_freefile fdp' then fdp'\<lparr>fd_freefile := int i\<rparr> else fdp', Inr i)
         | None \<Rightarrow>
             if int (fd_nfiles fdp) \<ge> lim then (fdp, Inl EMFILE)
             else fdalloc_loop lim (fd_expand fdp) want)"
  by pat_completeness auto
termination
  by (relation "measure (\<lambda>(lim, fdp, want). nat (lim - int (fd_nfiles fdp)))")
    (use fd_expand_measure in auto)

declare fdalloc_loop.simps [simp del]

text \<open>The \<open>min\<close> of \<^verbatim>\<open>libkern.h\<close> compares unsigned numbers; the result is an \<open>int\<close> again.\<close>

definition fd_limit :: "denv \<Rightarrow> dproc \<Rightarrow> int" where
  "fd_limit e p = sint (min (word_of_int (p_rlim_nofile p)) (word_of_int (de_maxfiles e)) :: u32)"

definition fdalloc :: "denv \<Rightarrow> nat \<Rightarrow> nat \<Rightarrow> dstate \<Rightarrow> dstate \<times> (errno + nat)" where
  "fdalloc e pid want s =
     (let (fdp, r) = fdalloc_loop (fd_limit e (k_procs s pid)) (cur_fdp pid s) want
      in (put_fdp (cur_fd pid s) fdp s, r))"

text \<open>
  \<open>fdavail\<close>: room between the table and the limit first, then the free slots of the table
  from \<open>fd_freefile\<close> on, until \<open>n\<close> are found.
\<close>

fun fdavail_scan :: "nat option list \<Rightarrow> int \<Rightarrow> bool" where
  "fdavail_scan [] n = False"
| "fdavail_scan (fp # fps) n =
     (if fp = None then if n - 1 \<le> 0 then True else fdavail_scan fps (n - 1)
      else fdavail_scan fps n)"

definition fdavail :: "denv \<Rightarrow> nat \<Rightarrow> int \<Rightarrow> dstate \<Rightarrow> bool" where
  "fdavail e pid n s =
     (let fdp = cur_fdp pid s; i = fd_limit e (k_procs s pid) - int (fd_nfiles fdp) in
      if i > 0 \<and> n - i \<le> 0 then True
      else fdavail_scan (drop (nat (fd_freefile fdp)) (fd_ofiles fdp)) (if i > 0 then n - i else n))"

definition falloc :: "denv \<Rightarrow> nat \<Rightarrow> nat \<Rightarrow> dstate \<Rightarrow> dstate \<times> (errno + nat)" where
  "falloc e pid new s0 =
     (let (s, r) = fdalloc e pid 0 s0 in
      case r of
        Inl err \<Rightarrow> (s, Inl err)
      | Inr i \<Rightarrow>
          if k_nfiles s \<ge> de_maxfiles e then (event Ev_tablefull s, Inl ENFILE)
          else
            let fdp = cur_fdp pid s; cr = p_ucred (k_procs s pid);
                fp = \<lparr>f_flag = 0, f_type = DTYPE_none, f_count = 1, f_cred = cr, f_ops = False,
                      f_offset = 0, f_data = 0\<rparr>;
                fhead = (case fd_ofiles fdp ! 0 of
                           Some fq \<Rightarrow> takeWhile (\<lambda>x. x \<noteq> fq) (k_filehead s) @ fq # new
                             # tl (dropWhile (\<lambda>x. x \<noteq> fq) (k_filehead s))
                         | None \<Rightarrow> new # k_filehead s);
                s1 = s\<lparr>k_nfiles := k_nfiles s + 1, k_files := (k_files s)(new := Some fp),
                       k_filehead := fhead, k_cr_ref := (k_cr_ref s)(cr := k_cr_ref s cr + 1)\<rparr>
            in (put_fdp (cur_fd pid s) (fdp\<lparr>fd_ofiles := (fd_ofiles fdp)[i := Some new]\<rparr>) s1, Inr i))"

definition ffree :: "nat \<Rightarrow> dstate \<Rightarrow> dstate" where
  "ffree fp s =
     (let cr = f_cred (the (k_files s fp))
      in s\<lparr>k_filehead := remove1 fp (k_filehead s), k_cr_ref := (k_cr_ref s)(cr := k_cr_ref s cr - 1),
           k_nfiles := k_nfiles s - 1, k_files := (k_files s)(fp := None)\<rparr>)"

subsection \<open>Closing\<close>

text \<open>The whole file, from its start: what \<open>closef\<close> and \<open>flock\<close> lock and unlock.\<close>

definition whole_file :: "lf_kind \<Rightarrow> flock" where
  "whole_file t = \<lparr>l_start = 0, l_len = 0, l_pid = 0, l_type = t, l_whence = SEEK_SET\<rparr>"

definition closef :: "denv \<Rightarrow> nat option \<Rightarrow> nat option \<Rightarrow> dstate \<Rightarrow> errno option dres" where
  "closef e p fpo s =
     (case fpo of
        None \<Rightarrow> Some (s, None)
      | Some fp \<Rightarrow>
          let f = the (k_files s fp);
              s1 = (case p of
                      None \<Rightarrow> s
                    | Some pid \<Rightarrow>
                        if p_advlock (k_procs s pid) \<and> f_type f = DTYPE_VNODE
                        then event (Ev_advlock (f_data f) (Id_proc pid) Op_UNLCK (whole_file F_UNLCK) F_POSIX) s
                        else s);
              n = s16 (f_count f - 1);
              s2 = upd_file fp (\<lambda>f. f\<lparr>f_count := n\<rparr>) s1
          in if n > 0 then Some (s2, None)
             else if n < 0 then None
             else
               let s3 = (if f_flag f AND FHASLOCK \<noteq> 0 \<and> f_type f = DTYPE_VNODE
                         then event (Ev_advlock (f_data f) (Id_file fp) Op_UNLCK (whole_file F_UNLCK) F_FLOCK) s2
                         else s2);
                   (s4, error) = (if f_ops f then (event (Ev_close fp) s3, de_close e fp f) else (s3, None))
               in Some (ffree fp s4, error))"

definition errno_result :: "errno option \<Rightarrow> errno + int" where
  "errno_result r = (case r of None \<Rightarrow> Inr 0 | Some err \<Rightarrow> Inl err)"

definition fdrelease :: "denv \<Rightarrow> nat \<Rightarrow> nat \<Rightarrow> dstate \<Rightarrow> (errno + int) dres" where
  "fdrelease e pid fd s =
     (let fdp = cur_fdp pid s; d = cur_fd pid s in
      case fd_ofiles fdp ! fd of
        None \<Rightarrow> Some (s, Inl EBADF)
      | Some fp \<Rightarrow>
          let s1 = (if fd_ofileflags fdp ! fd AND UF_MAPPED \<noteq> 0 then event (Ev_munmap pid fd) s else s) in
          (case fd_unused (fdp\<lparr>fd_ofiles := (fd_ofiles fdp)[fd := None],
                              fd_ofileflags := (fd_ofileflags fdp)[fd := 0]\<rparr>) fd of
             None \<Rightarrow> None
           | Some fdp' \<Rightarrow>
               map_option (\<lambda>(s', error). (s', errno_result error))
                 (closef e (Some pid) (Some fp) (put_fdp d fdp' s1))))"

definition sys_close :: "denv \<Rightarrow> nat \<Rightarrow> int \<Rightarrow> dstate \<Rightarrow> (errno + int) dres" where
  "sys_close e pid fd s =
     (if u_ge fd (int (fd_nfiles (cur_fdp pid s))) then Some (s, Inl EBADF)
      else fdrelease e pid (nat fd) s)"

text \<open>
  \<open>fdcloseexec\<close>: the loop runs while \<open>fd\<close> is at most \<open>fd_lastfile\<close>, which only decreases and
  is below the size of the table.
\<close>

fun fdcloseexec_loop :: "denv \<Rightarrow> nat \<Rightarrow> nat list \<Rightarrow> dstate \<Rightarrow> dstate option" where
  "fdcloseexec_loop e pid [] s = Some s"
| "fdcloseexec_loop e pid (fd # fds) s =
     (if int fd > fd_lastfile (cur_fdp pid s) then Some s
      else if fd_ofileflags (cur_fdp pid s) ! fd AND UF_EXCLOSE \<noteq> 0 then
        (case fdrelease e pid fd s of
           None \<Rightarrow> None | Some (s', r) \<Rightarrow> fdcloseexec_loop e pid fds s')
      else fdcloseexec_loop e pid fds s)"

definition fdcloseexec :: "denv \<Rightarrow> nat \<Rightarrow> dstate \<Rightarrow> dstate option" where
  "fdcloseexec e pid s = fdcloseexec_loop e pid [0 ..< fd_nfiles (cur_fdp pid s)] s"

subsection \<open>Duplicating\<close>

definition finishdup :: "nat \<Rightarrow> nat \<Rightarrow> nat \<Rightarrow> dstate \<Rightarrow> dstate \<times> (errno + int)" where
  "finishdup d old new s =
     (let fdp = the (k_fds s d); fp = the (fd_ofiles fdp ! old);
          fdp1 = fdp\<lparr>fd_ofiles := (fd_ofiles fdp)[new := Some fp],
                     fd_ofileflags := (fd_ofileflags fdp)
                       [new := fd_ofileflags fdp ! old AND NOT UF_EXCLOSE]\<rparr>
      in (put_fdp d (fd_used fdp1 new) (upd_file fp (\<lambda>f. f\<lparr>f_count := s16 (f_count f + 1)\<rparr>) s), Inr (int new)))"

definition sys_dup :: "denv \<Rightarrow> nat \<Rightarrow> int \<Rightarrow> dstate \<Rightarrow> (errno + int) dres" where
  "sys_dup e pid old s =
     (if getfile (cur_fdp pid s) old = None then Some (s, Inl EBADF)
      else
        (case fdalloc e pid 0 s of
           (s', Inl err) \<Rightarrow> Some (s', Inl err)
         | (s', Inr new) \<Rightarrow> Some (finishdup (cur_fd pid s) (nat old) new s')))"

definition sys_dup2 :: "denv \<Rightarrow> nat \<Rightarrow> int \<Rightarrow> int \<Rightarrow> dstate \<Rightarrow> (errno + int) dres" where
  "sys_dup2 e pid old new s =
     (let fdp = cur_fdp pid s; d = cur_fd pid s in
      if getfile fdp old = None \<or> u_ge new (p_rlim_nofile (k_procs s pid)) \<or> u_ge new (de_maxfiles e)
      then Some (s, Inl EBADF)
      else if old = new then Some (s, Inr new)
      else if new \<ge> int (fd_nfiles fdp) then
        (case fdalloc e pid (nat new) s of
           (s', Inl err) \<Rightarrow> Some (s', Inl err)
         | (s', Inr i) \<Rightarrow> if nat new \<noteq> i then None else Some (finishdup d (nat old) (nat new) s'))
      else
        (case fdrelease e pid (nat new) s of
           None \<Rightarrow> None
         | Some (s', r) \<Rightarrow> Some (finishdup d (nat old) (nat new) s')))"

text \<open>
  \<open>dupfdopen\<close> of descriptor \<open>dfd\<close> to \<open>indx\<close>, for the error that opening \<open>/dev/fd/N\<close>
  returned.
\<close>

definition dupfdopen :: "nat \<Rightarrow> nat \<Rightarrow> int \<Rightarrow> int \<Rightarrow> errno \<Rightarrow> dstate \<Rightarrow> errno option dres" where
  "dupfdopen d indx dfd mode error s =
     (let fdp = the (k_fds s d); fp = fd_ofiles fdp ! indx in
      case getfile fdp dfd of
        None \<Rightarrow> Some (s, Some EBADF)
      | Some wfile \<Rightarrow>
          if fp = Some wfile then Some (s, Some EBADF)
          else if error = ENODEV then
            if ((word_of_int mode AND (FREAD OR FWRITE)) OR f_flag (the (k_files s wfile)))
                 \<noteq> f_flag (the (k_files s wfile))
            then Some (s, Some EACCES)
            else
              let fdp1 = fdp\<lparr>fd_ofiles := (fd_ofiles fdp)[indx := Some wfile],
                             fd_ofileflags := (fd_ofileflags fdp)[indx := fd_ofileflags fdp ! nat dfd]\<rparr>
              in Some (put_fdp d (fd_used fdp1 indx) (upd_file wfile (\<lambda>f. f\<lparr>f_count := s16 (f_count f + 1)\<rparr>) s), None)
          else if error = ENXIO then
            let fdp1 = fdp\<lparr>fd_ofiles := (fd_ofiles fdp)[indx := Some wfile, nat dfd := None],
                           fd_ofileflags := (fd_ofileflags fdp)
                             [indx := fd_ofileflags fdp ! nat dfd, nat dfd := 0]\<rparr>
            in (case fd_unused (fd_used fdp1 indx) (nat dfd) of
                  None \<Rightarrow> None | Some fdp2 \<Rightarrow> Some (put_fdp d fdp2 s, None))
          else Some (s, Some error))"

definition filedescopen :: "nat \<Rightarrow> int \<Rightarrow> dstate \<Rightarrow> dstate \<times> errno option" where
  "filedescopen pid minor s = (upd_proc pid (\<lambda>p. p\<lparr>p_dupfd := minor\<rparr>) s, Some ENODEV)"

subsection \<open>Copying and freeing tables\<close>

text \<open>The size of the copied table, for one that does not fit the internal arrays.\<close>

function fd_shrink :: "nat \<Rightarrow> int \<Rightarrow> nat" where
  "fd_shrink i lastf = (if i \<ge> 2 * NDEXTENT \<and> int i > lastf * 2 then fd_shrink (i div 2) lastf else i)"
  by pat_completeness auto
termination
  by (relation "measure fst") (auto simp: NDEXTENT_def)

declare fd_shrink.simps [simp del]

fun hold_files :: "nat option list \<Rightarrow> dstate \<Rightarrow> dstate" where
  "hold_files [] s = s"
| "hold_files (None # fps) s = hold_files fps s"
| "hold_files (Some fp # fps) s = hold_files fps (upd_file fp (\<lambda>f. f\<lparr>f_count := s16 (f_count f + 1)\<rparr>) s)"

definition vref_dirs :: "(nat \<Rightarrow> devent) \<Rightarrow> filedesc \<Rightarrow> dstate \<Rightarrow> dstate" where
  "vref_dirs ev fdp s =
     (let s1 = event (ev (fd_cdir fdp)) s
      in case fd_rdir fdp of None \<Rightarrow> s1 | Some v \<Rightarrow> event (ev v) s1)"

definition fdcopy :: "nat \<Rightarrow> nat \<Rightarrow> dstate \<Rightarrow> dstate" where
  "fdcopy pid new s =
     (let fdp = cur_fdp pid s;
          i = (if fd_lastfile fdp < int NDFILE then NDFILE else fd_shrink (fd_nfiles fdp) (fd_lastfile fdp));
          newfdp = fdp\<lparr>fd_refcnt := 1, fd_ofiles := take i (fd_ofiles fdp),
                       fd_ofileflags := take i (fd_ofileflags fdp)\<rparr>
      in hold_files (take (nat (fd_lastfile newfdp + 1)) (fd_ofiles newfdp))
           (put_fdp new newfdp (vref_dirs Ev_vref newfdp s)))"

fun fdfree_loop :: "denv \<Rightarrow> nat \<Rightarrow> nat \<Rightarrow> nat list \<Rightarrow> dstate \<Rightarrow> dstate option" where
  "fdfree_loop e pid d [] s = Some s"
| "fdfree_loop e pid d (i # is) s =
     (let fdp = the (k_fds s d) in
      case fd_ofiles fdp ! i of
        None \<Rightarrow> fdfree_loop e pid d is s
      | Some fp \<Rightarrow>
          (case closef e (Some pid) (Some fp)
                  (put_fdp d (fdp\<lparr>fd_ofiles := (fd_ofiles fdp)[i := None]\<rparr>) s) of
             None \<Rightarrow> None | Some (s', error) \<Rightarrow> fdfree_loop e pid d is s'))"

definition fdfree :: "denv \<Rightarrow> nat \<Rightarrow> dstate \<Rightarrow> dstate option" where
  "fdfree e pid s =
     (let d = cur_fd pid s; fdp = (cur_fdp pid s)\<lparr>fd_refcnt := fd_refcnt (cur_fdp pid s) - 1\<rparr>;
          s1 = put_fdp d fdp s
      in if fd_refcnt fdp > 0 then Some s1
         else
           (case fdfree_loop e pid d [0 ..< nat (fd_lastfile fdp + 1)] s1 of
              None \<Rightarrow> None
            | Some s2 \<Rightarrow>
                let s3 = upd_proc pid (\<lambda>p. p\<lparr>p_fd := None\<rparr>) s2
                in Some ((vref_dirs Ev_vrele fdp s3)\<lparr>k_fds := (k_fds s3)(d := None)\<rparr>)))"

subsection \<open>The file control system call\<close>

text \<open>
  What \<open>copyin\<close> gives for a \<open>struct flock\<close>: the structure, with \<open>None\<close> for a type that is none of
  the three, or an error.
\<close>

type_synonym user_flock = "errno + (flock \<times> lf_kind option)"

datatype fcntl_cmd =
    F_DUPFD int | F_GETFD | F_SETFD int | F_GETFL | F_SETFL int | F_GETOWN | F_SETOWN int
  | F_GETLK user_flock | F_SETLK user_flock | F_SETLKW user_flock | F_other

text \<open>\<open>fo_ioctl\<close> on an open file.\<close>

definition fo_ioctl :: "denv \<Rightarrow> nat \<Rightarrow> ioctl_cmd \<Rightarrow> int \<Rightarrow> dstate \<Rightarrow> dstate \<times> errno option \<times> int" where
  "fo_ioctl e fp cmd v s = (event (Ev_ioctl fp cmd v) s, de_ioctl e fp cmd v)"

definition vop_advlock ::
  "denv \<Rightarrow> nat \<Rightarrow> lock_id \<Rightarrow> lf_op \<Rightarrow> flock \<Rightarrow> u16 \<Rightarrow> dstate \<Rightarrow> dstate \<times> errno option \<times> flock" where
  "vop_advlock e vp i op fl flags s = (event (Ev_advlock vp i op fl flags) s, de_advlock e vp i op fl flags)"

definition fcntl_setfl :: "denv \<Rightarrow> nat \<Rightarrow> int \<Rightarrow> dstate \<Rightarrow> dstate \<times> (errno + int)" where
  "fcntl_setfl e fp arg s =
     (let s1 = upd_file fp (\<lambda>f. f\<lparr>f_flag := (f_flag f AND NOT FCNTLFLAGS)
                   OR (word_of_int (FFLAGS arg) AND FCNTLFLAGS)\<rparr>) s;
          fl = f_flag (the (k_files s1 fp));
          (s2, err, _) = fo_ioctl e fp FIONBIO (uint (fl AND FNONBLOCK)) s1 in
      case err of
        Some er \<Rightarrow> (s2, Inl er)
      | None \<Rightarrow>
          let (s3, err, _) = fo_ioctl e fp FIOASYNC (uint (fl AND FASYNC)) s2 in
          (case err of
             None \<Rightarrow> (s3, Inr 0)
           | Some er \<Rightarrow>
               let s4 = upd_file fp (\<lambda>f. f\<lparr>f_flag := f_flag f AND NOT FNONBLOCK\<rparr>) s3
               in (fst (fo_ioctl e fp FIONBIO 0 s4), Inl er)))"

text \<open>\<open>F_GETOWN\<close>: the error, with \<open>*retval\<close> set all the same, is an error here.\<close>

definition fcntl_getown :: "denv \<Rightarrow> nat \<Rightarrow> dstate \<Rightarrow> dstate \<times> (errno + int)" where
  "fcntl_getown e fp s =
     (let f = the (k_files s fp) in
      if f_type f = DTYPE_SOCKET then (s, Inr (k_pgid s (f_data f)))
      else
        let (s1, err, v) = fo_ioctl e fp TIOCGPGRP 0 s
        in (s1, case err of None \<Rightarrow> Inr (- v) | Some er \<Rightarrow> Inl er))"

definition fcntl_setown :: "denv \<Rightarrow> nat \<Rightarrow> int \<Rightarrow> dstate \<Rightarrow> dstate \<times> (errno + int)" where
  "fcntl_setown e fp arg s =
     (let f = the (k_files s fp);
          tell = (\<lambda>v. let (s1, err, _) = fo_ioctl e fp TIOCSPGRP v s in (s1, errno_result err)) in
      if f_type f = DTYPE_SOCKET then (s\<lparr>k_pgid := (k_pgid s)(f_data f := arg)\<rparr>, Inr 0)
      else if arg \<le> 0 then tell (- arg)
      else (case de_pgrp e arg of None \<Rightarrow> (s, Inl ESRCH) | Some pg \<Rightarrow> tell pg))"

definition fcntl_setlk :: "denv \<Rightarrow> nat \<Rightarrow> nat \<Rightarrow> u16 \<Rightarrow> user_flock \<Rightarrow> dstate \<Rightarrow> dstate \<times> (errno + int)" where
  "fcntl_setlk e pid fp flg arg s =
     (let f = the (k_files s fp) in
      if f_type f \<noteq> DTYPE_VNODE then (s, Inl EBADF)
      else
        (case arg of
           Inl err \<Rightarrow> (s, Inl err)
         | Inr (fl0, ty) \<Rightarrow>
             let fl = (if l_whence fl0 = SEEK_CUR then fl0\<lparr>l_start := s64 (l_start fl0 + f_offset f)\<rparr> else fl0);
                 set_lock = (\<lambda>t need. if f_flag f AND need = 0 then (s, Inl EBADF)
                   else
                     let s1 = upd_proc pid (\<lambda>p. p\<lparr>p_advlock := True\<rparr>) s;
                         (s2, err, _) = vop_advlock e (f_data f) (Id_proc pid) Op_SETLK (fl\<lparr>l_type := t\<rparr>) flg s1
                     in (s2, errno_result err))
             in (case ty of
                   Some F_RDLCK \<Rightarrow> set_lock F_RDLCK FREAD
                 | Some F_WRLCK \<Rightarrow> set_lock F_WRLCK FWRITE
                 | Some F_UNLCK \<Rightarrow>
                     let (s2, err, _) = vop_advlock e (f_data f) (Id_proc pid) Op_UNLCK
                           (fl\<lparr>l_type := F_UNLCK\<rparr>) F_POSIX s
                     in (s2, errno_result err)
                 | None \<Rightarrow> (s, Inl EINVAL))))"

text \<open>\<open>F_GETLK\<close> also yields the structure that is copied out.\<close>

definition fcntl_getlk ::
  "denv \<Rightarrow> nat \<Rightarrow> nat \<Rightarrow> user_flock \<Rightarrow> dstate \<Rightarrow> dstate \<times> (errno + int) \<times> flock option" where
  "fcntl_getlk e pid fp arg s =
     (let f = the (k_files s fp) in
      if f_type f \<noteq> DTYPE_VNODE then (s, Inl EBADF, None)
      else
        (case arg of
           Inl err \<Rightarrow> (s, Inl err, None)
         | Inr (fl0, None) \<Rightarrow> (s, Inl EINVAL, None)
         | Inr (fl0, Some t) \<Rightarrow>
             let fl = (if l_whence fl0 = SEEK_CUR then fl0\<lparr>l_start := s64 (l_start fl0 + f_offset f)\<rparr> else fl0);
                 (s1, err, fl') = vop_advlock e (f_data f) (Id_proc pid) Op_GETLK (fl\<lparr>l_type := t\<rparr>) F_POSIX s
             in (case err of
                   Some er \<Rightarrow> (s1, Inl er, None)
                 | None \<Rightarrow> (s1, errno_result (de_copyout e), Some fl'))))"

definition sys_fcntl :: "denv \<Rightarrow> nat \<Rightarrow> int \<Rightarrow> fcntl_cmd \<Rightarrow> dstate \<Rightarrow> dstate \<times> (errno + int)" where
  "sys_fcntl e pid fd cmd s =
     (let fdp = cur_fdp pid s; d = cur_fd pid s in
      case getfile fdp fd of
        None \<Rightarrow> (s, Inl EBADF)
      | Some fp \<Rightarrow>
          (case cmd of
             F_DUPFD newmin \<Rightarrow>
               if u_ge newmin (p_rlim_nofile (k_procs s pid)) \<or> u_ge newmin (de_maxfiles e) then (s, Inl EINVAL)
               else
                 (case fdalloc e pid (nat newmin) s of
                    (s', Inl err) \<Rightarrow> (s', Inl err)
                  | (s', Inr i) \<Rightarrow> finishdup d (nat fd) i s')
           | F_GETFD \<Rightarrow> (s, Inr (if fd_ofileflags fdp ! nat fd AND UF_EXCLOSE \<noteq> 0 then 1 else 0))
           | F_SETFD arg \<Rightarrow>
               let fl = fd_ofileflags fdp ! nat fd;
                   fl' = (if odd arg then fl OR UF_EXCLOSE else fl AND NOT UF_EXCLOSE)
               in (put_fdp d (fdp\<lparr>fd_ofileflags := (fd_ofileflags fdp)[nat fd := fl']\<rparr>) s, Inr 0)
           | F_GETFL \<Rightarrow> (s, Inr (OFLAGS (sint (f_flag (the (k_files s fp))))))
           | F_SETFL arg \<Rightarrow> fcntl_setfl e fp arg s
           | F_GETOWN \<Rightarrow> fcntl_getown e fp s
           | F_SETOWN arg \<Rightarrow> fcntl_setown e fp arg s
           | F_SETLKW arg \<Rightarrow> fcntl_setlk e pid fp (F_POSIX OR F_WAIT) arg s
           | F_SETLK arg \<Rightarrow> fcntl_setlk e pid fp F_POSIX arg s
           | F_GETLK arg \<Rightarrow> (case fcntl_getlk e pid fp arg s of (s', r, _) \<Rightarrow> (s', r))
           | F_other \<Rightarrow> (s, Inl EINVAL)))"

subsection \<open>Other calls on a descriptor\<close>

definition LOCK_SH :: u32 where "LOCK_SH = 0x01"
definition LOCK_EX :: u32 where "LOCK_EX = 0x02"
definition LOCK_NB :: u32 where "LOCK_NB = 0x04"
definition LOCK_UN :: u32 where "LOCK_UN = 0x08"

definition sys_flock :: "denv \<Rightarrow> nat \<Rightarrow> int \<Rightarrow> u32 \<Rightarrow> dstate \<Rightarrow> dstate \<times> (errno + int)" where
  "sys_flock e pid fd how s =
     (case getfile (cur_fdp pid s) fd of
        None \<Rightarrow> (s, Inl EBADF)
      | Some fp \<Rightarrow>
          let f = the (k_files s fp);
              lock = (\<lambda>op t flags s. let (s', err, _) = vop_advlock e (f_data f) (Id_file fp) op (whole_file t) flags s
                                in (s', errno_result err)) in
          if f_type f \<noteq> DTYPE_VNODE then (s, Inl EOPNOTSUPP)
          else if how AND LOCK_UN \<noteq> 0 then
            lock Op_UNLCK F_UNLCK F_FLOCK (upd_file fp (\<lambda>f. f\<lparr>f_flag := f_flag f AND NOT FHASLOCK\<rparr>) s)
          else if how AND LOCK_EX = 0 \<and> how AND LOCK_SH = 0 then (s, Inl EINVAL)
          else
            lock Op_SETLK (if how AND LOCK_EX \<noteq> 0 then F_WRLCK else F_RDLCK)
              (if how AND LOCK_NB \<noteq> 0 then F_FLOCK else F_FLOCK OR F_WAIT)
              (upd_file fp (\<lambda>f. f\<lparr>f_flag := f_flag f OR FHASLOCK\<rparr>) s))"

definition sys_fstat :: "denv \<Rightarrow> nat \<Rightarrow> int \<Rightarrow> dstate \<Rightarrow> (errno + int) dres" where
  "sys_fstat e pid fd s =
     (case getfile (cur_fdp pid s) fd of
        None \<Rightarrow> Some (s, Inl EBADF)
      | Some fp \<Rightarrow>
          let f = the (k_files s fp) in
          if f_type f = DTYPE_none then None
          else Some (s, case de_stat e f of None \<Rightarrow> errno_result (de_copyout e) | Some er \<Rightarrow> Inl er))"

definition PC_PIPE_BUF :: int where "PC_PIPE_BUF = 6"
definition PIPE_BUF :: int where "PIPE_BUF = 512"

definition sys_fpathconf :: "denv \<Rightarrow> nat \<Rightarrow> int \<Rightarrow> int \<Rightarrow> dstate \<Rightarrow> (errno + int) dres" where
  "sys_fpathconf e pid fd name s =
     (case getfile (cur_fdp pid s) fd of
        None \<Rightarrow> Some (s, Inl EBADF)
      | Some fp \<Rightarrow>
          let f = the (k_files s fp) in
          (case f_type f of
             DTYPE_SOCKET \<Rightarrow> Some (s, if name \<noteq> PC_PIPE_BUF then Inl EINVAL else Inr PIPE_BUF)
           | DTYPE_VNODE \<Rightarrow> Some (s, de_pathconf e (f_data f) name)
           | DTYPE_none \<Rightarrow> None))"

subsection \<open>Opening\<close>

text \<open>What \<open>vn_open\<close> does: fail, with \<open>p_dupfd\<close> as \<open>filedescopen\<close> may have set it, or give a vnode.\<close>

datatype vn_open = Vn_error errno int | Vn_ok nat

definition sys_open :: "denv \<Rightarrow> nat \<Rightarrow> nat \<Rightarrow> int \<Rightarrow> (int \<Rightarrow> vn_open) \<Rightarrow> dstate \<Rightarrow> (errno + int) dres" where
  "sys_open e pid new oflags vnopen s0 =
     (let flags = FFLAGS oflags; w = (word_of_int flags :: u16) in
      if w AND (FREAD OR FWRITE) = 0 then Some (s0, Inl EINVAL)
      else
        (case falloc e pid new s0 of
           (s1, Inl err) \<Rightarrow> Some (s1, Inl err)
         | (s1, Inr indx) \<Rightarrow>
             let d = cur_fd pid s1; dup0 = - int indx - 1;
                 clear = (\<lambda>s. put_fdp d ((the (k_fds s d))\<lparr>fd_ofiles := (fd_ofiles (the (k_fds s d)))[indx := None]\<rparr>) s)
             in (case vnopen dup0 of
                   Vn_error er dupfd \<Rightarrow>
                     let s2 = ffree new (upd_proc pid (\<lambda>p. p\<lparr>p_dupfd := dupfd\<rparr>) s1);
                         fail = (\<lambda>er s. Some (clear s, Inl (if er = ERESTART then EINTR else er)))
                     in if (er = ENODEV \<or> er = ENXIO) \<and> dupfd \<ge> 0 then
                          (case dupfdopen d indx dupfd flags er s2 of
                             None \<Rightarrow> None
                           | Some (s3, None) \<Rightarrow> Some (s3, Inr (int indx))
                           | Some (s3, Some er') \<Rightarrow> fail er' s3)
                        else fail er s2
                 | Vn_ok vp \<Rightarrow>
                     let s2 = upd_file new (\<lambda>f. f\<lparr>f_flag := w AND FMASK, f_type := DTYPE_VNODE, f_ops := True,
                                 f_data := vp\<rparr>) (upd_proc pid (\<lambda>p. p\<lparr>p_dupfd := 0\<rparr>) s1)
                     in if w AND (O_EXLOCK OR O_SHLOCK) = 0 then Some (s2, Inr (int indx))
                        else
                          let (s3, err, _) = vop_advlock e vp (Id_file new) Op_SETLK
                                (whole_file (if w AND O_EXLOCK \<noteq> 0 then F_WRLCK else F_RDLCK))
                                (if w AND FNONBLOCK = 0 then F_FLOCK OR F_WAIT else F_FLOCK) s2
                          in (case err of
                                Some er \<Rightarrow> Some (clear (ffree new (event (Ev_vn_close vp) s3)), Inl er)
                              | None \<Rightarrow>
                                  Some (upd_file new (\<lambda>f. f\<lparr>f_flag := f_flag f OR FHASLOCK\<rparr>) s3, Inr (int indx))))))"

end
