(* ===== verification/Descrip_Correct.thy ===== *)
theory Descrip_Correct
  imports Descrip
begin

text \<open>
  Descriptors are correct: the hints of a table never hide a free or an open descriptor
  (\<open>fd_ok\<close>), \<open>fdalloc\<close> gives the lowest free descriptor, and the count of every open file is
  the number of descriptors that refer to it (\<open>bal\<close>, with the references a routine holds
  in its local variables as an argument). In the relation \<open>desc_step\<close> any process makes any of the calls of
  \<open>dcall\<close>, as long as no file has more than 32,767 references; no reachable state panics or loses a file.
\<close>

subsection \<open>Well-formed descriptor tables\<close>

definition table_size :: "nat \<Rightarrow> bool" where
  "table_size n \<longleftrightarrow> n = NDFILE \<or> (\<exists>k. n = NDEXTENT * 2 ^ k)"

text \<open>
  No descriptor above \<open>fd_lastfile\<close> is open and none below \<open>fd_freefile\<close> is free. The slot
  \<open>fd_lastfile\<close> itself may be free: an allocation can fail after it has raised the mark.
\<close>

definition fd_ok :: "filedesc \<Rightarrow> bool" where
  "fd_ok fdp \<longleftrightarrow> table_size (fd_nfiles fdp) \<and> length (fd_ofileflags fdp) = fd_nfiles fdp \<and>
     -1 \<le> fd_lastfile fdp \<and> fd_lastfile fdp < int (fd_nfiles fdp) \<and>
     (\<forall>i < fd_nfiles fdp. fd_lastfile fdp < int i \<longrightarrow> fd_ofiles fdp ! i = None) \<and>
     0 \<le> fd_freefile fdp \<and> fd_freefile fdp \<le> int (fd_nfiles fdp) \<and>
     (\<forall>i. int i < fd_freefile fdp \<longrightarrow> fd_ofiles fdp ! i \<noteq> None)"

lemma table_size_pos: "table_size n \<Longrightarrow> 20 \<le> n"
proof -
  have "20 \<le> NDEXTENT * 2 ^ k" for k
  proof -
    have "(1 :: nat) \<le> 2 ^ k" by simp
    then have "(50 :: nat) * 1 \<le> 50 * 2 ^ k" by (rule mult_le_mono2)
    then show ?thesis unfolding NDEXTENT_def by linarith
  qed
  then show "table_size n \<Longrightarrow> 20 \<le> n" by (auto simp: table_size_def NDFILE_def)
qed

lemma fd_ok_nfiles: "fd_ok fdp \<Longrightarrow> 20 \<le> fd_nfiles fdp"
  using table_size_pos by (auto simp: fd_ok_def)

lemma table_size_expand:
  assumes "table_size n"
  shows "table_size (if n < NDEXTENT then NDEXTENT else 2 * n)"
proof -
  consider "n = NDFILE" | k where "n = NDEXTENT * 2 ^ k" using assms by (auto simp: table_size_def)
  then show ?thesis
  proof cases
    case 1
    have "NDEXTENT = NDEXTENT * 2 ^ 0" by simp
    then show ?thesis unfolding table_size_def using 1 by (auto simp: NDFILE_def NDEXTENT_def)
  next
    case 2
    then have "\<not> n < NDEXTENT" by simp
    moreover have "2 * n = NDEXTENT * 2 ^ Suc k" using 2 by simp
    ultimately show ?thesis unfolding table_size_def by metis
  qed
qed

lemma fd_used_simps [simp]:
  "fd_ofiles (fd_used fdp i) = fd_ofiles fdp" "fd_ofileflags (fd_used fdp i) = fd_ofileflags fdp"
  "fd_freefile (fd_used fdp i) = fd_freefile fdp" "fd_lastfile (fd_used fdp i) = max (fd_lastfile fdp) (int i)"
  by (auto simp: fd_used_def)

lemma fd_ok_used: "fd_ok fdp \<Longrightarrow> i < fd_nfiles fdp \<Longrightarrow> fd_ok (fd_used fdp i)"
  by (auto simp: fd_ok_def)

text \<open>Opening a slot, and closing one.\<close>

definition set_slot :: "nat \<Rightarrow> nat option \<Rightarrow> u8 \<Rightarrow> filedesc \<Rightarrow> filedesc" where
  "set_slot i v fl fdp =
     fdp\<lparr>fd_ofiles := (fd_ofiles fdp)[i := v], fd_ofileflags := (fd_ofileflags fdp)[i := fl]\<rparr>"

lemma set_slot_simps [simp]:
  "fd_ofiles (set_slot i v fl fdp) = (fd_ofiles fdp)[i := v]"
  "fd_ofileflags (set_slot i v fl fdp) = (fd_ofileflags fdp)[i := fl]"
  "fd_lastfile (set_slot i v fl fdp) = fd_lastfile fdp" "fd_freefile (set_slot i v fl fdp) = fd_freefile fdp"
  by (simp_all add: set_slot_def)

lemma fd_ok_open:
  assumes "fd_ok fdp" "i < fd_nfiles fdp"
  shows "fd_ok (fd_used (set_slot i (Some f) fl fdp) i)"
  using assms by (auto simp: fd_ok_def nth_list_update)

lemma fd_prev_bounds: "-1 \<le> fd_prev ofs n \<and> fd_prev ofs n < int n"
  by (induction n) auto

lemma fd_prev_none: "fd_prev ofs n < int i \<Longrightarrow> i < n \<Longrightarrow> ofs ! i = None"
  by (induction n) (auto simp: less_Suc_eq split: if_splits)

lemma fd_ok_close:
  assumes "fd_ok fdp" "i < fd_nfiles fdp" "fd_ofiles fdp ! i \<noteq> None"
  shows "\<exists>fdp'. fd_unused (set_slot i None fl fdp) i = Some fdp' \<and> fd_ok fdp' \<and>
    fd_ofiles fdp' = (fd_ofiles fdp)[i := None] \<and> fd_ofileflags fdp' = (fd_ofileflags fdp)[i := fl] \<and>
    fd_lastfile fdp' \<le> fd_lastfile fdp \<and> fd_freefile fdp' = min (fd_freefile fdp) (int i)"
proof -
  let ?ofs = "(fd_ofiles fdp)[i := None]"
  have le: "int i \<le> fd_lastfile fdp" using assms by (auto simp: fd_ok_def not_less [symmetric])
  have pb: "-1 \<le> fd_prev ?ofs i" "fd_prev ?ofs i < int i" using fd_prev_bounds [of ?ofs i] by auto
  have pn: "?ofs ! j = None" if "fd_prev ?ofs i < int j" "j < i" for j using fd_prev_none [of ?ofs i j] that by blast
  have flags: "length (fd_ofileflags fdp) = fd_nfiles fdp" "table_size (fd_nfiles fdp)"
    and above: "\<And>j. j < fd_nfiles fdp \<Longrightarrow> fd_lastfile fdp < int j \<Longrightarrow> fd_ofiles fdp ! j = None"
    and below: "\<And>j. int j < fd_freefile fdp \<Longrightarrow> fd_ofiles fdp ! j \<noteq> None"
    and hints: "0 \<le> fd_freefile fdp" "fd_freefile fdp \<le> int (fd_nfiles fdp)" "-1 \<le> fd_lastfile fdp"
      "fd_lastfile fdp < int (fd_nfiles fdp)"
    using assms(1) by (auto simp: fd_ok_def)
  define fdp1 where "fdp1 = (set_slot i None fl fdp)\<lparr>fd_freefile := min (fd_freefile fdp) (int i)\<rparr>"
  have f1: "fd_ofiles fdp1 = ?ofs" "fd_ofileflags fdp1 = (fd_ofileflags fdp)[i := fl]"
    "fd_lastfile fdp1 = fd_lastfile fdp" "fd_freefile fdp1 = min (fd_freefile fdp) (int i)"
    by (simp_all add: fdp1_def)
  have un: "fd_unused (set_slot i None fl fdp) i =
      Some (if int i = fd_lastfile fdp then fdp1\<lparr>fd_lastfile := fd_prev ?ofs i\<rparr> else fdp1)"
    using le by (auto simp: fd_unused_def fdp1_def set_slot_def Let_def)
  have below1: "?ofs ! j \<noteq> None" if "int j < min (fd_freefile fdp) (int i)" for j
    using below [of j] that by auto
  show ?thesis
  proof (cases "int i = fd_lastfile fdp")
    case True
    have "?ofs ! j = None" if "j < fd_nfiles fdp" "fd_prev ?ofs i < int j" for j
    proof (cases "j < i")
      case True then show ?thesis using pn that by blast
    next
      case False
      then show ?thesis using above [of j] that(1) \<open>int i = fd_lastfile fdp\<close> assms(2)
        by (cases "j = i") auto
    qed
    then have "fd_ok (fdp1\<lparr>fd_lastfile := fd_prev ?ofs i\<rparr>)"
      using f1 flags hints pb below1 assms(2) by (simp add: fd_ok_def)
    then show ?thesis using un True f1 pb by simp
  next
    case False
    have "?ofs ! j = None" if "j < fd_nfiles fdp" "fd_lastfile fdp < int j" for j
      using above [of j] that by (cases "j = i") auto
    then have "fd_ok fdp1" using f1 flags hints below1 assms(2) by (simp add: fd_ok_def)
    then show ?thesis using un False f1 by simp
  qed
qed

subsection \<open>Allocating a descriptor\<close>

lemma fd_ok_expand:
  assumes "fd_ok fdp"
  shows "fd_ok (fd_expand fdp)"
proof -
  let ?n = "if fd_nfiles fdp < NDEXTENT then NDEXTENT else 2 * fd_nfiles fdp"
  have n: "fd_nfiles fdp \<le> ?n" "table_size ?n" using table_size_expand assms by (auto simp: fd_ok_def)
  have o: "fd_ofiles (fd_expand fdp) = fd_ofiles fdp @ replicate (?n - fd_nfiles fdp) None"
    "fd_ofileflags (fd_expand fdp) = fd_ofileflags fdp @ replicate (?n - fd_nfiles fdp) 0"
    "fd_lastfile (fd_expand fdp) = fd_lastfile fdp" "fd_freefile (fd_expand fdp) = fd_freefile fdp"
    by (simp_all add: fd_expand_def Let_def)
  have len: "fd_nfiles (fd_expand fdp) = ?n" using n(1) unfolding o by simp
  have "table_size (fd_nfiles (fd_expand fdp))" using n(2) len by simp
  moreover have "length (fd_ofileflags (fd_expand fdp)) = fd_nfiles (fd_expand fdp)"
    using assms unfolding o by (simp add: fd_ok_def)
  ultimately show ?thesis
    using assms n(1) len unfolding fd_ok_def o by (auto simp: nth_append)
qed

definition extends :: "filedesc \<Rightarrow> filedesc \<Rightarrow> bool" where
  "extends fdp fdp' \<longleftrightarrow> (\<exists>k. fd_ofiles fdp' = fd_ofiles fdp @ replicate k None \<and>
     fd_ofileflags fdp' = fd_ofileflags fdp @ replicate k 0)"

lemma extends_refl: "fd_ofiles fdp' = fd_ofiles fdp \<Longrightarrow> fd_ofileflags fdp' = fd_ofileflags fdp \<Longrightarrow> extends fdp fdp'"
  by (auto simp: extends_def intro: exI [of _ 0])

lemma extends_expand: "extends (fd_expand fdp) fdp' \<Longrightarrow> extends fdp fdp'"
  unfolding extends_def fd_expand_def Let_def by (auto simp: replicate_add [symmetric])

lemma find_upt:
  "find P [a ..< b] = Some i \<Longrightarrow> a \<le> i \<and> i < b \<and> P i \<and> (\<forall>j. a \<le> j \<longrightarrow> j < i \<longrightarrow> \<not> P j)"
proof -
  assume "find P [a ..< b] = Some i"
  then obtain k where k: "k < b - a" "P (a + k)" "i = a + k" "\<forall>j < k. \<not> P (a + j)"
    by (auto simp: find_Some_iff)
  have "\<not> P j" if "a \<le> j" "j < i" for j
    using k(4) [rule_format, of "j - a"] that k(3) by simp
  with k show "a \<le> i \<and> i < b \<and> P i \<and> (\<forall>j. a \<le> j \<longrightarrow> j < i \<longrightarrow> \<not> P j)" by auto
qed

lemma fdalloc_loop_spec:
  assumes "fd_ok fdp" "fdalloc_loop lim fdp want = (fdp', r)"
  shows "fd_ok fdp' \<and> extends fdp fdp' \<and>
    (case r of
       Inr i \<Rightarrow> want \<le> i \<and> i < fd_nfiles fdp' \<and> int i < lim \<and> fd_ofiles fdp' ! i = None \<and>
         int i \<le> fd_lastfile fdp' \<and> (\<forall>j. want \<le> j \<longrightarrow> j < i \<longrightarrow> fd_ofiles fdp' ! j \<noteq> None)
     | Inl err \<Rightarrow> err = EMFILE \<and>
         (\<forall>j. want \<le> j \<longrightarrow> int j < lim \<longrightarrow> j < fd_nfiles fdp' \<and> fd_ofiles fdp' ! j \<noteq> None))"
  using assms
proof (induction lim fdp want rule: fdalloc_loop.induct)
  case (1 lim fdp want)
  let ?last = "min (int (fd_nfiles fdp)) lim" and ?start = "nat (max (int want) (fd_freefile fdp))"
  note unf = fdalloc_loop.simps [of lim fdp want]
  have below: "fd_ofiles fdp ! j \<noteq> None" if "int j < fd_freefile fdp" for j using that 1(2) by (simp add: fd_ok_def)
  show ?case
  proof (cases "find (\<lambda>i. fd_ofiles fdp ! i = None) [?start ..< nat ?last]")
    case (Some i)
    note f = find_upt [OF Some]
    have i: "want \<le> i" "i < fd_nfiles fdp" "int i < lim" "fd_ofiles fdp ! i = None" using f by auto
    have low: "fd_ofiles fdp ! j \<noteq> None" if "want \<le> j" "j < i" for j
      using f below [of j] that by (cases "j < ?start") auto
    have res: "fdp' = (if int want \<le> fd_freefile fdp then (fd_used fdp i)\<lparr>fd_freefile := int i\<rparr> else fd_used fdp i)"
      "r = Inr i"
      using 1(3) unfolding unf by (auto simp: Some Let_def)
    have "fd_ok (fd_used fdp i)" using fd_ok_used 1(2) i(2) .
    moreover have "\<forall>j. int j < int i \<longrightarrow> fd_ofiles fdp ! j \<noteq> None" if "int want \<le> fd_freefile fdp"
      using low below that by (metis linorder_not_le of_nat_less_iff order_trans nat_le_linear of_nat_le_iff)
    ultimately have "fd_ok fdp'" using i(2) unfolding res by (auto simp: fd_ok_def)
    moreover have "fd_ofiles fdp' = fd_ofiles fdp" "fd_ofileflags fdp' = fd_ofileflags fdp"
      "int i \<le> fd_lastfile fdp'" unfolding res by auto
    ultimately show ?thesis using i low res(2) extends_refl by auto
  next
    case None
    then have full: "fd_ofiles fdp ! j \<noteq> None" if "want \<le> j" "int j < ?last" for j
      using that below [of j] unfolding find_None_iff by (cases "j < ?start") auto
    show ?thesis
    proof (cases "int (fd_nfiles fdp) \<ge> lim")
      case True
      then have "fdp' = fdp" "r = Inl EMFILE" using 1(3) None unfolding unf by (auto simp: Let_def)
      then show ?thesis using 1(2) full True extends_refl by auto
    next
      case False
      then have "fdalloc_loop lim (fd_expand fdp) want = (fdp', r)"
        using 1(3) None unfolding unf by (simp add: Let_def)
      from "1.IH" [OF refl refl None False fd_ok_expand [OF 1(2)] this] show ?thesis
        using extends_expand by blast
    qed
  qed
qed

subsection \<open>Reference counts\<close>

definition refs :: "dstate \<Rightarrow> nat \<Rightarrow> (nat \<times> nat) set" where
  "refs s f = {(d, i). \<exists>fdp. k_fds s d = Some fdp \<and> i < fd_nfiles fdp \<and> fd_ofiles fdp ! i = Some f}"

text \<open>
  The count of an open file is the number of descriptors that refer to it and of the
  references \<open>x\<close> a routine holds meanwhile; there is no reference to a closed file, but for
  the names in \<open>D\<close> that a routine has freed and is about to overwrite.
\<close>

definition file_bal :: "kfile option \<Rightarrow> (nat \<times> nat) set \<Rightarrow> nat \<Rightarrow> bool \<Rightarrow> bool" where
  "file_bal fo R n freed \<longleftrightarrow>
     (case fo of
        None \<Rightarrow> n = 0 \<and> (\<not> freed \<longrightarrow> R = {})
      | Some fl \<Rightarrow> \<not> freed \<and> f_count fl = s16 (int (card R + n)) \<and> 0 < card R + n)"

definition lists_ok :: "dstate \<Rightarrow> bool" where
  "lists_ok s \<longleftrightarrow> finite (dom (k_fds s)) \<and> distinct (k_filehead s) \<and>
     set (k_filehead s) = dom (k_files s) \<and> k_nfiles s = int (length (k_filehead s))"

definition bal :: "dstate \<Rightarrow> (nat \<Rightarrow> nat) \<Rightarrow> nat set \<Rightarrow> bool" where
  "bal s x D \<longleftrightarrow> lists_ok s \<and> (\<forall>f. file_bal (k_files s f) (refs s f) (x f) (f \<in> D))"

lemma balI:
  "lists_ok s \<Longrightarrow> (\<And>f. file_bal (k_files s f) (refs s f) (x f) (f \<in> D)) \<Longrightarrow> bal s x D"
  by (simp add: bal_def)

lemma bal_at: "bal s x D \<Longrightarrow> file_bal (k_files s f) (refs s f) (x f) (f \<in> D)"
  by (simp add: bal_def)

lemma bal_lists: "bal s x D \<Longrightarrow> lists_ok s"
  by (simp add: bal_def)

lemma balD:
  assumes "bal s x D"
  shows "k_files s f = None \<Longrightarrow> x f = 0" "k_files s f = None \<Longrightarrow> f \<notin> D \<Longrightarrow> refs s f = {}"
    "k_files s f = Some fl \<Longrightarrow> f \<notin> D \<and> f_count fl = s16 (int (card (refs s f) + x f)) \<and> 0 < card (refs s f) + x f"
  using bal_at [OF assms, of f] by (auto simp: file_bal_def)

lemma finite_refs:
  assumes "bal s x D"
  shows "finite (refs s f)"
proof (rule finite_subset)
  show "refs s f \<subseteq> (\<Union>d \<in> dom (k_fds s). {d} \<times> {..< fd_nfiles (the (k_fds s d))})"
    by (auto simp: refs_def)
  show "finite (\<Union>d \<in> dom (k_fds s). {d} \<times> {..< fd_nfiles (the (k_fds s d))})"
    using bal_lists [OF assms] by (simp add: lists_ok_def)
qed

text \<open>Only tables and files matter.\<close>

lemma refs_cong: "k_fds s' = k_fds s \<Longrightarrow> refs s' = refs s"
  by (simp add: refs_def fun_eq_iff)

lemma bal_cong:
  assumes "k_fds s' = k_fds s" "k_files s' = k_files s" "k_filehead s' = k_filehead s" "k_nfiles s' = k_nfiles s"
  shows "bal s' = bal s"
  unfolding bal_def lists_ok_def fun_eq_iff refs_cong [OF assms(1)] assms by simp

lemma event_simps [simp]:
  "k_fds (event ev s) = k_fds s" "k_files (event ev s) = k_files s" "k_filehead (event ev s) = k_filehead s"
  "k_nfiles (event ev s) = k_nfiles s" "k_procs (event ev s) = k_procs s"
  by (simp_all add: event_def)

lemma put_fdp_simps [simp]:
  "k_fds (put_fdp d fdp s) = (k_fds s)(d := Some fdp)" "k_files (put_fdp d fdp s) = k_files s"
  "k_filehead (put_fdp d fdp s) = k_filehead s" "k_nfiles (put_fdp d fdp s) = k_nfiles s"
  "k_procs (put_fdp d fdp s) = k_procs s"
  by (simp_all add: put_fdp_def)

lemma upd_file_simps [simp]:
  "k_fds (upd_file fp f s) = k_fds s" "k_filehead (upd_file fp f s) = k_filehead s"
  "k_nfiles (upd_file fp f s) = k_nfiles s" "k_procs (upd_file fp f s) = k_procs s"
  "k_files (upd_file fp f s) = (k_files s)(fp := map_option f (k_files s fp))"
  by (simp_all add: upd_file_def)

lemma upd_proc_simps [simp]:
  "k_fds (upd_proc pid f s) = k_fds s" "k_files (upd_proc pid f s) = k_files s"
  "k_filehead (upd_proc pid f s) = k_filehead s" "k_nfiles (upd_proc pid f s) = k_nfiles s"
  "k_procs (upd_proc pid f s) = (k_procs s)(pid := f (k_procs s pid))"
  by (simp_all add: upd_proc_def)

lemma bal_event [simp]: "bal (event ev s) = bal s"
  by (rule bal_cong) simp_all

lemma bal_upd_proc [simp]: "bal (upd_proc pid f s) = bal s"
  by (rule bal_cong) simp_all

text \<open>Writing a table back.\<close>

lemma refs_put_slot:
  assumes "k_fds s d = Some fdp" "fd_ofiles fdp' = (fd_ofiles fdp)[i := v]" "i < fd_nfiles fdp"
  shows "refs (put_fdp d fdp' s) f = (refs s f - {(d, i)}) \<union> (if v = Some f then {(d, i)} else {})"
  using assms by (auto simp: refs_def nth_list_update split: if_splits)

lemma refs_put_extends:
  assumes "k_fds s d = Some fdp" "extends fdp fdp'"
  shows "refs (put_fdp d fdp' s) f = refs s f"
proof -
  obtain k where k: "fd_ofiles fdp' = fd_ofiles fdp @ replicate k None" using assms(2) by (auto simp: extends_def)
  have "i < fd_nfiles fdp' \<and> fd_ofiles fdp' ! i = Some f \<longleftrightarrow> i < fd_nfiles fdp \<and> fd_ofiles fdp ! i = Some f" for i
    unfolding k by (auto simp: nth_append)
  then show ?thesis using assms(1) by (fastforce simp: refs_def split: if_splits)
qed

lemma bal_put:
  assumes "bal s x D" "k_fds s d = Some fdp" "\<And>f. refs (put_fdp d fdp' s) f = refs s f"
  shows "bal (put_fdp d fdp' s) x D"
proof (rule balI)
  show "lists_ok (put_fdp d fdp' s)" using bal_lists [OF assms(1)] by (simp add: lists_ok_def)
qed (use bal_at [OF assms(1)] assms(3) in simp)

lemma lists_put: "lists_ok s \<Longrightarrow> lists_ok (put_fdp d fdp s)"
  by (simp add: lists_ok_def)

lemma lists_upd: "lists_ok s \<Longrightarrow> lists_ok (upd_file fp g s)"
  by (auto simp: lists_ok_def)

lemma bal_clear_slot:
  assumes "bal s x D" "k_fds s d = Some fdp" "fd_ofiles fdp ! i = Some f" "i < fd_nfiles fdp" "f \<notin> D"
    "fd_ofiles fdp' = (fd_ofiles fdp)[i := None]"
  shows "bal (put_fdp d fdp' s) (x(f := x f + 1)) D"
proof -
  have r: "refs (put_fdp d fdp' s) g = refs s g - {(d, i)}" for g
    using refs_put_slot [OF assms(2,6,4), of g] by simp
  have in_f: "(d, i) \<in> refs s f" using assms(2-4) by (auto simp: refs_def)
  have out: "(d, i) \<notin> refs s g" if "g \<noteq> f" for g using that assms(2,3) by (auto simp: refs_def)
  have "card (refs s f) = card (refs s f - {(d, i)}) + 1"
    using in_f finite_refs [OF assms(1), of f] by (metis Suc_eq_plus1 card_Suc_Diff1)
  moreover have "k_files s f \<noteq> None" using balD(2) [OF assms(1), of f] in_f assms(5) by auto
  ultimately have "file_bal (k_files s g) (refs s g - {(d, i)}) ((x(f := x f + 1)) g) (g \<in> D)" for g
    using bal_at [OF assms(1), of g] out [of g] by (cases "g = f") (auto simp: file_bal_def)
  then show ?thesis
    using lists_put [OF bal_lists [OF assms(1)]] r by (intro balI) simp_all
qed

lemma bal_fill_slot:
  assumes "bal s x D" "k_fds s d = Some fdp" "i < fd_nfiles fdp" "fd_ofiles fdp ! i = None \<or> (\<exists>g \<in> D. fd_ofiles fdp ! i = Some g)"
    "0 < x f" "fd_ofiles fdp' = (fd_ofiles fdp)[i := Some f]"
  shows "bal (put_fdp d fdp' s) (x(f := x f - 1)) D"
proof -
  have f: "k_files s f \<noteq> None" "f \<notin> D"
    using balD(1) [OF assms(1), of f] balD(3) [OF assms(1), of f] assms(5) by auto
  have out: "(d, i) \<notin> refs s g" if "g \<notin> D" for g using that assms(2-4) by (auto simp: refs_def)
  have r: "refs (put_fdp d fdp' s) g = (if g = f then insert (d, i) (refs s g) else refs s g)" if "g \<notin> D" for g
    using refs_put_slot [OF assms(2,6,3), of g] out [OF that] by auto
  have "card (insert (d, i) (refs s f)) = card (refs s f) + 1"
    using out [OF f(2)] finite_refs [OF assms(1), of f] by simp
  then have "file_bal (k_files s g) (refs (put_fdp d fdp' s) g) ((x(f := x f - 1)) g) (g \<in> D)" for g
    using bal_at [OF assms(1), of g] r [of g] assms(5) f by (cases "g = f") (auto simp: file_bal_def split: option.splits)
  then show ?thesis
    using lists_put [OF bal_lists [OF assms(1)]] by (intro balI) simp_all
qed

lemma refs_upd_file [simp]: "refs (upd_file fp g s) = refs s"
  by (rule refs_cong) simp

lemma bal_count:
  assumes "bal s x D" "k_files s fp \<noteq> None"
  shows "bal (upd_file fp (\<lambda>f. f\<lparr>f_count := s16 (f_count f + 1)\<rparr>) s) (x(fp := x fp + 1)) D"
proof (rule balI)
  show "file_bal (k_files (upd_file fp (\<lambda>f. f\<lparr>f_count := s16 (f_count f + 1)\<rparr>) s) f)
      (refs (upd_file fp (\<lambda>f. f\<lparr>f_count := s16 (f_count f + 1)\<rparr>) s) f) ((x(fp := x fp + 1)) f) (f \<in> D)" for f
    using bal_at [OF assms(1), of f] assms(2) by (cases "f = fp") (auto simp: file_bal_def ac_simps)
qed (rule lists_upd [OF bal_lists [OF assms(1)]])

lemma bal_upd_file:
  assumes "bal s x D" "\<And>f. f_count (g f) = f_count f"
  shows "bal (upd_file fp g s) x D"
proof (rule balI)
  show "file_bal (k_files (upd_file fp g s) f) (refs (upd_file fp g s) f) (x f) (f \<in> D)" for f
    using bal_at [OF assms(1), of f] assms(2) by (cases "f = fp") (auto simp: file_bal_def split: option.splits)
qed (rule lists_upd [OF bal_lists [OF assms(1)]])

subsection \<open>Closing a file\<close>

lemma ffree_simps [simp]:
  "k_fds (ffree fp s) = k_fds s" "k_procs (ffree fp s) = k_procs s"
  "k_files (ffree fp s) = (k_files s)(fp := None)" "k_filehead (ffree fp s) = remove1 fp (k_filehead s)"
  "k_nfiles (ffree fp s) = k_nfiles s - 1"
  by (simp_all add: ffree_def Let_def)

lemma bal_ffree:
  assumes "bal s x D" "k_files s fp \<noteq> None" "refs s fp = {} \<or> fp \<in> D'" "D \<subseteq> D'" "D' \<subseteq> insert fp D"
  shows "bal (ffree fp s) (x(fp := 0)) D'"
proof -
  have r: "refs (ffree fp s) = refs s" by (rule refs_cong) simp
  have ls: "lists_ok s" by (rule bal_lists [OF assms(1)])
  have mem: "fp \<in> set (k_filehead s)" using ls assms(2) by (auto simp: lists_ok_def)
  then have "0 < length (k_filehead s)" by (cases "k_filehead s") auto
  then have "int (length (k_filehead s) - 1) = int (length (k_filehead s)) - 1" by (simp add: of_nat_diff Suc_leI del: length_greater_0_conv)
  then have "lists_ok (ffree fp s)" using ls mem by (auto simp: lists_ok_def length_remove1 set_remove1_eq)
  moreover have "file_bal (k_files (ffree fp s) f) (refs s f) ((x(fp := 0)) f) (f \<in> D')" for f
    using bal_at [OF assms(1), of f] assms(3-5) by (cases "f = fp") (auto simp: file_bal_def split: option.splits)
  ultimately show ?thesis using r by (intro balI) simp_all
qed

lemma closef_none: "closef e p None s = Some (s, None)"
  by (simp add: closef_def)

lemma closef_spec:
  assumes "bal s x D" "0 < x fp" "card (refs s fp) + x fp \<le> 32767"
  shows "\<exists>s' r. closef e p (Some fp) s = Some (s', r) \<and> bal s' (x(fp := x fp - 1)) D \<and>
    k_fds s' = k_fds s \<and> k_procs s' = k_procs s"
proof -
  obtain fl where fl: "k_files s fp = Some fl" using balD(1) [OF assms(1), of fp] assms(2) by auto
  have cnt: "f_count fl = int (card (refs s fp) + x fp)" "fp \<notin> D"
    using balD(3) [OF assms(1) fl] assms(3) s16_id [of "int (card (refs s fp) + x fp)"] by auto
  have dec: "s16 (f_count fl - 1) = f_count fl - 1" using cnt(1) assms(2,3) by (intro s16_id) linarith+
  have dec2: "s16 (int (card (refs s fp)) + int (x fp) - 1) = int (card (refs s fp)) + int (x fp) - 1"
    using dec cnt(1) by simp
  define s1 where "s1 = (case p of
      None \<Rightarrow> s
    | Some pid \<Rightarrow>
        if p_advlock (k_procs s pid) \<and> f_type fl = DTYPE_VNODE
        then event (Ev_advlock (f_data fl) (Id_proc pid) Op_UNLCK (whole_file F_UNLCK) F_POSIX) s else s)"
  have s1: "k_fds s1 = k_fds s" "k_procs s1 = k_procs s" "k_files s1 = k_files s" "k_filehead s1 = k_filehead s"
    "k_nfiles s1 = k_nfiles s"
    by (auto simp: s1_def split: option.splits)
  let ?s2 = "upd_file fp (\<lambda>f. f\<lparr>f_count := f_count fl - 1\<rparr>) s1"
  show ?thesis
  proof (cases "f_count fl - 1 > 0")
    case True
    have r: "refs ?s2 = refs s" by (rule refs_cong) (simp add: s1)
    have "file_bal (k_files ?s2 f) (refs s f) ((x(fp := x fp - 1)) f) (f \<in> D)" for f
      using bal_at [OF assms(1), of f] assms(2) cnt fl True by (cases "f = fp") (auto simp: file_bal_def s1 dec2)
    moreover have "lists_ok ?s2" using bal_lists [OF assms(1)] fl by (auto simp: lists_ok_def s1)
    ultimately have "bal ?s2 (x(fp := x fp - 1)) D" using r by (intro balI) simp_all
    with True show ?thesis by (simp add: closef_def fl s1_def [symmetric] Let_def s1 dec)
  next
    case False
    then have one: "f_count fl = 1" "card (refs s fp) = 0" "x fp = 1" using cnt assms(2) by auto
    then have empty: "refs s fp = {}" using finite_refs [OF assms(1)] by simp
    define s3 where "s3 = (if f_flag fl AND FHASLOCK \<noteq> 0 \<and> f_type fl = DTYPE_VNODE
      then event (Ev_advlock (f_data fl) (Id_file fp) Op_UNLCK (whole_file F_UNLCK) F_FLOCK) ?s2 else ?s2)"
    obtain s4 err where s4: "(if f_ops fl then (event (Ev_close fp) s3, de_close e fp fl) else (s3, None)) = (s4, err)"
      by (cases "if f_ops fl then (event (Ev_close fp) s3, de_close e fp fl) else (s3, None)")
    then have f4: "k_fds s4 = k_fds s" "k_procs s4 = k_procs s" "k_filehead s4 = k_filehead s"
      "k_nfiles s4 = k_nfiles s" "k_files s4 = (k_files s)(fp := Some (fl\<lparr>f_count := 0\<rparr>))"
      using one by (auto simp: s3_def s1 fl split: if_splits)
    have run: "closef e p (Some fp) s = Some (ffree fp s4, err)"
      using one s4 [unfolded s3_def]
      by (auto simp: closef_def fl s1_def [symmetric] Let_def s16_id split: if_splits)
    have r: "refs (ffree fp s4) = refs s" by (rule refs_cong) (simp add: f4)
    have "bal (ffree fp s4) = bal (ffree fp s)" by (rule bal_cong) (simp_all add: f4)
    then have "bal (ffree fp s4) (x(fp := x fp - 1)) D"
      using bal_ffree [OF assms(1), of fp D] fl empty one by auto
    with run show ?thesis by (simp add: f4)
  qed
qed

subsection \<open>The invariant of the descriptor tables\<close>

definition tables_ok :: "dstate \<Rightarrow> bool" where
  "tables_ok s \<longleftrightarrow> (\<forall>d fdp. k_fds s d = Some fdp \<longrightarrow> fd_ok fdp \<and> fd_refcnt fdp = 1)"

text \<open>Every process has a table of its own: \<open>fork\<close> copies it.\<close>

definition procs_ok :: "dstate \<Rightarrow> bool" where
  "procs_ok s \<longleftrightarrow> (\<forall>pid d. p_fd (k_procs s pid) = Some d \<longrightarrow> k_fds s d \<noteq> None) \<and>
     (\<forall>p1 p2 d. p_fd (k_procs s p1) = Some d \<longrightarrow> p_fd (k_procs s p2) = Some d \<longrightarrow> p1 = p2)"

text \<open>No file has more references than a \<open>short\<close> can count.\<close>

definition few_refs :: "dstate \<Rightarrow> bool" where
  "few_refs s \<longleftrightarrow> (\<forall>f. card (refs s f) \<le> 32767)"

lemma few_refs_less:
  assumes "bal s x D" "few_refs s" "k_fds s d = Some fdp" "i < fd_nfiles fdp" "fd_ofiles fdp' = (fd_ofiles fdp)[i := None]"
    "k_fds s' = (k_fds s)(d := Some fdp')"
  shows "few_refs s'"
proof -
  have "refs s' f \<subseteq> refs s f" for f
    using assms(3-6) by (auto simp: refs_def nth_list_update split: if_splits)
  then have "card (refs s' f) \<le> card (refs s f)" for f by (rule card_mono [OF finite_refs [OF assms(1)]])
  then show ?thesis using assms(2) le_trans unfolding few_refs_def by blast
qed

lemma refs_cleared:
  assumes "bal s x D" "k_fds s d = Some fdp" "fd_ofiles fdp ! i = Some f" "i < fd_nfiles fdp"
    "fd_ofiles fdp' = (fd_ofiles fdp)[i := None]"
  shows "card (refs (put_fdp d fdp' s) f) + 1 = card (refs s f)"
proof -
  have "refs (put_fdp d fdp' s) f = refs s f - {(d, i)}" using refs_put_slot [OF assms(2,5,4), of f] by simp
  moreover have "(d, i) \<in> refs s f" using assms(2-4) by (auto simp: refs_def)
  ultimately show ?thesis using finite_refs [OF assms(1), of f] by (metis Suc_eq_plus1 card_Suc_Diff1)
qed

definition dinv :: "dstate \<Rightarrow> bool" where
  "dinv s \<longleftrightarrow> bal s (\<lambda>f. 0) {} \<and> tables_ok s \<and> procs_ok s"

lemma dinvD:
  assumes "dinv s"
  shows "bal s (\<lambda>f. 0) {}" "tables_ok s" "procs_ok s"
  using assms by (auto simp: dinv_def)

text \<open>The table of the calling process.\<close>

lemma cur_table:
  assumes "procs_ok s" "p_fd (k_procs s pid) = Some d"
  obtains fdp where "k_fds s d = Some fdp" "cur_fd pid s = d" "cur_fdp pid s = fdp"
proof -
  obtain fdp where "k_fds s d = Some fdp" using assms unfolding procs_ok_def by blast
  with that assms(2) show thesis by (simp add: cur_fd_def cur_fdp_def)
qed

lemma const_upd [simp]: "(\<lambda>f. c)(g := c) = (\<lambda>f. c)" "(\<lambda>f. if f = g then b else c)(g := c) = (\<lambda>f. c)"
  by auto

lemma tables_put:
  "tables_ok s \<Longrightarrow> fd_ok fdp \<Longrightarrow> fd_refcnt fdp = 1 \<Longrightarrow> tables_ok (put_fdp d fdp s)"
  by (auto simp: tables_ok_def)

lemma procs_put: "procs_ok s \<Longrightarrow> procs_ok (put_fdp d fdp s)"
  by (auto simp: procs_ok_def)

lemma tables_at: "tables_ok s \<Longrightarrow> k_fds s d = Some fdp \<Longrightarrow> fd_ok fdp \<and> fd_refcnt fdp = 1"
  by (auto simp: tables_ok_def)

lemma tables_cong: "k_fds s' = k_fds s \<Longrightarrow> tables_ok s' = tables_ok s"
  by (simp add: tables_ok_def)

lemma procs_cong: "k_fds s' = k_fds s \<Longrightarrow> k_procs s' = k_procs s \<Longrightarrow> procs_ok s' = procs_ok s"
  by (simp add: procs_ok_def)

lemma fd_refcnt_simps [simp]:
  "fd_refcnt (fd_used fdp i) = fd_refcnt fdp" "fd_refcnt (set_slot i v fl fdp) = fd_refcnt fdp"
  "fd_refcnt (fd_expand fdp) = fd_refcnt fdp"
  by (simp_all add: fd_used_def set_slot_def fd_expand_def Let_def)

lemma fd_unused_refcnt: "fd_unused fdp i = Some fdp' \<Longrightarrow> fd_refcnt fdp' = fd_refcnt fdp"
  by (auto simp: fd_unused_def Let_def split: if_splits)

lemma fdalloc_loop_refcnt: "fdalloc_loop lim fdp want = (fdp', r) \<Longrightarrow> fd_refcnt fdp' = fd_refcnt fdp"
proof (induction lim fdp want rule: fdalloc_loop.induct)
  case (1 lim fdp want)
  then show ?case
    by (subst (asm) (2) fdalloc_loop.simps) (auto simp: Let_def split: option.splits if_splits)
qed

text \<open>What an allocation with \<open>want = 0\<close> does to the hint \<open>fd_freefile\<close>.\<close>

lemma fdalloc_loop_freefile:
  "fdalloc_loop lim fdp want = (fdp', Inr i) \<Longrightarrow> want = 0 \<Longrightarrow> 0 \<le> fd_freefile fdp \<Longrightarrow> fd_freefile fdp' = int i"
proof (induction lim fdp want rule: fdalloc_loop.induct)
  case (1 lim fdp want)
  have "fd_freefile (fd_expand fdp) = fd_freefile fdp" by (simp add: fd_expand_def Let_def)
  with 1 show ?case
    by (subst (asm) (2) fdalloc_loop.simps) (auto simp: Let_def split: option.splits if_splits)
qed

lemma fdalloc_inv:
  assumes "bal s x D" "tables_ok s" "procs_ok s" "p_fd (k_procs s pid) = Some d" "k_fds s d = Some fdp"
    and "fdalloc e pid want s = (s', r)"
  obtains fdp' where "s' = put_fdp d fdp' s" "bal s' x D" "tables_ok s'" "procs_ok s'" "fd_ok fdp'"
    "extends fdp fdp'" "fdalloc_loop (fd_limit e (k_procs s pid)) fdp want = (fdp', r)"
    "cur_fd pid s' = d" "cur_fdp pid s' = fdp'"
proof -
  have cur: "cur_fd pid s = d" "cur_fdp pid s = fdp" using assms(4,5) by (simp_all add: cur_fd_def cur_fdp_def)
  obtain fdp' where run: "fdalloc_loop (fd_limit e (k_procs s pid)) fdp want = (fdp', r)" "s' = put_fdp d fdp' s"
    using assms(6) by (auto simp: fdalloc_def cur Let_def split: prod.splits)
  have ok: "fd_ok fdp" "fd_refcnt fdp = 1" using tables_at [OF assms(2,5)] by auto
  have f: "fd_ok fdp'" "extends fdp fdp'" using fdalloc_loop_spec [OF ok(1) run(1)] by auto
  have "bal s' x D" unfolding run(2) by (rule bal_put [OF assms(1,5)]) (rule refs_put_extends [OF assms(5) f(2)])
  moreover have "tables_ok s'" unfolding run(2)
    using tables_put [OF assms(2) f(1)] fdalloc_loop_refcnt [OF run(1)] ok(2) by simp
  moreover have "procs_ok s'" unfolding run(2) by (rule procs_put [OF assms(3)])
  ultimately show thesis
    using that [of fdp'] run f assms(4) by (simp add: cur_fd_def cur_fdp_def)
qed

subsection \<open>Duplicating descriptors\<close>

lemma slot_open:
  assumes "bal s x {}" "k_fds s d = Some fdp" "i < fd_nfiles fdp" "fd_ofiles fdp ! i = Some f"
  shows "k_files s f \<noteq> None"
proof
  assume "k_files s f = None"
  with balD(2) [OF assms(1) this] assms(2-4) show False by (auto simp: refs_def)
qed

lemma finishdup_inv:
  assumes "dinv s" "k_fds s d = Some fdp" "old < fd_nfiles fdp" "fd_ofiles fdp ! old = Some f"
    and "new < fd_nfiles fdp" "fd_ofiles fdp ! new = None"
  shows "\<exists>s' fdp'. finishdup d old new s = (s', Inr (int new)) \<and> dinv s' \<and> k_procs s' = k_procs s \<and>
    k_fds s' = (k_fds s)(d := Some fdp') \<and> fd_ofiles fdp' = (fd_ofiles fdp)[new := Some f] \<and>
    fd_ofileflags fdp' = (fd_ofileflags fdp)[new := fd_ofileflags fdp ! old AND NOT UF_EXCLOSE]"
proof -
  note inv = dinvD [OF assms(1)]
  let ?fl = "fd_ofileflags fdp ! old AND NOT UF_EXCLOSE"
  let ?fdp = "fd_used (set_slot new (Some f) ?fl fdp) new"
  let ?s1 = "upd_file f (\<lambda>f. f\<lparr>f_count := s16 (f_count f + 1)\<rparr>) s"
  have "bal ?s1 ((\<lambda>f. 0)(f := 0 + 1)) {}"
    using bal_count [OF inv(1) slot_open [OF inv(1) assms(2-4)]] .
  then have b: "bal (put_fdp d ?fdp ?s1) (((\<lambda>f. 0)(f := 0 + 1))(f := ((\<lambda>f. 0)(f := 0 + 1)) f - 1)) {}"
    by (rule bal_fill_slot [where fdp = fdp and i = new]) (use assms(2,5,6) in simp_all)
  have ok: "fd_ok fdp" "fd_refcnt fdp = 1" using tables_at [OF inv(2) assms(2)] by auto
  have t: "tables_ok (put_fdp d ?fdp ?s1)"
    using tables_cong [of ?s1 s] inv(2) fd_ok_open [OF ok(1) assms(5)] ok(2) by (intro tables_put) simp_all
  have p: "procs_ok (put_fdp d ?fdp ?s1)" using procs_cong [of ?s1 s] inv(3) by (intro procs_put) simp
  have run: "finishdup d old new s = (put_fdp d ?fdp ?s1, Inr (int new))"
    using assms(2,4) by (simp add: finishdup_def Let_def set_slot_def)
  have "dinv (put_fdp d ?fdp ?s1)" using b t p by (simp add: dinv_def)
  with run show ?thesis by (intro exI [of _ "put_fdp d ?fdp ?s1"] exI [of _ ?fdp]) simp
qed

lemma put_put: "put_fdp d b (put_fdp d a s) = put_fdp d b s"
  by (simp add: put_fdp_def)

lemma fdrelease_inv:
  assumes "dinv s" "few_refs s" "p_fd (k_procs s pid) = Some d" "k_fds s d = Some fdp" "i < fd_nfiles fdp"
    "fd_ofiles fdp ! i \<noteq> None"
  shows "\<exists>s' r fdp'. fdrelease e pid i s = Some (s', r) \<and> dinv s' \<and> k_procs s' = k_procs s \<and>
    k_fds s' = (k_fds s)(d := Some fdp') \<and> fd_ofiles fdp' = (fd_ofiles fdp)[i := None] \<and>
    fd_ofileflags fdp' = (fd_ofileflags fdp)[i := 0] \<and> fd_lastfile fdp' \<le> fd_lastfile fdp"
proof -
  note inv = dinvD [OF assms(1)]
  obtain f where f: "fd_ofiles fdp ! i = Some f" using assms(6) by auto
  have cur: "cur_fd pid s = d" "cur_fdp pid s = fdp" using assms(3,4) by (simp_all add: cur_fd_def cur_fdp_def)
  have ok: "fd_ok fdp" "fd_refcnt fdp = 1" using tables_at [OF inv(2) assms(4)] by auto
  obtain fdp' where un: "fd_unused (set_slot i None 0 fdp) i = Some fdp'" "fd_ok fdp'"
    "fd_ofiles fdp' = (fd_ofiles fdp)[i := None]" "fd_ofileflags fdp' = (fd_ofileflags fdp)[i := 0]"
    "fd_lastfile fdp' \<le> fd_lastfile fdp"
    using fd_ok_close [OF ok(1) assms(5,6)] by blast
  define s1 where "s1 = (if fd_ofileflags fdp ! i AND UF_MAPPED \<noteq> 0 then event (Ev_munmap pid i) s else s)"
  have s1: "k_fds s1 = k_fds s" "k_procs s1 = k_procs s" "bal s1 = bal s" by (auto simp: s1_def)
  have "bal s1 (\<lambda>f. 0) {}" using inv(1) s1(3) by simp
  then have b: "bal (put_fdp d fdp' s1) ((\<lambda>f. 0)(f := 0 + 1)) {}"
    by (rule bal_clear_slot [where fdp = fdp and i = i]) (use s1 assms(4,5) f un(3) in simp_all)
  have "bal s1 (\<lambda>f. 0) {}" "k_fds s1 d = Some fdp" using inv(1) s1 assms(4) by simp_all
  from refs_cleared [OF this f assms(5) un(3)] have "card (refs (put_fdp d fdp' s1) f) + 1 = card (refs s f)"
    using refs_cong [OF s1(1)] by simp
  then have few: "card (refs (put_fdp d fdp' s1) f) + ((\<lambda>f. 0)(f := 0 + 1)) f \<le> 32767" using assms(2) by (simp add: few_refs_def)
  obtain s' r where cl: "closef e (Some pid) (Some f) (put_fdp d fdp' s1) = Some (s', r)"
    "bal s' (((\<lambda>f. 0)(f := 0 + 1))(f := ((\<lambda>f. 0)(f := 0 + 1)) f - 1)) {}"
    "k_fds s' = (k_fds s)(d := Some fdp')" "k_procs s' = k_procs s"
    using closef_spec [OF b _ few, of e "Some pid"] s1 by auto
  have "fd_refcnt fdp' = 1" using fd_unused_refcnt [OF un(1)] ok(2) by simp
  then have "tables_ok s'" using inv(2) un(2) cl(3) by (auto simp: tables_ok_def)
  moreover have "procs_ok s'" using inv(3) cl(3,4) by (auto simp: procs_ok_def)
  ultimately have "dinv s'" using cl(2) by (simp add: dinv_def)
  moreover have "fdrelease e pid i s = Some (s', errno_result r)"
    using cl(1) un(1) f by (simp add: fdrelease_def cur s1_def [symmetric] set_slot_def Let_def)
  ultimately show ?thesis using cl(3,4) un(3-5) by blast
qed

definition has_table :: "dstate \<Rightarrow> nat \<Rightarrow> bool" where
  "has_table s pid \<longleftrightarrow> p_fd (k_procs s pid) \<noteq> None"

lemma has_tableE:
  assumes "dinv s" "has_table s pid"
  obtains d fdp where "p_fd (k_procs s pid) = Some d" "k_fds s d = Some fdp" "cur_fd pid s = d"
    "cur_fdp pid s = fdp" "fd_ok fdp"
proof -
  obtain d where d: "p_fd (k_procs s pid) = Some d" using assms(2) by (auto simp: has_table_def)
  obtain fdp where "k_fds s d = Some fdp" "cur_fd pid s = d" "cur_fdp pid s = fdp"
    using cur_table [OF dinvD(3) [OF assms(1)] d] .
  with that d tables_at [OF dinvD(2) [OF assms(1)]] show thesis by blast
qed

lemma getfile_Some:
  "getfile fdp fd = Some f \<Longrightarrow> 0 \<le> fd \<and> nat fd < fd_nfiles fdp \<and> fd_ofiles fdp ! nat fd = Some f"
  by (auto simp: getfile_def u_ge_def split: if_splits)

lemma sys_close_inv:
  assumes "dinv s" "has_table s pid" "few_refs s"
  shows "\<exists>s' r. sys_close e pid fd s = Some (s', r) \<and> dinv s' \<and> k_procs s' = k_procs s"
proof -
  obtain d fdp where c: "p_fd (k_procs s pid) = Some d" "k_fds s d = Some fdp" "cur_fd pid s = d" "cur_fdp pid s = fdp"
    using has_tableE [OF assms(1,2)] by metis
  show ?thesis
  proof (cases "u_ge fd (int (fd_nfiles fdp)) \<or> fd_ofiles fdp ! nat fd = None")
    case True
    then have "sys_close e pid fd s = Some (s, Inl EBADF)"
      by (auto simp: sys_close_def fdrelease_def c Let_def)
    with assms(1) show ?thesis by simp
  next
    case False
    then have "nat fd < fd_nfiles fdp" "fd_ofiles fdp ! nat fd \<noteq> None" by (auto simp: u_ge_def)
    from fdrelease_inv [OF assms(1,3) c(1,2) this, of e] False show ?thesis
      by (auto simp: sys_close_def c)
  qed
qed

text \<open>Allocating a descriptor for a copy of descriptor \<open>old\<close>: \<open>dup\<close>, \<open>dup2\<close>, \<open>F_DUPFD\<close>.\<close>

lemma dup_inv:
  assumes "dinv s" "p_fd (k_procs s pid) = Some d" "k_fds s d = Some fdp" "getfile fdp old = Some f"
    and "fdalloc e pid want s = (s1, Inr new)"
  shows "\<exists>s' fdp'. finishdup d (nat old) new s1 = (s', Inr (int new)) \<and> dinv s' \<and> k_procs s' = k_procs s \<and>
    k_fds s' = (k_fds s)(d := Some fdp') \<and> getfile fdp' (int new) = Some f \<and>
    (\<forall>i. i \<noteq> int new \<longrightarrow> getfile fdp' i = getfile fdp i) \<and> getfile fdp (int new) = None \<and>
    want \<le> new \<and> (\<forall>j. want \<le> j \<longrightarrow> j < new \<longrightarrow> getfile fdp (int j) \<noteq> None)"
proof -
  note inv = dinvD [OF assms(1)]
  have ok: "fd_ok fdp" using tables_at [OF inv(2) assms(3)] by simp
  obtain fdp1 where s1: "s1 = put_fdp d fdp1 s" "bal s1 (\<lambda>f. 0) {}" "tables_ok s1" "procs_ok s1" "extends fdp fdp1"
    and run: "fdalloc_loop (fd_limit e (k_procs s pid)) fdp want = (fdp1, Inr new)"
    using fdalloc_inv [OF inv assms(2,3,5)] by metis
  have new: "want \<le> new" "new < fd_nfiles fdp1" "fd_ofiles fdp1 ! new = None"
    "\<forall>j. want \<le> j \<longrightarrow> j < new \<longrightarrow> fd_ofiles fdp1 ! j \<noteq> None"
    using fdalloc_loop_spec [OF ok run] by auto
  obtain k where k: "fd_ofiles fdp1 = fd_ofiles fdp @ replicate k None" using s1(5) by (auto simp: extends_def)
  have get: "getfile fdp1 i = getfile fdp i" for i
    unfolding getfile_def u_ge_def k by (auto simp: nth_append)
  have old: "nat old < fd_nfiles fdp1" "fd_ofiles fdp1 ! nat old = Some f"
    using getfile_Some [of fdp1 old f] assms(4) get by auto
  have d1: "dinv s1" using s1 by (simp add: dinv_def)
  have "k_fds s1 d = Some fdp1" unfolding s1(1) by simp
  from finishdup_inv [OF d1 this old new(2,3)] obtain s' fdp' where s':
    "finishdup d (nat old) new s1 = (s', Inr (int new))" "dinv s'" "k_procs s' = k_procs s1"
    "k_fds s' = (k_fds s1)(d := Some fdp')" "fd_ofiles fdp' = (fd_ofiles fdp1)[new := Some f]" by blast
  have "getfile fdp' i = (if i = int new then Some f else getfile fdp1 i)" for i
    using new(2) unfolding getfile_def u_ge_def s'(5) by (auto simp: nth_list_update)
  then have "getfile fdp' i = (if i = int new then Some f else getfile fdp i)" for i using get by simp
  moreover have "getfile fdp1 (int new) = None"
    using new(2,3) by (simp add: getfile_def u_ge_def)
  then have "getfile fdp (int new) = None" using get by simp
  moreover have "getfile fdp1 (int j) \<noteq> None" if "want \<le> j" "j < new" for j
    using new(2,4) that by (simp add: getfile_def u_ge_def)
  then have "getfile fdp (int j) \<noteq> None" if "want \<le> j" "j < new" for j using that get by simp
  ultimately show ?thesis using s' new(1) s1(1) by (intro exI [of _ s'] exI [of _ fdp']) simp
qed

lemma fdalloc_fail:
  assumes "dinv s" "p_fd (k_procs s pid) = Some d" "k_fds s d = Some fdp" "fdalloc e pid want s = (s1, Inl err)"
  shows "dinv s1 \<and> k_procs s1 = k_procs s \<and> err = EMFILE \<and>
    (\<forall>j. want \<le> j \<longrightarrow> int j < fd_limit e (k_procs s pid) \<longrightarrow> getfile fdp (int j) \<noteq> None)"
proof -
  note inv = dinvD [OF assms(1)]
  have ok: "fd_ok fdp" using tables_at [OF inv(2) assms(3)] by simp
  obtain fdp1 where s1: "s1 = put_fdp d fdp1 s" "bal s1 (\<lambda>f. 0) {}" "tables_ok s1" "procs_ok s1" "extends fdp fdp1"
    and run: "fdalloc_loop (fd_limit e (k_procs s pid)) fdp want = (fdp1, Inl err)"
    using fdalloc_inv [OF inv assms(2-4)] by metis
  obtain k where k: "fd_ofiles fdp1 = fd_ofiles fdp @ replicate k None" using s1(5) by (auto simp: extends_def)
  have "getfile fdp1 i = getfile fdp i" for i
    unfolding getfile_def u_ge_def k by (auto simp: nth_append)
  moreover have "getfile fdp1 (int j) \<noteq> None" if "want \<le> j" "int j < fd_limit e (k_procs s pid)" for j
    using fdalloc_loop_spec [OF ok run] that by (auto simp: getfile_def u_ge_def)
  ultimately show ?thesis using fdalloc_loop_spec [OF ok run] s1 by (simp add: dinv_def)
qed

lemma sys_dup_inv:
  assumes "dinv s" "has_table s pid"
  shows "\<exists>s' r. sys_dup e pid old s = Some (s', r) \<and> dinv s' \<and> k_procs s' = k_procs s"
proof -
  obtain d fdp where c: "p_fd (k_procs s pid) = Some d" "k_fds s d = Some fdp" "cur_fd pid s = d" "cur_fdp pid s = fdp"
    using has_tableE [OF assms] by metis
  obtain s1 r where al: "fdalloc e pid 0 s = (s1, r)" by (cases "fdalloc e pid 0 s")
  show ?thesis
  proof (cases "getfile fdp old")
    case None then show ?thesis using assms(1) by (simp add: sys_dup_def c)
  next
    case (Some f)
    show ?thesis
    proof (cases r)
      case (Inl err)
      with fdalloc_fail [OF assms(1) c(1,2), of e 0 s1 err] al Some show ?thesis by (simp add: sys_dup_def c)
    next
      case (Inr new)
      with dup_inv [OF assms(1) c(1,2) Some, of e 0 s1 new] al Some show ?thesis by (auto simp: sys_dup_def c)
    qed
  qed
qed

lemma dinv_cong:
  assumes "k_fds s' = k_fds s" "k_files s' = k_files s" "k_filehead s' = k_filehead s" "k_nfiles s' = k_nfiles s"
    "\<And>pid. p_fd (k_procs s' pid) = p_fd (k_procs s pid)"
  shows "dinv s' = dinv s"
  using bal_cong [OF assms(1-4)] assms(1,5) by (simp add: dinv_def tables_ok_def procs_ok_def)

lemma dinv_event [simp]: "dinv (event ev s) = dinv s"
  by (rule dinv_cong) simp_all

lemma dinv_upd_proc: "(\<And>p. p_fd (f p) = p_fd p) \<Longrightarrow> dinv (upd_proc pid f s) = dinv s"
  by (rule dinv_cong) simp_all

lemma dinv_upd_file:
  assumes "dinv s" "\<And>f. f_count (g f) = f_count f"
  shows "dinv (upd_file fp g s)"
  using bal_upd_file [OF dinvD(1) [OF assms(1)], of g fp] assms by (simp add: dinv_def tables_ok_def procs_ok_def)

lemma dinv_put_flags:
  assumes "dinv s" "k_fds s d = Some fdp" "fdp' = fdp\<lparr>fd_ofileflags := (fd_ofileflags fdp)[i := v]\<rparr>"
  shows "dinv (put_fdp d fdp' s)"
proof -
  have ok: "fd_ok fdp" "fd_refcnt fdp = 1" using tables_at [OF dinvD(2) [OF assms(1)] assms(2)] by auto
  have "refs (put_fdp d fdp' s) f = refs s f" for f
    using assms(2,3) by (auto simp: refs_def split: if_splits)
  from bal_put [OF dinvD(1) [OF assms(1)] assms(2) this] tables_put [OF dinvD(2) [OF assms(1)], of fdp' d]
    procs_put [OF dinvD(3) [OF assms(1)], of d fdp'] ok assms(3)
  show ?thesis by (simp add: dinv_def fd_ok_def)
qed

lemma sys_dup2_cases:
  assumes "dinv s" "p_fd (k_procs s pid) = Some d" "k_fds s d = Some fdp" "sys_dup2 e pid old new s = res" "few_refs s"
  obtains err s' where "res = Some (s', Inl err)" "dinv s'" "k_procs s' = k_procs s"
    "getfile fdp old = None \<or> \<not> (0 \<le> new \<and> new < p_rlim_nofile (k_procs s pid) \<and> new < de_maxfiles e) \<or>
       int (fd_nfiles fdp) \<le> new"
  | "res = Some (s, Inr new)" "old = new" "getfile fdp old \<noteq> None"
  | s' fdp' f where "res = Some (s', Inr new)" "dinv s'" "k_procs s' = k_procs s" "getfile fdp old = Some f"
      "k_fds s' = (k_fds s)(d := Some fdp')" "getfile fdp' new = Some f"
      "\<forall>i. i \<noteq> new \<longrightarrow> getfile fdp' i = getfile fdp i"
proof -
  have cur: "cur_fd pid s = d" "cur_fdp pid s = fdp" using assms(2,3) by (simp_all add: cur_fd_def cur_fdp_def)
  show thesis
  proof (cases "getfile fdp old = None \<or> u_ge new (p_rlim_nofile (k_procs s pid)) \<or> u_ge new (de_maxfiles e)")
    case True
    then show thesis using that(1) [of s EBADF] assms(1,4) by (auto simp: sys_dup2_def cur u_ge_def)
  next
    case ok: False
    then obtain f where f: "getfile fdp old = Some f" and new0: "0 \<le> new" by (auto simp: u_ge_def)
    note fo = getfile_Some [OF f]
    show thesis
    proof (cases "old = new")
      case True
      then show thesis using that(2) ok assms(4) by (auto simp: sys_dup2_def cur)
    next
      case ne: False
      show thesis
      proof (cases "int (fd_nfiles fdp) \<le> new")
        case True
        obtain s1 r where al: "fdalloc e pid (nat new) s = (s1, r)" by (cases "fdalloc e pid (nat new) s")
        show thesis
        proof (cases r)
          case (Inl err)
          with fdalloc_fail [OF assms(1-3), of e "nat new" s1 err] al that(1) [of s1 err] ok ne True assms(4)
          show thesis by (auto simp: sys_dup2_def cur)
        next
          case (Inr i)
          from dup_inv [OF assms(1-3) f, of e "nat new" s1 i] al Inr obtain s' fdp' where s':
            "finishdup d (nat old) i s1 = (s', Inr (int i))" "dinv s'" "k_procs s' = k_procs s"
            "k_fds s' = (k_fds s)(d := Some fdp')" "getfile fdp' (int i) = Some f"
            "\<forall>j. j \<noteq> int i \<longrightarrow> getfile fdp' j = getfile fdp j" "nat new \<le> i"
            "\<forall>j. nat new \<le> j \<longrightarrow> j < i \<longrightarrow> getfile fdp (int j) \<noteq> None" by blast
          have "getfile fdp (int (nat new)) = None" using True new0 by (simp add: getfile_def u_ge_def)
          with s'(7,8) have i: "i = nat new" by (metis le_refl linorder_le_less_linear order_antisym)
          have "res = Some (s', Inr new)"
            using ok ne True al Inr i s'(1) new0 assms(4) by (auto simp: sys_dup2_def cur)
          with that(3) s'(2-6) f i new0 show thesis by simp
        qed
      next
        case False
        then have nn: "nat new < fd_nfiles fdp" using new0 by simp
        obtain s1 r fdp1 where s1: "fdrelease e pid (nat new) s = Some (s1, r)" "dinv s1" "k_procs s1 = k_procs s"
          "k_fds s1 = (k_fds s)(d := Some fdp1)" "fd_ofiles fdp1 = (fd_ofiles fdp)[nat new := None]"
        proof (cases "fd_ofiles fdp ! nat new = None")
          case True
          then have "fdrelease e pid (nat new) s = Some (s, Inl EBADF)" by (simp add: fdrelease_def cur Let_def)
          moreover have "(fd_ofiles fdp)[nat new := None] = fd_ofiles fdp" using True by (metis list_update_id)
          ultimately show thesis using that [of s _ fdp] assms(1,3) by (simp add: fun_upd_idem)
        next
          case False
          from fdrelease_inv [OF assms(1,5,2,3) nn this, of e] that show thesis by blast
        qed
        have at1: "k_fds s1 d = Some fdp1" using s1(4) by simp
        have old1: "nat old < fd_nfiles fdp1" "fd_ofiles fdp1 ! nat old = Some f"
          using fo ne new0 unfolding s1(5) by (auto simp: nth_list_update)
        have new1: "nat new < fd_nfiles fdp1" "fd_ofiles fdp1 ! nat new = None" using nn unfolding s1(5) by auto
        from finishdup_inv [OF s1(2) at1 old1 new1] obtain s' fdp' where s':
          "finishdup d (nat old) (nat new) s1 = (s', Inr (int (nat new)))" "dinv s'" "k_procs s' = k_procs s1"
          "k_fds s' = (k_fds s1)(d := Some fdp')" "fd_ofiles fdp' = (fd_ofiles fdp1)[nat new := Some f]" by blast
        have get: "getfile fdp' i = (if i = new then Some f else getfile fdp i)" for i
          using nn new0 unfolding getfile_def u_ge_def s'(5) s1(5) by (auto simp: nth_list_update)
        have "res = Some (s', Inr new)"
          using ok ne False s1(1) s'(1) new0 assms(4) by (auto simp: sys_dup2_def cur)
        with that(3) [of s' f fdp'] s' s1(3,4) f get show thesis by simp
      qed
    qed
  qed
qed

lemma sys_dup2_inv:
  assumes "dinv s" "has_table s pid" "few_refs s"
  shows "\<exists>s' r. sys_dup2 e pid old new s = Some (s', r) \<and> dinv s' \<and> k_procs s' = k_procs s"
proof -
  obtain d fdp where c: "p_fd (k_procs s pid) = Some d" "k_fds s d = Some fdp" using has_tableE [OF assms(1,2)] by metis
  from sys_dup2_cases [OF assms(1) c refl assms(3), of e old new] show ?thesis
    by cases (use assms(1) in auto)
qed

definition same_tables :: "dstate \<Rightarrow> dstate \<Rightarrow> bool" where
  "same_tables s s' \<longleftrightarrow> (\<forall>pid. p_fd (k_procs s' pid) = p_fd (k_procs s pid))"

lemma fcntl_setfl_inv: "dinv s \<Longrightarrow> dinv (fst (fcntl_setfl e fp arg s)) \<and> k_procs (fst (fcntl_setfl e fp arg s)) = k_procs s"
  by (auto simp: fcntl_setfl_def fo_ioctl_def Let_def dinv_upd_file split: prod.splits option.splits)

lemma fcntl_getown_inv: "dinv s \<Longrightarrow> dinv (fst (fcntl_getown e fp s)) \<and> k_procs (fst (fcntl_getown e fp s)) = k_procs s"
  by (auto simp: fcntl_getown_def fo_ioctl_def Let_def split: prod.splits)

lemma dinv_pgid [simp]: "dinv (s\<lparr>k_pgid := g\<rparr>) = dinv s"
  by (rule dinv_cong) simp_all

lemma fcntl_setown_inv:
  "dinv s \<Longrightarrow> dinv (fst (fcntl_setown e fp arg s)) \<and> k_procs (fst (fcntl_setown e fp arg s)) = k_procs s"
  by (auto simp: fcntl_setown_def fo_ioctl_def Let_def split: prod.splits option.splits)

lemma fcntl_setlk_inv:
  "dinv s \<Longrightarrow> dinv (fst (fcntl_setlk e pid fp flg arg s)) \<and> same_tables s (fst (fcntl_setlk e pid fp flg arg s))"
  by (auto simp: fcntl_setlk_def vop_advlock_def Let_def dinv_upd_proc same_tables_def
      split: prod.splits option.splits sum.splits lf_kind.splits)

lemma fcntl_getlk_inv:
  "dinv s \<Longrightarrow> dinv (fst (fcntl_getlk e pid fp arg s)) \<and> k_procs (fst (fcntl_getlk e pid fp arg s)) = k_procs s"
  by (auto simp: fcntl_getlk_def vop_advlock_def Let_def split: prod.splits option.splits sum.splits)

lemma sys_fcntl_inv:
  assumes "dinv s" "has_table s pid"
  shows "dinv (fst (sys_fcntl e pid fd cmd s)) \<and> same_tables s (fst (sys_fcntl e pid fd cmd s))"
proof -
  obtain d fdp where c: "p_fd (k_procs s pid) = Some d" "k_fds s d = Some fdp" "cur_fd pid s = d" "cur_fdp pid s = fdp"
    using has_tableE [OF assms] by metis
  show ?thesis
  proof (cases "getfile fdp fd")
    case None
    then show ?thesis using assms(1) by (simp add: sys_fcntl_def c same_tables_def)
  next
    case (Some f)
    have dup: ?thesis if cmd: "cmd = F_DUPFD newmin" for newmin
    proof (cases "u_ge newmin (p_rlim_nofile (k_procs s pid)) \<or> u_ge newmin (de_maxfiles e)")
      case True
      then show ?thesis using assms(1) Some cmd by (simp add: sys_fcntl_def c same_tables_def)
    next
      case False
      obtain s1 r where al: "fdalloc e pid (nat newmin) s = (s1, r)" by (cases "fdalloc e pid (nat newmin) s")
      show ?thesis
      proof (cases r)
        case (Inl err)
        with fdalloc_fail [OF assms(1) c(1,2), of e "nat newmin" s1 err] al Some False cmd show ?thesis
          by (simp add: sys_fcntl_def c same_tables_def)
      next
        case (Inr new)
        with dup_inv [OF assms(1) c(1,2) Some, of e "nat newmin" s1 new] al Some False cmd show ?thesis
          by (auto simp: sys_fcntl_def c same_tables_def)
      qed
    qed
    show ?thesis
    proof (cases cmd)
      case (F_DUPFD newmin) then show ?thesis by (rule dup)
    next
      case (F_SETFD arg)
      then show ?thesis
        using dinv_put_flags [OF assms(1) c(2) refl] Some by (simp add: sys_fcntl_def c same_tables_def Let_def)
    next
      case (F_SETFL arg)
      then show ?thesis using fcntl_setfl_inv [OF assms(1), of e f arg] Some
        by (simp add: sys_fcntl_def c same_tables_def)
    next
      case F_GETOWN
      then show ?thesis using fcntl_getown_inv [OF assms(1), of e f] Some
        by (simp add: sys_fcntl_def c same_tables_def)
    next
      case (F_SETOWN arg)
      then show ?thesis using fcntl_setown_inv [OF assms(1), of e f arg] Some
        by (simp add: sys_fcntl_def c same_tables_def)
    next
      case (F_GETLK arg)
      then show ?thesis using fcntl_getlk_inv [OF assms(1), of e pid f arg] Some
        by (auto simp: sys_fcntl_def c same_tables_def split: prod.splits)
    next
      case (F_SETLK arg)
      then show ?thesis using fcntl_setlk_inv [OF assms(1), of e pid f F_POSIX arg] Some
        by (simp add: sys_fcntl_def c)
    next
      case (F_SETLKW arg)
      then show ?thesis using fcntl_setlk_inv [OF assms(1), of e pid f "F_POSIX OR F_WAIT" arg] Some
        by (simp add: sys_fcntl_def c)
    qed (use assms(1) Some in \<open>simp_all add: sys_fcntl_def c same_tables_def\<close>)
  qed
qed

subsection \<open>Opening files\<close>

lemma bal_new_file:
  assumes "bal s x {}" "k_files s new = None" "f_count fl = 1"
    "k_files s' = (k_files s)(new := Some fl)" "k_fds s' = k_fds s" "k_nfiles s' = k_nfiles s + 1"
    "set (k_filehead s') = insert new (set (k_filehead s))" "distinct (k_filehead s')"
    "length (k_filehead s') = length (k_filehead s) + 1"
  shows "bal s' (x(new := 1)) {}"
proof (rule balI)
  have r: "refs s' = refs s" using assms(5) by (rule refs_cong)
  show "lists_ok s'" using bal_lists [OF assms(1)] assms(4-9) by (auto simp: lists_ok_def)
  show "file_bal (k_files s' f) (refs s' f) ((x(new := 1)) f) (f \<in> {})" for f
    using bal_at [OF assms(1), of f] balD(1,2) [OF assms(1,2)] assms(3,4) r
    by (cases "f = new") (auto simp: file_bal_def s16_id)
qed

lemma fhead_insert_after:
  assumes "distinct l" "fq \<in> set l" "new \<notin> set l"
  shows "let l' = takeWhile (\<lambda>x. x \<noteq> fq) l @ fq # new # tl (dropWhile (\<lambda>x. x \<noteq> fq) l) in
    set l' = insert new (set l) \<and> distinct l' \<and> length l' = length l + 1"
proof -
  obtain ys zs where l: "l = ys @ fq # zs" "fq \<notin> set ys" using split_list_first [OF assms(2)] by auto
  then have tw: "takeWhile (\<lambda>x. x \<noteq> fq) l = ys" "dropWhile (\<lambda>x. x \<noteq> fq) l = fq # zs"
    by (auto simp: takeWhile_append dropWhile_append)
  show ?thesis using assms(1,3) unfolding tw by (auto simp: l Let_def)
qed

text \<open>
  After \<open>falloc\<close> the new file is open once, in the lowest free descriptor, and the hint
  \<open>fd_freefile\<close> points at it.
\<close>

lemma falloc_inv:
  assumes "dinv s" "p_fd (k_procs s pid) = Some d" "k_fds s d = Some fdp" "k_files s new = None"
    and "falloc e pid new s = (s', r)"
  shows "dinv s' \<and> k_procs s' = k_procs s \<and>
    (\<forall>i. r = Inr i \<longrightarrow> (\<exists>fdp' fl. k_fds s' = (k_fds s)(d := Some fdp') \<and> i < fd_nfiles fdp' \<and>
       fd_ofiles fdp' ! i = Some new \<and> fd_freefile fdp' = int i \<and> k_files s' new = Some fl \<and>
       refs s' new = {(d, i)}))"
proof -
  note inv = dinvD [OF assms(1)]
  have ok: "fd_ok fdp" using tables_at [OF inv(2) assms(3)] by simp
  obtain s1 r1 where al: "fdalloc e pid 0 s = (s1, r1)" by (cases "fdalloc e pid 0 s")
  show ?thesis
  proof (cases r1)
    case (Inl err)
    with fdalloc_fail [OF assms(1-3), of e 0 s1 err] al assms(5) show ?thesis by (auto simp: falloc_def)
  next
    case (Inr i)
    obtain fdp1 where s1: "s1 = put_fdp d fdp1 s" "bal s1 (\<lambda>f. 0) {}" "tables_ok s1" "procs_ok s1" "fd_ok fdp1"
        "extends fdp fdp1"
      and run: "fdalloc_loop (fd_limit e (k_procs s pid)) fdp 0 = (fdp1, Inr i)"
      and cur: "cur_fd pid s1 = d" "cur_fdp pid s1 = fdp1"
      using fdalloc_inv [OF inv assms(2,3) al] Inr by metis
    have d1: "dinv s1" using s1 by (simp add: dinv_def)
    have new: "i < fd_nfiles fdp1" "fd_ofiles fdp1 ! i = None" "int i \<le> fd_lastfile fdp1"
      using fdalloc_loop_spec [OF ok run] by auto
    have ff: "fd_freefile fdp1 = int i" using fdalloc_loop_freefile [OF run] ok by (simp add: fd_ok_def)
    show ?thesis
    proof (cases "k_nfiles s1 \<ge> de_maxfiles e")
      case True
      then show ?thesis using al Inr d1 s1(1) assms(5) by (auto simp: falloc_def)
    next
      case False
      let ?cr = "p_ucred (k_procs s1 pid)"
      let ?fl = "\<lparr>f_flag = 0, f_type = DTYPE_none, f_count = 1, f_cred = ?cr, f_ops = False, f_offset = 0, f_data = 0\<rparr>"
      define fhead where "fhead = (case fd_ofiles fdp1 ! 0 of
          Some fq \<Rightarrow> takeWhile (\<lambda>x. x \<noteq> fq) (k_filehead s1) @ fq # new
            # tl (dropWhile (\<lambda>x. x \<noteq> fq) (k_filehead s1))
        | None \<Rightarrow> new # k_filehead s1)"
      define s2 where "s2 = s1\<lparr>k_nfiles := k_nfiles s1 + 1, k_files := (k_files s1)(new := Some ?fl),
          k_filehead := fhead, k_cr_ref := (k_cr_ref s1)(?cr := k_cr_ref s1 ?cr + 1)\<rparr>"
      let ?fdp = "fdp1\<lparr>fd_ofiles := (fd_ofiles fdp1)[i := Some new]\<rparr>"
      have res: "s' = put_fdp d ?fdp s2" "r = Inr i"
        using False al Inr assms(5) by (auto simp: falloc_def cur s2_def fhead_def Let_def split: option.splits)
      have none: "k_files s1 new = None" using assms(4) s1(1) by simp
      have ls: "distinct (k_filehead s1)" "set (k_filehead s1) = dom (k_files s1)"
        using bal_lists [OF s1(2)] by (auto simp: lists_ok_def)
      have at1: "k_fds s1 d = Some fdp1" by (simp add: s1(1))
      have "0 < fd_nfiles fdp1" using new(1) by linarith
      then have mem: "fq \<in> set (k_filehead s1)" if "fd_ofiles fdp1 ! 0 = Some fq" for fq
        using slot_open [OF s1(2) at1 _ that] ls(2) by auto
      have nomem: "new \<notin> set (k_filehead s1)" using ls(2) none by auto
      have fh: "set fhead = insert new (set (k_filehead s1)) \<and> distinct fhead \<and>
          length fhead = length (k_filehead s1) + 1"
      proof (cases "fd_ofiles fdp1 ! 0")
        case None then show ?thesis using ls(1) nomem by (simp add: fhead_def)
      next
        case (Some fq)
        with fhead_insert_after [OF ls(1) mem [OF Some] nomem] show ?thesis unfolding fhead_def Let_def by simp
      qed
      have b2: "bal s2 ((\<lambda>f. 0)(new := 1)) {}"
        by (rule bal_new_file [OF s1(2) none, where fl = ?fl]) (use fh in \<open>simp_all add: s2_def\<close>)
      have at2: "k_fds s2 d = Some fdp1" using at1 by (simp add: s2_def)
      have b: "bal s' (((\<lambda>f. 0)(new := 1))(new := ((\<lambda>f. 0)(new := 1)) new - 1)) {}"
        unfolding res(1) by (rule bal_fill_slot [OF b2 at2 new(1)]) (use new(2) in simp_all)
      have okf: "fd_ok ?fdp" using s1(5) new(1,3) by (auto simp: fd_ok_def nth_list_update)
      have ref1: "fd_refcnt fdp1 = 1" using tables_at [OF s1(3) at1] by simp
      have "tables_ok s2" using s1(3) by (simp add: tables_ok_def s2_def)
      then have "tables_ok s'" unfolding res(1) by (rule tables_put) (use okf ref1 in simp_all)
      moreover have "procs_ok s2" using s1(4) by (simp add: procs_ok_def s2_def)
      then have "procs_ok s'" unfolding res(1) by (rule procs_put)
      ultimately have "dinv s'" using b by (simp add: dinv_def)
      moreover have "refs s1 new = {}" using balD(2) [OF s1(2) none] by simp
      then have "refs s2 new = {}" using refs_cong [of s2 s1] by (simp add: s2_def)
      then have "refs s' new = {(d, i)}"
        unfolding res(1) using refs_put_slot [OF at2, of ?fdp i "Some new" new] new(1) by simp
      ultimately show ?thesis
        using new(1) ff unfolding res by (auto simp: s1(1) s2_def)
    qed
  qed
qed

text \<open>A freed name in \<open>D\<close> that no descriptor holds any more may be forgotten.\<close>

lemma bal_forget:
  assumes "bal s x {f}" "refs s f = {}"
  shows "bal s x {}"
proof (rule balI)
  show "file_bal (k_files s g) (refs s g) (x g) (g \<in> {})" for g
    using bal_at [OF assms(1), of g] assms(2) by (cases "g = f") (auto simp: file_bal_def split: option.splits)
qed (rule bal_lists [OF assms(1)])

text \<open>The state in which \<open>sys_open\<close> has freed the file that descriptor \<open>indx\<close> still names.\<close>

definition half_open :: "dstate \<Rightarrow> nat \<Rightarrow> filedesc \<Rightarrow> nat \<Rightarrow> nat \<Rightarrow> bool" where
  "half_open s d fdp indx f \<longleftrightarrow> bal s (\<lambda>f. 0) {f} \<and> tables_ok s \<and> procs_ok s \<and> k_fds s d = Some fdp \<and>
     indx < fd_nfiles fdp \<and> fd_ofiles fdp ! indx = Some f \<and> fd_freefile fdp = int indx \<and> refs s f = {(d, indx)}"

lemma half_open_replace:
  assumes "half_open s d fdp indx f" "fd_ofiles fdp' = (fd_ofiles fdp)[indx := None]"
    "fd_ok fdp'" "fd_refcnt fdp' = 1"
  shows "dinv (put_fdp d fdp' s)"
proof -
  have h: "bal s (\<lambda>f. 0) {f}" "tables_ok s" "procs_ok s" "k_fds s d = Some fdp" "indx < fd_nfiles fdp"
    "fd_ofiles fdp ! indx = Some f" "refs s f = {(d, indx)}"
    using assms(1) by (auto simp: half_open_def)
  have r: "refs (put_fdp d fdp' s) g = refs s g - {(d, indx)}" for g
    using refs_put_slot [OF h(4) assms(2) h(5), of g] by simp
  have out: "(d, indx) \<notin> refs s g" if "g \<noteq> f" for g using that h(4,6) by (auto simp: refs_def)
  have fb: "file_bal (k_files s g) (refs s g - {(d, indx)}) 0 (g \<in> {f})" for g
    using bal_at [OF h(1), of g] out [of g] by (cases "g = f") (auto simp: file_bal_def split: option.splits)
  have "bal (put_fdp d fdp' s) (\<lambda>f. 0) {f}"
    using lists_put [OF bal_lists [OF h(1)]] fb r by (intro balI) simp_all
  moreover have "refs (put_fdp d fdp' s) f = {}" using r h(7) by simp
  ultimately have "bal (put_fdp d fdp' s) (\<lambda>f. 0) {}" by (rule bal_forget)
  then show ?thesis using tables_put [OF h(2) assms(3,4)] procs_put [OF h(3)] by (simp add: dinv_def)
qed

lemma half_open_clear:
  assumes "half_open s d fdp indx f"
  shows "dinv (put_fdp d (fdp\<lparr>fd_ofiles := (fd_ofiles fdp)[indx := None]\<rparr>) s)"
proof (rule half_open_replace [OF assms])
  have h: "tables_ok s" "k_fds s d = Some fdp" "fd_freefile fdp = int indx" "indx < fd_nfiles fdp"
    using assms by (auto simp: half_open_def)
  note ok = tables_at [OF h(1,2)]
  show "fd_ok (fdp\<lparr>fd_ofiles := (fd_ofiles fdp)[indx := None]\<rparr>)"
    using ok h(3,4) by (auto simp: fd_ok_def nth_list_update)
  show "fd_refcnt (fdp\<lparr>fd_ofiles := (fd_ofiles fdp)[indx := None]\<rparr>) = 1" using ok by simp
qed simp

text \<open>The slot \<open>indx\<close> takes over a reference the routine holds.\<close>

lemma half_open_fill:
  assumes "half_open s d fdp indx f" "bal s2 x {f}" "k_fds s2 = k_fds s" "0 < x g" "g \<noteq> f"
    "fd_ofiles fdp' = (fd_ofiles fdp)[indx := Some g]"
  shows "bal (put_fdp d fdp' s2) (x(g := x g - 1)) {}"
proof -
  have h: "k_fds s d = Some fdp" "indx < fd_nfiles fdp" "fd_ofiles fdp ! indx = Some f" "refs s f = {(d, indx)}"
    using assms(1) by (auto simp: half_open_def)
  have at2: "k_fds s2 d = Some fdp" using h(1) assms(3) by simp
  have "bal (put_fdp d fdp' s2) (x(g := x g - 1)) {f}"
    by (rule bal_fill_slot [OF assms(2) at2 h(2) _ assms(4,6)]) (use h(3) in simp)
  moreover have "refs s2 f = {(d, indx)}" using refs_cong [OF assms(3)] h(4) by simp
  then have "refs (put_fdp d fdp' s2) f = {}"
    using refs_put_slot [OF at2 assms(6) h(2), of f] assms(5) by simp
  ultimately show ?thesis by (rule bal_forget)
qed

lemma dupfdopen_inv:
  assumes "half_open s d fdp indx f"
  shows "(\<exists>err. dupfdopen d indx dfd mode er s = Some (s, Some err)) \<or>
    (\<exists>s'. dupfdopen d indx dfd mode er s = Some (s', None) \<and> dinv s' \<and> k_procs s' = k_procs s)"
proof (cases "getfile fdp dfd")
  case None
  then show ?thesis using assms by (simp add: dupfdopen_def half_open_def)
next
  case (Some w)
  have h: "bal s (\<lambda>f. 0) {f}" "tables_ok s" "procs_ok s" "k_fds s d = Some fdp" "indx < fd_nfiles fdp"
    "fd_ofiles fdp ! indx = Some f" "refs s f = {(d, indx)}"
    using assms by (auto simp: half_open_def)
  have ok: "fd_ok fdp" "fd_refcnt fdp = 1" using tables_at [OF h(2,4)] by auto
  have w: "nat dfd < fd_nfiles fdp" "fd_ofiles fdp ! nat dfd = Some w" using getfile_Some [OF Some] by auto
  show ?thesis
  proof (cases "w = f \<or> (er \<noteq> ENODEV \<and> er \<noteq> ENXIO) \<or>
      (er = ENODEV \<and> ((word_of_int mode AND (FREAD OR FWRITE)) OR f_flag (the (k_files s w))) \<noteq> f_flag (the (k_files s w)))")
    case True
    then show ?thesis using h(4,6) Some by (auto simp: dupfdopen_def)
  next
    case go: False
    then have ne: "w \<noteq> f" "nat dfd \<noteq> indx" using w(2) h(6) by auto
    let ?fl = "fd_ofileflags fdp ! nat dfd"
    let ?up = "fd_used (set_slot indx (Some w) ?fl fdp) indx"
    have okup: "fd_ok ?up" using fd_ok_open [OF ok(1) h(5)] .
    have kw: "k_files s w \<noteq> None"
    proof
      assume "k_files s w = None"
      with balD(2) [OF h(1) this] ne(1) h(4) w show False by (auto simp: refs_def)
    qed
    show ?thesis
    proof (cases "er = ENODEV")
      case True
      let ?s1 = "upd_file w (\<lambda>f. f\<lparr>f_count := s16 (f_count f + 1)\<rparr>) s"
      have "bal ?s1 ((\<lambda>f. 0)(w := 0 + 1)) {f}" using bal_count [OF h(1) kw] by simp
      then have "bal (put_fdp d ?up ?s1) (((\<lambda>f. 0)(w := 0 + 1))(w := ((\<lambda>f. 0)(w := 0 + 1)) w - 1)) {}"
        by (rule half_open_fill [OF assms]) (use ne in simp_all)
      moreover have "tables_ok (put_fdp d ?up ?s1)"
        using tables_cong [of ?s1 s] h(2) okup ok(2) by (intro tables_put) simp_all
      moreover have "procs_ok (put_fdp d ?up ?s1)" using procs_cong [of ?s1 s] h(3) by (intro procs_put) simp
      ultimately have "dinv (put_fdp d ?up ?s1)" by (simp add: dinv_def)
      moreover have "dupfdopen d indx dfd mode er s = Some (put_fdp d ?up ?s1, None)"
        using go True Some h(4,6) by (auto simp: dupfdopen_def Let_def set_slot_def)
      ultimately show ?thesis by simp
    next
      case False
      with go have er: "er = ENXIO" by simp
      have wup: "nat dfd < fd_nfiles ?up" "fd_ofiles ?up ! nat dfd \<noteq> None" using w ne(2) by auto
      obtain fdp2 where un: "fd_unused (set_slot (nat dfd) None 0 ?up) (nat dfd) = Some fdp2" "fd_ok fdp2"
        "fd_ofiles fdp2 = (fd_ofiles ?up)[nat dfd := None]"
        using fd_ok_close [OF okup wup] by blast
      let ?fdpa = "set_slot (nat dfd) None 0 fdp"
      have ba: "bal (put_fdp d ?fdpa s) ((\<lambda>f. 0)(w := 0 + 1)) {f}"
        using bal_clear_slot [OF h(1,4) w(2,1)] ne(1) by simp
      have ra: "refs (put_fdp d ?fdpa s) f = {(d, indx)}"
        using refs_put_slot [OF h(4), of ?fdpa "nat dfd" None f] w(1) h(7) ne(2) by auto
      have o2: "fd_ofiles fdp2 = (fd_ofiles ?fdpa)[indx := Some w]"
        unfolding un(3) using ne(2) by (simp add: list_update_swap)
      have ata: "k_fds (put_fdp d ?fdpa s) d = Some ?fdpa" by simp
      have "bal (put_fdp d fdp2 (put_fdp d ?fdpa s)) (((\<lambda>f. 0)(w := 0 + 1))(w := ((\<lambda>f. 0)(w := 0 + 1)) w - 1)) {f}"
        by (rule bal_fill_slot [OF ba ata _ _ _ o2]) (use h(5,6) ne(2) in simp_all)
      then have b: "bal (put_fdp d fdp2 s) (\<lambda>f. 0) {f}" by (simp add: put_put)
      have "refs (put_fdp d fdp2 (put_fdp d ?fdpa s)) f = {}"
        using refs_put_slot [OF ata o2, of f] ra h(5) ne(1) by simp
      then have "refs (put_fdp d fdp2 s) f = {}" by (simp add: put_put)
      with b have "bal (put_fdp d fdp2 s) (\<lambda>f. 0) {}" by (rule bal_forget)
      moreover have "fd_refcnt fdp2 = 1" using fd_unused_refcnt [OF un(1)] ok(2) by simp
      then have "tables_ok (put_fdp d fdp2 s)" using tables_put [OF h(2) un(2)] by simp
      ultimately have "dinv (put_fdp d fdp2 s)" using procs_put [OF h(3)] by (simp add: dinv_def)
      moreover have comm: "fd_used (fdp\<lparr>fd_ofiles := (fd_ofiles fdp)[indx := Some w, nat dfd := None],
            fd_ofileflags := (fd_ofileflags fdp)[indx := ?fl, nat dfd := 0]\<rparr>) indx =
          set_slot (nat dfd) None 0 ?up"
        by (simp add: fd_used_def set_slot_def)
      have "dupfdopen d indx dfd mode er s = Some (put_fdp d fdp2 s, None)"
        using er Some h(4,6) ne(1) un(1) comm by (simp add: dupfdopen_def Let_def)
      ultimately show ?thesis by simp
    qed
  qed
qed

lemma half_open_start:
  assumes "dinv s" "k_fds s d = Some fdp" "indx < fd_nfiles fdp" "fd_ofiles fdp ! indx = Some new"
    "fd_freefile fdp = int indx" "k_files s new = Some fl" "refs s new = {(d, indx)}"
  shows "half_open (ffree new s) d fdp indx new"
proof -
  note inv = dinvD [OF assms(1)]
  have "bal (ffree new s) ((\<lambda>f. 0)(new := 0)) {new}"
    by (rule bal_ffree [OF inv(1)]) (use assms(6) in simp_all)
  moreover have "refs (ffree new s) = refs s" by (rule refs_cong) simp
  ultimately show ?thesis
    using inv assms by (simp add: half_open_def tables_ok_def procs_ok_def)
qed

lemma same_tables_refl: "k_procs s' = k_procs s \<Longrightarrow> same_tables s s'"
  by (simp add: same_tables_def)

lemma sys_open_inv:
  assumes "dinv s" "has_table s pid" "k_files s new = None"
  shows "\<exists>s' r. sys_open e pid new oflags vn s = Some (s', r) \<and> dinv s' \<and> same_tables s s'"
proof -
  obtain d fdp where c: "p_fd (k_procs s pid) = Some d" "k_fds s d = Some fdp" using has_tableE [OF assms(1,2)] by metis
  let ?w = "word_of_int (FFLAGS oflags) :: u16"
  obtain s1 r1 where fa: "falloc e pid new s = (s1, r1)" by (cases "falloc e pid new s")
  note fal = falloc_inv [OF assms(1) c assms(3) fa]
  show ?thesis
  proof (cases "?w AND (FREAD OR FWRITE) = 0")
    case True
    then show ?thesis using assms(1) by (simp add: sys_open_def Let_def same_tables_def)
  next
    case mode: False
    show ?thesis
    proof (cases r1)
      case (Inl err)
      then show ?thesis using fal mode by (simp add: sys_open_def fa Let_def same_tables_def)
    next
      case (Inr indx)
      obtain fdp1 fl where f: "k_fds s1 = (k_fds s)(d := Some fdp1)" "indx < fd_nfiles fdp1"
        "fd_ofiles fdp1 ! indx = Some new" "fd_freefile fdp1 = int indx" "k_files s1 new = Some fl"
        "refs s1 new = {(d, indx)}" and d1: "dinv s1" "k_procs s1 = k_procs s"
        using fal Inr by blast
      have cur: "cur_fd pid s1 = d" using c(1) d1(2) by (simp add: cur_fd_def)
      show ?thesis
      proof (cases "vn (- int indx - 1)")
        case (Vn_error er dupfd)
        let ?s2 = "upd_proc pid (\<lambda>p. p\<lparr>p_dupfd := dupfd\<rparr>) s1"
        have d2: "dinv ?s2" using d1(1) by (simp add: dinv_upd_proc)
        have "refs ?s2 = refs s1" by (rule refs_cong) simp
        then have ho: "half_open (ffree new ?s2) d fdp1 indx new"
          using half_open_start [OF d2, of d fdp1 indx new fl] f by simp
        have clr: "dinv (put_fdp d (fdp1\<lparr>fd_ofiles := (fd_ofiles fdp1)[indx := None]\<rparr>) (ffree new ?s2))"
          by (rule half_open_clear [OF ho])
        have at2: "the (k_fds (ffree new ?s2) d) = fdp1" using f(1) by simp
        have st: "same_tables s (put_fdp d g (ffree new ?s2))" for g using d1(2) by (simp add: same_tables_def)
        show ?thesis
        proof (cases "(er = ENODEV \<or> er = ENXIO) \<and> dupfd \<ge> 0")
          case False
          then show ?thesis using mode clr st at2
            by (auto simp: sys_open_def fa Inr cur Vn_error Let_def)
        next
          case True
          from dupfdopen_inv [OF ho, of dupfd "FFLAGS oflags" er] show ?thesis
          proof
            assume "\<exists>err. dupfdopen d indx dupfd (FFLAGS oflags) er (ffree new ?s2) = Some (ffree new ?s2, Some err)"
            then show ?thesis using mode clr st at2 True
              by (auto simp: sys_open_def fa Inr cur Vn_error Let_def)
          next
            assume "\<exists>s'. dupfdopen d indx dupfd (FFLAGS oflags) er (ffree new ?s2) = Some (s', None) \<and> dinv s' \<and>
                k_procs s' = k_procs (ffree new ?s2)"
            then show ?thesis using mode True d1(2)
              by (auto simp: sys_open_def fa Inr cur Vn_error Let_def same_tables_def)
          qed
        qed
      next
        case (Vn_ok vp)
        let ?s2 = "upd_file new (\<lambda>f. f\<lparr>f_flag := ?w AND FMASK, f_type := DTYPE_VNODE, f_ops := True, f_data := vp\<rparr>)
            (upd_proc pid (\<lambda>p. p\<lparr>p_dupfd := 0\<rparr>) s1)"
        have d2: "dinv ?s2" using d1(1) by (intro dinv_upd_file) (simp_all add: dinv_upd_proc)
        have st: "same_tables s ?s2" using d1(2) by (simp add: same_tables_def)
        show ?thesis
        proof (cases "?w AND (O_EXLOCK OR O_SHLOCK) = 0")
          case True
          then show ?thesis using mode d2 st by (simp add: sys_open_def fa Inr Vn_ok Let_def)
        next
          case False
          let ?lf = "whole_file (if ?w AND O_EXLOCK \<noteq> 0 then F_WRLCK else F_RDLCK)"
          let ?ty = "if ?w AND FNONBLOCK = 0 then F_FLOCK OR F_WAIT else F_FLOCK"
          obtain err fl' where adv: "de_advlock e vp (Id_file new) Op_SETLK ?lf ?ty = (err, fl')"
            by (cases "de_advlock e vp (Id_file new) Op_SETLK ?lf ?ty")
          let ?s3 = "event (Ev_advlock vp (Id_file new) Op_SETLK ?lf ?ty) ?s2"
          show ?thesis
          proof (cases err)
            case None
            have "dinv (upd_file new (\<lambda>f. f\<lparr>f_flag := f_flag f OR FHASLOCK\<rparr>) ?s3)"
              using d2 by (intro dinv_upd_file) simp_all
            then show ?thesis using mode False adv None d1(2)
              by (simp add: sys_open_def fa Inr Vn_ok Let_def vop_advlock_def same_tables_def)
          next
            case (Some er)
            let ?s4 = "event (Ev_vn_close vp) ?s3"
            have "refs ?s4 = refs s1" by (rule refs_cong) simp
            then have ho: "half_open (ffree new ?s4) d fdp1 indx new"
              using half_open_start [of ?s4 d fdp1 indx new] d2 f by simp
            have at4: "the (k_fds (ffree new ?s4) d) = fdp1" using f(1) by simp
            show ?thesis using half_open_clear [OF ho] mode False adv Some d1(2) at4
              by (simp add: sys_open_def fa Inr Vn_ok Let_def vop_advlock_def same_tables_def cur)
          qed
        qed
      qed
    qed
  qed
qed

lemma sys_flock_inv:
  assumes "dinv s"
  shows "dinv (fst (sys_flock e pid fd how s)) \<and> same_tables s (fst (sys_flock e pid fd how s))"
  using assms
  by (auto simp: sys_flock_def vop_advlock_def Let_def same_tables_def dinv_upd_file split: option.splits prod.splits)

subsection \<open>Close on exec\<close>

text \<open>What the loop does to the table, up to descriptor \<open>n\<close>.\<close>

definition exec_closed :: "nat \<Rightarrow> filedesc \<Rightarrow> filedesc \<Rightarrow> bool" where
  "exec_closed n fdp fdp' \<longleftrightarrow> fd_nfiles fdp' = fd_nfiles fdp \<and>
     length (fd_ofileflags fdp') = length (fd_ofileflags fdp) \<and>
     (\<forall>i < fd_nfiles fdp. fd_ofiles fdp' ! i =
        (if i < n \<and> fd_ofileflags fdp ! i AND UF_EXCLOSE \<noteq> 0 then None else fd_ofiles fdp ! i) \<and>
        (fd_ofiles fdp' ! i \<noteq> None \<longrightarrow> fd_ofileflags fdp' ! i = fd_ofileflags fdp ! i))"

lemma fdcloseexec_loop_inv:
  assumes "dinv s" "p_fd (k_procs s pid) = Some d" "k_fds s d = Some fdp1" "n \<le> fd_nfiles fdp"
    "exec_closed n fdp fdp1" "\<forall>i < fd_nfiles fdp. n \<le> i \<longrightarrow> fd_ofileflags fdp1 ! i = fd_ofileflags fdp ! i" "few_refs s"
  shows "\<exists>s' fdp'. fdcloseexec_loop e pid [n ..< fd_nfiles fdp] s = Some s' \<and> dinv s' \<and> k_procs s' = k_procs s \<and>
    k_fds s' d = Some fdp' \<and> exec_closed (fd_nfiles fdp) fdp fdp' \<and> (\<forall>d' \<noteq> d. k_fds s' d' = k_fds s d')"
  using assms
proof (induction "fd_nfiles fdp - n" arbitrary: n s fdp1)
  case 0
  then show ?case by auto
next
  case (Suc k)
  then have n: "n < fd_nfiles fdp" "[n ..< fd_nfiles fdp] = n # [Suc n ..< fd_nfiles fdp]"
    by (simp_all add: upt_conv_Cons)
  have cur: "cur_fd pid s = d" "cur_fdp pid s = fdp1" using Suc.prems(2,3) by (simp_all add: cur_fd_def cur_fdp_def)
  have ok: "fd_ok fdp1" using tables_at [OF dinvD(2) [OF Suc.prems(1)] Suc.prems(3)] by simp
  have len: "fd_nfiles fdp1 = fd_nfiles fdp" using Suc.prems(5) by (simp add: exec_closed_def)
  have fln: "fd_ofileflags fdp1 ! n = fd_ofileflags fdp ! n" using Suc.prems(6) n(1) by simp
  show ?case
  proof (cases "int n > fd_lastfile fdp1")
    case True
    have "fd_ofiles fdp1 ! i = None" if "i < fd_nfiles fdp" "n \<le> i" for i
      using ok that True len by (auto simp: fd_ok_def)
    then have "exec_closed (fd_nfiles fdp) fdp fdp1"
      using Suc.prems(5) by (auto simp: exec_closed_def not_less)
    then show ?thesis using True cur Suc.prems(1,3) n(2) by auto
  next
    case low: False
    show ?thesis
    proof (cases "fd_ofileflags fdp1 ! n AND UF_EXCLOSE \<noteq> 0 \<and> fd_ofiles fdp1 ! n \<noteq> None")
      case True
      obtain s1 r fdp2 where s1: "fdrelease e pid n s = Some (s1, r)" "dinv s1" "k_procs s1 = k_procs s"
        "k_fds s1 = (k_fds s)(d := Some fdp2)" "fd_ofiles fdp2 = (fd_ofiles fdp1)[n := None]"
        "fd_ofileflags fdp2 = (fd_ofileflags fdp1)[n := 0]"
        using fdrelease_inv [OF Suc.prems(1,7,2,3), of n e] True n(1) len by auto
      have few: "few_refs s1"
        by (rule few_refs_less [OF dinvD(1) [OF Suc.prems(1)] Suc.prems(7,3) _ s1(5,4)]) (use n(1) len in simp)
      have ec: "exec_closed (Suc n) fdp fdp2"
        using Suc.prems(5) True n(1) fln unfolding exec_closed_def s1(5,6)
        by (auto simp: nth_list_update less_Suc_eq)
      have "\<exists>s' fdp'. fdcloseexec_loop e pid [Suc n ..< fd_nfiles fdp] s1 = Some s' \<and> dinv s' \<and> k_procs s' = k_procs s1 \<and>
          k_fds s' d = Some fdp' \<and> exec_closed (fd_nfiles fdp) fdp fdp' \<and> (\<forall>d' \<noteq> d. k_fds s' d' = k_fds s1 d')"
        by (rule Suc.hyps(1)) (use Suc.hyps(2) Suc.prems s1 ec n(1) few in auto)
      then show ?thesis using low cur True s1 n(2) by auto
    next
      case False
      have step: "fdcloseexec_loop e pid (n # ns) s = fdcloseexec_loop e pid ns s" for ns
        using low cur False by (auto simp: fdrelease_def Let_def)
      have ec: "exec_closed (Suc n) fdp fdp1"
        using Suc.prems(5) False n(1) fln unfolding exec_closed_def by (auto simp: less_Suc_eq)
      have "\<exists>s' fdp'. fdcloseexec_loop e pid [Suc n ..< fd_nfiles fdp] s = Some s' \<and> dinv s' \<and> k_procs s' = k_procs s \<and>
          k_fds s' d = Some fdp' \<and> exec_closed (fd_nfiles fdp) fdp fdp' \<and> (\<forall>d' \<noteq> d. k_fds s' d' = k_fds s d')"
        by (rule Suc.hyps(1)) (use Suc.hyps(2) Suc.prems ec n(1) in auto)
      then show ?thesis unfolding n(2) step .
    qed
  qed
qed

lemma fdcloseexec_inv:
  assumes "dinv s" "p_fd (k_procs s pid) = Some d" "k_fds s d = Some fdp" "few_refs s"
  shows "\<exists>s' fdp'. fdcloseexec e pid s = Some s' \<and> dinv s' \<and> k_procs s' = k_procs s \<and>
    k_fds s' d = Some fdp' \<and> exec_closed (fd_nfiles fdp) fdp fdp' \<and> (\<forall>d' \<noteq> d. k_fds s' d' = k_fds s d')"
proof -
  have "cur_fdp pid s = fdp" using assms(2,3) by (simp add: cur_fd_def cur_fdp_def)
  then show ?thesis
    using fdcloseexec_loop_inv [OF assms(1-3), of 0 fdp e] assms(4) by (simp add: fdcloseexec_def exec_closed_def)
qed

subsection \<open>Fork and exit\<close>

lemma fd_shrink_spec:
  assumes "table_size i" "lastf < int i"
  shows "(fd_shrink i lastf = i \<or> table_size (fd_shrink i lastf)) \<and> lastf < int (fd_shrink i lastf) \<and> fd_shrink i lastf \<le> i"
  using assms
proof (induction i lastf rule: fd_shrink.induct)
  case (1 i lastf)
  show ?case
  proof (cases "i \<ge> 2 * NDEXTENT \<and> int i > lastf * 2")
    case False
    then have "fd_shrink i lastf = i" by (subst fd_shrink.simps) (rule if_not_P)
    then show ?thesis using 1 by simp
  next
    case True
    from True 1(2) obtain k where k: "i = NDEXTENT * 2 ^ k"
      by (auto simp: table_size_def NDEXTENT_def NDFILE_def)
    then obtain m where "k = Suc m" using True by (cases k) (auto simp: NDEXTENT_def)
    then have half: "i div 2 = NDEXTENT * 2 ^ m" "i = 2 * (i div 2)" using k by auto
    have eq: "fd_shrink i lastf = fd_shrink (i div 2) lastf" by (subst fd_shrink.simps) (rule if_P [OF True])
    from half have "table_size (i div 2)" "lastf < int (i div 2)" using True by (auto simp: table_size_def)
    from 1(1) [OF True this] this show ?thesis
      unfolding eq using half(2) by auto
  qed
qed

lemma fd_shrink_ok:
  assumes "fd_ok fdp" "i = (if fd_lastfile fdp < int NDFILE then NDFILE else fd_shrink (fd_nfiles fdp) (fd_lastfile fdp))"
  shows "table_size i \<and> fd_lastfile fdp < int i \<and> i \<le> fd_nfiles fdp"
proof (cases "fd_lastfile fdp < int NDFILE")
  case True
  then show ?thesis using assms fd_ok_nfiles [OF assms(1)] by (simp add: table_size_def NDFILE_def)
next
  case False
  have "table_size (fd_nfiles fdp)" "fd_lastfile fdp < int (fd_nfiles fdp)" using assms(1) by (auto simp: fd_ok_def)
  from fd_shrink_spec [OF this] this(1) show ?thesis using False assms(2) by auto
qed

lemma fd_ok_shrink:
  assumes "fd_ok fdp" "table_size i" "fd_lastfile fdp < int i" "i \<le> fd_nfiles fdp"
  shows "fd_ok (fdp\<lparr>fd_refcnt := r, fd_ofiles := take i (fd_ofiles fdp), fd_ofileflags := take i (fd_ofileflags fdp)\<rparr>)"
proof -
  have "fd_freefile fdp \<le> fd_lastfile fdp + 1"
  proof (rule ccontr)
    assume "\<not> ?thesis"
    then have lt: "fd_lastfile fdp + 1 < fd_freefile fdp" by simp
    define j where "j = nat (fd_lastfile fdp + 1)"
    have j: "int j = fd_lastfile fdp + 1" using assms(1) by (simp add: fd_ok_def j_def)
    then have "int j < fd_freefile fdp" using lt by simp
    then have "fd_ofiles fdp ! j \<noteq> None" using assms(1) unfolding fd_ok_def by blast
    moreover have "fd_ofiles fdp ! j = None"
    proof -
      have "int j < int (fd_nfiles fdp)" using assms(1) lt j unfolding fd_ok_def by linarith
      then show ?thesis using assms(1) j unfolding fd_ok_def by simp
    qed
    ultimately show False by simp
  qed
  then show ?thesis using assms by (auto simp: fd_ok_def)
qed

lemma count_list_take_none:
  assumes "\<forall>i < length xs. n \<le> i \<longrightarrow> xs ! i = None"
  shows "count_list (take n xs) (Some f) = count_list xs (Some f)"
proof -
  have "Some f \<notin> set (drop n xs)"
    using assms by (auto simp: in_set_conv_nth)
  then have "count_list (drop n xs) (Some f) = 0" by (simp add: count_list_0_iff)
  moreover have "count_list xs (Some f) = count_list (take n xs) (Some f) + count_list (drop n xs) (Some f)"
    by (metis append_take_drop_id count_list_append)
  ultimately show ?thesis by simp
qed

lemma card_slots: "card {i. i < length xs \<and> xs ! i = v} = count_list xs v"
  by (simp add: count_list_eq_length_filter length_filter_conv_card conj_commute eq_commute)

lemma hold_files_simps [simp]:
  "k_fds (hold_files L s) = k_fds s" "k_procs (hold_files L s) = k_procs s"
  by (induction L s rule: hold_files.induct) simp_all

lemma bal_hold_files:
  assumes "bal s x {}" "\<And>f. Some f \<in> set L \<Longrightarrow> k_files s f \<noteq> None"
  shows "bal (hold_files L s) (\<lambda>f. x f + count_list L (Some f)) {}"
  using assms
proof (induction L s arbitrary: x rule: hold_files.induct)
  case (3 fp fps s)
  have b: "bal (upd_file fp (\<lambda>f. f\<lparr>f_count := s16 (f_count f + 1)\<rparr>) s) (x(fp := x fp + 1)) {}"
    using bal_count [OF 3(2)] 3(3) by simp
  have "bal (hold_files fps (upd_file fp (\<lambda>f. f\<lparr>f_count := s16 (f_count f + 1)\<rparr>) s))
      (\<lambda>f. (x(fp := x fp + 1)) f + count_list fps (Some f)) {}"
    by (rule 3(1) [OF b]) (use 3(3) in auto)
  moreover have "(\<lambda>f. (x(fp := x fp + 1)) f + count_list fps (Some f)) = (\<lambda>f. x f + count_list (Some fp # fps) (Some f))"
    by auto
  ultimately show ?case by simp
qed auto

lemma hold_put: "hold_files L (put_fdp d fdp s) = put_fdp d fdp (hold_files L s)"
proof (induction L s rule: hold_files.induct)
  case (3 fp fps s)
  have "upd_file fp g (put_fdp d fdp s) = put_fdp d fdp (upd_file fp g s)" for g
    by (simp add: upd_file_def put_fdp_def)
  with 3 show ?case by simp
qed simp_all

text \<open>A new table takes over one reference for each of its slots.\<close>

lemma bal_new_table:
  assumes "bal s (\<lambda>f. x f + count_list (fd_ofiles fdp) (Some f)) {}" "k_fds s d = None"
  shows "bal (put_fdp d fdp s) x {}"
proof (rule balI)
  show "lists_ok (put_fdp d fdp s)" using lists_put [OF bal_lists [OF assms(1)]] .
  fix f
  let ?new = "{i. i < fd_nfiles fdp \<and> fd_ofiles fdp ! i = Some f}"
  have r: "refs (put_fdp d fdp s) f = refs s f \<union> Pair d ` ?new"
    using assms(2) by (auto simp: refs_def split: if_splits)
  have "refs s f \<inter> Pair d ` ?new = {}" using assms(2) by (auto simp: refs_def)
  then have "card (refs (put_fdp d fdp s) f) = card (refs s f) + card (Pair d ` ?new)"
    unfolding r using finite_refs [OF assms(1)] by (intro card_Un_disjoint) simp_all
  also have "card (Pair d ` ?new) = count_list (fd_ofiles fdp) (Some f)"
    by (subst card_image) (auto simp: inj_on_def card_slots)
  finally have c: "card (refs (put_fdp d fdp s) f) = card (refs s f) + count_list (fd_ofiles fdp) (Some f)" .
  have "refs (put_fdp d fdp s) f = {}" if "k_files s f = None"
  proof -
    have "count_list (fd_ofiles fdp) (Some f) = 0" "refs s f = {}" using balD(1,2) [OF assms(1) that] by auto
    then show ?thesis using c finite_refs [OF assms(1), of f] r by simp
  qed
  then show "file_bal (k_files (put_fdp d fdp s) f) (refs (put_fdp d fdp s) f) (x f) (f \<in> {})"
    using bal_at [OF assms(1), of f] c by (auto simp: file_bal_def ac_simps split: option.splits)
qed

lemma vref_dirs_simps [simp]:
  "k_fds (vref_dirs ev fdp s) = k_fds s" "k_procs (vref_dirs ev fdp s) = k_procs s"
  "k_files (vref_dirs ev fdp s) = k_files s" "bal (vref_dirs ev fdp s) = bal s"
  by (auto simp: vref_dirs_def Let_def split: option.splits)

lemma fdcopy_inv:
  assumes "dinv s" "p_fd (k_procs s pid) = Some d" "k_fds s d = Some fdp" "k_fds s new = None"
    "p_fd (k_procs s cpid) = None"
  shows "\<exists>newfdp. dinv (upd_proc cpid (\<lambda>p. p\<lparr>p_fd := Some new\<rparr>) (fdcopy pid new s)) \<and>
    k_procs (fdcopy pid new s) = k_procs s \<and> k_fds (fdcopy pid new s) = (k_fds s)(new := Some newfdp) \<and>
    (\<forall>i. getfile newfdp i = getfile fdp i)"
proof -
  note inv = dinvD [OF assms(1)]
  have cur: "cur_fdp pid s = fdp" using assms(2,3) by (simp add: cur_fd_def cur_fdp_def)
  have ok: "fd_ok fdp" using tables_at [OF inv(2) assms(3)] by simp
  define i where "i = (if fd_lastfile fdp < int NDFILE then NDFILE else fd_shrink (fd_nfiles fdp) (fd_lastfile fdp))"
  note i = fd_shrink_ok [OF ok i_def]
  define nf where "nf = fdp\<lparr>fd_refcnt := 1, fd_ofiles := take i (fd_ofiles fdp), fd_ofileflags := take i (fd_ofileflags fdp)\<rparr>"
  have okn: "fd_ok nf" unfolding nf_def using fd_ok_shrink [OF ok] i by simp
  let ?L = "take (nat (fd_lastfile nf + 1)) (fd_ofiles nf)"
  let ?s1 = "vref_dirs Ev_vref nf s"
  have run: "fdcopy pid new s = put_fdp new nf (hold_files ?L ?s1)"
    by (simp add: fdcopy_def cur i_def [symmetric] nf_def [symmetric] hold_put Let_def) (simp add: nf_def)
  have cnt: "count_list ?L (Some f) = count_list (fd_ofiles nf) (Some f)" for f
    by (rule count_list_take_none) (use okn in \<open>auto simp: fd_ok_def\<close>)
  have mem: "k_files s f \<noteq> None" if "Some f \<in> set ?L" for f
  proof -
    have "Some f \<in> set (fd_ofiles fdp)" using that by (auto simp: nf_def dest!: in_set_takeD)
    then show ?thesis using slot_open [OF inv(1) assms(3)] by (auto simp: in_set_conv_nth)
  qed
  have "bal (hold_files ?L ?s1) (\<lambda>f. 0 + count_list ?L (Some f)) {}"
    by (rule bal_hold_files) (use inv(1) mem in auto)
  then have b: "bal (put_fdp new nf (hold_files ?L ?s1)) (\<lambda>f. 0) {}"
    unfolding cnt by (rule bal_new_table) (simp add: assms(4))
  have fds: "k_fds (fdcopy pid new s) = (k_fds s)(new := Some nf)" "k_procs (fdcopy pid new s) = k_procs s"
    by (simp_all add: run)
  have none: "p_fd (k_procs s p) \<noteq> Some new" for p using inv(3) assms(4) unfolding procs_ok_def by blast
  have "tables_ok (fdcopy pid new s)" using inv(2) okn by (auto simp: tables_ok_def fds nf_def)
  moreover have "procs_ok (upd_proc cpid (\<lambda>p. p\<lparr>p_fd := Some new\<rparr>) (fdcopy pid new s))"
    using inv(3) none assms(5) by (auto simp: procs_ok_def fds)
  ultimately have "dinv (upd_proc cpid (\<lambda>p. p\<lparr>p_fd := Some new\<rparr>) (fdcopy pid new s))"
    using b by (simp add: dinv_def run tables_ok_def)
  moreover have "getfile nf j = getfile fdp j" for j
  proof (cases "j < 0 \<or> int i \<le> j")
    case True
    have "fd_ofiles fdp ! nat j = None" if "int i \<le> j" "j < int (fd_nfiles fdp)"
      using ok that i by (auto simp: fd_ok_def)
    then show ?thesis using True i by (auto simp: getfile_def u_ge_def nf_def)
  next
    case False then show ?thesis using i by (auto simp: getfile_def u_ge_def nf_def)
  qed
  ultimately show ?thesis using fds by blast
qed

text \<open>The loop of \<open>fdfree\<close> empties the slots from \<open>n\<close> on, and drops one reference for each.\<close>

lemma fdfree_loop_inv:
  assumes "bal s (\<lambda>f. 0) {}" "k_fds s d = Some fdp" "n + k \<le> fd_nfiles fdp" "few_refs s"
  shows "\<exists>s' fdp'. fdfree_loop e pid d [n ..< n + k] s = Some s' \<and> bal s' (\<lambda>f. 0) {} \<and> k_procs s' = k_procs s \<and>
    k_fds s' = (k_fds s)(d := Some fdp') \<and> fd_nfiles fdp' = fd_nfiles fdp \<and>
    (\<forall>i < fd_nfiles fdp. fd_ofiles fdp' ! i = (if n \<le> i \<and> i < n + k then None else fd_ofiles fdp ! i))"
  using assms
proof (induction k arbitrary: n s fdp)
  case 0
  have "(k_fds s)(d := Some fdp) = k_fds s" using 0(2) by (simp add: fun_upd_idem)
  with 0 show ?case by (intro exI [of _ s] exI [of _ fdp]) auto
next
  case (Suc k)
  have upt: "[n ..< n + Suc k] = n # [Suc n ..< Suc n + k]" by (simp add: upt_conv_Cons)
  have n: "n < fd_nfiles fdp" using Suc.prems(3) by simp
  let ?fdp = "fdp\<lparr>fd_ofiles := (fd_ofiles fdp)[n := None]\<rparr>"
  obtain s1 where s1: "fdfree_loop e pid d (n # ns) s = fdfree_loop e pid d ns s1" "bal s1 (\<lambda>f. 0) {}"
    "k_procs s1 = k_procs s" "k_fds s1 = (k_fds s)(d := Some ?fdp)" for ns
  proof (cases "fd_ofiles fdp ! n")
    case None
    then have "(fd_ofiles fdp)[n := None] = fd_ofiles fdp" by (metis list_update_id)
    then have "(k_fds s)(d := Some ?fdp) = k_fds s" using Suc.prems(2) by (simp add: fun_upd_idem)
    with None that [of s] Suc.prems show thesis by simp
  next
    case (Some f)
    have b: "bal (put_fdp d ?fdp s) ((\<lambda>f. 0)(f := 0 + 1)) {}"
      by (rule bal_clear_slot [OF Suc.prems(1,2) Some n]) simp_all
    have "card (refs (put_fdp d ?fdp s) f) + 1 = card (refs s f)"
      by (rule refs_cleared [OF Suc.prems(1,2) Some n]) simp
    then have few: "card (refs (put_fdp d ?fdp s) f) + ((\<lambda>f. 0)(f := 0 + 1)) f \<le> 32767"
      using Suc.prems(4) by (simp add: few_refs_def)
    obtain s1 r where "closef e (Some pid) (Some f) (put_fdp d ?fdp s) = Some (s1, r)"
      "bal s1 (((\<lambda>f. 0)(f := 0 + 1))(f := ((\<lambda>f. 0)(f := 0 + 1)) f - 1)) {}"
      "k_fds s1 = (k_fds s)(d := Some ?fdp)" "k_procs s1 = k_procs s"
      using closef_spec [OF b _ few, of e "Some pid"] by auto
    with that [of s1] Some Suc.prems(2) show thesis by simp
  qed
  have at1: "k_fds s1 d = Some ?fdp" using s1(4) by simp
  have "Suc n + k \<le> fd_nfiles ?fdp" using Suc.prems(3) by simp
  moreover have "few_refs s1" by (rule few_refs_less [OF Suc.prems(1,4,2) n _ s1(4)]) simp
  ultimately obtain s' fdp' where s':
    "fdfree_loop e pid d [Suc n ..< Suc n + k] s1 = Some s'" "bal s' (\<lambda>f. 0) {}" "k_procs s' = k_procs s1"
    "k_fds s' = (k_fds s1)(d := Some fdp')" "fd_nfiles fdp' = fd_nfiles ?fdp"
    "\<forall>i < fd_nfiles ?fdp. fd_ofiles fdp' ! i = (if Suc n \<le> i \<and> i < Suc n + k then None else fd_ofiles ?fdp ! i)"
    using Suc.IH [OF s1(2) at1] by blast
  have "\<forall>i < fd_nfiles fdp. fd_ofiles fdp' ! i = (if n \<le> i \<and> i < n + Suc k then None else fd_ofiles fdp ! i)"
    using s'(6) n by (auto simp: nth_list_update)
  then show ?case
    using s' s1(3,4) unfolding upt s1(1) by (intro exI [of _ s'] exI [of _ fdp']) simp
qed

lemma bal_drop_table:
  assumes "bal s x {}" "k_fds s d = Some fdp" "\<forall>i < fd_nfiles fdp. fd_ofiles fdp ! i = None"
    "k_fds s' = (k_fds s)(d := None)" "k_files s' = k_files s" "k_filehead s' = k_filehead s" "k_nfiles s' = k_nfiles s"
  shows "bal s' x {}"
proof (rule balI)
  have "refs s' f = refs s f" for f
    using assms(2-4) by (fastforce simp: refs_def split: if_splits)
  then show "file_bal (k_files s' f) (refs s' f) (x f) (f \<in> {})" for f
    using bal_at [OF assms(1), of f] assms(5) by simp
  show "lists_ok s'" using bal_lists [OF assms(1)] assms(4-7) by (simp add: lists_ok_def)
qed

lemma fdfree_inv:
  assumes "dinv s" "p_fd (k_procs s pid) = Some d" "k_fds s d = Some fdp" "few_refs s"
  shows "\<exists>s'. fdfree e pid s = Some s' \<and> dinv s' \<and> k_fds s' = (k_fds s)(d := None) \<and>
    (\<forall>p. p_fd (k_procs s' p) = (if p = pid then None else p_fd (k_procs s p)))"
proof -
  note inv = dinvD [OF assms(1)]
  have ok: "fd_ok fdp" "fd_refcnt fdp = 1" using tables_at [OF inv(2) assms(3)] by auto
  have cur: "cur_fd pid s = d" "cur_fdp pid s = fdp" using assms(2,3) by (simp_all add: cur_fd_def cur_fdp_def)
  let ?fdp = "fdp\<lparr>fd_refcnt := fd_refcnt fdp - 1\<rparr>" and ?n = "nat (fd_lastfile fdp + 1)"
  have b1: "bal (put_fdp d ?fdp s) (\<lambda>f. 0) {}"
    by (rule bal_put [OF inv(1) assms(3)], rule refs_put_extends [OF assms(3)]) (simp add: extends_refl)
  have "0 + ?n \<le> fd_nfiles ?fdp" using ok(1) by (auto simp: fd_ok_def)
  moreover have "refs (put_fdp d ?fdp s) f = refs s f" for f
    by (rule refs_put_extends [OF assms(3)]) (simp add: extends_refl)
  then have "few_refs (put_fdp d ?fdp s)" using assms(4) by (simp add: few_refs_def)
  ultimately obtain s2 fdp2 where s2:
    "fdfree_loop e pid d [0 ..< ?n] (put_fdp d ?fdp s) = Some s2" "bal s2 (\<lambda>f. 0) {}" "k_procs s2 = k_procs s"
    "k_fds s2 = (k_fds s)(d := Some fdp2)" "fd_nfiles fdp2 = fd_nfiles fdp"
    "\<forall>i < fd_nfiles fdp. fd_ofiles fdp2 ! i = (if i < ?n then None else fd_ofiles fdp ! i)"
    using fdfree_loop_inv [OF b1, of d ?fdp 0 ?n e pid] by auto
  have empty: "\<forall>i < fd_nfiles fdp2. fd_ofiles fdp2 ! i = None"
    using s2(5,6) ok(1) by (auto simp: fd_ok_def)
  define s3 where "s3 = upd_proc pid (\<lambda>p. p\<lparr>p_fd := None\<rparr>) s2"
  define s' where "s' = (vref_dirs Ev_vrele ?fdp s3)\<lparr>k_fds := (k_fds s3)(d := None)\<rparr>"
  have run: "fdfree e pid s = Some s'"
    using s2(1) ok(2) by (simp add: fdfree_def cur s'_def s3_def Let_def)
  have f: "k_fds s' = (k_fds s)(d := None)" "k_files s' = k_files s2" "k_filehead s' = k_filehead s2"
    "k_nfiles s' = k_nfiles s2" "k_procs s' = (k_procs s)(pid := (k_procs s pid)\<lparr>p_fd := None\<rparr>)"
    using s2(3,4) by (simp_all add: s'_def s3_def vref_dirs_def Let_def split: option.splits)
  have "bal s' (\<lambda>f. 0) {}"
    by (rule bal_drop_table [OF s2(2) _ empty, of d]) (use s2(4) f in simp_all)
  moreover have "tables_ok s'" using inv(2) f(1) by (auto simp: tables_ok_def)
  moreover have "procs_ok s'"
    using inv(3) assms(2) by (auto simp: procs_ok_def f(1,5))
  ultimately show ?thesis using run f by (auto simp: dinv_def)
qed

subsection \<open>Every file has a type\<close>

text \<open>The type of a file is set before \<open>open\<close> returns; \<open>fstat\<close> and \<open>fpathconf\<close> panic without one.\<close>

definition typed :: "dstate \<Rightarrow> bool" where
  "typed s \<longleftrightarrow> (\<forall>f fl. k_files s f = Some fl \<longrightarrow> f_type fl \<noteq> DTYPE_none)"

lemma typed_cong: "k_files s' = k_files s \<Longrightarrow> typed s' = typed s"
  by (simp add: typed_def)

lemma typed_simps [simp]:
  "typed (event ev s) = typed s" "typed (put_fdp d fdp s) = typed s" "typed (upd_proc pid f s) = typed s"
  "typed (s\<lparr>k_pgid := g\<rparr>) = typed s" "typed (s\<lparr>k_fds := h\<rparr>) = typed s" "typed (vref_dirs evs fdp s) = typed s"
  by (rule typed_cong, simp)+

lemma typed_upd_file: "typed s \<Longrightarrow> (\<And>x. f_type (g x) = f_type x) \<Longrightarrow> typed (upd_file fp g s)"
  by (auto simp: typed_def)

lemma typed_ffree: "typed s \<Longrightarrow> typed (ffree fp s)"
  by (auto simp: typed_def)

lemmas typed_intros = typed_upd_file typed_ffree

lemma typed_closef: "closef e p fpo s = Some (s', r) \<Longrightarrow> typed s \<Longrightarrow> typed s'"
  by (auto simp: closef_def Let_def intro!: typed_intros split: option.splits if_splits)

lemma typed_fdrelease: "fdrelease e pid fd s = Some (s', r) \<Longrightarrow> typed s \<Longrightarrow> typed s'"
  by (auto simp: fdrelease_def Let_def dest!: typed_closef split: option.splits if_splits)

lemma typed_finishdup: "typed s \<Longrightarrow> typed (fst (finishdup d old new s))"
  by (simp add: finishdup_def Let_def typed_upd_file)

lemma typed_fdalloc: "typed (fst (fdalloc e pid want s)) = typed s"
  by (simp add: fdalloc_def Let_def split: prod.split)

lemma typed_sys_dup: "sys_dup e pid old s = Some (s', r) \<Longrightarrow> typed s \<Longrightarrow> typed s'"
  using typed_fdalloc [of e pid 0 s]
  by (auto simp: sys_dup_def dest!: arg_cong [where f = fst] split: if_splits prod.splits sum.splits)
    (metis fst_conv typed_finishdup)

lemma typed_sys_dup2: "sys_dup2 e pid old new s = Some (s', r) \<Longrightarrow> typed s \<Longrightarrow> typed s'"
  using typed_fdalloc [of e pid "nat new" s]
  by (auto simp: sys_dup2_def Let_def split: if_splits prod.splits sum.splits option.splits)
    (metis fst_conv typed_finishdup typed_fdrelease)+

lemma typed_exec: "fdcloseexec_loop e pid fds s = Some s' \<Longrightarrow> typed s \<Longrightarrow> typed s'"
  by (induction fds arbitrary: s) (auto dest: typed_fdrelease split: if_splits option.splits)

lemma typed_hold_files: "typed s \<Longrightarrow> typed (hold_files L s)"
  by (induction L s rule: hold_files.induct) (simp_all add: typed_upd_file)

lemma typed_fdcopy: "typed s \<Longrightarrow> typed (fdcopy pid new s)"
  by (simp add: fdcopy_def Let_def typed_hold_files)

lemma typed_fdfree_loop: "fdfree_loop e pid d is s = Some s' \<Longrightarrow> typed s \<Longrightarrow> typed s'"
  by (induction "is" arbitrary: s) (auto simp: Let_def dest: typed_closef split: option.splits)

lemma typed_sys_fcntl: "typed s \<Longrightarrow> typed (fst (sys_fcntl e pid fd cmd s))"
proof (cases "\<exists>n. cmd = F_DUPFD n")
  case True
  then obtain n where "cmd = F_DUPFD n" ..
  moreover assume "typed s"
  moreover obtain s1 r where "fdalloc e pid (nat n) s = (s1, r)" by (cases "fdalloc e pid (nat n) s")
  moreover from this have "typed s1 = typed s" using typed_fdalloc [of e pid "nat n" s] by simp
  ultimately show ?thesis
    by (auto simp: sys_fcntl_def Let_def typed_finishdup split: option.split sum.split)
qed (cases cmd;
    auto simp: sys_fcntl_def fcntl_setfl_def fcntl_getown_def fcntl_setown_def fcntl_setlk_def fcntl_getlk_def
      fo_ioctl_def vop_advlock_def Let_def split: option.splits prod.splits sum.splits lf_kind.splits intro!: typed_intros)

lemma typed_sys_flock: "typed s \<Longrightarrow> typed (fst (sys_flock e pid fd how s))"
  by (auto simp: sys_flock_def vop_advlock_def Let_def intro!: typed_intros split: option.splits prod.splits)

lemma typed_dupfdopen: "dupfdopen d indx dfd mode er s = Some (s', r) \<Longrightarrow> typed s \<Longrightarrow> typed s'"
  by (auto simp: dupfdopen_def Let_def intro!: typed_intros split: option.splits if_splits)

lemma typed_falloc:
  assumes "falloc e pid new s = (s', r)" "typed s"
  shows "case r of Inl err \<Rightarrow> typed s' | Inr i \<Rightarrow> typed (ffree new s') \<and> (\<forall>g. (\<forall>x. f_type (g x) \<noteq> DTYPE_none) \<longrightarrow> typed (upd_file new g s'))"
  using assms typed_fdalloc [of e pid 0 s]
  by (auto simp: falloc_def Let_def typed_def split: prod.splits sum.splits if_splits)

lemma typed_sys_open:
  assumes "sys_open e pid new oflags vn s = Some (s', r)" "typed s"
  shows "typed s'"
proof -
  obtain s1 r1 where fa: "falloc e pid new s = (s1, r1)" by (cases "falloc e pid new s")
  note t = typed_falloc [OF fa assms(2)]
  show ?thesis
  proof (cases "(word_of_int (FFLAGS oflags) :: u16) AND (FREAD OR FWRITE) = 0 \<or> isl r1")
    case True
    then show ?thesis using assms t by (auto simp: sys_open_def fa Let_def split: sum.splits if_splits)
  next
    case False
    then obtain indx where mode: "(word_of_int (FFLAGS oflags) :: u16) AND (FREAD OR FWRITE) \<noteq> 0" and r: "r1 = Inr indx"
      by (cases r1) auto
    show ?thesis
    proof (cases "vn (- int indx - 1)")
      case (Vn_error er dupfd)
      let ?s2 = "ffree new (upd_proc pid (\<lambda>p. p\<lparr>p_dupfd := dupfd\<rparr>) s1)"
      have t2: "typed ?s2" using t typed_cong [of ?s2 "ffree new s1"] by (simp add: r)
      show ?thesis using assms(1) mode t2
        by (auto simp: sys_open_def fa r Vn_error Let_def split: if_splits option.splits dest!: typed_dupfdopen [OF _ t2])
    next
      case (Vn_ok vp)
      let ?g = "\<lambda>f :: kfile. f\<lparr>f_flag := (word_of_int (FFLAGS oflags) :: u16) AND FMASK, f_type := DTYPE_VNODE, f_ops := True, f_data := vp\<rparr>"
      let ?s2 = "upd_file new ?g (upd_proc pid (\<lambda>p. p\<lparr>p_dupfd := 0\<rparr>) s1)"
      have "typed (upd_file new ?g s1)" using t by (simp add: r)
      then have "typed ?s2" using typed_cong [of ?s2 "upd_file new ?g s1"] by simp
      then show ?thesis using assms(1) mode
        by (auto simp: sys_open_def fa r Vn_ok Let_def vop_advlock_def intro!: typed_intros split: if_splits option.splits prod.splits)
    qed
  qed
qed

subsection \<open>All system calls\<close>

text \<open>
  The calls a process makes, with what their environment supplies: the name of the new
  file or table, and what \<open>vn_open\<close> answers. \<open>Call_fork\<close> is what \<open>fork\<close> does to the
  descriptors, \<open>Call_exit\<close> what \<open>exit\<close> does.
\<close>

datatype dcall =
    Call_dup int | Call_dup2 int int | Call_close int | Call_fcntl int fcntl_cmd | Call_flock int u32
  | Call_fstat int | Call_fpathconf int int | Call_open nat int "int \<Rightarrow> vn_open" | Call_exec | Call_fork nat nat | Call_exit

definition fork_fd :: "nat \<Rightarrow> nat \<Rightarrow> nat \<Rightarrow> dstate \<Rightarrow> dstate" where
  "fork_fd pid cpid new s = upd_proc cpid (\<lambda>p. p\<lparr>p_fd := Some new\<rparr>) (fdcopy pid new s)"

fun dcall_run :: "denv \<Rightarrow> nat \<Rightarrow> dcall \<Rightarrow> dstate \<Rightarrow> dstate option" where
  "dcall_run e pid (Call_dup old) s = map_option fst (sys_dup e pid old s)"
| "dcall_run e pid (Call_dup2 old new) s = map_option fst (sys_dup2 e pid old new s)"
| "dcall_run e pid (Call_close fd) s = map_option fst (sys_close e pid fd s)"
| "dcall_run e pid (Call_fcntl fd cmd) s = Some (fst (sys_fcntl e pid fd cmd s))"
| "dcall_run e pid (Call_flock fd how) s = Some (fst (sys_flock e pid fd how s))"
| "dcall_run e pid (Call_fstat fd) s = map_option fst (sys_fstat e pid fd s)"
| "dcall_run e pid (Call_fpathconf fd name) s = map_option fst (sys_fpathconf e pid fd name s)"
| "dcall_run e pid (Call_open new fl vn) s = map_option fst (sys_open e pid new fl vn s)"
| "dcall_run e pid Call_exec s = fdcloseexec e pid s"
| "dcall_run e pid (Call_fork cpid new) s = Some (fork_fd pid cpid new s)"
| "dcall_run e pid Call_exit s = fdfree e pid s"

text \<open>Names that \<open>MALLOC\<close> returns are not in use; a new process has no table yet.\<close>

fun fresh_names :: "dcall \<Rightarrow> dstate \<Rightarrow> bool" where
  "fresh_names (Call_open new fl vn) s = (k_files s new = None)"
| "fresh_names (Call_fork cpid new) s = (k_fds s new = None \<and> p_fd (k_procs s cpid) = None)"
| "fresh_names c s = True"

lemma sys_fstat_inv:
  assumes "dinv s" "has_table s pid" "typed s"
  shows "\<exists>r. sys_fstat e pid fd s = Some (s, r)" "\<exists>r. sys_fpathconf e pid fd name s = Some (s, r)"
proof -
  obtain d fdp where c: "p_fd (k_procs s pid) = Some d" "k_fds s d = Some fdp" "cur_fdp pid s = fdp"
    using has_tableE [OF assms(1,2)] by metis
  have "f_type (the (k_files s fp)) \<noteq> DTYPE_none" if "getfile fdp fd = Some fp" for fp
  proof -
    have "k_files s fp \<noteq> None"
      using slot_open [OF dinvD(1) [OF assms(1)] c(2)] getfile_Some [OF that] by blast
    then show ?thesis using assms(3) by (auto simp: typed_def)
  qed
  then show "\<exists>r. sys_fstat e pid fd s = Some (s, r)" "\<exists>r. sys_fpathconf e pid fd name s = Some (s, r)"
    by (auto simp: sys_fstat_def sys_fpathconf_def c(3) Let_def split: option.split dtype.split)
qed

lemma dcall_typed: "dcall_run e pid c s = Some s' \<Longrightarrow> typed s \<Longrightarrow> typed s'"
  by (cases c)
    (auto simp: typed_sys_fcntl typed_sys_flock fork_fd_def typed_fdcopy fdcloseexec_def fdfree_def Let_def sys_close_def
      sys_fstat_def sys_fpathconf_def
      dest: typed_sys_dup typed_sys_dup2 typed_sys_open typed_exec typed_fdfree_loop typed_fdrelease
      split: if_splits option.splits dtype.splits)

lemma dcall_inv:
  assumes "dinv s" "has_table s pid" "fresh_names c s" "few_refs s" "typed s"
  shows "\<exists>s'. dcall_run e pid c s = Some s' \<and> dinv s'"
proof -
  obtain d fdp where c: "p_fd (k_procs s pid) = Some d" "k_fds s d = Some fdp" using has_tableE [OF assms(1,2)] by metis
  show ?thesis
  proof (cases c)
    case (Call_dup old) then show ?thesis using sys_dup_inv [OF assms(1,2), of e old] by auto
  next
    case (Call_dup2 old new) then show ?thesis using sys_dup2_inv [OF assms(1,2,4), of e old new] by auto
  next
    case (Call_close fd) then show ?thesis using sys_close_inv [OF assms(1,2,4), of e fd] by auto
  next
    case (Call_fcntl fd cmd) then show ?thesis using sys_fcntl_inv [OF assms(1,2), of e fd cmd] by auto
  next
    case (Call_flock fd how) then show ?thesis using sys_flock_inv [OF assms(1), of e pid fd how] by auto
  next
    case (Call_open new fl vn)
    then show ?thesis using sys_open_inv [OF assms(1,2), of new e fl vn] assms(3) by auto
  next
    case (Call_fstat fd) then show ?thesis using sys_fstat_inv(1) [OF assms(1,2,5), of e fd] assms(1) by auto
  next
    case (Call_fpathconf fd name) then show ?thesis using sys_fstat_inv(2) [OF assms(1,2,5), of e fd name] assms(1) by auto
  next
    case Call_exec then show ?thesis using fdcloseexec_inv [OF assms(1) c assms(4), of e] by auto
  next
    case (Call_fork cpid new)
    then show ?thesis using fdcopy_inv [OF assms(1) c, of new cpid] assms(3) by (auto simp: fork_fd_def)
  next
    case Call_exit then show ?thesis using fdfree_inv [OF assms(1) c assms(4), of e] by auto
  qed
qed

text \<open>A call is made while no file has more than 32,767 references.\<close>

inductive desc_step :: "denv \<Rightarrow> dstate \<Rightarrow> dstate \<Rightarrow> bool" for e where
  call: "has_table s pid \<Longrightarrow> fresh_names c s \<Longrightarrow> few_refs s \<Longrightarrow> dcall_run e pid c s = Some s' \<Longrightarrow> desc_step e s s'"

text \<open>
  The state \<open>main\<close> sets up: process 0 has an empty table of the internal size (its hint
  \<open>fd_lastfile\<close> is 0, as the memory is cleared), and there are no files.
\<close>

definition filedesc0 :: filedesc where
  "filedesc0 = \<lparr>fd_ofiles = replicate NDFILE None, fd_ofileflags = replicate NDFILE 0, fd_cdir = 0,
     fd_rdir = None, fd_lastfile = 0, fd_freefile = 0, fd_refcnt = 1\<rparr>"

definition desc_init :: "int \<Rightarrow> dstate" where
  "desc_init rlim = \<lparr>k_files = (\<lambda>f. None), k_filehead = [], k_nfiles = 0, k_fds = [0 \<mapsto> filedesc0],
     k_procs = (\<lambda>pid. \<lparr>p_fd = (if pid = 0 then Some 0 else None), p_rlim_nofile = rlim, p_advlock = False,
       p_ucred = 0, p_dupfd = 0\<rparr>),
     k_cr_ref = (\<lambda>c. 0), k_pgid = (\<lambda>v. 0), k_events = []\<rparr>"

inductive desc_reach :: "denv \<Rightarrow> dstate \<Rightarrow> bool" for e where
  init: "desc_reach e (desc_init rlim)"
| step: "desc_reach e s \<Longrightarrow> desc_step e s s' \<Longrightarrow> desc_reach e s'"

inductive_cases desc_stepE: "desc_step e s s'"

lemma dinv_init: "dinv (desc_init rlim)"
proof -
  have "table_size NDFILE" by (simp add: table_size_def)
  then have "tables_ok (desc_init rlim)"
    by (auto simp: tables_ok_def desc_init_def filedesc0_def fd_ok_def NDFILE_def split: if_splits)
  moreover have "procs_ok (desc_init rlim)" by (simp add: procs_ok_def desc_init_def)
  moreover have "refs (desc_init rlim) f = {}" for f
    by (auto simp: refs_def desc_init_def filedesc0_def split: if_splits)
  then have "bal (desc_init rlim) (\<lambda>f. 0) {}"
    by (auto simp: bal_def lists_ok_def file_bal_def desc_init_def)
  ultimately show ?thesis by (simp add: dinv_def)
qed

lemma typed_init: "typed (desc_init rlim)"
  by (simp add: typed_def desc_init_def)

lemma desc_reach_dinv: "desc_reach e s \<Longrightarrow> dinv s \<and> typed s"
proof (induction rule: desc_reach.induct)
  case (init rlim) show ?case using dinv_init typed_init by blast
next
  case (step s s')
  from step(2) show ?case
  proof (rule desc_stepE)
    fix pid c
    assume "has_table s pid" "fresh_names c s" "few_refs s" "dcall_run e pid c s = Some s'"
    with dcall_inv [of s pid c e] dcall_typed [of e pid c s s'] step(3) show "dinv s' \<and> typed s'" by auto
  qed
qed

lemma desc_reach_inv: "desc_reach e s \<Longrightarrow> dinv s"
  using desc_reach_dinv by blast

subsection \<open>Results\<close>

lemma desc_tables:
  assumes "desc_reach e s" "has_table s pid"
  obtains d fdp where "p_fd (k_procs s pid) = Some d" "k_fds s d = Some fdp" "cur_fd pid s = d"
    "cur_fdp pid s = fdp" "fd_ok fdp" "dinv s"
  using has_tableE [OF desc_reach_inv [OF assms(1)] assms(2)] desc_reach_inv [OF assms(1)] by metis

text \<open>
  C9: Processes dup, close, open, control, lock, exec, fork and exit, each call made while no file has more
  than 32,767 references. In every state reached, the count \<open>f_count\<close>, a \<open>short\<close>, is the number of descriptors that refer to
  the file modulo 2 ^ 16, and it is that number as long as this is at most 32,767 (a \<open>fork\<close> or \<open>dup\<close> can go beyond it); every file
  has a reference, no descriptor refers to a file that is gone, the list of files holds each once, and \<open>nfiles\<close> is
  its length. References that messages hold are not modelled.
\<close>

theorem desc_counts_exact:
  assumes "desc_reach e s"
  shows "(\<forall>f fl. k_files s f = Some fl \<longrightarrow> f_count fl = s16 (int (card (refs s f))) \<and> 0 < card (refs s f) \<and>
      (card (refs s f) \<le> 32767 \<longrightarrow> f_count fl = int (card (refs s f)))) \<and>
    (\<forall>f. k_files s f = None \<longrightarrow> refs s f = {}) \<and>
    distinct (k_filehead s) \<and> set (k_filehead s) = dom (k_files s) \<and> k_nfiles s = int (card (dom (k_files s)))"
proof -
  have b: "bal s (\<lambda>f. 0) {}" using desc_reach_inv [OF assms] by (simp add: dinv_def)
  have l: "distinct (k_filehead s)" "set (k_filehead s) = dom (k_files s)" "k_nfiles s = int (card (dom (k_files s)))"
    using bal_lists [OF b] distinct_card by (fastforce simp: lists_ok_def)+
  have "f_count fl = s16 (int (card (refs s f))) \<and> 0 < card (refs s f)" if "k_files s f = Some fl" for f fl
    using balD(3) [OF b that] by simp
  then show ?thesis using l balD(2) [OF b] by (auto simp: s16_id)
qed

text \<open>
  C12: In a state reached this way, and in which no file has more than 32,767 references, no system call of this file or \<open>open\<close>, made
  by any process, panics: the counts never go below zero, \<open>fd_unused\<close> never finds a descriptor above \<open>fd_lastfile\<close>, \<open>dup2\<close> always gets the
  descriptor it asks \<open>fdalloc\<close> for, and \<open>fstat\<close> and \<open>fpathconf\<close> never find a file without a type. Beyond 32,768 references
  \<open>close\<close> panics (\<open>closef_wrapped_panics\<close>).
\<close>

theorem desc_no_panic:
  assumes "desc_reach e s" "has_table s pid" "fresh_names c s" "few_refs s"
  shows "\<exists>s'. dcall_run e pid c s = Some s'"
  using dcall_inv [OF _ assms(2-4)] desc_reach_dinv [OF assms(1)] by blast

text \<open>The count of a file with 32,769 references is negative, and so it stays when one is closed.\<close>

lemma closef_wrapped_panics:
  assumes "k_files s fp = Some fl" "f_count fl = s16 32769"
  shows "closef e p (Some fp) s = None"
proof -
  have "s16 (f_count fl - 1) < 0" unfolding assms(2) by (simp add: s16_def)
  then show ?thesis using assms(1) by (simp add: closef_def Let_def)
qed

text \<open>
  C39: In every reachable state the hints of every table are right: nothing is open above
  \<open>fd_lastfile\<close>, nothing is free below \<open>fd_freefile\<close>, the table has an allowed size, and two
  processes never share a table.
\<close>

theorem desc_tables_ok:
  assumes "desc_reach e s"
  shows "(\<forall>d fdp. k_fds s d = Some fdp \<longrightarrow> fd_ok fdp) \<and>
    (\<forall>p1 p2 d. p_fd (k_procs s p1) = Some d \<longrightarrow> p_fd (k_procs s p2) = Some d \<longrightarrow> p1 = p2)"
  using desc_reach_inv [OF assms] by (auto simp: dinv_def tables_ok_def procs_ok_def)

text \<open>
  C16: \<open>fdalloc\<close> gives the lowest free descriptor from \<open>want\<close> on, below the limit of the
  process, and fails with \<open>EMFILE\<close> exactly when all of them are open. No open descriptor
  changes.
\<close>

theorem fdalloc_lowest:
  assumes "desc_reach e s" "has_table s pid" "fdalloc e pid want s = (s', r)"
  shows "(case r of
      Inr i \<Rightarrow> want \<le> i \<and> int i < fd_limit e (k_procs s pid) \<and> getfile (cur_fdp pid s) (int i) = None \<and>
        (\<forall>j. want \<le> j \<longrightarrow> j < i \<longrightarrow> getfile (cur_fdp pid s) (int j) \<noteq> None)
    | Inl err \<Rightarrow> err = EMFILE \<and>
        (\<forall>j. want \<le> j \<longrightarrow> int j < fd_limit e (k_procs s pid) \<longrightarrow> getfile (cur_fdp pid s) (int j) \<noteq> None)) \<and>
    (\<forall>i. getfile (cur_fdp pid s') i = getfile (cur_fdp pid s) i)"
proof -
  obtain d fdp where c: "p_fd (k_procs s pid) = Some d" "k_fds s d = Some fdp" "cur_fdp pid s = fdp" "fd_ok fdp" "dinv s"
    using desc_tables [OF assms(1,2)] by metis
  note inv = dinvD [OF c(5)]
  obtain fdp' where f: "extends fdp fdp'" "fdalloc_loop (fd_limit e (k_procs s pid)) fdp want = (fdp', r)"
    "cur_fdp pid s' = fdp'"
    using fdalloc_inv [OF inv c(1,2) assms(3)] by metis
  obtain k where k: "fd_ofiles fdp' = fd_ofiles fdp @ replicate k None" using f(1) by (auto simp: extends_def)
  have get: "getfile fdp' i = getfile fdp i" for i
    unfolding getfile_def u_ge_def k by (auto simp: nth_append)
  have slot: "getfile fdp (int j) = fd_ofiles fdp' ! j" if "j < fd_nfiles fdp'" for j
    using that get [of "int j"] by (simp add: getfile_def u_ge_def)
  show ?thesis
    using fdalloc_loop_spec [OF c(4) f(2)] slot by (auto simp: c(3) f(3) get split: sum.splits)
qed

text \<open>
  \<open>dup2\<close> makes the new descriptor refer to the file of the old one and leaves every
  other descriptor alone; it fails, with the tables as they are, only when the old
  descriptor is not open or the new one is out of range of the limits or of the table.
\<close>

theorem sys_dup2_spec:
  assumes "desc_reach e s" "has_table s pid" "few_refs s"
  shows "\<exists>s' r. sys_dup2 e pid old new s = Some (s', r) \<and>
    (case r of
       Inr v \<Rightarrow> v = new \<and> getfile (cur_fdp pid s) old \<noteq> None \<and>
         getfile (cur_fdp pid s') new = getfile (cur_fdp pid s) old \<and>
         (\<forall>i. i \<noteq> new \<longrightarrow> getfile (cur_fdp pid s') i = getfile (cur_fdp pid s) i)
     | Inl err \<Rightarrow> getfile (cur_fdp pid s) old = None \<or>
         \<not> (0 \<le> new \<and> new < p_rlim_nofile (k_procs s pid) \<and> new < de_maxfiles e) \<or>
         int (fd_nfiles (cur_fdp pid s)) \<le> new)"
proof -
  obtain d fdp where c: "p_fd (k_procs s pid) = Some d" "k_fds s d = Some fdp" "cur_fdp pid s = fdp" "dinv s"
    using desc_tables [OF assms(1,2)] by metis
  have cur: "cur_fdp pid s' = fdp'" if "k_procs s' = k_procs s" "k_fds s' = (k_fds s)(d := Some fdp')" for s' fdp'
    using that c(1) by (simp add: cur_fdp_def cur_fd_def)
  show ?thesis
    using sys_dup2_cases [OF c(4,1,2) refl assms(3), of e old new]
    by cases (auto simp: c(3) cur)
qed

text \<open>
  \<open>exec\<close> closes exactly the descriptors marked close-on-exec and leaves the others, with
  their flags.
\<close>

theorem fdcloseexec_spec:
  assumes "desc_reach e s" "has_table s pid" "few_refs s"
  shows "\<exists>s'. fdcloseexec e pid s = Some s' \<and>
    (\<forall>i < fd_nfiles (cur_fdp pid s). getfile (cur_fdp pid s') (int i) =
       (if fd_ofileflags (cur_fdp pid s) ! i AND UF_EXCLOSE \<noteq> 0 then None else getfile (cur_fdp pid s) (int i)) \<and>
       (getfile (cur_fdp pid s') (int i) \<noteq> None \<longrightarrow>
          fd_ofileflags (cur_fdp pid s') ! i = fd_ofileflags (cur_fdp pid s) ! i))"
proof -
  obtain d fdp where c: "p_fd (k_procs s pid) = Some d" "k_fds s d = Some fdp" "cur_fdp pid s = fdp" "dinv s"
    using desc_tables [OF assms(1,2)] by metis
  obtain s' fdp' where s': "fdcloseexec e pid s = Some s'" "k_procs s' = k_procs s" "k_fds s' d = Some fdp'"
    "exec_closed (fd_nfiles fdp) fdp fdp'"
    using fdcloseexec_inv [OF c(4,1,2) assms(3), of e] by blast
  then have "cur_fdp pid s' = fdp'" using c(1) by (simp add: cur_fdp_def cur_fd_def)
  then show ?thesis
    using s'(1,4) by (intro exI [of _ s']) (auto simp: c(3) exec_closed_def getfile_def u_ge_def)
qed

text \<open>
  \<open>fork\<close> gives the child a table of its own with the same open files as the parent's,
  which keeps them; \<open>exit\<close> frees the table of the caller and no other.
\<close>

theorem fork_exit_spec:
  assumes "desc_reach e s" "has_table s pid" "fresh_names (Call_fork cpid new) s" "few_refs s"
  shows "(\<forall>i. getfile (cur_fdp cpid (fork_fd pid cpid new s)) i = getfile (cur_fdp pid s) i) \<and>
    (\<forall>d \<noteq> new. k_fds (fork_fd pid cpid new s) d = k_fds s d) \<and>
    (\<exists>s'. fdfree e pid s = Some s' \<and> \<not> has_table s' pid \<and> k_fds s' = (k_fds s)(cur_fd pid s := None))"
proof -
  obtain d fdp where c: "p_fd (k_procs s pid) = Some d" "k_fds s d = Some fdp" "cur_fd pid s = d" "cur_fdp pid s = fdp" "dinv s"
    using desc_tables [OF assms(1,2)] by metis
  obtain nf where nf: "k_procs (fdcopy pid new s) = k_procs s" "k_fds (fdcopy pid new s) = (k_fds s)(new := Some nf)"
    "\<forall>i. getfile nf i = getfile fdp i"
    using fdcopy_inv [OF c(5,1,2), of new cpid] assms(3) by auto
  have "cur_fdp cpid (fork_fd pid cpid new s) = nf" using nf(2) by (simp add: fork_fd_def cur_fdp_def cur_fd_def)
  moreover obtain s' where "fdfree e pid s = Some s'" "k_fds s' = (k_fds s)(d := None)" "\<not> has_table s' pid"
    using fdfree_inv [OF c(5,1,2) assms(4), of e] by (auto simp: has_table_def)
  ultimately show ?thesis using nf(2,3) c(3,4) by (simp add: fork_fd_def)
qed

text \<open>What a successful \<open>falloc\<close> changed, and a failed one did not.\<close>

lemma falloc_frame:
  assumes "dinv s" "p_fd (k_procs s pid) = Some d" "k_fds s d = Some fdp" "falloc e pid new s = (s1, r)"
  shows "k_procs s1 = k_procs s \<and> (\<exists>fdp1. k_fds s1 = (k_fds s)(d := Some fdp1) \<and>
    (case r of
       Inl err \<Rightarrow> k_files s1 = k_files s \<and> k_nfiles s1 = k_nfiles s \<and> (\<forall>j. getfile fdp1 j = getfile fdp j)
     | Inr i \<Rightarrow> (\<exists>fl. k_files s1 = (k_files s)(new := Some fl)) \<and> k_nfiles s1 = k_nfiles s + 1 \<and>
         i < fd_nfiles fdp1 \<and> getfile fdp (int i) = None \<and>
         (\<forall>j. getfile fdp1 j = (if j = int i then Some new else getfile fdp j))))"
proof -
  note inv = dinvD [OF assms(1)]
  have ok: "fd_ok fdp" using tables_at [OF inv(2) assms(3)] by simp
  obtain sa ra where al: "fdalloc e pid 0 s = (sa, ra)" by (cases "fdalloc e pid 0 s")
  obtain fdpa where a: "sa = put_fdp d fdpa s" "extends fdp fdpa" "cur_fd pid sa = d" "cur_fdp pid sa = fdpa"
    and run: "fdalloc_loop (fd_limit e (k_procs s pid)) fdp 0 = (fdpa, ra)"
    using fdalloc_inv [OF inv assms(2,3) al] by metis
  obtain k where k: "fd_ofiles fdpa = fd_ofiles fdp @ replicate k None" using a(2) by (auto simp: extends_def)
  have get: "getfile fdpa i = getfile fdp i" for i
    unfolding getfile_def u_ge_def k by (auto simp: nth_append)
  show ?thesis
  proof (cases ra)
    case (Inl err)
    then show ?thesis using assms(4) al get by (auto simp: falloc_def a(1))
  next
    case (Inr i)
    have i: "i < fd_nfiles fdpa" "fd_ofiles fdpa ! i = None" using fdalloc_loop_spec [OF ok run] Inr by auto
    then have free: "getfile fdp (int i) = None" using get [of "int i"] by (simp add: getfile_def u_ge_def)
    have upd: "getfile (fdpa\<lparr>fd_ofiles := (fd_ofiles fdpa)[i := Some new]\<rparr>) j =
        (if j = int i then Some new else getfile fdp j)" for j
      using i get [of j] by (auto simp: getfile_def u_ge_def nth_list_update)
    show ?thesis
    proof (cases "k_nfiles sa \<ge> de_maxfiles e")
      case True
      then show ?thesis using assms(4) al Inr get by (auto simp: falloc_def a(1))
    next
      case False
      let ?fdp = "fdpa\<lparr>fd_ofiles := (fd_ofiles fdpa)[i := Some new]\<rparr>"
      have "r = Inr i" "k_fds s1 = (k_fds s)(d := Some ?fdp)" "k_nfiles s1 = k_nfiles s + 1" "k_procs s1 = k_procs s"
        "\<exists>fl. k_files s1 = (k_files s)(new := Some fl)"
        using False assms(4) al Inr by (auto simp: falloc_def a(3,4) Let_def) (auto simp: a(1))
      then show ?thesis using i(1) free upd by (intro conjI exI [of _ ?fdp]) simp_all
    qed
  qed
qed

text \<open>Where an \<open>open\<close> can fail after \<open>falloc\<close>: the file is freed and its slot cleared.\<close>

lemma sys_open_undone:
  assumes "sys_open e pid new oflags vn s = Some (s', Inl err)" "falloc e pid new s = (s1, Inr indx)"
    "(word_of_int (FFLAGS oflags) :: u16) AND (FREAD OR FWRITE) \<noteq> 0"
    "p_fd (k_procs s1 pid) = Some d" "k_fds s1 d = Some fdp1"
  shows "\<exists>s2 x. s' = put_fdp d (fdp1\<lparr>fd_ofiles := (fd_ofiles fdp1)[indx := None]\<rparr>) (ffree new s2) \<and>
    k_files s2 = (k_files s1)(new := x) \<and> k_nfiles s2 = k_nfiles s1 \<and> p_fd (k_procs s2 pid) = Some d"
proof -
  have cur: "cur_fd pid s1 = d" using assms(4) by (simp add: cur_fd_def)
  show ?thesis
  proof (cases "vn (- int indx - 1)")
    case (Vn_error er dupfd)
    let ?s2 = "upd_proc pid (\<lambda>p. p\<lparr>p_dupfd := dupfd\<rparr>) s1"
    have at2: "the (k_fds (ffree new ?s2) d) = fdp1" using assms(5) by simp
    have dup: "s3 = ffree new ?s2"
      if "dupfdopen d indx dupfd (FFLAGS oflags) er (ffree new ?s2) = Some (s3, Some er')" for s3 er'
      using that by (auto simp: dupfdopen_def Let_def split: option.splits if_splits)
    have "s' = put_fdp d (fdp1\<lparr>fd_ofiles := (fd_ofiles fdp1)[indx := None]\<rparr>) (ffree new ?s2)"
      using assms(1,3) at2 dup
      by (auto simp: sys_open_def assms(2) cur Vn_error Let_def split: if_splits option.splits)
    moreover have "k_files ?s2 = (k_files s1)(new := k_files s1 new)" by simp
    ultimately show ?thesis
      using assms(4) by (intro exI [of _ ?s2] exI [of _ "k_files s1 new"]) simp
  next
    case (Vn_ok vp)
    define g where "g = (\<lambda>f :: kfile. f\<lparr>f_flag := word_of_int (FFLAGS oflags) AND FMASK, f_type := DTYPE_VNODE, f_ops := True, f_data := vp\<rparr>)"
    define s2 where "s2 = upd_file new g (upd_proc pid (\<lambda>p. p\<lparr>p_dupfd := 0\<rparr>) s1)"
    have f2: "k_fds s2 = k_fds s1" "k_nfiles s2 = k_nfiles s1" "p_fd (k_procs s2 pid) = p_fd (k_procs s1 pid)"
      "k_files s2 = (k_files s1)(new := map_option g (k_files s1 new))"
      by (simp_all add: s2_def)
    obtain ev where "s' = put_fdp d (fdp1\<lparr>fd_ofiles := (fd_ofiles fdp1)[indx := None]\<rparr>)
        (ffree new (event (Ev_vn_close vp) (event ev s2)))"
      using assms(1,3,5) f2
      by (auto simp: sys_open_def assms(2) Vn_ok Let_def vop_advlock_def cur s2_def [unfolded g_def, symmetric]
          split: if_splits option.splits prod.splits)
    then show ?thesis
      using f2 assms(4) by (intro exI [of _ "event (Ev_vn_close vp) (event ev s2)"] exI [of _ "map_option g (k_files s1 new)"]) simp
  qed
qed

text \<open>
  C33: An \<open>open\<close> that fails, wherever it fails (in the table, the file table, the file system,
  the device that duplicates a descriptor, or the lock it asks for), leaves no file behind and
  every descriptor of the caller as it was.
\<close>

theorem sys_open_failure:
  assumes "desc_reach e s" "has_table s pid" "k_files s new = None" "sys_open e pid new oflags vn s = Some (s', Inl err)"
  shows "k_files s' = k_files s \<and> k_nfiles s' = k_nfiles s \<and>
    (\<forall>i. getfile (cur_fdp pid s') i = getfile (cur_fdp pid s) i)"
proof -
  obtain d fdp where c: "p_fd (k_procs s pid) = Some d" "k_fds s d = Some fdp" "cur_fdp pid s = fdp" "dinv s"
    using desc_tables [OF assms(1,2)] by metis
  obtain s1 r1 where fa: "falloc e pid new s = (s1, r1)" by (cases "falloc e pid new s")
  obtain fdp1 where f: "k_procs s1 = k_procs s" "k_fds s1 = (k_fds s)(d := Some fdp1)"
    "case r1 of
       Inl err \<Rightarrow> k_files s1 = k_files s \<and> k_nfiles s1 = k_nfiles s \<and> (\<forall>j. getfile fdp1 j = getfile fdp j)
     | Inr i \<Rightarrow> (\<exists>fl. k_files s1 = (k_files s)(new := Some fl)) \<and> k_nfiles s1 = k_nfiles s + 1 \<and>
         i < fd_nfiles fdp1 \<and> getfile fdp (int i) = None \<and>
         (\<forall>j. getfile fdp1 j = (if j = int i then Some new else getfile fdp j))"
    using falloc_frame [OF c(4,1,2) fa] by blast
  have curI: "cur_fdp pid s2 = fdp2" if "p_fd (k_procs s2 pid) = Some d" "k_fds s2 d = Some fdp2" for s2 fdp2
    using that by (simp add: cur_fdp_def cur_fd_def)
  show ?thesis
  proof (cases "(word_of_int (FFLAGS oflags) :: u16) AND (FREAD OR FWRITE) = 0 \<or> isl r1")
    case True
    then show ?thesis using assms(4) f c curI [of s1 fdp1]
      by (auto simp: sys_open_def fa Let_def split: sum.splits if_splits)
  next
    case False
    then obtain indx where mode: "(word_of_int (FFLAGS oflags) :: u16) AND (FREAD OR FWRITE) \<noteq> 0" and r: "r1 = Inr indx"
      by (cases r1) auto
    then obtain fl where g: "k_files s1 = (k_files s)(new := Some fl)" "k_nfiles s1 = k_nfiles s + 1"
      "indx < fd_nfiles fdp1" "getfile fdp (int indx) = None"
      "\<forall>j. getfile fdp1 j = (if j = int indx then Some new else getfile fdp j)"
      using f(3) by auto
    have "getfile (fdp1\<lparr>fd_ofiles := (fd_ofiles fdp1)[indx := None]\<rparr>) j = (if j = int indx then None else getfile fdp1 j)" for j
      using g(3) by (auto simp: getfile_def u_ge_def nth_list_update)
    then have clr: "getfile (fdp1\<lparr>fd_ofiles := (fd_ofiles fdp1)[indx := None]\<rparr>) j = getfile fdp j" for j
      using g(4,5) by simp
    have "p_fd (k_procs s1 pid) = Some d" "k_fds s1 d = Some fdp1" using f(1,2) c(1) by simp_all
    from sys_open_undone [OF assms(4) fa [unfolded r] mode this] obtain s2 x where s2:
      "s' = put_fdp d (fdp1\<lparr>fd_ofiles := (fd_ofiles fdp1)[indx := None]\<rparr>) (ffree new s2)"
      "k_files s2 = (k_files s1)(new := x)" "k_nfiles s2 = k_nfiles s1" "p_fd (k_procs s2 pid) = Some d" by blast
    have "(k_files s)(new := None) = k_files s" using assms(3) by (simp add: fun_upd_idem)
    then show ?thesis using s2 g(1,2) c(3) curI [of s'] clr by simp
  qed
qed

text \<open>A kernel for the examples: every operation of a file succeeds.\<close>

definition denv0 :: denv where
  "denv0 = \<lparr>de_maxfiles = 100, de_close = (\<lambda>f fl. None), de_ioctl = (\<lambda>f c v. (None, 0)),
     de_advlock = (\<lambda>v i op fl flags. (None, fl)), de_stat = (\<lambda>f. None), de_copyout = None,
     de_pathconf = (\<lambda>v n. Inr 0), de_pgrp = (\<lambda>p. None)\<rparr>"

lemma few_refs_single:
  assumes "dom (k_fds s) = {d}" "fd_nfiles (the (k_fds s d)) \<le> 32767"
  shows "few_refs s"
  unfolding few_refs_def
proof
  fix f
  have "e = d" if "k_fds s e = Some fdp" for e fdp using domI [of "k_fds s", OF that] assms(1) by simp
  then have "refs s f \<subseteq> {d} \<times> {..<fd_nfiles (the (k_fds s d))}" by (fastforce simp: refs_def)
  then have "card (refs s f) \<le> card ({d} \<times> {..<fd_nfiles (the (k_fds s d))})" by (rule card_mono [rotated]) simp
  then show "card (refs s f) \<le> 32767" using assms(2) by simp
qed

text \<open>The state after process 0 has opened a file, and after it has duplicated its descriptor.\<close>

definition opened1 :: "int \<Rightarrow> dstate" where
  "opened1 rlim = the (dcall_run denv0 0 (Call_open 7 2 (\<lambda>i. Vn_ok 3)) (desc_init rlim))"

definition opened :: "int \<Rightarrow> dstate" where
  "opened rlim = the (dcall_run denv0 0 (Call_dup 0) (opened1 rlim))"

lemma dom_open_dup:
  assumes "p_fd (k_procs s pid) = Some d" "k_fds s d \<noteq> None"
  shows "sys_open e pid new oflags (\<lambda>i. Vn_ok vp) s = Some (s', r) \<Longrightarrow> dom (k_fds s') = dom (k_fds s)"
    "sys_dup e pid old s = Some (s', r) \<Longrightarrow> dom (k_fds s') = dom (k_fds s)"
  using assms
  by (auto simp: sys_open_def falloc_def fdalloc_def vop_advlock_def cur_fd_def Let_def insert_absorb domIff
      split: if_splits prod.splits sum.splits option.splits)
    (auto simp: sys_dup_def finishdup_def fdalloc_def cur_fd_def Let_def insert_absorb domIff
      split: if_splits prod.splits sum.splits)

lemma opened_sizes:
  "\<forall>rlim\<in>{64, 2}. fd_nfiles (the (k_fds (opened1 rlim) 0)) = 20 \<and> fd_nfiles (the (k_fds (opened rlim) 0)) = 20"
  by code_simp

lemma opened_reach:
  assumes "rlim \<in> {64, 2}"
  shows "desc_reach denv0 (opened rlim) \<and> has_table (opened rlim) 0" "few_refs (opened rlim)"
proof -
  let ?s = "desc_init rlim" and ?s1 = "opened1 rlim"
  have s: "desc_reach denv0 ?s" "dinv ?s" "has_table ?s 0" "k_files ?s 7 = None" "p_fd (k_procs ?s 0) = Some 0"
    "k_fds ?s 0 \<noteq> None" "dom (k_fds ?s) = {0}"
    by (simp_all add: desc_reach.init dinv_init has_table_def) (simp_all add: desc_init_def)
  have "fd_nfiles (the (k_fds ?s 0)) = 20" "fd_nfiles (the (k_fds ?s1 0)) = 20" "fd_nfiles (the (k_fds (opened rlim) 0)) = 20"
    using opened_sizes assms by (auto simp: desc_init_def filedesc0_def NDFILE_def)
  then have n: "fd_nfiles (the (k_fds ?s 0)) \<le> 32767" "fd_nfiles (the (k_fds ?s1 0)) \<le> 32767"
    "fd_nfiles (the (k_fds (opened rlim) 0)) \<le> 32767" by simp_all
  obtain s1 r where s1: "sys_open denv0 0 7 2 (\<lambda>i. Vn_ok 3) ?s = Some (s1, r)" "dinv s1" "same_tables ?s s1"
    using sys_open_inv [OF s(2-4)] by blast
  then have t1: "has_table s1 0" "p_fd (k_procs s1 0) = Some 0" using s(3,5) by (simp_all add: has_table_def same_tables_def)
  have run1: "dcall_run denv0 0 (Call_open 7 2 (\<lambda>i. Vn_ok 3)) ?s = Some s1" using s1(1) by simp
  have e1: "?s1 = s1" unfolding opened1_def run1 by simp
  have d1: "dom (k_fds s1) = {0}" using dom_open_dup(1) [OF s(5,6) s1(1)] s(7) by simp
  have few: "few_refs ?s" "few_refs s1"
    using few_refs_single [OF s(7) n(1)] few_refs_single [OF d1] n(2) by (simp_all add: e1)
  have r1: "desc_reach denv0 s1"
    by (rule desc_reach.step [OF s(1)], rule desc_step.call [OF s(3) _ few(1) run1]) (simp add: s(4))
  obtain s2 r2 where s2: "sys_dup denv0 0 0 s1 = Some (s2, r2)" "k_procs s2 = k_procs s1"
    using sys_dup_inv [OF s1(2) t1(1)] by blast
  then have run2: "dcall_run denv0 0 (Call_dup 0) s1 = Some s2" by simp
  have "desc_reach denv0 s2" by (rule desc_reach.step [OF r1], rule desc_step.call [OF t1(1) _ few(2) run2]) simp
  moreover have "has_table s2 0" using t1 s2(2) by (simp add: has_table_def)
  moreover have e2: "opened rlim = s2" unfolding opened_def e1 run2 by simp
  ultimately show "desc_reach denv0 (opened rlim) \<and> has_table (opened rlim) 0" by simp
  have "k_fds s1 0 \<noteq> None" using d1 by blast
  from dom_open_dup(2) [OF t1(2) this s2(1)] have "dom (k_fds s2) = {0}" using d1 by simp
  then show "few_refs (opened rlim)" using few_refs_single n(3) e2 by simp
qed

lemma opened_values:
  "map_option f_count (k_files (opened 64) 7) = Some 2" "k_files (opened 64) 8 = None" "k_fds (opened 64) 5 = None"
  "p_fd (k_procs (opened 64) 1) = None" "getfile (cur_fdp 0 (opened 64)) 0 = Some 7"
  by code_simp+

lemma desc_counts_exact_witness:
  "\<exists>fl. k_files (opened 64) 7 = Some fl \<and> f_count fl = 2 \<and> card (refs (opened 64) 7) = 2"
proof -
  obtain fl where fl: "k_files (opened 64) 7 = Some fl" "f_count fl = 2" using opened_values(1) by auto
  have "card (refs (opened 64) 7) \<le> 32767" using opened_reach(2) [of 64, simplified] by (simp add: few_refs_def)
  then have "f_count fl = int (card (refs (opened 64) 7))"
    using desc_counts_exact [of denv0 "opened 64"] opened_reach(1) [of 64, simplified] fl(1) by blast
  then show ?thesis using fl by simp
qed

lemma desc_no_panic_witness: "\<exists>s'. dcall_run denv0 0 (Call_fork 1 5) (opened 64) = Some s'"
  by (rule desc_no_panic) (use opened_reach [of 64, simplified] opened_values in simp_all)

lemma desc_tables_ok_witness: "fd_ok (the (k_fds (opened 64) 0))"
proof -
  have "k_fds (opened 64) 0 \<noteq> None" by code_simp
  with desc_tables_ok [of denv0 "opened 64"] opened_reach [of 64, simplified] show ?thesis by auto
qed

lemma fdalloc_lowest_witness: "snd (fdalloc denv0 0 0 (opened 64)) = Inr 2 \<and> getfile (cur_fdp 0 (opened 64)) 2 = None"
proof -
  have "snd (fdalloc denv0 0 0 (opened 64)) = Inr 2" by code_simp
  then obtain s' where "fdalloc denv0 0 0 (opened 64) = (s', Inr 2)" by (cases "fdalloc denv0 0 0 (opened 64)") auto
  with fdalloc_lowest [OF _ _ this] opened_reach [of 64, simplified] show ?thesis by auto
qed

lemma sys_dup2_spec_witness:
  "\<exists>s' r. sys_dup2 denv0 0 0 9 (opened 64) = Some (s', r) \<and> (r = Inr 9 \<longrightarrow> getfile (cur_fdp 0 s') 9 = Some 7)"
  using sys_dup2_spec [of denv0 "opened 64" 0 0 9] opened_reach [of 64, simplified] opened_values(5) by auto

lemma fdcloseexec_spec_witness:
  "\<exists>s'. fdcloseexec denv0 0 (opened 64) = Some s' \<and> getfile (cur_fdp 0 s') 0 = Some 7"
proof -
  have "fd_ofileflags (cur_fdp 0 (opened 64)) ! 0 AND UF_EXCLOSE = 0" "0 < fd_nfiles (cur_fdp 0 (opened 64))"
    by code_simp+
  then show ?thesis
    using fdcloseexec_spec [of denv0 "opened 64" 0] opened_reach [of 64, simplified] opened_values(5) by force
qed

lemma fork_exit_spec_witness: "getfile (cur_fdp 1 (fork_fd 0 1 5 (opened 64))) 0 = Some 7"
  using fork_exit_spec [of denv0 "opened 64" 0 1 5] opened_reach [of 64, simplified] opened_values by simp

lemma sys_open_failure_witness:
  "\<exists>s'. sys_open denv0 0 8 2 (\<lambda>i. Vn_error ENOENT 0) (opened 64) = Some (s', Inl ENOENT) \<and> k_files s' = k_files (opened 64)"
proof -
  have "map_option snd (sys_open denv0 0 8 2 (\<lambda>i. Vn_error ENOENT 0) (opened 64)) = Some (Inl ENOENT)" by code_simp
  then obtain s' where s': "sys_open denv0 0 8 2 (\<lambda>i. Vn_error ENOENT 0) (opened 64) = Some (s', Inl ENOENT)" by auto
  with sys_open_failure [OF _ _ _ s'] opened_reach [of 64, simplified] opened_values(2) show ?thesis by auto
qed

text \<open>
  \<open>fdavail\<close> says that a descriptor is available when \<open>fdalloc\<close> has none: it counts the
  free slots of the table above the limit of the process.
\<close>

theorem fdavail_above_limit:
  "desc_reach denv0 (opened 2) \<and> fdavail denv0 0 1 (opened 2) \<and> snd (fdalloc denv0 0 0 (opened 2)) = Inl EMFILE"
proof -
  have "fdavail denv0 0 1 (opened 2)" "snd (fdalloc denv0 0 0 (opened 2)) = Inl EMFILE" by code_simp+
  then show ?thesis using opened_reach(1) by simp
qed

end
