(* ===== verification/Clist.thy ===== *)
theory Clist
  imports Machine
begin

text \<open>
  Character queues of terminals, \<^verbatim>\<open>sys/kern/tty_subr.c\<close>: ring buffers with a quote bit for each
  character. A queue is the structure \<open>clist\<close>, with the buffers it points to as lists of
  bytes and the pointers into the character buffer as offsets (\<open>None\<close> is the null pointer);
  \<open>c_ce\<close> is the offset one past the end. The counts, which are never negative, are natural
  numbers; the count arguments are signed. The loops over pieces of the ring are steps of
  \<open>iterate\<close>, so that a loop that does not end would have the value \<open>None\<close>.

  Memory comes from the environment: \<open>tmem\<close> says whether the first \<open>MALLOC\<close> of \<open>clalloc\<close>
  succeeds, and what memory the second one returns.
\<close>

subsection \<open>Bit arrays\<close>

definition NBBY :: nat where "NBBY = 8"

definition QMEM :: "nat \<Rightarrow> nat" where "QMEM n = (n - 1) div NBBY + 1"

definition setbit :: "u8 list \<Rightarrow> nat \<Rightarrow> u8 list" where
  "setbit a i = a[i div NBBY := a ! (i div NBBY) OR push_bit (i mod NBBY) 1]"

definition clrbit :: "u8 list \<Rightarrow> nat \<Rightarrow> u8 list" where
  "clrbit a i = a[i div NBBY := a ! (i div NBBY) AND NOT (push_bit (i mod NBBY) 1)]"

definition isset :: "u8 list \<Rightarrow> nat \<Rightarrow> bool" where
  "isset a i \<longleftrightarrow> a ! (i div NBBY) AND push_bit (i mod NBBY) 1 \<noteq> 0"

text \<open>
  \<open>clrbits\<close> clears the first byte from \<open>sbi\<close> on, the last one up to \<open>ebi\<close>, and the bytes between
  them. The last byte, \<open>clrbits_last\<close>, is beyond the array when the range ends with the array
  at a byte boundary; then nothing of it is cleared.
\<close>

definition clrbits_last :: "nat \<Rightarrow> nat \<Rightarrow> nat" where
  "clrbits_last off len = (off + len) div NBBY"

definition clrbits :: "u8 list \<Rightarrow> nat \<Rightarrow> nat \<Rightarrow> u8 list" where
  "clrbits cp off len =
     (if len = 1 then clrbit cp off
      else
        let sby = off div NBBY; sbi = off mod NBBY; eby = clrbits_last off len; ebi = (off + len) mod NBBY in
        if sby = eby then
          cp[sby := cp ! sby AND NOT (push_bit sbi (push_bit (ebi - sbi) 1 - 1))]
        else
          let cp1 = cp[sby := cp ! sby AND (push_bit sbi 1 - 1)];
              cp2 = cp1[eby := cp1 ! eby AND NOT (push_bit ebi 1 - 1)]
          in foldl (\<lambda>cp i. cp[i := 0]) cp2 [Suc sby ..< eby])"

subsection \<open>The structure\<close>

definition TTY_QUOTE :: int where "TTY_QUOTE = 0x100"

record clist =
  c_cc :: nat
  c_cn :: nat
  c_cf :: "nat option"
  c_cl :: "nat option"
  c_cs :: "u8 list option"
  c_ce :: nat
  c_cq :: "u8 list option"

type_synonym tmem = "bool \<times> u8 list option"

definition quoted :: "clist \<Rightarrow> nat \<Rightarrow> bool" where
  "quoted clp i = (case c_cq clp of None \<Rightarrow> False | Some q \<Rightarrow> isset q i)"

text \<open>The character at offset \<open>i\<close>, as the routines return it.\<close>

definition char_at :: "clist \<Rightarrow> nat \<Rightarrow> int" where
  "char_at clp i = uint (the (c_cs clp) ! i) OR (if quoted clp i then TTY_QUOTE else 0)"

definition next_ptr :: "clist \<Rightarrow> nat \<Rightarrow> nat" where
  "next_ptr clp i = (if i = c_ce clp then 0 else i)"

definition reset_ptrs :: "clist \<Rightarrow> clist" where
  "reset_ptrs clp = (if c_cc clp = 0 then clp\<lparr>c_cf := None, c_cl := None\<rparr> else clp)"

definition clalloc :: "tmem \<Rightarrow> nat \<Rightarrow> bool \<Rightarrow> clist \<Rightarrow> clist \<times> int" where
  "clalloc mem n quot clp =
     (if \<not> fst mem then (clp\<lparr>c_cs := None\<rparr>, -1)
      else
        let clp1 = clp\<lparr>c_cs := Some (replicate n 0)\<rparr>;
            ready = (\<lambda>q. (clp1\<lparr>c_cq := q, c_cf := None, c_cl := None, c_ce := n, c_cn := n, c_cc := 0\<rparr>, 0))
        in if quot then
             (case snd mem of
                None \<Rightarrow> (clp1\<lparr>c_cq := None\<rparr>, -1)
              | Some q \<Rightarrow> ready (Some q))
           else ready None)"

definition clfree :: "clist \<Rightarrow> clist" where
  "clfree clp = clp\<lparr>c_cs := None, c_cq := None\<rparr>"

subsection \<open>Single characters\<close>

definition getc :: "clist \<Rightarrow> clist \<times> int" where
  "getc clp =
     (if c_cc clp = 0 then (clp, -1)
      else
        let cf = the (c_cf clp)
        in (reset_ptrs (clp\<lparr>c_cc := c_cc clp - 1, c_cf := Some (next_ptr clp (cf + 1))\<rparr>), char_at clp cf))"

text \<open>What \<open>putc\<close> and \<open>b_to_q\<close> do first for an empty queue; \<open>None\<close> when there is no memory.\<close>

definition start_queue :: "tmem \<Rightarrow> clist \<Rightarrow> clist \<times> bool" where
  "start_queue mem clp =
     (if c_cc clp = 0 then
        let (clp1, r) = (if c_cs clp = None then clalloc mem 1024 True clp else (clp, 0))
        in if r \<noteq> 0 then (clp1, False) else (clp1\<lparr>c_cf := Some 0, c_cl := Some 0\<rparr>, True)
      else (clp, True))"

definition putc :: "tmem \<Rightarrow> int \<Rightarrow> clist \<Rightarrow> clist \<times> int" where
  "putc mem c clp0 =
     (if c_cc clp0 = c_cn clp0 then (clp0, -1)
      else
        (case start_queue mem clp0 of
           (clp, False) \<Rightarrow> (clp, -1)
         | (clp, True) \<Rightarrow>
             let i = the (c_cl clp);
                 quote = (\<lambda>q. if c AND TTY_QUOTE \<noteq> 0 then setbit q i else clrbit q i)
             in (clp\<lparr>c_cs := map_option (\<lambda>cs. cs[i := word_of_int c]) (c_cs clp),
                     c_cq := map_option quote (c_cq clp),
                     c_cc := c_cc clp + 1, c_cl := Some (next_ptr clp (i + 1))\<rparr>, 0)))"

definition unputc :: "clist \<Rightarrow> clist \<times> int" where
  "unputc clp =
     (if c_cc clp = 0 then (clp, -1)
      else
        let cl = (if c_cl clp = Some 0 then c_ce clp - 1 else the (c_cl clp) - 1)
        in (reset_ptrs (clp\<lparr>c_cl := Some cl, c_cc := c_cc clp - 1\<rparr>), char_at clp cl))"

subsection \<open>Blocks of characters\<close>

text \<open>One piece of the ring, at most \<open>count\<close> characters from \<open>c_cf\<close> on.\<close>

definition piece_out :: "clist \<Rightarrow> int \<Rightarrow> nat" where
  "piece_out clp count =
     (let cf = the (c_cf clp); cl = the (c_cl clp); cc = (if cf \<ge> cl then c_ce clp - cf else cl - cf)
      in if int cc > count then nat count else cc)"

definition drop_piece :: "clist \<Rightarrow> nat \<Rightarrow> clist" where
  "drop_piece clp n = clp\<lparr>c_cc := c_cc clp - n, c_cf := Some (next_ptr clp (the (c_cf clp) + n))\<rparr>"

definition q_to_b_step :: "clist \<times> int \<times> u8 list \<Rightarrow> clist \<times> int \<times> u8 list + clist \<times> u8 list" where
  "q_to_b_step = (\<lambda>(clp, count, p).
     if count > 0 \<and> c_cc clp > 0 then
       let n = piece_out clp count
       in Inl (drop_piece clp n, count - int n, p @ take n (drop (the (c_cf clp)) (the (c_cs clp))))
     else Inr (reset_ptrs clp, p))"

text \<open>The bytes moved; their number is the value of the routine.\<close>

definition q_to_b :: "clist \<Rightarrow> int \<Rightarrow> (clist \<times> u8 list) option" where
  "q_to_b clp count = iterate q_to_b_step (clp, count, [])"

definition ndflush_step :: "clist \<times> int \<Rightarrow> clist \<times> int + clist" where
  "ndflush_step = (\<lambda>(clp, count).
     if count > 0 \<and> c_cc clp > 0 then
       let n = piece_out clp count in Inl (drop_piece clp n, count - int n)
     else Inr (reset_ptrs clp))"

definition ndflush :: "clist \<Rightarrow> int \<Rightarrow> clist option" where
  "ndflush clp count =
     (if count = int (c_cc clp) then Some (clp\<lparr>c_cc := 0, c_cf := None, c_cl := None\<rparr>)
      else iterate ndflush_step (clp, count))"

definition b_to_q_step :: "clist \<times> int \<times> u8 list \<Rightarrow> clist \<times> int \<times> u8 list + clist \<times> int" where
  "b_to_q_step = (\<lambda>(clp, count, p).
     if count > 0 \<and> c_cc clp < c_cn clp then
       let cf = the (c_cf clp); cl = the (c_cl clp);
           cc = (if cf > cl then cf - cl else c_ce clp - cl);
           n = (if int cc > count then nat count else cc)
       in Inl (clp\<lparr>c_cs := map_option (\<lambda>cs. bcopy_to (take n p) cs cl) (c_cs clp),
                   c_cq := map_option (\<lambda>q. clrbits q cl n) (c_cq clp),
                   c_cc := c_cc clp + n, c_cl := Some (next_ptr clp (cl + n))\<rparr>,
               count - int n, drop n p)
     else Inr (clp, count))"

text \<open>The value is the number of bytes not moved.\<close>

definition b_to_q :: "tmem \<Rightarrow> u8 list \<Rightarrow> int \<Rightarrow> clist \<Rightarrow> (clist \<times> int) option" where
  "b_to_q mem cp count clp =
     (if count \<le> 0 then Some (clp, 0)
      else if c_cc clp = c_cn clp then Some (clp, count)
      else
        (case start_queue mem clp of
           (clp1, False) \<Rightarrow> Some (clp1, count)
         | (clp1, True) \<Rightarrow> iterate b_to_q_step (clp1, count, cp)))"

text \<open>The loops of \<open>ndqb\<close>: \<open>stop i\<close> is the test on the character at offset \<open>i\<close>.\<close>

fun ndqb_scan :: "(nat \<Rightarrow> bool) \<Rightarrow> nat \<Rightarrow> nat \<Rightarrow> nat \<Rightarrow> nat" where
  "ndqb_scan stop cn i 0 = 0"
| "ndqb_scan stop cn i (Suc cc) =
     (if stop i then 0 else if i + 1 = cn then 1 else Suc (ndqb_scan stop cn (i + 1) cc))"

text \<open>In the loop for \<open>TTY_QUOTE\<close> the offset has been incremented when the quote bit is tested.\<close>

definition ndqb :: "clist \<Rightarrow> int \<Rightarrow> nat" where
  "ndqb clp flag =
     (let cf = the (c_cf clp); cl = the (c_cl clp); cs = the (c_cs clp) in
      if c_cc clp = 0 then 0
      else if flag = 0 then (if cl \<le> cf then c_ce clp - cf else cl - cf)
      else if flag AND TTY_QUOTE \<noteq> 0 then
        ndqb_scan (\<lambda>i. cs ! i AND word_of_int (flag AND NOT TTY_QUOTE) \<noteq> 0 \<or> isset (the (c_cq clp)) (i + 1))
          (c_cn clp) cf (c_cc clp)
      else ndqb_scan (\<lambda>i. cs ! i AND word_of_int flag \<noteq> 0) (c_cn clp) cf (c_cc clp))"

subsection \<open>Looking at all characters\<close>

text \<open>The static variable \<open>cc\<close> is the first component of the results.\<close>

definition nextc :: "clist \<Rightarrow> nat \<Rightarrow> nat \<Rightarrow> nat \<times> (nat \<times> int) option" where
  "nextc clp cp cc0 =
     (let cc = (if c_cf clp = Some cp then c_cc clp else cc0) in
      if cc = 0 then (cc, None)
      else if cc - 1 = 0 then (0, None)
      else let cp' = next_ptr clp (cp + 1) in (cc - 1, Some (cp', char_at clp cp')))"

definition firstc :: "clist \<Rightarrow> nat \<times> (nat \<times> int) option" where
  "firstc clp =
     (if c_cc clp = 0 then (0, None)
      else (c_cc clp, Some (the (c_cf clp), char_at clp (the (c_cf clp)))))"

subsection \<open>From one queue to another\<close>

definition cat_step :: "('q \<Rightarrow> 'q \<times> int) \<Rightarrow> (int \<Rightarrow> 'q \<Rightarrow> 'q \<times> int) \<Rightarrow> 'q \<times> 'q \<Rightarrow> 'q \<times> 'q + 'q \<times> 'q" where
  "cat_step get put = (\<lambda>(from, to).
     let (from', c) = get from
     in if c = -1 then Inr (from', to) else Inl (from', fst (put c to)))"

definition catq :: "tmem \<Rightarrow> clist \<Rightarrow> clist \<Rightarrow> (clist \<times> clist) option" where
  "catq mem from to = iterate (cat_step getc (putc mem)) (from, to)"

end
