(* ===== verification/Clist_Correct.thy ===== *)
theory Clist_Correct
  imports Clist
begin

text \<open>
  Character queues are correct: a ring buffer is the list of its characters (\<open>chars\<close>), and
  every routine does to that list what a queue of the same capacity does.
\<close>

subsection \<open>Bits\<close>

lemma bit_power_u8: "bit (2 ^ n :: u8) k \<longleftrightarrow> n = k \<and> n < 8"
  by (auto simp: bit_exp_iff)

lemma isset_bit: "isset a i \<longleftrightarrow> bit (a ! (i div 8)) (i mod 8)"
proof -
  have "w AND push_bit n 1 \<noteq> 0 \<longleftrightarrow> bit w n" if "n < 8" for w :: u8 and n
  proof
    assume "bit w n"
    then have "bit (w AND push_bit n 1) n" using that by (simp add: bit_and_iff bit_power_u8)
    then show "w AND push_bit n 1 \<noteq> 0" by auto
  next
    assume "w AND push_bit n 1 \<noteq> 0"
    then obtain m where "bit (w AND push_bit n 1) m" by (auto simp: bit_eq_iff)
    then show "bit w n" by (auto simp: bit_and_iff bit_power_u8)
  qed
  then show ?thesis by (simp add: isset_def NBBY_def)
qed

lemma same_bit_index: "i = j \<longleftrightarrow> i div 8 = j div 8 \<and> i mod 8 = j mod (8::nat)"
  by (metis div_mult_mod_eq)

lemma le_by_bytes: "x \<le> y \<longleftrightarrow> x div 8 < y div 8 \<or> x div 8 = y div 8 \<and> x mod 8 \<le> y mod (8::nat)"
proof -
  have "x = 8 * (x div 8) + x mod 8" "y = 8 * (y div 8) + y mod 8" "x mod 8 < 8" "y mod 8 < 8" by simp_all
  then show ?thesis by linarith
qed

lemma isset_setbit:
  assumes "i div 8 < length a"
  shows "isset (setbit a i) j \<longleftrightarrow> isset a j \<or> i = j"
proof (cases "i div 8 = j div 8")
  case True
  have "j mod 8 < 8" by simp
  then show ?thesis
    using assms True same_bit_index [of i j]
    by (auto simp: isset_bit setbit_def NBBY_def bit_or_iff bit_power_u8)
next
  case False
  then show ?thesis by (auto simp: isset_bit setbit_def NBBY_def)
qed

lemma isset_clrbit:
  assumes "i div 8 < length a"
  shows "isset (clrbit a i) j \<longleftrightarrow> isset a j \<and> i \<noteq> j"
proof (cases "i div 8 = j div 8")
  case True
  have "j mod 8 < 8" by simp
  then show ?thesis
    using assms True same_bit_index [of i j]
    by (auto simp: isset_bit clrbit_def NBBY_def bit_and_iff bit_not_iff bit_power_u8)
next
  case False
  then show ?thesis by (auto simp: isset_bit clrbit_def NBBY_def)
qed

lemma setbit_length [simp]: "length (setbit a i) = length a"
  by (simp add: setbit_def)

lemma clrbit_length [simp]: "length (clrbit a i) = length a"
  by (simp add: clrbit_def)

lemma bit_low_mask: "bit (push_bit n 1 - 1 :: u8) k \<longleftrightarrow> k < n \<and> k < 8"
proof -
  have "push_bit n 1 - 1 = (mask n :: u8)" by (simp add: mask_eq_exp_minus_1 push_bit_eq_mult)
  then show ?thesis by (auto simp: bit_mask_iff)
qed

lemma bit_mid_mask:
  "s < 8 \<Longrightarrow> bit (push_bit s (push_bit (e - s) 1 - 1) :: u8) k \<longleftrightarrow> s \<le> k \<and> k < e \<and> k < 8"
  unfolding bit_push_bit_iff bit_low_mask by auto

lemma foldl_zero_nth:
  "k < length a \<Longrightarrow> foldl (\<lambda>cp i. cp[i := 0]) a is ! k = (if k \<in> set is then 0 else a ! k)"
  by (induction "is" arbitrary: a) (auto simp: nth_list_update)

lemma foldl_zero_length [simp]: "length (foldl (\<lambda>cp i. cp[i := 0]) a is) = length a"
  by (induction "is" arbitrary: a) auto

lemma clrbits_length [simp]: "length (clrbits a off len) = length a"
  by (simp add: clrbits_def Let_def)

lemma clrbits_spec:
  assumes "off + len \<le> 8 * length a" "0 < len" "j < 8 * length a"
  shows "isset (clrbits a off len) j \<longleftrightarrow> isset a j \<and> \<not> (off \<le> j \<and> j < off + len)"
proof (cases "len = 1")
  case True
  have "off div 8 < length a" using assms(1,2) by (simp add: less_mult_imp_div_less mult.commute)
  with True show ?thesis by (auto simp: clrbits_def isset_clrbit)
next
  case False
  let ?sb = "off div 8" and ?si = "off mod 8" and ?eb = "(off + len) div 8" and ?ei = "(off + len) mod 8"
  let ?jb = "j div 8" and ?ji = "j mod 8"
  have jb: "?jb < length a" using assms(3) by (simp add: less_mult_imp_div_less mult.commute)
  have ji: "?ji < 8" by simp
  have sb: "?sb < length a" using assms(1,2) by (simp add: less_mult_imp_div_less mult.commute)
  have low: "off \<le> j \<longleftrightarrow> ?sb < ?jb \<or> ?sb = ?jb \<and> ?si \<le> ?ji" by (rule le_by_bytes)
  have high: "j < off + len \<longleftrightarrow> ?jb < ?eb \<or> ?jb = ?eb \<and> ?ji < ?ei"
    using le_by_bytes [of "off + len" j] by (auto simp: not_le [symmetric])
  show ?thesis
  proof (cases "?sb = ?eb")
    case True
    have ei: "?si \<le> ?ei" using True le_by_bytes [of off "off + len"] by simp
    have "clrbits a off len = a[?sb := a ! ?sb AND NOT (push_bit ?si (push_bit (?ei - ?si) 1 - 1))]"
      using \<open>len \<noteq> 1\<close> True by (simp add: clrbits_def clrbits_last_def NBBY_def Let_def)
    then have cell: "clrbits a off len ! ?jb =
        (if ?jb = ?sb then a ! ?jb AND NOT (push_bit ?si (push_bit (?ei - ?si) 1 - 1)) else a ! ?jb)"
      using sb by auto
    show ?thesis
    proof (cases "?jb = ?sb")
      case jeq: True
      define M where "M = (push_bit ?si (push_bit (?ei - ?si) 1 - 1) :: u8)"
      have "bit M ?ji \<longleftrightarrow> ?si \<le> ?ji \<and> ?ji < ?ei" using bit_mid_mask [of ?si ?ei ?ji] ji unfolding M_def by simp
      moreover have "clrbits a off len ! ?jb = a ! ?jb AND NOT M" using cell jeq unfolding M_def by simp
      ultimately have "isset (clrbits a off len) j \<longleftrightarrow> bit (a ! ?jb) ?ji \<and> \<not> (?si \<le> ?ji \<and> ?ji < ?ei)"
        using ji by (simp add: isset_bit bit_and_iff bit_not_iff)
      with jeq True show ?thesis by (simp only: isset_bit low high) auto
    next
      case False
      then show ?thesis using cell True by (simp only: isset_bit low high) auto
    qed
  next
    case ne: False
    then have lt: "?sb < ?eb" using div_le_mono [of off "off + len" 8] by linarith
    define a1 where "a1 = a[?sb := a ! ?sb AND (push_bit ?si 1 - 1)]"
    define a2 where "a2 = a1[?eb := a1 ! ?eb AND NOT (push_bit ?ei 1 - 1)]"
    have run: "clrbits a off len = foldl (\<lambda>cp i. cp[i := 0]) a2 [Suc ?sb ..< ?eb]"
      using \<open>len \<noteq> 1\<close> ne by (simp add: clrbits_def clrbits_last_def NBBY_def Let_def a1_def a2_def)
    have len2: "length a2 = length a" by (simp add: a1_def a2_def)
    have n1: "a1 ! ?jb = (if ?jb = ?sb then a ! ?sb AND (push_bit ?si 1 - 1) else a ! ?jb)"
      using sb by (auto simp: a1_def)
    have n2: "a2 ! ?jb = (if ?jb = ?eb then a1 ! ?eb AND NOT (push_bit ?ei 1 - 1) else a1 ! ?jb)"
      using jb by (auto simp: a2_def a1_def)
    have cell: "clrbits a off len ! ?jb = (if ?sb < ?jb \<and> ?jb < ?eb then 0 else a2 ! ?jb)"
      using jb unfolding run by (subst foldl_zero_nth) (auto simp: len2)
    consider "?jb < ?sb \<or> ?eb < ?jb" | "?jb = ?sb" | "?sb < ?jb" "?jb < ?eb" | "?jb = ?eb" by linarith
    then show ?thesis
    proof cases
      case 1
      then show ?thesis using cell n1 n2 lt by (auto simp: isset_bit low high)
    next
      case 2
      then have "clrbits a off len ! ?jb = a ! ?jb AND (push_bit ?si 1 - 1)" using cell n1 n2 lt by simp
      then show ?thesis using 2 lt ji by (auto simp only: isset_bit low high bit_and_iff bit_low_mask)
    next
      case 3
      then show ?thesis using cell by (simp add: isset_bit low high)
    next
      case 4
      then have "clrbits a off len ! ?jb = a ! ?jb AND NOT (push_bit ?ei 1 - 1)" using cell n1 n2 lt by simp
      then show ?thesis using 4 lt ji by (auto simp only: isset_bit low high bit_and_iff bit_not_iff bit_low_mask) simp_all
    qed
  qed
qed

subsection \<open>Rings and the characters they hold\<close>

definition clist_basic :: "clist \<Rightarrow> bool" where
  "clist_basic clp \<longleftrightarrow> 0 < c_cn clp \<and> c_ce clp = c_cn clp \<and> c_cc clp \<le> c_cn clp \<and>
     (\<exists>cs. c_cs clp = Some cs \<and> length cs = c_cn clp) \<and> (\<forall>q. c_cq clp = Some q \<longrightarrow> length q = QMEM (c_cn clp))"

definition ring :: "clist \<Rightarrow> nat \<Rightarrow> bool" where
  "ring clp f \<longleftrightarrow> clist_basic clp \<and> f < c_cn clp \<and> c_cf clp = Some f \<and> c_cl clp = Some ((f + c_cc clp) mod c_cn clp)"

definition clist_ok :: "clist \<Rightarrow> bool" where
  "clist_ok clp \<longleftrightarrow> clist_basic clp \<and>
     (if c_cc clp = 0 then c_cf clp = None \<and> c_cl clp = None else \<exists>f. ring clp f)"

definition cell :: "clist \<Rightarrow> nat \<Rightarrow> u8 \<times> bool" where
  "cell clp i = (the (c_cs clp) ! i, quoted clp i)"

definition char_of :: "u8 \<times> bool \<Rightarrow> int" where
  "char_of x = uint (fst x) OR (if snd x then TTY_QUOTE else 0)"

text \<open>The abstraction: the characters of a queue, the first one first.\<close>

definition chars :: "clist \<Rightarrow> (u8 \<times> bool) list" where
  "chars clp = map (\<lambda>i. cell clp ((the (c_cf clp) + i) mod c_cn clp)) [0 ..< c_cc clp]"

lemma length_chars [simp]: "length (chars clp) = c_cc clp"
  by (simp add: chars_def)

lemma char_at_cell: "char_at clp i = char_of (cell clp i)"
  by (simp add: char_at_def char_of_def cell_def)

lemma char_of_nonneg: "0 \<le> char_of x"
  by (simp add: char_of_def TTY_QUOTE_def or_nonnegative_int_iff)

lemma QMEM_bits: "n \<le> 8 * QMEM n"
  by (simp add: QMEM_def NBBY_def)

lemma ringD:
  assumes "ring clp f"
  shows "0 < c_cn clp" "c_ce clp = c_cn clp" "c_cc clp \<le> c_cn clp" "f < c_cn clp" "c_cf clp = Some f"
    "c_cl clp = Some ((f + c_cc clp) mod c_cn clp)" "clist_basic clp"
  using assms by (auto simp: ring_def clist_basic_def)

lemma wrap_idx: "f < n \<Longrightarrow> i \<le> n \<Longrightarrow> (f + i) mod n = (if f + i < n then f + i else f + i - n)" for f i n :: nat
  by (auto simp: mod_if)

lemma chars_ring: "ring clp f \<Longrightarrow> chars clp = map (\<lambda>i. cell clp ((f + i) mod c_cn clp)) [0 ..< c_cc clp]"
  by (simp add: chars_def ring_def)

lemma chars_nth: "ring clp f \<Longrightarrow> i < c_cc clp \<Longrightarrow> chars clp ! i = cell clp ((f + i) mod c_cn clp)"
  by (simp add: chars_ring)

lemma reset_ok: "ring clp f \<Longrightarrow> clist_ok (reset_ptrs clp) \<and> chars (reset_ptrs clp) = chars clp"
  by (auto simp: reset_ptrs_def clist_ok_def ring_def clist_basic_def chars_def)

lemma ring_of_ok: "clist_ok clp \<Longrightarrow> 0 < c_cc clp \<Longrightarrow> \<exists>f. ring clp f"
  by (auto simp: clist_ok_def)

lemma chars_empty: "c_cc clp = 0 \<Longrightarrow> chars clp = []"
  by (simp add: chars_def)

text \<open>Taking the first \<open>n\<close> characters, which are contiguous.\<close>

lemma drop_piece_spec:
  assumes "ring clp f" "n \<le> c_cc clp" "f + n \<le> c_cn clp"
  shows "ring (drop_piece clp n) ((f + n) mod c_cn clp)" "chars (drop_piece clp n) = drop n (chars clp)"
    "take n (chars clp) = map (cell clp) [f ..< f + n]"
proof -
  note r = ringD [OF assms(1)]
  have cf: "next_ptr clp (f + n) = (f + n) mod c_cn clp"
    using assms(3) r by (auto simp: next_ptr_def)
  have "((f + n) mod c_cn clp + (c_cc clp - n)) mod c_cn clp = (f + c_cc clp) mod c_cn clp"
  proof -
    have "((f + n) mod c_cn clp + (c_cc clp - n)) mod c_cn clp = (f + n + (c_cc clp - n)) mod c_cn clp"
      by (rule mod_add_left_eq)
    then show ?thesis using assms(2) by simp
  qed
  then show ring: "ring (drop_piece clp n) ((f + n) mod c_cn clp)"
    using r cf by (auto simp: ring_def drop_piece_def clist_basic_def)
  have same: "cell (drop_piece clp n) = cell clp" by (simp add: cell_def drop_piece_def quoted_def fun_eq_iff)
  show "chars (drop_piece clp n) = drop n (chars clp)"
    unfolding chars_ring [OF ring] chars_ring [OF assms(1)] same
  proof (rule nth_equalityI)
    fix i
    assume "i < length (map (\<lambda>i. cell clp (((f + n) mod c_cn clp + i) mod c_cn (drop_piece clp n))) [0 ..< c_cc (drop_piece clp n)])"
    then have "n + i < c_cc clp" "i < c_cc clp - n" by (simp_all add: drop_piece_def)
    then show "map (\<lambda>i. cell clp (((f + n) mod c_cn clp + i) mod c_cn (drop_piece clp n))) [0 ..< c_cc (drop_piece clp n)] ! i =
        drop n (map (\<lambda>i. cell clp ((f + i) mod c_cn clp)) [0 ..< c_cc clp]) ! i"
      by (simp add: drop_piece_def mod_add_left_eq add.assoc)
  qed (simp add: drop_piece_def)
  show "take n (chars clp) = map (cell clp) [f ..< f + n]"
    unfolding chars_ring [OF assms(1)]
    by (rule nth_equalityI) (use assms(2,3) in auto)
qed

lemma piece_out_spec:
  assumes "ring clp f" "0 < count" "0 < c_cc clp"
  shows "0 < piece_out clp count \<and> piece_out clp count \<le> c_cc clp \<and> f + piece_out clp count \<le> c_cn clp \<and>
    int (piece_out clp count) \<le> count"
proof -
  note r = ringD [OF assms(1)]
  have "(f + c_cc clp) mod c_cn clp = (if f + c_cc clp < c_cn clp then f + c_cc clp else f + c_cc clp - c_cn clp)"
    using wrap_idx r by simp
  then show ?thesis using r assms(2,3) by (auto simp: piece_out_def Let_def split: if_splits)
qed

text \<open>Adding \<open>n\<close> characters at the end, in one piece.\<close>

lemma ring_append:
  assumes "ring clp f" "cl = (f + c_cc clp) mod c_cn clp" "cl + n \<le> c_cn clp" "c_cc clp + n \<le> c_cn clp"
    and "length cs = c_cn clp" "\<forall>q'. cq = Some q' \<longrightarrow> length q' = QMEM (c_cn clp)"
    and clp': "clp' = clp\<lparr>c_cs := Some cs, c_cq := cq, c_cc := c_cc clp + n, c_cl := Some (next_ptr clp (cl + n))\<rparr>"
    and keep: "\<And>i. i < c_cn clp \<Longrightarrow> i < cl \<or> cl + n \<le> i \<Longrightarrow> cell clp' i = cell clp i"
  shows "ring clp' f \<and> chars clp' = chars clp @ map (cell clp') [cl ..< cl + n]"
proof -
  note r = ringD [OF assms(1)]
  have "next_ptr clp (cl + n) = (cl + n) mod c_cn clp" using assms(3) r by (auto simp: next_ptr_def)
  also have "\<dots> = (f + (c_cc clp + n)) mod c_cn clp" unfolding assms(2) by (simp add: mod_add_left_eq add.assoc)
  finally have ring: "ring clp' f"
    using r assms(4-6) by (simp add: clp' ring_def clist_basic_def)
  have len: "c_cc clp' = c_cc clp + n" "c_cn clp' = c_cn clp" by (simp_all add: clp')
  have clv: "cl = (if f + c_cc clp < c_cn clp then f + c_cc clp else f + c_cc clp - c_cn clp)"
    unfolding assms(2) using wrap_idx r by simp
  have old: "cell clp' ((f + i) mod c_cn clp) = cell clp ((f + i) mod c_cn clp)" if "i < c_cc clp" for i
  proof (rule keep)
    have "(f + i) mod c_cn clp = (if f + i < c_cn clp then f + i else f + i - c_cn clp)"
      using wrap_idx r that by simp
    then show "(f + i) mod c_cn clp < cl \<or> cl + n \<le> (f + i) mod c_cn clp"
      using that clv r assms(3,4) by (auto split: if_splits)
  qed (use r in simp)
  have new: "(f + (c_cc clp + i)) mod c_cn clp = cl + i" if "i < n" for i
  proof -
    have "(f + (c_cc clp + i)) mod c_cn clp = (cl + i) mod c_cn clp"
      unfolding assms(2) by (simp add: mod_add_left_eq add.assoc)
    also have "\<dots> = cl + i" using that assms(3) by simp
    finally show ?thesis .
  qed
  have "chars clp' = chars clp @ map (cell clp') [cl ..< cl + n]"
    unfolding chars_ring [OF ring] chars_ring [OF assms(1)] len
  proof (rule nth_equalityI)
    fix i
    assume "i < length (map (\<lambda>i. cell clp' ((f + i) mod c_cn clp)) [0 ..< c_cc clp + n])"
    then have i: "i < c_cc clp + n" by simp
    show "map (\<lambda>i. cell clp' ((f + i) mod c_cn clp)) [0 ..< c_cc clp + n] ! i =
        (map (\<lambda>i. cell clp ((f + i) mod c_cn clp)) [0 ..< c_cc clp] @ map (cell clp') [cl ..< cl + n]) ! i"
    proof (cases "i < c_cc clp")
      case True then show ?thesis using i old by (simp add: nth_append)
    next
      case False
      then show ?thesis using i new [of "i - c_cc clp"] by (simp add: nth_append)
    qed
  qed simp
  with ring show ?thesis by simp
qed

text \<open>The quote bits of a queue reach as far as its characters.\<close>

lemma quote_room: "clist_basic clp \<Longrightarrow> c_cq clp = Some q \<Longrightarrow> i < c_cn clp \<Longrightarrow> i div 8 < length q"
  using QMEM_bits [of "c_cn clp"] by (auto simp: clist_basic_def less_mult_imp_div_less mult.commute)

subsection \<open>Single characters\<close>

lemma getc_spec:
  assumes "clist_ok clp"
  shows "clist_ok (fst (getc clp)) \<and>
    (case chars clp of [] \<Rightarrow> getc clp = (clp, -1) | x # xs \<Rightarrow> snd (getc clp) = char_of x \<and> chars (fst (getc clp)) = xs)"
proof (cases "c_cc clp = 0")
  case True
  then show ?thesis using assms by (simp add: getc_def chars_empty)
next
  case False
  then obtain f where f: "ring clp f" using ring_of_ok [OF assms] by blast
  note r = ringD [OF f]
  have n: "1 \<le> c_cc clp" "f + 1 \<le> c_cn clp" using False r by simp_all
  note p = drop_piece_spec [OF f n]
  have run: "getc clp = (reset_ptrs (drop_piece clp 1), char_of (cell clp f))"
    using False r by (simp add: getc_def drop_piece_def char_at_cell Let_def)
  have ne: "chars clp = cell clp f # chars (drop_piece clp 1)"
    using p(2,3) append_take_drop_id [of 1 "chars clp"] by simp
  show ?thesis using reset_ok [OF p(1)] unfolding run by (subst ne) simp
qed

lemma start_queue_ring:
  assumes "clist_ok clp"
  shows "\<exists>f clp1. start_queue mem clp = (clp1, True) \<and> ring clp1 f \<and> chars clp1 = chars clp \<and> c_cn clp1 = c_cn clp \<and>
    c_cc clp1 = c_cc clp \<and> c_cq clp1 = c_cq clp"
proof (cases "c_cc clp = 0")
  case True
  then show ?thesis
    using assms by (auto simp: start_queue_def clist_ok_def clist_basic_def ring_def chars_empty Let_def)
next
  case False
  then show ?thesis using assms ring_of_ok by (auto simp: start_queue_def)
qed

lemma putc_spec:
  assumes "clist_ok clp"
  shows "(c_cc clp = c_cn clp \<longrightarrow> putc mem c clp = (clp, -1)) \<and>
    (c_cc clp < c_cn clp \<longrightarrow> clist_ok (fst (putc mem c clp)) \<and> snd (putc mem c clp) = 0 \<and>
       c_cn (fst (putc mem c clp)) = c_cn clp \<and> (c_cq (fst (putc mem c clp)) = None) = (c_cq clp = None) \<and>
       chars (fst (putc mem c clp)) =
         chars clp @ [(word_of_int c, c AND TTY_QUOTE \<noteq> 0 \<and> c_cq clp \<noteq> None)])"
proof (cases "c_cc clp = c_cn clp")
  case True
  then show ?thesis by (simp add: putc_def)
next
  case False
  obtain f clp1 where s: "start_queue mem clp = (clp1, True)" "ring clp1 f" "chars clp1 = chars clp"
    "c_cn clp1 = c_cn clp" "c_cc clp1 = c_cc clp" "c_cq clp1 = c_cq clp"
    using start_queue_ring [OF assms] by blast
  note r = ringD [OF s(2)]
  define i where "i = (f + c_cc clp1) mod c_cn clp1"
  have i: "i < c_cn clp1" "c_cl clp1 = Some i" using r by (simp_all add: i_def)
  obtain cs where cs: "c_cs clp1 = Some cs" "length cs = c_cn clp1" using r(7) by (auto simp: clist_basic_def)
  let ?q = "\<lambda>q. if c AND TTY_QUOTE \<noteq> 0 then setbit q i else clrbit q i"
  define clp' where "clp' = clp1\<lparr>c_cs := Some (cs[i := word_of_int c]), c_cq := map_option ?q (c_cq clp1),
    c_cc := c_cc clp1 + 1, c_cl := Some (next_ptr clp1 (i + 1))\<rparr>"
  have run: "putc mem c clp = (clp', 0)"
    using False s(1) i cs by (simp add: putc_def clp'_def Let_def cong: if_cong)
  have lenq: "\<forall>q'. map_option ?q (c_cq clp1) = Some q' \<longrightarrow> length q' = QMEM (c_cn clp1)"
    using r(7) by (auto simp: clist_basic_def)
  have "quoted clp' j = (if j = i then c AND TTY_QUOTE \<noteq> 0 \<and> c_cq clp1 \<noteq> None else quoted clp1 j)" for j
    using quote_room [OF r(7) _ i(1)]
    by (auto simp: quoted_def clp'_def isset_setbit isset_clrbit split: option.splits)
  then have cell: "cell clp' j = (if j = i then (word_of_int c, c AND TTY_QUOTE \<noteq> 0 \<and> c_cq clp1 \<noteq> None) else cell clp1 j)" for j
    using i(1) cs by (auto simp: cell_def clp'_def)
  have "ring clp' f \<and> chars clp' = chars clp1 @ map (cell clp') [i ..< i + 1]"
    by (rule ring_append [OF s(2) i_def _ _ _ lenq clp'_def])
      (use i cs cell False s(4,5) r(3) in auto)
  then show ?thesis
    using False cell s(3-6) unfolding run by (auto simp: clist_ok_def clist_basic_def ring_def clp'_def)
qed

lemma unputc_spec:
  assumes "clist_ok clp"
  shows "clist_ok (fst (unputc clp)) \<and>
    (if chars clp = [] then unputc clp = (clp, -1)
     else snd (unputc clp) = char_of (last (chars clp)) \<and> chars (fst (unputc clp)) = butlast (chars clp))"
proof (cases "c_cc clp = 0")
  case True
  then show ?thesis using assms by (simp add: unputc_def chars_empty)
next
  case False
  then obtain f where f: "ring clp f" using ring_of_ok [OF assms] by blast
  note r = ringD [OF f]
  let ?m = "c_cc clp - 1" and ?cl = "if c_cl clp = Some 0 then c_ce clp - 1 else the (c_cl clp) - 1"
  have cl: "?cl = (f + ?m) mod c_cn clp"
    using False r wrap_idx [of f "c_cn clp" "c_cc clp"] wrap_idx [of f "c_cn clp" ?m] by (auto split: if_splits)
  define clp' where "clp' = clp\<lparr>c_cl := Some ?cl, c_cc := ?m\<rparr>"
  have ring: "ring clp' f" using r cl by (simp add: clp'_def ring_def clist_basic_def)
  have same: "cell clp' = cell clp" by (simp add: cell_def clp'_def quoted_def fun_eq_iff)
  have run: "unputc clp = (reset_ptrs clp', char_of (cell clp ((f + ?m) mod c_cn clp)))"
    using False same cl by (simp add: unputc_def clp'_def char_at_cell Let_def)
  have upt: "[0 ..< c_cc clp] = [0 ..< ?m] @ [?m]" using False by (metis Suc_pred' neq0_conv upt_Suc_append zero_le)
  have split: "chars clp = chars clp' @ [cell clp ((f + ?m) mod c_cn clp)]"
    unfolding chars_ring [OF f] chars_ring [OF ring] same upt by (simp add: clp'_def)
  show ?thesis using reset_ok [OF ring] unfolding run split by simp
qed

subsection \<open>Blocks of characters\<close>

definition clist_quotes :: "clist \<Rightarrow> bool" where
  "clist_quotes clp \<longleftrightarrow> c_cq clp \<noteq> None"

text \<open>What no routine changes: the capacity, and whether there are quote bits.\<close>

definition shape :: "clist \<Rightarrow> nat \<times> bool" where
  "shape clp = (c_cn clp, clist_quotes clp)"

lemma shape_simps [simp]:
  "shape (drop_piece clp n) = shape clp" "shape (reset_ptrs clp) = shape clp"
  by (simp_all add: shape_def clist_quotes_def drop_piece_def reset_ptrs_def)

text \<open>
  \<open>q_to_b\<close> moves pieces: what has been copied and what is left agree with the characters at
  the start.
\<close>

definition qtb_inv :: "(u8 \<times> bool) list \<times> int \<times> nat \<times> bool \<Rightarrow> clist \<times> int \<times> u8 list \<Rightarrow> bool" where
  "qtb_inv = (\<lambda>(L, k, sh) (clp, count, p). (\<exists>f. ring clp f) \<and> shape clp = sh \<and>
     p @ map fst (take (nat count) (chars clp)) = map fst (take (nat k) L) \<and>
     drop (nat count) (chars clp) = drop (nat k) L)"

definition qtb_good :: "(u8 \<times> bool) list \<times> int \<times> nat \<times> bool \<Rightarrow> clist \<times> u8 list \<Rightarrow> bool" where
  "qtb_good = (\<lambda>(L, k, sh) (clp, p). clist_ok clp \<and> shape clp = sh \<and> p = map fst (take (nat k) L) \<and> chars clp = drop (nat k) L)"

lemma qtb_piece:
  assumes "ring clp f" "0 < count" "0 < c_cc clp" "n = piece_out clp count"
  shows "ring (drop_piece clp n) ((f + n) mod c_cn clp)" "0 < n" "n \<le> nat count"
    "drop (nat (count - int n)) (chars (drop_piece clp n)) = drop (nat count) (chars clp)"
    "map fst (take n (chars clp)) = take n (drop f (the (c_cs clp)))"
    "take (nat count) (chars clp) = take n (chars clp) @ take (nat (count - int n)) (chars (drop_piece clp n))"
proof -
  have n: "0 < n" "n \<le> c_cc clp" "f + n \<le> c_cn clp" "int n \<le> count" using piece_out_spec [OF assms(1-3)] assms(4) by auto
  note p = drop_piece_spec [OF assms(1) n(2,3)]
  show "ring (drop_piece clp n) ((f + n) mod c_cn clp)" "0 < n" "n \<le> nat count" using p(1) n by auto
  have k: "nat (count - int n) + n = nat count" using n(4) by simp
  show "drop (nat (count - int n)) (chars (drop_piece clp n)) = drop (nat count) (chars clp)"
    unfolding p(2) drop_drop k ..
  show "take (nat count) (chars clp) = take n (chars clp) @ take (nat (count - int n)) (chars (drop_piece clp n))"
    unfolding p(2) take_drop k [symmetric] by (metis add.commute take_add take_drop)
  have cs: "length (the (c_cs clp)) = c_cn clp" using ringD(7) [OF assms(1)] by (auto simp: clist_basic_def)
  show "map fst (take n (chars clp)) = take n (drop f (the (c_cs clp)))"
    unfolding p(3) by (rule nth_equalityI) (use n(3) cs in \<open>auto simp: cell_def\<close>)
qed

interpretation qtb: forward_machine "\<lambda>_. q_to_b_step" qtb_inv "\<lambda>_ (clp, count, p). nat count" qtb_good
proof unfold_locales
  fix e s s'
  assume inv: "qtb_inv e s" and step: "q_to_b_step s = Inl s'"
  obtain L k sh clp count p where [simp]: "e = (L, k, sh)" "s = (clp, count, p)" by (metis prod_cases3)
  obtain f where f: "ring clp f" and i: "p @ map fst (take (nat count) (chars clp)) = map fst (take (nat k) L)"
    "drop (nat count) (chars clp) = drop (nat k) L" "shape clp = sh"
    using inv by (auto simp: qtb_inv_def)
  have pos: "0 < count" "0 < c_cc clp" using step by (auto simp: q_to_b_step_def split: if_splits)
  define n where "n = piece_out clp count"
  note q = qtb_piece [OF f pos n_def]
  have s': "s' = (drop_piece clp n, count - int n, p @ take n (drop f (the (c_cs clp))))"
    using step pos ringD(5) [OF f] by (auto simp: q_to_b_step_def n_def Let_def)
  show "qtb_inv e s'" using q i unfolding s' by (auto simp: qtb_inv_def)
  show "(case s' of (clp, count, p) \<Rightarrow> nat count) < (case s of (clp, count, p) \<Rightarrow> nat count)"
    unfolding s' using q(2,3) pos(1) by simp
next
  fix e s r
  assume inv: "qtb_inv e s" and step: "q_to_b_step s = Inr r"
  obtain L k sh clp count p where [simp]: "e = (L, k, sh)" "s = (clp, count, p)" by (metis prod_cases3)
  obtain f where f: "ring clp f" and i: "p @ map fst (take (nat count) (chars clp)) = map fst (take (nat k) L)"
    "drop (nat count) (chars clp) = drop (nat k) L" "shape clp = sh"
    using inv by (auto simp: qtb_inv_def)
  have "r = (reset_ptrs clp, p)" and z: "count \<le> 0 \<or> chars clp = []"
    using step chars_empty by (auto simp: q_to_b_step_def Let_def split: if_splits)
  then show "qtb_good e r" using reset_ok [OF f] i by (auto simp: qtb_good_def)
qed

lemma q_to_b_result:
  assumes "clist_ok clp"
  shows "\<exists>clp'. q_to_b clp count = Some (clp', map fst (take (nat count) (chars clp))) \<and> clist_ok clp' \<and>
    chars clp' = drop (nat count) (chars clp) \<and> shape clp' = shape clp"
proof (cases "c_cc clp = 0")
  case True
  have "q_to_b_step (clp, count, []) = Inr (reset_ptrs clp, [])" using True by (simp add: q_to_b_step_def)
  moreover have "reset_ptrs clp = clp" using assms True by (simp add: reset_ptrs_def clist_ok_def)
  ultimately show ?thesis using assms True by (simp add: q_to_b_def iterate_Inr chars_empty)
next
  case False
  then obtain f where "ring clp f" using ring_of_ok [OF assms] by blast
  then have "qtb_inv (chars clp, count, shape clp) (clp, count, [])" by (auto simp: qtb_inv_def)
  from qtb.returns [OF this] show ?thesis by (auto simp: q_to_b_def qtb_good_def)
qed

text \<open>\<open>ndflush\<close> is \<open>q_to_b\<close> without the copy.\<close>

lemma ndflush_step_q_to_b:
  "ndflush_step (clp, count) =
     (case q_to_b_step (clp, count, p) of Inl (clp', count', p') \<Rightarrow> Inl (clp', count') | Inr (clp', p') \<Rightarrow> Inr clp')"
  by (simp add: ndflush_step_def q_to_b_step_def Let_def)

interpretation ndf: forward_machine "\<lambda>_. ndflush_step" "\<lambda>e (clp, count). \<exists>p. qtb_inv e (clp, count, p)"
  "\<lambda>_ (clp, count). nat count" "\<lambda>e clp. \<exists>p. qtb_good e (clp, p)"
proof unfold_locales
  fix e s s'
  assume inv: "case s of (clp, count) \<Rightarrow> \<exists>p. qtb_inv e (clp, count, p)" and step: "ndflush_step s = Inl s'"
  obtain clp count p where s: "s = (clp, count)" "qtb_inv e (clp, count, p)" using inv by (cases s) auto
  obtain clp' count' p' where q: "q_to_b_step (clp, count, p) = Inl (clp', count', p')" "s' = (clp', count')"
    using step unfolding s(1) ndflush_step_q_to_b [of clp count p] by (auto split: sum.splits prod.splits)
  show "case s' of (clp, count) \<Rightarrow> \<exists>p. qtb_inv e (clp, count, p)"
    using qtb.step_inv [OF s(2) q(1)] q(2) by auto
  show "(case s' of (clp, count) \<Rightarrow> nat count) < (case s of (clp, count) \<Rightarrow> nat count)"
    using qtb.step_rank [OF s(2) q(1)] q(2) s(1) by simp
next
  fix e s r
  assume inv: "case s of (clp, count) \<Rightarrow> \<exists>p. qtb_inv e (clp, count, p)" and step: "ndflush_step s = Inr r"
  obtain clp count p where s: "s = (clp, count)" "qtb_inv e (clp, count, p)" using inv by (cases s) auto
  obtain p' where "q_to_b_step (clp, count, p) = Inr (r, p')"
    using step unfolding s(1) ndflush_step_q_to_b [of clp count p] by (auto split: sum.splits prod.splits)
  from qtb.step_good [OF s(2) this] show "\<exists>p. qtb_good e (r, p)" ..
qed

lemma ndflush_result:
  assumes "clist_ok clp"
  shows "\<exists>clp'. ndflush clp count = Some clp' \<and> clist_ok clp' \<and> chars clp' = drop (nat count) (chars clp) \<and>
    shape clp' = shape clp"
proof (cases "count = int (c_cc clp)")
  case True
  then show ?thesis using assms
    by (auto simp: ndflush_def clist_ok_def clist_basic_def chars_empty ring_def shape_def clist_quotes_def)
next
  case ne: False
  show ?thesis
  proof (cases "c_cc clp = 0")
    case True
    have "ndflush_step (clp, count) = Inr (reset_ptrs clp)" using True by (simp add: ndflush_step_def)
    moreover have "reset_ptrs clp = clp" using assms True by (simp add: reset_ptrs_def clist_ok_def)
    ultimately show ?thesis using assms True ne by (simp add: ndflush_def iterate_Inr chars_empty)
  next
    case False
    then obtain f where "ring clp f" using ring_of_ok [OF assms] by blast
    then have "\<exists>p. qtb_inv (chars clp, count, shape clp) (clp, count, p)"
      by (intro exI [of _ "[]"]) (auto simp: qtb_inv_def)
    then have "(\<lambda>(clp', count'). \<exists>p. qtb_inv (chars clp, count, shape clp) (clp', count', p)) (clp, count)" by simp
    from ndf.returns [OF this] ne show ?thesis
      by (auto simp: ndflush_def qtb_good_def)
  qed
qed

text \<open>\<open>b_to_q\<close>: what has been appended, and the bytes still to come.\<close>

definition btq_inv :: "(u8 \<times> bool) list \<times> (nat \<times> bool) \<times> u8 list \<Rightarrow> clist \<times> int \<times> u8 list \<Rightarrow> bool" where
  "btq_inv = (\<lambda>(L, sh, b) (clp, count, p). (\<exists>f. ring clp f) \<and> shape clp = sh \<and> 0 \<le> count \<and> nat count \<le> length p \<and>
     chars clp @ map (\<lambda>x. (x, False)) (take (nat count) p) = L @ map (\<lambda>x. (x, False)) b)"

definition btq_good :: "(u8 \<times> bool) list \<times> (nat \<times> bool) \<times> u8 list \<Rightarrow> clist \<times> int \<Rightarrow> bool" where
  "btq_good = (\<lambda>(L, sh, b) (clp, count). (\<exists>f. ring clp f) \<and> shape clp = sh \<and>
     length L + length b = c_cc clp + nat count \<and> 0 \<le> count \<and> (0 < count \<longrightarrow> c_cc clp = fst sh) \<and>
     chars clp = take (fst sh) (L @ map (\<lambda>x. (x, False)) b))"

lemma b_to_q_piece:
  assumes "ring clp f" "0 < count" "c_cc clp < c_cn clp" "nat count \<le> length p"
    and "b_to_q_step (clp, count, p) = Inl (clp', count', p')"
  shows "\<exists>n. 0 < n \<and> int n \<le> count \<and> count' = count - int n \<and> p' = drop n p \<and> ring clp' f \<and> shape clp' = shape clp \<and>
    chars clp' = chars clp @ map (\<lambda>x. (x, False)) (take n p)"
proof -
  note r = ringD [OF assms(1)]
  define cl where "cl = (f + c_cc clp) mod c_cn clp"
  have clv: "cl = (if f + c_cc clp < c_cn clp then f + c_cc clp else f + c_cc clp - c_cn clp)"
    unfolding cl_def using wrap_idx r by simp
  define cc where "cc = (if f > cl then f - cl else c_ce clp - cl)"
  define n where "n = (if int cc > count then nat count else cc)"
  have cc: "0 < cc" "cl + cc \<le> c_cn clp" "c_cc clp + cc \<le> c_cn clp"
    using clv r assms(3) by (auto simp: cc_def split: if_splits)
  then have n: "0 < n" "int n \<le> count" "cl + n \<le> c_cn clp" "c_cc clp + n \<le> c_cn clp" "n \<le> length p"
    using assms(2,4) by (auto simp: n_def split: if_splits)
  obtain cs where cs: "c_cs clp = Some cs" "length cs = c_cn clp" using r(7) by (auto simp: clist_basic_def)
  define cs' where "cs' = bcopy_to (take n p) cs cl"
  define q' where "q' = map_option (\<lambda>q. clrbits q cl n) (c_cq clp)"
  have len: "cl + length (take n p) \<le> length cs" using n cs by simp
  note bc = bcopy_to_nth [OF len]
  have eq: "clp' = clp\<lparr>c_cs := Some cs', c_cq := q', c_cc := c_cc clp + n, c_cl := Some (next_ptr clp (cl + n))\<rparr>"
    "count' = count - int n" "p' = drop n p"
    using assms(2,3,5) r cs by (auto simp: b_to_q_step_def Let_def cs'_def q'_def n_def cc_def cl_def)
  have quote: "quoted clp' j = (quoted clp j \<and> \<not> (cl \<le> j \<and> j < cl + n))" if "j < c_cn clp" for j
  proof (cases "c_cq clp")
    case None then show ?thesis by (simp add: quoted_def eq(1) q'_def)
  next
    case (Some q)
    then have "c_cn clp \<le> 8 * length q" using r(7) QMEM_bits by (auto simp: clist_basic_def)
    then have "isset (clrbits q cl n) j \<longleftrightarrow> isset q j \<and> \<not> (cl \<le> j \<and> j < cl + n)"
      using clrbits_spec [of cl n q j] n that by simp
    with Some show ?thesis by (simp add: quoted_def eq(1) q'_def)
  qed
  have cell: "cell clp' j = (if cl \<le> j \<and> j < cl + n then (p ! (j - cl), False) else cell clp j)" if "j < c_cn clp" for j
    using quote [OF that] bc(2) [of j] that n(5) by (auto simp: cell_def cs eq(1) cs'_def)
  have lenq: "\<forall>x. q' = Some x \<longrightarrow> length x = QMEM (c_cn clp)"
    using r(7) by (auto simp: q'_def clist_basic_def)
  have "ring clp' f \<and> chars clp' = chars clp @ map (cell clp') [cl ..< cl + n]"
    by (rule ring_append [OF assms(1) cl_def n(3,4) _ lenq eq(1)]) (use bc(1) cs cell in \<open>auto simp: cs'_def\<close>)
  moreover have "map (cell clp') [cl ..< cl + n] = map (\<lambda>x. (x, False)) (take n p)"
    by (rule nth_equalityI) (use cell n in auto)
  moreover have "shape clp' = shape clp" by (simp add: eq(1) q'_def shape_def clist_quotes_def)
  ultimately show ?thesis using n eq by (intro exI [of _ n]) simp
qed

interpretation btq: forward_machine "\<lambda>_. b_to_q_step" btq_inv "\<lambda>_ (clp, count, p). nat count" btq_good
proof unfold_locales
  fix e s s'
  assume inv: "btq_inv e s" and step: "b_to_q_step s = Inl s'"
  obtain L sh b clp count p clp' count' p' where [simp]: "e = (L, sh, b)" "s = (clp, count, p)" "s' = (clp', count', p')"
    by (metis prod_cases3)
  obtain f where f: "ring clp f" and i: "shape clp = sh" "0 \<le> count" "nat count \<le> length p"
    "chars clp @ map (\<lambda>x. (x, False)) (take (nat count) p) = L @ map (\<lambda>x. (x, False)) b"
    using inv by (auto simp: btq_inv_def)
  have pos: "0 < count" "c_cc clp < c_cn clp" using step by (auto simp: b_to_q_step_def split: if_splits)
  obtain n where n: "0 < n" "int n \<le> count" "count' = count - int n" "p' = drop n p" "ring clp' f" "shape clp' = shape clp"
    "chars clp' = chars clp @ map (\<lambda>x. (x, False)) (take n p)"
    using b_to_q_piece [OF f pos i(3)] step by auto
  have "take (nat count) p = take n p @ take (nat (count - int n)) (drop n p)"
    using n(2) by (metis add_diff_inverse_nat nat_diff_distrib' nat_int nat_le_iff of_nat_0_le_iff pos(1) order_less_imp_le
        take_add linorder_not_less nat_int_comparison(2) int_nat_eq)
  then show "btq_inv e s'" using n i by (auto simp: btq_inv_def)
  show "(case s' of (clp, count, p) \<Rightarrow> nat count) < (case s of (clp, count, p) \<Rightarrow> nat count)" using n pos by simp
next
  fix e s r
  assume inv: "btq_inv e s" and step: "b_to_q_step s = Inr r"
  obtain L sh b clp count p where [simp]: "e = (L, sh, b)" "s = (clp, count, p)"
    by (metis prod_cases3)
  obtain f where f: "ring clp f" and i: "shape clp = sh" "0 \<le> count" "nat count \<le> length p"
    "chars clp @ map (\<lambda>x. (x, False)) (take (nat count) p) = L @ map (\<lambda>x. (x, False)) b"
    using inv by (auto simp: btq_inv_def)
  have r: "r = (clp, count)" "count = 0 \<or> c_cn clp \<le> c_cc clp"
    using step i(2) by (auto simp: b_to_q_step_def Let_def split: if_splits)
  have cc: "c_cc clp \<le> fst sh" "fst sh = c_cn clp" using ringD(3) [OF f] i(1) by (auto simp: shape_def)
  have "length L + length b = c_cc clp + nat count" using arg_cong [OF i(4), of length] i(3) by simp
  moreover have "chars clp = take (fst sh) (L @ map (\<lambda>x. (x, False)) b)"
    unfolding i(4) [symmetric] using r(2) cc i(1) by (auto simp: take_all)
  ultimately show "btq_good e r" using r f i(1,2) cc by (auto simp: btq_good_def)
qed

lemma b_to_q_result:
  assumes "clist_ok clp" "nat count \<le> length p"
  shows "\<exists>clp'. b_to_q mem p count clp = Some (clp', int (nat count - (c_cn clp - c_cc clp))) \<and> clist_ok clp' \<and>
    shape clp' = shape clp \<and>
    chars clp' = chars clp @ map (\<lambda>x. (x, False)) (take (min (nat count) (c_cn clp - c_cc clp)) p)"
proof -
  consider "count \<le> 0" | "0 < count" "c_cc clp = c_cn clp" | "0 < count" "c_cc clp \<noteq> c_cn clp" by linarith
  then show ?thesis
  proof cases
    case 3
    then have room: "c_cc clp < c_cn clp" using assms(1) by (simp add: clist_ok_def clist_basic_def)
    obtain f clp1 where s: "start_queue mem clp = (clp1, True)" "ring clp1 f" "chars clp1 = chars clp"
      "shape clp1 = shape clp" "c_cc clp1 = c_cc clp"
      using start_queue_ring [OF assms(1)] unfolding shape_def clist_quotes_def by metis
    let ?b = "take (nat count) p"
    have "btq_inv (chars clp, shape clp, ?b) (clp1, count, p)" using s assms(2) 3(1) by (auto simp: btq_inv_def)
    from btq.returns [OF this] obtain clp' count' where r: "iterate b_to_q_step (clp1, count, p) = Some (clp', count')"
      "\<exists>f. ring clp' f" "shape clp' = shape clp" "c_cc clp + nat count = c_cc clp' + nat count'" "0 \<le> count'"
      "0 < count' \<longrightarrow> c_cc clp' = c_cn clp" "chars clp' = take (c_cn clp) (chars clp @ map (\<lambda>x. (x, False)) ?b)"
      using assms(2) 3(1) by (auto simp: btq_good_def shape_def)
    obtain f' where f': "ring clp' f'" using r(2) ..
    have "c_cc clp' = min (c_cn clp) (c_cc clp + nat count)"
      using arg_cong [OF r(7), of length] assms(2) room by (auto simp: min_def split: if_splits)
    then have "0 < c_cc clp'" "count' = int (nat count - (c_cn clp - c_cc clp))"
      using 3(1) room r(4,5) by auto
    moreover have "chars clp' = chars clp @ map (\<lambda>x. (x, False)) (take (min (nat count) (c_cn clp - c_cc clp)) p)"
      unfolding r(7) using room by (simp add: take_map min.commute)
    moreover have "clist_ok clp'" using f' calculation(1) by (auto simp: clist_ok_def ring_def)
    ultimately show ?thesis using 3 s(1) r(1,3) by (simp add: b_to_q_def)
  qed (use assms in \<open>simp_all add: b_to_q_def\<close>)
qed

subsection \<open>Looking at all characters\<close>

text \<open>The loop of \<open>ttyretype\<close> over a queue: the characters it echoes.\<close>

fun nextc_loop :: "clist \<Rightarrow> nat \<Rightarrow> nat \<times> (nat \<times> int) option \<Rightarrow> int list" where
  "nextc_loop clp 0 r = []"
| "nextc_loop clp (Suc n) r =
     (case snd r of None \<Rightarrow> [] | Some (cp, c) \<Rightarrow> c # nextc_loop clp n (nextc clp cp (fst r)))"

lemma nextc_loop_from:
  assumes "ring clp f" "i < c_cc clp" "c_cc clp - i \<le> n"
  shows "nextc_loop clp n (c_cc clp - i, Some ((f + i) mod c_cn clp, char_of (chars clp ! i))) =
    map char_of (drop i (chars clp))"
  using assms(2,3)
proof (induction n arbitrary: i)
  case (Suc n)
  note r = ringD [OF assms(1)]
  have w: "(f + j) mod c_cn clp = (if f + j < c_cn clp then f + j else f + j - c_cn clp)" if "j \<le> c_cn clp" for j
    using wrap_idx r that by simp
  have first: "c_cf clp = Some ((f + i) mod c_cn clp) \<longleftrightarrow> i = 0"
    using r w [of i] Suc.prems(1) by (auto split: if_splits)
  have nxt: "next_ptr clp ((f + i) mod c_cn clp + 1) = (f + Suc i) mod c_cn clp"
    using r w [of i] w [of "Suc i"] Suc.prems(1) by (auto simp: next_ptr_def split: if_splits)
  have drop: "drop i (chars clp) = chars clp ! i # drop (Suc i) (chars clp)"
    using Suc.prems(1) by (simp add: Cons_nth_drop_Suc)
  have cc: "(if c_cf clp = Some ((f + i) mod c_cn clp) then c_cc clp else c_cc clp - i) = c_cc clp - i"
    using first by simp
  show ?case
  proof (cases "Suc i < c_cc clp")
    case True
    then have "nextc clp ((f + i) mod c_cn clp) (c_cc clp - i) =
        (c_cc clp - Suc i, Some ((f + Suc i) mod c_cn clp, char_of (chars clp ! Suc i)))"
      unfolding nextc_def cc Let_def nxt using chars_nth [OF assms(1), of "Suc i"] by (auto simp: char_at_cell)
    then show ?thesis using Suc.IH [of "Suc i"] True Suc.prems drop by simp
  next
    case False
    then have "c_cc clp - i = 1" using Suc.prems(1) by simp
    then have "nextc clp ((f + i) mod c_cn clp) (c_cc clp - i) = (0, None)"
      unfolding nextc_def cc by simp
    then show ?thesis using drop False by (cases n) simp_all
  qed
qed simp

lemma nextc_loop_all:
  assumes "clist_ok clp" "c_cc clp \<le> n"
  shows "nextc_loop clp n (firstc clp) = map char_of (chars clp)"
proof (cases "c_cc clp = 0")
  case True
  then show ?thesis by (cases n) (simp_all add: firstc_def chars_empty)
next
  case False
  then obtain f where f: "ring clp f" using ring_of_ok [OF assms(1)] by blast
  note r = ringD [OF f]
  have "firstc clp = (c_cc clp - 0, Some ((f + 0) mod c_cn clp, char_of (chars clp ! 0)))"
    using False r chars_nth [OF f, of 0] by (simp add: firstc_def char_at_cell)
  then show ?thesis using nextc_loop_from [OF f, of 0 n] False assms(2) by simp
qed

text \<open>The characters that \<open>ndqb\<close> counts without a flag are one piece of the buffer.\<close>

lemma ndqb_piece:
  assumes "clist_ok clp"
  shows "ndqb clp 0 \<le> c_cc clp \<and> (c_cc clp \<noteq> 0 \<longrightarrow> 0 < ndqb clp 0) \<and>
    map fst (take (ndqb clp 0) (chars clp)) = take (ndqb clp 0) (drop (the (c_cf clp)) (the (c_cs clp)))"
proof (cases "c_cc clp = 0")
  case True
  then show ?thesis by (simp add: ndqb_def)
next
  case False
  then obtain f where f: "ring clp f" using ring_of_ok [OF assms] by blast
  have "(f + c_cc clp) mod c_cn clp < c_cn clp" using ringD(1) [OF f] by simp
  then have "\<not> c_cn clp < (f + c_cc clp) mod c_cn clp - f" by linarith
  then have n: "ndqb clp 0 = piece_out clp (int (c_cn clp))"
    using ringD [OF f] by (auto simp: ndqb_def piece_out_def Let_def False)
  have "0 < int (c_cn clp)" using ringD(1) [OF f] by simp
  from piece_out_spec [OF f this] qtb_piece(5) [OF f this _ n] ringD(5) [OF f] show ?thesis
    using False n by simp
qed

subsection \<open>Queues as clients see them\<close>

text \<open>
  The contract of a character queue: taking from the front, adding at the end while there is
  room. What moves characters from one queue to another relies on it alone.
\<close>

locale char_queue =
  fixes ok :: "'q \<Rightarrow> bool"
    and items :: "'q \<Rightarrow> (u8 \<times> bool) list"
    and cap :: "'q \<Rightarrow> nat"
    and quotes :: "'q \<Rightarrow> bool"
    and get :: "'q \<Rightarrow> 'q \<times> int"
    and put :: "int \<Rightarrow> 'q \<Rightarrow> 'q \<times> int"
  assumes room: "ok q \<Longrightarrow> length (items q) \<le> cap q"
    and get_empty: "ok q \<Longrightarrow> items q = [] \<Longrightarrow> get q = (q, -1)"
    and get_first: "ok q \<Longrightarrow> items q = x # xs \<Longrightarrow>
      ok (fst (get q)) \<and> snd (get q) = char_of x \<and> items (fst (get q)) = xs"
    and put_full: "ok q \<Longrightarrow> length (items q) = cap q \<Longrightarrow> put c q = (q, -1)"
    and put_room: "ok q \<Longrightarrow> length (items q) < cap q \<Longrightarrow>
      ok (fst (put c q)) \<and> items (fst (put c q)) = items q @ [(word_of_int c, c AND TTY_QUOTE \<noteq> 0 \<and> quotes q)] \<and>
      cap (fst (put c q)) = cap q \<and> quotes (fst (put c q)) = quotes q"

lemma byte_of_char: "word_of_int (char_of x) = fst x"
proof (rule bit_word_eqI)
  fix n
  assume "n < LENGTH(8)"
  then have n: "n < 8" by simp
  have "\<not> bit (256 :: int) n"
    using n by (auto simp: bit_iff_odd less_Suc_eq numeral_eq_Suc)
  then have "\<not> bit (TTY_QUOTE) n" by (simp add: TTY_QUOTE_def)
  then show "bit (word_of_int (char_of x) :: u8) n = bit (fst x) n"
    using n by (auto simp: char_of_def bit_or_iff bit_word_of_int_iff bit_uint_iff)
qed

lemma quote_of_char: "char_of x AND TTY_QUOTE \<noteq> 0 \<longleftrightarrow> snd x"
proof -
  have u: "uint (fst x) AND 256 = 0"
  proof (rule bit_eqI)
    fix n
    have "n = 8" if "bit (256 :: int) n"
      using that bit_exp_iff [of "8 :: nat" n, where ?'a = int] by simp
    moreover have "\<not> bit (uint (fst x)) 8" by (simp add: bit_uint_iff)
    ultimately show "bit (uint (fst x) AND 256) n = bit 0 n" by (auto simp: bit_and_iff)
  qed
  show ?thesis using u by (cases "snd x") (simp_all add: char_of_def TTY_QUOTE_def and.commute bit.conj_disj_distrib)
qed

context char_queue
begin

text \<open>Moving one character after the other: the target keeps what fits, the source is emptied.\<close>

lemma cat_all:
  assumes "ok from" "ok to"
  shows "\<exists>from' to'. iterate (cat_step get put) (from, to) = Some (from', to') \<and> ok from' \<and> ok to' \<and> items from' = [] \<and>
    items to' = take (cap to) (items to @ map (\<lambda>x. (fst x, snd x \<and> quotes to)) (items from))"
  using assms
proof (induction "items from" arbitrary: "from" to)
  case Nil
  have "cat_step get put (from, to) = Inr (from, to)"
    using get_empty [OF Nil(2)] Nil(1) by (simp add: cat_step_def)
  then show ?case using Nil room [OF Nil(3)] by (simp add: iterate_Inr)
next
  case (Cons x xs)
  define from1 where "from1 = fst (get from)"
  define to1 where "to1 = fst (put (char_of x) to)"
  have g: "get from = (from1, char_of x)" "ok from1" "items from1 = xs"
    using get_first [OF Cons(3), of x xs] Cons(2) by (auto simp: from1_def prod_eq_iff)
  have "char_of x \<noteq> -1" using char_of_nonneg [of x] by linarith
  then have step: "cat_step get put (from, to) = Inl (from1, to1)" using g(1) by (simp add: cat_step_def to1_def)
  let ?y = "(fst x, snd x \<and> quotes to)"
  have t: "ok to1 \<and> cap to1 = cap to \<and> quotes to1 = quotes to \<and> items to1 = take (cap to) (items to @ [?y])"
  proof (cases "length (items to) < cap to")
    case True
    then show ?thesis
      using put_room [OF Cons(4) True, of "char_of x"] by (simp add: to1_def byte_of_char quote_of_char)
  next
    case False
    then have "length (items to) = cap to" using room [OF Cons(4)] by simp
    then show ?thesis using put_full [OF Cons(4), of "char_of x"] Cons(4) by (simp add: to1_def)
  qed
  obtain from' to' where r: "iterate (cat_step get put) (from1, to1) = Some (from', to')" "ok from'" "ok to'" "items from' = []"
    "items to' = take (cap to1) (items to1 @ map (\<lambda>x. (fst x, snd x \<and> quotes to1)) (items from1))"
    using Cons.hyps(1) [of from1 to1] g t by auto
  have cut: "take k (take k xs @ ys) = take k (xs @ ys)" for k and xs ys :: "(u8 \<times> bool) list"
    by (simp add: min_def)
  have "items to' = take (cap to) (items to @ map (\<lambda>x. (fst x, snd x \<and> quotes to)) (items from))"
    using r(5) t g(3) Cons(2) [symmetric] cut [of "cap to" "items to @ [?y]"] by simp
  then show ?case using r step by (simp add: iterate_Inl)
qed

end

interpretation clist_queue: char_queue clist_ok chars c_cn clist_quotes getc "putc mem" for mem
proof unfold_locales
  fix q assume "clist_ok q" then show "length (chars q) \<le> c_cn q" by (simp add: clist_ok_def clist_basic_def)
next
  fix q assume "clist_ok q" "chars q = []" then show "getc q = (q, -1)" using getc_spec [of q] by simp
next
  fix q x xs assume "clist_ok q" "chars q = x # xs"
  then show "clist_ok (fst (getc q)) \<and> snd (getc q) = char_of x \<and> chars (fst (getc q)) = xs" using getc_spec [of q] by simp
next
  fix q c assume "clist_ok q" "length (chars q) = c_cn q"
  then show "putc mem c q = (q, -1)" using putc_spec [of q mem c] by simp
next
  fix q c assume "clist_ok q" "length (chars q) < c_cn q"
  then show "clist_ok (fst (putc mem c q)) \<and>
      chars (fst (putc mem c q)) = chars q @ [(word_of_int c, c AND TTY_QUOTE \<noteq> 0 \<and> clist_quotes q)] \<and>
      c_cn (fst (putc mem c q)) = c_cn q \<and> clist_quotes (fst (putc mem c q)) = clist_quotes q"
    using putc_spec [of q mem c] by (simp add: clist_quotes_def)
qed

subsection \<open>Results\<close>

text \<open>
  The specification: a queue is a list of characters with a capacity; \<open>quotes\<close> says whether it
  keeps quote bits. The operations with their results, and the bytes they move.
\<close>

datatype queue_op = Getc | Putc int | Unputc | Q_to_b int | B_to_q "u8 list" int | Ndflush int

fun queue_spec :: "nat \<Rightarrow> bool \<Rightarrow> queue_op \<Rightarrow> (u8 \<times> bool) list \<Rightarrow> (u8 \<times> bool) list \<times> int \<times> u8 list" where
  "queue_spec cap quotes Getc q = (case q of [] \<Rightarrow> ([], -1, []) | x # xs \<Rightarrow> (xs, char_of x, []))"
| "queue_spec cap quotes (Putc c) q =
     (if length q = cap then (q, -1, []) else (q @ [(word_of_int c, c AND TTY_QUOTE \<noteq> 0 \<and> quotes)], 0, []))"
| "queue_spec cap quotes Unputc q = (if q = [] then (q, -1, []) else (butlast q, char_of (last q), []))"
| "queue_spec cap quotes (Q_to_b n) q = (drop (nat n) q, int (length (take (nat n) q)), map fst (take (nat n) q))"
| "queue_spec cap quotes (B_to_q p n) q =
     (let k = min (nat n) (cap - length q) in (q @ map (\<lambda>b. (b, False)) (take k p), int (nat n - k), []))"
| "queue_spec cap quotes (Ndflush n) q = (drop (nat n) q, 0, [])"

fun clist_op :: "tmem \<Rightarrow> queue_op \<Rightarrow> clist \<Rightarrow> (clist \<times> int \<times> u8 list) option" where
  "clist_op mem Getc clp = (case getc clp of (clp', c) \<Rightarrow> Some (clp', c, []))"
| "clist_op mem (Putc c) clp = (case putc mem c clp of (clp', r) \<Rightarrow> Some (clp', r, []))"
| "clist_op mem Unputc clp = (case unputc clp of (clp', c) \<Rightarrow> Some (clp', c, []))"
| "clist_op mem (Q_to_b n) clp = map_option (\<lambda>(clp', p). (clp', int (length p), p)) (q_to_b clp n)"
| "clist_op mem (B_to_q p n) clp = map_option (\<lambda>(clp', r). (clp', r, [])) (b_to_q mem p n clp)"
| "clist_op mem (Ndflush n) clp = map_option (\<lambda>clp'. (clp', 0, [])) (ndflush clp n)"

fun queue_run :: "nat \<Rightarrow> bool \<Rightarrow> queue_op list \<Rightarrow> (u8 \<times> bool) list \<Rightarrow> (u8 \<times> bool) list \<times> (int \<times> u8 list) list" where
  "queue_run cap quotes [] q = (q, [])"
| "queue_run cap quotes (opr # oprs) q =
     (let (q1, out) = queue_spec cap quotes opr q; (q', outs) = queue_run cap quotes oprs q1 in (q', out # outs))"

fun clist_run :: "tmem \<Rightarrow> queue_op list \<Rightarrow> clist \<Rightarrow> (clist \<times> (int \<times> u8 list) list) option" where
  "clist_run mem [] clp = Some (clp, [])"
| "clist_run mem (opr # oprs) clp =
     (case clist_op mem opr clp of
        None \<Rightarrow> None
      | Some (clp1, out) \<Rightarrow> map_option (\<lambda>(clp', outs). (clp', out # outs)) (clist_run mem oprs clp1))"

text \<open>The caller of \<open>b_to_q\<close> has as many bytes as it says.\<close>

fun op_ok :: "queue_op \<Rightarrow> bool" where
  "op_ok (B_to_q p n) = (nat n \<le> length p)"
| "op_ok opr = True"



lemma getc_shape: "shape (fst (getc clp)) = shape clp"
  by (simp add: getc_def Let_def) (simp add: shape_def clist_quotes_def)

lemma unputc_shape: "shape (fst (unputc clp)) = shape clp"
  by (simp add: unputc_def Let_def) (simp add: shape_def clist_quotes_def)

text \<open>One operation refines its specification.\<close>

lemma clist_op_refines:
  assumes "clist_ok clp" "op_ok opr"
  shows "\<exists>clp' out. clist_op mem opr clp = Some (clp', out) \<and> clist_ok clp' \<and> shape clp' = shape clp \<and>
    queue_spec (c_cn clp) (clist_quotes clp) opr (chars clp) = (chars clp', out)"
proof (cases opr)
  case Getc
  obtain clp' c where g: "getc clp = (clp', c)" by (cases "getc clp")
  with getc_spec [OF assms(1)] getc_shape [of clp] show ?thesis
    by (cases "chars clp") (auto simp: Getc assms(1))
next
  case (Putc c)
  obtain clp' r where p: "putc mem c clp = (clp', r)" by (cases "putc mem c clp")
  have "c_cc clp \<le> c_cn clp" using assms(1) by (simp add: clist_ok_def clist_basic_def)
  with putc_spec [OF assms(1), of mem c] p show ?thesis
    by (cases "c_cc clp = c_cn clp") (simp_all add: Putc shape_def clist_quotes_def assms(1) del: not_None_eq)
next
  case Unputc
  obtain clp' c where g: "unputc clp = (clp', c)" by (cases "unputc clp")
  with unputc_spec [OF assms(1)] unputc_shape [of clp] show ?thesis by (simp add: Unputc split: if_splits)
next
  case (Q_to_b n)
  from q_to_b_result [OF assms(1), of n] show ?thesis by (auto simp: Q_to_b)
next
  case (B_to_q p n)
  have "nat n \<le> length p" using assms(2) B_to_q by simp
  from b_to_q_result [OF assms(1) this, of mem] show ?thesis by (auto simp: B_to_q Let_def)
next
  case (Ndflush n)
  from ndflush_result [OF assms(1), of n] show ?thesis by (auto simp: Ndflush)
qed

lemma clist_run_refines:
  "clist_ok clp \<Longrightarrow> \<forall>opr \<in> set oprs. op_ok opr \<Longrightarrow>
    \<exists>clp' outs. clist_run mem oprs clp = Some (clp', outs) \<and> clist_ok clp' \<and>
      queue_run (c_cn clp) (clist_quotes clp) oprs (chars clp) = (chars clp', outs)"
proof (induction oprs arbitrary: clp)
  case (Cons opr oprs)
  obtain clp1 out where o: "clist_op mem opr clp = Some (clp1, out)" "clist_ok clp1" "shape clp1 = shape clp"
    "queue_spec (c_cn clp) (clist_quotes clp) opr (chars clp) = (chars clp1, out)"
    using clist_op_refines [OF Cons.prems(1), of opr mem] Cons.prems(2) by auto
  obtain clp' outs where "clist_run mem oprs clp1 = Some (clp', outs)" "clist_ok clp'"
    "queue_run (c_cn clp1) (clist_quotes clp1) oprs (chars clp1) = (chars clp', outs)"
    using Cons.IH [OF o(2)] Cons.prems(2) by auto
  then show ?case using o by (simp add: shape_def)
qed simp

text \<open>
  C8: The ring buffers are queues. From a queue that \<open>clalloc\<close> has set up, any sequence of
  \<open>getc\<close>, \<open>putc\<close>, \<open>unputc\<close>, \<open>q_to_b\<close>, \<open>b_to_q\<close> and \<open>ndflush\<close> returns, and gives the results and
  the bytes that the same operations give on a list of characters of the same capacity; the
  ring then holds that list.
\<close>

theorem clist_refines:
  assumes "0 < n" "length q = QMEM n" "\<forall>opr \<in> set oprs. op_ok opr"
  shows "\<exists>clp' outs. clist_run mem oprs (fst (clalloc (True, Some q) n quot clp)) = Some (clp', outs) \<and> clist_ok clp' \<and>
    queue_run n quot oprs [] = (chars clp', outs)"
proof -
  let ?clp = "fst (clalloc (True, Some q) n quot clp)"
  have ok: "clist_ok ?clp" "c_cn ?clp = n" "clist_quotes ?clp = quot" "c_cc ?clp = 0"
    using assms(1,2) by (auto simp: clalloc_def Let_def clist_ok_def clist_basic_def clist_quotes_def)
  from clist_run_refines [OF ok(1) assms(3), of mem] ok chars_empty [OF ok(4)] show ?thesis by simp
qed

lemma clist_refines_witness:
  "\<exists>clp' outs. clist_run (True, None) [Putc 300, B_to_q [1, 2, 3] 3, Getc, Q_to_b 2]
      (fst (clalloc (True, Some [7]) 3 True \<lparr>c_cc = 0, c_cn = 0, c_cf = None, c_cl = None, c_cs = None, c_ce = 0, c_cq = None\<rparr>)) =
      Some (clp', outs) \<and> outs = [(0, []), (1, []), (300, []), (2, [1, 2])]"
proof -
  have "snd (queue_run 3 True [Putc 300, B_to_q [1, 2, 3] 3, Getc, Q_to_b 2] []) = [(0, []), (1, []), (300, []), (2, [1, 2])]"
    by code_simp
  with clist_refines [of 3 "[7]" "[Putc 300, B_to_q [1, 2, 3] 3, Getc, Q_to_b 2]" "(True, None)" True] show ?thesis
    by (fastforce simp: QMEM_def NBBY_def)
qed

text \<open>
  \<open>catq\<close> returns with the source empty, and the target holds its characters followed by
  those of the source, as far as they fit; what does not fit is lost, and so are the quote
  bits when the target has none.
\<close>

theorem catq_spec:
  assumes "clist_ok from" "clist_ok to"
  shows "\<exists>from' to'. catq mem from to = Some (from', to') \<and> clist_ok from' \<and> clist_ok to' \<and> chars from' = [] \<and>
    chars to' = take (c_cn to) (chars to @ map (\<lambda>x. (fst x, snd x \<and> clist_quotes to)) (chars from))"
  using clist_queue.cat_all [OF assms, of mem] by (simp add: catq_def)

text \<open>
  Walking over a queue with \<open>firstc\<close> and \<open>nextc\<close>, as \<open>ttyretype\<close> does, meets its characters in
  order, each once, and stops.
\<close>

theorem nextc_all_chars:
  assumes "clist_ok clp" "c_cc clp \<le> n"
  shows "nextc_loop clp n (firstc clp) = map char_of (chars clp)"
  using assms by (rule nextc_loop_all)

text \<open>
  Without a flag \<open>ndqb\<close> counts characters at the front of the queue that lie in one piece of
  the buffer, at least one unless the queue is empty: output of that many bytes from \<open>c_cf\<close>
  stays inside the buffer and sends what is queued.
\<close>

theorem ndqb_contiguous:
  assumes "clist_ok clp"
  shows "ndqb clp 0 \<le> c_cc clp \<and> (c_cc clp \<noteq> 0 \<longrightarrow> 0 < ndqb clp 0) \<and>
    map fst (take (ndqb clp 0) (chars clp)) = take (ndqb clp 0) (drop (the (c_cf clp)) (the (c_cs clp)))"
  using assms by (rule ndqb_piece)

text \<open>A ring of four characters that wraps around: the third cell is the first character.\<close>

definition small_ring :: clist where
  "small_ring = \<lparr>c_cc = 3, c_cn = 4, c_cf = Some 2, c_cl = Some 1, c_cs = Some [10, 20, 30, 40], c_ce = 4, c_cq = Some [8]\<rparr>"

lemma small_ring_ok: "clist_ok small_ring"
proof -
  have r: "ring small_ring 2" by (simp add: ring_def clist_basic_def small_ring_def QMEM_def NBBY_def)
  moreover have "c_cc small_ring \<noteq> 0" by (simp add: small_ring_def)
  ultimately show ?thesis unfolding clist_ok_def using ringD(7) [OF r] by auto
qed

lemma catq_spec_witness: "\<exists>from' to'. catq (True, None) small_ring small_ring = Some (from', to') \<and> chars from' = []"
  using catq_spec [OF small_ring_ok small_ring_ok, of "(True, None)"] by blast

lemma nextc_all_chars_witness: "nextc_loop small_ring 3 (firstc small_ring) = [30, 296, 10]"
proof -
  have "map char_of (chars small_ring) = [30, 296, 10]" by code_simp
  with nextc_all_chars [OF small_ring_ok, of 3] show ?thesis by (simp add: small_ring_def)
qed

lemma ndqb_contiguous_witness: "map fst (take (ndqb small_ring 0) (chars small_ring)) = [30, 40]"
proof -
  have "take (ndqb small_ring 0) (drop (the (c_cf small_ring)) (the (c_cs small_ring))) = [30, 40]" by code_simp
  with ndqb_contiguous [OF small_ring_ok] show ?thesis by simp
qed

text \<open>
  With \<open>TTY_QUOTE\<close> in the flag, \<open>ndqb\<close> tests the quote bit of the character after the one it
  looks at: here the first character is not quoted and the second is, but none is counted.
\<close>

theorem ndqb_quote_off_by_one:
  "clist_ok small_ring \<and> map snd (chars small_ring) = [False, True, False] \<and> ndqb small_ring TTY_QUOTE = 0"
proof -
  have "map snd (chars small_ring) = [False, True, False]" "ndqb small_ring TTY_QUOTE = 0" by code_simp+
  then show ?thesis using small_ring_ok by simp
qed

end
