(* ===== verification/Mbuf.thy ===== *)
theory Mbuf
  imports Machine
begin

text \<open>
  Network buffers, \<^verbatim>\<open>sys/kern/uipc_mbuf.c\<close> and the macros of \<^verbatim>\<open>sys/sys/mbuf.h\<close>: chains of
  \<open>mbuf\<close> structures that hold bytes themselves or refer to an external buffer, which several
  mbufs can share. A chain is the list of its mbufs, with their data pointers as offsets into
  the internal data area or the external buffer; the null chain is the empty list. External
  buffers have names, with their contents and their number of references (the length of
  the ring \<open>ext_nextref\<close>) in the state.

  The sizes are those of the ILP32 ports with \<open>MSIZE\<close> 128. Memory comes from the environment:
  each \<open>MGET\<close> takes the next answer of \<open>ms_get\<close>, a failure or what is in the memory of the fresh
  mbuf (its \<open>m_len\<close>, which \<open>MGET\<close> does not set, and its data area), and \<open>MCLGET\<close> the next free
  cluster of \<open>mclfree\<close>. The statistics \<open>mbstat\<close> are left out. An
  operation has the value \<open>None\<close> when it panics or follows a null pointer.
\<close>

subsection \<open>Data\<close>

definition MLEN :: nat where "MLEN = 108"
definition MHLEN :: nat where "MHLEN = 100"
definition MINCLSIZE :: nat where "MINCLSIZE = MHLEN + MLEN + 1"
definition MCLBYTES :: nat where "MCLBYTES = 2048"
definition M_COPYALL :: int where "M_COPYALL = 1000000000"

definition M_EXT :: u16 where "M_EXT = 0x0001"
definition M_PKTHDR :: u16 where "M_PKTHDR = 0x0002"
definition M_CLUSTER :: u16 where "M_CLUSTER = 0x0008"
definition M_COPYFLAGS :: u16 where "M_COPYFLAGS = 0x7306"

record pkthdr =
  rcvif :: nat
  ph_len :: int

record mbuf =
  m_data :: nat
  m_len :: nat
  m_type :: nat
  m_flags :: u16
  m_pkthdr :: pkthdr
  m_ext :: nat
  m_dat :: "u8 list"

record mstate =
  ms_get :: "(nat \<times> u8 list) option list"
  ms_bufs :: "nat \<Rightarrow> u8 list"
  ms_refs :: "nat \<Rightarrow> nat"
  mclfree :: "nat list"

definition has_flag :: "mbuf \<Rightarrow> u16 \<Rightarrow> bool" where
  "has_flag m f \<longleftrightarrow> m_flags m AND f \<noteq> 0"

text \<open>The offset of \<open>m_pktdat\<close> in the data area: the packet header is before it.\<close>

definition pktdat :: nat where "pktdat = MLEN - MHLEN"

text \<open>The buffer an mbuf points into, and the bytes it holds.\<close>

definition mbuffer :: "mstate \<Rightarrow> mbuf \<Rightarrow> u8 list" where
  "mbuffer st m = (if has_flag m M_EXT then ms_bufs st (m_ext m) else m_dat m)"

definition mbytes :: "mstate \<Rightarrow> mbuf \<Rightarrow> u8 list" where
  "mbytes st m = take (m_len m) (drop (m_data m) (mbuffer st m))"

subsection \<open>Allocation\<close>

definition MGET :: "nat \<Rightarrow> mstate \<Rightarrow> mstate \<times> mbuf option" where
  "MGET ty st =
     (case ms_get st of
        [] \<Rightarrow> (st, None)
      | a # rest \<Rightarrow>
          (st\<lparr>ms_get := rest\<rparr>,
           map_option (\<lambda>(junk, d). \<lparr>m_data = 0, m_len = junk, m_type = ty, m_flags = 0, m_pkthdr = \<lparr>rcvif = 0, ph_len = 0\<rparr>,
                            m_ext = 0, m_dat = d\<rparr>) a))"

definition MGETHDR :: "nat \<Rightarrow> mstate \<Rightarrow> mstate \<times> mbuf option" where
  "MGETHDR ty st =
     (case MGET ty st of (st1, r) \<Rightarrow> (st1, map_option (\<lambda>m. m\<lparr>m_data := pktdat, m_flags := M_PKTHDR\<rparr>) r))"

definition m_getclr :: "nat \<Rightarrow> mstate \<Rightarrow> mstate \<times> mbuf option" where
  "m_getclr ty st = (case MGET ty st of (st1, r) \<Rightarrow> (st1, map_option (\<lambda>m. m\<lparr>m_dat := replicate MLEN 0\<rparr>) r))"

definition MCLGET :: "mbuf \<Rightarrow> mstate \<Rightarrow> mstate \<times> mbuf" where
  "MCLGET m st =
     (case mclfree st of
        [] \<Rightarrow> (st, m)
      | c # rest \<Rightarrow>
          (st\<lparr>mclfree := rest, ms_refs := (ms_refs st)(c := 1)\<rparr>,
           m\<lparr>m_ext := c, m_data := 0, m_flags := m_flags m OR M_EXT OR M_CLUSTER\<rparr>))"

definition MCLADDREFERENCE :: "mbuf \<Rightarrow> mbuf \<Rightarrow> mstate \<Rightarrow> mstate \<times> mbuf" where
  "MCLADDREFERENCE old n st =
     (st\<lparr>ms_refs := (ms_refs st)(m_ext old := ms_refs st (m_ext old) + 1)\<rparr>,
      n\<lparr>m_ext := m_ext old, m_flags := m_flags n OR (m_flags old AND (M_EXT OR M_CLUSTER))\<rparr>)"

text \<open>Freeing an mbuf drops its reference; the last one of a cluster puts it on the free list.\<close>

definition m_free :: "mbuf \<Rightarrow> mstate \<Rightarrow> mstate" where
  "m_free m st =
     (if has_flag m M_EXT then
        let c = m_ext m; st1 = st\<lparr>ms_refs := (ms_refs st)(c := ms_refs st c - 1)\<rparr>
        in if ms_refs st c > 1 then st1
           else if has_flag m M_CLUSTER then st1\<lparr>mclfree := c # mclfree st\<rparr> else st1
      else st)"

fun m_freem :: "mbuf list \<Rightarrow> mstate \<Rightarrow> mstate" where
  "m_freem [] st = st"
| "m_freem (m # ms) st = m_freem ms (m_free m st)"

definition M_COPY_PKTHDR :: "mbuf \<Rightarrow> mbuf \<Rightarrow> mbuf" where
  "M_COPY_PKTHDR n m = n\<lparr>m_pkthdr := m_pkthdr m, m_flags := m_flags m AND M_COPYFLAGS, m_data := pktdat\<rparr>"

definition long_align :: "nat \<Rightarrow> nat" where "long_align n = n div 4 * 4"

definition M_ALIGN :: "nat \<Rightarrow> mbuf \<Rightarrow> mbuf" where
  "M_ALIGN n m = m\<lparr>m_data := m_data m + long_align (MLEN - n)\<rparr>"

definition MH_ALIGN :: "nat \<Rightarrow> mbuf \<Rightarrow> mbuf" where
  "MH_ALIGN n m = m\<lparr>m_data := m_data m + long_align (MHLEN - n)\<rparr>"

text \<open>\<open>bcopy\<close> into the internal data area of an mbuf.\<close>

definition put_dat :: "mbuf \<Rightarrow> nat \<Rightarrow> u8 list \<Rightarrow> mbuf" where
  "put_dat m i src = m\<lparr>m_dat := bcopy_to src (m_dat m) i\<rparr>"

definition m_prepend :: "mbuf list \<Rightarrow> nat \<Rightarrow> mstate \<Rightarrow> (mstate \<times> mbuf list) option" where
  "m_prepend ms len st =
     (case ms of
        [] \<Rightarrow> None
      | m # rest \<Rightarrow>
          (case MGET (m_type m) st of
             (st1, None) \<Rightarrow> Some (m_freem ms st1, [])
           | (st1, Some mn) \<Rightarrow>
               let (mn1, m1) = (if has_flag m M_PKTHDR then (M_COPY_PKTHDR mn m, m\<lparr>m_flags := m_flags m AND NOT M_PKTHDR\<rparr>)
                                else (mn, m));
                   mn2 = (if len < MHLEN then MH_ALIGN len mn1 else mn1)
               in Some (st1, mn2\<lparr>m_len := len\<rparr> # m1 # rest)))"

subsection \<open>Copying\<close>

text \<open>The loop that skips \<open>off\<close> bytes; \<open>None\<close> is its panic.\<close>

fun m_skip :: "nat \<Rightarrow> mbuf list \<Rightarrow> (nat \<times> mbuf list) option" where
  "m_skip off [] = (if off = 0 then Some (0, []) else None)"
| "m_skip off (m # ms) =
     (if off = 0 \<or> off < m_len m then Some (off, m # ms) else m_skip (off - m_len m) ms)"

text \<open>
  One mbuf of the copy: \<open>k\<close> bytes of \<open>m\<close> from \<open>off\<close> on, by reference to an external buffer or by
  copying.
\<close>

definition copy_mbuf :: "mbuf \<Rightarrow> nat \<Rightarrow> nat \<Rightarrow> mbuf \<Rightarrow> mstate \<Rightarrow> mstate \<times> mbuf" where
  "copy_mbuf m off k n st =
     (if has_flag m M_EXT then MCLADDREFERENCE m (n\<lparr>m_len := k, m_data := m_data m + off\<rparr>) st
      else (st, put_dat (n\<lparr>m_len := k\<rparr>) (m_data n) (take k (drop (m_data m + off) (m_dat m)))))"

text \<open>The copy so far, and whether there was memory for all of it.\<close>

fun m_copym_loop :: "mbuf list \<Rightarrow> nat \<Rightarrow> int \<Rightarrow> bool \<Rightarrow> int \<Rightarrow> mstate \<Rightarrow> (mstate \<times> mbuf list \<times> bool) option" where
  "m_copym_loop [] off len copyhdr off0 st =
     (if len > 0 \<and> len \<noteq> M_COPYALL then None else Some (st, [], True))"
| "m_copym_loop (m # ms) off len copyhdr off0 st =
     (if len \<le> 0 then Some (st, [], True)
      else
        (case MGET (m_type m) st of
           (st1, None) \<Rightarrow> Some (st1, [], False)
         | (st1, Some n) \<Rightarrow>
             let n1 = (if copyhdr then
                         let h = M_COPY_PKTHDR n m
                         in h\<lparr>m_pkthdr := (m_pkthdr h)\<lparr>ph_len := (if len = M_COPYALL then ph_len (m_pkthdr h) - off0 else len)\<rparr>\<rparr>
                       else n);
                 k = nat (min len (int (m_len m - off)));
                 (st2, n2) = copy_mbuf m off k n1 st1
             in (case m_copym_loop ms 0 (if len \<noteq> M_COPYALL then len - int k else len) False off0 st2 of
                   None \<Rightarrow> None
                 | Some (st3, ns, ok) \<Rightarrow> Some (st3, n2 # ns, ok))))"

definition m_copym :: "mbuf list \<Rightarrow> int \<Rightarrow> int \<Rightarrow> mstate \<Rightarrow> (mstate \<times> mbuf list) option" where
  "m_copym ms off0 len st =
     (if off0 < 0 \<or> len < 0 \<or> (off0 = 0 \<and> ms = []) then None
      else
        let copyhdr = (off0 = 0 \<and> has_flag (hd ms) M_PKTHDR) in
        (case m_skip (nat off0) ms of
           None \<Rightarrow> None
         | Some (off, ms1) \<Rightarrow>
             (case m_copym_loop ms1 off len copyhdr off0 st of
                None \<Rightarrow> None
              | Some (st1, ns, True) \<Rightarrow> Some (st1, ns)
              | Some (st1, ns, False) \<Rightarrow> Some (m_freem ns st1, []))))"

fun m_copypacket_loop :: "mbuf list \<Rightarrow> mstate \<Rightarrow> mstate \<times> mbuf list \<times> bool" where
  "m_copypacket_loop [] st = (st, [], True)"
| "m_copypacket_loop (m # ms) st =
     (case MGET (m_type m) st of
        (st1, None) \<Rightarrow> (st1, [], False)
      | (st1, Some n) \<Rightarrow>
          let (st2, n1) = copy_mbuf m 0 (m_len m) n st1; (st3, ns, ok) = m_copypacket_loop ms st2
          in (st3, n1 # ns, ok))"

definition m_copypacket :: "mbuf list \<Rightarrow> mstate \<Rightarrow> (mstate \<times> mbuf list) option" where
  "m_copypacket ms st =
     (case ms of
        [] \<Rightarrow> None
      | m # rest \<Rightarrow>
          (case MGET (m_type m) st of
             (st1, None) \<Rightarrow> Some (st1, [])
           | (st1, Some n) \<Rightarrow>
               let (st2, n1) = copy_mbuf m 0 (m_len m) (M_COPY_PKTHDR n m) st1;
                   (st3, ns, ok) = m_copypacket_loop rest st2
               in Some (if ok then (st3, n1 # ns) else (m_freem (n1 # ns) st3, []))))"

fun m_copydata_loop :: "mbuf list \<Rightarrow> nat \<Rightarrow> nat \<Rightarrow> mstate \<Rightarrow> u8 list option" where
  "m_copydata_loop [] off len st = (if len = 0 then Some [] else None)"
| "m_copydata_loop (m # ms) off len st =
     (if len = 0 then Some []
      else
        let count = min (m_len m - off) len
        in map_option ((@) (take count (drop (m_data m + off) (mbuffer st m)))) (m_copydata_loop ms 0 (len - count) st))"

definition m_copydata :: "mbuf list \<Rightarrow> int \<Rightarrow> int \<Rightarrow> mstate \<Rightarrow> u8 list option" where
  "m_copydata ms off len st =
     (if off < 0 \<or> len < 0 then None
      else (case m_skip (nat off) ms of None \<Rightarrow> None | Some (off', ms1) \<Rightarrow> m_copydata_loop ms1 off' (nat len) st))"

subsection \<open>Joining and trimming\<close>

fun m_cat_loop :: "mbuf \<Rightarrow> mbuf list \<Rightarrow> mstate \<Rightarrow> mstate \<times> mbuf list" where
  "m_cat_loop m [] st = (st, [m])"
| "m_cat_loop m (n # ns) st =
     (if has_flag m M_EXT \<or> m_data m + m_len m + m_len n \<ge> MLEN then (st, m # n # ns)
      else
        m_cat_loop ((put_dat m (m_data m + m_len m) (mbytes st n))\<lparr>m_len := m_len m + m_len n\<rparr>) ns (m_free n st))"

definition m_cat :: "mbuf list \<Rightarrow> mbuf list \<Rightarrow> mstate \<Rightarrow> (mstate \<times> mbuf list) option" where
  "m_cat ms ns st =
     (if ms = [] then None
      else case m_cat_loop (last ms) ns st of (st', tail) \<Rightarrow> Some (st', butlast ms @ tail))"

definition sub_pktlen :: "int \<Rightarrow> mbuf list \<Rightarrow> mbuf list" where
  "sub_pktlen n ms =
     (case ms of
        [] \<Rightarrow> []
      | m # rest \<Rightarrow>
          (if has_flag m M_PKTHDR then m\<lparr>m_pkthdr := (m_pkthdr m)\<lparr>ph_len := ph_len (m_pkthdr m) - n\<rparr>\<rparr> else m) # rest)"

text \<open>Trimming from the head; also what is left of \<open>len\<close>.\<close>

fun adj_head :: "nat \<Rightarrow> mbuf list \<Rightarrow> mbuf list \<times> nat" where
  "adj_head len [] = ([], len)"
| "adj_head len (m # ms) =
     (if len = 0 then (m # ms, 0)
      else if m_len m \<le> len then (case adj_head (len - m_len m) ms of (ms', l) \<Rightarrow> (m\<lparr>m_len := 0\<rparr> # ms', l))
      else (m\<lparr>m_data := m_data m + len, m_len := m_len m - len\<rparr> # ms, 0))"

text \<open>Keeping the first \<open>count\<close> bytes.\<close>

fun adj_keep :: "nat \<Rightarrow> mbuf list \<Rightarrow> mbuf list" where
  "adj_keep count [] = []"
| "adj_keep count (m # ms) =
     (if m_len m \<ge> count then m\<lparr>m_len := count\<rparr> # map (\<lambda>m. m\<lparr>m_len := 0\<rparr>) ms
      else m # adj_keep (count - m_len m) ms)"

definition m_adj :: "mbuf list \<Rightarrow> int \<Rightarrow> mbuf list" where
  "m_adj mp req_len =
     (if mp = [] then []
      else if req_len \<ge> 0 then
        (case adj_head (nat req_len) mp of (mp', l) \<Rightarrow> sub_pktlen (req_len - int l) mp')
      else
        let len = nat (- req_len); m = last mp in
        if m_len m \<ge> len then sub_pktlen (int len) (butlast mp @ [m\<lparr>m_len := m_len m - len\<rparr>])
        else
          let count = sum_list (map m_len mp) - len;
              mp1 = (if has_flag (hd mp) M_PKTHDR
                     then (hd mp)\<lparr>m_pkthdr := (m_pkthdr (hd mp))\<lparr>ph_len := int count\<rparr>\<rparr> # tl mp else mp)
          in adj_keep count mp1)"

subsection \<open>Pulling up and splitting\<close>

text \<open>The body of the loop of \<open>m_pullup\<close>, and the test at its end.\<close>

definition pullup_step ::
  "nat \<Rightarrow> mbuf \<times> mbuf list \<times> int \<times> nat \<times> mstate \<Rightarrow> mbuf \<times> mbuf list \<times> int \<times> nat \<times> mstate + mbuf \<times> mbuf list \<times> int \<times> mstate" where
  "pullup_step max_protohdr = (\<lambda>(m, ns, len, space, st).
     case ns of
       [] \<Rightarrow> Inr (m, [], len, st)
     | n # rest \<Rightarrow>
         let count = nat (min (min (max len (int max_protohdr)) (int space)) (int (m_len n)));
             m' = (put_dat m (m_data m + m_len m) (take count (mbytes st n)))\<lparr>m_len := m_len m + count\<rparr>;
             len' = len - int count;
             (ns', st') = (if m_len n - count \<noteq> 0
                           then (n\<lparr>m_data := m_data n + count, m_len := m_len n - count\<rparr> # rest, st)
                           else (rest, m_free n st))
         in if len' > 0 \<and> ns' \<noteq> [] then Inl (m', ns', len', space - count, st') else Inr (m', ns', len', st'))"

definition m_pullup :: "nat \<Rightarrow> mbuf list \<Rightarrow> int \<Rightarrow> mstate \<Rightarrow> (mstate \<times> mbuf list) option" where
  "m_pullup max_protohdr ms len st =
     (let pull = (\<lambda>m ns len st.
            case iterate (pullup_step max_protohdr) (m, ns, len, MLEN - (m_data m + m_len m), st) of
              None \<Rightarrow> None
            | Some (m', ns', len', st') \<Rightarrow>
                Some (if len' > 0 then (m_freem ns' (m_free m' st'), []) else (st', m' # ns')))
      in case ms of
           [] \<Rightarrow> None
         | n # rest \<Rightarrow>
             if \<not> has_flag n M_EXT \<and> int (m_data n) + len < int MLEN \<and> rest \<noteq> [] then
               (if int (m_len n) \<ge> len then Some (st, ms) else pull n rest (len - int (m_len n)) st)
             else if len > int MHLEN then Some (m_freem ms st, [])
             else
               (case MGET (m_type n) st of
                  (st1, None) \<Rightarrow> Some (m_freem ms st1, [])
                | (st1, Some m) \<Rightarrow>
                    if has_flag n M_PKTHDR
                    then pull (M_COPY_PKTHDR (m\<lparr>m_len := 0\<rparr>) n) (n\<lparr>m_flags := m_flags n AND NOT M_PKTHDR\<rparr> # rest) len st1
                    else pull (m\<lparr>m_len := 0\<rparr>) ms len st1))"

text \<open>The mbufs before the one that holds byte \<open>len\<close>, that one, those after it, and the offset in it.\<close>

fun split_find :: "nat \<Rightarrow> mbuf list \<Rightarrow> (mbuf list \<times> mbuf \<times> mbuf list \<times> nat) option" where
  "split_find len [] = None"
| "split_find len (m # ms) =
     (if len > m_len m
      then map_option (\<lambda>(pre, r). (m # pre, r)) (split_find (len - m_len m) ms)
      else Some ([], m, ms, len))"

definition set_pktlen :: "int \<Rightarrow> mbuf \<Rightarrow> mbuf" where
  "set_pktlen n m = m\<lparr>m_pkthdr := (m_pkthdr m)\<lparr>ph_len := n\<rparr>\<rparr>"

text \<open>From the label \<open>extpacket\<close> on: \<open>n\<close> gets the last \<open>remain\<close> bytes of \<open>m\<close>.\<close>

definition split_mbuf :: "mbuf \<Rightarrow> nat \<Rightarrow> mbuf \<Rightarrow> mstate \<Rightarrow> mstate \<times> mbuf \<times> mbuf" where
  "split_mbuf m len n st =
     (let remain = m_len m - len;
          (st1, n1) = (if has_flag m M_EXT
                       then (case MCLADDREFERENCE m n st of (st1, n1) \<Rightarrow> (st1, n1\<lparr>m_data := m_data m + len\<rparr>))
                       else (st, put_dat n (m_data n) (take remain (drop (m_data m + len) (m_dat m)))))
      in (st1, m\<lparr>m_len := len\<rparr>, n1\<lparr>m_len := remain\<rparr>))"

text \<open>The value: the chain that keeps the first \<open>len0\<close> bytes, and the one returned.\<close>

function m_split :: "mbuf list \<Rightarrow> int \<Rightarrow> mstate \<Rightarrow> mstate \<times> mbuf list \<times> mbuf list" where
  "m_split ms len0 st =
     (case split_find (unat (word_of_int len0 :: u32)) ms of
        None \<Rightarrow> (st, ms, [])
      | Some (pre, m, rest, len) \<Rightarrow>
          if has_flag (hd ms) M_PKTHDR then
            (case MGETHDR (m_type (hd ms)) st of
               (st1, None) \<Rightarrow> (st1, ms, [])
             | (st1, Some n0) \<Rightarrow>
                 let n = n0\<lparr>m_pkthdr := \<lparr>rcvif = rcvif (m_pkthdr (hd ms)), ph_len = ph_len (m_pkthdr (hd ms)) - len0\<rparr>\<rparr>
                 in if \<not> has_flag m M_EXT \<and> m_len m - len > MHLEN then
                      (case m_split (if pre = [] then set_pktlen len0 m # rest else m # rest) (int len) st1 of
                         (st2, ms2, []) \<Rightarrow> (m_free n st2, ms, [])
                       | (st2, ms2, t # ts) \<Rightarrow>
                           (st2, (case pre of [] \<Rightarrow> ms2 | p # ps \<Rightarrow> set_pktlen len0 p # ps @ ms2), MH_ALIGN 0 n # t # ts))
                    else
                      (case split_mbuf m len (if has_flag m M_EXT then n else MH_ALIGN (m_len m - len) n) st1 of
                         (st2, m', n') \<Rightarrow>
                           (st2, (case pre of [] \<Rightarrow> [set_pktlen len0 m'] | p # ps \<Rightarrow> set_pktlen len0 p # ps @ [m']), n' # rest)))
          else if m_len m - len = 0 then (st, pre @ [m], rest)
          else
            (case MGET (m_type m) st of
               (st1, None) \<Rightarrow> (st1, ms, [])
             | (st1, Some n) \<Rightarrow>
                 (case split_mbuf m len (M_ALIGN (m_len m - len) n) st1 of
                    (st2, m', n') \<Rightarrow> (st2, pre @ [m'], n' # rest))))"
  by pat_completeness auto
termination
  by (relation "measure (\<lambda>(ms, len0, st). length (ms_get st))")
    (auto simp: MGETHDR_def MGET_def split: list.splits prod.splits)

declare m_split.simps [simp del]

subsection \<open>From and to flat buffers\<close>

text \<open>
  The loop of \<open>m_devget\<close>: the chain so far, the current mbuf while the chain is empty, the offset
  \<open>cp\<close> in the buffer of the device and the number of bytes to go; \<open>epkt\<close> is where the packet ends.
\<close>

definition devget_step ::
  "nat \<Rightarrow> u8 list \<Rightarrow> int \<Rightarrow> mbuf list \<times> mbuf \<times> int \<times> int \<times> mstate \<Rightarrow>
     mbuf list \<times> mbuf \<times> int \<times> int \<times> mstate + mstate \<times> mbuf list" where
  "devget_step max_linkhdr buf epkt = (\<lambda>(top, m0, cp, totlen, st).
     if totlen \<le> 0 then Inr (st, top)
     else
       (case (if top = [] then (st, Some m0)
              else case MGET 1 st of (st1, r) \<Rightarrow> (st1, map_option (\<lambda>m. m\<lparr>m_len := MLEN\<rparr>) r)) of
          (st1, None) \<Rightarrow> Inr (m_freem top st1, [])
        | (st1, Some m) \<Rightarrow>
            let len0 = min totlen (epkt - cp);
                (st2, m1, len) =
                  (if len0 \<ge> int MINCLSIZE then
                     (case MCLGET m st1 of (st2, m1) \<Rightarrow>
                        let len = min len0 (int MCLBYTES) in (st2, m1\<lparr>m_len := nat len\<rparr>, len))
                   else if len0 < int (m_len m) then
                     (st1, (if top = [] \<and> len0 + int max_linkhdr \<le> int (m_len m)
                            then m\<lparr>m_data := m_data m + max_linkhdr\<rparr> else m)\<lparr>m_len := nat len0\<rparr>, len0)
                   else (st1, m, int (m_len m)))
            in if len0 \<ge> int MINCLSIZE \<and> \<not> has_flag m1 M_EXT then Inr (m_freem top (m_free m1 st2), [])
               else
                 let src = take (nat len) (drop (nat cp) buf);
                     (st3, m2) = (if has_flag m1 M_EXT
                                  then (st2\<lparr>ms_bufs := (ms_bufs st2)(m_ext m1 := bcopy_to src (ms_bufs st2 (m_ext m1)) (m_data m1))\<rparr>, m1)
                                  else (st2, put_dat m1 (m_data m1) src));
                     cp' = cp + len
                 in Inl (top @ [m2], m0, if cp' = epkt then 0 else cp', totlen - len, st3)))"

definition m_devget :: "nat \<Rightarrow> u8 list \<Rightarrow> int \<Rightarrow> int \<Rightarrow> nat \<Rightarrow> mstate \<Rightarrow> (mstate \<times> mbuf list) option" where
  "m_devget max_linkhdr buf totlen0 off ifp st =
     (let (cp, totlen) = (if off \<noteq> 0 then (off + 4, totlen0 - 4) else (0, totlen0)) in
      case MGETHDR 1 st of
        (st1, None) \<Rightarrow> Some (st1, [])
      | (st1, Some m) \<Rightarrow>
          iterate (devget_step max_linkhdr buf totlen0)
            ([], m\<lparr>m_pkthdr := \<lparr>rcvif = ifp, ph_len = totlen\<rparr>, m_len := MHLEN\<rparr>, cp, totlen, st1))"

text \<open>Writing bytes into the buffer an mbuf points into.\<close>

definition put_bytes :: "mbuf \<Rightarrow> nat \<Rightarrow> u8 list \<Rightarrow> mstate \<Rightarrow> mstate \<times> mbuf" where
  "put_bytes m i src st =
     (if has_flag m M_EXT
      then (st\<lparr>ms_bufs := (ms_bufs st)(m_ext m := bcopy_to src (ms_bufs st (m_ext m)) i)\<rparr>, m)
      else (st, put_dat m i src))"

text \<open>
  The first loop of \<open>m_copyback\<close>: the mbufs it passes, and the one that holds byte \<open>off\<close> with those
  after it, or \<open>None\<close> when there is no memory to extend the chain.
\<close>

function copyback_seek ::
  "mbuf \<Rightarrow> mbuf list \<Rightarrow> nat \<Rightarrow> nat \<Rightarrow> mstate \<Rightarrow> mstate \<times> mbuf list \<times> (mbuf \<times> mbuf list \<times> nat) option" where
  "copyback_seek m rest off len st =
     (if off > m_len m then
        (case rest of
           r # rs \<Rightarrow> (case copyback_seek r rs (off - m_len m) len st of (st', pre, x) \<Rightarrow> (st', m # pre, x))
         | [] \<Rightarrow>
             (case m_getclr (m_type m) st of
                (st1, None) \<Rightarrow> (st1, [m], None)
              | (st1, Some n) \<Rightarrow>
                  (case copyback_seek (n\<lparr>m_len := min MLEN (len + (off - m_len m))\<rparr>) [] (off - m_len m) len st1 of
                     (st', pre, x) \<Rightarrow> (st', m # pre, x))))
      else (st, [], Some (m, rest, off)))"
  by pat_completeness auto
termination
  by (relation "measure (\<lambda>(m, rest, off, len, st). length rest + length (ms_get st))")
    (auto simp: m_getclr_def MGET_def split: list.splits prod.splits)

declare copyback_seek.simps [simp del]

text \<open>The second loop: the chain from \<open>m\<close> on, and the number of bytes it covers.\<close>

function copyback_loop ::
  "mbuf \<Rightarrow> mbuf list \<Rightarrow> nat \<Rightarrow> u8 list \<Rightarrow> mstate \<Rightarrow> mstate \<times> mbuf list \<times> nat" where
  "copyback_loop m rest off cp st =
     (if cp = [] then (st, m # rest, 0)
      else
        let mlen = min (m_len m - off) (length cp);
            (st1, m1) = put_bytes m (m_data m + off) (take mlen cp) st;
            cp' = drop mlen cp
        in if cp' = [] then (st1, m1 # rest, mlen + off)
           else
             (case rest of
                r # rs \<Rightarrow>
                  (case copyback_loop r rs 0 cp' st1 of (st', ms', t) \<Rightarrow> (st', m1 # ms', mlen + off + t))
              | [] \<Rightarrow>
                  (case MGET (m_type m) st1 of
                     (st2, None) \<Rightarrow> (st2, [m1], mlen + off)
                   | (st2, Some n) \<Rightarrow>
                       (case copyback_loop (n\<lparr>m_len := min MLEN (length cp')\<rparr>) [] 0 cp' st2 of
                          (st', ms', t) \<Rightarrow> (st', m1 # ms', mlen + off + t)))))"
  by pat_completeness auto
termination
  by (relation "measure (\<lambda>(m, rest, off, cp, st). length rest + length (ms_get st))")
    (auto simp: put_bytes_def MGET_def split: list.splits prod.splits if_splits)

declare copyback_loop.simps [simp del]

definition raise_pktlen :: "nat \<Rightarrow> mbuf list \<Rightarrow> mbuf list" where
  "raise_pktlen totlen ms =
     (case ms of
        [] \<Rightarrow> []
      | m # rest \<Rightarrow>
          (if has_flag m M_PKTHDR \<and> ph_len (m_pkthdr m) < int totlen then set_pktlen (int totlen) m else m) # rest)"

definition m_copyback :: "mbuf list \<Rightarrow> nat \<Rightarrow> u8 list \<Rightarrow> mstate \<Rightarrow> mstate \<times> mbuf list" where
  "m_copyback ms off cp st =
     (case ms of
        [] \<Rightarrow> (st, [])
      | m # rest \<Rightarrow>
          (case copyback_seek m rest off (length cp) st of
             (st1, pre, None) \<Rightarrow> (st1, raise_pktlen (sum_list (map m_len pre)) pre)
           | (st1, pre, Some (m1, rest1, off1)) \<Rightarrow>
               (case copyback_loop m1 rest1 off1 cp st1 of
                  (st2, ms2, t) \<Rightarrow> (st2, raise_pktlen (sum_list (map m_len pre) + t) (pre @ ms2)))))"

end
