(* ===== verification/Mbuf_Chain.thy ===== *)
theory Mbuf_Chain
  imports Mbuf
begin

text \<open>
  Network buffers are correct: a chain is the string of its bytes (\<open>cbytes\<close>), and the routines do
  to that string what their names say, whatever the layout of the chain; buffers that are
  shared are counted, and a routine that runs out of memory gives back what it took.
\<close>

subsection \<open>Well-formed chains\<close>

definition cbytes :: "mstate \<Rightarrow> mbuf list \<Rightarrow> u8 list" where
  "cbytes st ms = concat (map (mbytes st) ms)"

definition wf_mbuf :: "mstate \<Rightarrow> mbuf \<Rightarrow> bool" where
  "wf_mbuf st m \<longleftrightarrow> length (m_dat m) = MLEN \<and>
     (if has_flag m M_EXT then m_data m + m_len m \<le> length (ms_bufs st (m_ext m))
      else m_data m + m_len m \<le> MLEN \<and> (has_flag m M_PKTHDR \<longrightarrow> pktdat \<le> m_data m))"

text \<open>Fresh mbufs have the right size.\<close>

definition get_ok :: "mstate \<Rightarrow> bool" where
  "get_ok st \<longleftrightarrow> (\<forall>j d. Some (j, d) \<in> set (ms_get st) \<longrightarrow> length d = MLEN)"

text \<open>The next \<open>n\<close> allocations succeed.\<close>

definition enough :: "nat \<Rightarrow> mstate \<Rightarrow> bool" where
  "enough n st \<longleftrightarrow> n \<le> length (ms_get st) \<and> None \<notin> set (take n (ms_get st))"

text \<open>The references of a chain to buffer \<open>c\<close>.\<close>

definition erefs :: "mbuf list \<Rightarrow> nat \<Rightarrow> nat" where
  "erefs ms c = length (filter (\<lambda>m. has_flag m M_EXT \<and> m_ext m = c) ms)"

text \<open>Only the first mbuf has a packet header, and all references are counted.\<close>

definition wf_chain :: "mstate \<Rightarrow> mbuf list \<Rightarrow> bool" where
  "wf_chain st ms \<longleftrightarrow> (\<forall>m \<in> set ms. wf_mbuf st m) \<and> (\<forall>m \<in> set (tl ms). \<not> has_flag m M_PKTHDR) \<and>
     (\<forall>c. erefs ms c \<le> ms_refs st c)"

text \<open>The length in the packet header is that of the chain.\<close>

definition pkt_ok :: "mstate \<Rightarrow> mbuf list \<Rightarrow> bool" where
  "pkt_ok st ms \<longleftrightarrow> (ms \<noteq> [] \<and> has_flag (hd ms) M_PKTHDR \<longrightarrow>
     ph_len (m_pkthdr (hd ms)) = int (length (cbytes st ms)))"

lemma erefs_simps [simp]:
  "erefs [] c = 0" "erefs (m # ms) c = (if has_flag m M_EXT \<and> m_ext m = c then 1 else 0) + erefs ms c"
  "erefs (ms @ ns) c = erefs ms c + erefs ns c"
  by (simp_all add: erefs_def)

lemma cbytes_simps [simp]:
  "cbytes st [] = []" "cbytes st (m # ms) = mbytes st m @ cbytes st ms" "cbytes st (ms @ ns) = cbytes st ms @ cbytes st ns"
  by (simp_all add: cbytes_def)

lemma flag_bits:
  "has_flag m M_EXT \<longleftrightarrow> bit (m_flags m) 0" "has_flag m M_PKTHDR \<longleftrightarrow> bit (m_flags m) 1"
  "has_flag m M_CLUSTER \<longleftrightarrow> bit (m_flags m) 3"
proof -
  have "w AND 2 ^ n \<noteq> 0 \<longleftrightarrow> bit w n" if "n < 16" for w :: u16 and n
  proof
    assume "bit w n"
    then have "bit (w AND 2 ^ n) n" using that by (simp add: bit_and_iff bit_exp_iff)
    then show "w AND 2 ^ n \<noteq> 0" by auto
  next
    assume "w AND 2 ^ n \<noteq> 0"
    then obtain k where "bit (w AND 2 ^ n) k" by (auto simp: bit_eq_iff)
    then show "bit w n" by (auto simp: bit_and_iff bit_exp_iff)
  qed
  from this [of 0] this [of 1] this [of 3] show
    "has_flag m M_EXT \<longleftrightarrow> bit (m_flags m) 0" "has_flag m M_PKTHDR \<longleftrightarrow> bit (m_flags m) 1"
    "has_flag m M_CLUSTER \<longleftrightarrow> bit (m_flags m) 3"
    by (simp_all add: has_flag_def M_EXT_def M_PKTHDR_def M_CLUSTER_def)
qed

lemma flag_consts [simp]:
  "bit M_EXT 0" "\<not> bit M_EXT (Suc 0)" "\<not> bit M_CLUSTER 0" "\<not> bit M_CLUSTER (Suc 0)"
  "\<not> bit M_COPYFLAGS 0" "bit M_COPYFLAGS (Suc 0)" "\<not> bit M_PKTHDR 0" "bit M_PKTHDR (Suc 0)"
  by (simp_all add: bit_iff_odd M_EXT_def M_CLUSTER_def M_COPYFLAGS_def M_PKTHDR_def)

lemma flag_cong: "m_flags m' = m_flags m \<Longrightarrow> has_flag m' = has_flag m"
  by (simp add: has_flag_def fun_eq_iff)

lemma flag_updates [simp]:
  "has_flag (m\<lparr>m_len := a\<rparr>) f = has_flag m f" "has_flag (m\<lparr>m_data := a\<rparr>) f = has_flag m f"
  "has_flag (m\<lparr>m_dat := d\<rparr>) f = has_flag m f" "has_flag (m\<lparr>m_pkthdr := h\<rparr>) f = has_flag m f"
  "has_flag (m\<lparr>m_ext := a\<rparr>) f = has_flag m f" "has_flag (m\<lparr>m_type := a\<rparr>) f = has_flag m f"
  by (simp_all add: has_flag_def)

text \<open>How the macros change the flags.\<close>

lemma copy_pkthdr_simps [simp]:
  "has_flag (M_COPY_PKTHDR n m) M_EXT = False" "has_flag (M_COPY_PKTHDR n m) M_PKTHDR = has_flag m M_PKTHDR"
  "m_data (M_COPY_PKTHDR n m) = pktdat" "m_dat (M_COPY_PKTHDR n m) = m_dat n" "m_len (M_COPY_PKTHDR n m) = m_len n"
  "m_pkthdr (M_COPY_PKTHDR n m) = m_pkthdr m"
  unfolding flag_bits by (simp_all add: M_COPY_PKTHDR_def bit_and_iff)

lemma mbytes_cong: "ms_bufs st' = ms_bufs st \<Longrightarrow> mbytes st' = mbytes st"
  by (simp add: mbytes_def mbuffer_def fun_eq_iff)

lemma cbytes_cong: "ms_bufs st' = ms_bufs st \<Longrightarrow> cbytes st' = cbytes st"
  using mbytes_cong [of st' st] by (intro ext) (simp add: cbytes_def)

lemma wf_mbuf_cong: "ms_bufs st' = ms_bufs st \<Longrightarrow> wf_mbuf st' = wf_mbuf st"
  by (simp add: wf_mbuf_def fun_eq_iff)

lemma wf_room: "wf_mbuf st m \<Longrightarrow> m_data m + m_len m \<le> length (mbuffer st m)"
  by (auto simp: wf_mbuf_def mbuffer_def)

lemma length_mbytes: "wf_mbuf st m \<Longrightarrow> length (mbytes st m) = m_len m"
  using wf_room [of st m] by (simp add: mbytes_def)

lemma length_cbytes: "\<forall>m \<in> set ms. wf_mbuf st m \<Longrightarrow> length (cbytes st ms) = sum_list (map m_len ms)"
  by (induction ms) (simp_all add: length_mbytes)

lemma mbytes_slice:
  assumes "off + k \<le> m_len m"
  shows "take k (drop (m_data m + off) (mbuffer st m)) = take k (drop off (mbytes st m))"
proof -
  have "min k (m_len m - off) = k" using assms by simp
  then show ?thesis unfolding mbytes_def drop_take drop_drop take_take by (simp add: add.commute)
qed

subsection \<open>Fresh mbufs\<close>

lemma MGET_Some:
  assumes "MGET ty st = (st1, Some n)" "get_ok st"
  shows "has_flag n M_EXT = False" "has_flag n M_PKTHDR = False" "m_data n = 0" "length (m_dat n) = MLEN" "m_type n = ty"
    "ms_bufs st1 = ms_bufs st" "ms_refs st1 = ms_refs st" "mclfree st1 = mclfree st" "get_ok st1"
proof -
  obtain a rest where a: "ms_get st = a # rest" using assms(1) by (cases "ms_get st") (simp_all add: MGET_def)
  obtain p where "a = Some p" using assms(1) a by (cases a) (simp_all add: MGET_def)
  then obtain j d where jd: "a = Some (j, d)" by (cases p) simp
  have "length d = MLEN" using assms(2) a jd by (auto simp: get_ok_def)
  moreover have "get_ok (st\<lparr>ms_get := rest\<rparr>)" using assms(2) a by (auto simp: get_ok_def)
  moreover have "st1 = st\<lparr>ms_get := rest\<rparr>"
    "n = \<lparr>m_data = 0, m_len = j, m_type = ty, m_flags = 0, m_pkthdr = \<lparr>rcvif = 0, ph_len = 0\<rparr>, m_ext = 0, m_dat = d\<rparr>"
    using assms(1) by (simp_all add: MGET_def a jd)
  ultimately show "has_flag n M_EXT = False" "has_flag n M_PKTHDR = False" "m_data n = 0" "length (m_dat n) = MLEN" "m_type n = ty"
    "ms_bufs st1 = ms_bufs st" "ms_refs st1 = ms_refs st" "mclfree st1 = mclfree st" "get_ok st1"
    by (simp_all add: has_flag_def)
qed

lemma MGET_frame:
  assumes "MGET ty st = (st1, r)"
  shows "ms_bufs st1 = ms_bufs st \<and> ms_refs st1 = ms_refs st \<and> mclfree st1 = mclfree st"
  using assms by (auto simp: MGET_def split: list.splits)

lemma MGET_enough:
  assumes "enough (Suc n) st" "MGET ty st = (st1, r)"
  shows "r \<noteq> None \<and> enough n st1"
proof (cases "ms_get st")
  case (Cons a rest)
  then show ?thesis using assms by (cases a) (auto simp: enough_def MGET_def)
qed (use assms in \<open>simp add: enough_def\<close>)

lemma enough_cong: "ms_get st' = ms_get st \<Longrightarrow> enough n st' = enough n st"
  by (simp add: enough_def)

lemma get_ok_cong: "ms_get st' = ms_get st \<Longrightarrow> get_ok st' = get_ok st"
  by (simp add: get_ok_def)

lemma put_dat_simps [simp]:
  "m_data (put_dat m i src) = m_data m" "m_len (put_dat m i src) = m_len m" "m_flags (put_dat m i src) = m_flags m"
  "m_ext (put_dat m i src) = m_ext m" "m_type (put_dat m i src) = m_type m" "m_pkthdr (put_dat m i src) = m_pkthdr m"
  "m_dat (put_dat m i src) = bcopy_to src (m_dat m) i" "has_flag (put_dat m i src) f = has_flag m f"
  by (simp_all add: put_dat_def has_flag_def)

lemma take_bcopy: "i \<le> length dst \<Longrightarrow> take (length src) (drop i (bcopy_to src dst i)) = src"
  by (simp add: bcopy_to_def)

subsection \<open>Copies\<close>

lemma copy_mbuf_spec:
  assumes "copy_mbuf m off k n st = (st', n')" "wf_mbuf st m" "off + k \<le> m_len m"
    and "\<not> has_flag n M_EXT" "length (m_dat n) = MLEN" "\<not> has_flag m M_EXT \<Longrightarrow> m_data n + k \<le> MLEN"
    and "has_flag n M_PKTHDR \<Longrightarrow> pktdat \<le> m_data n"
  shows "mbytes st' n' = take k (drop off (mbytes st m))" "wf_mbuf st' n'" "m_len n' = k" "ms_bufs st' = ms_bufs st"
    "ms_refs st' c = ms_refs st c + erefs [n'] c" "ms_get st' = ms_get st" "mclfree st' = mclfree st"
    "has_flag n' M_PKTHDR = has_flag n M_PKTHDR" "m_pkthdr n' = m_pkthdr n"
proof -
  have fl: "bit (m_flags n) 0 = False" using assms(4) by (simp add: flag_bits)
  have sl: "take k (drop (m_data m + off) (mbuffer st m)) = take k (drop off (mbytes st m))"
    by (rule mbytes_slice [OF assms(3)])
  have room: "m_data m + m_len m \<le> length (mbuffer st m)" by (rule wf_room [OF assms(2)])
  show "mbytes st' n' = take k (drop off (mbytes st m))"
  proof (cases "has_flag m M_EXT")
    case True
    have b: "bit (m_flags n') 0" "m_ext n' = m_ext m" "m_data n' = m_data m + off" "m_len n' = k" "ms_bufs st' = ms_bufs st"
      using assms(1) True by (auto simp: copy_mbuf_def MCLADDREFERENCE_def flag_bits bit_or_iff bit_and_iff)
    then have "mbuffer st' n' = mbuffer st m" using True by (simp add: mbuffer_def flag_bits)
    then show ?thesis using b sl by (simp add: mbytes_def)
  next
    case False
    have len: "length (take k (drop (m_data m + off) (m_dat m))) = k"
      using room assms(3) False by (simp add: mbuffer_def)
    have e: "n' = put_dat (n\<lparr>m_len := k\<rparr>) (m_data n) (take k (drop (m_data m + off) (m_dat m)))" "st' = st"
      using assms(1) False by (auto simp: copy_mbuf_def)
    have "\<not> has_flag (n\<lparr>m_len := k\<rparr>) M_EXT" using assms(4) by (simp add: has_flag_def)
    then have "mbytes st' n' = take k (drop (m_data n) (bcopy_to (take k (drop (m_data m + off) (m_dat m))) (m_dat n) (m_data n)))"
      by (simp add: mbytes_def mbuffer_def e)
    also have "\<dots> = take k (drop (m_data m + off) (m_dat m))"
      using take_bcopy [of "m_data n" "m_dat n" "take k (drop (m_data m + off) (m_dat m))"] assms(5,6) False len by simp
    finally show ?thesis using sl False by (simp add: mbuffer_def)
  qed
  show "wf_mbuf st' n'"
    using assms room by (auto simp: copy_mbuf_def MCLADDREFERENCE_def wf_mbuf_def flag_bits bit_or_iff bit_and_iff
        mbuffer_def split: if_splits)
  show "m_len n' = k" "ms_bufs st' = ms_bufs st" "ms_get st' = ms_get st" "mclfree st' = mclfree st" "m_pkthdr n' = m_pkthdr n"
    "ms_refs st' c = ms_refs st c + erefs [n'] c" "has_flag n' M_PKTHDR = has_flag n M_PKTHDR"
    using assms(1,4) by (auto simp: copy_mbuf_def MCLADDREFERENCE_def flag_bits bit_or_iff bit_and_iff split: if_splits)
qed

text \<open>Freeing a chain none of whose buffers it holds the last reference to.\<close>

lemma m_freem_shared:
  assumes "\<And>c. erefs ms c < ms_refs st c \<or> erefs ms c = 0"
  shows "m_freem ms st = st\<lparr>ms_refs := \<lambda>c. ms_refs st c - erefs ms c\<rparr>"
  using assms
proof (induction ms arbitrary: st)
  case (Cons m ms)
  have f: "m_free m st = st\<lparr>ms_refs := \<lambda>c. ms_refs st c - erefs [m] c\<rparr>"
    using Cons.prems [of "m_ext m"] by (auto simp: m_free_def Let_def fun_eq_iff)
  have "erefs ms c < ms_refs (m_free m st) c \<or> erefs ms c = 0" for c
    using Cons.prems [of c] by (auto simp: f split: if_splits)
  from Cons.IH [OF this] have "m_freem ms (m_free m st) = (m_free m st)\<lparr>ms_refs := \<lambda>c. ms_refs (m_free m st) c - erefs ms c\<rparr>" .
  then show ?case by (simp add: f fun_eq_iff del: One_nat_def)
qed simp

text \<open>Where the skipping loop stops.\<close>

lemma m_skip_spec:
  assumes "\<forall>m \<in> set ms. wf_mbuf st m"
  shows "if off \<le> length (cbytes st ms)
    then \<exists>off' pre ms1. m_skip off ms = Some (off', ms1) \<and> ms = pre @ ms1 \<and> length (cbytes st pre) + off' = off \<and>
      (ms1 = [] \<longrightarrow> off' = 0) \<and> (ms1 \<noteq> [] \<longrightarrow> off' \<le> m_len (hd ms1)) \<and> (off = 0 \<longrightarrow> pre = [])
    else m_skip off ms = None"
  using assms
proof (induction off ms rule: m_skip.induct)
  case (2 off m ms)
  show ?case
  proof (cases "off = 0 \<or> off < m_len m")
    case True
    then have "m_skip off (m # ms) = Some (off, m # ms)" by simp
    moreover have "off \<le> length (cbytes st (m # ms))" using True 2(2) by (auto simp: length_mbytes)
    ultimately show ?thesis using True by (auto intro!: exI [of _ "[] :: mbuf list"])
  next
    case False
    have len: "length (mbytes st m) = m_len m" using 2(2) by (simp add: length_mbytes)
    show ?thesis
    proof (cases "off \<le> length (cbytes st (m # ms))")
      case True
      then have "off - m_len m \<le> length (cbytes st ms)" using len by simp
      then obtain off' pre ms1 where "m_skip (off - m_len m) ms = Some (off', ms1)" "ms = pre @ ms1"
        "length (cbytes st pre) + off' = off - m_len m" "ms1 = [] \<longrightarrow> off' = 0" "ms1 \<noteq> [] \<longrightarrow> off' \<le> m_len (hd ms1)"
        using 2(1) [OF False] 2(2) by auto
      then show ?thesis using True False len
        by (auto intro!: exI [of _ "m # pre"])
    next
      case nf: False
      then have "\<not> off - m_len m \<le> length (cbytes st ms)" using len False by auto
      then show ?thesis using 2(1) [OF False] 2(2) False nf by simp
    qed
  qed
qed auto

lemma m_copydata_loop_spec:
  assumes "\<forall>m \<in> set ms. wf_mbuf st m" "ms \<noteq> [] \<Longrightarrow> off \<le> m_len (hd ms)" "ms = [] \<Longrightarrow> off = 0"
  shows "m_copydata_loop ms off len st =
    (if off + len \<le> length (cbytes st ms) then Some (take len (drop off (cbytes st ms))) else None)"
  using assms
proof (induction ms off len st rule: m_copydata_loop.induct)
  case (2 m ms off len st)
  have lm: "length (mbytes st m) = m_len m" using 2(2) by (simp add: length_mbytes)
  have off: "off \<le> m_len m" using 2(3) by simp
  show ?case
  proof (cases "len = 0")
    case True
    then show ?thesis using off lm by auto
  next
    case False
    define k where "k = min (m_len m - off) len"
    have rec: "m_copydata_loop ms 0 (len - k) st =
        (if 0 + (len - k) \<le> length (cbytes st ms) then Some (take (len - k) (drop 0 (cbytes st ms))) else None)"
      by (rule 2(1) [OF False k_def]) (use 2(2) in auto)
    have sl: "take k (drop (m_data m + off) (mbuffer st m)) = take k (drop off (mbytes st m))"
      by (rule mbytes_slice) (use off in \<open>simp add: k_def\<close>)
    have "take len (drop off (mbytes st m @ cbytes st ms)) = take k (drop off (mbytes st m)) @ take (len - k) (cbytes st ms)"
      using off lm by (auto simp: min_def k_def)
    moreover have "off + len \<le> length (cbytes st (m # ms)) \<longleftrightarrow> len - k \<le> length (cbytes st ms)"
      using off lm by (auto simp: min_def k_def)
    moreover have "m_copydata_loop (m # ms) off len st =
        map_option ((@) (take k (drop (m_data m + off) (mbuffer st m)))) (m_copydata_loop ms 0 (len - k) st)"
      using False by (simp add: k_def Let_def)
    ultimately show ?thesis by (simp only: rec sl cbytes_simps) simp
  qed
qed auto

lemma m_copydata_result:
  assumes "\<forall>m \<in> set ms. wf_mbuf st m"
  shows "m_copydata ms off len st =
    (if 0 \<le> off \<and> 0 \<le> len \<and> nat off + nat len \<le> length (cbytes st ms)
     then Some (take (nat len) (drop (nat off) (cbytes st ms))) else None)"
proof (cases "0 \<le> off \<and> 0 \<le> len")
  case False then show ?thesis by (auto simp: m_copydata_def)
next
  case nn: True
  show ?thesis
  proof (cases "nat off \<le> length (cbytes st ms)")
    case True
    obtain off' pre ms1 where s: "m_skip (nat off) ms = Some (off', ms1)" "ms = pre @ ms1"
      "length (cbytes st pre) + off' = nat off" "ms1 = [] \<longrightarrow> off' = 0" "ms1 \<noteq> [] \<longrightarrow> off' \<le> m_len (hd ms1)"
      using m_skip_spec [OF assms, of "nat off"] True by auto
    have "m_copydata_loop ms1 off' (nat len) st =
        (if off' + nat len \<le> length (cbytes st ms1) then Some (take (nat len) (drop off' (cbytes st ms1))) else None)"
      by (rule m_copydata_loop_spec) (use s assms in auto)
    moreover have "drop (nat off) (cbytes st ms) = drop off' (cbytes st ms1)"
      unfolding s(2) s(3) [symmetric] by simp
    moreover have "nat off + nat len \<le> length (cbytes st ms) \<longleftrightarrow> off' + nat len \<le> length (cbytes st ms1)"
      unfolding s(2) s(3) [symmetric] by simp
    moreover have "m_copydata ms off len st = m_copydata_loop ms1 off' (nat len) st"
      using nn s(1) by (simp add: m_copydata_def)
    ultimately show ?thesis using nn by (simp only: simp_thms if_True)
  next
    case False
    then show ?thesis using nn m_skip_spec [OF assms, of "nat off"] by (simp add: m_copydata_def)
  qed
qed

subsection \<open>Copying chains\<close>

text \<open>What the loop of \<open>m_copym\<close> has built from \<open>ms\<close>; \<open>B\<close> is what it was to copy.\<close>

definition copied :: "mstate \<Rightarrow> mstate \<Rightarrow> mbuf list \<Rightarrow> bool \<Rightarrow> u8 list \<Rightarrow> bool" where
  "copied st st' ns ok B \<longleftrightarrow> ms_bufs st' = ms_bufs st \<and> mclfree st' = mclfree st \<and> get_ok st' \<and>
     (\<forall>c. ms_refs st' c = ms_refs st c + erefs ns c) \<and> (\<forall>c. erefs ns c = 0 \<or> 0 < ms_refs st c) \<and>
     (\<forall>n \<in> set ns. wf_mbuf st' n) \<and> (\<forall>n \<in> set (tl ns). \<not> has_flag n M_PKTHDR) \<and> (ok \<longrightarrow> cbytes st' ns = B)"

lemma copied_Cons:
  assumes "MGET ty st = (st1, Some n)" "get_ok st" "copy_mbuf m off k n1 st1 = (st2, n2)" "wf_mbuf st m"
    and "0 < ms_refs st (m_ext m) \<or> \<not> has_flag m M_EXT" "off + k \<le> m_len m"
    and "\<not> has_flag n1 M_EXT" "length (m_dat n1) = MLEN" "\<not> has_flag m M_EXT \<Longrightarrow> m_data n1 + k \<le> MLEN"
      "has_flag n1 M_PKTHDR \<Longrightarrow> pktdat \<le> m_data n1"
    and "copied st2 st3 ns ok B" "\<forall>n \<in> set ns. \<not> has_flag n M_PKTHDR"
  shows "copied st st3 (n2 # ns) ok (take k (drop off (mbytes st m)) @ B)"
proof -
  note g = MGET_Some [OF assms(1,2)]
  have w1: "wf_mbuf st1 m" using assms(4) wf_mbuf_cong [OF g(6)] by simp
  note c = copy_mbuf_spec [OF assms(3) w1 assms(6-10)]
  have h: "ms_bufs st3 = ms_bufs st2" "mclfree st3 = mclfree st2" "\<And>c. ms_refs st3 c = ms_refs st2 c + erefs ns c"
    "\<And>c. erefs ns c = 0 \<or> 0 < ms_refs st2 c" "\<forall>n \<in> set ns. wf_mbuf st3 n" "ok \<longrightarrow> cbytes st3 ns = B" "get_ok st3"
    using assms(11) by (auto simp: copied_def)
  have ex: "has_flag n2 M_EXT \<longrightarrow> m_ext n2 = m_ext m \<and> has_flag m M_EXT"
    using assms(3,7) by (auto simp: copy_mbuf_def MCLADDREFERENCE_def split: if_splits)
  have "erefs (n2 # ns) c = 0 \<or> 0 < ms_refs st c" for c
    using h(4) [of c] c(5) [of c] g(7) ex assms(5) by (auto split: if_splits)
  moreover have "wf_mbuf st3 n2" using c(2) wf_mbuf_cong [OF h(1)] by simp
  moreover have "mbytes st3 n2 = take k (drop off (mbytes st m))"
    using c(1) mbytes_cong [OF h(1)] mbytes_cong [OF g(6)] by simp
  ultimately show ?thesis
    using h c(4,7) g(6-8) c(5) assms(12) by (simp add: copied_def)
qed

lemma m_copym_loop_spec:
  assumes "\<forall>m \<in> set ms. wf_mbuf st m \<and> (has_flag m M_EXT \<longrightarrow> 0 < ms_refs st (m_ext m))" "get_ok st" "0 \<le> len"
    and "ms \<noteq> [] \<Longrightarrow> off \<le> m_len (hd ms)" "ms = [] \<Longrightarrow> off = 0"
    and "len = M_COPYALL \<and> int (length (cbytes st ms)) \<le> M_COPYALL \<or>
      len < M_COPYALL \<and> off + nat len \<le> length (cbytes st ms)"
    and "copyhdr \<Longrightarrow> ms \<noteq> [] \<Longrightarrow> has_flag (hd ms) M_PKTHDR"
  shows "\<exists>st' ns ok. m_copym_loop ms off len copyhdr off0 st = Some (st', ns, ok) \<and>
    copied st st' ns ok (if len = M_COPYALL then drop off (cbytes st ms) else take (nat len) (drop off (cbytes st ms))) \<and>
    (enough (length ms) st \<longrightarrow> ok) \<and> (\<not> copyhdr \<longrightarrow> (\<forall>n \<in> set ns. \<not> has_flag n M_PKTHDR)) \<and>
    (ns \<noteq> [] \<longrightarrow> copyhdr \<longrightarrow> has_flag (hd ns) M_PKTHDR = has_flag (hd ms) M_PKTHDR \<and>
       ph_len (m_pkthdr (hd ns)) = (if len = M_COPYALL then ph_len (m_pkthdr (hd ms)) - off0 else len))"
  using assms
proof (induction ms arbitrary: off len copyhdr st)
  case Nil
  then show ?case by (auto simp: copied_def M_COPYALL_def)
next
  case (Cons m ms)
  have wm: "wf_mbuf st m" "has_flag m M_EXT \<longrightarrow> 0 < ms_refs st (m_ext m)" and off: "off \<le> m_len m"
    using Cons.prems(1,4) by auto
  have lm: "length (mbytes st m) = m_len m" using wm by (simp add: length_mbytes)
  show ?case
  proof (cases "len \<le> 0")
    case True
    then have "len = 0" using Cons.prems(3) by simp
    then show ?thesis using Cons.prems(2) by (auto simp: copied_def M_COPYALL_def)
  next
    case pos: False
    obtain st1 r where mg: "MGET (m_type m) st = (st1, r)" by (cases "MGET (m_type m) st")
    show ?thesis
    proof (cases r)
      case None
      have "\<not> enough (Suc (length ms)) st" using MGET_enough [OF _ mg] None by auto
      moreover have "get_ok st1" using Cons.prems(2) mg by (auto simp: MGET_def get_ok_def split: list.splits)
      moreover have "m_copym_loop (m # ms) off len copyhdr off0 st = Some (st1, [], False)" using pos mg None by simp
      ultimately show ?thesis using MGET_frame [OF mg]
        by (intro exI [of _ st1] exI [of _ "[] :: mbuf list"] exI [of _ False]) (simp add: copied_def)
    next
      case (Some n)
      note g = MGET_Some [OF mg [unfolded Some] Cons.prems(2)]
      define n1 where "n1 = (if copyhdr then
          let h = M_COPY_PKTHDR n m
          in h\<lparr>m_pkthdr := (m_pkthdr h)\<lparr>ph_len := (if len = M_COPYALL then ph_len (m_pkthdr h) - off0 else len)\<rparr>\<rparr>
        else n)"
      define k where "k = nat (min len (int (m_len m - off)))"
      have k: "off + k \<le> m_len m" "int k \<le> len" using off pos by (auto simp: k_def)
      have n1: "has_flag n1 M_EXT = False" "has_flag n1 M_PKTHDR = (copyhdr \<and> has_flag m M_PKTHDR)" "length (m_dat n1) = MLEN"
        "m_data n1 = (if copyhdr then pktdat else 0)"
        "copyhdr \<longrightarrow> ph_len (m_pkthdr n1) = (if len = M_COPYALL then ph_len (m_pkthdr m) - off0 else len)"
        using g by (simp_all add: n1_def Let_def)
      obtain st2 n2 where cp: "copy_mbuf m off k n1 st1 = (st2, n2)" by (cases "copy_mbuf m off k n1 st1")
      define len' where "len' = (if len \<noteq> M_COPYALL then len - int k else len)"
      have len': "0 \<le> len'" using k(2) pos by (simp add: len'_def)
      have all: "k = m_len m - off" "len' = M_COPYALL" if "len = M_COPYALL"
        using Cons.prems(6) that lm by (simp_all add: k_def len'_def)
      have some: "len' < M_COPYALL" "nat len' \<le> length (cbytes st ms)"
        "take (nat len) (drop off (mbytes st m @ cbytes st ms)) = take k (drop off (mbytes st m)) @ take (nat len') (cbytes st ms)"
        if "len \<noteq> M_COPYALL"
        using Cons.prems(6) that lm off pos by (auto simp: k_def len'_def min_def nat_diff_distrib)
      have bufs: "ms_bufs st2 = ms_bufs st" "ms_get st2 = ms_get st1" "\<And>c. ms_refs st c \<le> ms_refs st2 c"
        using cp g(6,7) by (auto simp: copy_mbuf_def MCLADDREFERENCE_def split: if_splits)
      have cb: "cbytes st2 = cbytes st" by (rule cbytes_cong [OF bufs(1)])
      have "\<exists>st' ns ok. m_copym_loop ms 0 len' False off0 st2 = Some (st', ns, ok) \<and>
          copied st2 st' ns ok (if len' = M_COPYALL then drop 0 (cbytes st2 ms) else take (nat len') (drop 0 (cbytes st2 ms))) \<and>
          (enough (length ms) st2 \<longrightarrow> ok) \<and> (\<not> False \<longrightarrow> (\<forall>n \<in> set ns. \<not> has_flag n M_PKTHDR)) \<and>
          (ns \<noteq> [] \<longrightarrow> False \<longrightarrow> has_flag (hd ns) M_PKTHDR = has_flag (hd ms) M_PKTHDR \<and>
             ph_len (m_pkthdr (hd ns)) = (if len' = M_COPYALL then ph_len (m_pkthdr (hd ms)) - off0 else len'))"
      proof (rule Cons.IH)
        show "\<forall>x \<in> set ms. wf_mbuf st2 x \<and> (has_flag x M_EXT \<longrightarrow> 0 < ms_refs st2 (m_ext x))"
          using Cons.prems(1) wf_mbuf_cong [OF bufs(1)] order.strict_trans2 [OF _ bufs(3)] by fastforce
        show "get_ok st2" using g(9) get_ok_cong [OF bufs(2)] by simp
        show "len' = M_COPYALL \<and> int (length (cbytes st2 ms)) \<le> M_COPYALL \<or>
            len' < M_COPYALL \<and> 0 + nat len' \<le> length (cbytes st2 ms)"
          using all some Cons.prems(6) unfolding cb by (cases "len = M_COPYALL") auto
      qed (use len' in simp_all)
      then obtain st3 ns ok where r: "m_copym_loop ms 0 len' False off0 st2 = Some (st3, ns, ok)"
        "copied st2 st3 ns ok (if len' = M_COPYALL then cbytes st ms else take (nat len') (cbytes st ms))"
        "enough (length ms) st2 \<longrightarrow> ok" "\<forall>n \<in> set ns. \<not> has_flag n M_PKTHDR"
        unfolding cb drop_0 by blast
      let ?B = "if len' = M_COPYALL then cbytes st ms else take (nat len') (cbytes st ms)"
      have "copied st st3 (n2 # ns) ok (take k (drop off (mbytes st m)) @ ?B)"
      proof (rule copied_Cons [OF mg [unfolded Some] Cons.prems(2) cp wm(1) _ k(1) _ n1(3) _ _ r(2,4)])
        show dat: "m_data n1 + k \<le> MLEN" if "\<not> has_flag m M_EXT"
          using wm(1) that k(1) Cons.prems(7) n1(4) by (auto simp: wf_mbuf_def)
      qed (use wm(2) n1 in auto)
      moreover have "take k (drop off (mbytes st m)) @ ?B =
          (if len = M_COPYALL then drop off (cbytes st (m # ms)) else take (nat len) (drop off (cbytes st (m # ms))))"
        using all some off lm by (cases "len = M_COPYALL") auto
      moreover have "m_copym_loop (m # ms) off len copyhdr off0 st = Some (st3, n2 # ns, ok)"
        using pos mg Some r(1) cp unfolding len'_def k_def n1_def by (simp add: Let_def)
      moreover have "enough (length (m # ms)) st \<longrightarrow> ok"
        using MGET_enough [OF _ mg] r(3) enough_cong [OF bufs(2)] by auto
      moreover have "has_flag n2 M_PKTHDR = has_flag n1 M_PKTHDR" "m_pkthdr n2 = m_pkthdr n1"
        using cp by (auto simp: copy_mbuf_def MCLADDREFERENCE_def flag_bits bit_or_iff bit_and_iff split: if_splits)
      ultimately show ?thesis using r(4) n1(2,5)
        by (intro exI [of _ st3] exI [of _ "n2 # ns"] exI [of _ ok]) auto
    qed
  qed
qed


lemma m_copym_result:
  assumes "wf_chain st ms" "get_ok st" "ms \<noteq> []" "0 \<le> off" "0 \<le> len"
    and "len = M_COPYALL \<and> nat off \<le> length (cbytes st ms) \<and> int (length (cbytes st ms)) \<le> M_COPYALL \<or>
      len < M_COPYALL \<and> nat off + nat len \<le> length (cbytes st ms)"
  shows "\<exists>st' ns. m_copym ms off len st = Some (st', ns) \<and> wf_chain st' ns \<and> ms_bufs st' = ms_bufs st \<and>
    mclfree st' = mclfree st \<and> (\<forall>c. ms_refs st' c = ms_refs st c + erefs ns c) \<and> get_ok st' \<and>
    (pkt_ok st ms \<longrightarrow> pkt_ok st' ns) \<and>
    (let B = (if len = M_COPYALL then drop (nat off) (cbytes st ms) else take (nat len) (drop (nat off) (cbytes st ms)))
     in (ns \<noteq> [] \<or> enough (length ms) st \<longrightarrow> cbytes st' ns = B))"
proof -
  define B where "B = (if len = M_COPYALL then drop (nat off) (cbytes st ms) else take (nat len) (drop (nat off) (cbytes st ms)))"
  have wf: "\<forall>m \<in> set ms. wf_mbuf st m" "\<forall>m \<in> set (tl ms). \<not> has_flag m M_PKTHDR" "\<And>c. erefs ms c \<le> ms_refs st c"
    using assms(1) by (auto simp: wf_chain_def)
  have pos: "0 < ms_refs st (m_ext m)" if "m \<in> set ms" "has_flag m M_EXT" for m
  proof -
    have "m \<in> set (filter (\<lambda>x. has_flag x M_EXT \<and> m_ext x = m_ext m) ms)" using that by simp
    then have "0 < erefs ms (m_ext m)" unfolding erefs_def by (rule length_pos_if_in_set)
    then show ?thesis using wf(3) [of "m_ext m"] by linarith
  qed
  have le: "nat off \<le> length (cbytes st ms)" using assms(6) by auto
  obtain off' pre ms1 where s: "m_skip (nat off) ms = Some (off', ms1)" "ms = pre @ ms1"
    "length (cbytes st pre) + off' = nat off" "ms1 = [] \<longrightarrow> off' = 0" "ms1 \<noteq> [] \<longrightarrow> off' \<le> m_len (hd ms1)"
    "nat off = 0 \<longrightarrow> pre = []"
    using m_skip_spec [OF wf(1), of "nat off"] le by auto
  have dr: "drop (nat off) (cbytes st ms) = drop off' (cbytes st ms1)" unfolding s(2) s(3) [symmetric] by simp
  let ?hdr = "off = 0 \<and> has_flag (hd ms) M_PKTHDR"
  have "\<exists>st' ns ok. m_copym_loop ms1 off' len ?hdr off st = Some (st', ns, ok) \<and>
      copied st st' ns ok (if len = M_COPYALL then drop off' (cbytes st ms1) else take (nat len) (drop off' (cbytes st ms1))) \<and>
      (enough (length ms1) st \<longrightarrow> ok) \<and> (\<not> ?hdr \<longrightarrow> (\<forall>n \<in> set ns. \<not> has_flag n M_PKTHDR)) \<and>
      (ns \<noteq> [] \<longrightarrow> ?hdr \<longrightarrow> has_flag (hd ns) M_PKTHDR = has_flag (hd ms1) M_PKTHDR \<and>
         ph_len (m_pkthdr (hd ns)) = (if len = M_COPYALL then ph_len (m_pkthdr (hd ms1)) - off else len))"
  proof (rule m_copym_loop_spec)
    show "len = M_COPYALL \<and> int (length (cbytes st ms1)) \<le> M_COPYALL \<or>
        len < M_COPYALL \<and> off' + nat len \<le> length (cbytes st ms1)"
      using assms(6) unfolding s(2) s(3) [symmetric] by auto
  qed (use assms(2,5) wf(1) pos s in auto)
  then obtain st1 ns ok where r: "m_copym_loop ms1 off' len ?hdr off st = Some (st1, ns, ok)" "copied st st1 ns ok B"
    "enough (length ms1) st \<longrightarrow> ok" "\<not> ?hdr \<longrightarrow> (\<forall>n \<in> set ns. \<not> has_flag n M_PKTHDR)"
    "ns \<noteq> [] \<longrightarrow> ?hdr \<longrightarrow> has_flag (hd ns) M_PKTHDR = has_flag (hd ms1) M_PKTHDR \<and>
       ph_len (m_pkthdr (hd ns)) = (if len = M_COPYALL then ph_len (m_pkthdr (hd ms1)) - off else len)"
    unfolding B_def dr by blast
  have c: "ms_bufs st1 = ms_bufs st" "mclfree st1 = mclfree st" "\<And>c. ms_refs st1 c = ms_refs st c + erefs ns c" "get_ok st1"
    "\<And>c. erefs ns c = 0 \<or> 0 < ms_refs st c" "\<forall>n \<in> set ns. wf_mbuf st1 n" "\<forall>n \<in> set (tl ns). \<not> has_flag n M_PKTHDR"
    "ok \<longrightarrow> cbytes st1 ns = B"
    using r(2) by (auto simp: copied_def)
  have run: "m_copym ms off len st = (if ok then Some (st1, ns) else Some (m_freem ns st1, []))"
    using assms(3-5) s(1) r(1) by (simp add: m_copym_def)
  show ?thesis
  proof (cases ok)
    case True
    have "pkt_ok st1 ns" if "pkt_ok st ms"
    proof (cases "ns \<noteq> [] \<and> has_flag (hd ns) M_PKTHDR")
      case p: True
      then have h: "off = 0" "has_flag (hd ms) M_PKTHDR" using r(4) by auto
      then have "ms1 = ms" using s(2,6) by simp
      then have "ph_len (m_pkthdr (hd ns)) = (if len = M_COPYALL then int (length (cbytes st ms)) else len)"
        using r(5) p h that assms(3) by (auto simp: pkt_ok_def)
      also have "\<dots> = int (length B)" using assms(5,6) h(1) by (auto simp: B_def)
      finally show ?thesis using c(8) True by (simp add: pkt_ok_def)
    qed (auto simp: pkt_ok_def)
    then show ?thesis using run True c by (auto simp: wf_chain_def B_def Let_def)
  next
    case False
    have "erefs ns x < ms_refs st1 x \<or> erefs ns x = 0" for x using c(3) [of x] c(5) [of x] by auto
    then have "m_freem ns st1 = st1\<lparr>ms_refs := \<lambda>c. ms_refs st1 c - erefs ns c\<rparr>" by (rule m_freem_shared)
    moreover have "(\<lambda>c. ms_refs st1 c - erefs ns c) = ms_refs st" using c(3) by auto
    moreover have "\<not> enough (length ms) st"
    proof
      assume "enough (length ms) st"
      moreover have "length ms1 \<le> length ms" by (simp add: s(2))
      ultimately have "enough (length ms1) st"
        using set_take_subset_set_take [of "length ms1" "length ms" "ms_get st"] unfolding enough_def by auto
      with r(3) False show False by simp
    qed
    ultimately show ?thesis using run False c(1,2,4) by (auto simp: wf_chain_def pkt_ok_def get_ok_def)
  qed
qed

subsection \<open>Trimming\<close>

lemma wf_trim:
  "wf_mbuf st m \<Longrightarrow> len \<le> m_len m \<Longrightarrow> wf_mbuf st (m\<lparr>m_data := m_data m + len, m_len := m_len m - len\<rparr>)"
  "wf_mbuf st m \<Longrightarrow> len \<le> m_len m \<Longrightarrow> wf_mbuf st (m\<lparr>m_len := len\<rparr>)"
  by (auto simp: wf_mbuf_def)

lemma mbytes_updates [simp]:
  "mbytes st (m\<lparr>m_len := k\<rparr>) = take k (drop (m_data m) (mbuffer st m))"
  "mbytes st (m\<lparr>m_pkthdr := h\<rparr>) = mbytes st m" "mbuffer st (m\<lparr>m_data := a\<rparr>) = mbuffer st m"
  "mbuffer st (m\<lparr>m_len := a\<rparr>) = mbuffer st m"
  by (simp_all add: mbytes_def mbuffer_def)

lemma mbytes_trim:
  "len \<le> m_len m \<Longrightarrow> mbytes st (m\<lparr>m_data := m_data m + len, m_len := m_len m - len\<rparr>) = drop len (mbytes st m)"
  "len \<le> m_len m \<Longrightarrow> take len (drop (m_data m) (mbuffer st m)) = take len (mbytes st m)"
  by (simp_all add: mbytes_def drop_take add.commute mbuffer_def min_def)

text \<open>Trimming changes where the mbufs begin and end, and nothing else of them.\<close>

definition same_mbufs :: "mbuf list \<Rightarrow> mbuf list \<Rightarrow> bool" where
  "same_mbufs ms ms' \<longleftrightarrow> map (\<lambda>m. (m_flags m, m_ext m)) ms' = map (\<lambda>m. (m_flags m, m_ext m)) ms"

lemma same_mbufs_simps [simp]:
  "same_mbufs [] ms' = (ms' = [])" "same_mbufs ms ms"
  "same_mbufs (m # ms) (m' # ms') = (m_flags m' = m_flags m \<and> m_ext m' = m_ext m \<and> same_mbufs ms ms')"
  by (auto simp: same_mbufs_def)

lemma same_mbufs_erefs: "same_mbufs ms ms' \<Longrightarrow> erefs ms' = erefs ms"
proof (induction ms arbitrary: ms')
  case (Cons m ms)
  then obtain m' ms2 where e: "ms' = m' # ms2" by (cases ms') (auto simp: same_mbufs_def)
  then have "m_flags m' = m_flags m \<and> m_ext m' = m_ext m \<and> same_mbufs ms ms2" using Cons.prems by simp
  then have s: "m_flags m' = m_flags m" "m_ext m' = m_ext m" "erefs ms2 = erefs ms" using Cons.IH [of ms2] by blast+
  then show ?case using flag_cong [OF s(1)] by (simp add: e fun_eq_iff)
qed simp

lemma same_mbufs_flags: "same_mbufs ms ms' \<Longrightarrow> (\<forall>m \<in> set (tl ms'). \<not> has_flag m f) = (\<forall>m \<in> set (tl ms). \<not> has_flag m f)"
proof -
  assume s: "same_mbufs ms ms'"
  have "map (\<lambda>m. has_flag m f) ms' = map (\<lambda>m. has_flag m f) ms"
    using arg_cong [OF s [unfolded same_mbufs_def], of "map (\<lambda>(fl, e). fl AND f \<noteq> 0)"] by (simp add: has_flag_def comp_def)
  then have "map (\<lambda>m. has_flag m f) (tl ms') = map (\<lambda>m. has_flag m f) (tl ms)" by (simp add: map_tl)
  then have "set (map (\<lambda>m. has_flag m f) (tl ms')) = set (map (\<lambda>m. has_flag m f) (tl ms))" by simp
  then show ?thesis by auto
qed

lemma wf_chain_same:
  "wf_chain st ms \<Longrightarrow> same_mbufs ms ms' \<Longrightarrow> \<forall>m \<in> set ms'. wf_mbuf st m \<Longrightarrow> wf_chain st ms'"
  using same_mbufs_erefs [of ms ms'] same_mbufs_flags [of ms ms' M_PKTHDR] by (simp add: wf_chain_def)

lemma adj_head_spec:
  assumes "\<forall>m \<in> set ms. wf_mbuf st m" "adj_head len ms = (ms', l)"
  shows "(\<forall>m \<in> set ms'. wf_mbuf st m) \<and> same_mbufs ms ms' \<and> cbytes st ms' = drop len (cbytes st ms) \<and>
    l = len - length (cbytes st ms) \<and> map m_pkthdr ms' = map m_pkthdr ms"
  using assms
proof (induction len ms arbitrary: ms' l rule: adj_head.induct)
  case (2 len m ms)
  have lm: "length (mbytes st m) = m_len m" using 2(2) by (simp add: length_mbytes)
  consider "len = 0" | "len \<noteq> 0" "m_len m \<le> len" | "len \<noteq> 0" "\<not> m_len m \<le> len" by blast
  then show ?case
  proof cases
    case 2
    obtain ms2 l2 where r: "adj_head (len - m_len m) ms = (ms2, l2)" by (cases "adj_head (len - m_len m) ms")
    then have "ms' = m\<lparr>m_len := 0\<rparr> # ms2" "l = l2" using 2 "2.prems"(2) by auto
    then show ?thesis using "2.IH" [OF 2 _ r] "2.prems"(1) lm 2 wf_trim(2) [of st m 0] by auto
  next
    case 3
    then show ?thesis using "2.prems" lm wf_trim(1) [of st m len] mbytes_trim(1) [of len m st] by auto
  qed (use "2.prems" in auto)
qed auto

lemma adj_keep_spec:
  assumes "\<forall>m \<in> set ms. wf_mbuf st m" "count \<le> length (cbytes st ms)"
  shows "(\<forall>m \<in> set (adj_keep count ms). wf_mbuf st m) \<and> same_mbufs ms (adj_keep count ms) \<and>
    cbytes st (adj_keep count ms) = take count (cbytes st ms) \<and> map m_pkthdr (adj_keep count ms) = map m_pkthdr ms"
  using assms
proof (induction count ms rule: adj_keep.induct)
  case (2 count m ms)
  have lm: "length (mbytes st m) = m_len m" using 2(2) by (simp add: length_mbytes)
  show ?case
  proof (cases "m_len m \<ge> count")
    case True
    have "cbytes st (map (\<lambda>m. m\<lparr>m_len := 0\<rparr>) ms) = []" by (induction ms) simp_all
    moreover have "\<forall>m \<in> set (map (\<lambda>m. m\<lparr>m_len := 0\<rparr>) ms). wf_mbuf st m" using 2(2) wf_trim(2) [of st _ 0] by auto
    moreover have "same_mbufs ms (map (\<lambda>m. m\<lparr>m_len := 0\<rparr>) ms)" by (simp add: same_mbufs_def comp_def)
    ultimately show ?thesis
      using True lm 2(2) wf_trim(2) [of st m count] mbytes_trim(2) [OF True, of st] by (auto simp: comp_def)
  next
    case False
    then show ?thesis using 2 lm by auto
  qed
qed simp

lemma sub_pktlen_simps:
  "cbytes st (sub_pktlen n ms) = cbytes st ms" "same_mbufs ms (sub_pktlen n ms)"
  "(\<forall>m \<in> set (sub_pktlen n ms). wf_mbuf st m) = (\<forall>m \<in> set ms. wf_mbuf st m)"
  "ms \<noteq> [] \<Longrightarrow> ph_len (m_pkthdr (hd (sub_pktlen n ms))) =
     ph_len (m_pkthdr (hd ms)) - (if has_flag (hd ms) M_PKTHDR then n else 0)" "sub_pktlen n ms = [] \<longleftrightarrow> ms = []"
  by (cases ms; simp add: sub_pktlen_def wf_mbuf_def)+

lemma same_mbufs_trans: "same_mbufs a b \<Longrightarrow> same_mbufs b c \<Longrightarrow> same_mbufs a c"
  by (simp add: same_mbufs_def)

lemma same_mbufs_hd: "same_mbufs ms ms' \<Longrightarrow> ms \<noteq> [] \<Longrightarrow> ms' \<noteq> [] \<and> has_flag (hd ms') f = has_flag (hd ms) f"
  by (cases ms; cases ms') (auto simp: has_flag_def same_mbufs_def)

definition adj_bytes :: "int \<Rightarrow> u8 list \<Rightarrow> u8 list" where
  "adj_bytes n B = (if n \<ge> 0 then drop (nat n) B else take (length B - nat (- n)) B)"

definition adjusted :: "mstate \<Rightarrow> mbuf list \<Rightarrow> int \<Rightarrow> mbuf list \<Rightarrow> bool" where
  "adjusted st mp n ms \<longleftrightarrow> same_mbufs mp ms \<and> (\<forall>m \<in> set ms. wf_mbuf st m) \<and> cbytes st ms = adj_bytes n (cbytes st mp) \<and>
     (has_flag (hd mp) M_PKTHDR \<longrightarrow> ph_len (m_pkthdr (hd mp)) = int (length (cbytes st mp)) \<longrightarrow>
      ph_len (m_pkthdr (hd ms)) = int (length (adj_bytes n (cbytes st mp))))"

lemma same_mbufs_append: "same_mbufs a a' \<Longrightarrow> same_mbufs b b' \<Longrightarrow> same_mbufs (a @ b) (a' @ b')"
  by (simp add: same_mbufs_def)

lemma m_adj_front:
  assumes "mp \<noteq> []" "\<forall>m \<in> set mp. wf_mbuf st m" "n \<ge> 0"
  shows "adjusted st mp n (m_adj mp n)"
proof -
  obtain mp1 l where h: "adj_head (nat n) mp = (mp1, l)" by (cases "adj_head (nat n) mp")
  note a = adj_head_spec [OF assms(2) h]
  have m: "m_adj mp n = sub_pktlen (n - int l) mp1" using assms(1,3) h by (simp add: m_adj_def)
  have ne1: "mp1 \<noteq> []" "has_flag (hd mp1) M_PKTHDR = has_flag (hd mp) M_PKTHDR" using a assms(1) same_mbufs_hd [of mp mp1] by blast+
  have p1: "m_pkthdr (hd mp1) = m_pkthdr (hd mp)" using a ne1(1) assms(1) by (metis hd_map)
  have "same_mbufs mp (sub_pktlen (n - int l) mp1)" using a sub_pktlen_simps(2) same_mbufs_trans by blast
  then show ?thesis
    using sub_pktlen_simps(4) [OF ne1(1)] ne1 p1 a assms(3) unfolding m adjusted_def sub_pktlen_simps
    by (auto simp: adj_bytes_def)
qed

text \<open>From the last mbuf alone.\<close>

lemma m_adj_last:
  assumes "mp \<noteq> []" "\<forall>m \<in> set mp. wf_mbuf st m" "n < 0" "m_len (last mp) \<ge> nat (- n)"
  shows "adjusted st mp n (m_adj mp n)"
proof -
  define len where "len = nat (- n)"
  define B0 where "B0 = cbytes st (butlast mp)"
  let ?mp1 = "butlast mp @ [(last mp)\<lparr>m_len := m_len (last mp) - len\<rparr>]"
  have "cbytes st (butlast mp @ [last mp]) = B0 @ mbytes st (last mp)" by (simp add: B0_def)
  then have B: "cbytes st mp = B0 @ mbytes st (last mp)" using assms(1) by simp
  have wl: "wf_mbuf st (last mp)" "length (mbytes st (last mp)) = m_len (last mp)" using assms(1,2) length_mbytes by auto
  have m: "m_adj mp n = sub_pktlen (int len) ?mp1" using assms by (simp add: m_adj_def len_def Let_def)
  have "same_mbufs (butlast mp @ [last mp]) ?mp1" by (rule same_mbufs_append) simp_all
  then have s1: "same_mbufs mp ?mp1" using assms(1) by simp
  have b: "cbytes st ?mp1 = B0 @ take (m_len (last mp) - len) (mbytes st (last mp))"
    using mbytes_trim(2) [of "m_len (last mp) - len" "last mp" st] by (simp add: B0_def)
  have bb: "cbytes st ?mp1 = adj_bytes n (cbytes st mp)"
    unfolding b B using assms(3,4) wl by (simp add: adj_bytes_def len_def [symmetric])
  have w: "\<forall>m \<in> set ?mp1. wf_mbuf st m"
    using assms(2) wl wf_trim(2) [OF wl(1), of "m_len (last mp) - len"] by (auto dest: in_set_butlastD)
  have h1: "m_pkthdr (hd ?mp1) = m_pkthdr (hd mp)" using assms(1) by (cases mp) auto
  have "ph_len (m_pkthdr (hd (m_adj mp n))) = int (length (adj_bytes n (cbytes st mp)))"
    if "has_flag (hd mp) M_PKTHDR" "ph_len (m_pkthdr (hd mp)) = int (length (cbytes st mp))"
    using that sub_pktlen_simps(4) [of ?mp1 "int len"] h1 same_mbufs_hd [OF s1 assms(1), of M_PKTHDR] assms(3,4) B wl unfolding m
    by (auto simp: adj_bytes_def len_def [symmetric] of_nat_diff)
  then show ?thesis using w bb same_mbufs_trans [OF s1 sub_pktlen_simps(2)] unfolding adjusted_def m sub_pktlen_simps by simp
qed

text \<open>From several mbufs.\<close>

lemma m_adj_back:
  assumes "mp \<noteq> []" "\<forall>m \<in> set mp. wf_mbuf st m" "n < 0" "m_len (last mp) < nat (- n)"
  shows "adjusted st mp n (m_adj mp n)"
proof -
  define len where "len = nat (- n)"
  define mp1 where "mp1 = (if has_flag (hd mp) M_PKTHDR
    then (hd mp)\<lparr>m_pkthdr := (m_pkthdr (hd mp))\<lparr>ph_len := int (sum_list (map m_len mp) - len)\<rparr>\<rparr> # tl mp else mp)"
  have m: "m_adj mp n = adj_keep (length (cbytes st mp) - len) mp1"
    using assms length_cbytes [OF assms(2)] by (simp add: m_adj_def len_def Let_def mp1_def)
  obtain x xs where x: "mp = x # xs" using assms(1) by (cases mp) auto
  have m1: "same_mbufs mp mp1" "\<forall>m \<in> set mp1. wf_mbuf st m" "cbytes st mp1 = cbytes st mp" "mp1 \<noteq> []"
    "has_flag (hd mp) M_PKTHDR \<Longrightarrow> ph_len (m_pkthdr (hd mp1)) = int (length (cbytes st mp) - len)"
    using assms(2) length_cbytes [OF assms(2)] by (simp_all add: mp1_def wf_mbuf_def x)
  have "length (cbytes st mp) - len \<le> length (cbytes st mp1)" using m1(3) by simp
  note k = adj_keep_spec [OF m1(2) this]
  have "m_pkthdr (hd (m_adj mp n)) = m_pkthdr (hd mp1)" using k m1(4) unfolding m by (metis hd_map map_is_Nil_conv)
  then show ?thesis using same_mbufs_trans [OF m1(1)] k m1 assms(3) unfolding adjusted_def
    by (simp add: m adj_bytes_def len_def [symmetric])
qed

text \<open>\<open>m_adj\<close> takes bytes off one end of the chain.\<close>

lemma m_adj_result:
  assumes "wf_chain st mp"
  shows "wf_chain st (m_adj mp n) \<and> cbytes st (m_adj mp n) = adj_bytes n (cbytes st mp) \<and>
    (pkt_ok st mp \<longrightarrow> pkt_ok st (m_adj mp n)) \<and> erefs (m_adj mp n) = erefs mp"
proof (cases "mp = []")
  case True
  then show ?thesis using assms by (simp add: m_adj_def adj_bytes_def pkt_ok_def)
next
  case ne: False
  have "\<forall>m \<in> set mp. wf_mbuf st m" using assms by (simp add: wf_chain_def)
  then have "adjusted st mp n (m_adj mp n)" using m_adj_front m_adj_last m_adj_back ne by (meson linorder_not_less)
  then have a: "same_mbufs mp (m_adj mp n)" "\<forall>m \<in> set (m_adj mp n). wf_mbuf st m"
    "cbytes st (m_adj mp n) = adj_bytes n (cbytes st mp)"
    "has_flag (hd mp) M_PKTHDR \<Longrightarrow> ph_len (m_pkthdr (hd mp)) = int (length (cbytes st mp)) \<Longrightarrow>
      ph_len (m_pkthdr (hd (m_adj mp n))) = int (length (adj_bytes n (cbytes st mp)))"
    by (auto simp: adjusted_def)
  then show ?thesis
    using wf_chain_same [OF assms a(1,2)] same_mbufs_erefs [OF a(1)] same_mbufs_hd [OF a(1) ne] ne by (auto simp: pkt_ok_def)
qed

subsection \<open>Joining\<close>

text \<open>Freeing an mbuf whose references are counted.\<close>

lemma m_free_spec:
  "ms_bufs (m_free m st) = ms_bufs st" "ms_get (m_free m st) = ms_get st"
  "ms_refs (m_free m st) c = ms_refs st c - erefs [m] c"
  by (auto simp: m_free_def Let_def)

lemma m_cat_loop_spec:
  assumes "\<forall>x \<in> set (m # ns). wf_mbuf st x" "m_cat_loop m ns st = (st', ms')"
  shows "(\<forall>x \<in> set ms'. wf_mbuf st' x) \<and> cbytes st' ms' = mbytes st m @ cbytes st ns \<and> ms_bufs st' = ms_bufs st \<and>
    (\<exists>k. map has_flag ms' = has_flag m # map has_flag (drop k ns)) \<and> m_pkthdr (hd ms') = m_pkthdr m \<and>
    (\<forall>c a. erefs (m # ns) c + a \<le> ms_refs st c \<longrightarrow> erefs ms' c + a \<le> ms_refs st' c)"
  using assms
proof (induction m ns st arbitrary: st' ms' rule: m_cat_loop.induct)
  case (1 m st)
  then show ?case by auto
next
  case (2 m n ns st)
  show ?case
  proof (cases "has_flag m M_EXT \<or> m_data m + m_len m + m_len n \<ge> MLEN")
    case True
    then show ?thesis using 2(2,3) by (auto intro!: exI [of _ 0])
  next
    case False
    let ?m = "(put_dat m (m_data m + m_len m) (mbytes st n))\<lparr>m_len := m_len m + m_len n\<rparr>"
    have ln: "length (mbytes st n) = m_len n" using 2(2) by (simp add: length_mbytes)
    have ldat: "length (m_dat m) = MLEN" using 2(2) by (simp add: wf_mbuf_def)
    have bufs: "ms_bufs (m_free n st) = ms_bufs st" by (rule m_free_spec)
    have "m_data m + m_len m + length (mbytes st n) \<le> length (m_dat m)" using False ldat ln by simp
    then have wf: "wf_mbuf (m_free n st) ?m" using 2(2) False ldat by (simp add: wf_mbuf_def ln)
    have "take (m_len m + m_len n) (drop (m_data m) (bcopy_to (mbytes st n) (m_dat m) (m_data m + m_len m))) =
        take (m_len m) (drop (m_data m) (m_dat m)) @ mbytes st n"
      using False ldat ln by (simp add: bcopy_to_def take_drop min_def add.commute)
    then have app: "mbytes (m_free n st) ?m = mbytes st m @ mbytes st n"
      using False by (simp add: mbytes_def mbuffer_def)
    have w: "\<forall>x \<in> set (?m # ns). wf_mbuf (m_free n st) x" using 2(2) wf wf_mbuf_cong [OF bufs] by auto
    have run: "m_cat_loop ?m ns (m_free n st) = (st', ms')" using 2(3) False by simp
    note ih = 2(1) [OF False w run]
    have "erefs ms' c + a \<le> ms_refs st' c" if "erefs (m # n # ns) c + a \<le> ms_refs st c" for c a
    proof -
      have "erefs (?m # ns) c + a \<le> ms_refs (m_free n st) c"
        using that False by (auto simp: m_free_spec(3))
      then show ?thesis using ih by blast
    qed
    moreover obtain k where "map has_flag ms' = has_flag ?m # map has_flag (drop k ns)"
      using ih by (elim conjE exE)
    then have "map has_flag ms' = has_flag m # map has_flag (drop (Suc k) (n # ns))" by (simp add: has_flag_def fun_eq_iff)
    ultimately show ?thesis using ih app bufs cbytes_cong [OF bufs] by (auto simp del: drop_Suc_Cons)
  qed
qed

end
