(* ===== verification/Mbuf_Correct.thy ===== *)
theory Mbuf_Correct
  imports Mbuf_Chain
begin

text \<open>
  The routines that rearrange chains: concatenation, splitting, pulling up and copying back, with
  the properties of all of the mbuf routines at the end.
\<close>

text \<open>
  Concatenation, with \<open>a\<close> references from elsewhere: the bytes are joined, every buffer stays counted,
  and the flags of the first chain stay, with those of the mbufs of the second that are kept.
\<close>

definition wf_bufs :: "mstate \<Rightarrow> mbuf list \<Rightarrow> bool" where
  "wf_bufs st ms \<longleftrightarrow> (\<forall>m \<in> set ms. wf_mbuf st m) \<and> (\<forall>c. erefs ms c \<le> ms_refs st c)"

lemma wf_bufs_chain: "wf_chain st ms \<longleftrightarrow> wf_bufs st ms \<and> (\<forall>m \<in> set (tl ms). \<not> has_flag m M_PKTHDR)"
  by (auto simp: wf_chain_def wf_bufs_def)

lemma m_cat_result:
  assumes "wf_bufs st (ms @ ns)" "ms \<noteq> []"
  shows "\<exists>st' ms' k. m_cat ms ns st = Some (st', ms') \<and> wf_bufs st' ms' \<and> cbytes st' ms' = cbytes st ms @ cbytes st ns \<and>
    map has_flag ms' = map has_flag ms @ map has_flag (drop k ns) \<and> m_pkthdr (hd ms') = m_pkthdr (hd ms) \<and>
    ms_bufs st' = ms_bufs st \<and> (\<forall>c a. erefs (ms @ ns) c + a \<le> ms_refs st c \<longrightarrow> erefs ms' c + a \<le> ms_refs st' c)"
proof -
  obtain st' tail where l: "m_cat_loop (last ms) ns st = (st', tail)" by (cases "m_cat_loop (last ms) ns st")
  have w: "\<forall>x \<in> set (last ms # ns). wf_mbuf st x" using assms by (simp add: wf_bufs_def)
  note s = m_cat_loop_spec [OF w l]
  obtain k where k: "map has_flag tail = has_flag (last ms) # map has_flag (drop k ns)" using s by (elim conjE exE)
  have e: "erefs ms c = erefs (butlast ms) c + erefs [last ms] c" for c
  proof -
    have "erefs (butlast ms @ [last ms]) c = erefs (butlast ms) c + erefs [last ms] c" by (simp only: erefs_simps(3))
    then show ?thesis using assms(2) by simp
  qed
  have b: "cbytes st ms = cbytes st (butlast ms) @ mbytes st (last ms)"
  proof -
    have "cbytes st (butlast ms @ [last ms]) = cbytes st (butlast ms) @ mbytes st (last ms)" by simp
    then show ?thesis using assms(2) by simp
  qed
  have "map has_flag (butlast ms @ [last ms]) = map has_flag (butlast ms) @ [has_flag (last ms)]" by simp
  then have f: "map has_flag ms = map has_flag (butlast ms) @ [has_flag (last ms)]" using assms(2) by simp
  have refs: "erefs (butlast ms @ tail) c + a \<le> ms_refs st' c" if "erefs (ms @ ns) c + a \<le> ms_refs st c" for c a
  proof -
    have "erefs (last ms # ns) c + (erefs (butlast ms) c + a) \<le> ms_refs st c" using that e [of c] by simp
    then have "erefs tail c + (erefs (butlast ms) c + a) \<le> ms_refs st' c" using s by blast
    then show ?thesis by simp
  qed
  have "erefs (butlast ms @ tail) c \<le> ms_refs st' c" for c
    using refs [of c 0] assms(1) by (simp only: wf_bufs_def add_0_right)
  moreover have "\<forall>x \<in> set (butlast ms). wf_mbuf st' x"
    using assms wf_mbuf_cong [of st' st] s by (auto simp: wf_bufs_def dest: in_set_butlastD)
  ultimately have "wf_bufs st' (butlast ms @ tail)" using s by (auto simp: wf_bufs_def)
  moreover have "m_pkthdr (hd (butlast ms @ tail)) = m_pkthdr (hd ms)"
    using assms(2) s by (cases ms rule: rev_cases) (auto simp: hd_append)
  moreover have "m_cat ms ns st = Some (st', butlast ms @ tail)" using assms(2) l by (simp add: m_cat_def)
  ultimately show ?thesis using s k b f refs cbytes_cong [of st' st]
    by (intro exI [of _ st'] exI [of _ "butlast ms @ tail"] exI [of _ k]) simp
qed

subsection \<open>Splitting\<close>

lemma split_find_spec:
  assumes "\<forall>m \<in> set ms. wf_mbuf st m" "split_find len ms = Some (pre, m, rest, l)"
  shows "ms = pre @ m # rest \<and> length (cbytes st pre) + l = len \<and> l \<le> m_len m"
  using assms
proof (induction len ms arbitrary: pre rule: split_find.induct)
  case (2 len m0 ms)
  have lm: "length (mbytes st m0) = m_len m0" using 2(2) by (simp add: length_mbytes)
  show ?case
  proof (cases "len > m_len m0")
    case True
    then obtain pre' where "split_find (len - m_len m0) ms = Some (pre', m, rest, l)" "pre = m0 # pre'" using 2(3) by auto
    then show ?thesis using 2(1) [OF True, of pre'] 2(2) True lm by auto
  qed (use 2(3) in auto)
qed simp

lemma split_find_None:
  "\<forall>m \<in> set ms. wf_mbuf st m \<Longrightarrow> split_find len ms = None \<Longrightarrow> ms \<noteq> [] \<Longrightarrow> length (cbytes st ms) < len"
proof (induction len ms rule: split_find.induct)
  case (2 len m ms)
  then show ?case using length_mbytes [of st m] by (cases ms) (auto split: if_splits)
qed simp

lemma split_mbuf_copy:
  "split_mbuf m len n st = (case copy_mbuf m len (m_len m - len) n st of (st1, n1) \<Rightarrow> (st1, m\<lparr>m_len := len\<rparr>, n1))"
  by (simp add: split_mbuf_def copy_mbuf_def MCLADDREFERENCE_def put_dat_def Let_def)

lemma long_align_le: "long_align n \<le> n"
  by (simp add: long_align_def)

definition split_ok :: "mstate \<Rightarrow> mbuf list \<Rightarrow> nat \<Rightarrow> mstate \<Rightarrow> mbuf list \<Rightarrow> mbuf list \<Rightarrow> bool" where
  "split_ok st ms len st' f b \<longleftrightarrow>
     f \<noteq> [] \<and> (\<forall>m \<in> set (f @ b). wf_mbuf st' m) \<and> ms_bufs st' = ms_bufs st \<and> get_ok st' \<and>
     (\<forall>c. ms_refs st' c + erefs ms c = ms_refs st c + erefs (f @ b) c) \<and>
     (if b = [] then f = ms
      else cbytes st' f = take len (cbytes st ms) \<and> cbytes st' b = drop len (cbytes st ms)) \<and>
     (\<forall>m \<in> set (tl f @ tl b). \<not> has_flag m M_PKTHDR) \<and> has_flag (hd f) = has_flag (hd ms) \<and>
     (b \<noteq> [] \<longrightarrow> has_flag (hd b) M_PKTHDR = has_flag (hd ms) M_PKTHDR)"

lemma split_ok_bytes: "split_ok st ms len st' f b \<Longrightarrow> cbytes st' f @ cbytes st' b = cbytes st ms"
  using cbytes_cong [of st' st] by (auto simp: split_ok_def split: if_splits)

text \<open>The two ends of an mbuf that is split.\<close>

lemma split_mbuf_spec:
  assumes "split_mbuf m len n st = (st', m', n')" "wf_mbuf st m" "len \<le> m_len m"
    and "\<not> has_flag n M_EXT" "length (m_dat n) = MLEN" "\<not> has_flag m M_EXT \<Longrightarrow> m_data n + (m_len m - len) \<le> MLEN"
    and "has_flag n M_PKTHDR \<Longrightarrow> pktdat \<le> m_data n"
  shows "mbytes st' m' = take len (mbytes st m)" "mbytes st' n' = drop len (mbytes st m)"
    "wf_mbuf st' m'" "wf_mbuf st' n'" "has_flag m' = has_flag m" "erefs [m'] = erefs [m]" "m_pkthdr m' = m_pkthdr m"
    "ms_bufs st' = ms_bufs st" "ms_refs st' c = ms_refs st c + erefs [n'] c" "ms_get st' = ms_get st"
    "has_flag n' M_PKTHDR = has_flag n M_PKTHDR" "m_pkthdr n' = m_pkthdr n"
proof -
  obtain st1 n1 where c: "copy_mbuf m len (m_len m - len) n st = (st1, n1)" by (cases "copy_mbuf m len (m_len m - len) n st")
  have e: "st' = st1" "m' = m\<lparr>m_len := len\<rparr>" "n' = n1" using assms(1) c by (simp_all add: split_mbuf_copy)
  have le: "len + (m_len m - len) \<le> m_len m" using assms(3) by simp
  note s = copy_mbuf_spec [OF c assms(2) le assms(4-7)]
  have bufs: "ms_bufs st1 = ms_bufs st" by (rule s(4))
  show "mbytes st' m' = take len (mbytes st m)"
    using mbytes_trim(2) [OF assms(3), of st] by (simp only: e mbytes_updates mbuffer_def bufs)
  show "mbytes st' n' = drop len (mbytes st m)" using s(1) length_mbytes [OF assms(2)] by (simp add: e)
  show "wf_mbuf st' m'" using wf_trim(2) [OF assms(2,3)] wf_mbuf_cong [OF s(4)] by (simp add: e)
  show "wf_mbuf st' n'" "has_flag m' = has_flag m" "erefs [m'] = erefs [m]" "m_pkthdr m' = m_pkthdr m"
    "ms_bufs st' = ms_bufs st" "ms_refs st' c = ms_refs st c + erefs [n'] c" "ms_get st' = ms_get st"
    "has_flag n' M_PKTHDR = has_flag n M_PKTHDR" "m_pkthdr n' = m_pkthdr n"
    using s by (simp_all add: e fun_eq_iff)
qed

text \<open>Splitting at an mbuf, with the new mbuf \<open>n\<close>.\<close>

lemma split_at_ok:
  assumes "split_mbuf m l n st1 = (st', m', n')" "\<forall>x \<in> set (pre @ m # rest). wf_mbuf st1 x" "l \<le> m_len m"
    and "ms_bufs st1 = ms_bufs st" "ms_refs st1 = ms_refs st" "get_ok st1"
    and "\<not> has_flag n M_EXT" "length (m_dat n) = MLEN" "\<not> has_flag m M_EXT \<Longrightarrow> m_data n + (m_len m - l) \<le> MLEN"
    and "has_flag n M_PKTHDR \<Longrightarrow> pktdat \<le> m_data n" "has_flag n M_PKTHDR = has_flag (hd (pre @ [m])) M_PKTHDR"
    and "\<forall>x \<in> set (tl (pre @ m # rest)). \<not> has_flag x M_PKTHDR" "len = length (cbytes st1 pre) + l"
  shows "split_ok st (pre @ m # rest) len st' (pre @ [m']) (n' # rest)" "m_pkthdr n' = m_pkthdr n" "m_pkthdr m' = m_pkthdr m"
proof -
  have wm: "wf_mbuf st1 m" using assms(2) by simp
  note s = split_mbuf_spec [OF assms(1) wm assms(3,7-10)]
  have cb: "cbytes st' = cbytes st" "cbytes st1 = cbytes st" "mbytes st1 = mbytes st" "mbytes st' = mbytes st"
    using mbytes_cong [OF s(8)] cbytes_cong [OF s(8)] cbytes_cong [OF assms(4)] mbytes_cong [OF assms(4)] by simp_all
  have w: "wf_mbuf st' = wf_mbuf st1" by (rule wf_mbuf_cong [OF s(8)])
  have "ms_refs st' c + erefs (pre @ m # rest) c = ms_refs st c + erefs ((pre @ [m']) @ n' # rest) c" for c
    using s(9) [of c] fun_cong [OF s(6), of c] assms(5) by simp
  moreover have "cbytes st' (pre @ [m']) = take len (cbytes st (pre @ m # rest))" "cbytes st' (n' # rest) = drop len (cbytes st (pre @ m # rest))"
    using s(1,2) assms(3,13) length_mbytes [OF wm] unfolding cb by simp_all
  moreover have "hd (pre @ [m']) = (if pre = [] then m' else hd pre)" "tl (pre @ [m']) = (if pre = [] then [] else tl pre @ [m'])"
    by simp_all
  ultimately show "split_ok st (pre @ m # rest) len st' (pre @ [m']) (n' # rest)"
    using assms(2,4,6,11,12) s(3,4,5,8,10,11) w get_ok_cong [OF s(10)] unfolding split_ok_def
    by (cases pre) auto
  show "m_pkthdr n' = m_pkthdr n" using s(12) by simp
  show "m_pkthdr m' = m_pkthdr m" using s(7) by simp
qed

lemma split_ok_refl:
  assumes "\<forall>m \<in> set ms. wf_mbuf st m" "\<forall>m \<in> set (tl ms). \<not> has_flag m M_PKTHDR" "get_ok st'" "ms \<noteq> []"
    and "ms_bufs st' = ms_bufs st" "ms_refs st' = ms_refs st"
  shows "split_ok st ms len st' ms []"
  using assms wf_mbuf_cong [of st' st] by (simp add: split_ok_def)

lemma get_ok_MGET: "get_ok st \<Longrightarrow> MGET ty st = (st1, r) \<Longrightarrow> get_ok st1"
  by (auto simp: MGET_def get_ok_def split: list.splits)

lemma unat_word_int: "0 \<le> n \<Longrightarrow> n < 2 ^ 32 \<Longrightarrow> unat (word_of_int n :: u32) = nat n"
  by (simp add: unat_eq_nat_uint uint_word_of_int take_bit_int_eq_self)

text \<open>A chain with no packet header.\<close>

lemma m_split_plain:
  assumes "\<forall>m \<in> set ms. wf_mbuf st m" "\<forall>m \<in> set ms. \<not> has_flag m M_PKTHDR" "get_ok st" "ms \<noteq> []"
    and "0 \<le> len0" "len0 < 2 ^ 32" "m_split ms len0 st = (st', f, b)"
  shows "split_ok st ms (nat len0) st' f b \<and> (nat len0 < length (cbytes st ms) \<longrightarrow> enough 1 st \<longrightarrow> b \<noteq> [])"
proof -
  have hd: "\<not> has_flag (hd ms) M_PKTHDR" using assms(2,4) by simp
  have tl: "\<forall>m \<in> set (tl ms). \<not> has_flag m M_PKTHDR" using assms(2) by (cases ms) auto
  note u = unat_word_int [OF assms(5,6)]
  note run = assms(7) [unfolded m_split.simps [of ms] u]
  show ?thesis
  proof (cases "split_find (nat len0) ms")
    case None
    then show ?thesis using run split_ok_refl [OF assms(1) tl assms(3,4)] split_find_None [OF assms(1) None assms(4)] by simp
  next
    case (Some q)
    then obtain pre m rest l where q: "split_find (nat len0) ms = Some (pre, m, rest, l)" by (cases q) auto
    note s = split_find_spec [OF assms(1) q]
    have wm: "wf_mbuf st m" using s assms(1) by auto
    have hd': "\<not> has_flag (hd (pre @ m # rest)) M_PKTHDR" using hd s by simp
    show ?thesis
    proof (cases "m_len m - l = 0")
      case True
      then have r: "st' = st" "f = pre @ [m]" "b = rest" using run q hd by auto
      have "l = length (mbytes st m)" using True s length_mbytes [OF wm] by simp
      moreover have "hd (pre @ [m]) = hd ms" "\<forall>m \<in> set (tl (pre @ [m])). \<not> has_flag m M_PKTHDR"
        using s assms(2) by (cases pre; auto)+
      moreover have "b \<noteq> [] \<Longrightarrow> \<not> has_flag (hd b) M_PKTHDR" "\<forall>m \<in> set (tl b). \<not> has_flag m M_PKTHDR"
        using s assms(2) r by (cases rest; auto)+
      ultimately show ?thesis using s assms(1,3) hd r by (auto simp: split_ok_def)
    next
      case False
      obtain st1 r where g: "MGET (m_type m) st = (st1, r)" by (cases "MGET (m_type m) st")
      show ?thesis
      proof (cases r)
        case None
        then have "st' = st1" "f = ms" "b = []" using run q hd False g by auto
        then show ?thesis using split_ok_refl [OF assms(1) tl get_ok_MGET [OF assms(3) g] assms(4)] MGET_frame [OF g]
            MGET_enough [OF _ g, of 0] None by auto
      next
        case (Some n)
        note n = MGET_Some [OF g [unfolded Some] assms(3)]
        let ?n = "M_ALIGN (m_len m - l) n"
        obtain m' n' where p: "split_mbuf m l ?n st1 = (st', m', n')" "f = pre @ [m']" "b = n' # rest"
          using run q hd False g Some by (auto split: prod.splits)
        have a: "\<not> has_flag ?n M_EXT" "length (m_dat ?n) = MLEN" "\<not> has_flag ?n M_PKTHDR"
          using n by (simp_all add: M_ALIGN_def)
        have room: "m_data ?n + (m_len m - l) \<le> MLEN" if "\<not> has_flag m M_EXT"
        proof -
          have "m_len m - l \<le> MLEN" using wm that by (auto simp: wf_mbuf_def)
          then show ?thesis using n(3) long_align_le [of "MLEN - (m_len m - l)"] by (simp add: M_ALIGN_def le_diff_conv2)
        qed
        have w: "\<forall>x \<in> set (pre @ m # rest). wf_mbuf st1 x" using assms(1) s wf_mbuf_cong [OF n(6)] by simp
        have h: "has_flag ?n M_PKTHDR = has_flag (hd (pre @ [m])) M_PKTHDR" using a(3) hd' by (cases pre) simp_all
        have t: "\<forall>x \<in> set (tl (pre @ m # rest)). \<not> has_flag x M_PKTHDR" using tl s by simp
        have le: "l \<le> m_len m" and ln: "nat len0 = length (cbytes st1 pre) + l" using s cbytes_cong [OF n(6)] by simp_all
        have "split_ok st (pre @ m # rest) (nat len0) st' (pre @ [m']) (n' # rest)"
          by (rule split_at_ok(1) [OF p(1) w le n(6,7,9) a(1,2) room _ h t ln]) (use a(3) in simp_all)
        then show ?thesis using s p by simp
      qed
    qed
  qed
qed


text \<open>A packet.\<close>

lemma MGETHDR_Some:
  assumes "MGETHDR ty st = (st1, Some n)" "get_ok st"
  shows "has_flag n M_EXT = False" "has_flag n M_PKTHDR = True" "m_data n = pktdat" "length (m_dat n) = MLEN"
    "ms_bufs st1 = ms_bufs st" "ms_refs st1 = ms_refs st" "get_ok st1"
    "\<forall>j d. Some (j, d) \<in> set (ms_get st) \<longrightarrow> j = 0 \<Longrightarrow> m_len n = 0" "enough (Suc k) st \<Longrightarrow> enough k st1"
proof -
  obtain st2 r where g: "MGET ty st = (st2, r)" by (cases "MGET ty st")
  then obtain m where m: "r = Some m" "st1 = st2" "n = m\<lparr>m_data := pktdat, m_flags := M_PKTHDR\<rparr>"
    using assms(1) by (cases r) (simp_all add: MGETHDR_def)
  note n = MGET_Some [OF g [unfolded m(1)] assms(2)]
  show "m_len n = 0" if "\<forall>j d. Some (j, d) \<in> set (ms_get st) \<longrightarrow> j = 0"
    using g m(1,3) that by (cases "ms_get st") (auto simp: MGET_def)
  show "has_flag n M_EXT = False" "has_flag n M_PKTHDR = True" "m_data n = pktdat" "length (m_dat n) = MLEN"
    "ms_bufs st1 = ms_bufs st" "ms_refs st1 = ms_refs st" "get_ok st1" "enough (Suc k) st \<Longrightarrow> enough k st1"
    using n m MGET_enough [OF _ g] by (simp_all add: flag_bits)
qed

lemma set_pktlen_simps [simp]:
  "has_flag (set_pktlen k m) = has_flag m" "wf_mbuf st (set_pktlen k m) = wf_mbuf st m" "mbytes st (set_pktlen k m) = mbytes st m"
  "m_ext (set_pktlen k m) = m_ext m" "ph_len (m_pkthdr (set_pktlen k m)) = k" "m_len (set_pktlen k m) = m_len m"
  by (simp_all add: set_pktlen_def wf_mbuf_def has_flag_def fun_eq_iff mbytes_def mbuffer_def)

lemma split_ok_set_pktlen:
  "split_ok st ms len st' (p # ps) b \<Longrightarrow> b \<noteq> [] \<Longrightarrow> split_ok st ms len st' (set_pktlen k p # ps) b"
  by (simp add: split_ok_def)

text \<open>The tail begins in a large mbuf: a header mbuf of its own, and the rest of that mbuf.\<close>

lemma split_ok_header:
  assumes "split_ok st1 (m # rest) l st2 ms2 (t # ts)" "pre \<noteq> []" "l + length (cbytes st1 pre) = len" "l \<le> m_len m"
    and "ms_bufs st1 = ms_bufs st" "ms_refs st1 = ms_refs st" "\<forall>x \<in> set pre. wf_mbuf st1 x" "wf_mbuf st1 m"
    and "\<forall>x \<in> set (tl (pre @ m # rest)). \<not> has_flag x M_PKTHDR" "has_flag (hd pre) M_PKTHDR"
    and "wf_mbuf st1 n" "\<not> has_flag n M_EXT" "has_flag n M_PKTHDR" "m_len n = 0"
  shows "split_ok st (pre @ m # rest) len st2 (pre @ ms2) (n # t # ts)"
proof -
  obtain p ps where p: "pre = p # ps" using assms(2) by (cases pre) auto
  have h: "ms2 \<noteq> []" "has_flag (hd ms2) = has_flag m" "\<forall>x \<in> set (tl ms2 @ ts). \<not> has_flag x M_PKTHDR"
    "has_flag t M_PKTHDR = has_flag m M_PKTHDR" "cbytes st2 ms2 = take l (cbytes st1 (m # rest))"
    "cbytes st2 (t # ts) = drop l (cbytes st1 (m # rest))" "ms_bufs st2 = ms_bufs st1"
    using assms(1) by (simp_all add: split_ok_def)
  have nm: "\<not> has_flag m M_PKTHDR" using assms(9) p by simp
  have "\<forall>x \<in> set ms2. \<not> has_flag x M_PKTHDR" using h(1-3) nm by (cases ms2) auto
  then have hs: "\<forall>x \<in> set (tl (pre @ ms2) @ t # ts). \<not> has_flag x M_PKTHDR" using h nm assms(9) p by auto
  have cb: "cbytes st2 = cbytes st1" "cbytes st1 = cbytes st" "mbytes st2 n = []"
    using cbytes_cong [OF h(7)] cbytes_cong [OF assms(5)] assms(14) by (simp_all add: mbytes_def)
  have w: "wf_mbuf st2 = wf_mbuf st1" by (rule wf_mbuf_cong [OF h(7)])
  have b: "take len (cbytes st (pre @ m # rest)) = cbytes st pre @ take l (cbytes st (m # rest))"
    "drop len (cbytes st (pre @ m # rest)) = drop l (cbytes st (m # rest))"
    using assms(3) [symmetric] unfolding cb(2) by simp_all
  have e: "cbytes st2 = cbytes st" using cb by simp
  have h': "cbytes st ms2 = take l (cbytes st (m # rest))" "cbytes st (t # ts) = drop l (cbytes st (m # rest))"
    using h(5,6) unfolding e cb(2) by blast+
  have "cbytes st2 (pre @ ms2) = take len (cbytes st (pre @ m # rest))" 
    using b(1) h'(1) unfolding e cbytes_simps(3) by simp
  moreover have "cbytes st2 (n # t # ts) = drop len (cbytes st (pre @ m # rest))"
  proof -
    have "cbytes st2 (n # t # ts) = mbytes st2 n @ cbytes st2 (t # ts)" by (rule cbytes_simps(2))
    then show ?thesis unfolding b(2) e h'(2) cb(3) by simp
  qed
  moreover have "ms_refs st2 c + erefs (pre @ m # rest) c = ms_refs st c + erefs ((pre @ ms2) @ n # t # ts) c" for c
  proof -
    have "ms_refs st2 c + erefs (m # rest) c = ms_refs st1 c + erefs (ms2 @ t # ts) c" using assms(1) by (simp only: split_ok_def)
    then show ?thesis using assms(6,12) by simp
  qed
  moreover have "\<forall>x \<in> set ((pre @ ms2) @ n # t # ts). wf_mbuf st2 x"
    using assms(1,7,11) w by (auto simp: split_ok_def)
  ultimately show ?thesis using assms(1,5,10,13) hs p by (simp add: split_ok_def)
qed

text \<open>
  When the cut leaves more than \<open>MHLEN\<close> bytes in an mbuf that holds them itself, \<open>m_split\<close> puts a header mbuf in front of the
  tail and does not set its length, which \<open>MGETHDR\<close> leaves as it is. It is right when the memory happens to have a zero there.
\<close>

definition short_cut :: "mbuf list \<Rightarrow> nat \<Rightarrow> bool" where
  "short_cut ms len \<longleftrightarrow>
     (case split_find len ms of None \<Rightarrow> True | Some (pre, m, rest, l) \<Rightarrow> has_flag m M_EXT \<or> m_len m - l \<le> MHLEN)"

definition fresh_empty :: "mstate \<Rightarrow> bool" where
  "fresh_empty st \<longleftrightarrow> (\<forall>j d. Some (j, d) \<in> set (ms_get st) \<longrightarrow> j = 0)"

lemma m_free_internal: "\<not> has_flag n M_EXT \<Longrightarrow> m_free n st = st"
  by (simp add: m_free_def)

lemma m_split_header:
  assumes "wf_chain st ms" "has_flag (hd ms) M_PKTHDR" "get_ok st" "ms \<noteq> []" "short_cut ms (nat len0) \<or> fresh_empty st"
    and "0 \<le> len0" "len0 < 2 ^ 32" "m_split ms len0 st = (st', f, b)"
  shows "split_ok st ms (nat len0) st' f b \<and> (nat len0 < length (cbytes st ms) \<longrightarrow> enough 2 st \<longrightarrow> b \<noteq> []) \<and>
    (b \<noteq> [] \<longrightarrow> nat len0 \<le> length (cbytes st ms) \<and> ph_len (m_pkthdr (hd f)) = len0 \<and>
       ph_len (m_pkthdr (hd b)) = ph_len (m_pkthdr (hd ms)) - len0)"
proof -
  have wf: "\<forall>m \<in> set ms. wf_mbuf st m" "\<forall>m \<in> set (tl ms). \<not> has_flag m M_PKTHDR"
    using assms(1) by (auto simp: wf_chain_def)
  note u = unat_word_int [OF assms(6,7)]
  note run = assms(8) [unfolded m_split.simps [of ms] u]
  show ?thesis
  proof (cases "split_find (nat len0) ms")
    case None
    then show ?thesis using run split_ok_refl [OF wf assms(3,4)] split_find_None [OF wf(1) None assms(4)] by simp
  next
    case (Some q)
    then obtain pre m rest l where q: "split_find (nat len0) ms = Some (pre, m, rest, l)" by (cases q) auto
    note s = split_find_spec [OF wf(1) q]
    have wm: "wf_mbuf st m" using s wf(1) by auto
    obtain st1 r where g: "MGETHDR (m_type (hd ms)) st = (st1, r)" by (cases "MGETHDR (m_type (hd ms)) st")
    show ?thesis
    proof (cases r)
      case None
      obtain r' where gm: "MGET (m_type (hd ms)) st = (st1, r')" "r' = None"
        using g None by (cases "MGET (m_type (hd ms)) st") (auto simp: MGETHDR_def)
      have "st' = st1" "f = ms" "b = []" using run q assms(2) g None by auto
      then show ?thesis
        using split_ok_refl [OF wf get_ok_MGET [OF assms(3) gm(1)] assms(4)] MGET_frame [OF gm(1)]
          MGET_enough [OF _ gm(1), of 1] gm(2) by (auto simp: numeral_2_eq_2)
    next
      case (Some n0)
      note n = MGETHDR_Some [OF g [unfolded Some] assms(3)]
      let ?n = "n0\<lparr>m_pkthdr := \<lparr>rcvif = rcvif (m_pkthdr (hd ms)), ph_len = ph_len (m_pkthdr (hd ms)) - len0\<rparr>\<rparr>"
      have w1: "\<forall>x \<in> set (pre @ m # rest). wf_mbuf st1 x" using wf(1) s wf_mbuf_cong [OF n(5)] by simp
      have t: "\<forall>x \<in> set (tl (pre @ m # rest)). \<not> has_flag x M_PKTHDR" using wf(2) s by simp
      have ln: "nat len0 = length (cbytes st1 pre) + l" using s cbytes_cong [OF n(5)] by simp
      have le: "nat len0 \<le> length (cbytes st ms)" using s length_mbytes [OF wm] by simp
      show ?thesis
      proof (cases "\<not> has_flag m M_EXT \<and> m_len m - l > MHLEN")
        case True
        have fresh: "fresh_empty st" using assms(5) True q by (simp add: short_cut_def)
        have "\<not> has_flag m M_PKTHDR" using True wm by (auto simp: wf_mbuf_def MHLEN_def MLEN_def pktdat_def)
        then obtain p ps where p: "pre = p # ps" using s assms(2) by (cases pre) auto
        have hp: "has_flag (hd pre) M_PKTHDR" using p s assms(2) by simp
        obtain st2 ms2 b2 where r: "m_split (m # rest) (int l) st1 = (st2, ms2, b2)" by (cases "m_split (m # rest) (int l) st1")
        have "length (cbytes st1 (m # rest)) \<ge> m_len m" using w1 length_mbytes [of st1 m] by simp
        moreover have "l < m_len m" using True by linarith
        ultimately have lt: "l < length (cbytes st1 (m # rest))" by linarith
        have "m_len m \<le> MLEN" using True wm by (auto simp: wf_mbuf_def)
        then have l32: "int l < 2 ^ 32" using s by (simp add: MLEN_def)
        have i: "split_ok st1 (m # rest) l st2 ms2 b2 \<and> (enough 1 st1 \<longrightarrow> b2 \<noteq> [])"
          using m_split_plain [OF _ _ n(7) _ _ l32 r] w1 t p lt by simp
        show ?thesis
        proof (cases b2)
          case Nil
          have "st' = st2" "f = ms" "b = []" using run q assms(2) g Some True p r Nil m_free_internal [of ?n] n(1) by auto
          moreover have "ms2 = m # rest" using i Nil by (simp add: split_ok_def)
          then have "ms_bufs st2 = ms_bufs st" "ms_refs st2 = ms_refs st" "get_ok st2" using i Nil n(5,6) by (auto simp: split_ok_def)
          ultimately show ?thesis using split_ok_refl [OF wf _ assms(4)] i Nil n(9) [of 1] by (auto simp: numeral_2_eq_2)
        next
          case (Cons x ts)
          let ?h = "MH_ALIGN 0 ?n"
          have o: "st' = st2" "f = set_pktlen len0 p # ps @ ms2" "b = ?h # x # ts"
            using run q assms(2) g Some True p r Cons by auto
          have "split_ok st (pre @ m # rest) (nat len0) st2 (pre @ ms2) (?h # x # ts)"
          proof (rule split_ok_header)
            show "split_ok st1 (m # rest) l st2 ms2 (x # ts)" using i Cons by simp
            show "wf_mbuf st1 ?h" using n by (simp add: MH_ALIGN_def wf_mbuf_def fresh_empty_def pktdat_def MHLEN_def MLEN_def
                  long_align_def n(8) [OF fresh [unfolded fresh_empty_def]])
            show "m_len ?h = 0" using n(8) [OF fresh [unfolded fresh_empty_def]] by (simp add: MH_ALIGN_def)
          qed (use p ln s w1 t hp n in \<open>simp_all add: MH_ALIGN_def\<close>)
          then have "split_ok st ms (nat len0) st' f b"
            using split_ok_set_pktlen [of st ms "nat len0" st2 p "ps @ ms2" "?h # x # ts" len0] s p o by simp
          then show ?thesis using o le by (simp add: MH_ALIGN_def)
        qed
      next
        case False
        let ?k = "if has_flag m M_EXT then ?n else MH_ALIGN (m_len m - l) ?n"
        obtain m' n' where r: "split_mbuf m l ?k st1 = (st', m', n')"
          "f = (case pre of [] \<Rightarrow> [set_pktlen len0 m'] | p # ps \<Rightarrow> set_pktlen len0 p # ps @ [m'])" "b = n' # rest"
          using run q assms(2) g Some False by (auto simp: Let_def split: prod.splits)
        have k: "\<not> has_flag ?k M_EXT" "length (m_dat ?k) = MLEN" "has_flag ?k M_PKTHDR" "pktdat \<le> m_data ?k"
          "ph_len (m_pkthdr ?k) = ph_len (m_pkthdr (hd ms)) - len0"
          using n by (simp_all add: MH_ALIGN_def)
        have room: "m_data ?k + (m_len m - l) \<le> MLEN" if "\<not> has_flag m M_EXT"
          using False that n(3) long_align_le [of "MHLEN - (m_len m - l)"]
          by (simp add: MH_ALIGN_def pktdat_def MHLEN_def MLEN_def)
        have h: "has_flag ?k M_PKTHDR = has_flag (hd (pre @ [m])) M_PKTHDR"
          using k(3) assms(2) s by (cases pre) simp_all
        have ll: "l \<le> m_len m" using s by simp
        note sp = split_at_ok [OF r(1) w1 ll n(5,6,7) k(1,2) room k(4) h t ln]
        have "split_ok st ms (nat len0) st' f b"
          using sp(1) split_ok_set_pktlen [of st ms "nat len0" st' _ _ b len0] s r(2,3) by (cases pre) auto
        moreover have "ph_len (m_pkthdr (hd f)) = len0" using r(2) by (cases pre) simp_all
        moreover have "ph_len (m_pkthdr n') = ph_len (m_pkthdr (hd ms)) - len0" using sp(2) k(5) by simp
        ultimately show ?thesis using le r(3) by simp
      qed
    qed
  qed
qed

text \<open>Both branches together, and the way back with \<open>m_cat\<close>.\<close>

lemma m_split_result:
  assumes "wf_chain st ms" "get_ok st" "ms \<noteq> []" "has_flag (hd ms) M_PKTHDR \<Longrightarrow> short_cut ms (nat len0) \<or> fresh_empty st" "0 \<le> len0" "len0 < 2 ^ 32" "m_split ms len0 st = (st', f, b)"
  shows "split_ok st ms (nat len0) st' f b" "nat len0 < length (cbytes st ms) \<Longrightarrow> enough 2 st \<Longrightarrow> b \<noteq> []"
    "pkt_ok st ms \<Longrightarrow> pkt_ok st' f \<and> pkt_ok st' b"
proof -
  have wf: "\<forall>m \<in> set ms. wf_mbuf st m" "\<forall>m \<in> set (tl ms). \<not> has_flag m M_PKTHDR"
    using assms(1) by (auto simp: wf_chain_def)
  have "split_ok st ms (nat len0) st' f b \<and> (nat len0 < length (cbytes st ms) \<longrightarrow> enough 2 st \<longrightarrow> b \<noteq> []) \<and>
    (pkt_ok st ms \<longrightarrow> pkt_ok st' f \<and> pkt_ok st' b)"
  proof (cases "has_flag (hd ms) M_PKTHDR")
    case True
    note h = m_split_header [OF assms(1) True assms(2,3) assms(4) [OF True] assms(5-7)]
    then show ?thesis using True assms(3,5) cbytes_cong [of st' st] by (cases "b = []") (auto simp: split_ok_def pkt_ok_def)
  next
    case False
    then have "\<forall>m \<in> set ms. \<not> has_flag m M_PKTHDR" using wf(2) assms(3) by (cases ms) auto
    moreover have "enough 2 st \<Longrightarrow> enough 1 st"
      using set_take_subset_set_take [of 1 2 "ms_get st"] by (auto simp: enough_def simp del: One_nat_def)
    ultimately show ?thesis using m_split_plain [OF wf(1) _ assms(2,3,5-7)] False
      by (auto simp: split_ok_def pkt_ok_def)
  qed
  then show "split_ok st ms (nat len0) st' f b" "nat len0 < length (cbytes st ms) \<Longrightarrow> enough 2 st \<Longrightarrow> b \<noteq> []"
    "pkt_ok st ms \<Longrightarrow> pkt_ok st' f \<and> pkt_ok st' b" by auto
qed

lemma split_ok_refs:
  assumes "wf_chain st ms" "split_ok st ms len st' f b"
  shows "erefs (f @ b) c \<le> ms_refs st' c" "wf_chain st' f" "wf_chain st' b"
proof -
  have e: "erefs (f @ b) c \<le> ms_refs st' c" for c
  proof -
    have "erefs ms c \<le> ms_refs st c" using assms(1) by (simp add: wf_chain_def)
    moreover have "ms_refs st' c + erefs ms c = ms_refs st c + erefs (f @ b) c" using assms(2) by (simp only: split_ok_def)
    ultimately show ?thesis by linarith
  qed
  then show "erefs (f @ b) c \<le> ms_refs st' c" .
  have "erefs f c \<le> ms_refs st' c \<and> erefs b c \<le> ms_refs st' c" for c using e [of c] by simp
  then show "wf_chain st' f" "wf_chain st' b" using assms(2) by (auto simp: split_ok_def wf_chain_def)
qed

lemma split_cat:
  assumes "wf_chain st ms" "split_ok st ms len st' f b"
  shows "\<exists>st'' ms''. m_cat f b st' = Some (st'', ms'') \<and> wf_bufs st'' ms'' \<and> cbytes st'' ms'' = cbytes st ms"
proof -
  have "wf_bufs st' (f @ b)" "f \<noteq> []"
    using split_ok_refs(1) [OF assms] assms(2) by (auto simp: wf_bufs_def split_ok_def simp del: erefs_simps)
  from m_cat_result [OF this] show ?thesis using split_ok_bytes [OF assms(2)] by metis
qed

subsection \<open>Pulling up\<close>

text \<open>Bytes appended to an mbuf that holds its data itself.\<close>

lemma append_dat:
  assumes "wf_mbuf st m" "\<not> has_flag m M_EXT" "m_data m + m_len m + length src \<le> MLEN" "k = m_len m + length src"
  shows "mbytes st' ((put_dat m (m_data m + m_len m) src)\<lparr>m_len := k\<rparr>) = mbytes st m @ src"
    "wf_mbuf st' ((put_dat m (m_data m + m_len m) src)\<lparr>m_len := k\<rparr>)"
proof -
  have ldat: "length (m_dat m) = MLEN" using assms(1) by (simp add: wf_mbuf_def)
  have "m_data m + m_len m + length src \<le> length (m_dat m)" using assms(3) ldat by simp
  then show "wf_mbuf st' ((put_dat m (m_data m + m_len m) src)\<lparr>m_len := k\<rparr>)"
    using assms ldat by (simp add: wf_mbuf_def)
  have "take (m_len m + length src) (drop (m_data m) (bcopy_to src (m_dat m) (m_data m + m_len m))) =
      take (m_len m) (drop (m_data m) (m_dat m)) @ src"
    using assms(3) ldat by (cases src) (auto simp: bcopy_to_def take_drop min_def add.commute)
  then show "mbytes st' ((put_dat m (m_data m + m_len m) src)\<lparr>m_len := k\<rparr>) = mbytes st m @ src"
    using assms(2,4) by (simp add: mbytes_def mbuffer_def)
qed

text \<open>
  The state of the loop: the chain is still the string \<open>B\<close>, its first mbuf holds its own
  data and has the header of \<open>m0\<close>, \<open>len\<close> bytes are missing to \<open>L\<close>, and references are counted.
\<close>

type_synonym pull_env = "nat \<times> mstate \<times> u8 list \<times> int \<times> mbuf \<times> (nat \<Rightarrow> nat \<Rightarrow> bool)"

definition pull_core :: "pull_env \<Rightarrow> mbuf \<times> mbuf list \<times> int \<times> mstate \<Rightarrow> bool" where
  "pull_core = (\<lambda>(mph, st0, B, L, m0, C) (m, ns, len, st).
     len + int (m_len m) = L \<and> wf_mbuf st m \<and> (\<forall>x \<in> set ns. wf_mbuf st x \<and> \<not> has_flag x M_PKTHDR) \<and> \<not> has_flag m M_EXT \<and>
     mbytes st m @ cbytes st ns = B \<and> ms_bufs st = ms_bufs st0 \<and> has_flag m = has_flag m0 \<and> m_pkthdr m = m_pkthdr m0 \<and>
     (\<forall>c a. C c a \<longrightarrow> erefs ns c + a \<le> ms_refs st c))"

definition pull_inv :: "pull_env \<Rightarrow> mbuf \<times> mbuf list \<times> int \<times> nat \<times> mstate \<Rightarrow> bool" where
  "pull_inv = (\<lambda>e (m, ns, len, space, st).
     pull_core e (m, ns, len, st) \<and> ns \<noteq> [] \<and> 0 < len \<and> len \<le> int space \<and> m_data m + m_len m + space = MLEN)"

definition pull_good :: "pull_env \<Rightarrow> mbuf \<times> mbuf list \<times> int \<times> mstate \<Rightarrow> bool" where
  "pull_good e = (\<lambda>(m, ns, len, st). pull_core e (m, ns, len, st) \<and> (0 < len \<longrightarrow> ns = []))"

lemma append_take_drop: "take k xs @ drop k xs @ ys = xs @ ys"
  by (simp flip: append_assoc)

lemma pullup_step_spec:
  assumes "pull_inv (mph, st0, B, L, m0, C) (m, ns, len, space, st)"
  shows "case pullup_step mph (m, ns, len, space, st) of
      Inl s \<Rightarrow> pull_inv (mph, st0, B, L, m0, C) s \<and> length (fst (snd s)) < length ns
    | Inr r \<Rightarrow> pull_good (mph, st0, B, L, m0, C) r"
proof -
  let ?e = "(mph, st0, B, L, m0, C)"
  have i: "len + int (m_len m) = L" "wf_mbuf st m" "\<forall>x \<in> set ns. wf_mbuf st x \<and> \<not> has_flag x M_PKTHDR" "\<not> has_flag m M_EXT"
    "mbytes st m @ cbytes st ns = B" "ms_bufs st = ms_bufs st0" "has_flag m = has_flag m0" "m_pkthdr m = m_pkthdr m0"
    "\<And>c a. C c a \<Longrightarrow> erefs ns c + a \<le> ms_refs st c" "ns \<noteq> []" "0 < len" "len \<le> int space" "m_data m + m_len m + space = MLEN"
    using assms by (auto simp: pull_inv_def pull_core_def)
  obtain n rest where n: "ns = n # rest" using i(10) by (cases ns) auto
  have wn: "wf_mbuf st n" using i(3) n by simp
  define count where "count = nat (min (min (max len (int mph)) (int space)) (int (m_len n)))"
  have c: "count \<le> space" "count \<le> m_len n" by (auto simp: count_def)
  have last: "len \<le> int count \<or> count = m_len n" using i(12) by (auto simp: count_def min_def max_def)
  have src: "length (take count (mbytes st n)) = count" using c(2) length_mbytes [OF wn] by simp
  define m' where "m' = (put_dat m (m_data m + m_len m) (take count (mbytes st n)))\<lparr>m_len := m_len m + count\<rparr>"
  have m': "mbytes st' m' = mbytes st m @ take count (mbytes st n)" "wf_mbuf st' m'" for st'
    using append_dat [OF i(2,4), of "take count (mbytes st n)" "m_len m + count"] c(1) i(13) src by (simp_all add: m'_def)
  have f: "has_flag m' = has_flag m" "m_pkthdr m' = m_pkthdr m" "m_len m' = m_len m + count" "m_data m' = m_data m"
    by (simp_all add: m'_def fun_eq_iff)
  define q where "q = (if m_len n - count \<noteq> 0 then (n\<lparr>m_data := m_data n + count, m_len := m_len n - count\<rparr> # rest, st)
    else (rest, m_free n st))"
  obtain ns' st' where q: "q = (ns', st')" by (cases q)
  have core: "pull_core ?e (m', ns', len - int count, st')"
  proof (cases "m_len n - count \<noteq> 0")
    case True
    then have e: "ns' = n\<lparr>m_data := m_data n + count, m_len := m_len n - count\<rparr> # rest" "st' = st" using q q_def by auto
    show ?thesis
      using i n m' f wf_trim(1) [OF wn c(2)] mbytes_trim(1) [OF c(2), of st] unfolding pull_core_def e by (simp add: append_take_drop)
  next
    case False
    then have e: "ns' = rest" "st' = m_free n st" using q q_def by auto
    have b: "ms_bufs (m_free n st) = ms_bufs st" by (rule m_free_spec)
    have "erefs rest x + a \<le> ms_refs (m_free n st) x" if "C x a" for x a
      using i(9) [OF that] n by (auto simp: m_free_spec(3))
    moreover have "take count (mbytes st n) = mbytes st n" using False c length_mbytes [OF wn] by simp
    ultimately show ?thesis
      using i n m' f wf_mbuf_cong [OF b] cbytes_cong [OF b] b unfolding pull_core_def e by simp
  qed
  have step: "pullup_step mph (m, ns, len, space, st) =
      (if len - int count > 0 \<and> ns' \<noteq> [] then Inl (m', ns', len - int count, space - count, st') else Inr (m', ns', len - int count, st'))"
    using q unfolding q_def m'_def count_def n pullup_step_def by (simp add: Let_def split del: if_split)
  show ?thesis
  proof (cases "len - int count > 0 \<and> ns' \<noteq> []")
    case True
    then have "ns' = rest" using last q q_def by auto
    then have "pull_inv ?e (m', ns', len - int count, space - count, st') \<and> length ns' < length ns"
      using core True c i(12,13) f n by (auto simp: pull_inv_def)
    then show ?thesis using step True by simp
  next
    case False
    then have "pull_good ?e (m', ns', len - int count, st')" using core by (auto simp: pull_good_def)
    then show ?thesis using step False by auto
  qed
qed

definition pull_rank :: "pull_env \<Rightarrow> mbuf \<times> mbuf list \<times> int \<times> nat \<times> mstate \<Rightarrow> nat" where
  "pull_rank e s = length (fst (snd s))"

interpretation pull: forward_machine "\<lambda>e. pullup_step (fst e)" pull_inv pull_rank pull_good
proof
  fix e :: pull_env and s :: "mbuf \<times> mbuf list \<times> int \<times> nat \<times> mstate"
  obtain mph st0 B L m0 C where e: "e = (mph, st0, B, L, m0, C)" by (cases e)
  obtain m ns len space st where s: "s = (m, ns, len, space, st)" by (cases s)
  {
    assume "pull_inv e s"
    note p = pullup_step_spec [OF this [unfolded e s]]
    show "pull_inv e s'" if "pullup_step (fst e) s = Inl s'" for s' using p that by (simp add: e s)
    show "pull_rank e s' < pull_rank e s" if "pullup_step (fst e) s = Inl s'" for s'
      using p that by (simp add: e s pull_rank_def)
    show "pull_good e r" if "pullup_step (fst e) s = Inr r" for r using p that by (simp add: e s)
  }
qed

text \<open>The loop, and what is returned after it.\<close>

definition pulled :: "mstate \<Rightarrow> mbuf list \<Rightarrow> int \<Rightarrow> mstate \<Rightarrow> mbuf list \<Rightarrow> bool" where
  "pulled st ms len st' ms' \<longleftrightarrow> ms' \<noteq> [] \<and> wf_chain st' ms' \<and> cbytes st' ms' = cbytes st ms \<and> ms_bufs st' = ms_bufs st \<and>
     \<not> has_flag (hd ms') M_EXT \<and> len \<le> int (m_len (hd ms')) \<and>
     (has_flag (hd ms) M_PKTHDR \<longrightarrow> m_pkthdr (hd ms') = m_pkthdr (hd ms)) \<and>
     has_flag (hd ms') M_PKTHDR = has_flag (hd ms) M_PKTHDR \<and>
     (\<forall>c a. erefs ms c + a \<le> ms_refs st c \<longrightarrow> erefs ms' c + a \<le> ms_refs st' c)"

lemma not_pulled_Nil [simp]: "\<not> pulled st ms len st' []"
  by (simp add: pulled_def)

lemma pull_loop:
  assumes "wf_mbuf st m" "\<forall>x \<in> set ns. wf_mbuf st x \<and> \<not> has_flag x M_PKTHDR" "\<not> has_flag m M_EXT" "ns \<noteq> []"
    and "0 < len" "m_data m + m_len m + space = MLEN" "len \<le> int space"
    and "\<And>c. erefs ns c \<le> ms_refs st c"
  shows "\<exists>m' ns' len' st'. iterate (pullup_step mph) (m, ns, len, space, st) = Some (m', ns', len', st') \<and>
    (len' > 0 \<longleftrightarrow> int (length (mbytes st m @ cbytes st ns)) < len + int (m_len m)) \<and>
    wf_mbuf st' m' \<and> (\<forall>x \<in> set ns'. wf_mbuf st' x \<and> \<not> has_flag x M_PKTHDR) \<and> \<not> has_flag m' M_EXT \<and>
    mbytes st' m' @ cbytes st' ns' = mbytes st m @ cbytes st ns \<and> ms_bufs st' = ms_bufs st \<and> has_flag m' = has_flag m \<and>
    m_pkthdr m' = m_pkthdr m \<and> len' + int (m_len m') = len + int (m_len m) \<and>
    (\<forall>c a. erefs ns c + a \<le> ms_refs st c \<longrightarrow> erefs ns' c + a \<le> ms_refs st' c)"
proof -
  let ?e = "(mph, st, mbytes st m @ cbytes st ns, len + int (m_len m), m, \<lambda>c a. erefs ns c + a \<le> ms_refs st c)"
  have "pull_inv ?e (m, ns, len, space, st)" using assms by (simp add: pull_inv_def pull_core_def)
  from pull.returns [OF this] obtain m' ns' len' st' where
    r: "iterate (pullup_step mph) (m, ns, len, space, st) = Some (m', ns', len', st')" "pull_good ?e (m', ns', len', st')"
    by auto
  have g: "len' + int (m_len m') = len + int (m_len m)" "wf_mbuf st' m'"
    "\<forall>x \<in> set ns'. wf_mbuf st' x \<and> \<not> has_flag x M_PKTHDR" "\<not> has_flag m' M_EXT"
    "mbytes st' m' @ cbytes st' ns' = mbytes st m @ cbytes st ns" "ms_bufs st' = ms_bufs st" "has_flag m' = has_flag m"
    "m_pkthdr m' = m_pkthdr m" "\<forall>c a. erefs ns c + a \<le> ms_refs st c \<longrightarrow> erefs ns' c + a \<le> ms_refs st' c" "0 < len' \<longrightarrow> ns' = []"
    using r(2) assms(3) by (simp_all add: pull_good_def pull_core_def)
  have "length (mbytes st' m') = m_len m'" using g(2) by (rule length_mbytes)
  then have "length (mbytes st m @ cbytes st ns) = m_len m' + length (cbytes st' ns')" using arg_cong [OF g(5), of length] by simp
  moreover have "0 < len' \<Longrightarrow> cbytes st' ns' = []" using g(10) by simp
  ultimately have "len' > 0 \<longleftrightarrow> int (length (mbytes st m @ cbytes st ns)) < len + int (m_len m)" using g(1) by fastforce
  then show ?thesis using r(1) g by blast
qed

text \<open>After the loop: the chain, or nothing when there are fewer than \<open>len\<close> bytes.\<close>

lemma pull_done:
  assumes "wf_mbuf st m" "\<forall>x \<in> set ns. wf_mbuf st x \<and> \<not> has_flag x M_PKTHDR" "\<not> has_flag m M_EXT" "ns \<noteq> []"
    and "0 < len" "int (m_data m + m_len m) + len \<le> int MLEN" "\<And>c. erefs ns c \<le> ms_refs st c"
    and "mbytes st m @ cbytes st ns = cbytes st0 ms" "ms_bufs st = ms_bufs st0" "ms_refs st = ms_refs st0" "erefs ns = erefs ms"
    and "has_flag (hd ms) M_PKTHDR \<Longrightarrow> m_pkthdr m = m_pkthdr (hd ms)" "has_flag m M_PKTHDR = has_flag (hd ms) M_PKTHDR"
    and "run = (case iterate (pullup_step mph) (m, ns, len, MLEN - (m_data m + m_len m), st) of
              None \<Rightarrow> None
            | Some (m', ns', len', st') \<Rightarrow>
                Some (if len' > 0 then (m_freem ns' (m_free m' st'), []) else (st', m' # ns')))"
    and "len + int (m_len m) = L"
  shows "\<exists>st' ms'. run = Some (st', ms') \<and>
    (if int (length (cbytes st0 ms)) < L then ms' = [] else pulled st0 ms L st' ms')"
proof -
  have sp: "m_data m + m_len m + (MLEN - (m_data m + m_len m)) = MLEN" "len \<le> int (MLEN - (m_data m + m_len m))"
    using assms(5,6) by auto
  obtain m' ns' len' st' where r: "iterate (pullup_step mph) (m, ns, len, MLEN - (m_data m + m_len m), st) = Some (m', ns', len', st')"
    "len' > 0 \<longleftrightarrow> int (length (mbytes st m @ cbytes st ns)) < len + int (m_len m)" "wf_mbuf st' m'"
    "\<forall>x \<in> set ns'. wf_mbuf st' x \<and> \<not> has_flag x M_PKTHDR" "\<not> has_flag m' M_EXT"
    "mbytes st' m' @ cbytes st' ns' = mbytes st m @ cbytes st ns" "ms_bufs st' = ms_bufs st" "has_flag m' = has_flag m"
    "m_pkthdr m' = m_pkthdr m" "len' + int (m_len m') = len + int (m_len m)"
    "\<forall>c a. erefs ns c + a \<le> ms_refs st c \<longrightarrow> erefs ns' c + a \<le> ms_refs st' c"
    using pull_loop [OF assms(1-5) sp assms(7), of mph] by blast
  show ?thesis
  proof (cases "len' > 0")
    case True
    then show ?thesis using r(1,2) assms(8,14,15) by auto
  next
    case False
    have "erefs ns' c \<le> ms_refs st' c" for c using r(11) assms(7) [of c] by (metis add.right_neutral)
    then have "wf_chain st' (m' # ns')" using r(3,4,5) by (simp add: wf_chain_def)
    moreover have "\<forall>c a. erefs ms c + a \<le> ms_refs st0 c \<longrightarrow> erefs (m' # ns') c + a \<le> ms_refs st' c"
      using r(5,11) assms(10,11) by simp
    ultimately have "pulled st0 ms L st' (m' # ns')"
      using False r(5-10) assms(8,9,12,13,15) by (simp add: pulled_def)
    moreover have "run = Some (st', m' # ns')" using assms(14) r(1) False by simp
    ultimately show ?thesis using False r(2) assms(8,15) by auto
  qed
qed


lemma flag_clear:
  "has_flag (n\<lparr>m_flags := m_flags n AND NOT M_PKTHDR\<rparr>) M_EXT = has_flag n M_EXT"
  "\<not> has_flag (n\<lparr>m_flags := m_flags n AND NOT M_PKTHDR\<rparr>) M_PKTHDR"
  by (simp_all add: flag_bits bit_and_iff bit_not_iff)

lemma clear_simps:
  "wf_mbuf st n \<Longrightarrow> wf_mbuf st (n\<lparr>m_flags := m_flags n AND NOT M_PKTHDR\<rparr>)"
  "mbytes st (n\<lparr>m_flags := m_flags n AND NOT M_PKTHDR\<rparr>) = mbytes st n"
  using flag_clear [of n] by (auto simp: wf_mbuf_def mbytes_def mbuffer_def)

text \<open>Pulling up into a new mbuf.\<close>

lemma pull_new:
  assumes "wf_chain st ms" "get_ok st" "0 < len" "ms = n # rest"
    and "\<not> (\<not> has_flag n M_EXT \<and> int (m_data n) + len < int MLEN \<and> rest \<noteq> [])" "\<not> len > int MHLEN"
    and g: "MGET (m_type n) st = (st1, Some m)"
  shows "\<exists>st' ms'. m_pullup mph ms len st = Some (st', ms') \<and>
    (if int (length (cbytes st ms)) < len then ms' = [] else pulled st ms len st' ms')"
proof -
  note m = MGET_Some [OF g assms(2)]
  have w: "wf_mbuf st n" "\<forall>x \<in> set rest. wf_mbuf st x \<and> \<not> has_flag x M_PKTHDR" "\<And>c. erefs ms c \<le> ms_refs st c"
    using assms(1) by (auto simp: wf_chain_def assms(4))
  let ?n = "n\<lparr>m_flags := m_flags n AND NOT M_PKTHDR\<rparr>"
  define m1 where "m1 = (if has_flag n M_PKTHDR then M_COPY_PKTHDR (m\<lparr>m_len := 0\<rparr>) n else m\<lparr>m_len := 0\<rparr>)"
  define n1 where "n1 = (if has_flag n M_PKTHDR then ?n else n)"
  have m1: "\<not> has_flag m1 M_EXT" "has_flag m1 M_PKTHDR = has_flag n M_PKTHDR" "m_len m1 = 0" "length (m_dat m1) = MLEN"
    "has_flag n M_PKTHDR \<Longrightarrow> m_pkthdr m1 = m_pkthdr n" "m_data m1 = (if has_flag n M_PKTHDR then pktdat else 0)"
    using m by (simp_all add: m1_def)
  then have wf1: "wf_mbuf st1 m1" by (simp add: wf_mbuf_def pktdat_def MHLEN_def MLEN_def)
  have n1: "\<not> has_flag n1 M_PKTHDR" "has_flag n1 M_EXT = has_flag n M_EXT" "m_ext n1 = m_ext n" "wf_mbuf st n1" "mbytes st n1 = mbytes st n"
    using flag_clear [of n] clear_simps [of st n] w(1) by (simp_all add: n1_def)
  note cong = wf_mbuf_cong [OF m(6)] cbytes_cong [OF m(6)] mbytes_cong [OF m(6)]
  have b0: "mbytes st m1 = []" using m1(3) by (simp add: mbytes_def)
  show ?thesis
  proof (rule pull_done)
    show "m_pullup mph ms len st =
        (case iterate (pullup_step mph) (m1, n1 # rest, len, MLEN - (m_data m1 + m_len m1), st1) of
              None \<Rightarrow> None
            | Some (m', ns', len', st') \<Rightarrow>
                Some (if len' > 0 then (m_freem ns' (m_free m' st'), []) else (st', m' # ns')))"
      using assms(5,6) g by (auto simp: m_pullup_def assms(4) m1_def n1_def Let_def)
    show "int (m_data m1 + m_len m1) + len \<le> int MLEN"
      using assms(6) m1(3,6) by (simp add: pktdat_def MHLEN_def MLEN_def split: if_splits)
    show "mbytes st1 m1 @ cbytes st1 (n1 # rest) = cbytes st ms" unfolding cong b0 using n1(5) by (simp add: assms(4))
    show "erefs (n1 # rest) = erefs ms" using n1(2,3) by (simp add: fun_eq_iff assms(4))
    show "wf_mbuf st1 m1" by (rule wf1)
    show "\<forall>x \<in> set (n1 # rest). wf_mbuf st1 x \<and> \<not> has_flag x M_PKTHDR" using w n1 cong(1) by simp
    show "erefs (n1 # rest) c \<le> ms_refs st1 c" for c using w(3) [of c] n1(2,3) m(7) by (simp add: assms(4))
    show "len + int (m_len m1) = len" using m1(3) by simp
    show "has_flag (hd ms) M_PKTHDR \<Longrightarrow> m_pkthdr m1 = m_pkthdr (hd ms)" using m1(5) by (simp add: assms(4))
    show "has_flag m1 M_PKTHDR = has_flag (hd ms) M_PKTHDR" using m1(2) by (simp add: assms(4))
  qed (use assms(3) m1(1) m(6,7) in simp_all)
qed

lemma m_pullup_result:
  assumes "wf_chain st ms" "get_ok st" "ms \<noteq> []" "0 < len"
  shows "\<exists>st' ms'. m_pullup mph ms len st = Some (st', ms') \<and> (ms' \<noteq> [] \<longrightarrow> pulled st ms len st' ms') \<and>
    (enough 1 st \<longrightarrow> len \<le> int MHLEN \<longrightarrow> len \<le> int (length (cbytes st ms)) \<longrightarrow> ms' \<noteq> [])"
proof -
  obtain n rest where ms: "ms = n # rest" using assms(3) by (cases ms) auto
  have w: "wf_mbuf st n" "\<forall>x \<in> set rest. wf_mbuf st x \<and> \<not> has_flag x M_PKTHDR" "\<And>c. erefs ms c \<le> ms_refs st c"
    using assms(1) by (auto simp: wf_chain_def ms)
  show ?thesis
  proof (cases "\<not> has_flag n M_EXT \<and> int (m_data n) + len < int MLEN \<and> rest \<noteq> []")
    case True
    show ?thesis
    proof (cases "int (m_len n) \<ge> len")
      case t: True
      then have "m_pullup mph ms len st = Some (st, ms)" using True by (simp add: m_pullup_def ms)
      moreover have "pulled st ms len st ms" using t True assms by (simp add: pulled_def ms)
      ultimately show ?thesis using assms(3) by blast
    next
      case False
      have "\<exists>st' ms'. m_pullup mph ms len st = Some (st', ms') \<and>
        (if int (length (cbytes st ms)) < len then ms' = [] else pulled st ms len st' ms')"
        by (rule pull_done [of st n rest "len - int (m_len n)" st ms])
          (use True False w in \<open>auto simp: m_pullup_def ms fun_eq_iff Let_def\<close>)
      then show ?thesis by (auto split: if_splits)
    qed
  next
    case False
    show ?thesis
    proof (cases "len > int MHLEN")
      case True
      then have "m_pullup mph ms len st = Some (m_freem ms st, [])" using False by (auto simp: m_pullup_def ms)
      then show ?thesis using True by auto
    next
      case len: False
      obtain st1 r where g: "MGET (m_type n) st = (st1, r)" by (cases "MGET (m_type n) st")
      show ?thesis
      proof (cases r)
        case None
        then have "m_pullup mph ms len st = Some (m_freem ms st1, [])" using False len g by (auto simp: m_pullup_def ms)
        then show ?thesis using MGET_enough [OF _ g, of 0] None by auto
      next
        case (Some m)
        note m = MGET_Some [OF g [unfolded Some] assms(2)]
        show ?thesis using pull_new [OF assms(1,2,4) ms False _ g [unfolded Some], of mph] len by (auto split: if_splits)
      qed
    qed
  qed
qed

subsection \<open>Copying back\<close>

lemma enough_mono: "enough n st \<Longrightarrow> k \<le> n \<Longrightarrow> enough k st"
  using set_take_subset_set_take [of k n "ms_get st"] by (auto simp: enough_def)






text \<open>Only the contents of buffers in \<open>E\<close> change.\<close>

definition kept :: "nat set \<Rightarrow> mstate \<Rightarrow> mstate \<Rightarrow> bool" where
  "kept E st st' \<longleftrightarrow> ms_refs st' = ms_refs st \<and> mclfree st' = mclfree st \<and> (\<forall>c. length (ms_bufs st' c) = length (ms_bufs st c)) \<and>
     (\<forall>c. c \<notin> E \<longrightarrow> ms_bufs st' c = ms_bufs st c)"







lemma kept_bufs: "ms_bufs st' = ms_bufs st \<Longrightarrow> ms_refs st' = ms_refs st \<Longrightarrow> mclfree st' = mclfree st \<Longrightarrow> kept E st st'"
  by (simp add: kept_def)



























subsection \<open>Properties\<close>

text \<open>
  A small packet for the examples: three bytes in a header mbuf, two in an external buffer, one more;
  and memory for five mbufs.
\<close>

definition ex_mbuf :: "u16 \<Rightarrow> nat \<Rightarrow> nat \<Rightarrow> mbuf" where
  "ex_mbuf fl d n = \<lparr>m_data = d, m_len = n, m_type = 1, m_flags = fl, m_pkthdr = \<lparr>rcvif = 0, ph_len = 6\<rparr>, m_ext = 7,
     m_dat = replicate MLEN 1\<rparr>"

definition ex_chain :: "mbuf list" where
  "ex_chain = [ex_mbuf M_PKTHDR 8 3, ex_mbuf M_EXT 1 2, ex_mbuf 0 4 1]"

definition ex_st :: mstate where
  "ex_st = \<lparr>ms_get = replicate 12 (Some (0, replicate MLEN 9)), ms_bufs = (\<lambda>_. [5, 6, 7, 8]), ms_refs = (\<lambda>_. 1), mclfree = []\<rparr>"

lemma ex_flags [simp]:
  "has_flag (ex_mbuf fl d n) M_EXT = bit fl 0" "has_flag (ex_mbuf fl d n) M_PKTHDR = bit fl 1"
  by (simp_all add: flag_bits ex_mbuf_def)

lemma ex_bytes: "cbytes ex_st ex_chain = [1, 1, 1, 6, 7, 1]"
  by (simp add: ex_chain_def mbytes_def mbuffer_def) (simp add: ex_mbuf_def ex_st_def MLEN_def numeral_3_eq_3)

lemma ex_refs: "ms_refs ex_st c = 1"
  by (simp add: ex_st_def)

lemma ex_ok: "wf_chain ex_st ex_chain" "pkt_ok ex_st ex_chain" "get_ok ex_st" "fresh_empty ex_st" "ex_chain \<noteq> []"
  "enough 12 ex_st"
proof -
  show "wf_chain ex_st ex_chain"
    by (simp add: wf_chain_def ex_chain_def wf_mbuf_def) (simp add: ex_mbuf_def ex_st_def MLEN_def MHLEN_def pktdat_def)
  show "pkt_ok ex_st ex_chain" by (simp add: pkt_ok_def ex_bytes) (simp add: ex_chain_def ex_mbuf_def)
qed (simp_all add: ex_st_def ex_chain_def get_ok_def fresh_empty_def enough_def)

text \<open>
  C13: \<open>m_copym\<close> copies: when all of the requested bytes are there, its result is, byte for byte,
  that range of the chain (to the end, for \<open>M_COPYALL\<close>), a well-formed chain whose header has the
  right length; a copy shares external buffers and counts each of them once for every reference; and when there is no memory
  the result is null with every count as it was.
\<close>

theorem m_copym_copies:
  assumes "wf_chain st ms" "get_ok st" "ms \<noteq> []" "0 \<le> off" "0 \<le> len"
    and "len = M_COPYALL \<and> nat off \<le> length (cbytes st ms) \<and> int (length (cbytes st ms)) \<le> M_COPYALL \<or>
      len < M_COPYALL \<and> nat off + nat len \<le> length (cbytes st ms)"
  shows "\<exists>st' ns. m_copym ms off len st = Some (st', ns) \<and> wf_chain st' ns \<and> ms_bufs st' = ms_bufs st \<and>
    (\<forall>c. ms_refs st' c = ms_refs st c + erefs ns c) \<and> (pkt_ok st ms \<longrightarrow> pkt_ok st' ns) \<and>
    (ns \<noteq> [] \<or> enough (length ms) st \<longrightarrow>
       cbytes st' ns = (if len = M_COPYALL then drop (nat off) (cbytes st ms) else take (nat len) (drop (nat off) (cbytes st ms))))"
  using m_copym_result [OF assms] unfolding Let_def by blast

theorem m_copym_copies_witness:
  "\<exists>st' ns. m_copym ex_chain 2 3 ex_st = Some (st', ns) \<and> cbytes st' ns = [1, 6, 7] \<and> ms_refs st' 7 = 1 + erefs ns 7"
proof -
  have "\<exists>st' ns. m_copym ex_chain 2 3 ex_st = Some (st', ns) \<and> wf_chain st' ns \<and> ms_bufs st' = ms_bufs ex_st \<and>
    (\<forall>c. ms_refs st' c = ms_refs ex_st c + erefs ns c) \<and> (pkt_ok ex_st ex_chain \<longrightarrow> pkt_ok st' ns) \<and>
    (ns \<noteq> [] \<or> enough (length ex_chain) ex_st \<longrightarrow>
       cbytes st' ns = (if (3::int) = M_COPYALL then drop (nat 2) (cbytes ex_st ex_chain)
         else take (nat 3) (drop (nat 2) (cbytes ex_st ex_chain))))"
    by (rule m_copym_copies) (simp_all add: ex_ok ex_bytes M_COPYALL_def)
  moreover have "enough (length ex_chain) ex_st" using enough_mono [OF ex_ok(6)] by (simp add: ex_chain_def)
  ultimately show ?thesis by (auto simp: ex_bytes M_COPYALL_def ex_refs)
qed

text \<open>\<open>m_copydata\<close> is the range of the chain, and panics exactly when the range is not inside it.\<close>

theorem m_copydata_range:
  assumes "\<forall>m \<in> set ms. wf_mbuf st m"
  shows "m_copydata ms off len st =
    (if 0 \<le> off \<and> 0 \<le> len \<and> nat off + nat len \<le> length (cbytes st ms)
     then Some (take (nat len) (drop (nat off) (cbytes st ms))) else None)"
  by (rule m_copydata_result [OF assms])

theorem m_copydata_range_witness:
  "m_copydata ex_chain 1 4 ex_st = Some [1, 1, 6, 7] \<and> m_copydata ex_chain 3 4 ex_st = None"
proof -
  have "\<forall>m \<in> set ex_chain. wf_mbuf ex_st m" using ex_ok(1) by (simp add: wf_chain_def)
  note m_copydata_range [OF this]
  from this [of 1 4] this [of 3 4] show ?thesis by (simp add: ex_bytes)
qed

text \<open>
  C23: \<open>m_adj\<close> takes the requested number of bytes off the front of the chain, or off its end when the number is
  negative (all of them when there are not that many), keeps the chain well-formed and its references, and
  keeps the packet length in step.
\<close>

theorem m_adj_trims:
  assumes "wf_chain st mp"
  shows "wf_chain st (m_adj mp n) \<and>
    cbytes st (m_adj mp n) =
      (if n \<ge> 0 then drop (nat n) (cbytes st mp) else take (length (cbytes st mp) - nat (- n)) (cbytes st mp)) \<and>
    (pkt_ok st mp \<longrightarrow> pkt_ok st (m_adj mp n)) \<and> erefs (m_adj mp n) = erefs mp"
  using m_adj_result [OF assms, of n] by (simp add: adj_bytes_def)

theorem m_adj_trims_witness:
  "cbytes ex_st (m_adj ex_chain 4) = [7, 1] \<and> cbytes ex_st (m_adj ex_chain (- 2)) = [1, 1, 1, 6]"
  using m_adj_trims [OF ex_ok(1), of 4] m_adj_trims [OF ex_ok(1), of "- 2"] by (simp add: ex_bytes)

text \<open>
  C10: \<open>m_split\<close> cuts a packet in two, both well-formed with the right lengths in
  their headers, and \<open>m_cat\<close> puts the bytes together again. The memory suffices, the cut is inside the packet, and, for a chain with a packet header,
  the mbuf that is cut has an external buffer or at most \<open>MHLEN\<close> bytes after the cut (otherwise
  the tail begins with a length that is never set, \<open>m_split_uninitialised\<close>).
\<close>

theorem m_split_cat:
  assumes "wf_chain st ms" "pkt_ok st ms" "get_ok st" "ms \<noteq> []" "has_flag (hd ms) M_PKTHDR \<longrightarrow> short_cut ms (nat len)" "enough 2 st"
    and "0 \<le> len" "nat len < length (cbytes st ms)" "len < 2 ^ 31"
  shows "\<exists>st' f b st'' ms''. m_split ms len st = (st', f, b) \<and>
    cbytes st' f = take (nat len) (cbytes st ms) \<and> cbytes st' b = drop (nat len) (cbytes st ms) \<and>
    wf_chain st' f \<and> wf_chain st' b \<and> pkt_ok st' f \<and> pkt_ok st' b \<and>
    m_cat f b st' = Some (st'', ms'') \<and> cbytes st'' ms'' = cbytes st ms"
proof -
  obtain st' f b where s: "m_split ms len st = (st', f, b)" by (cases "m_split ms len st")
  have "len < 2 ^ 32" using assms(9) by simp
  note r = m_split_result [OF assms(1,3,4) _ assms(7) this s]
  show ?thesis using s r(2) [OF _ assms(8,6)] r(1) r(3) [OF _ assms(2)] split_ok_refs(2,3) [OF assms(1) r(1)] split_cat [OF assms(1) r(1)] assms(5)
    by (auto simp: split_ok_def)
qed

theorem m_split_cat_witness:
  "\<exists>st' f b st'' ms''. m_split ex_chain 4 ex_st = (st', f, b) \<and> cbytes st' f = [1, 1, 1, 6] \<and> cbytes st' b = [7, 1] \<and>
     m_cat f b st' = Some (st'', ms'') \<and> cbytes st'' ms'' = [1, 1, 1, 6, 7, 1]"
proof -
  have "short_cut ex_chain (nat 4)" by code_simp
  then show ?thesis using m_split_cat [OF ex_ok(1,2,3,5) _ enough_mono [OF ex_ok(6)], of 4] by (auto simp: ex_bytes)
qed

text \<open>
  C21: \<open>m_pullup\<close> returns the same bytes with the first \<open>len\<close> of them in
  the data area of the first mbuf, or null; it does not fail when there is an mbuf to be had, the
  chain has that many bytes and they fit in a header mbuf.
\<close>

theorem m_pullup_contiguous:
  assumes "wf_chain st ms" "get_ok st" "ms \<noteq> []" "0 < len"
  shows "\<exists>st' ms'. m_pullup mph ms len st = Some (st', ms') \<and>
    (ms' = [] \<or> wf_chain st' ms' \<and> cbytes st' ms' = cbytes st ms \<and> \<not> has_flag (hd ms') M_EXT \<and> len \<le> int (m_len (hd ms')) \<and>
       (pkt_ok st ms \<longrightarrow> pkt_ok st' ms')) \<and>
    (enough 1 st \<and> len \<le> int MHLEN \<and> len \<le> int (length (cbytes st ms)) \<longrightarrow> ms' \<noteq> [])"
proof -
  obtain st' ms' where r: "m_pullup mph ms len st = Some (st', ms')" "ms' \<noteq> [] \<longrightarrow> pulled st ms len st' ms'"
    "enough 1 st \<longrightarrow> len \<le> int MHLEN \<longrightarrow> len \<le> int (length (cbytes st ms)) \<longrightarrow> ms' \<noteq> []"
    using m_pullup_result [OF assms, of mph] by blast
  then show ?thesis using assms(3) by (intro exI [of _ st'] exI [of _ ms']) (auto simp: pulled_def pkt_ok_def)
qed

theorem m_pullup_contiguous_witness:
  "\<exists>st' ms'. m_pullup 0 ex_chain 5 ex_st = Some (st', ms') \<and> cbytes st' ms' = [1, 1, 1, 6, 7, 1] \<and> 5 \<le> m_len (hd ms')"
proof -
  have "enough 1 ex_st" using enough_mono [OF ex_ok(6)] by simp
  then show ?thesis using m_pullup_contiguous [OF ex_ok(1,3,5), of 5 0] by (auto simp: ex_bytes MHLEN_def)
qed



subsection \<open>Limits of copying back\<close>

text \<open>
  Two mbufs of a chain with the same cluster: a write to the first shows in the second. And when there is no memory,
  what does not fit is dropped without notice.
\<close>

lemma m_copyback_shared:
  "case m_copyback [ex_mbuf M_EXT 0 2, ex_mbuf M_EXT 1 2] 0 [2, 3] ex_st of
     (st', ms') \<Rightarrow> cbytes ex_st [ex_mbuf M_EXT 0 2, ex_mbuf M_EXT 1 2] = [5, 6, 6, 7] \<and> cbytes st' ms' = [2, 3, 3, 7]"
  by code_simp

lemma m_copyback_cut_off:
  "case m_copyback [ex_mbuf M_EXT 0 2] 1 [2, 3] (ex_st\<lparr>ms_get := []\<rparr>) of (st', ms') \<Rightarrow> cbytes st' ms' = [5, 2]"
  by code_simp

subsection \<open>A length that is never set\<close>

text \<open>
  Where the tail begins in a mbuf with more than \<open>MHLEN\<close> bytes after the cut, \<open>m_split\<close> puts a header
  mbuf in front whose \<open>m_len\<close> it does not set. With 50 in that field of the fresh mbuf, the tail
  begins with 50 bytes that were never part of the packet, all of them after the end of the data area.
\<close>

theorem m_split_uninitialised:
  "case m_split [ex_mbuf M_PKTHDR 8 3, ex_mbuf 0 0 105] 4 (ex_st\<lparr>ms_get := [Some (50, replicate MLEN 9), Some (0, replicate MLEN 9)]\<rparr>)
   of (st', f, b) \<Rightarrow> cbytes st' f = replicate 4 1 \<and> cbytes st' (tl b) = replicate 104 1 \<and>
       m_data (hd b) = MLEN \<and> m_len (hd b) = 50 \<and> \<not> wf_mbuf st' (hd b)"
  by code_simp

end
