(* ===== verification/Callout.thy ===== *)
theory Callout
  imports Machine "HOL-Library.Signed_Division"
begin

text \<open>
  The timeout queue of \<^verbatim>\<open>sys/kern/kern_clock.c\<close>: \<open>timeout\<close>, \<open>untimeout\<close>, the part of
  \<open>hardclock\<close> that counts the queue down, \<open>softclock\<close>, and \<open>hzto\<close>. The queue \<open>calltodo\<close> is a list
  in which every entry holds the ticks from the entry before it; of the free list \<open>callfree\<close> only the length matters.
  Functions and arguments are numbers. What a function does when it is called is a parameter: the calls of
  \<open>timeout\<close> and \<open>untimeout\<close> it makes, which can depend on everything that was called before. The value \<open>None\<close>
  of an operation is the panic for a full table. The counts are integers: they stay
  below the largest number of ticks that was asked for, and an event would have to be overdue
  for \<open>2 ^ 31\<close> ticks to leave the range of \<open>int\<close>.
\<close>

record callout =
  c_arg :: nat
  c_func :: nat
  c_time :: int

record callstate =
  calltodo :: "callout list"
  callfree :: nat

text \<open>The walk of \<open>timeout\<close> to where the new entry goes.\<close>

fun insert_callout :: "nat \<Rightarrow> nat \<Rightarrow> int \<Rightarrow> callout list \<Rightarrow> callout list" where
  "insert_callout ftn arg ticks [] = [\<lparr>c_arg = arg, c_func = ftn, c_time = ticks\<rparr>]"
| "insert_callout ftn arg ticks (t # ts) =
     (if ticks > c_time t
      then t # insert_callout ftn arg (if c_time t > 0 then ticks - c_time t else ticks) ts
      else \<lparr>c_arg = arg, c_func = ftn, c_time = ticks\<rparr> # t\<lparr>c_time := c_time t - ticks\<rparr> # ts)"

definition timeout :: "nat \<Rightarrow> nat \<Rightarrow> int \<Rightarrow> callstate \<Rightarrow> callstate option" where
  "timeout ftn arg ticks st =
     (let n = (if ticks \<le> 0 then 1 else ticks)
      in if callfree st = 0 then None
         else Some (st\<lparr>callfree := callfree st - 1, calltodo := insert_callout ftn arg n (calltodo st)\<rparr>))"

fun remove_callout :: "nat \<Rightarrow> nat \<Rightarrow> callout list \<Rightarrow> callout list" where
  "remove_callout ftn arg [] = []"
| "remove_callout ftn arg (t # ts) =
     (if c_func t = ftn \<and> c_arg t = arg
      then (case ts of n # ns \<Rightarrow> (if c_time t > 0 then n\<lparr>c_time := c_time n + c_time t\<rparr> else n) # ns | [] \<Rightarrow> [])
      else t # remove_callout ftn arg ts)"

definition untimeout :: "nat \<Rightarrow> nat \<Rightarrow> callstate \<Rightarrow> callstate" where
  "untimeout ftn arg st =
     (if \<exists>t \<in> set (calltodo st). c_func t = ftn \<and> c_arg t = arg
      then st\<lparr>calltodo := remove_callout ftn arg (calltodo st), callfree := callfree st + 1\<rparr> else st)"

text \<open>The loop of \<open>hardclock\<close>: the queue, and whether a software interrupt is needed.\<close>

fun count_down :: "callout list \<Rightarrow> callout list \<times> bool" where
  "count_down [] = ([], False)"
| "count_down (p # ps) =
     (let p1 = p\<lparr>c_time := c_time p - 1\<rparr>
      in if c_time p1 > 0 then (p1 # ps, False)
         else if c_time p1 = 0 then (p1 # ps, True)
         else (p1 # fst (count_down ps), True))"

definition hardclock :: "callstate \<Rightarrow> callstate \<times> bool" where
  "hardclock st = (case count_down (calltodo st) of (q, needsoft) \<Rightarrow> (st\<lparr>calltodo := q\<rparr>, needsoft))"

subsection \<open>Running events\<close>

datatype clock_call = Timeout nat nat int | Untimeout nat nat

fun clock_calls :: "clock_call list \<Rightarrow> callstate \<Rightarrow> callstate option" where
  "clock_calls [] st = Some st"
| "clock_calls (Timeout f a n # cs) st = (case timeout f a n st of None \<Rightarrow> None | Some st' \<Rightarrow> clock_calls cs st')"
| "clock_calls (Untimeout f a # cs) st = clock_calls cs (untimeout f a st)"

text \<open>
  The events called so far, the last one first. \<open>softclock\<close> is the loop when no clock interrupt comes in between; \<open>clock_step\<close> below
  has the interrupts.
\<close>

type_synonym call_log = "(nat \<times> nat) list"

definition softclock_step ::
  "(call_log \<Rightarrow> clock_call list) \<Rightarrow> callstate \<times> call_log \<Rightarrow> callstate \<times> call_log + (callstate \<times> call_log) option" where
  "softclock_step act = (\<lambda>(st, log).
     case calltodo st of
       [] \<Rightarrow> Inr (Some (st, log))
     | c # rest \<Rightarrow>
         if c_time c \<le> 0 then
           let log' = (c_func c, c_arg c) # log
           in (case clock_calls (act log') (st\<lparr>calltodo := rest, callfree := callfree st + 1\<rparr>) of
                 None \<Rightarrow> Inr None
               | Some st' \<Rightarrow> Inl (st', log'))
         else Inr (Some (st, log)))"

definition softclock :: "(call_log \<Rightarrow> clock_call list) \<Rightarrow> callstate \<times> call_log \<Rightarrow> (callstate \<times> call_log) option" where
  "softclock act s = (case iterate (softclock_step act) s of None \<Rightarrow> None | Some r \<Rightarrow> r)"

subsection \<open>Clock interrupts\<close>

text \<open>
  The clock at its interrupts: the queue, the events called so far, whether a software interrupt has been asked for
  (\<open>setsoftclock\<close>), and while \<open>softclock\<close> runs the calls that the function it has called still makes. Between \<open>splx\<close> and
  \<open>splhigh\<close> the clock interrupts \<open>softclock\<close>; then \<open>CLKF_BASEPRI\<close> is false.
\<close>

record clock =
  ck_queue :: callstate
  ck_log :: call_log
  ck_soft :: bool
  ck_run :: "clock_call list option"

datatype clock_action = Clock_Intr bool | Soft_Intr | Soft_Step | Other_Call clock_call

text \<open>
  \<open>Clock_Intr\<close> is \<open>hardclock\<close>, with the value of \<open>CLKF_BASEPRI(frame)\<close>: it runs \<open>softclock\<close> at once or leaves it to the
  software interrupt, \<open>Soft_Intr\<close>. \<open>Soft_Step\<close> is one step of \<open>softclock\<close>: a call that the function makes, or the next turn of
  the loop. \<open>Other_Call\<close> is a call from elsewhere. \<open>None\<close>: the action cannot happen, or it panics.
\<close>

fun clock_step :: "(call_log \<Rightarrow> clock_call list) \<Rightarrow> clock_action \<Rightarrow> clock \<Rightarrow> clock option" where
  "clock_step act (Clock_Intr base) s =
     (case hardclock (ck_queue s) of (q, needsoft) \<Rightarrow>
        if base \<and> ck_run s \<noteq> None then None
        else if \<not> needsoft then Some (s\<lparr>ck_queue := q\<rparr>)
        else if base then Some (s\<lparr>ck_queue := q, ck_run := Some []\<rparr>)
        else Some (s\<lparr>ck_queue := q, ck_soft := True\<rparr>))"
| "clock_step act Soft_Intr s = (if ck_soft s \<and> ck_run s = None then Some (s\<lparr>ck_soft := False, ck_run := Some []\<rparr>) else None)"
| "clock_step act Soft_Step s =
     (case ck_run s of
        None \<Rightarrow> None
      | Some (c # cs) \<Rightarrow> map_option (\<lambda>q. s\<lparr>ck_queue := q, ck_run := Some cs\<rparr>) (clock_calls [c] (ck_queue s))
      | Some [] \<Rightarrow>
          (case calltodo (ck_queue s) of
             [] \<Rightarrow> Some (s\<lparr>ck_run := None\<rparr>)
           | c # rest \<Rightarrow>
               if c_time c \<le> 0 then
                 let log' = (c_func c, c_arg c) # ck_log s
                 in Some (s\<lparr>ck_queue := (ck_queue s)\<lparr>calltodo := rest, callfree := callfree (ck_queue s) + 1\<rparr>,
                           ck_log := log', ck_run := Some (act log')\<rparr>)
               else Some (s\<lparr>ck_run := None\<rparr>)))"
| "clock_step act (Other_Call c) s = map_option (\<lambda>q. s\<lparr>ck_queue := q\<rparr>) (clock_calls [c] (ck_queue s))"

fun clock_run :: "(call_log \<Rightarrow> clock_call list) \<Rightarrow> clock_action list \<Rightarrow> clock \<Rightarrow> clock option" where
  "clock_run act [] s = Some s"
| "clock_run act (a # as) s = (case clock_step act a s of None \<Rightarrow> None | Some s' \<Rightarrow> clock_run act as s')"

subsection \<open>Ticks to an absolute time\<close>

text \<open>
  \<open>hzto\<close> for a time that is \<open>dsec\<close> seconds and \<open>dusec\<close> microseconds away: the arithmetic on \<open>long\<close>s
  wraps at 32 bits, division is that of C, which truncates.
\<close>

definition wrap32 :: "int \<Rightarrow> int" where
  "wrap32 x = sint (word_of_int x :: u32)"

definition hzto :: "int \<Rightarrow> int \<Rightarrow> int \<times> int \<Rightarrow> int \<times> int \<Rightarrow> int" where
  "hzto hz tick = (\<lambda>(now_sec, now_usec) (tv_sec, tv_usec).
     let sec = wrap32 (tv_sec - now_sec)
     in if sec \<le> 0x7fffffff div 1000000 - 1
        then wrap32 (wrap32 (sec * 1000000) + wrap32 (tv_usec - now_usec)) sdiv tick
        else if sec \<le> 0x7fffffff div hz then wrap32 (sec * hz)
        else 0x7fffffff)"

end
