(* ===== verification/Callout_Correct.thy ===== *)
theory Callout_Correct
  imports Callout
begin

text \<open>
  The timeout queue is correct: the differences it holds stand for the time of each event (\<open>dues\<close>), the
  operations do to those times what their names say, and an event is called once, not before the
  tick that was asked for and when \<open>softclock\<close> runs after it.
\<close>

subsection \<open>The times a queue stands for\<close>

text \<open>The ticks to each event, zero or negative when it is due; \<open>a\<close> is the time of the last event that is not.\<close>

fun dues :: "int \<Rightarrow> callout list \<Rightarrow> ((nat \<times> nat) \<times> int) list" where
  "dues a [] = []"
| "dues a (c # cs) = ((c_func c, c_arg c), a + c_time c) # dues (a + max 0 (c_time c)) cs"

text \<open>An event before the first that is not earlier.\<close>

definition insert_due :: "nat \<times> nat \<Rightarrow> int \<Rightarrow> ((nat \<times> nat) \<times> int) list \<Rightarrow> ((nat \<times> nat) \<times> int) list" where
  "insert_due e n q = takeWhile (\<lambda>x. snd x < n) q @ (e, n) # dropWhile (\<lambda>x. snd x < n) q"

definition remove_due :: "nat \<times> nat \<Rightarrow> ((nat \<times> nat) \<times> int) list \<Rightarrow> ((nat \<times> nat) \<times> int) list" where
  "remove_due e q = takeWhile (\<lambda>x. fst x \<noteq> e) q @ tl (dropWhile (\<lambda>x. fst x \<noteq> e) q)"

definition due_sorted :: "((nat \<times> nat) \<times> int) list \<Rightarrow> bool" where
  "due_sorted q \<longleftrightarrow> sorted (map snd q)"

lemma dues_append: "\<exists>b. dues a (cs @ ds) = dues a cs @ dues b ds"
  by (induction cs arbitrary: a) auto

lemma dues_length [simp]: "length (dues a cs) = length cs"
  by (induction cs arbitrary: a) auto

lemma dues_insert: "ticks \<ge> 1 \<Longrightarrow> dues a (insert_callout f arg ticks cs) = insert_due (f, arg) (a + ticks) (dues a cs)"
proof (induction f arg ticks cs arbitrary: a rule: insert_callout.induct)
  case (2 f arg ticks t ts)
  show ?case
  proof (cases "ticks > c_time t")
    case True
    then have "dues (a + max 0 (c_time t)) (insert_callout f arg (if c_time t > 0 then ticks - c_time t else ticks) ts) =
        insert_due (f, arg) (a + ticks) (dues (a + max 0 (c_time t)) ts)"
      using 2 by (cases "c_time t > 0") (auto simp: max_def)
    then show ?thesis using True by (simp add: insert_due_def)
  next
    case False
    then have "max 0 (c_time t) = ticks + max 0 (c_time t - ticks)" using 2(2) by simp
    then show ?thesis using False 2(2) by (simp add: insert_due_def add.assoc)
  qed
qed (simp add: insert_due_def)

lemma dues_count_down: "dues 0 (fst (count_down cs)) = map (\<lambda>(e, n). (e, n - 1)) (dues 0 cs)"
proof -
  have shift: "dues (a - 1) cs = map (\<lambda>(e, n). (e, n - 1)) (dues a cs)" for a and cs
    by (induction cs arbitrary: a) (simp_all add: algebra_simps)
  show ?thesis
  proof (induction cs)
    case (Cons c cs)
    consider "c_time c > 1" | "c_time c = 1" | "c_time c < 1" by linarith
    then show ?case
    proof cases
      case 1
      then show ?thesis using shift [of "c_time c" cs] by (simp add: Let_def)
    next
      case 2
      then show ?thesis using shift [of 1 cs] by (simp add: Let_def)
    qed (use Cons in \<open>simp add: Let_def\<close>)
  qed simp
qed

lemma count_down_soft: "snd (count_down cs) \<longleftrightarrow> cs \<noteq> [] \<and> snd (hd (dues 0 (fst (count_down cs)))) \<le> 0"
  by (cases cs) (auto simp: Let_def)

lemma dues_remove:
  assumes "due_sorted (dues a cs)" "0 \<le> a"
  shows "dues a (remove_callout f arg cs) = remove_due (f, arg) (dues a cs)"
  using assms
proof (induction f arg cs arbitrary: a rule: remove_callout.induct)
  case (2 f arg t ts)
  show ?case
  proof (cases "c_func t = f \<and> c_arg t = arg")
    case True
    show ?thesis
    proof (cases ts)
      case (Cons n ns)
      show ?thesis
      proof (cases "c_time t > 0")
        case pos: True
        then have "0 \<le> c_time n" using 2(2) Cons by (auto simp: due_sorted_def max_def)
        then show ?thesis using True Cons pos by (simp add: remove_due_def max_def add_ac)
      next
        case False
        then show ?thesis using True Cons by (simp add: remove_due_def max_def)
      qed
    qed (use True in \<open>simp add: remove_due_def\<close>)
  next
    case False
    then have "remove_due (f, arg) (dues a (t # ts)) = hd (dues a (t # ts)) # remove_due (f, arg) (dues (a + max 0 (c_time t)) ts)"
      by (auto simp: remove_due_def)
    moreover have "due_sorted (dues (a + max 0 (c_time t)) ts)" using 2(2) by (simp add: due_sorted_def)
    ultimately show ?thesis using False 2 by auto
  qed
qed (simp add: remove_due_def)

lemma insert_due_sorted: "due_sorted q \<Longrightarrow> due_sorted (insert_due e n q)"
  by (induction q) (auto simp: due_sorted_def insert_due_def dest: set_takeWhileD set_dropWhileD)

lemma remove_due_subseq: "\<exists>b. map snd (remove_due e q) = nths (map snd q) b"
proof (induction q)
  case (Cons x q)
  then obtain b where b: "map snd (remove_due e q) = nths (map snd q) b" by blast
  show ?case
  proof (cases "fst x = e")
    case True
    have "map snd q = nths (map snd (x # q)) {i. 0 < i}" by (simp add: nths_Cons nths_all)
    then show ?thesis using True by (auto simp: remove_due_def)
  next
    case False
    have "snd x # nths (map snd q) b = nths (map snd (x # q)) ({0} \<union> Suc ` b)"
      by (simp add: nths_Cons image_iff)
    then show ?thesis using False b by (auto simp: remove_due_def)
  qed
qed (simp add: remove_due_def)

lemma remove_due_sorted: "due_sorted q \<Longrightarrow> due_sorted (remove_due e q)"
  using remove_due_subseq [of e q] by (auto simp: due_sorted_def sorted_nths)

declare split_paired_All [simp del]

subsection \<open>The operations on the times\<close>

definition due :: "callstate \<Rightarrow> ((nat \<times> nat) \<times> int) list" where
  "due st = dues 0 (calltodo st)"

text \<open>A queue in order, and the number of entries in all.\<close>

definition callout_ok :: "callstate \<Rightarrow> bool" where
  "callout_ok st \<longleftrightarrow> due_sorted (due st)"

definition callouts :: "callstate \<Rightarrow> nat" where
  "callouts st = length (calltodo st) + callfree st"

lemma length_insert_callout [simp]: "length (insert_callout f a n q) = Suc (length q)"
  by (induction f a n q rule: insert_callout.induct) auto

lemma length_remove_callout:
  "\<exists>t \<in> set q. c_func t = f \<and> c_arg t = a \<Longrightarrow> Suc (length (remove_callout f a q)) = length q"
proof (induction q)
  case (Cons t ts)
  then show ?case by (cases "c_func t = f \<and> c_arg t = a"; cases ts) auto
qed simp

lemma timeout_spec:
  "timeout f a n st = None \<longleftrightarrow> callfree st = 0"
  "timeout f a n st = Some st' \<Longrightarrow> due st' = insert_due (f, a) (max 1 n) (due st)"
  "timeout f a n st = Some st' \<Longrightarrow> callouts st' = callouts st"
  by (auto simp: timeout_def due_def dues_insert callouts_def max_def Let_def split: if_splits)

lemma dues_events: "fst ` set (dues a q) = (\<lambda>c. (c_func c, c_arg c)) ` set q"
  by (induction q arbitrary: a) auto

lemma remove_due_absent: "e \<notin> fst ` set q \<Longrightarrow> remove_due e q = q"
  by (induction q) (auto simp: remove_due_def)

lemma untimeout_spec:
  assumes "callout_ok st"
  shows "due (untimeout f a st) = remove_due (f, a) (due st)" "callouts (untimeout f a st) = callouts st"
proof -
  show "due (untimeout f a st) = remove_due (f, a) (due st)"
  proof (cases "\<exists>t \<in> set (calltodo st). c_func t = f \<and> c_arg t = a")
    case True
    then show ?thesis using dues_remove [of 0 "calltodo st" f a] assms by (simp add: untimeout_def due_def callout_ok_def)
  next
    case False
    then have "(f, a) \<notin> fst ` set (due st)" by (auto simp: due_def dues_events)
    moreover have "untimeout f a st = st" using False unfolding untimeout_def by (rule if_not_P)
    ultimately show ?thesis by (simp add: remove_due_absent)
  qed
  show "callouts (untimeout f a st) = callouts st"
    using length_remove_callout [of "calltodo st" f a] by (auto simp: untimeout_def callouts_def)
qed

lemma hardclock_spec:
  assumes "hardclock st = (st', soft)"
  shows "due st' = map (\<lambda>(e, n). (e, n - 1)) (due st)" "soft \<longleftrightarrow> due st' \<noteq> [] \<and> snd (hd (due st')) \<le> 0"
    "callouts st' = callouts st"
proof -
  have h: "st' = st\<lparr>calltodo := fst (count_down (calltodo st))\<rparr>" "soft = snd (count_down (calltodo st))"
    using assms by (auto simp: hardclock_def split: prod.splits)
  show e: "due st' = map (\<lambda>(e, n). (e, n - 1)) (due st)" by (simp add: due_def h dues_count_down)
  have "length (fst (count_down (calltodo st))) = length (calltodo st)"
    using arg_cong [OF e, of length] unfolding due_def h by (simp add: case_prod_unfold)
  with e show "callouts st' = callouts st" "soft \<longleftrightarrow> due st' \<noteq> [] \<and> snd (hd (due st')) \<le> 0"
    using count_down_soft [of "calltodo st"] by (auto simp: callouts_def h due_def simp flip: length_greater_0_conv)
qed

subsection \<open>What happens to an event that no function touches\<close>

definition names :: "clock_call \<Rightarrow> nat \<times> nat \<Rightarrow> bool" where
  "names c e \<longleftrightarrow> (case c of Timeout f a n \<Rightarrow> e = (f, a) | Untimeout f a \<Rightarrow> e = (f, a))"

definition pending :: "nat \<times> nat \<Rightarrow> callstate \<Rightarrow> int list" where
  "pending e st = map snd (filter (\<lambda>x. fst x = e) (due st))"

lemma filter_insert_due: "e \<noteq> e' \<Longrightarrow> filter (\<lambda>x. fst x = e) (insert_due e' n q) = filter (\<lambda>x. fst x = e) q"
proof -
  assume "e \<noteq> e'"
  then have "filter (\<lambda>x. fst x = e) (insert_due e' n q) =
      filter (\<lambda>x. fst x = e) (takeWhile (\<lambda>x. snd x < n) q @ dropWhile (\<lambda>x. snd x < n) q)"
    unfolding insert_due_def filter_append by simp
  then show ?thesis by simp
qed

lemma filter_remove_due: "e \<noteq> e' \<Longrightarrow> filter (\<lambda>x. fst x = e) (remove_due e' q) = filter (\<lambda>x. fst x = e) q"
  by (induction q) (auto simp: remove_due_def)

lemma remove_due_late: "length (filter (\<lambda>x. snd x \<le> 0) (remove_due e q)) \<le> length (filter (\<lambda>x. snd x \<le> 0) q)"
  by (induction q) (auto simp: remove_due_def)

lemma insert_due_late: "0 < n \<Longrightarrow> length (filter (\<lambda>x. snd x \<le> 0) (insert_due e n q)) = length (filter (\<lambda>x. snd x \<le> 0) q)"
proof -
  assume "0 < n"
  then have "filter (\<lambda>x. snd x \<le> 0) (insert_due e n q) =
      filter (\<lambda>x. snd x \<le> 0) (takeWhile (\<lambda>x. snd x < n) q @ dropWhile (\<lambda>x. snd x < n) q)"
    unfolding insert_due_def filter_append by simp
  then show ?thesis by simp
qed

definition late :: "callstate \<Rightarrow> nat" where
  "late st = length (filter (\<lambda>x. snd x \<le> 0) (due st))"

lemma clock_calls_spec:
  assumes "clock_calls cs st = Some st'" "callout_ok st"
  shows "callout_ok st' \<and> callouts st' = callouts st \<and> late st' \<le> late st \<and>
    (\<forall>e. (\<forall>c \<in> set cs. \<not> names c e) \<longrightarrow> pending e st' = pending e st)"
  using assms
proof (induction cs st rule: clock_calls.induct)
  case (2 f a n cs st)
  then obtain st1 where t: "timeout f a n st = Some st1" "clock_calls cs st1 = Some st'" by (auto split: option.splits)
  have d: "due st1 = insert_due (f, a) (max 1 n) (due st)" by (rule timeout_spec(2) [OF t(1)])
  have ok: "callout_ok st1" using 2(3) insert_due_sorted d by (simp add: callout_ok_def)
  have "late st1 = late st" by (simp add: late_def d insert_due_late)
  moreover have "pending e st1 = pending e st" if "e \<noteq> (f, a)" for e using filter_insert_due [OF that] by (simp add: pending_def d)
  ultimately show ?case using 2(1) [OF t(1,2) ok] timeout_spec(3) [OF t(1)] by (auto simp: names_def)
next
  case (3 f a cs st)
  note u = untimeout_spec [OF 3(3), of f a]
  have ok: "callout_ok (untimeout f a st)" using 3(3) remove_due_sorted u by (simp add: callout_ok_def)
  have "late (untimeout f a st) \<le> late st" by (simp add: late_def u remove_due_late)
  moreover have "pending e (untimeout f a st) = pending e st" if "e \<noteq> (f, a)" for e
    using filter_remove_due [OF that] by (simp add: pending_def u)
  moreover have "clock_calls cs (untimeout f a st) = Some st'" using 3(2) by simp
  ultimately show ?case using 3(1) [OF _ ok] u(2) by (fastforce simp: names_def)
qed auto


subsection \<open>The software interrupt\<close>

type_synonym clock_env = "(call_log \<Rightarrow> clock_call list) \<times> callstate \<times> call_log"

text \<open>
  Between the beginning of the interrupt and now: for an event no function names, those that are late
  have been called once each, and the others are where they were.
\<close>

definition soft_inv :: "clock_env \<Rightarrow> callstate \<times> call_log \<Rightarrow> bool" where
  "soft_inv = (\<lambda>(act, st0, log0) (st, log). callout_ok st \<and> callouts st = callouts st0 \<and>
     (\<forall>e. (\<forall>l. \<forall>c \<in> set (act l). \<not> names c e) \<longrightarrow>
        filter (\<lambda>n. 0 < n) (pending e st) = filter (\<lambda>n. 0 < n) (pending e st0) \<and>
        count_list log e + length (filter (\<lambda>n. n \<le> 0) (pending e st)) =
          count_list log0 e + length (filter (\<lambda>n. n \<le> 0) (pending e st0))))"

definition soft_rank :: "clock_env \<Rightarrow> callstate \<times> call_log \<Rightarrow> nat" where
  "soft_rank e s = late (fst s)"

definition soft_good :: "clock_env \<Rightarrow> (callstate \<times> call_log) option \<Rightarrow> bool" where
  "soft_good e r = (case r of None \<Rightarrow> True | Some s \<Rightarrow> soft_inv e s \<and> (\<forall>x \<in> set (due (fst s)). 0 < snd x))"

lemma softclock_step_spec:
  assumes "soft_inv (act, st0, log0) (st, log)"
  shows "case softclock_step act (st, log) of
      Inl s \<Rightarrow> soft_inv (act, st0, log0) s \<and> late (fst s) < late st
    | Inr r \<Rightarrow> soft_good (act, st0, log0) r"
proof (cases "calltodo st")
  case Nil
  then show ?thesis using assms by (simp add: softclock_step_def soft_good_def due_def)
next
  case (Cons c rest)
  have i: "callout_ok st" "callouts st = callouts st0" using assms by (auto simp: soft_inv_def)
  show ?thesis
  proof (cases "c_time c \<le> 0")
    case False
    then have "0 < snd x" if "x \<in> set (due st)" for x
      using i(1) Cons that by (auto simp: callout_ok_def due_def due_sorted_def)
    then show ?thesis using assms False Cons by (simp add: softclock_step_def soft_good_def)
  next
    case True
    let ?e = "(c_func c, c_arg c)"
    let ?st1 = "st\<lparr>calltodo := rest, callfree := callfree st + 1\<rparr>"
    have d: "due st = (?e, c_time c) # due ?st1" using Cons True by (simp add: due_def max_def)
    have ok1: "callout_ok ?st1" "callouts ?st1 = callouts st"
      using i(1) d Cons by (simp_all add: callout_ok_def due_sorted_def callouts_def)
    show ?thesis
    proof (cases "clock_calls (act (?e # log)) ?st1")
      case None
      then show ?thesis using Cons True by (simp add: softclock_step_def soft_good_def Let_def)
    next
      case (Some st2)
      note r = clock_calls_spec [OF Some ok1(1)]
      have p: "pending e st = (if ?e = e then [c_time c] else []) @ pending e ?st1" for e by (simp add: pending_def d)
      have "soft_inv (act, st0, log0) (st2, ?e # log)"
      proof -
        have "filter (\<lambda>n. 0 < n) (pending e st2) = filter (\<lambda>n. 0 < n) (pending e st0) \<and>
            count_list (?e # log) e + length (filter (\<lambda>n. n \<le> 0) (pending e st2)) =
              count_list log0 e + length (filter (\<lambda>n. n \<le> 0) (pending e st0))"
          if "\<forall>l. \<forall>c \<in> set (act l). \<not> names c e" for e
        proof -
          have "pending e st2 = pending e ?st1" using r that by blast
          moreover have "filter (\<lambda>n. 0 < n) (pending e st) = filter (\<lambda>n. 0 < n) (pending e st0)"
            "count_list log e + length (filter (\<lambda>n. n \<le> 0) (pending e st)) =
              count_list log0 e + length (filter (\<lambda>n. n \<le> 0) (pending e st0))"
            using assms that by (simp_all add: soft_inv_def del: split_paired_All)
          ultimately show ?thesis using p [of e] True by auto
        qed
        then show ?thesis using r ok1(2) i(2) by (simp add: soft_inv_def)
      qed
      moreover have "late st2 < late st" using r True by (simp add: late_def d)
      ultimately show ?thesis using Cons True Some by (simp add: softclock_step_def Let_def)
    qed
  qed
qed

interpretation soft: forward_machine "\<lambda>e. softclock_step (fst e)" soft_inv soft_rank soft_good
proof
  fix e :: clock_env and s :: "callstate \<times> call_log"
  obtain act st0 log0 where e: "e = (act, st0, log0)" by (cases e)
  obtain st log where s: "s = (st, log)" by (cases s)
  {
    assume "soft_inv e s"
    note p = softclock_step_spec [OF this [unfolded e s]]
    show "soft_inv e s'" if "softclock_step (fst e) s = Inl s'" for s' using p that by (simp add: e s)
    show "soft_rank e s' < soft_rank e s" if "softclock_step (fst e) s = Inl s'" for s'
      using p that by (simp add: e s soft_rank_def)
    show "soft_good e r" if "softclock_step (fst e) s = Inr r" for r using p that by (simp add: e s)
  }
qed

lemma soft_inv_refl: "callout_ok st \<Longrightarrow> soft_inv (act, st, log) (st, log)"
  by (simp add: soft_inv_def)

subsection \<open>Clock interrupts\<close>

lemma hardclock_pending:
  assumes "hardclock st = (st', soft)" "callout_ok st"
  shows "callout_ok st'" "pending e st' = map (\<lambda>n. n - 1) (pending e st)" "soft \<longleftrightarrow> (\<exists>x \<in> set (due st'). snd x \<le> 0)"
proof -
  note s = hardclock_spec [OF assms(1)]
  have "sorted (map (\<lambda>n. n - 1) xs)" if "sorted xs" for xs :: "int list" using that by (induction xs) auto
  from this [of "map snd (due st)"] show ok: "callout_ok st'"
    using assms(2) s(1) by (simp add: callout_ok_def due_sorted_def case_prod_unfold comp_def)
  show "pending e st' = map (\<lambda>n. n - 1) (pending e st)"
    by (simp add: pending_def s(1) filter_map comp_def case_prod_unfold)
  show "soft \<longleftrightarrow> (\<exists>x \<in> set (due st'). snd x \<le> 0)"
    using s(2) ok by (cases "due st'") (auto simp: callout_ok_def due_sorted_def)
qed

text \<open>
  The event \<open>e\<close>, \<open>k\<close> ticks after it was set for \<open>n\<close>: queued with its time and, when that has come, with \<open>softclock\<close> running or
  asked for; or called.
\<close>

definition event_inv :: "nat \<times> nat \<Rightarrow> int \<Rightarrow> nat \<Rightarrow> nat \<Rightarrow> clock \<Rightarrow> bool" where
  "event_inv e n b k s \<longleftrightarrow> callout_ok (ck_queue s) \<and> (\<forall>cs. ck_run s = Some cs \<longrightarrow> (\<forall>c \<in> set cs. \<not> names c e)) \<and>
     (pending e (ck_queue s) = [n - int k] \<and> count_list (ck_log s) e = b \<and> (n \<le> int k \<longrightarrow> ck_soft s \<or> ck_run s \<noteq> None) \<or>
      pending e (ck_queue s) = [] \<and> count_list (ck_log s) e = Suc b \<and> n \<le> int k)"

fun names_other :: "nat \<times> nat \<Rightarrow> clock_action \<Rightarrow> bool" where
  "names_other e (Other_Call c) = names c e"
| "names_other e a = False"

fun is_tick :: "clock_action \<Rightarrow> bool" where
  "is_tick (Clock_Intr base) = True"
| "is_tick a = False"

definition ticks_of :: "clock_action list \<Rightarrow> nat" where
  "ticks_of as = length (filter is_tick as)"

lemma pending_due: "pending e st = [m] \<Longrightarrow> m \<le> 0 \<Longrightarrow> \<exists>x \<in> set (due st). snd x \<le> 0"
proof -
  assume "pending e st = [m]" "m \<le> 0"
  then have "m \<in> set (pending e st)" by simp
  then show "\<exists>x \<in> set (due st). snd x \<le> 0" using \<open>m \<le> 0\<close> by (auto simp: pending_def)
qed

lemma clock_step_inv:
  assumes "event_inv e n b k s" "clock_step act a s = Some s'" "\<not> names_other e a" "\<forall>l. \<forall>c \<in> set (act l). \<not> names c e"
  shows "event_inv e n b (k + ticks_of [a]) s'"
proof -
  have ok: "callout_ok (ck_queue s)" and run: "\<And>cs. ck_run s = Some cs \<Longrightarrow> \<forall>c \<in> set cs. \<not> names c e"
    using assms(1) by (auto simp: event_inv_def)
  show ?thesis
  proof (cases a)
    case (Clock_Intr base)
    obtain q soft where h: "hardclock (ck_queue s) = (q, soft)" by (cases "hardclock (ck_queue s)")
    note hp = hardclock_pending [OF h ok]
    have s': "ck_queue s' = q" "ck_log s' = ck_log s" "ck_run s' = ck_run s \<or> ck_run s' = Some []"
      "soft \<longrightarrow> ck_soft s' \<or> ck_run s' \<noteq> None"
      using assms(2) h Clock_Intr by (auto split: if_splits)
    have r: "\<forall>cs. ck_run s' = Some cs \<longrightarrow> (\<forall>c \<in> set cs. \<not> names c e)" using s'(3) run by auto
    have w: "ck_soft s' \<or> ck_run s' \<noteq> None" if "pending e q = [m]" "m \<le> 0" for m
      using pending_due [OF that] hp(3) s'(4) by blast
    consider "pending e (ck_queue s) = [n - int k]" "count_list (ck_log s) e = b"
      | "pending e (ck_queue s) = []" "count_list (ck_log s) e = Suc b" "n \<le> int k"
      using assms(1) by (auto simp: event_inv_def)
    then have "event_inv e n b (Suc k) s'"
    proof cases
      case 1
      then have "pending e q = [n - int (Suc k)]" using hp(2) [of e] by simp
      moreover from w [OF this] have "n \<le> int (Suc k) \<longrightarrow> ck_soft s' \<or> ck_run s' \<noteq> None" by simp
      ultimately show ?thesis using 1(2) hp(1) s'(1,2) r unfolding event_inv_def by simp
    next
      case 2
      then show ?thesis using hp(1) hp(2) [of e] s'(1,2) r unfolding event_inv_def by simp
    qed
    then show ?thesis by (simp add: ticks_of_def Clock_Intr)
  next
    case Soft_Intr
    then show ?thesis using assms(1,2) by (auto simp: event_inv_def ticks_of_def split: if_splits)
  next
    case (Other_Call c)
    then obtain q where q: "clock_calls [c] (ck_queue s) = Some q" "s' = s\<lparr>ck_queue := q\<rparr>" using assms(2) by auto
    have "callout_ok q" "pending e q = pending e (ck_queue s)"
      using clock_calls_spec [OF q(1) ok] assms(3) Other_Call by auto
    then show ?thesis using assms(1) q(2) Other_Call by (auto simp: event_inv_def ticks_of_def)
  next
    case Soft_Step
    then obtain cs where cs: "ck_run s = Some cs" using assms(2) by (cases "ck_run s") auto
    have t: "ticks_of [a] = 0" by (simp add: ticks_of_def Soft_Step)
    show ?thesis
    proof (cases cs)
      case (Cons c cs2)
      then obtain q where q: "clock_calls [c] (ck_queue s) = Some q" "s' = s\<lparr>ck_queue := q, ck_run := Some cs2\<rparr>"
        using assms(2) Soft_Step cs by auto
      have "callout_ok q" "pending e q = pending e (ck_queue s)"
        using clock_calls_spec [OF q(1) ok] run [OF cs] Cons by auto
      then show ?thesis using assms(1) q(2) t cs Cons by (auto simp: event_inv_def)
    next
      case Nil
      show ?thesis
      proof (cases "calltodo (ck_queue s)")
        case none: Nil
        then have "pending e (ck_queue s) = []" by (simp add: pending_def due_def)
        then show ?thesis using assms(1,2) Soft_Step cs Nil none t by (auto simp: event_inv_def)
      next
        case (Cons c rest)
        show ?thesis
        proof (cases "c_time c \<le> 0")
          case False
          have "\<forall>x \<in> set (due (ck_queue s)). 0 < snd x"
            using ok Cons False by (auto simp: callout_ok_def due_def due_sorted_def)
          then have "\<not> m \<le> 0" if "pending e (ck_queue s) = [m]" for m using pending_due [OF that] by force
          then show ?thesis using assms(1,2) Soft_Step cs Nil Cons False t by (auto simp: event_inv_def)
        next
          case True
          let ?x = "(c_func c, c_arg c)"
          let ?q = "(ck_queue s)\<lparr>calltodo := rest, callfree := callfree (ck_queue s) + 1\<rparr>"
          have d: "due (ck_queue s) = (?x, c_time c) # due ?q" using Cons True by (simp add: due_def max_def)
          then have okq: "callout_ok ?q" using ok by (simp add: callout_ok_def due_sorted_def)
          have p: "pending e (ck_queue s) = (if ?x = e then [c_time c] else []) @ pending e ?q" by (simp add: pending_def d)
          have s': "s' = s\<lparr>ck_queue := ?q, ck_log := ?x # ck_log s, ck_run := Some (act (?x # ck_log s))\<rparr>"
            using assms(2) Soft_Step cs Nil Cons True by (simp add: Let_def)
          show ?thesis
          proof (cases "?x = e")
            case True
            then have "pending e (ck_queue s) = [n - int k]" "count_list (ck_log s) e = b" "c_time c = n - int k" "pending e ?q = []"
              using assms(1) p by (auto simp: event_inv_def)
            then show ?thesis using True okq s' t assms(4) \<open>c_time c \<le> 0\<close> by (simp add: event_inv_def)
          next
            case False
            then show ?thesis using assms(1,4) okq p s' t by (auto simp: event_inv_def)
          qed
        qed
      qed
    qed
  qed
qed

lemma clock_run_inv:
  "event_inv e n b k s \<Longrightarrow> clock_run act as s = Some s' \<Longrightarrow> \<forall>a \<in> set as. \<not> names_other e a \<Longrightarrow> \<forall>l. \<forall>c \<in> set (act l). \<not> names c e \<Longrightarrow>
   event_inv e n b (k + ticks_of as) s'"
proof (induction as arbitrary: s k)
  case (Cons a as)
  then obtain s1 where s1: "clock_step act a s = Some s1" "clock_run act as s1 = Some s'" by (auto split: option.splits)
  have "event_inv e n b (k + ticks_of [a]) s1" using clock_step_inv [OF Cons.prems(1) s1(1) _ Cons.prems(4)] Cons.prems(3) by simp
  from Cons.IH [OF this s1(2) _ Cons.prems(4)] Cons.prems(3) show ?case by (simp add: ticks_of_def split: if_splits)
qed (simp add: ticks_of_def)

subsection \<open>Properties\<close>

text \<open>
  C6: an event is called on time. After \<open>timeout\<close> for \<open>n\<close> ticks, with an event that was not queued before and that no other
  call names, in any run of clock interrupts, software interrupts, steps of \<open>softclock\<close>, which clock interrupts can split, and other
  calls: the event is not called before the \<open>n\<close>-th clock interrupt, it is called at most once, and once \<open>n\<close>
  clock interrupts have come and \<open>softclock\<close> is neither running nor asked for, it has been called. A run ends where a call of \<open>timeout\<close> panics.
\<close>

theorem timeout_on_time:
  assumes "callout_ok (ck_queue s)" "timeout f a n (ck_queue s) = Some q" "clock_run act as (s\<lparr>ck_queue := q\<rparr>) = Some s'"
    and "(f, a) \<notin> fst ` set (due (ck_queue s))" "\<forall>l. \<forall>c \<in> set (act l). \<not> names c (f, a)"
    and "\<forall>x \<in> set as. \<not> names_other (f, a) x" "\<forall>cs. ck_run s = Some cs \<longrightarrow> (\<forall>c \<in> set cs. \<not> names c (f, a))"
  shows "count_list (ck_log s') (f, a) \<in> {count_list (ck_log s) (f, a), count_list (ck_log s) (f, a) + 1} \<and>
    (int (ticks_of as) < max 1 n \<longrightarrow> count_list (ck_log s') (f, a) = count_list (ck_log s) (f, a)) \<and>
    (max 1 n \<le> int (ticks_of as) \<and> \<not> ck_soft s' \<and> ck_run s' = None \<longrightarrow>
       count_list (ck_log s') (f, a) = count_list (ck_log s) (f, a) + 1)"
proof -
  have d: "due q = insert_due (f, a) (max 1 n) (due (ck_queue s))" by (rule timeout_spec(2) [OF assms(2)])
  have ok: "callout_ok q" using assms(1) insert_due_sorted d by (simp add: callout_ok_def)
  have "filter (\<lambda>x. fst x = (f, a)) (due (ck_queue s)) = []" using assms(4) by (force simp: filter_empty_conv)
  moreover have "filter (\<lambda>x. fst x = (f, a)) (takeWhile P q @ y # dropWhile P q) = y # filter (\<lambda>x. fst x = (f, a)) (takeWhile P q @ dropWhile P q)"
    if "filter (\<lambda>x. fst x = (f, a)) q = []" "fst y = (f, a)" for P y and q :: "((nat \<times> nat) \<times> int) list"
  proof -
    have "filter (\<lambda>x. fst x = (f, a)) (takeWhile P q) = []" "filter (\<lambda>x. fst x = (f, a)) (dropWhile P q) = []"
      using that(1) by (auto simp: filter_empty_conv dest: set_takeWhileD set_dropWhileD)
    then show ?thesis using that by simp
  qed
  ultimately have "pending (f, a) q = [max 1 n]" by (simp add: pending_def d insert_due_def)
  then have "event_inv (f, a) (max 1 n) (count_list (ck_log s) (f, a)) 0 (s\<lparr>ck_queue := q\<rparr>)"
    using ok assms(7) by (simp add: event_inv_def)
  from clock_run_inv [OF this assms(3,6,5)] show ?thesis by (auto simp: event_inv_def)
qed

text \<open>A queue with one event, due in two ticks, which sets itself again when it is called.\<close>

definition ex_clock :: callstate where
  "ex_clock = \<lparr>calltodo = [\<lparr>c_arg = 1, c_func = 1, c_time = 2\<rparr>], callfree = 3\<rparr>"

definition ex_act :: "call_log \<Rightarrow> clock_call list" where
  "ex_act log = (if log \<noteq> [] \<and> hd log = (1, 1) then [Timeout 1 1 2] else [])"

lemma ex_clock_ok: "callout_ok ex_clock" "(7, 8) \<notin> fst ` set (due ex_clock)" "\<forall>l. \<forall>c \<in> set (ex_act l). \<not> names c (7, 8)"
  by (auto simp: callout_ok_def due_sorted_def due_def ex_clock_def ex_act_def names_def)

text \<open>
  Another event is set for 3 ticks. The second clock interrupt, not from base priority, asks for \<open>softclock\<close>; the third comes while that
  calls the first event.
\<close>

definition ex_start :: clock where
  "ex_start = \<lparr>ck_queue = ex_clock, ck_log = [], ck_soft = False, ck_run = None\<rparr>"

definition ex_run :: "clock_action list" where
  "ex_run = [Clock_Intr True, Clock_Intr False, Soft_Intr, Soft_Step, Clock_Intr False, Soft_Step, Soft_Step, Soft_Step, Soft_Intr, Soft_Step]"

theorem timeout_on_time_witness:
  "case timeout 7 8 3 ex_clock of None \<Rightarrow> False
   | Some q \<Rightarrow> (case clock_run ex_act ex_run (ex_start\<lparr>ck_queue := q\<rparr>) of None \<Rightarrow> False | Some s' \<Rightarrow> count_list (ck_log s') (7, 8) = 1)"
proof -
  have c: "case timeout 7 8 3 ex_clock of None \<Rightarrow> False
     | Some q \<Rightarrow> (case clock_run ex_act ex_run (ex_start\<lparr>ck_queue := q\<rparr>) of None \<Rightarrow> False | Some s' \<Rightarrow> \<not> ck_soft s' \<and> ck_run s' = None)"
    by code_simp
  then obtain q s' where q: "timeout 7 8 3 ex_clock = Some q" "clock_run ex_act ex_run (ex_start\<lparr>ck_queue := q\<rparr>) = Some s'"
    "\<not> ck_soft s'" "ck_run s' = None" by (auto split: option.splits)
  have h: "callout_ok (ck_queue ex_start)" "timeout 7 8 3 (ck_queue ex_start) = Some q" "(7, 8) \<notin> fst ` set (due (ck_queue ex_start))"
    "\<forall>x \<in> set ex_run. \<not> names_other (7, 8) x" "\<forall>cs. ck_run ex_start = Some cs \<longrightarrow> (\<forall>c \<in> set cs. \<not> names c (7, 8))"
    using ex_clock_ok q(1) by (simp_all add: ex_start_def ex_run_def)
  have "count_list (ck_log s') (7, 8) = count_list (ck_log ex_start) (7, 8) + 1"
    using timeout_on_time [OF h(1,2) q(2) h(3) ex_clock_ok(3) h(4,5)] q(3,4) by (simp add: ticks_of_def ex_run_def)
  then show ?thesis using q(1,2) by (simp add: ex_start_def)
qed

text \<open>
  C28: the queue of differences stands for the list of its events with the ticks to each of them, in order:
  \<open>timeout\<close> puts the event before the first that is not earlier (and panics exactly when there is no free entry),
  \<open>untimeout\<close> takes the first event with that function and argument out, \<open>hardclock\<close> takes one tick off
  every event and asks for a software interrupt exactly when one is due; no entry is lost.
\<close>

theorem callout_queue_refines:
  assumes "callout_ok st"
  shows "(case timeout f a n st of
      None \<Rightarrow> callfree st = 0
    | Some st' \<Rightarrow> callfree st \<noteq> 0 \<and> due st' = insert_due (f, a) (max 1 n) (due st) \<and> callout_ok st' \<and> callouts st' = callouts st) \<and>
    due (untimeout f a st) = remove_due (f, a) (due st) \<and> callout_ok (untimeout f a st) \<and> callouts (untimeout f a st) = callouts st \<and>
    (case hardclock st of (st', needsoft) \<Rightarrow>
       due st' = map (\<lambda>(e, n). (e, n - 1)) (due st) \<and> callout_ok st' \<and> callouts st' = callouts st \<and>
       (needsoft \<longleftrightarrow> (\<exists>x \<in> set (due st'). snd x \<le> 0)))"
proof -
  have t: "case timeout f a n st of None \<Rightarrow> callfree st = 0
    | Some st' \<Rightarrow> callfree st \<noteq> 0 \<and> due st' = insert_due (f, a) (max 1 n) (due st) \<and> callout_ok st' \<and> callouts st' = callouts st"
    using timeout_spec [of f a n st] assms insert_due_sorted by (cases "timeout f a n st") (auto simp: callout_ok_def)
  have u: "due (untimeout f a st) = remove_due (f, a) (due st) \<and> callout_ok (untimeout f a st) \<and> callouts (untimeout f a st) = callouts st"
    using untimeout_spec [OF assms, of f a] assms remove_due_sorted by (simp add: callout_ok_def)
  obtain st' s where h: "hardclock st = (st', s)" by (cases "hardclock st")
  note hs = hardclock_spec [OF h]
  have srt: "sorted (map (\<lambda>n. n - 1) xs)" if "sorted xs" for xs :: "int list" using that by (induction xs) auto
  have ok: "callout_ok st'"
    using assms hs(1) srt [of "map snd (due st)"] by (simp add: callout_ok_def due_sorted_def case_prod_unfold comp_def)
  have "s \<longleftrightarrow> (\<exists>x \<in> set (due st'). snd x \<le> 0)"
    using hs(2) ok by (cases "due st'") (auto simp: callout_ok_def due_sorted_def)
  then show ?thesis using t u ok hs(1,3) h by simp
qed

theorem callout_queue_refines_witness:
  "due (untimeout 1 1 ex_clock) = [] \<and> due (fst (hardclock ex_clock)) = [((1, 1), 1)]"
  using callout_queue_refines [OF ex_clock_ok(1), of 1 1 0]
  by (simp add: due_def ex_clock_def remove_due_def case_prod_unfold)

text \<open>
  C30: \<open>softclock\<close>, without a clock interrupt in between, returns, even when the functions it calls set new timeouts, unless one of them
  fills the table; then no event that is due is left, every due event that no function touches has been called as
  many times as it was queued, and no entry is lost.
\<close>

theorem softclock_returns:
  assumes "callout_ok st"
  shows "\<exists>r. iterate (softclock_step act) (st, log) = Some r \<and>
    (case r of None \<Rightarrow> True
     | Some (st', log') \<Rightarrow> callout_ok st' \<and> callouts st' = callouts st \<and> (\<forall>x \<in> set (due st'). 0 < snd x) \<and>
         (\<forall>e. (\<forall>l. \<forall>c \<in> set (act l). \<not> names c e) \<longrightarrow>
            count_list log' e = count_list log e + length (filter (\<lambda>n. n \<le> 0) (pending e st))))"
proof -
  obtain r where r: "iterate (softclock_step act) (st, log) = Some r" "soft_good (act, st, log) r"
    using soft.returns [OF soft_inv_refl [OF assms], of act log] by auto
  have "count_list log' e = count_list log e + length (filter (\<lambda>n. n \<le> 0) (pending e st))"
    if "r = Some (st', log')" "\<forall>l. \<forall>c \<in> set (act l). \<not> names c e" for st' log' e
  proof -
    have "\<forall>x \<in> set (due st'). 0 < snd x" using r(2) that by (simp add: soft_good_def)
    then have "filter (\<lambda>n. n \<le> 0) (pending e st') = []" by (auto simp: pending_def filter_empty_conv)
    moreover have "count_list log' e + length (filter (\<lambda>n. n \<le> 0) (pending e st')) =
        count_list log e + length (filter (\<lambda>n. n \<le> 0) (pending e st))"
      using r(2) that by (simp add: soft_good_def soft_inv_def)
    ultimately show ?thesis by simp
  qed
  then show ?thesis using r by (auto simp: soft_good_def soft_inv_def split: option.splits)
qed

theorem softclock_returns_witness:
  "\<exists>r. iterate (softclock_step ex_act) (ex_clock, []) = Some r"
  using softclock_returns [OF ex_clock_ok(1), of ex_act "[]"] by blast

subsection \<open>Ticks to an absolute time\<close>

lemma wrap32_id: "- (2 ^ 31) \<le> x \<Longrightarrow> x < 2 ^ 31 \<Longrightarrow> wrap32 x = x"
  by (simp add: wrap32_def sint_sbintrunc' signed_take_bit_int_eq_self)

text \<open>
  C40: for a time that is not in the past, \<open>hzto\<close> does not overflow: up to 2146 seconds away
  its value is the exact number of ticks, rounded down; up to the largest that fits it counts whole seconds;
  beyond, it is the largest \<open>int\<close>.
\<close>

theorem hzto_no_overflow:
  assumes "0 < hz" "0 < tick" "0 \<le> tv_sec - now_sec" "tv_sec - now_sec < 2 ^ 31"
    and "0 \<le> tv_usec" "tv_usec < 1000000" "0 \<le> now_usec" "now_usec < 1000000"
    and "0 \<le> (tv_sec - now_sec) * 1000000 + (tv_usec - now_usec)"
  shows "hzto hz tick (now_sec, now_usec) (tv_sec, tv_usec) =
    (if tv_sec - now_sec \<le> 2146 then ((tv_sec - now_sec) * 1000000 + (tv_usec - now_usec)) div tick
     else if tv_sec - now_sec \<le> (2 ^ 31 - 1) div hz then (tv_sec - now_sec) * hz else 2 ^ 31 - 1)"
proof -
  define s where "s = tv_sec - now_sec"
  define u where "u = tv_usec - now_usec"
  have s: "0 \<le> s" "s < 2 ^ 31" "wrap32 s = s" and u: "wrap32 u = u" "- 1000000 < u" "u < 1000000" "0 \<le> s * 1000000 + u"
    using assms wrap32_id [of s] wrap32_id [of u] by (auto simp: s_def u_def)
  have "hzto hz tick (now_sec, now_usec) (tv_sec, tv_usec) =
      (if s \<le> 2146 then wrap32 (wrap32 (s * 1000000) + wrap32 u) sdiv tick
       else if s \<le> 0x7fffffff div hz then wrap32 (s * hz) else 0x7fffffff)"
    using s(3) by (simp add: hzto_def s_def u_def)
  moreover have "wrap32 (wrap32 (s * 1000000) + wrap32 u) sdiv tick = (s * 1000000 + u) div tick" if "s \<le> 2146"
  proof -
    have "wrap32 (s * 1000000) = s * 1000000" "wrap32 (s * 1000000 + u) = s * 1000000 + u"
      using that s u by (auto intro!: wrap32_id)
    then show ?thesis using u assms(2) by (auto simp: signed_divide_int_def sgn_if)
  qed
  moreover have "wrap32 (s * hz) = s * hz" if "s \<le> 0x7fffffff div hz"
  proof -
    have "s * hz \<le> 0x7fffffff div hz * hz" using that assms(1) by (simp add: mult_right_mono)
    also have "\<dots> \<le> 0x7fffffff" using assms(1) minus_mod_eq_div_mult [of "0x7fffffff" hz] pos_mod_sign [of hz "0x7fffffff"] by linarith
    finally show ?thesis using s(1) assms(1) by (intro wrap32_id) (auto simp: order_trans [OF _ mult_nonneg_nonneg])
  qed
  ultimately show ?thesis by (simp add: s_def u_def)
qed

theorem hzto_no_overflow_witness:
  "hzto 100 10000 (5, 900000) (7, 100000) = 120 \<and> hzto 100 10000 (0, 0) (2147, 990000) = 214700"
  using hzto_no_overflow [of 100 10000 7 5 100000 900000] hzto_no_overflow [of 100 10000 2147 0 990000 0] by simp

end
