(* ===== verification/Quad.thy ===== *)
theory Quad
  imports Prelude
begin

text \<open>
  64-bit arithmetic on machines with 32-bit registers, \<^verbatim>\<open>sys/lib/libkern\<close>: \<open>quad.h\<close>, the addition,
  subtraction, comparison and shift routines, multiplication (\<open>muldi3.c\<close>) and Knuth's long division
  (\<open>qdivrem.c\<close>) with the four routines on top of it. A \<open>long\<close> is a word of 32 bits, a quad one of
  64; a signed quad is the same word, read with \<open>sint\<close>. The union \<open>uu\<close> is the pair of functions
  \<open>ul_H\<close> and \<open>ul_L\<close> one way and \<open>uu\<close> the other. Arrays of digits are lists, pointers into them
  offsets. Division by zero, which traps, has the value \<open>None\<close>.
\<close>

type_synonym quad = "64 word"

definition ul_H :: "quad \<Rightarrow> u32" where "ul_H q = ucast (drop_bit 32 q)"
definition ul_L :: "quad \<Rightarrow> u32" where "ul_L q = ucast q"
definition uu :: "u32 \<Rightarrow> u32 \<Rightarrow> quad" where "uu h l = push_bit 32 (ucast h) OR ucast l"

definition HHALF :: "u32 \<Rightarrow> u32" where "HHALF x = drop_bit 16 x"
definition LHALF :: "u32 \<Rightarrow> u32" where "LHALF x = x AND (push_bit 16 1 - 1)"
definition LHUP :: "u32 \<Rightarrow> u32" where "LHUP x = push_bit 16 x"

subsection \<open>Simple operations\<close>

definition adddi3 :: "quad \<Rightarrow> quad \<Rightarrow> quad" where
  "adddi3 a b =
     (let l = ul_L a + ul_L b in uu (ul_H a + ul_H b + (if l < ul_L b then 1 else 0)) l)"

definition subdi3 :: "quad \<Rightarrow> quad \<Rightarrow> quad" where
  "subdi3 a b =
     (let l = ul_L a - ul_L b in uu (ul_H a - ul_H b - (if l > ul_L a then 1 else 0)) l)"

definition negdi2 :: "quad \<Rightarrow> quad" where
  "negdi2 a = (let l = - ul_L a in uu (- ul_H a - (if l > 0 then 1 else 0)) l)"

definition one_cmpldi2 :: "quad \<Rightarrow> quad" where "one_cmpldi2 a = uu (NOT (ul_H a)) (NOT (ul_L a))"
definition anddi3 :: "quad \<Rightarrow> quad \<Rightarrow> quad" where "anddi3 a b = uu (ul_H a AND ul_H b) (ul_L a AND ul_L b)"
definition iordi3 :: "quad \<Rightarrow> quad \<Rightarrow> quad" where "iordi3 a b = uu (ul_H a OR ul_H b) (ul_L a OR ul_L b)"
definition xordi3 :: "quad \<Rightarrow> quad \<Rightarrow> quad" where "xordi3 a b = uu (ul_H a XOR ul_H b) (ul_L a XOR ul_L b)"

definition cmpdi2 :: "quad \<Rightarrow> quad \<Rightarrow> nat" where
  "cmpdi2 a b =
     (if sint (ul_H a) < sint (ul_H b) then 0 else if sint (ul_H a) > sint (ul_H b) then 2
      else if ul_L a < ul_L b then 0 else if ul_L a > ul_L b then 2 else 1)"

definition ucmpdi2 :: "quad \<Rightarrow> quad \<Rightarrow> nat" where
  "ucmpdi2 a b =
     (if ul_H a < ul_H b then 0 else if ul_H a > ul_H b then 2
      else if ul_L a < ul_L b then 0 else if ul_L a > ul_L b then 2 else 1)"

definition ashldi3 :: "quad \<Rightarrow> nat \<Rightarrow> quad" where
  "ashldi3 a shift =
     (if shift \<ge> 32 then uu (if shift \<ge> 64 then 0 else push_bit (shift - 32) (ul_L a)) 0
      else if shift > 0 then uu (push_bit shift (ul_H a) OR drop_bit (32 - shift) (ul_L a)) (push_bit shift (ul_L a))
      else a)"

definition lshrdi3 :: "quad \<Rightarrow> nat \<Rightarrow> quad" where
  "lshrdi3 a shift =
     (if shift \<ge> 32 then uu 0 (if shift \<ge> 64 then 0 else drop_bit (shift - 32) (ul_H a))
      else if shift > 0 then uu (drop_bit shift (ul_H a)) (drop_bit shift (ul_L a) OR push_bit (32 - shift) (ul_H a))
      else a)"

definition ashrdi3 :: "quad \<Rightarrow> nat \<Rightarrow> quad" where
  "ashrdi3 a shift =
     (if shift \<ge> 32 then
        let s = signed_drop_bit 1 (signed_drop_bit 31 (ul_H a))
        in uu s (if shift \<ge> 64 then s else signed_drop_bit (shift - 32) (ul_H a))
      else if shift > 0 then uu (signed_drop_bit shift (ul_H a)) (drop_bit shift (ul_L a) OR push_bit (32 - shift) (ul_H a))
      else a)"

subsection \<open>Multiplication\<close>

definition lmulq :: "u32 \<Rightarrow> u32 \<Rightarrow> quad" where
  "lmulq u v =
     (let u1 = HHALF u; u0 = LHALF u; v1 = HHALF v; v0 = LHALF v; low = u0 * v0
      in if u1 = 0 \<and> v1 = 0 then ucast low
         else
           let (udiff, neg0) = (if u1 \<ge> u0 then (u1 - u0, False) else (u0 - u1, True));
               (vdiff, neg) = (if v0 \<ge> v1 then (v0 - v1, neg0) else (v1 - v0, \<not> neg0));
               mid = udiff * vdiff;
               high = u1 * v1;
               prodh = high + HHALF high;
               prodl = LHUP high;
               (prodh1, prodl1) =
                 (if neg then let l = prodl - LHUP mid in (prodh - (HHALF mid + (if l > prodl then 1 else 0)), l)
                  else let l = prodl + LHUP mid in (prodh + (HHALF mid + (if l < prodl then 1 else 0)), l));
               prodl2 = prodl1 + LHUP low;
               prodh2 = prodh1 + (HHALF low + (if prodl2 < prodl1 then 1 else 0));
               prodl3 = prodl2 + low;
               prodh3 = (if prodl3 < low then prodh2 + 1 else prodh2)
           in uu prodh3 prodl3)"

definition muldi3 :: "quad \<Rightarrow> quad \<Rightarrow> quad" where
  "muldi3 a b =
     (let (u, nega) = (if sint a \<ge> 0 then (a, False) else (- a, True));
          (v, negall) = (if sint b \<ge> 0 then (b, nega) else (- b, \<not> nega));
          u1 = ul_H u; u0 = ul_L u; v1 = ul_H v; v0 = ul_L v;
          prod =
            (if u1 = 0 \<and> v1 = 0 then lmulq u0 v0
             else
               let low = lmulq u0 v0;
                   (udiff, neg0) = (if u1 \<ge> u0 then (u1 - u0, False) else (u0 - u1, True));
                   (vdiff, negmid) = (if v0 \<ge> v1 then (v0 - v1, neg0) else (v1 - v0, \<not> neg0));
                   mid = udiff * vdiff;
                   high = u1 * v1
               in uu (high + (if negmid then - mid else mid) + ul_L low + ul_H low) (ul_L low))
      in if negall then - prod else prod)"

subsection \<open>Division\<close>

definition BASE :: u32 where "BASE = push_bit 16 1"

definition COMBINE :: "u32 \<Rightarrow> u32 \<Rightarrow> u32" where "COMBINE a b = push_bit 16 a OR b"

text \<open>A digit as a \<open>u_long\<close>, and a \<open>u_long\<close> stored in a digit.\<close>

definition ul :: "u16 \<Rightarrow> u32" where "ul d = ucast d"
definition digit :: "u32 \<Rightarrow> u16" where "digit x = ucast x"

definition digits :: "quad \<Rightarrow> u16 list" where
  "digits q = [0, digit (HHALF (ul_H q)), digit (LHALF (ul_H q)), digit (HHALF (ul_L q)), digit (LHALF (ul_L q))]"

definition of_digits :: "u16 list \<Rightarrow> quad" where
  "of_digits q = uu (COMBINE (ul (q ! 1)) (ul (q ! 2))) (COMBINE (ul (q ! 3)) (ul (q ! 4)))"

text \<open>A divisor of one digit \<open>t\<close>.\<close>

definition div_one_digit :: "u16 list \<Rightarrow> u32 \<Rightarrow> quad \<times> quad" where
  "div_one_digit u t =
     (let q1 = digit (ul (u ! 1) div t);
          rbj1 = COMBINE (ul (u ! 1) mod t) (ul (u ! 2));
          q2 = digit (rbj1 div t);
          rbj2 = COMBINE (rbj1 mod t) (ul (u ! 3));
          q3 = digit (rbj2 div t);
          rbj3 = COMBINE (rbj2 mod t) (ul (u ! 4));
          q4 = digit (rbj3 div t)
      in (uu (COMBINE (ul q1) (ul q2)) (COMBINE (ul q3) (ul q4)), ucast (rbj3 mod t)))"

text \<open>
  The leading zeros of the divisor: its number of digits and the offset of the pointer \<open>v\<close>; with one digit
  the pointer stays before it.
\<close>

fun v_scan :: "u16 list \<Rightarrow> nat \<Rightarrow> nat \<Rightarrow> nat \<times> nat" where
  "v_scan v n vo = (if v ! (vo + 1) \<noteq> 0 then (n, vo) else if n \<le> 2 then (1, vo) else v_scan v (n - 1) (vo + 1))"

text \<open>Those of the dividend, which is not zero here; the end of the array is not reached.\<close>

function u_scan :: "u16 list \<Rightarrow> int \<Rightarrow> nat \<Rightarrow> int \<times> nat" where
  "u_scan u m uo = (if uo < 4 \<and> u ! (uo + 1) = 0 then u_scan u (m - 1) (uo + 1) else (m, uo))"
  by pat_completeness auto
termination by (relation "measure (\<lambda>(u, m, uo). 4 - uo)") auto

declare v_scan.simps [simp del] u_scan.simps [simp del]

text \<open>The shift that makes the first digit of the divisor (which is not zero) large.\<close>

function norm_shift :: "u32 \<Rightarrow> nat \<Rightarrow> nat" where
  "norm_shift t d = (if t = 0 \<or> t \<ge> BASE div 2 then d else norm_shift (push_bit 1 t) (d + 1))"
  by pat_completeness auto
termination
proof (relation "measure (\<lambda>(t, d). 0x8000 - unat t)")
  fix t :: u32 and d :: nat
  assume "\<not> (t = 0 \<or> BASE div 2 \<le> t)"
  then have "0 < unat t" "unat t < 0x8000"
    by (simp_all add: BASE_def word_less_nat_alt not_le unat_gt_0)
  moreover from this have "unat (push_bit 1 t) = 2 * unat t" by (simp add: push_bit_eq_mult unat_word_ariths(2))
  ultimately show "((push_bit 1 t, d + 1), (t, d)) \<in> measure (\<lambda>(t, d). 0x8000 - unat t)" by simp
qed simp

declare norm_shift.simps [simp del]

fun shl :: "u16 list \<Rightarrow> nat \<Rightarrow> nat \<Rightarrow> nat \<Rightarrow> u16 list" where
  "shl p i 0 sh = p[i := digit (LHALF (push_bit sh (ul (p ! i))))]"
| "shl p i (Suc len) sh =
     shl (p[i := digit (LHALF (push_bit sh (ul (p ! i))) OR drop_bit (16 - sh) (ul (p ! (i + 1))))]) (i + 1) len sh"

text \<open>D3, the loop: \<open>qhat\<close> is decremented while the second digit shows that it is too large.\<close>

function qhat_loop :: "u32 \<Rightarrow> u32 \<Rightarrow> u32 \<Rightarrow> u32 \<Rightarrow> u32 \<Rightarrow> u32" where
  "qhat_loop v1 v2 uj2 qhat rhat =
     (if v2 * qhat > COMBINE rhat uj2 then
        if rhat + v1 \<ge> BASE then qhat - 1 else qhat_loop v1 v2 uj2 (qhat - 1) (rhat + v1)
      else qhat)"
  by pat_completeness auto
termination
proof (relation "measure (\<lambda>(v1, v2, uj2, qhat, rhat). unat qhat)")
  fix v1 v2 uj2 qhat rhat :: u32
  assume "COMBINE rhat uj2 < v2 * qhat"
  then have "qhat \<noteq> 0" by auto
  then show "((v1, v2, uj2, qhat - 1, rhat + v1), (v1, v2, uj2, qhat, rhat)) \<in> measure (\<lambda>(v1, v2, uj2, qhat, rhat). unat qhat)"
    by (simp add: unat_minus_one unat_gt_0)
qed simp

declare qhat_loop.simps [simp del]

definition qhat_of :: "u32 \<Rightarrow> u32 \<Rightarrow> u32 \<Rightarrow> u32 \<Rightarrow> u32 \<Rightarrow> u32" where
  "qhat_of v1 v2 uj0 uj1 uj2 =
     (if uj0 = v1 then if uj1 + v1 \<ge> BASE then BASE - 1 else qhat_loop v1 v2 uj2 (BASE - 1) (uj1 + v1)
      else let n = COMBINE uj0 uj1 in qhat_loop v1 v2 uj2 (n div v1) (n mod v1))"

text \<open>D4, the loop, for the digits \<open>i, \<dots>, 1\<close> from the pointers \<open>uj\<close> and \<open>vo\<close>: the array and the borrow.\<close>

fun mul_sub :: "u16 list \<Rightarrow> nat \<Rightarrow> u16 list \<Rightarrow> nat \<Rightarrow> u32 \<Rightarrow> nat \<Rightarrow> u32 \<Rightarrow> u16 list \<times> u32" where
  "mul_sub u uj v vo qhat 0 t = (u, t)"
| "mul_sub u uj v vo qhat (Suc i) t =
     (let t1 = ul (u ! (uj + Suc i)) - ul (v ! (vo + Suc i)) * qhat - t
      in mul_sub (u[uj + Suc i := digit (LHALF t1)]) uj v vo qhat i ((BASE - HHALF t1) AND (BASE - 1)))"

text \<open>D6, the loop.\<close>

fun add_back :: "u16 list \<Rightarrow> nat \<Rightarrow> u16 list \<Rightarrow> nat \<Rightarrow> nat \<Rightarrow> u32 \<Rightarrow> u16 list \<times> u32" where
  "add_back u uj v vo 0 t = (u, t)"
| "add_back u uj v vo (Suc i) t =
     (let t1 = t + (ul (u ! (uj + Suc i)) + ul (v ! (vo + Suc i)))
      in add_back (u[uj + Suc i := digit (LHALF t1)]) uj v vo i (HHALF t1))"

text \<open>D3 to D6 for one digit: the array \<open>u\<close> and the digit of the quotient.\<close>

definition div_step :: "u16 list \<Rightarrow> nat \<Rightarrow> nat \<Rightarrow> u16 list \<Rightarrow> nat \<Rightarrow> u16 list \<times> u32" where
  "div_step v vo n u uj =
     (let qhat = qhat_of (ul (v ! (vo + 1))) (ul (v ! (vo + 2))) (ul (u ! uj)) (ul (u ! (uj + 1))) (ul (u ! (uj + 2)));
          (u1, t) = mul_sub u uj v vo qhat n 0;
          t1 = ul (u1 ! uj) - t;
          u2 = u1[uj := digit (LHALF t1)]
      in if HHALF t1 \<noteq> 0 then
           (case add_back u2 uj v vo n 0 of (u3, t2) \<Rightarrow> (u3[uj := digit (LHALF (ul (u3 ! uj) + t2))], qhat - 1))
         else (u2, qhat))"

text \<open>D7, for \<open>k + 1\<close> more digits from \<open>j\<close> on.\<close>

fun div_loop :: "u16 list \<Rightarrow> nat \<Rightarrow> nat \<Rightarrow> nat \<Rightarrow> u16 list \<Rightarrow> nat \<Rightarrow> u16 list \<Rightarrow> nat \<Rightarrow> u16 list \<times> u16 list" where
  "div_loop v vo n k u uj q qj =
     (case div_step v vo n u uj of (u1, qhat) \<Rightarrow>
        let q1 = q[qj := digit qhat]
        in (case k of 0 \<Rightarrow> (u1, q1) | Suc k' \<Rightarrow> div_loop v vo n k' u1 (uj + 1) q1 (qj + 1)))"

text \<open>The remainder is shifted back, from digit \<open>m + k\<close> down to \<open>m + 1\<close>.\<close>

fun unshift :: "u16 list \<Rightarrow> nat \<Rightarrow> nat \<Rightarrow> nat \<Rightarrow> u16 list" where
  "unshift u um d 0 = u"
| "unshift u um d (Suc k) =
     unshift (u[um + Suc k := digit (drop_bit d (ul (u ! (um + Suc k))) OR LHALF (push_bit (16 - d) (ul (u ! (um + k)))))]) um d k"

definition qdivrem :: "quad \<Rightarrow> quad \<Rightarrow> (quad \<times> quad) option" where
  "qdivrem uq vq =
     (if vq = 0 then None
      else if uq < vq then Some (0, uq)
      else
        let u = digits uq; v = digits vq; (n, vo) = v_scan v 4 0
        in if n = 1 then Some (div_one_digit u (ul (v ! (vo + 2))))
           else
             let (m0, uo) = u_scan u (4 - int n) 0;
                 m = nat m0;
                 d = norm_shift (ul (v ! (vo + 1))) 0;
                 u1 = (if d > 0 then shl u uo (m + n) d else u);
                 v1 = (if d > 0 then shl v (vo + 1) (n - 1) d else v);
                 (u2, q) = div_loop v1 vo n m u1 uo (replicate 5 0) (4 - m);
                 u3 = (if d > 0 then (unshift u2 (uo + m) d n)[uo + m := 0] else u2)
             in Some (of_digits q, of_digits u3))"

definition udivdi3 :: "quad \<Rightarrow> quad \<Rightarrow> quad option" where
  "udivdi3 a b = map_option fst (qdivrem a b)"

definition umoddi3 :: "quad \<Rightarrow> quad \<Rightarrow> quad option" where
  "umoddi3 a b = map_option snd (qdivrem a b)"

definition quad_signs :: "quad \<Rightarrow> quad \<Rightarrow> quad \<times> quad \<times> bool" where
  "quad_signs a b =
     (let (ua, neg) = (if sint a < 0 then (- a, True) else (a, False));
          (ub, neg') = (if sint b < 0 then (- b, \<not> neg) else (b, neg))
      in (ua, ub, neg'))"

definition divdi3 :: "quad \<Rightarrow> quad \<Rightarrow> quad option" where
  "divdi3 a b = (case quad_signs a b of (ua, ub, neg) \<Rightarrow> map_option (\<lambda>(uq, _). if neg then - uq else uq) (qdivrem ua ub))"

definition moddi3 :: "quad \<Rightarrow> quad \<Rightarrow> quad option" where
  "moddi3 a b = (case quad_signs a b of (ua, ub, neg) \<Rightarrow> map_option (\<lambda>(_, ur). if neg then - ur else ur) (qdivrem ua ub))"

end
