(* ===== verification/Quad_Correct.thy ===== *)
theory Quad_Correct
  imports Quad
begin

text \<open>
  The routines without a loop: addition, subtraction, negation, the bitwise operations, shifts, comparisons
  and multiplication of quads agree with the operations on 64-bit words. The lemmas about the union \<open>uu\<close>
  (\<open>uint_uu\<close>, \<open>bit_uu\<close>, \<open>uu_add\<close>) carry them.
\<close>

subsection \<open>Halves\<close>

lemma uu_alt: "uu h l = ucast h * 2 ^ 32 + ucast l"
proof -
  have "bit (push_bit 32 (ucast h :: quad)) n \<Longrightarrow> \<not> bit (ucast l :: quad) n" for n
    by (auto simp: bit_push_bit_iff bit_ucast_iff dest: bit_imp_le_length)
  then have "push_bit 32 (ucast h) AND (ucast l :: quad) = 0" by (auto simp: bit_eq_iff bit_and_iff)
  then show ?thesis by (simp add: uu_def push_bit_eq_mult flip: disjunctive_add_eq_or)
qed

lemma uint_ucast_quad [simp]: "uint (ucast (x :: u32) :: quad) = uint x"
  using uint_lt2p [of x] by (simp add: unsigned_ucast_eq take_bit_int_eq_self_iff)

lemma uint_uu: "uint (uu h l) = uint h * 2 ^ 32 + uint l"
proof -
  have "uint h * 2 ^ 32 + uint l < 2 ^ 64" using uint_lt2p [of h] uint_lt2p [of l] by simp
  then show ?thesis by (simp add: uu_alt uint_word_ariths mod_add_left_eq)
qed

lemma uint_ul: "uint (ul_H q) = uint q div 2 ^ 32" "uint (ul_L q) = uint q mod 2 ^ 32"
proof -
  have "uint q div 2 ^ 32 < 2 ^ 32" using uint_lt2p [of q] by (simp add: div_less_iff_less_mult)
  then have "uint q div 2 ^ 32 mod 2 ^ 32 = uint q div 2 ^ 32" by (intro mod_pos_pos_trivial) (simp_all add: pos_imp_zdiv_nonneg_iff)
  then show "uint (ul_H q) = uint q div 2 ^ 32" "uint (ul_L q) = uint q mod 2 ^ 32"
    by (simp_all add: ul_H_def ul_L_def unsigned_ucast_eq take_bit_eq_mod drop_bit_eq_div uint_div_distrib)
qed

lemma uu_ul: "uu (ul_H q) (ul_L q) = q"
  by (rule word_uint_eqI) (simp add: uint_uu uint_ul)

lemma ul_uu [simp]: "ul_H (uu h l) = h" "ul_L (uu h l) = l"
  using uint_lt2p [of l] by (auto intro!: word_uint_eqI simp: uint_ul uint_uu)


text \<open>A high half is taken modulo \<open>2 ^ 32\<close>; adding and subtracting halves with a carry or a borrow.\<close>

lemma ucast_quad: "ucast (x :: u32) = (word_of_int (uint x) :: quad)"
  by (rule word_uint_eqI) (simp add: uint_word_of_int take_bit_int_eq_self_iff order.strict_trans [OF uint_lt2p])

lemma high_quad: "ucast (word_of_int a :: u32) * 2 ^ 32 = (word_of_int (a * 2 ^ 32) :: quad)"
proof (rule word_uint_eqI)
  have "(a mod 2 ^ 32) * 2 ^ 32 mod 2 ^ 64 = a * 2 ^ 32 mod (2 :: int) ^ 64"
    using mult_mod_right [of "2 ^ 32" a "2 ^ 32"] by (simp add: mult.commute)
  then show "uint (ucast (word_of_int a :: u32) * 2 ^ 32 :: quad) = uint (word_of_int (a * 2 ^ 32) :: quad)"
    by (simp add: uint_word_ariths uint_word_of_int take_bit_eq_mod mod_mult_left_eq)
qed

lemma uu_int:
  assumes "h = word_of_int a" "l = word_of_int b" "0 \<le> b" "b < 2 ^ 32"
  shows "uu h l = word_of_int (a * 2 ^ 32 + b)"
proof -
  have "uint l = b" using assms(2-4) by (simp add: uint_word_of_int take_bit_int_eq_self)
  then show ?thesis using high_quad [of a] by (simp add: uu_alt assms(1) ucast_quad [of l])
qed

lemma carry: "(if l + l' < (l' :: u32) then 1 else 0) = (uint l + uint l') div 2 ^ 32"
  and carry': "(l + l' < l) = (l + l' < l')"
proof -
  define s where "s = uint l + uint l'"
  have b: "0 \<le> uint l" "uint l < 2 ^ 32" "0 \<le> uint l'" "uint l' < 2 ^ 32" using uint_lt2p [of l] uint_lt2p [of l'] by simp_all
  have u: "uint (l + l') = s mod 2 ^ 32" by (simp add: s_def uint_word_ariths)
  consider "s < 2 ^ 32" "s div 2 ^ 32 = 0" "s mod 2 ^ 32 = s" | "s \<ge> 2 ^ 32" "s div 2 ^ 32 = 1" "s mod 2 ^ 32 = s - 2 ^ 32"
  proof (cases "s < 2 ^ 32")
    case True
    then show ?thesis using that(1) b by (simp add: s_def)
  next
    case False
    then have "s div 2 ^ 32 = 1" "s mod 2 ^ 32 = s - 2 ^ 32"
      using b int_div_pos_eq [of s "2 ^ 32" 1 "s - 2 ^ 32"] int_mod_pos_eq [of s "2 ^ 32" 1 "s - 2 ^ 32"] by (auto simp: s_def)
    then show ?thesis using that(2) False by simp
  qed
  then show "(if l + l' < l' then 1 else 0) = (uint l + uint l') div 2 ^ 32" "(l + l' < l) = (l + l' < l')"
    using b by (cases; auto simp: word_less_def u s_def)+
qed


lemma uu_add: "uu (h + h' + (if l + l' < l' then 1 else 0)) (l + l') = uu h l + uu h' l'"
proof -
  let ?s = "uint l + uint l'"
  have "(if l + l' < l' then 1 else 0 :: u32) = word_of_int (?s div 2 ^ 32)" unfolding carry [symmetric] by simp
  then have h: "h + h' + (if l + l' < l' then 1 else 0) = word_of_int (uint h + uint h' + ?s div 2 ^ 32)" by simp
  have l: "l + l' = word_of_int (?s mod 2 ^ 32)" by (rule word_uint_eqI) (simp add: uint_word_ariths uint_word_of_int)
  have "uu (h + h' + (if l + l' < l' then 1 else 0)) (l + l') =
      word_of_int ((uint h + uint h' + ?s div 2 ^ 32) * 2 ^ 32 + ?s mod 2 ^ 32)"
    by (rule uu_int [OF h l]) simp_all
  also have "(uint h + uint h' + ?s div 2 ^ 32) * 2 ^ 32 + ?s mod 2 ^ 32 = (uint h * 2 ^ 32 + uint l) + (uint h' * 2 ^ 32 + uint l')"
    using div_mult_mod_eq [of ?s "2 ^ 32"] by (simp add: algebra_simps)
  also have "word_of_int \<dots> = uu h l + uu h' l'" by (simp add: uu_alt)
  finally show ?thesis .
qed

lemma uu_diff: "uu (h - h' - (if l - l' > l then 1 else 0)) (l - l') = uu h l - uu h' l'"
proof -
  have "(l - l') + l' < l' \<longleftrightarrow> l < l'" by simp
  moreover have "(l - l') + l' < l' \<longleftrightarrow> (l - l') + l' < l - l'" using carry' by blast
  ultimately have "l - l' > l \<longleftrightarrow> l < l'" by simp
  then have "uu (h - h' - (if l - l' > l then 1 else 0)) (l - l') + uu h' l' = uu h l"
    using uu_add [of "h - h' - (if l - l' > l then 1 else 0)" h' "l - l'" l'] by (simp split: if_splits)
  then show ?thesis by (simp add: eq_diff_eq)
qed

subsection \<open>Simple operations\<close>

lemma adddi3_eq: "adddi3 a b = a + b"
  using uu_add [of "ul_H a" "ul_H b" "ul_L a" "ul_L b"] by (simp add: adddi3_def uu_ul Let_def)

lemma subdi3_eq: "subdi3 a b = a - b"
  using uu_diff [of "ul_H a" "ul_H b" "ul_L a" "ul_L b"] by (simp add: subdi3_def uu_ul Let_def)

lemma negdi2_eq: "negdi2 a = - a"
  using uu_diff [of 0 "ul_H a" 0 "ul_L a"] by (simp add: negdi2_def uu_ul Let_def) (simp add: uu_def)

lemma pair_less:
  fixes x y x' y' :: int
  assumes "0 \<le> y" "y < 2 ^ 32" "0 \<le> y'" "y' < 2 ^ 32"
  shows "x * 2 ^ 32 + y < x' * 2 ^ 32 + y' \<longleftrightarrow> x < x' \<or> x = x' \<and> y < y'"
  using assms by (cases x x' rule: linorder_cases) auto

lemma uint_halves: "uint a = uint (ul_H a) * 2 ^ 32 + uint (ul_L a)"
  using uint_uu [of "ul_H a" "ul_L a"] by (simp add: uu_ul)

lemma quad_less: "a < b \<longleftrightarrow> ul_H a < ul_H b \<or> ul_H a = ul_H b \<and> ul_L a < ul_L b"
proof -
  have "uint (ul_L a) < 2 ^ 32" "uint (ul_L b) < 2 ^ 32" using uint_lt2p [of "ul_L a"] uint_lt2p [of "ul_L b"] by simp_all
  note pair_less [OF uint_ge_0 this(1) uint_ge_0 this(2), of "uint (ul_H a)" "uint (ul_H b)"]
  then show ?thesis unfolding word_less_def uint_halves [of a] uint_halves [of b] word_uint_eq_iff [where 'a = 32] .
qed

lemma ucmpdi2_eq: "ucmpdi2 a b = (if a < b then 0 else if a > b then 2 else 1)"
  by (auto simp: ucmpdi2_def quad_less)


lemma sint_quad:
  fixes w :: quad
  shows "sint w = (if uint w < 2 ^ 63 then uint w else uint w - 2 ^ 64)"
proof -
  have eq: "uint w = sint w mod 2 ^ 64" by (simp add: uint_sint take_bit_eq_mod)
  have lo: "- (2 ^ 63) \<le> sint w" and hi: "sint w < 2 ^ 63" using sint_greater_eq [of w] sint_less [of w] by simp_all
  show ?thesis
  proof (cases "0 \<le> sint w")
    case False
    then have "sint w mod 2 ^ 64 = sint w + 2 ^ 64" using lo mod_pos_pos_trivial [of "sint w + 2 ^ 64" "2 ^ 64"] by simp
    with eq lo False show ?thesis by simp
  qed (use eq hi in simp)
qed

lemma sint_halves: "sint a = sint (ul_H a) * 2 ^ 32 + uint (ul_L a)"
proof -
  have "h * 2 ^ 32 + l < 2 ^ 63 \<longleftrightarrow> h < 2 ^ 31" if "0 \<le> l" "l < 2 ^ 32" for h l :: int
    using that by (cases "h < 2 ^ 31") auto
  from this [of "uint (ul_L a)" "uint (ul_H a)"] uint_lt2p [of "ul_L a"]
  have "uint (ul_H a) * 2 ^ 32 + uint (ul_L a) < 2 ^ 63 \<longleftrightarrow> uint (ul_H a) < 2 ^ 31" by simp
  then show ?thesis by (simp add: sint_quad sint_u32 uint_halves [of a])
qed

lemma cmpdi2_eq: "cmpdi2 a b = (if sint a < sint b then 0 else if sint a > sint b then 2 else 1)"
proof -
  have "uint (ul_L a) < 2 ^ 32" "uint (ul_L b) < 2 ^ 32" using uint_lt2p [of "ul_L a"] uint_lt2p [of "ul_L b"] by simp_all
  note p = pair_less [OF uint_ge_0 this(1) uint_ge_0 this(2), of "sint (ul_H a)" "sint (ul_H b)"]
    pair_less [OF uint_ge_0 this(2) uint_ge_0 this(1), of "sint (ul_H b)" "sint (ul_H a)"]
  show ?thesis unfolding cmpdi2_def sint_halves [of a] sint_halves [of b] p by (auto simp: word_less_def)
qed

text \<open>Shifts and bit operations, bit by bit.\<close>

lemma bit_uu: "bit (uu h l) n \<longleftrightarrow> (if n < 32 then bit l n else bit h (n - 32))"
  by (auto simp: uu_def bit_or_iff bit_push_bit_iff bit_ucast_iff dest: bit_imp_le_length)

lemma bit_ul: "bit (ul_H q) n \<longleftrightarrow> n < 32 \<and> bit q (n + 32)" "bit (ul_L q) n \<longleftrightarrow> n < 32 \<and> bit q n"
  by (auto simp: ul_H_def ul_L_def bit_ucast_iff bit_drop_bit_eq ac_simps)

lemma bitwise_eq:
  "one_cmpldi2 a = NOT a" "anddi3 a b = a AND b" "iordi3 a b = a OR b" "xordi3 a b = a XOR b"
  by (rule bit_word_eqI; auto simp: one_cmpldi2_def anddi3_def iordi3_def xordi3_def bit_uu bit_ul bit_simps)+

lemma ashldi3_eq: "ashldi3 a n = push_bit n a"
  by (rule bit_word_eqI) (auto simp: ashldi3_def bit_uu bit_ul bit_simps not_less)

lemma lshrdi3_eq: "lshrdi3 a n = drop_bit n a"
  by (rule bit_word_eqI) (auto simp: lshrdi3_def bit_uu bit_ul bit_simps not_less ac_simps dest: bit_imp_le_length)

lemma bit_sdrop:
  "bit (signed_drop_bit m (w :: u32)) n \<longleftrightarrow> n < 32 \<and> bit w (if 32 \<le> m + n then 31 else m + n)"
  "bit (signed_drop_bit m (q :: quad)) n \<longleftrightarrow> n < 64 \<and> bit q (if 64 \<le> m + n then 63 else m + n)"
  by (auto simp: bit_signed_drop_bit_iff dest: bit_imp_le_length)

lemma ashrdi3_eq: "ashrdi3 a n = signed_drop_bit n a"
proof (cases "32 \<le> n")
  case True
  have "ashrdi3 a n = (let s = signed_drop_bit 32 (ul_H a) in uu s (signed_drop_bit (n - 32) (ul_H a)))"
  proof (cases "64 \<le> n")
    case t: True
    then have "signed_drop_bit 32 (ul_H a) = signed_drop_bit (n - 32) (ul_H a)"
      by (intro bit_word_eqI) (auto simp: bit_sdrop)
    then show ?thesis using True t by (simp add: ashrdi3_def Let_def)
  qed (use True in \<open>simp add: ashrdi3_def Let_def\<close>)
  then show ?thesis using True
    by (intro bit_word_eqI) (auto simp: Let_def bit_uu bit_ul bit_sdrop)
next
  case False
  then have "ashrdi3 a n = uu (signed_drop_bit n (ul_H a)) (drop_bit n (ul_L a) OR (if n = 0 then 0 else push_bit (32 - n) (ul_H a)))"
    by (cases "n = 0") (simp_all add: ashrdi3_def uu_ul)
  moreover have "bit a (32 + (k - 32)) = (if 32 \<le> k then bit a k else bit a 32)" for k by simp
  ultimately show ?thesis using False
    by (intro bit_word_eqI)
      (auto simp: bit_uu bit_ul bit_or_iff bit_drop_bit_eq bit_push_bit_iff bit_sdrop add.commute split: if_splits)
qed


subsection \<open>Multiplication\<close>

text \<open>A product of halves, shifted up by 16 bits.\<close>

lemma uint_half: "uint (HHALF x) = uint x div 2 ^ 16" "uint (LHALF x) = uint x mod 2 ^ 16" "uint (LHUP x) = uint x * 2 ^ 16 mod 2 ^ 32"
proof -
  show "uint (HHALF x) = uint x div 2 ^ 16" by (simp add: HHALF_def drop_bit_eq_div uint_div_distrib)
  have "push_bit 16 1 - 1 = (mask 16 :: u32)" by (simp add: mask_eq_exp_minus_1 push_bit_eq_mult)
  then have "LHALF x = take_bit 16 x" by (simp add: LHALF_def take_bit_eq_mask)
  then show "uint (LHALF x) = uint x mod 2 ^ 16" by (simp add: take_bit_eq_mod uint_mod_distrib)
  show "uint (LHUP x) = uint x * 2 ^ 16 mod 2 ^ 32" by (simp add: LHUP_def push_bit_eq_mult uint_word_ariths)
qed

lemma uu_shift16: "uu (HHALF x) (LHUP x) = ucast x * 2 ^ 16"
proof -
  have "uint x div 2 ^ 16 * 2 ^ 32 + uint x * 2 ^ 16 mod 2 ^ 32 = uint x * 2 ^ 16"
  proof -
    have m: "uint x * 65536 mod 4294967296 = (uint x mod 65536) * 65536"
      using mult_mod_right [of "65536" "uint x" "65536"] by (simp add: mult.commute)
    define d where "d = uint x div 65536"
    define r where "r = uint x mod 65536"
    have "uint x = d * 65536 + r" by (simp add: d_def r_def)
    then have "d * 4294967296 + r * 65536 = uint x * 65536" by linarith
    then have "uint x div 65536 * 4294967296 + uint x * 65536 mod 4294967296 = uint x * 65536"
      unfolding m d_def r_def .
    then show ?thesis by simp
  qed
  moreover have "HHALF x = word_of_int (uint x div 2 ^ 16)" unfolding uint_half(1) [symmetric] by simp
  moreover have "LHUP x = word_of_int (uint x * 2 ^ 16 mod 2 ^ 32)" unfolding uint_half(3) [symmetric] by simp
  ultimately show ?thesis using uu_int [of "HHALF x" "uint x div 2 ^ 16" "LHUP x" "uint x * 2 ^ 16 mod 2 ^ 32"]
    by simp
qed


lemma ucast_times:
  assumes "uint a * uint b < 2 ^ 32"
  shows "(ucast (a * b :: u32) :: quad) = ucast a * ucast b"
proof -
  have "uint (a * b) = uint a * uint b" using assms by (simp add: uint_word_ariths mod_pos_pos_trivial)
  from arg_cong [OF this, of "word_of_int :: int \<Rightarrow> quad"] show ?thesis by simp
qed

lemma ucast_diff: "b \<le> a \<Longrightarrow> (ucast (a - b :: u32) :: quad) = ucast a - ucast b"
proof -
  assume "b \<le> a"
  then have "uint (a - b) = uint a - uint b" by (simp add: uint_minus_simple_alt)
  from arg_cong [OF this, of "word_of_int :: int \<Rightarrow> quad"] show ?thesis by simp
qed

lemma ucast_halves: "(ucast (u :: u32) :: quad) = ucast (HHALF u) * 2 ^ 16 + ucast (LHALF u)"
proof -
  have "uint u = uint (HHALF u) * 2 ^ 16 + uint (LHALF u)" by (simp add: uint_half)
  from arg_cong [OF this, of "word_of_int :: int \<Rightarrow> quad"] show ?thesis by simp
qed

lemma half_lt: "uint (HHALF u) < 2 ^ 16" "uint (LHALF u) < 2 ^ 16"
  using uint_lt2p [of u] by (simp_all add: uint_half div_less_iff_less_mult)

lemma small_times: "uint a < 2 ^ 16 \<Longrightarrow> uint b < 2 ^ 16 \<Longrightarrow> uint a * uint b < 2 ^ 32" for a b :: u32
  using mult_strict_mono [of "uint a" "2 ^ 16" "uint b" "2 ^ 16"] by simp

text \<open>The absolute value of a difference and its sign.\<close>

lemma abs_diff:
  fixes a b d :: u32
  assumes "(d, neg) = (if a \<ge> b then (a - b, s) else (b - a, \<not> s))" "uint a < 2 ^ 16" "uint b < 2 ^ 16"
  shows "ucast a - ucast b = (if neg = s then ucast d else - ucast d :: quad)" "uint d < 2 ^ 16"
proof -
  have n: "0 \<le> uint a" "0 \<le> uint b" by simp_all
  have "(ucast a - ucast b = (if neg = s then ucast d else - ucast d :: quad)) \<and> uint d < 2 ^ 16"
  proof (cases "b \<le> a")
    case True
    then have "uint d = uint a - uint b" "d = a - b" "neg = s" using assms(1) by (simp_all add: uint_minus_simple_alt)
    moreover from this n assms(2) have "uint d < 2 ^ 16" by linarith
    ultimately show ?thesis using ucast_diff [OF True] by simp
  next
    case False
    then have "a \<le> b" by simp
    then have "uint d = uint b - uint a" "d = b - a" "neg \<noteq> s" using assms(1) False by (auto simp: uint_minus_simple_alt)
    moreover from this n assms(3) have "uint d < 2 ^ 16" by linarith
    ultimately show ?thesis using ucast_diff [OF \<open>a \<le> b\<close>] by simp
  qed
  then show "ucast a - ucast b = (if neg = s then ucast d else - ucast d :: quad)" "uint d < 2 ^ 16" by blast+
qed

lemma uu_0: "uu h 0 = ucast h * 2 ^ 32" "uu 0 l = ucast l"
  by (simp_all add: uu_alt)

lemma lmulq_eq: "lmulq u v = ucast u * ucast v"
proof -
  define u1 u0 v1 v0 where "u1 = HHALF u" and "u0 = LHALF u" and "v1 = HHALF v" and "v0 = LHALF v"
  have b: "uint u1 < 2 ^ 16" "uint u0 < 2 ^ 16" "uint v1 < 2 ^ 16" "uint v0 < 2 ^ 16"
    by (simp_all only: u1_def u0_def v1_def v0_def half_lt)
  have e: "ucast u = ucast u1 * 2 ^ 16 + (ucast u0 :: quad)" "ucast v = ucast v1 * 2 ^ 16 + (ucast v0 :: quad)"
    unfolding u1_def u0_def v1_def v0_def by (rule ucast_halves)+
  have low: "(ucast (u0 * v0) :: quad) = ucast u0 * ucast v0" by (rule ucast_times [OF small_times [OF b(2,4)]])
  show ?thesis
  proof (cases "u1 = 0 \<and> v1 = 0")
    case True
    then show ?thesis using low e by (simp add: lmulq_def Let_def u1_def u0_def v1_def v0_def)
  next
    case False
    obtain ud n0 where ud: "(ud, n0) = (if u1 \<ge> u0 then (u1 - u0, False) else (u0 - u1, \<not> False))" by (cases "u1 \<ge> u0") auto
    obtain vd neg where vd: "(vd, neg) = (if v0 \<ge> v1 then (v0 - v1, n0) else (v1 - v0, \<not> n0))" by (cases "v0 \<ge> v1") auto
    define low mid high where "low = u0 * v0" and "mid = ud * vd" and "high = u1 * v1"
    have ud': "ucast u1 - ucast u0 = (if n0 then - ucast ud else ucast ud :: quad)" "uint ud < 2 ^ 16"
      using abs_diff [OF ud b(1,2)] by auto
    have vd': "ucast v0 - ucast v1 = (if neg = n0 then ucast vd else - ucast vd :: quad)" "uint vd < 2 ^ 16"
      using abs_diff [OF vd b(4,3)] by auto
    have mid: "(if neg then - ucast mid else ucast mid) = (ucast u1 - ucast u0) * (ucast v0 - ucast v1 :: quad)"
      unfolding ud' vd' mid_def ucast_times [OF small_times [OF ud'(2) vd'(2)]] by auto
    have high: "ucast high = (ucast u1 * ucast v1 :: quad)" unfolding high_def by (rule ucast_times [OF small_times [OF b(1,3)]])
    define p0h p0l where "p0h = high + HHALF high" and "p0l = LHUP high"
    have p0: "uu p0h p0l = ucast high * 2 ^ 32 + ucast high * 2 ^ 16"
      using uu_add [of high "HHALF high" 0 "LHUP high"] by (simp add: p0h_def p0l_def uu_0 uu_shift16)
    define p1l where "p1l = (if neg then p0l - LHUP mid else p0l + LHUP mid)"
    define p1h where "p1h = (if neg then p0h - (HHALF mid + (if p1l > p0l then 1 else 0)) else p0h + (HHALF mid + (if p1l < p0l then 1 else 0)))"
    have p1: "uu p1h p1l = uu p0h p0l + (if neg then - ucast mid else ucast mid) * 2 ^ 16"
    proof (cases neg)
      case True
      then show ?thesis using uu_diff [of p0h "HHALF mid" p0l "LHUP mid"] by (simp add: p1h_def p1l_def uu_shift16 diff_diff_eq)
    next
      case False
      then show ?thesis using uu_add [of p0h "HHALF mid" p0l "LHUP mid"] carry' [of p0l "LHUP mid"]
        by (simp add: p1h_def p1l_def uu_shift16 add.assoc)
    qed
    define p2l p2h where "p2l = p1l + LHUP low" and "p2h = p1h + (HHALF low + (if p1l + LHUP low < p1l then 1 else 0))"
    have p2: "uu p2h p2l = uu p1h p1l + ucast low * 2 ^ 16"
      using uu_add [of p1h "HHALF low" p1l "LHUP low"] carry' [of p1l "LHUP low"] by (simp add: p2h_def p2l_def uu_shift16 add.assoc)
    have p3: "uu (if p2l + low < low then p2h + 1 else p2h) (p2l + low) = uu p2h p2l + ucast low"
      using uu_add [of p2h 0 p2l low] by (simp add: uu_0 split: if_splits)
    have "lmulq u v = uu (if p2l + low < low then p2h + 1 else p2h) (p2l + low)"
      unfolding lmulq_def Let_def u1_def [symmetric] u0_def [symmetric] v1_def [symmetric] v0_def [symmetric]
        if_not_P [OF False] ud [symmetric, unfolded not_False_eq_True] prod.case vd [symmetric]
        low_def [symmetric] mid_def [symmetric] high_def [symmetric] p0l_def [symmetric] p0h_def [symmetric]
      by (cases neg; simp only: p2h_def p2l_def p1h_def p1l_def prod.case if_True if_False)
    also have "\<dots> = (ucast u1 * ucast v1) * 2 ^ 32 + (ucast u1 * ucast v1) * 2 ^ 16 +
        (ucast u1 - ucast u0) * (ucast v0 - ucast v1) * 2 ^ 16 + ucast low * 2 ^ 16 + ucast low"
      unfolding p3 p2 p1 p0 mid high by (rule refl)
    also have "\<dots> = ucast u * ucast v"
      unfolding low_def low e by (simp add: algebra_simps)
    finally show ?thesis .
  qed
qed


lemma high_times: "ucast (a * b :: u32) * 2 ^ 32 = (ucast a * ucast b * 2 ^ 32 :: quad)"
  using high_quad [of "uint a * uint b"] by simp

lemma high_ring:
  "ucast (a + b :: u32) * 2 ^ 32 = ((ucast a + ucast b) * 2 ^ 32 :: quad)"
  "ucast (a - b :: u32) * 2 ^ 32 = ((ucast a - ucast b) * 2 ^ 32 :: quad)"
  "ucast (- a :: u32) * 2 ^ 32 = (- ucast a * 2 ^ 32 :: quad)"
  using high_quad [of "uint a + uint b"] high_quad [of "uint a - uint b"] high_quad [of "- uint a"]
  by (simp_all add: distrib_right left_diff_distrib)

lemma uminus_mult_sign: "(if p then - (a :: quad) else a) * (if q then - b else b) = (if p = q then a * b else - (a * b))"
  by simp

lemma muldi3_eq: "muldi3 a b = a * b"
proof -
  define u where "u = (if sint a \<ge> 0 then a else - a)"
  define v where "v = (if sint b \<ge> 0 then b else - b)"
  define u1 u0 v1 v0 where "u1 = ul_H u" and "u0 = ul_L u" and "v1 = ul_H v" and "v0 = ul_L v"
  have e: "u = ucast u1 * 2 ^ 32 + ucast u0" "v = ucast v1 * 2 ^ 32 + ucast v0"
    unfolding u1_def u0_def v1_def v0_def uu_alt [symmetric] uu_ul by (rule refl)+
  define low where "low = lmulq u0 v0"
  have low: "low = ucast u0 * ucast v0" by (simp add: low_def lmulq_eq)
  obtain ud n0 where ud: "(ud, n0) = (if u1 \<ge> u0 then (u1 - u0, False) else (u0 - u1, True))" by (cases "u1 \<ge> u0") auto
  obtain vd neg where vd: "(vd, neg) = (if v0 \<ge> v1 then (v0 - v1, n0) else (v1 - v0, \<not> n0))" by (cases "v0 \<ge> v1") auto
  have mid: "(if neg then - (ud * vd) else ud * vd) = (u1 - u0) * (v0 - v1)"
    using ud vd by (auto simp: algebra_simps split: if_splits)
  define prod where "prod = (if u1 = 0 \<and> v1 = 0 then low
    else uu (u1 * v1 + (u1 - u0) * (v0 - v1) + ul_L low + ul_H low) (ul_L low))"
  have prod: "prod = u * v"
  proof (cases "u1 = 0 \<and> v1 = 0")
    case True
    then show ?thesis by (simp add: prod_def low e)
  next
    case False
    have l: "ucast (ul_H low) * 2 ^ 32 = low - ucast (ul_L low)" using uu_alt [of "ul_H low" "ul_L low"] by (simp add: uu_ul eq_diff_eq)
    have two: "(2 :: quad) ^ 32 * 2 ^ 32 = 0" by simp
    have "ucast (ul_L low) * 2 ^ 32 = (low - ucast (ul_H low) * 2 ^ 32) * 2 ^ 32" unfolding l by simp
    also have "\<dots> = low * 2 ^ 32 - ucast (ul_H low) * (2 ^ 32 * 2 ^ 32)" by (simp only: left_diff_distrib mult.assoc)
    finally have ll: "ucast (ul_L low) * 2 ^ 32 = low * 2 ^ 32" unfolding two by simp
    have "prod = (ucast u1 * ucast v1 + (ucast u1 - ucast u0) * (ucast v0 - ucast v1)) * 2 ^ 32 + ucast (ul_L low) * 2 ^ 32 +
        ucast (ul_H low) * 2 ^ 32 + ucast (ul_L low)"
    proof -
      have "ucast ((u1 - u0) * (v0 - v1)) * 2 ^ 32 = ucast (u1 - u0) * (ucast (v0 - v1) * 2 ^ 32 :: quad)"
        by (simp only: high_times mult.assoc)
      also have "\<dots> = (ucast v0 - ucast v1) * (ucast (u1 - u0) * 2 ^ 32)" unfolding high_ring(2) [of v0] by (simp only: mult_ac)
      also have "\<dots> = (ucast u1 - ucast u0) * (ucast v0 - ucast v1) * 2 ^ 32" unfolding high_ring(2) [of u1] by (simp only: mult_ac)
      finally have hm: "ucast ((u1 - u0) * (v0 - v1)) * 2 ^ 32 = (ucast u1 - ucast u0) * (ucast v0 - ucast v1) * (2 ^ 32 :: quad)" .
      show ?thesis
        unfolding prod_def if_not_P [OF False] uu_alt by (simp only: high_ring(1) distrib_right high_times hm [unfolded high_times])
    qed
    also have "\<dots> = (ucast u1 * ucast v1 + (ucast u1 - ucast u0) * (ucast v0 - ucast v1)) * 2 ^ 32 + low * 2 ^ 32 + low"
      unfolding ll l by simp
    also have "\<dots> = u * v - ucast u1 * ucast v1 * (2 ^ 32 * 2 ^ 32)" unfolding low e by (simp add: algebra_simps)
    also have "\<dots> = u * v" unfolding two by simp
    finally show ?thesis .
  qed
  have sa: "(if sint a \<ge> 0 then (a, False) else (- a, True)) = (u, \<not> sint a \<ge> 0)" by (simp add: u_def)
  have sb: "(if sint b \<ge> 0 then (b, \<not> sint a \<ge> 0) else (- b, \<not> \<not> sint a \<ge> 0)) = (v, (sint a \<ge> 0) \<noteq> (sint b \<ge> 0))"
    by (auto simp: v_def)
  have pr: "(if u1 = 0 \<and> v1 = 0 then low
      else uu (u1 * v1 + (if neg then - (ud * vd) else ud * vd) + ul_L low + ul_H low) (ul_L low)) = prod"
    unfolding mid prod_def ..
  have "muldi3 a b = (if (sint a \<ge> 0) \<noteq> (sint b \<ge> 0) then - prod else prod)"
    unfolding muldi3_def Let_def sa prod.case sb u1_def [symmetric] u0_def [symmetric] v1_def [symmetric] v0_def [symmetric]
      ud [symmetric] vd [symmetric] low_def [symmetric] pr by (rule refl)
  also have "\<dots> = a * b" unfolding prod u_def v_def by auto
  finally show ?thesis .
qed

end
