(* ===== verification/Quad_Div.thy ===== *)
theory Quad_Div
  imports Quad_Correct "HOL-Library.Signed_Division"
begin

text \<open>
  Knuth's long division (\<open>qdivrem\<close>) is division. \<open>dval xs a k\<close> is the number that the \<open>k\<close> digits from
  offset \<open>a\<close> on stand for; each loop has a lemma about the \<open>dval\<close> of what it leaves: multiply and subtract, add
  back, the estimate of a digit, one step, the loop over the digits of the quotient, the two shifts and the scans for
  leading zeros. The signed routines follow, and the properties of the component.
\<close>

subsection \<open>Digits\<close>

text \<open>The number that \<open>k\<close> digits from position \<open>a\<close> on stand for.\<close>

fun dval :: "u16 list \<Rightarrow> nat \<Rightarrow> nat \<Rightarrow> int" where
  "dval xs a 0 = 0"
| "dval xs a (Suc k) = dval xs a k * 65536 + uint (xs ! (a + k))"

lemma uint_u16: "0 \<le> uint (d :: u16)" "uint (d :: u16) < 65536" "uint (d :: u16) \<le> 65535"
  using uint_lt2p [of d] by simp_all

lemma dval_bounds: "0 \<le> dval xs a k" "dval xs a k < 65536 ^ k"
proof -
  have "0 \<le> dval xs a k \<and> dval xs a k < 65536 ^ k"
  proof (induction k)
    case (Suc k)
    then have "dval xs a k + 1 \<le> 65536 ^ k" by simp
    then have "(dval xs a k + 1) * 65536 \<le> 65536 ^ Suc k" by simp
    then show ?case using Suc uint_u16 [of "xs ! (a + k)"] by simp
  qed simp
  then show "0 \<le> dval xs a k" "dval xs a k < 65536 ^ k" by auto
qed

lemma dval_split: "dval xs a (k + l) = dval xs a k * 65536 ^ l + dval xs (a + k) l"
  by (induction l) (simp_all add: algebra_simps)

lemma dval_front: "dval xs a (Suc k) = uint (xs ! a) * 65536 ^ k + dval xs (Suc a) k"
  using dval_split [of xs a 1 k] by simp

lemma dval_cong: "(\<And>i. a \<le> i \<Longrightarrow> i < a + k \<Longrightarrow> xs ! i = ys ! i) \<Longrightarrow> dval xs a k = dval ys a k"
  by (induction k) auto

lemma dval_zero: "(\<And>i. a \<le> i \<Longrightarrow> i < a + k \<Longrightarrow> xs ! i = 0) \<Longrightarrow> dval xs a k = 0"
  by (induction k) auto

lemma uint_ul_digit [simp]: "uint (ul d) = uint d"
  using uint_lt2p [of d] by (simp add: ul_def unsigned_ucast_eq take_bit_int_eq_self_iff)

lemma uint_digit: "uint (digit x) = uint x mod 65536"
  by (simp add: digit_def unsigned_ucast_eq take_bit_eq_mod)

lemma uint_digit_LHALF [simp]: "uint (digit (LHALF x)) = uint x mod 65536"
  by (simp add: uint_digit uint_half)

lemma uint_BASE [simp]: "uint BASE = 65536"
  by (simp add: BASE_def push_bit_eq_mult)

lemma uint_COMBINE: "uint a < 65536 \<Longrightarrow> uint b < 65536 \<Longrightarrow> uint (COMBINE a b) = uint a * 65536 + uint b"
proof -
  assume a: "uint a < 65536" and b: "uint b < 65536"
  have "take_bit 16 b = b" using b by (intro word_uint_eqI) (simp add: take_bit_eq_mod uint_mod_distrib)
  then have "\<not> (bit (push_bit 16 a) n \<and> bit b n)" for n
    by (metis bit_push_bit_iff bit_take_bit_iff not_le)
  then have "push_bit 16 a AND b = 0" by (auto simp: bit_eq_iff bit_and_iff)
  then have "COMBINE a b = a * 65536 + b" by (simp add: COMBINE_def push_bit_eq_mult flip: disjunctive_add_eq_or)
  then show ?thesis using a b by (simp add: uint_word_ariths mod_add_left_eq mod_pos_pos_trivial)
qed

lemma uint_mask16: "uint (x AND (BASE - 1)) = uint x mod 65536"
proof -
  have "BASE - 1 = (mask 16 :: u32)" by (simp add: mask_eq_exp_minus_1 BASE_def push_bit_eq_mult)
  then have "x AND (BASE - 1) = take_bit 16 x" by (simp add: take_bit_eq_mask)
  then show ?thesis by (simp add: take_bit_eq_mod uint_mod_distrib)
qed

subsection \<open>Multiply and subtract\<close>

text \<open>The borrow: a negative number modulo \<open>2 ^ 32\<close>.\<close>

lemma two_digits:
  fixes q r :: int
  assumes "0 \<le> r" "r < 65536"
  shows "(q * 65536 + r) div 65536 = q" "(q * 65536 + r) mod 65536 = r"
  using assms by simp_all

lemma borrow_arith:
  fixes X :: int
  assumes "- (65535 * 65536) \<le> X" "X < 65536"
  shows "X mod 2 ^ 32 mod 65536 = X mod 65536" "(65536 - X mod 2 ^ 32 div 65536) mod 65536 = - (X div 65536)"
    "0 \<le> - (X div 65536)" "- (X div 65536) < 65536"
proof -
  define q r where "q = X div 65536" and "r = X mod 65536"
  have X: "X = q * 65536 + r" "0 \<le> r" "r < 65536" by (simp_all add: q_def r_def)
  have q: "- 65535 \<le> q" "q \<le> 0" using assms X by linarith+
  show "0 \<le> - (X div 65536)" "- (X div 65536) < 65536" using q by (simp_all add: q_def)
  have m: "X mod 2 ^ 32 = (if q = 0 then r else (q + 65536) * 65536 + r)"
  proof (cases "q = 0")
    case True
    then show ?thesis using X by simp
  next
    case False
    then have "(X + 2 ^ 32) mod 2 ^ 32 = X + 2 ^ 32" using X q by (intro mod_pos_pos_trivial) simp_all
    then show ?thesis using X False by simp
  qed
  have d: "((q + 65536) * 65536 + r) div 65536 = q + 65536" "((q + 65536) * 65536 + r) mod 65536 = r"
    using two_digits [OF X(2,3), of "q + 65536"] .
  have r: "r div 65536 = 0" "r mod 65536 = r" using X(2,3) by (rule div_pos_pos_trivial, rule mod_pos_pos_trivial)
  show "X mod 2 ^ 32 mod 65536 = X mod 65536" unfolding m r_def [symmetric] using d(2) r(2) by (cases "q = 0") (simp_all only: if_True if_False simp_thms)
  have "65536 - (if q = 0 then r else (q + 65536) * 65536 + r) div 65536 = (if q = 0 then 65536 else - q)"
    using d(1) r(1) by (cases "q = 0") simp_all
  moreover have "(if q = 0 then 65536 else - q) mod 65536 = - q" using q by (auto intro: mod_pos_pos_trivial)
  ultimately show "(65536 - X mod 2 ^ 32 div 65536) mod 65536 = - (X div 65536)"
    unfolding m q_def [symmetric] by simp
qed

lemma three_digits:
  fixes a p t :: int
  assumes "0 \<le> a" "a < 65536" "0 \<le> p" "p \<le> 65535 * 65535" "0 \<le> t" "t < 65536"
  shows "- (65535 * 65536) \<le> a - p - t" "a - p - t < 65536"
  using assms by linarith+

lemma mul_sub_digit:
  assumes "uint q < 65536" "uint t < 65536" "t1 = ul d - ul v * q - t"
  defines "X \<equiv> uint d - uint v * uint q - uint t"
  shows "uint t1 mod 65536 = X mod 65536" "uint ((BASE - HHALF t1) AND (BASE - 1)) = - (X div 65536)"
    "0 \<le> - (X div 65536)" "- (X div 65536) < 65536" "uint t1 = X mod 2 ^ 32"
proof -
  have p: "uint v * uint q \<le> 65535 * 65535" using uint_u16 [of v] assms(1) by (intro mult_mono) auto
  have "0 \<le> uint v * uint q" by simp
  note X = three_digits [OF uint_u16(1,2) this p uint_nonnegative assms(2), of d, folded X_def]
  have u: "uint t1 = X mod 2 ^ 32" unfolding assms(3) X_def
    by (simp add: uint_word_ariths mod_diff_left_eq mod_diff_right_eq mod_mult_left_eq)
  show "uint t1 = X mod 2 ^ 32" by (rule u)
  note b = borrow_arith [OF X]
  show "uint t1 mod 65536 = X mod 65536" using b(1) u by simp
  have "uint (HHALF t1) = X mod 2 ^ 32 div 65536" by (simp add: uint_half(1) u)
  moreover have "uint (BASE - HHALF t1) mod 65536 = (65536 - uint (HHALF t1)) mod 65536"
    by (simp add: uint_word_ariths mod_mod_cancel)
  ultimately show "uint ((BASE - HHALF t1) AND (BASE - 1)) = - (X div 65536)" unfolding uint_mask16 using b(2) by simp
  show "0 \<le> - (X div 65536)" "- (X div 65536) < 65536" by (rule b(3), rule b(4))
qed

lemma mul_sub_spec:
  assumes "mul_sub u uj v vo q i t = (u', t')" "uint q < 65536" "uint t < 65536" "uj + i < length u"
  shows "dval u' (Suc uj) i - uint t' * 65536 ^ i = dval u (Suc uj) i - uint q * dval v (Suc vo) i - uint t \<and>
    uint t' < 65536 \<and> length u' = length u \<and> (\<forall>k. k \<le> uj \<or> uj + i < k \<longrightarrow> u' ! k = u ! k)"
  using assms
proof (induction i arbitrary: u t)
  case (Suc i)
  define X where "X = uint (u ! (uj + Suc i)) - uint (v ! (vo + Suc i)) * uint q - uint t"
  define t1 where "t1 = ul (u ! (uj + Suc i)) - ul (v ! (vo + Suc i)) * q - t"
  note d = mul_sub_digit [OF Suc.prems(2,3) t1_def, folded X_def]
  define ua where "ua = u[uj + Suc i := digit (LHALF t1)]"
  define ta where "ta = (BASE - HHALF t1) AND (BASE - 1)"
  have run: "mul_sub ua uj v vo q i ta = (u', t')" using Suc.prems(1) unfolding ua_def ta_def t1_def by (simp add: Let_def)
  have ta: "uint ta = - (X div 65536)" "uint ta < 65536" using d by (simp_all add: ta_def)
  note ih = Suc.IH [OF run Suc.prems(2) ta(2)]
  have la: "uj + i < length ua" using Suc.prems(4) by (simp add: ua_def)
  have same: "dval ua (Suc uj) i = dval u (Suc uj) i" by (rule dval_cong) (simp add: ua_def)
  have last: "u' ! (Suc uj + i) = digit (LHALF t1)" using ih [OF la] Suc.prems(4) by (simp add: ua_def)
  have "X = X mod 65536 - uint ta * 65536" using ta(1) by (simp add: minus_div_mult_eq_mod [symmetric])
  then have "uint (u' ! (Suc uj + i)) = X + uint ta * 65536" using d(1) last by simp
  then have "dval u' (Suc uj) (Suc i) - uint t' * 65536 ^ Suc i =
      (dval u' (Suc uj) i - uint t' * 65536 ^ i) * 65536 + X + uint ta * 65536" by (simp add: algebra_simps)
  also have "\<dots> = dval u (Suc uj) (Suc i) - uint q * dval v (Suc vo) (Suc i) - uint t"
    using ih [OF la] same by (simp add: X_def algebra_simps)
  finally show ?case using ih [OF la] by (auto simp: ua_def)
qed simp

subsection \<open>Adding back\<close>

lemma add_back_digit:
  assumes "uint t \<le> 1" "t1 = t + (ul d + ul v)"
  shows "uint t1 = uint t + uint d + uint v" "uint (HHALF t1) = (uint t + uint d + uint v) div 65536" "uint (HHALF t1) \<le> 1"
proof -
  have b: "0 \<le> uint t + uint d + uint v" "uint t + uint d + uint v \<le> 131071"
    using assms(1) uint_u16 [of d] uint_u16 [of v] uint_nonnegative [of t] by linarith+
  then show u: "uint t1 = uint t + uint d + uint v"
    unfolding assms(2) by (simp add: uint_word_ariths mod_simps mod_pos_pos_trivial add.assoc)
  show "uint (HHALF t1) = (uint t + uint d + uint v) div 65536" by (simp add: uint_half(1) u)
  then show "uint (HHALF t1) \<le> 1" using b by linarith
qed

lemma add_back_spec:
  assumes "add_back u uj v vo i t = (u', t')" "uint t \<le> 1" "uj + i < length u"
  shows "dval u' (Suc uj) i + uint t' * 65536 ^ i = dval u (Suc uj) i + dval v (Suc vo) i + uint t \<and>
    uint t' \<le> 1 \<and> length u' = length u \<and> (\<forall>k. k \<le> uj \<or> uj + i < k \<longrightarrow> u' ! k = u ! k)"
  using assms
proof (induction i arbitrary: u t)
  case (Suc i)
  define X where "X = uint t + uint (u ! (uj + Suc i)) + uint (v ! (vo + Suc i))"
  define t1 where "t1 = t + (ul (u ! (uj + Suc i)) + ul (v ! (vo + Suc i)))"
  note d = add_back_digit [OF Suc.prems(2) t1_def, folded X_def]
  define ua where "ua = u[uj + Suc i := digit (LHALF t1)]"
  have run: "add_back ua uj v vo i (HHALF t1) = (u', t')" using Suc.prems(1) unfolding ua_def t1_def by (simp add: Let_def)
  note ih = Suc.IH [OF run d(3)]
  have la: "uj + i < length ua" using Suc.prems(3) by (simp add: ua_def)
  have same: "dval ua (Suc uj) i = dval u (Suc uj) i" by (rule dval_cong) (simp add: ua_def)
  have last: "u' ! (Suc uj + i) = digit (LHALF t1)" using ih [OF la] Suc.prems(3) by (simp add: ua_def)
  have "uint (HHALF t1) * 65536 + X mod 65536 = X" using d(2) by simp
  then have "uint (u' ! (Suc uj + i)) = X - uint (HHALF t1) * 65536" using d(1) last by simp
  then have "dval u' (Suc uj) (Suc i) + uint t' * 65536 ^ Suc i =
      (dval u' (Suc uj) i + uint t' * 65536 ^ i) * 65536 + X - uint (HHALF t1) * 65536" by (simp add: algebra_simps)
  also have "\<dots> = dval u (Suc uj) (Suc i) + dval v (Suc vo) (Suc i) + uint t"
    using ih [OF la] same by (simp add: X_def algebra_simps)
  finally show ?case using ih [OF la] by (auto simp: ua_def)
qed simp

subsection \<open>The estimate of a digit\<close>

text \<open>
  The loop keeps \<open>N = qhat * v1 + rhat\<close> and stops at the largest estimate that the first two digits of the
  divisor allow.
\<close>

lemma qhat_loop_spec:
  assumes "0 < uint v1" "uint v1 < 65536" "uint v2 < 65536" "uint u2 < 65536" "uint q < 65536" "uint r < 65536"
    "N = uint q * uint v1 + uint r"
  shows "uint (qhat_loop v1 v2 u2 q r) \<le> uint q \<and>
    uint (qhat_loop v1 v2 u2 q r) * (uint v1 * 65536 + uint v2) \<le> N * 65536 + uint u2 \<and>
    (\<forall>x. x \<le> uint q \<and> x * (uint v1 * 65536 + uint v2) \<le> N * 65536 + uint u2 \<longrightarrow> x \<le> uint (qhat_loop v1 v2 u2 q r))"
  using assms
proof (induction v1 v2 u2 q r rule: qhat_loop.induct)
  case (1 v1 v2 u2 q r)
  have "uint v2 * uint q \<le> 65535 * 65535" using 1(4,6) by (intro mult_mono) auto
  then have p: "uint (v2 * q) = uint v2 * uint q" by (simp add: uint_word_ariths mod_pos_pos_trivial)
  have c: "uint (COMBINE r u2) = uint r * 65536 + uint u2" by (rule uint_COMBINE [OF 1(7,5)])
  have e: "uint q * (uint v1 * 65536 + uint v2) \<le> N * 65536 + uint u2 \<longleftrightarrow> uint v2 * uint q \<le> uint r * 65536 + uint u2"
    unfolding 1(8) by (simp add: algebra_simps)
  show ?case
  proof (cases "v2 * q > COMBINE r u2")
    case False
    then have "uint v2 * uint q \<le> uint r * 65536 + uint u2" using p c by (simp add: word_le_def not_less)
    then show ?thesis using False e by (auto simp: qhat_loop.simps [of v1 v2 u2 q r])
  next
    case True
    then have less: "\<not> uint q * (uint v1 * 65536 + uint v2) \<le> N * 65536 + uint u2"
      using p c e by (simp add: word_less_def)
    have "q \<noteq> 0" using True by auto
    then have q0: "0 < uint q" using uint_0_iff uint_nonnegative by (metis order_le_less)
    then have q1: "uint (q - 1) = uint q - 1" using uint_sub_lem [where x = q and y = 1] by simp
    have r1: "uint (r + v1) = uint r + uint v1" using 1(3,7) uint_add_lem [where x = r and y = v1] by simp
    have N: "N = uint (q - 1) * uint v1 + uint (r + v1)" unfolding q1 r1 1(8) by (simp add: algebra_simps)
    have least: "x \<le> uint q - 1" if "x \<le> uint q" "x * (uint v1 * 65536 + uint v2) \<le> N * 65536 + uint u2" for x
      using that less by (cases "x = uint q") auto
    show ?thesis
    proof (cases "r + v1 \<ge> BASE")
      case True2: True
      have "uint (q - 1) * uint v2 \<le> 65534 * 65535" using q1 1(4,6) q0 by (intro mult_mono) auto
      moreover have "65536 \<le> uint (r + v1)" using True2 by (simp add: word_le_def)
      ultimately have "uint (q - 1) * uint v2 \<le> uint (r + v1) * 65536 + uint u2" using uint_nonnegative [of u2] by linarith
      then have "uint (q - 1) * (uint v1 * 65536 + uint v2) \<le> N * 65536 + uint u2" unfolding N by (simp add: algebra_simps)
      then show ?thesis using True True2 least q1 by (simp add: qhat_loop.simps [of v1 v2 u2 q r])
    next
      case False
      then have "uint (r + v1) < 65536" by (simp add: word_less_def not_le)
      moreover have "uint (q - 1) < 65536" using q1 1(6) by simp
      ultimately have ih: "uint (qhat_loop v1 v2 u2 (q - 1) (r + v1)) \<le> uint (q - 1) \<and>
          uint (qhat_loop v1 v2 u2 (q - 1) (r + v1)) * (uint v1 * 65536 + uint v2) \<le> N * 65536 + uint u2 \<and>
          (\<forall>x. x \<le> uint (q - 1) \<and> x * (uint v1 * 65536 + uint v2) \<le> N * 65536 + uint u2 \<longrightarrow> x \<le> uint (qhat_loop v1 v2 u2 (q - 1) (r + v1)))"
        using 1(1) [OF True False 1(2,3,4,5) _ _ N] by simp
      have run: "qhat_loop v1 v2 u2 q r = qhat_loop v1 v2 u2 (q - 1) (r + v1)"
        by (subst qhat_loop.simps) (simp only: True False if_True if_False)
      show ?thesis unfolding run using ih least q1 by fastforce
    qed
  qed
qed

lemma uint_div_mod: "uint (a div b :: u32) = uint a div uint b" "uint (a mod b :: u32) = uint a mod uint b"
  by (simp_all add: uint_div_distrib uint_mod_distrib)

lemma zdiv_less: "0 < V \<Longrightarrow> W < V * c \<Longrightarrow> W div V < (c :: int)"
proof (rule ccontr)
  assume a: "0 < V" "W < V * c" "\<not> W div V < c"
  then have "V * c \<le> V * (W div V)" by (intro mult_left_mono) auto
  also have "\<dots> \<le> W" using pos_mod_sign [OF a(1), of W] mult_div_mod_eq [of V W] by linarith
  finally show False using a(2) by simp
qed

lemma le_zdiv: "0 < V \<Longrightarrow> x * V \<le> W \<Longrightarrow> x \<le> W div (V :: int)"
  using zdiv_mono1 [of "x * V" W V] by simp

lemma qhat_of_spec:
  assumes "0 < uint v1" "uint v1 < 65536" "uint v2 < 65536" "uint u1 < 65536" "uint u2 < 65536" "uint u0 \<le> uint v1"
  defines "T \<equiv> (uint u0 * 65536 + uint u1) * 65536 + uint u2" and "D \<equiv> uint v1 * 65536 + uint v2"
  defines "Q \<equiv> uint (qhat_of v1 v2 u0 u1 u2)"
  shows "Q \<le> 65535 \<and> Q * D \<le> T \<and> (\<forall>x. x \<le> 65535 \<and> x * D \<le> T \<longrightarrow> x \<le> Q)"
proof -
  have B: "uint (BASE - 1) = 65535" using uint_sub_lem [where x = BASE and y = 1] by simp
  show ?thesis
  proof (cases "u0 = v1")
    case eq: True
    have r1: "uint (u1 + v1) = uint u1 + uint v1" using assms(2,4) uint_add_lem [where x = u1 and y = v1] by simp
    have N: "uint u0 * 65536 + uint u1 = uint (BASE - 1) * uint v1 + uint (u1 + v1)" unfolding B r1 eq by simp
    show ?thesis
    proof (cases "u1 + v1 \<ge> BASE")
      case True
      then have "65536 \<le> uint (u1 + v1)" by (simp add: word_le_def)
      moreover have "65535 * uint v2 \<le> 65535 * 65536" using assms(3) by simp
      ultimately have "65535 * uint v2 \<le> uint (u1 + v1) * 65536 + uint u2" using uint_nonnegative [of u2] by linarith
      then have "65535 * D \<le> T" unfolding T_def D_def N B by (simp add: algebra_simps)
      moreover have "Q = 65535" using True eq B by (simp add: Q_def qhat_of_def)
      ultimately show ?thesis by simp
    next
      case False
      then have r: "uint (u1 + v1) < 65536" by (simp add: word_less_def not_le)
      have "Q = uint (qhat_loop v1 v2 u2 (BASE - 1) (u1 + v1))" unfolding Q_def qhat_of_def using False eq by (simp only: if_True if_False simp_thms)
      then show ?thesis
        using qhat_loop_spec [OF assms(1,2,3,5) _ r N] unfolding B T_def D_def by auto
    qed
  next
    case False
    define n where "n = COMBINE u0 u1"
    have "uint u0 \<noteq> uint v1" using False by (simp add: word_uint_eq_iff)
    then have less: "uint u0 \<le> uint v1 - 1" using assms(6) by linarith
    then have n: "uint n = uint u0 * 65536 + uint u1" unfolding n_def using assms(2,4) by (intro uint_COMBINE) simp_all
    have "uint n < uint v1 * 65536" using n less assms(4) by linarith
    then have "uint n div uint v1 < 65536" by (intro zdiv_less assms(1))
    then have q: "uint (n div v1) < 65536" by (simp add: uint_div_mod)
    have "uint n mod uint v1 < 65536" using pos_mod_bound [OF assms(1), of "uint n"] assms(2) by linarith
    then have r: "uint (n mod v1) < 65536" by (simp add: uint_div_mod)
    have N: "uint u0 * 65536 + uint u1 = uint (n div v1) * uint v1 + uint (n mod v1)"
      unfolding uint_div_mod n [symmetric] by simp
    have Q: "Q = uint (qhat_loop v1 v2 u2 (n div v1) (n mod v1))"
      unfolding Q_def qhat_of_def n_def using False by (simp only: if_False Let_def)
    note spec = qhat_loop_spec [OF assms(1,2,3,5) q r N, folded Q T_def D_def]
    have "x \<le> uint (n div v1)" if "x \<le> 65535" "x * D \<le> T" for x
    proof (cases "x \<le> 0")
      case True
      then show ?thesis using uint_nonnegative [of "n div v1"] by linarith
    next
      case x: False
      have "x * uint v1 * 65536 \<le> x * D" using x by (simp add: D_def algebra_simps)
      also have "x * D \<le> uint n * 65536 + uint u2" using that(2) by (simp only: T_def n)
      also have "\<dots> < (uint n + 1) * 65536" using assms(5) by simp
      finally have "x * uint v1 \<le> uint n" by simp
      then have "x \<le> uint n div uint v1" by (rule le_zdiv [OF assms(1)])
      then show ?thesis by (simp add: uint_div_mod)
    qed
    then show ?thesis using spec q by auto
  qed
qed

subsection \<open>One digit of the quotient\<close>

text \<open>An estimate is right or one too large.\<close>

lemma estimate:
  fixes W V :: int
  assumes "0 < P" "V = D * P + vr" "0 \<le> vr" "vr < P" "W = T * P + ur" "0 \<le> ur" "ur < P" "W < V * 65536" "65536 \<le> D" "0 \<le> W"
    "0 \<le> Q" "Q \<le> 65535" "Q * D \<le> T" "\<And>x. x \<le> 65535 \<Longrightarrow> x * D \<le> T \<Longrightarrow> x \<le> Q"
  shows "0 < V" "- V \<le> W - Q * V" "W - Q * V < V"
proof -
  have "65536 * P \<le> D * P" using assms(1,9) by (intro mult_right_mono) auto
  then have V: "65536 * P \<le> V" using assms(2,3) by linarith
  then show pos: "0 < V" using assms(1) by linarith
  have "Q * vr \<le> 65535 * P" using assms(1,3,4,11,12) by (intro mult_mono) auto
  moreover have "Q * D * P \<le> T * P" using assms(1,13) by (intro mult_right_mono) auto
  ultimately have "Q * V \<le> W + 65535 * P" using assms(2,5,6) by (simp add: algebra_simps)
  then show "- V \<le> W - Q * V" using V assms(1) by linarith
  define x where "x = W div V"
  have "x * V + W mod V = W" by (simp add: x_def)
  then have x: "x * V \<le> W" "W < x * V + V" using pos_mod_bound [OF pos, of W] pos_mod_sign [OF pos, of W] by linarith+
  have "x < 65536" unfolding x_def by (intro zdiv_less pos assms(8))
  moreover have "0 \<le> x" using assms(10) pos by (simp add: x_def pos_imp_zdiv_nonneg_iff)
  then have "x * D * P \<le> x * V" using assms(2,3) by (simp add: algebra_simps)
  then have "x * D * P < (T + 1) * P" using x(1) assms(5,7) by (simp add: algebra_simps)
  then have "x * D \<le> T" using assms(1) by simp
  ultimately have "x \<le> Q" using assms(14) by simp
  then have "x * V \<le> Q * V" using pos by (intro mult_right_mono) auto
  then show "W - Q * V < V" using x(2) by linarith
qed

text \<open>The digit in front after the subtraction, and what is left when one addition follows.\<close>

lemma front_digit:
  assumes "uint t < 65536" "- 1 \<le> uint d - uint t" "uint d - uint t \<le> 0" "t1 = ul d - t"
  shows "HHALF t1 \<noteq> 0 \<longleftrightarrow> uint d < uint t" "uint d = uint t \<Longrightarrow> digit (LHALF t1) = 0"
    "uint d < uint t \<Longrightarrow> uint t2 = 1 \<Longrightarrow> digit (LHALF (ul (digit (LHALF t1)) + t2)) = 0"
proof -
  have u: "uint t1 = (uint d - uint t) mod 2 ^ 32" unfolding assms(4) by (simp add: uint_word_ariths)
  have h: "HHALF t1 \<noteq> 0 \<longleftrightarrow> uint t1 div 65536 \<noteq> 0" by (simp add: uint_half(1) flip: uint_0_iff)
  consider "uint d - uint t = 0" | "uint d - uint t = - 1" using assms(2,3) by linarith
  note cases = this
  show "HHALF t1 \<noteq> 0 \<longleftrightarrow> uint d < uint t" using cases by cases (simp_all add: h u)
  show "digit (LHALF t1) = 0" if "uint d = uint t" using that by (intro word_uint_eqI) (simp add: u)
  show "digit (LHALF (ul (digit (LHALF t1)) + t2)) = 0" if "uint d < uint t" "uint t2 = 1"
  proof -
    have "uint d - uint t = - 1" using that assms(2) by linarith
    then have "uint t1 mod 65536 = 65535" by (simp add: u)
    then show ?thesis using that(2) by (intro word_uint_eqI) (simp add: uint_word_ariths)
  qed
qed

lemma carry_digit:
  fixes e :: int
  assumes "R = e * M + x" "0 \<le> x" "x < M" "- V \<le> R" "R < V" "V < M"
  shows "- 1 \<le> e" "e \<le> 0" "0 \<le> R \<longleftrightarrow> e = 0"
proof -
  have "\<not> e \<le> - 2"
  proof
    assume "e \<le> - 2"
    then have "e * M \<le> - 2 * M" using assms(2,3) by (intro mult_right_mono) auto
    then show False using assms by linarith
  qed
  moreover have "\<not> 1 \<le> e"
  proof
    assume "1 \<le> e"
    then have "1 * M \<le> e * M" using assms(2,3) by (intro mult_right_mono) auto
    then show False using assms by linarith
  qed
  ultimately show "- 1 \<le> e" "e \<le> 0" by auto
  then have "e = 0 \<or> e = - 1" by auto
  then show "0 \<le> R \<longleftrightarrow> e = 0" using assms(1,2,3) by auto
qed

lemma divmod_unique:
  fixes W V :: int
  assumes "r = W - q * V" "0 \<le> r" "r < V"
  shows "W div V = q" "W mod V = r"
proof -
  have W: "W = r + q * V" using assms(1) by simp
  have "0 < V" using assms(2,3) by simp
  then show "W div V = q" "W mod V = r" unfolding W using assms(2,3) by (simp_all add: div_pos_pos_trivial mod_pos_pos_trivial)
qed

text \<open>The estimate for the digits \<open>uj, \<dots>, uj + n\<close> of the dividend, a number below the divisor times the base.\<close>

lemma qhat_digits:
  assumes "2 \<le> n" "v ! (vo + 1) \<noteq> 0" "dval u uj (Suc n) < dval v (vo + 1) n * 65536"
    "qh = qhat_of (ul (v ! (vo + 1))) (ul (v ! (vo + 2))) (ul (u ! uj)) (ul (u ! (uj + 1))) (ul (u ! (uj + 2)))"
  shows "uint qh \<le> 65535" "0 < dval v (vo + 1) n" "- dval v (vo + 1) n \<le> dval u uj (Suc n) - uint qh * dval v (vo + 1) n"
    "dval u uj (Suc n) - uint qh * dval v (vo + 1) n < dval v (vo + 1) n"
proof -
  define V where "V = dval v (vo + 1) n"
  define W where "W = dval u uj (Suc n)"
  define k where "k = n - 2"
  have n: "n = Suc (Suc k)" using assms(1) by (simp add: k_def)
  define P :: int where "P = 65536 ^ k"
  define vr where "vr = dval v (vo + 3) k"
  define ur where "ur = dval u (uj + 3) k"
  define v1 v2 u0 u1 u2 where "v1 = ul (v ! (vo + 1))" and "v2 = ul (v ! (vo + 2))" and "u0 = ul (u ! uj)"
    and "u1 = ul (u ! (uj + 1))" and "u2 = ul (u ! (uj + 2))"
  note names = v1_def v2_def u0_def u1_def u2_def
  define D where "D = uint v1 * 65536 + uint v2"
  define T where "T = (uint u0 * 65536 + uint u1) * 65536 + uint u2"
  have V: "V = D * P + vr"
    unfolding V_def n dval_front by (simp add: D_def P_def vr_def names numeral_3_eq_3 algebra_simps)
  have W: "W = T * P + ur"
    unfolding W_def n dval_front by (simp add: T_def P_def ur_def names numeral_3_eq_3 algebra_simps)
  have vr: "0 \<le> vr" "vr < P" and ur: "0 \<le> ur" "ur < P" unfolding vr_def ur_def P_def by (rule dval_bounds)+
  have P: "0 < P" by (simp add: P_def)
  have small: "uint v1 < 65536" "uint v2 < 65536" "uint u0 < 65536" "uint u1 < 65536" "uint u2 < 65536"
    by (simp_all add: names uint_u16)
  have "v1 \<noteq> 0" using assms(2) by (metis names(1) uint_ul_digit uint_0_iff)
  then have v1: "0 < uint v1" using uint_0_iff uint_nonnegative by (metis order_le_less)
  have D: "65536 \<le> D" using v1 uint_nonnegative [of v2] unfolding D_def by linarith
  have WV: "W < V * 65536" using assms(3) by (simp add: W_def V_def)
  have W0: "0 \<le> W" unfolding W_def by (rule dval_bounds)
  have "(D + 1) * P \<le> (uint v1 + 1) * 65536 * P" using P small(2) by (intro mult_right_mono) (auto simp: D_def)
  then have "V \<le> (uint v1 + 1) * (65536 * P)" using V vr(2) by (simp add: algebra_simps)
  moreover have "uint u0 * 65536 * 65536 * P \<le> T * P" using P by (intro mult_right_mono) (auto simp: T_def)
  then have "uint u0 * (65536 * P * 65536) \<le> W" using W ur(1) by (simp add: algebra_simps)
  ultimately have "uint u0 * (65536 * P * 65536) < (uint v1 + 1) * (65536 * P * 65536)" using WV by linarith
  then have u0: "uint u0 \<le> uint v1" using P by simp
  have qh: "qh = qhat_of v1 v2 u0 u1 u2" unfolding assms(4) names ..
  note est = qhat_of_spec [OF v1 small(1,2,4,5) u0, folded qh T_def D_def]
  have Q: "0 \<le> uint qh" "uint qh \<le> 65535" "uint qh * D \<le> T" "\<And>x. x \<le> 65535 \<Longrightarrow> x * D \<le> T \<Longrightarrow> x \<le> uint qh"
    using est by auto
  show "uint qh \<le> 65535" by (rule Q(2))
  show "0 < dval v (vo + 1) n" "- dval v (vo + 1) n \<le> dval u uj (Suc n) - uint qh * dval v (vo + 1) n"
    "dval u uj (Suc n) - uint qh * dval v (vo + 1) n < dval v (vo + 1) n"
    using estimate [OF P V vr W ur WV D W0 Q] unfolding W_def V_def by auto
qed

text \<open>
  D3 to D6: the digits \<open>uj, \<dots>, uj + n\<close> of the dividend, a number below the divisor times the base, give
  one digit of the quotient and are replaced by the remainder.
\<close>

lemma div_step_spec:
  assumes "div_step v vo n u uj = (u', q)" "2 \<le> n" "uj + n < length u" "v ! (vo + 1) \<noteq> 0"
    "dval u uj (Suc n) < dval v (vo + 1) n * 65536"
  shows "uint q = dval u uj (Suc n) div dval v (vo + 1) n" "u' ! uj = 0"
    "dval u' (uj + 1) n = dval u uj (Suc n) mod dval v (vo + 1) n" "length u' = length u"
    "\<forall>k. k < uj \<or> uj + n < k \<longrightarrow> u' ! k = u ! k"
proof -
  define V where "V = dval v (vo + 1) n"
  define W where "W = dval u uj (Suc n)"
  have W0: "0 \<le> W" unfolding W_def by (rule dval_bounds)
  define qh where "qh = qhat_of (ul (v ! (vo + 1))) (ul (v ! (vo + 2))) (ul (u ! uj)) (ul (u ! (uj + 1))) (ul (u ! (uj + 2)))"
  note Q = qhat_digits [OF assms(2,4,5) qh_def, folded V_def W_def]
  note R = Q(2,3,4)
  obtain ua t where ms: "mul_sub u uj v vo qh n 0 = (ua, t)" by fastforce
  have ms': "dval ua (Suc uj) n - uint t * 65536 ^ n = dval u (Suc uj) n - uint qh * V" "uint t < 65536"
    "length ua = length u" "\<And>k. k \<le> uj \<or> uj + n < k \<Longrightarrow> ua ! k = u ! k"
    using mul_sub_spec [OF ms _ _ assms(3)] Q(1) unfolding V_def by auto
  define e where "e = uint (u ! uj) - uint t"
  have "W = uint (u ! uj) * 65536 ^ n + dval u (Suc uj) n" unfolding W_def by (rule dval_front)
  then have eR: "W - uint qh * V = e * 65536 ^ n + dval ua (Suc uj) n"
    using ms'(1) by (simp add: e_def algebra_simps)
  have Vn: "V < 65536 ^ n" unfolding V_def by (rule dval_bounds)
  note ub = dval_bounds [of ua "Suc uj" n]
  note e = carry_digit [OF eR ub R(2,3) Vn]
  define t1 where "t1 = ul (u ! uj) - t"
  define ub where "ub = ua[uj := digit (LHALF t1)]"
  note fd = front_digit [OF ms'(2) _ _ t1_def, folded e_def, OF e(1,2)]
  have uau: "ua ! uj = u ! uj" by (rule ms'(4)) simp
  have step: "(u', q) = (if HHALF t1 \<noteq> 0 then
      (case add_back ub uj v vo n 0 of (u3, t2) \<Rightarrow> (u3[uj := digit (LHALF (ul (u3 ! uj) + t2))], qh - 1)) else (ub, qh))"
    using assms(1) [symmetric] by (simp only: div_step_def Let_def qh_def [symmetric] ms prod.case uau ub_def t1_def)
  have ub: "dval ub (Suc uj) n = dval ua (Suc uj) n" by (rule dval_cong) (simp add: ub_def)
  have ub_nth: "k \<noteq> uj \<Longrightarrow> ub ! k = ua ! k" "ub ! uj = digit (LHALF t1)" "length ub = length ua" for k
    using assms(3) ms'(3) by (simp_all add: ub_def)
  have len: "uj < length ub" "uj + n < length ub" using ub_nth(3) ms'(3) assms(3) by simp_all
  have "uint q = W div V \<and> u' ! uj = 0 \<and> dval u' (Suc uj) n = W mod V \<and> length u' = length u \<and>
      (\<forall>k. k < uj \<or> uj + n < k \<longrightarrow> u' ! k = u ! k)"
  proof (cases "e = 0")
    case True
    then have "(u', q) = (ub, qh)" using step fd(1) by (simp add: e_def)
    moreover have "dval ua (Suc uj) n = W - uint qh * V" using eR True by simp
    note divmod_unique [OF this] 
    ultimately show ?thesis using True e(3) R(3) fd(2) ub ub_nth ms'(3,4) eR by (simp add: e_def)
  next
    case False
    then have neg: "W - uint qh * V < 0" "e = - 1" using e by auto
    obtain u3 t2 where ab: "add_back ub uj v vo n 0 = (u3, t2)" by fastforce
    have u': "u' = u3[uj := digit (LHALF (ul (u3 ! uj) + t2))]" "q = qh - 1"
      using step fd(1) False neg(2) by (simp_all add: ab e_def)
    have ab': "dval u3 (Suc uj) n + uint t2 * 65536 ^ n = dval ua (Suc uj) n + V" "uint t2 \<le> 1" "length u3 = length ua"
      "\<And>k. k \<le> uj \<or> uj + n < k \<Longrightarrow> u3 ! k = ub ! k"
      using add_back_spec [OF ab _ len(2)] ub ub_nth(3) unfolding V_def by auto
    have sum: "dval u3 (Suc uj) n + uint t2 * 65536 ^ n = W - uint qh * V + V + 65536 ^ n"
      using ab'(1) eR neg(2) by simp
    have t2: "uint t2 = 1"
    proof (rule ccontr)
      assume "uint t2 \<noteq> 1"
      then have "uint t2 = 0" using ab'(2) uint_nonnegative [of t2] by linarith
      then show False using sum R(2) dval_bounds(2) [of u3 "Suc uj" n] by simp
    qed
    have "uint qh \<noteq> 0" using neg(1) W0 by auto
    then have "1 \<le> uint qh" using uint_nonnegative [of qh] by linarith
    then have qh: "uint (qh - 1) = uint qh - 1" using uint_sub_lem [where x = qh and y = 1] by simp
    have d3: "dval u3 (Suc uj) n = W - uint (qh - 1) * V" using sum unfolding qh t2 by (simp add: algebra_simps)
    have "0 \<le> W - uint (qh - 1) * V" "W - uint (qh - 1) * V < V" using R(2) neg(1) by (simp_all add: qh algebra_simps)
    note dm = divmod_unique [OF d3 this [folded d3]]
    have "dval u' (Suc uj) n = dval u3 (Suc uj) n" unfolding u' by (rule dval_cong) simp
    moreover have "u' ! uj = 0" using fd(3) neg(2) t2 len ab' ub_nth by (simp add: u' e_def)
    moreover have "u' ! k = u ! k" if "k < uj \<or> uj + n < k" for k using that ab'(4) ub_nth(1) ms'(4) by (auto simp: u')
    ultimately show ?thesis using dm u' ab'(3) ms'(3) by simp
  qed
  then show "uint q = dval u uj (Suc n) div dval v (vo + 1) n" "u' ! uj = 0"
    "dval u' (uj + 1) n = dval u uj (Suc n) mod dval v (vo + 1) n" "length u' = length u"
    "\<forall>k. k < uj \<or> uj + n < k \<longrightarrow> u' ! k = u ! k"
    by (simp_all add: W_def V_def)
qed

text \<open>D2 to D7: the schoolbook division of the digits \<open>uj, \<dots>, uj + n + k\<close>.\<close>

lemma div_step_digit:
  assumes "div_step v vo n u uj = (u', q)" "2 \<le> n" "uj + n < length u" "v ! (vo + 1) \<noteq> 0"
    "dval u uj n < dval v (vo + 1) n"
  shows "uint (digit q) = dval u uj (Suc n) div dval v (vo + 1) n"
    "dval u uj (Suc n) = uint (digit q) * dval v (vo + 1) n + dval u' (uj + 1) n" "u' ! uj = 0"
    "dval u' (uj + 1) n < dval v (vo + 1) n" "length u' = length u" "\<forall>k. k < uj \<or> uj + n < k \<longrightarrow> u' ! k = u ! k"
proof -
  have "dval u uj n + 1 \<le> dval v (vo + 1) n" using assms(5) by simp
  then have less: "dval u uj (Suc n) < dval v (vo + 1) n * 65536" using uint_u16(2) [of "u ! (uj + n)"] by simp
  note s = div_step_spec [OF assms(1-4) less]
  have V: "0 < dval v (vo + 1) n" using assms(5) dval_bounds(1) [of u uj n] by linarith
  have "uint q < 65536" unfolding s(1) by (rule zdiv_less [OF V less])
  then have q: "uint (digit q) = uint q" by (simp add: uint_digit)
  then show "uint (digit q) = dval u uj (Suc n) div dval v (vo + 1) n" using s(1) by simp
  show "dval u uj (Suc n) = uint (digit q) * dval v (vo + 1) n + dval u' (uj + 1) n"
    unfolding q s(1,3) by simp
  show "dval u' (uj + 1) n < dval v (vo + 1) n" unfolding s(3) by (rule pos_mod_bound [OF V])
qed (use div_step_spec [OF assms(1-4)] assms(5) uint_u16 [of "u ! (uj + n)"] in \<open>simp_all\<close>)

lemma div_loop_spec:
  assumes "div_loop v vo n k u uj q qj = (u', q')" "2 \<le> n" "uj + k + n < length u" "v ! (vo + 1) \<noteq> 0"
    "dval u uj n < dval v (vo + 1) n" "qj + k < length q"
  shows "dval u uj (Suc (n + k)) = dval q' qj (Suc k) * dval v (vo + 1) n + dval u' (uj + Suc k) n \<and>
    dval u' (uj + Suc k) n < dval v (vo + 1) n \<and> (\<forall>i. uj \<le> i \<and> i \<le> uj + k \<longrightarrow> u' ! i = 0) \<and>
    (\<forall>i. i < uj \<or> uj + k + n < i \<longrightarrow> u' ! i = u ! i) \<and> (\<forall>i. i < qj \<or> qj + k < i \<longrightarrow> q' ! i = q ! i) \<and>
    length u' = length u \<and> length q' = length q"
  using assms
proof (induction k arbitrary: u uj q qj)
  case 0
  obtain u1 x where s: "div_step v vo n u uj = (u1, x)" by fastforce
  have r: "u' = u1" "q' = q[qj := digit x]" using 0(1) by (simp_all add: s Let_def)
  note d = div_step_digit [OF s 0(2) _ 0(4,5)]
  show ?case unfolding r using d 0(3,6) by auto
next
  case (Suc k)
  obtain u1 x where s: "div_step v vo n u uj = (u1, x)" by fastforce
  define q1 where "q1 = q[qj := digit x]"
  have run: "div_loop v vo n k u1 (uj + 1) q1 (qj + 1) = (u', q')" using Suc.prems(1) by (simp add: s Let_def q1_def)
  have "uj + n < length u" using Suc.prems(3) by simp
  note d = div_step_digit [OF s Suc.prems(2) this Suc.prems(4,5)]
  have ih: "dval u1 (uj + 1) (Suc (n + k)) = dval q' (qj + 1) (Suc k) * dval v (vo + 1) n + dval u' (uj + Suc (Suc k)) n \<and>
    dval u' (uj + Suc (Suc k)) n < dval v (vo + 1) n \<and> (\<forall>i. uj + 1 \<le> i \<and> i \<le> uj + Suc k \<longrightarrow> u' ! i = 0) \<and>
    (\<forall>i. i < uj + 1 \<or> uj + Suc k + n < i \<longrightarrow> u' ! i = u1 ! i) \<and> (\<forall>i. i < qj + 1 \<or> qj + Suc k < i \<longrightarrow> q' ! i = q1 ! i) \<and>
    length u' = length u1 \<and> length q' = length q1"
    using Suc.IH [OF run Suc.prems(2) _ Suc.prems(4) d(4)] Suc.prems(3,6) d(5) by (simp add: q1_def)
  have low: "dval u1 (uj + Suc n) (Suc k) = dval u (uj + Suc n) (Suc k)" by (rule dval_cong) (use d(6) in simp)
  have "dval u uj (Suc (n + Suc k)) = dval u uj (Suc n) * 65536 ^ Suc k + dval u (uj + Suc n) (Suc k)"
    using dval_split [of u uj "Suc n" "Suc k"] by (simp del: dval.simps)
  also have "\<dots> = uint (digit x) * 65536 ^ Suc k * dval v (vo + 1) n +
      (dval u1 (uj + 1) n * 65536 ^ Suc k + dval u1 (uj + 1 + n) (Suc k))"
    unfolding d(2) low [symmetric] by (simp add: algebra_simps del: dval.simps)
  also have "dval u1 (uj + 1) n * 65536 ^ Suc k + dval u1 (uj + 1 + n) (Suc k) = dval u1 (uj + 1) (Suc (n + k))"
    using dval_split [of u1 "uj + 1" n "Suc k"] by (simp del: dval.simps)
  also have "\<dots> = dval q' (qj + 1) (Suc k) * dval v (vo + 1) n + dval u' (uj + Suc (Suc k)) n" using ih by blast
  finally have "dval u uj (Suc (n + Suc k)) = (uint (digit x) * 65536 ^ Suc k + dval q' (qj + 1) (Suc k)) * dval v (vo + 1) n
      + dval u' (uj + Suc (Suc k)) n" by (simp add: algebra_simps del: dval.simps)
  moreover have "q' ! qj = digit x" using ih Suc.prems(6) by (simp add: q1_def)
  then have "dval q' qj (Suc (Suc k)) = uint (digit x) * 65536 ^ Suc k + dval q' (qj + 1) (Suc k)"
    using dval_front [of q' qj "Suc k"] by (simp del: dval.simps)
  moreover have "u' ! i = 0" if "uj \<le> i" "i \<le> uj + Suc k" for i
    using that ih d(3) by (cases "i = uj") auto
  moreover have "u' ! i = u ! i" if "i < uj \<or> uj + Suc k + n < i" for i using that ih d(6) by auto
  moreover have "q' ! i = q ! i" if "i < qj \<or> qj + Suc k < i" for i using that ih by (auto simp: q1_def)
  ultimately show ?case using ih d(5) by (simp add: q1_def del: dval.simps)
qed

subsection \<open>Shifting the digits\<close>

text \<open>The base is \<open>2 ^ sh\<close> times \<open>2 ^ (16 - sh)\<close>.\<close>

lemma mod_scale:
  fixes x :: int
  assumes "0 < S" "0 < R" "0 \<le> c" "c < S"
  shows "(x * S + c) mod (S * R) = x * S mod (S * R) + c"
proof -
  have "x * S mod (S * R) = S * (x mod R)" by (simp add: mult.commute [of x])
  moreover have "(x * S + c) mod (S * R) = S * (x mod R) + c"
    using assms by (simp add: zmod_zmult2_eq)
  ultimately show ?thesis by simp
qed

lemma shift_up_digit:
  fixes a x y :: int
  assumes "0 < S" "0 < R" "S * R = B" "0 < M" "0 \<le> x" "x < B" "0 \<le> y" "y < M"
  shows "(a * S mod B + x div R) * (B * M) + (x * M + y) * S mod (B * M) = (a * (B * M) + (x * M + y)) * S mod (B * (B * M))"
proof -
  define c where "c = (x * M + y) * S div (B * M)"
  have "(x * M + y) * S div (B * M) = (x * M + y) * S div (M * R * S)" using assms(3) by (simp add: ac_simps)
  also have "\<dots> = (x * M + y) div (M * R)" using assms(1) by simp
  also have "\<dots> = x div R" using assms by (simp add: zdiv_zmult2_eq)
  finally have c: "c = x div R" by (simp add: c_def)
  have "x < R * S" using assms(3,6) by (simp add: mult.commute)
  then have c_less: "0 \<le> c" "c < S" unfolding c using assms(2,5) by (simp_all add: zdiv_less pos_imp_zdiv_nonneg_iff)
  define r where "r = (x * M + y) * S mod (B * M)"
  have BM: "0 < B * M" using assms(1-4) by auto
  have r: "0 \<le> r" "r < B * M" using BM by (simp_all add: r_def)
  have "(x * M + y) * S = c * (B * M) + r" by (simp only: c_def r_def div_mult_mod_eq)
  then have "(a * (B * M) + (x * M + y)) * S = (a * S + c) * (B * M) + r" by (simp add: algebra_simps)
  then have "(a * (B * M) + (x * M + y)) * S mod (B * (B * M)) = ((a * S + c) * (B * M) + r) mod ((B * M) * B)"
    by (simp add: ac_simps)
  also have "\<dots> = (B * M) * ((a * S + c) mod B) + r"
  proof -
    have "0 \<le> B" using assms(1-3) by auto
    then have "((a * S + c) * (B * M) + r) mod ((B * M) * B) = (B * M) * (((a * S + c) * (B * M) + r) div (B * M) mod B) + ((a * S + c) * (B * M) + r) mod (B * M)"
      by (rule zmod_zmult2_eq)
    also have "((a * S + c) * (B * M) + r) div (B * M) = a * S + c" using r BM
      by (metis add.commute add_0 div_mult_self3 div_pos_pos_trivial order_less_irrefl)
    also have "((a * S + c) * (B * M) + r) mod (B * M) = r" using r by (simp add: mod_pos_pos_trivial)
    finally show ?thesis .
  qed
  also have "(a * S + c) mod B = a * S mod B + c" unfolding assms(3) [symmetric] by (rule mod_scale [OF assms(1,2) c_less])
  finally show ?thesis by (simp add: c r_def algebra_simps)
qed

lemma shift_down_digit:
  fixes a Y :: int
  assumes "0 < S" "0 < R" "S * R = B" "0 \<le> M" "0 \<le> a" "a < B"
  shows "(Y * B + a) div S mod (M * B) = (Y div S mod M) * B + (a div S + Y mod B * R mod B)"
proof -
  have B: "0 < B" using assms(1-3) by auto
  have "Y * B + a = a + S * (Y * R)" unfolding assms(3) [symmetric] by (simp add: ac_simps)
  from this have T: "(Y * B + a) div S = Y * R + a div S" using div_mult_self2 [of S a "Y * R"] assms(1) by (metis add.commute less_irrefl)
  have "(Y * B + a) div S div B = (Y * B + a) div B div S" 
    using zdiv_zmult2_eq [of B "Y * B + a" S] zdiv_zmult2_eq [of S "Y * B + a" B] B assms(1) by (metis mult.commute order_less_imp_le)
  also have "(Y * B + a) div B = Y" using assms(5,6) by simp
  finally have d: "(Y * B + a) div S div B = Y div S" .
  have c: "0 \<le> a div S" "a div S < R" using assms by (simp_all add: pos_imp_zdiv_nonneg_iff zdiv_less)
  have "(Y * B + a) div S mod B = Y * R mod B + a div S"
    unfolding T using mod_scale [OF assms(2,1) c, of Y] assms(3) by (simp add: mult.commute [of R])
  also have "Y * R mod B = Y mod B * R mod B" by (simp add: mod_mult_left_eq)
  finally have m: "(Y * B + a) div S mod B = Y mod B * R mod B + a div S" .
  have "(Y * B + a) div S mod (B * M) = B * ((Y * B + a) div S div B mod M) + (Y * B + a) div S mod B"
    by (rule zmod_zmult2_eq [OF assms(4)])
  then show ?thesis unfolding d m by (simp add: ac_simps)
qed

lemma uint_ul_shift: "uint (LHALF (push_bit sh (ul a))) = uint a * 2 ^ sh mod 65536" if "sh \<le> 16"
proof -
  have "uint a * 2 ^ sh < 65536 * 2 ^ 16" using uint_u16 [of a] power_increasing [OF that, of "2 :: int"]
    by (intro mult_less_le_imp_less) auto
  then have "uint (push_bit sh (ul a)) = uint a * 2 ^ sh"
    by (subst unsigned_push_bit_eq) (simp add: push_bit_eq_mult take_bit_eq_mod mod_pos_pos_trivial)
  then show ?thesis by (simp add: uint_half)
qed

text \<open>One digit of the shifted number: the two parts have no bit in common.\<close>

lemma digit_join:
  assumes "0 < d" "d < 16"
  shows "uint (digit (LHALF (push_bit d (ul a)) OR drop_bit (16 - d) (ul b))) = uint a * 2 ^ d mod 65536 + uint b div 2 ^ (16 - d)"
proof -
  define x y where "x = LHALF (push_bit d (ul a))" and "y = drop_bit (16 - d) (ul b)"
  have "d \<le> n" if "bit x n" for n using that by (simp add: x_def LHALF_def bit_simps)
  moreover have "n < d" if "bit y n" for n
  proof -
    have "bit (ul b) (16 - d + n)" using that by (simp add: y_def bit_drop_bit_eq)
    then have "bit b (16 - d + n)" by (simp add: ul_def bit_ucast_iff)
    from bit_imp_le_length [OF this] show "n < d" by simp
  qed
  ultimately have "x AND y = 0" by (auto simp: bit_eq_iff bit_and_iff) (metis not_le)
  then have s: "x OR y = x + y" by (simp flip: disjunctive_add_eq_or)
  have x: "uint x = uint a * 2 ^ d mod 65536" unfolding x_def by (rule uint_ul_shift) (use assms in simp)
  have y: "uint y = uint b div 2 ^ (16 - d)" 
    using uint_u16 [of b] by (simp only: y_def unsigned_drop_bit_eq) (simp add: drop_bit_eq_div take_bit_int_eq_self)
  have SR: "(2 :: int) ^ d * 2 ^ (16 - d) = 65536" using assms(2) by (simp flip: power_add)
  have c: "0 \<le> uint y" "uint y < 2 ^ d" unfolding y using uint_u16 [of b] SR
    by (auto intro!: zdiv_less simp: mult.commute pos_imp_zdiv_nonneg_iff)
  have "uint (x + y) mod 65536 = (uint x + uint y) mod 65536" by (simp add: uint_word_ariths mod_mod_cancel)
  also have "\<dots> = (uint a * 2 ^ d + uint y) mod (2 ^ d * 2 ^ (16 - d))" unfolding x SR by (simp add: mod_add_left_eq)
  also have "\<dots> = uint a * 2 ^ d mod 65536 + uint y" by (subst mod_scale [OF _ _ c]) (simp_all add: SR)
  finally show ?thesis by (simp add: uint_digit s y flip: x_def y_def)
qed

lemma digit_join_down:
  assumes "0 < d" "d < 16"
  shows "uint (digit (drop_bit d (ul a) OR LHALF (push_bit (16 - d) (ul b)))) = uint a div 2 ^ d + uint b * 2 ^ (16 - d) mod 65536"
  using digit_join [of "16 - d" b a] assms by (simp add: or.commute add.commute)

lemma shl_spec:
  assumes "0 < d" "d < 16" "i + k < length p"
  shows "dval (shl p i k d) i (Suc k) = dval p i (Suc k) * 2 ^ d mod 65536 ^ Suc k \<and> length (shl p i k d) = length p \<and>
    (\<forall>j. j < i \<or> i + k < j \<longrightarrow> shl p i k d ! j = p ! j)"
  using assms(3)
proof (induction k arbitrary: p i)
  case 0
  then show ?case using assms(2) by (simp add: uint_ul_shift uint_digit)
next
  case (Suc k)
  define p1 where "p1 = p[i := digit (LHALF (push_bit d (ul (p ! i))) OR drop_bit (16 - d) (ul (p ! (i + 1))))]"
  have ih: "dval (shl p1 (i + 1) k d) (i + 1) (Suc k) = dval p1 (i + 1) (Suc k) * 2 ^ d mod 65536 ^ Suc k \<and>
    length (shl p1 (i + 1) k d) = length p1 \<and> (\<forall>j. j < i + 1 \<or> i + 1 + k < j \<longrightarrow> shl p1 (i + 1) k d ! j = p1 ! j)"
    by (rule Suc.IH) (use Suc.prems in \<open>simp add: p1_def\<close>)
  have run: "shl p i (Suc k) d = shl p1 (i + 1) k d" by (simp add: p1_def)
  have same: "dval p1 (i + 1) (Suc k) = dval p (i + 1) (Suc k)" by (rule dval_cong) (simp add: p1_def)
  have front: "uint (shl p1 (i + 1) k d ! i) = uint (p ! i) * 2 ^ d mod 65536 + uint (p ! (i + 1)) div 2 ^ (16 - d)"
    using ih Suc.prems digit_join [OF assms(1,2)] by (simp add: p1_def)
  have SR: "(2 :: int) ^ d * 2 ^ (16 - d) = 65536" using assms(2) by (simp flip: power_add)
  have "dval (shl p1 (i + 1) k d) i (Suc (Suc k)) =
      (uint (p ! i) * 2 ^ d mod 65536 + uint (p ! (i + 1)) div 2 ^ (16 - d)) * (65536 * 65536 ^ k)
      + (uint (p ! (i + 1)) * 65536 ^ k + dval p (Suc (i + 1)) k) * 2 ^ d mod (65536 * 65536 ^ k)"
    using ih dval_front [of "shl p1 (i + 1) k d" i "Suc k"] front same dval_front [of p "i + 1" k]
    by (simp del: dval.simps)
  also have "\<dots> = (uint (p ! i) * (65536 * 65536 ^ k) + (uint (p ! (i + 1)) * 65536 ^ k + dval p (Suc (i + 1)) k)) * 2 ^ d
      mod (65536 * (65536 * 65536 ^ k))"
    by (rule shift_up_digit [OF _ _ SR]) (simp_all add: uint_u16 dval_bounds)
  also have "uint (p ! i) * (65536 * 65536 ^ k) + (uint (p ! (i + 1)) * 65536 ^ k + dval p (Suc (i + 1)) k) = dval p i (Suc (Suc k))"
    using dval_front [of p i "Suc k"] dval_front [of p "i + 1" k] by (simp del: dval.simps)
  finally show ?case unfolding run using ih by (simp add: p1_def del: dval.simps)
qed

lemma unshift_spec:
  assumes "0 < d" "d < 16" "um + k < length u"
  shows "dval (unshift u um d k) (um + 1) k = dval u um (Suc k) div 2 ^ d mod 65536 ^ k \<and>
    length (unshift u um d k) = length u \<and> (\<forall>j. j \<le> um \<or> um + k < j \<longrightarrow> unshift u um d k ! j = u ! j)"
  using assms(3)
proof (induction k arbitrary: u)
  case (Suc k)
  define u1 where "u1 = u[um + Suc k := digit (drop_bit d (ul (u ! (um + Suc k))) OR LHALF (push_bit (16 - d) (ul (u ! (um + k)))))]"
  have ih: "dval (unshift u1 um d k) (um + 1) k = dval u1 um (Suc k) div 2 ^ d mod 65536 ^ k \<and>
    length (unshift u1 um d k) = length u1 \<and> (\<forall>j. j \<le> um \<or> um + k < j \<longrightarrow> unshift u1 um d k ! j = u1 ! j)"
    by (rule Suc.IH) (use Suc.prems in \<open>simp add: u1_def\<close>)
  have run: "unshift u um d (Suc k) = unshift u1 um d k" by (simp add: u1_def)
  have same: "dval u1 um (Suc k) = dval u um (Suc k)" by (rule dval_cong) (simp add: u1_def)
  have last: "uint (unshift u1 um d k ! (um + 1 + k)) = uint (u ! (um + Suc k)) div 2 ^ d + uint (u ! (um + k)) * 2 ^ (16 - d) mod 65536"
    using ih Suc.prems digit_join_down [OF assms(1,2)] by (simp add: u1_def)
  have SR: "(2 :: int) ^ d * 2 ^ (16 - d) = 65536" using assms(2) by (simp flip: power_add)
  have m: "dval u um (Suc k) mod 65536 = uint (u ! (um + k))" by (simp add: uint_u16 mod_pos_pos_trivial)
  have "dval (unshift u1 um d k) (um + 1) (Suc k) = (dval u um (Suc k) div 2 ^ d mod 65536 ^ k) * 65536 +
      (uint (u ! (um + Suc k)) div 2 ^ d + dval u um (Suc k) mod 65536 * 2 ^ (16 - d) mod 65536)"
    unfolding m using ih same last by simp
  also have "\<dots> = (dval u um (Suc k) * 65536 + uint (u ! (um + Suc k))) div 2 ^ d mod (65536 ^ k * 65536)"
    by (rule shift_down_digit [OF _ _ SR, symmetric]) (simp_all add: uint_u16)
  also have "dval u um (Suc k) * 65536 + uint (u ! (um + Suc k)) = dval u um (Suc (Suc k))" by simp
  finally show ?case unfolding run using ih by (simp add: u1_def ac_simps del: dval.simps)
qed simp

subsection \<open>Digits of a quad, and leading zeros\<close>

lemma uint_COMBINE_ul: "uint (COMBINE (ul a) (ul b)) = uint a * 65536 + uint b"
  using uint_COMBINE [of "ul a" "ul b"] by (simp add: uint_u16)

lemma uint_of_digits: "uint (of_digits q) = dval q 1 4"
  by (simp add: of_digits_def uint_uu uint_COMBINE_ul numeral_eq_Suc algebra_simps)

lemma half_digits: "uint (digit (HHALF x)) * 65536 + uint (digit (LHALF x)) = uint x"
proof -
  have "uint x div 65536 < 65536" using uint_lt2p [of x] by (intro zdiv_less) simp_all
  then have "uint (digit (HHALF x)) = uint x div 65536" 
    by (simp add: uint_digit uint_half mod_pos_pos_trivial pos_imp_zdiv_nonneg_iff)
  then show ?thesis by simp
qed

lemma dval_digits: "dval (digits q) 1 4 = uint q"
proof -
  have "dval (digits q) 1 4 = (uint (digit (HHALF (ul_H q))) * 65536 + uint (digit (LHALF (ul_H q)))) * 2 ^ 32
      + (uint (digit (HHALF (ul_L q))) * 65536 + uint (digit (LHALF (ul_L q))))"
    by (simp add: digits_def numeral_eq_Suc algebra_simps)
  also have "\<dots> = uint q" unfolding half_digits by (rule uint_halves [symmetric])
  finally show ?thesis .
qed

lemma length_digits [simp]: "length (digits q) = 5" and digits_0 [simp]: "digits q ! 0 = 0"
  by (simp_all add: digits_def)

lemma dval_leading: "(\<And>i. a \<le> i \<Longrightarrow> i < a + k \<Longrightarrow> xs ! i = 0) \<Longrightarrow> dval xs a (k + l) = dval xs (a + k) l"
  using dval_zero [of a k xs] by (simp add: dval_split)

lemma v_scan_spec:
  assumes "v_scan v 4 0 = (n, vo)"
  obtains "n = 1" "vo = 2" "v ! 1 = 0" "v ! 2 = 0" "v ! 3 = 0"
  | "2 \<le> n" "n \<le> 4" "vo = 4 - n" "v ! (vo + 1) \<noteq> 0" "\<And>i. 1 \<le> i \<Longrightarrow> i < 1 + vo \<Longrightarrow> v ! i = 0"
proof -
  have three: "v_scan v 4 0 = (if v ! 1 \<noteq> 0 then (4, 0) else if v ! 2 \<noteq> 0 then (3, 1) else if v ! 3 \<noteq> 0 then (2, 2) else (1, 2))"
  proof -
    have "v_scan v 4 0 = (if v ! 1 \<noteq> 0 then (4, 0) else v_scan v 3 1)" by (subst v_scan.simps) simp
    moreover have "v_scan v 3 1 = (if v ! 2 \<noteq> 0 then (3, 1) else v_scan v 2 2)" by (subst v_scan.simps) (simp add: numeral_2_eq_2)
    moreover have "v_scan v 2 2 = (if v ! 3 \<noteq> 0 then (2, 2) else (1, 2))" by (subst v_scan.simps) (simp add: numeral_3_eq_3)
    ultimately show ?thesis by simp
  qed
  consider "v ! 1 \<noteq> 0" | "v ! 1 = 0" "v ! 2 \<noteq> 0" | "v ! 1 = 0" "v ! 2 = 0" "v ! 3 \<noteq> 0" | "v ! 1 = 0" "v ! 2 = 0" "v ! 3 = 0" by auto
  then show thesis
  proof cases
    case 1 then show ?thesis using assms three that(2) by simp
  next
    case 2 then have "n = 3" "vo = 1" using assms three by simp_all
    then show ?thesis using 2 by (intro that(2)) (auto simp: numeral_eq_Suc less_Suc_eq)
  next
    case 3 then have "n = 2" "vo = 2" using assms three by simp_all
    then show ?thesis using 3 by (intro that(2)) (auto simp: numeral_eq_Suc less_Suc_eq)
  next
    case 4 then show ?thesis using assms three that(1) by simp
  qed
qed

lemma u_scan_spec:
  "u_scan u m uo = (m', uo') \<Longrightarrow> uo \<le> 4 \<Longrightarrow>
    uo \<le> uo' \<and> uo' \<le> 4 \<and> m' = m - int (uo' - uo) \<and> (\<forall>i. uo < i \<and> i \<le> uo' \<longrightarrow> u ! i = 0)"
proof (induction u m uo rule: u_scan.induct)
  case (1 u m uo)
  show ?case
  proof (cases "uo < 4 \<and> u ! (uo + 1) = 0")
    case True
    then have run: "u_scan u (m - 1) (uo + 1) = (m', uo')" using 1(2) by (simp add: u_scan.simps [of u m])
    have "uo < i \<longleftrightarrow> i = uo + 1 \<or> uo + 1 < i" for i by auto
    then show ?thesis using 1(1) [OF True run] True by auto
  next
    case False
    then have "u_scan u m uo = (m, uo)" by (subst u_scan.simps) (simp only: if_False)
    then have "m' = m" "uo' = uo" using 1(2) by simp_all
    then show ?thesis using 1(3) by auto
  qed
qed

lemma norm_shift_spec:
  "t \<noteq> 0 \<Longrightarrow> uint t < 65536 \<Longrightarrow> d \<le> norm_shift t d \<and> uint t * 2 ^ (norm_shift t d - d) < 65536"
proof (induction t d rule: norm_shift.induct)
  case (1 t d)
  show ?case
  proof (cases "t = 0 \<or> t \<ge> BASE div 2")
    case True
    then show ?thesis using 1(3) by (simp add: norm_shift.simps [of t d])
  next
    case False
    have "uint (BASE div 2) = 32768" by (simp add: uint_div_mod)
    then have less: "uint t < 32768" using False by (simp add: word_less_def not_le)
    have dbl: "uint (push_bit 1 t) = 2 * uint t" using less
      by (subst unsigned_push_bit_eq) (simp add: push_bit_eq_mult take_bit_eq_mod mod_pos_pos_trivial)
    have "push_bit 1 t \<noteq> 0" using dbl 1(2) by (metis mult_eq_0_iff uint_0_iff zero_neq_numeral)
    then have ih: "d + 1 \<le> norm_shift (push_bit 1 t) (d + 1)"
      "uint t * 2 ^ Suc (norm_shift (push_bit 1 t) (d + 1) - (d + 1)) < 65536"
      using 1(1) [OF False] less dbl by (simp_all add: ac_simps)
    have "norm_shift t d = norm_shift (push_bit 1 t) (d + 1)" using False by (subst norm_shift.simps) (simp only: if_False)
    moreover have "Suc (norm_shift (push_bit 1 t) (d + 1) - (d + 1)) = norm_shift (push_bit 1 t) (d + 1) - d" using ih(1) by simp
    ultimately show ?thesis using ih by simp
  qed
qed

lemma norm_shift_bounds:
  assumes "t \<noteq> 0" "uint t < 65536"
  shows "uint t * 2 ^ norm_shift t 0 < 65536" "norm_shift t 0 < 16"
proof -
  show less: "uint t * 2 ^ norm_shift t 0 < 65536" using norm_shift_spec [OF assms, of 0] by simp
  have "1 \<le> uint t" using assms(1) uint_0_iff [of t] uint_nonnegative [of t] by linarith
  then have "1 * (2 :: int) ^ norm_shift t 0 \<le> uint t * 2 ^ norm_shift t 0" by (intro mult_right_mono) auto
  from le_less_trans [OF this less] have "(2 :: int) ^ norm_shift t 0 < 2 ^ 16" by simp
  then show "norm_shift t 0 < 16" by (rule power_less_imp_less_exp [rotated]) simp
qed

subsection \<open>A divisor of one digit\<close>

lemma next_digit_less: "r < t \<Longrightarrow> d < 65536 \<Longrightarrow> r * 65536 + d < t * (65536 :: int)"
  by linarith

lemma one_digit:
  assumes "uint t < 65536" "uint r < uint t" "x = COMBINE r (ul d)"
  shows "uint (digit (x div t)) = (uint r * 65536 + uint d) div uint t" "uint (x mod t) = (uint r * 65536 + uint d) mod uint t"
    "uint (x mod t) < uint t"
proof -
  have t: "0 < uint t" using assms(2) uint_nonnegative [of r] by linarith
  have x: "uint x = uint r * 65536 + uint d" unfolding assms(3) using uint_COMBINE [of r "ul d"] assms(1,2) by (simp add: uint_u16)
  have "uint x < uint t * 65536" unfolding x by (rule next_digit_less [OF assms(2) uint_u16(2)])
  then have q: "uint x div uint t < 65536" by (rule zdiv_less [OF t])
  have "0 \<le> uint x div uint t" using t by (simp add: pos_imp_zdiv_nonneg_iff)
  then show "uint (digit (x div t)) = (uint r * 65536 + uint d) div uint t"
    using q by (simp add: uint_digit uint_div_mod mod_pos_pos_trivial flip: x)
  show "uint (x mod t) = (uint r * 65536 + uint d) mod uint t" "uint (x mod t) < uint t"
    using t by (simp_all add: uint_div_mod flip: x)
qed

lemma div_one_digit_spec:
  assumes "0 < uint t" "uint t < 65536"
  shows "div_one_digit u t = (a, b) \<Longrightarrow> uint a = dval u 1 4 div uint t \<and> uint b = dval u 1 4 mod uint t"
proof -
  assume run: "div_one_digit u t = (a, b)"
  define r1 where "r1 = ul (u ! 1) mod t"
  define x2 where "x2 = COMBINE r1 (ul (u ! 2))"
  define x3 where "x3 = COMBINE (x2 mod t) (ul (u ! 3))"
  define x4 where "x4 = COMBINE (x3 mod t) (ul (u ! 4))"
  have r1: "uint r1 < uint t" using assms(1) by (simp add: r1_def uint_div_mod)
  note d2 = one_digit [OF assms(2) r1 x2_def]
  note d3 = one_digit [OF assms(2) d2(3) x3_def]
  note d4 = one_digit [OF assms(2) d3(3) x4_def]
  define q1 where "q1 = digit (ul (u ! 1) div t)"
  have "uint (u ! 1) div uint t < 65536" using assms uint_u16(2) [of "u ! 1"]
    by (intro zdiv_less) (auto intro: less_le_trans [of _ 65536])
  then have q1: "uint q1 = uint (u ! 1) div uint t"
    using assms(1) by (simp add: q1_def uint_digit uint_div_mod mod_pos_pos_trivial pos_imp_zdiv_nonneg_iff)
  have ab: "a = uu (COMBINE (ul q1) (ul (digit (x2 div t)))) (COMBINE (ul (digit (x3 div t))) (ul (digit (x4 div t))))"
    "b = ucast (x4 mod t)"
    using run by (simp_all add: div_one_digit_def Let_def q1_def x4_def x3_def x2_def r1_def)
  define Q where "Q = ((uint q1 * 65536 + uint (digit (x2 div t))) * 65536 + uint (digit (x3 div t))) * 65536 + uint (digit (x4 div t))"
  have a: "uint a = Q" by (simp add: ab uint_uu uint_COMBINE_ul Q_def)
  have b: "uint b = uint (x4 mod t)" by (simp add: ab unsigned_ucast_eq)
  have e1: "uint (u ! 1) = uint q1 * uint t + uint r1" by (simp add: q1 r1_def uint_div_mod)
  have e2: "uint r1 * 65536 + uint (u ! 2) = uint (digit (x2 div t)) * uint t + uint (x2 mod t)" unfolding d2(1,2) by simp
  have e3: "uint (x2 mod t) * 65536 + uint (u ! 3) = uint (digit (x3 div t)) * uint t + uint (x3 mod t)" unfolding d3(1,2) by simp
  have e4: "uint (x3 mod t) * 65536 + uint (u ! 4) = uint (digit (x4 div t)) * uint t + uint (x4 mod t)" unfolding d4(1,2) by simp
  have "dval u 1 4 = ((uint (u ! 1) * 65536 + uint (u ! 2)) * 65536 + uint (u ! 3)) * 65536 + uint (u ! 4)"
    by (simp add: numeral_eq_Suc)
  also have "\<dots> = Q * uint t + uint (x4 mod t)" unfolding Q_def e1 using e2 e3 e4 by (simp add: algebra_simps)
  finally have "uint (x4 mod t) = dval u 1 4 - Q * uint t" by simp
  from divmod_unique [OF this uint_nonnegative d4(3)] show ?thesis using a b by simp
qed

subsection \<open>The long division\<close>

lemma pow_base_Suc: "(65536 :: int) ^ Suc k = 65536 * 65536 ^ k" by simp

lemma shifted_divisor:
  assumes "v ! (vo + 1) \<noteq> 0" "vo + Suc k < length v" "d < 16" "uint (v ! (vo + 1)) * 2 ^ d < 65536"
    "v1 = (if d > 0 then shl v (vo + 1) k d else v)"
  shows "dval v1 (vo + 1) (Suc k) = dval v (vo + 1) (Suc k) * 2 ^ d" "v1 ! (vo + 1) \<noteq> 0"
    "65536 ^ k \<le> dval v (vo + 1) (Suc k)"
proof -
  define t where "t = uint (v ! (vo + 1))"
  have front: "dval v (vo + 1) (Suc k) = t * 65536 ^ k + dval v (Suc (vo + 1)) k" unfolding t_def by (rule dval_front)
  have "1 \<le> t" using assms(1) uint_0_iff [of "v ! (vo + 1)"] uint_nonnegative [of "v ! (vo + 1)"] unfolding t_def by linarith
  then have "1 * 65536 ^ k \<le> t * 65536 ^ k" by (intro mult_right_mono) auto
  then show ge: "65536 ^ k \<le> dval v (vo + 1) (Suc k)" unfolding front using dval_bounds(1) [of v "Suc (vo + 1)" k] by linarith
  have SR: "(2 :: int) ^ d * 2 ^ (16 - d) = 65536" using assms(3) by (simp flip: power_add)
  have "t * 2 ^ d < 2 ^ (16 - d) * 2 ^ d" using assms(4) SR by (simp add: t_def mult.commute)
  then have "t + 1 \<le> 2 ^ (16 - d)" by simp
  then have "(t + 1) * 65536 ^ k \<le> 2 ^ (16 - d) * 65536 ^ k" by (intro mult_right_mono) auto
  then have "dval v (vo + 1) (Suc k) < 2 ^ (16 - d) * 65536 ^ k"
    unfolding front using dval_bounds(2) [of v "Suc (vo + 1)" k] by (simp add: algebra_simps)
  then have "dval v (vo + 1) (Suc k) * 2 ^ d < 2 ^ (16 - d) * 65536 ^ k * 2 ^ d" by (intro mult_strict_right_mono) auto
  also have "2 ^ (16 - d) * 65536 ^ k * 2 ^ d = (2 ^ d * 2 ^ (16 - d)) * (65536 :: int) ^ k" by (simp only: ac_simps)
  finally have less: "dval v (vo + 1) (Suc k) * 2 ^ d < 65536 ^ Suc k" unfolding SR pow_base_Suc .
  show val: "dval v1 (vo + 1) (Suc k) = dval v (vo + 1) (Suc k) * 2 ^ d"
  proof (cases "d > 0")
    case True
    then have "dval v1 (vo + 1) (Suc k) = dval v (vo + 1) (Suc k) * 2 ^ d mod 65536 ^ Suc k"
      using shl_spec [OF True assms(3), of "vo + 1" k v] assms(2,5) by (simp del: dval.simps)
    then show ?thesis using less dval_bounds(1) [of v "vo + 1" "Suc k"] by (simp add: mod_pos_pos_trivial del: dval.simps)
  qed (use assms(5) in simp)
  show "v1 ! (vo + 1) \<noteq> 0"
  proof
    assume "v1 ! (vo + 1) = 0"
    then have "dval v1 (vo + 1) (Suc k) < 65536 ^ k"
      using dval_front [of v1 "vo + 1" k] dval_bounds(2) [of v1 "Suc (vo + 1)" k] by (simp del: dval.simps)
    moreover have "dval v (vo + 1) (Suc k) * 1 \<le> dval v (vo + 1) (Suc k) * 2 ^ d"
      using dval_bounds(1) [of v "vo + 1" "Suc k"] by (intro mult_left_mono) (simp_all del: dval.simps)
    ultimately show False using ge val by linarith
  qed
qed

lemma shifted_dividend:
  assumes "u ! uo = 0" "uo + k < length u" "d < 16" "u1 = (if d > 0 then shl u uo k d else u)"
  shows "dval u1 uo (Suc k) = dval u uo (Suc k) * 2 ^ d \<and> length u1 = length u \<and> (\<forall>j. j < uo \<longrightarrow> u1 ! j = u ! j)"
proof (cases "d > 0")
  case True
  have "dval u uo (Suc k) < 65536 ^ k" using dval_front [of u uo k] assms(1) dval_bounds(2) [of u "Suc uo" k] by (simp del: dval.simps)
  moreover have "(2 :: int) ^ d \<le> 2 ^ 16" using assms(3) by (intro power_increasing) auto
  ultimately have "dval u uo (Suc k) * 2 ^ d < 65536 ^ k * 2 ^ 16"
    using dval_bounds(1) [of u uo "Suc k"] by (intro mult_less_le_imp_less) (simp_all del: dval.simps)
  then have "dval u uo (Suc k) * 2 ^ d < 65536 ^ Suc k" by (simp del: dval.simps)
  then have "dval u uo (Suc k) * 2 ^ d mod 65536 ^ Suc k = dval u uo (Suc k) * 2 ^ d"
    using dval_bounds(1) [of u uo "Suc k"] by (intro mod_pos_pos_trivial) (simp_all del: dval.simps)
  then show ?thesis using shl_spec [OF True assms(3,2)] True assms(4) by (simp del: dval.simps)
qed (use assms(4) in simp)

text \<open>The remainder: it is shifted back in place.\<close>

lemma shifted_back:
  assumes "u ! um = 0" "um + k < length u" "d < 16" "dval u (um + 1) k = r * 2 ^ d" "0 \<le> r"
    "u1 = (if d > 0 then (unshift u um d k)[um := 0] else u)" "\<And>i. i < um \<Longrightarrow> u ! i = 0"
  shows "dval u1 0 (um + 1 + k) = r" "u1 ! 0 = 0"
proof -
  have u1: "u1 ! um = 0 \<and> dval u1 (um + 1) k = r \<and> (\<forall>j. j < um \<longrightarrow> u1 ! j = u ! j)"
  proof (cases "d > 0")
    case True
    define un where "un = unshift u um d k"
    have s: "dval un (um + 1) k = dval u um (Suc k) div 2 ^ d mod 65536 ^ k" "length un = length u" "\<And>j. j \<le> um \<Longrightarrow> un ! j = u ! j"
      using unshift_spec [OF True assms(3,2)] by (simp_all add: un_def)
    have "dval u um (Suc k) = r * 2 ^ d" using dval_front [of u um k] assms(1,4) by (simp del: dval.simps)
    then have "dval un (um + 1) k = r mod 65536 ^ k" using s(1) by (simp del: dval.simps)
    also have "r * 1 \<le> r * 2 ^ d" using assms(5) by (intro mult_left_mono) auto
    then have "r < 65536 ^ k" using assms(4) dval_bounds(2) [of u "um + 1" k] by linarith
    then have "r mod 65536 ^ k = r" using assms(5) by (intro mod_pos_pos_trivial)
    finally have "dval un (um + 1) k = r" .
    moreover have "u1 = un[um := 0]" using True assms(6) by (simp add: un_def)
    moreover have "dval (un[um := 0]) (um + 1) k = dval un (um + 1) k" by (rule dval_cong) simp
    ultimately show ?thesis using s(2,3) assms(2) by simp
  qed (use assms(1,4,6) in simp)
  then show "u1 ! 0 = 0" using assms(7) by (cases "um = 0") auto
  have "dval u1 0 (um + 1 + k) = dval u1 (0 + (um + 1)) k"
    using assms(7) u1 by (intro dval_leading) (auto simp: less_Suc_eq)
  then show "dval u1 0 (um + 1 + k) = r" using u1 by simp
qed

text \<open>The dividend has at least as many digits as the divisor.\<close>

lemma u_scan_digits:
  assumes "u_scan (digits uq) (4 - int (Suc k)) 0 = (m0, uo)" "k \<le> 3" "65536 ^ k \<le> uint uq"
  shows "m0 = 3 - int k - int uo" "uo + k \<le> 3" "\<And>i. i \<le> uo \<Longrightarrow> digits uq ! i = 0" "dval (digits uq) uo (5 - uo) = uint uq"
    "uint uq < 65536 ^ (4 - uo)"
proof -
  have s: "uo \<le> 4" "m0 = 3 - int k - int uo" "\<And>i. 0 < i \<Longrightarrow> i \<le> uo \<Longrightarrow> digits uq ! i = 0"
    using u_scan_spec [OF assms(1)] by simp_all
  show "m0 = 3 - int k - int uo" by (rule s(2))
  show z: "digits uq ! i = 0" if "i \<le> uo" for i using that s(3) by (cases "i = 0") auto
  have "dval (digits uq) 1 (uo + (4 - uo)) = dval (digits uq) (1 + uo) (4 - uo)" by (rule dval_leading) (use z in simp)
  then have val: "dval (digits uq) (Suc uo) (4 - uo) = uint uq" using s(1) dval_digits [of uq] by simp
  then show "uint uq < 65536 ^ (4 - uo)" using dval_bounds(2) [of "digits uq" "Suc uo" "4 - uo"] by simp
  have "5 - uo = Suc (4 - uo)" using s(1) by simp
  then show "dval (digits uq) uo (5 - uo) = uint uq" using val z [of uo] by (simp add: dval_front del: dval.simps)
  have "(65536 :: int) ^ k < 65536 ^ (4 - uo)" using dval_bounds(2) [of "digits uq" "Suc uo" "4 - uo"] val assms(3) by linarith
  then have "k < 4 - uo" by (rule power_less_imp_less_exp [rotated]) simp
  then show "uo + k \<le> 3" by simp
qed

lemma long_division:
  assumes "dval u1 uo (5 - uo) = U * S" "length u1 = 5" "\<And>j. j < uo \<Longrightarrow> u1 ! j = 0"
    "dval v1 (vo + 1) (Suc k) = V * S" "v1 ! (vo + 1) \<noteq> 0" "0 < k" "uo + k + m = 3"
    "0 < S" "0 \<le> U" "U < 65536 ^ (4 - uo)" "65536 ^ k \<le> V"
    "div_loop v1 vo (Suc k) m u1 uo (replicate 5 0) (4 - m) = (u2, q)"
  shows "dval q 1 4 = U div V" "dval u2 (uo + m + 1) (Suc k) = U mod V * S" "\<And>i. i \<le> uo + m \<Longrightarrow> u2 ! i = 0" "length u2 = 5"
proof -
  have V: "0 < V" using assms(11) zero_less_power [of "65536 :: int" k] by linarith
  have split: "dval u1 uo (Suc k + Suc m) = dval u1 uo (Suc k) * 65536 ^ Suc m + dval u1 (uo + Suc k) (Suc m)"
    by (rule dval_split)
  have five: "5 - uo = Suc k + Suc m" "4 - uo = k + Suc m" using assms(7) by simp_all
  have "dval u1 uo (Suc k) * 65536 ^ Suc m \<le> U * S"
    using split assms(1) dval_bounds(1) [of u1 "uo + Suc k" "Suc m"] unfolding five by linarith
  also have "U * S < 65536 ^ (k + Suc m) * S" using assms(8,10) unfolding five by (rule mult_strict_right_mono [rotated])
  also have "\<dots> = 65536 ^ k * S * 65536 ^ Suc m" by (simp add: power_add)
  also have "\<dots> \<le> V * S * 65536 ^ Suc m" using assms(8,11) by (intro mult_right_mono) auto
  finally have top: "dval u1 uo (Suc k) < dval v1 (vo + 1) (Suc k)" unfolding assms(4) by (rule mult_right_less_imp_less) simp
  have loop: "dval u1 uo (Suc (Suc k + m)) = dval q (4 - m) (Suc m) * dval v1 (vo + 1) (Suc k) + dval u2 (uo + Suc m) (Suc k) \<and>
    dval u2 (uo + Suc m) (Suc k) < dval v1 (vo + 1) (Suc k) \<and> (\<forall>i. uo \<le> i \<and> i \<le> uo + m \<longrightarrow> u2 ! i = 0) \<and>
    (\<forall>i. i < uo \<or> uo + m + Suc k < i \<longrightarrow> u2 ! i = u1 ! i) \<and> (\<forall>i. i < 4 - m \<or> 4 - m + m < i \<longrightarrow> q ! i = replicate 5 0 ! i) \<and>
    length u2 = length u1 \<and> length q = length (replicate 5 0 :: u16 list)"
    using assms(2,6,7) by (intro div_loop_spec [OF assms(12) _ _ assms(5) top]) simp_all
  show "length u2 = 5" using loop assms(2) by simp
  show "u2 ! i = 0" if "i \<le> uo + m" for i using that loop assms(3) by (cases "i < uo") auto
  have "q ! i = 0" if "1 \<le> i" "i < 1 + (3 - m)" for i using that loop by simp
  then have "dval q 1 (3 - m + Suc m) = dval q (1 + (3 - m)) (Suc m)" by (rule dval_leading)
  moreover have "1 + (3 - m) = 4 - m" "3 - m + Suc m = 4" using assms(7) by simp_all
  ultimately have q: "dval q 1 4 = dval q (4 - m) (Suc m)" by (simp only:)
  have "U * S = dval q 1 4 * (V * S) + dval u2 (uo + m + 1) (Suc k)"
    using loop assms(1,4) q unfolding five by (simp del: dval.simps)
  then have eq: "dval u2 (uo + m + 1) (Suc k) = (U - dval q 1 4 * V) * S" by (simp add: algebra_simps del: dval.simps)
  have "0 \<le> (U - dval q 1 4 * V) * S" "(U - dval q 1 4 * V) * S < V * S"
    unfolding eq [symmetric] using loop dval_bounds(1) [of u2 "uo + m + 1" "Suc k"] assms(4) by (simp_all del: dval.simps)
  then have "0 \<le> U - dval q 1 4 * V" "U - dval q 1 4 * V < V" using assms(8) by (simp_all add: zero_le_mult_iff del: dval.simps)
  note dm = divmod_unique [OF refl this]
  show "dval q 1 4 = U div V" "dval u2 (uo + m + 1) (Suc k) = U mod V * S" using dm eq by (simp_all del: dval.simps)
qed

lemma uint_u64_mod: "0 \<le> uint (a :: quad) mod uint (b :: quad)"
  by (metis uint_mod_distrib uint_nonnegative)

theorem qdivrem_eq: "qdivrem uq vq = (if vq = 0 then None else Some (uq div vq, uq mod vq))"
proof (cases "vq = 0 \<or> uq < vq")
  case True
  then show ?thesis
    by (auto simp: qdivrem_def word_less_def uint_div_distrib uint_mod_distrib div_pos_pos_trivial mod_pos_pos_trivial intro!: word_uint_eqI)
next
  case False
  obtain n vo where vs: "v_scan (digits vq) 4 0 = (n, vo)" by fastforce
  have "qdivrem uq vq = Some (uq div vq, uq mod vq)"
    using vs
  proof (cases rule: v_scan_spec)
    case 1
    define t where "t = ul (digits vq ! 4)"
    have "uint vq = uint t" using 1 dval_digits [of vq] by (simp add: numeral_eq_Suc t_def)
    moreover have "0 < uint vq" using False uint_0_iff uint_nonnegative by (metis order_le_less)
    ultimately have t: "0 < uint t" "uint t < 65536" "uint vq = uint t" by (simp_all add: t_def uint_u16)
    obtain a b where r: "div_one_digit (digits uq) t = (a, b)" by fastforce
    have "a = uq div vq" "b = uq mod vq" using div_one_digit_spec [OF t(1,2) r] unfolding dval_digits
      by (auto intro!: word_uint_eqI simp: uint_div_distrib uint_mod_distrib t(3))
    then show ?thesis using False vs 1 r by (simp add: qdivrem_def t_def)
  next
    case 2
    define k where "k = n - 1"
    have n: "n = Suc k" "vo + Suc k = 4" "0 < k" using 2 by (auto simp: k_def)
    have "dval (digits vq) 1 (vo + n) = dval (digits vq) (1 + vo) n" by (rule dval_leading) (use 2 in simp)
    then have vval: "dval (digits vq) (vo + 1) (Suc k) = uint vq" using n dval_digits [of vq] by (simp del: dval.simps)
    obtain m0 uo where us: "u_scan (digits uq) (4 - int (Suc k)) 0 = (m0, uo)" by fastforce
    define d where "d = norm_shift (ul (digits vq ! (vo + 1))) 0"
    have "ul (digits vq ! (vo + 1)) \<noteq> 0" using 2(4) by (metis uint_0_iff uint_ul_digit)
    from norm_shift_bounds [OF this, folded d_def] have d: "uint (digits vq ! (vo + 1)) * 2 ^ d < 65536" "d < 16"
      by (simp_all add: uint_u16)
    define u1 where "u1 = (if d > 0 then shl (digits uq) uo (4 - uo) d else digits uq)"
    define v1 where "v1 = (if d > 0 then shl (digits vq) (vo + 1) k d else digits vq)"
    have "vo + Suc k < length (digits vq)" using n by simp
    note v = shifted_divisor [OF 2(4) this d(2,1) v1_def, unfolded vval]
    have "uint vq \<le> uint uq" using False by (simp add: word_less_def)
    then have "65536 ^ k \<le> uint uq" using v(3) by linarith
    with us have u: "m0 = 3 - int k - int uo" "uo + k \<le> 3" "\<And>i. i \<le> uo \<Longrightarrow> digits uq ! i = 0" "dval (digits uq) uo (5 - uo) = uint uq"
      and uless: "uint uq < 65536 ^ (4 - uo)"
      using u_scan_digits n by simp_all
    define m where "m = nat m0"
    have m: "uo + k + m = 3" "m + n = 4 - uo" "Suc (4 - uo) = 5 - uo" using u(1,2) n by (simp_all add: m_def)
    have ul: "dval u1 uo (Suc (4 - uo)) = dval (digits uq) uo (Suc (4 - uo)) * 2 ^ d \<and> length u1 = length (digits uq) \<and> (\<forall>j. j < uo \<longrightarrow> u1 ! j = digits uq ! j)"
      using m u(2,3) by (intro shifted_dividend [OF _ _ d(2) u1_def]) simp_all
    obtain u2 q where loop: "div_loop v1 vo (Suc k) m u1 uo (replicate 5 0) (4 - m) = (u2, q)" by fastforce
    note L = long_division [OF _ _ _ v(1,2) n(3) m(1) _ uint_nonnegative uless v(3) loop]
    define u3 where "u3 = (if d > 0 then (unshift u2 (uo + m) d (Suc k))[uo + m := 0] else u2)"
    have L': "dval q 1 4 = uint uq div uint vq" "dval u2 (uo + m + 1) (Suc k) = uint uq mod uint vq * 2 ^ d"
      "\<And>i. i \<le> uo + m \<Longrightarrow> u2 ! i = 0" "length u2 = 5"
      using L ul u(3,4) m(3) by simp_all
    have rem: "dval u3 0 (uo + m + 1 + Suc k) = uint uq mod uint vq" "u3 ! 0 = 0"
      using L'(3,4) m n uint_u64_mod [of uq vq] by (intro shifted_back [OF _ _ d(2) L'(2) _ u3_def]; simp)+
    have "qdivrem uq vq = Some (of_digits q, of_digits u3)"
    proof -
      have f: "(vq = 0) = False" "(uq < vq) = False" "(n = 1) = False" "n - 1 = k" using False n by auto
      show ?thesis unfolding qdivrem_def Let_def
        by (simp only: f if_False vs prod.case us [folded n(1)] d_def [symmetric] m_def [symmetric] m(2)
            u1_def [symmetric] v1_def [symmetric] loop [folded n(1)] u3_def [symmetric, folded n(1)])
    qed
    moreover have "of_digits q = uq div vq" by (intro word_uint_eqI) (simp only: uint_of_digits L'(1) uint_div_distrib)
    moreover have "uo + m + 1 + Suc k = Suc 4" using m(1) by simp
    then have "dval u3 1 4 = uint uq mod uint vq" using rem dval_front [of u3 0 4] by (simp del: dval.simps)
    then have "of_digits u3 = uq mod vq" by (intro word_uint_eqI) (simp only: uint_of_digits uint_mod_distrib)
    ultimately show ?thesis by simp
  qed
  then show ?thesis using False by simp
qed

subsection \<open>Signed division\<close>

lemma uint_magnitude: "uint (if sint a < 0 then - a else a) = \<bar>sint (a :: quad)\<bar>"
proof (cases "sint a < 0")
  case True
  have "- (2 ^ 63) \<le> sint a" using sint_ge [of a] by simp
  then have b: "0 \<le> - sint a" "- sint a < 2 ^ 64" using True by simp_all
  have "- a = word_of_int (- sint a)" by simp
  then have "uint (- a) = - sint a mod 2 ^ 64" by (simp only: uint_word_of_int) simp
  then show ?thesis using True b by (simp add: mod_pos_pos_trivial)
next
  case False
  have "sint a < 2 ^ 63" using sint_lt [of a] by simp
  moreover have "a = word_of_int (sint a)" by simp
  then have "uint a = uint (word_of_int (sint a) :: quad)" by (rule arg_cong)
  then have "uint a = sint a mod 2 ^ 64" by (simp only: uint_word_of_int) simp
  ultimately show ?thesis using False by (simp add: mod_pos_pos_trivial)
qed

lemma quad_signs_eq:
  "quad_signs a b = (if sint a < 0 then - a else a, if sint b < 0 then - b else b, (sint a < 0) \<noteq> (sint b < 0))"
  by (simp add: quad_signs_def)

lemma word_of_uint: "x = word_of_int (uint (x :: quad))" by simp

lemma divdi3_eq:
  "divdi3 a b = (if b = 0 then None else Some (word_of_int (sint a sdiv sint b)))"
proof (cases "b = 0")
  case True
  then show ?thesis by (simp add: divdi3_def quad_signs_eq qdivrem_eq)
next
  case False
  define ua ub where "ua = (if sint a < 0 then - a else a)" and "ub = (if sint b < 0 then - b else b)"
  have m: "uint ua = \<bar>sint a\<bar>" "uint ub = \<bar>sint b\<bar>" unfolding ua_def ub_def by (rule uint_magnitude)+
  have "ub \<noteq> 0" using False by (simp add: ub_def)
  then have "divdi3 a b = Some (if (sint a < 0) \<noteq> (sint b < 0) then - (ua div ub) else ua div ub)"
    by (simp add: divdi3_def quad_signs_eq qdivrem_eq flip: ua_def ub_def)
  moreover have "ua div ub = word_of_int (\<bar>sint a\<bar> div \<bar>sint b\<bar>)"
    by (subst word_of_uint) (simp only: uint_div_distrib m)
  moreover have "sint b \<noteq> 0" using False signed_word_eqI [of b 0] by auto
  ultimately show ?thesis using False by (auto simp: signed_divide_int_def sgn_if)
qed

lemma moddi3_eq:
  "moddi3 a b = (if b = 0 then None else Some (word_of_int ((if sint b < 0 then - 1 else 1) * (sint a smod sint b))))"
proof (cases "b = 0")
  case True
  then show ?thesis by (simp add: moddi3_def quad_signs_eq qdivrem_eq)
next
  case False
  define ua ub where "ua = (if sint a < 0 then - a else a)" and "ub = (if sint b < 0 then - b else b)"
  have m: "uint ua = \<bar>sint a\<bar>" "uint ub = \<bar>sint b\<bar>" unfolding ua_def ub_def by (rule uint_magnitude)+
  have "ub \<noteq> 0" using False by (simp add: ub_def)
  then have "moddi3 a b = Some (if (sint a < 0) \<noteq> (sint b < 0) then - (ua mod ub) else ua mod ub)"
    by (simp add: moddi3_def quad_signs_eq qdivrem_eq flip: ua_def ub_def)
  moreover have "ua mod ub = word_of_int (\<bar>sint a\<bar> mod \<bar>sint b\<bar>)"
    by (subst word_of_uint) (simp only: uint_mod_distrib m)
  moreover have "sint b \<noteq> 0" using False signed_word_eqI [of b 0] by auto
  ultimately show ?thesis using False by (auto simp: signed_modulo_int_def sgn_if)
qed

subsection \<open>The routines\<close>

text \<open>
  C26: The addition, subtraction, negation and multiplication of 64-bit numbers put together from 32-bit
  halves are those of the ring of 64-bit words: no carry, borrow or partial product is lost.
\<close>
theorem quad_ring_ops: "adddi3 a b = a + b \<and> subdi3 a b = a - b \<and> negdi2 a = - a \<and> muldi3 a b = a * b"
  by (simp only: adddi3_eq subdi3_eq negdi2_eq muldi3_eq simp_thms)

text \<open>
  The bitwise operations, the three shifts by any count and the two three-way comparisons agree with
  those of 64-bit words.
\<close>
theorem quad_bits_and_order:
  "one_cmpldi2 a = NOT a \<and> anddi3 a b = a AND b \<and> iordi3 a b = a OR b \<and> xordi3 a b = a XOR b \<and>
   ashldi3 a n = push_bit n a \<and> lshrdi3 a n = drop_bit n a \<and> ashrdi3 a n = signed_drop_bit n a \<and>
   ucmpdi2 a b = (if a < b then 0 else if b < a then 2 else 1) \<and>
   cmpdi2 a b = (if sint a < sint b then 0 else if sint b < sint a then 2 else 1)"
  by (simp only: bitwise_eq ashldi3_eq lshrdi3_eq ashrdi3_eq ucmpdi2_eq cmpdi2_eq simp_thms)

text \<open>
  C3: Knuth's long division on 16-bit digits is the division of 64-bit words: for every dividend and every
  divisor but zero, which traps, \<open>qdivrem\<close> gives the quotient and the remainder, and \<open>udivdi3\<close> and
  \<open>umoddi3\<close> pass them on.
\<close>
theorem qdivrem_divides:
  "qdivrem uq vq = (if vq = 0 then None else Some (uq div vq, uq mod vq)) \<and>
   udivdi3 uq vq = (if vq = 0 then None else Some (uq div vq)) \<and>
   umoddi3 uq vq = (if vq = 0 then None else Some (uq mod vq))"
  by (simp add: qdivrem_eq udivdi3_def umoddi3_def)

text \<open>
  C35: Signed division truncates towards zero, as C compilers of this machine do. The remainder has the sign of
  the quotient, not of the dividend: for a negative divisor it is the negated remainder, and
  \<open>(a / b) * b + a % b\<close> is not \<open>a\<close>.
\<close>
theorem signed_division_and_remainder:
  "divdi3 a b = (if b = 0 then None else Some (word_of_int (sint a sdiv sint b))) \<and>
   moddi3 a b = (if b = 0 then None else Some (word_of_int ((if sint b < 0 then - 1 else 1) * (sint a smod sint b))))"
  by (simp only: divdi3_eq moddi3_eq simp_thms)

end
