(* ===== verification/Lock.thy ===== *)
theory Lock
  imports Prelude
begin

text \<open>
  Shared and exclusive locks of the kernel, \<^verbatim>\<open>sys/kern/kern_lock.c\<close> and \<^verbatim>\<open>sys/sys/lock.h\<close>, on a machine with one
  processor, where the simple lock that guards the structure is empty. Flag words are sets
  of named bits. The field \<open>lk_wakeups\<close> is the log of the \<open>wakeup\<close> calls of a routine, newest first.

  The count of recursive exclusive locks is a \<open>short\<close>: it wraps around at \<open>2 ^ 15\<close>, which \<open>s16\<close> writes out. The other counts
  are an \<open>int\<close>; that they stay below \<open>2 ^ 31\<close> is a condition of the reachable systems of \<^verbatim>\<open>Lock_Correct\<close>.

  \<open>tsleep\<close> is where other processes run: an operation that sleeps ends with \<open>Sleeps\<close>, with the place and the
  flags as its local variables, and \<open>lockmgr_wake\<close> is what it does afterwards, given what
  \<open>tsleep\<close> returns. An error number of 0 is \<open>None\<close>. The argument \<open>diag\<close> says whether the kernel was built with
  \<^verbatim>\<open>DIAGNOSTIC\<close>; the counts of \<^verbatim>\<open>LOCKDEBUG\<close> are left out.
\<close>

datatype lk_flag =
    LK_NOWAIT | LK_SLEEPFAIL | LK_CANRECURSE | LK_REENABLE
  | LK_WANT_UPGRADE | LK_WANT_EXCL | LK_HAVE_EXCL | LK_WAITDRAIN | LK_DRAINING | LK_DRAINED
  | LK_INTERLOCK | LK_RETRY

definition LK_EXTFLG_MASK :: "lk_flag set" where "LK_EXTFLG_MASK = {LK_NOWAIT, LK_SLEEPFAIL, LK_CANRECURSE}"

datatype lk_type =
    LK_SHARED | LK_EXCLUSIVE | LK_UPGRADE | LK_EXCLUPGRADE | LK_DOWNGRADE | LK_RELEASE | LK_DRAIN | LK_BAD_TYPE

text \<open>What a process sleeps on: the lock, or its flags for a drain.\<close>

datatype lk_chan = LkLock | LkFlags

record lock =
  lk_flags :: "lk_flag set"
  lk_sharecount :: int
  lk_waitcount :: int
  lk_exclusivecount :: int
  lk_prio :: int
  lk_wmesg :: string
  lk_timo :: int
  lk_lockholder :: int
  lk_wakeups :: "lk_chan list"

definition LK_KERNPROC :: int where "LK_KERNPROC = -2"
definition LK_NOPROC :: int where "LK_NOPROC = -1"

definition lockinit :: "int \<Rightarrow> string \<Rightarrow> int \<Rightarrow> lk_flag set \<Rightarrow> lock" where
  "lockinit prio wmesg timo flags =
     \<lparr>lk_flags = flags \<inter> LK_EXTFLG_MASK, lk_sharecount = 0, lk_waitcount = 0, lk_exclusivecount = 0, lk_prio = prio,
      lk_wmesg = wmesg, lk_timo = timo, lk_lockholder = LK_NOPROC, lk_wakeups = []\<rparr>"

text \<open>The status of a lock; 0 is \<open>None\<close>.\<close>

definition lockstatus :: "lock \<Rightarrow> lk_type option" where
  "lockstatus l =
     (if lk_exclusivecount l \<noteq> 0 then Some LK_EXCLUSIVE else if lk_sharecount l \<noteq> 0 then Some LK_SHARED else None)"

subsection \<open>Flags, and what the waits wait for\<close>

definition set_flag :: "lk_flag \<Rightarrow> lock \<Rightarrow> lock" where "set_flag f l = l\<lparr>lk_flags := insert f (lk_flags l)\<rparr>"
definition clear_flag :: "lk_flag \<Rightarrow> lock \<Rightarrow> lock" where "clear_flag f l = l\<lparr>lk_flags := lk_flags l - {f}\<rparr>"
definition add_share :: "int \<Rightarrow> lock \<Rightarrow> lock" where "add_share n l = l\<lparr>lk_sharecount := lk_sharecount l + n\<rparr>"
definition lk_wakeup :: "lk_chan \<Rightarrow> lock \<Rightarrow> lock" where "lk_wakeup c l = l\<lparr>lk_wakeups := c # lk_wakeups l\<rparr>"

definition excl_or_upgrade :: "lock \<Rightarrow> bool" where
  "excl_or_upgrade l \<longleftrightarrow> LK_HAVE_EXCL \<in> lk_flags l \<or> LK_WANT_EXCL \<in> lk_flags l \<or> LK_WANT_UPGRADE \<in> lk_flags l"

definition excl_ahead :: "lock \<Rightarrow> bool" where
  "excl_ahead l \<longleftrightarrow> LK_HAVE_EXCL \<in> lk_flags l \<or> LK_WANT_EXCL \<in> lk_flags l"

definition shared_ahead :: "lock \<Rightarrow> bool" where
  "shared_ahead l \<longleftrightarrow> lk_sharecount l \<noteq> 0 \<or> LK_WANT_UPGRADE \<in> lk_flags l"

definition lock_active :: "lock \<Rightarrow> bool" where
  "lock_active l \<longleftrightarrow> excl_or_upgrade l \<or> lk_sharecount l \<noteq> 0 \<or> lk_waitcount l \<noteq> 0"

text \<open>The place in \<open>lockmgr\<close> at which a process sleeps.\<close>

datatype lk_place = InShared | InUpgrade | InExcl1 | InExcl2 | InDrain

type_synonym lk_outcome = "(lock, lk_place \<times> lk_flag set, errno option) kout"

fun lk_wanted :: "lk_place \<Rightarrow> lock \<Rightarrow> bool" where
  "lk_wanted InShared l = excl_or_upgrade l"
| "lk_wanted InUpgrade l = (lk_sharecount l \<noteq> 0)"
| "lk_wanted InExcl1 l = excl_ahead l"
| "lk_wanted InExcl2 l = shared_ahead l"
| "lk_wanted InDrain l = lock_active l"

subsection \<open>The end of lockmgr\<close>

definition lk_finish :: "errno option \<Rightarrow> lock \<Rightarrow> lk_outcome" where
  "lk_finish err l =
     Ret (if LK_WAITDRAIN \<in> lk_flags l \<and> \<not> lock_active l then lk_wakeup LkFlags (clear_flag LK_WAITDRAIN l) else l) err"

text \<open>The process takes the lock exclusively.\<close>

definition take_excl :: "int \<Rightarrow> lock \<Rightarrow> lk_outcome" where
  "take_excl pid l =
     (let l1 = (set_flag LK_HAVE_EXCL l)\<lparr>lk_lockholder := pid\<rparr>
      in if lk_exclusivecount l1 \<noteq> 0 then Panics else lk_finish None (l1\<lparr>lk_exclusivecount := 1\<rparr>))"

text \<open>The macro \<open>ACQUIRE\<close>, up to its first sleep; \<open>got\<close> is what follows it, given \<open>error\<close>.\<close>

definition ACQUIRE :: "lk_place \<Rightarrow> lk_flag set \<Rightarrow> (errno option \<Rightarrow> lock \<Rightarrow> lk_outcome) \<Rightarrow> lock \<Rightarrow> lk_outcome" where
  "ACQUIRE place ext got l =
     (if lk_wanted place l then Sleeps (l\<lparr>lk_waitcount := lk_waitcount l + 1\<rparr>) (place, ext) else got None l)"

text \<open>The same after a sleep, which returned \<open>err\<close>.\<close>

definition ACQUIRE_wake ::
  "lk_place \<Rightarrow> lk_flag set \<Rightarrow> (errno option \<Rightarrow> lock \<Rightarrow> lk_outcome) \<Rightarrow> errno option \<Rightarrow> lock \<Rightarrow> lk_outcome" where
  "ACQUIRE_wake place ext got err l =
     (let l1 = l\<lparr>lk_waitcount := lk_waitcount l - 1\<rparr>
      in if err \<noteq> None then got err l1
         else if LK_SLEEPFAIL \<in> ext then got (Some ENOLCK) l1
         else ACQUIRE place ext got l1)"

definition shared_got :: "errno option \<Rightarrow> lock \<Rightarrow> lk_outcome" where
  "shared_got err l = (if err \<noteq> None then lk_finish err l else lk_finish None (add_share 1 l))"

definition upgrade_got :: "int \<Rightarrow> errno option \<Rightarrow> lock \<Rightarrow> lk_outcome" where
  "upgrade_got pid err l =
     (let l1 = clear_flag LK_WANT_UPGRADE l in if err \<noteq> None then lk_finish err l1 else take_excl pid l1)"

definition excl2_got :: "int \<Rightarrow> errno option \<Rightarrow> lock \<Rightarrow> lk_outcome" where
  "excl2_got pid err l =
     (let l1 = clear_flag LK_WANT_EXCL l in if err \<noteq> None then lk_finish err l1 else take_excl pid l1)"

definition excl1_got :: "int \<Rightarrow> lk_flag set \<Rightarrow> errno option \<Rightarrow> lock \<Rightarrow> lk_outcome" where
  "excl1_got pid ext err l =
     (if err \<noteq> None then lk_finish err l else ACQUIRE InExcl2 ext (excl2_got pid) (set_flag LK_WANT_EXCL l))"

subsection \<open>The cases of lockmgr\<close>

definition lk_downgrade :: "int \<Rightarrow> lock \<Rightarrow> lk_outcome" where
  "lk_downgrade pid l =
     (if lk_lockholder l \<noteq> pid \<or> lk_exclusivecount l = 0 then Panics
      else
        let l1 = clear_flag LK_HAVE_EXCL ((add_share (lk_exclusivecount l) l)\<lparr>lk_exclusivecount := 0, lk_lockholder := LK_NOPROC\<rparr>)
        in lk_finish None (if lk_waitcount l1 \<noteq> 0 then lk_wakeup LkLock l1 else l1))"

definition lk_shared :: "int \<Rightarrow> lk_flag set \<Rightarrow> lock \<Rightarrow> lk_outcome" where
  "lk_shared pid ext l =
     (if lk_lockholder l \<noteq> pid then
        if LK_NOWAIT \<in> ext \<and> excl_or_upgrade l then lk_finish (Some EBUSY) l else ACQUIRE InShared ext shared_got l
      else lk_downgrade pid (add_share 1 l))"

definition lk_exclusive :: "int \<Rightarrow> lk_flag set \<Rightarrow> lock \<Rightarrow> lk_outcome" where
  "lk_exclusive pid ext l =
     (if lk_lockholder l = pid \<and> pid \<noteq> LK_KERNPROC then
        if LK_CANRECURSE \<notin> ext then Panics
        else lk_finish None (l\<lparr>lk_exclusivecount := s16 (lk_exclusivecount l + 1)\<rparr>)
      else if LK_NOWAIT \<in> ext \<and> (excl_or_upgrade l \<or> lk_sharecount l \<noteq> 0) then lk_finish (Some EBUSY) l
      else ACQUIRE InExcl1 ext (excl1_got pid ext) l)"

definition lk_upgrade :: "int \<Rightarrow> lk_flag set \<Rightarrow> lock \<Rightarrow> lk_outcome" where
  "lk_upgrade pid ext l =
     (if lk_lockholder l = pid \<or> lk_sharecount l \<le> 0 then Panics
      else
        let l1 = add_share (- 1) l
        in if LK_NOWAIT \<in> ext \<and> (LK_WANT_UPGRADE \<in> lk_flags l1 \<or> lk_sharecount l1 > 1) then lk_finish (Some EBUSY) l1
           else if LK_WANT_UPGRADE \<notin> lk_flags l1 then
             ACQUIRE InUpgrade ext (upgrade_got pid) (set_flag LK_WANT_UPGRADE l1)
           else lk_exclusive pid ext (if lk_sharecount l1 = 0 \<and> lk_waitcount l1 \<noteq> 0 then lk_wakeup LkLock l1 else l1))"

definition lk_exclupgrade :: "int \<Rightarrow> lk_flag set \<Rightarrow> lock \<Rightarrow> lk_outcome" where
  "lk_exclupgrade pid ext l =
     (if LK_WANT_UPGRADE \<in> lk_flags l then lk_finish (Some EBUSY) (add_share (- 1) l) else lk_upgrade pid ext l)"

definition lk_release :: "int \<Rightarrow> lock \<Rightarrow> lk_outcome" where
  "lk_release pid l =
     (if lk_exclusivecount l \<noteq> 0 \<and> pid \<noteq> lk_lockholder l then Panics
      else
        let l1 =
          (if lk_exclusivecount l \<noteq> 0 then
             let l2 = l\<lparr>lk_exclusivecount := s16 (lk_exclusivecount l - 1)\<rparr>
             in if lk_exclusivecount l2 = 0 then (clear_flag LK_HAVE_EXCL l2)\<lparr>lk_lockholder := LK_NOPROC\<rparr> else l2
           else if lk_sharecount l \<noteq> 0 then add_share (- 1) l else l)
        in lk_finish None (if lk_waitcount l1 \<noteq> 0 then lk_wakeup LkLock l1 else l1))"

text \<open>The loop of a drain, which is not counted in \<open>lk_waitcount\<close>.\<close>

definition drain_loop :: "int \<Rightarrow> lk_flag set \<Rightarrow> lock \<Rightarrow> lk_outcome" where
  "drain_loop pid ext l =
     (if lock_active l then Sleeps (set_flag LK_WAITDRAIN l) (InDrain, ext)
      else lk_finish None ((set_flag LK_DRAINING (set_flag LK_HAVE_EXCL l))\<lparr>lk_lockholder := pid, lk_exclusivecount := 1\<rparr>))"

definition drain_wake :: "int \<Rightarrow> lk_flag set \<Rightarrow> errno option \<Rightarrow> lock \<Rightarrow> lk_outcome" where
  "drain_wake pid ext err l =
     (if err \<noteq> None then Ret l err else if LK_SLEEPFAIL \<in> ext then Ret l (Some ENOLCK) else drain_loop pid ext l)"

definition lk_drain :: "int \<Rightarrow> lk_flag set \<Rightarrow> lock \<Rightarrow> lk_outcome" where
  "lk_drain pid ext l =
     (if lk_lockholder l = pid then Panics
      else if LK_NOWAIT \<in> ext \<and> lock_active l then lk_finish (Some EBUSY) l
      else drain_loop pid ext l)"

text \<open>The test of \<^verbatim>\<open>DIAGNOSTIC\<close> kernels: \<open>None\<close> when it panics.\<close>

definition drain_check :: "int \<Rightarrow> lk_type \<Rightarrow> lk_flag set \<Rightarrow> lock \<Rightarrow> lock option" where
  "drain_check pid ty flags l =
     (if LK_DRAINING \<in> lk_flags l \<or> LK_DRAINED \<in> lk_flags l then
        if LK_DRAINED \<in> lk_flags l then None
        else if ty \<noteq> LK_RELEASE \<or> lk_lockholder l \<noteq> pid then None
        else
          let l1 = clear_flag LK_DRAINING l
          in Some (if LK_REENABLE \<notin> flags then set_flag LK_DRAINED l1 else l1)
      else Some l)"

fun lk_switch :: "lk_type \<Rightarrow> int \<Rightarrow> lk_flag set \<Rightarrow> lock \<Rightarrow> lk_outcome" where
  "lk_switch LK_SHARED pid ext l = lk_shared pid ext l"
| "lk_switch LK_DOWNGRADE pid ext l = lk_downgrade pid l"
| "lk_switch LK_EXCLUPGRADE pid ext l = lk_exclupgrade pid ext l"
| "lk_switch LK_UPGRADE pid ext l = lk_upgrade pid ext l"
| "lk_switch LK_EXCLUSIVE pid ext l = lk_exclusive pid ext l"
| "lk_switch LK_RELEASE pid ext l = lk_release pid l"
| "lk_switch LK_DRAIN pid ext l = lk_drain pid ext l"
| "lk_switch LK_BAD_TYPE pid ext l = Panics"

definition lk_ext :: "lk_flag set \<Rightarrow> lock \<Rightarrow> lk_flag set" where
  "lk_ext flags l = (flags \<union> lk_flags l) \<inter> LK_EXTFLG_MASK"

text \<open>\<open>proc\<close> is the process number, or \<open>None\<close> for the null pointer.\<close>

definition lockmgr :: "bool \<Rightarrow> lock \<Rightarrow> lk_type \<Rightarrow> lk_flag set \<Rightarrow> int option \<Rightarrow> lk_outcome" where
  "lockmgr diag l ty flags proc =
     (let pid = (case proc of Some p \<Rightarrow> p | None \<Rightarrow> LK_KERNPROC);
          ext = lk_ext flags l
      in case (if diag then drain_check pid ty flags l else Some l) of None \<Rightarrow> Panics
         | Some l1 \<Rightarrow> lk_switch ty pid ext l1)"

text \<open>The rest of the call of \<open>pid\<close> after its sleep at the place.\<close>

fun lockmgr_wake :: "lk_place \<Rightarrow> int \<Rightarrow> lk_flag set \<Rightarrow> errno option \<Rightarrow> lock \<Rightarrow> lk_outcome" where
  "lockmgr_wake InShared pid ext err l = ACQUIRE_wake InShared ext shared_got err l"
| "lockmgr_wake InUpgrade pid ext err l = ACQUIRE_wake InUpgrade ext (upgrade_got pid) err l"
| "lockmgr_wake InExcl1 pid ext err l = ACQUIRE_wake InExcl1 ext (excl1_got pid ext) err l"
| "lockmgr_wake InExcl2 pid ext err l = ACQUIRE_wake InExcl2 ext (excl2_got pid) err l"
| "lockmgr_wake InDrain pid ext err l = drain_wake pid ext err l"

end
