(* ===== verification/Lock_Correct.thy ===== *)
theory Lock_Correct
  imports Lock
begin

text \<open>
  Locks exclude: any number of processes call \<open>lockmgr\<close>, sleep in it, are woken up or interrupted, and at
  all times either one process holds the lock exclusively or the shared count is the number of shared
  locks. The system of processes (\<open>lk_do\<close>) is executable; \<open>lock_inv\<close> relates the lock to what the processes hold
  and where they wait.
\<close>

subsection \<open>Processes\<close>

text \<open>A process runs outside of \<open>lockmgr\<close>, or waits at a place in it, asleep or already woken up.\<close>

datatype lk_pstate = Outside | Waits lk_place "lk_flag set" bool

text \<open>The lock, the processes, and how many shared and exclusive locks each process has been granted.\<close>

record lk_system =
  sys_lock :: lock
  sys_proc :: "int \<Rightarrow> lk_pstate"
  sys_shared :: "int \<Rightarrow> int"
  sys_excl :: "int \<Rightarrow> int"

datatype lk_action = Call int lk_type "lk_flag set" | Wake int "errno option"

fun lk_chan_of :: "lk_place \<Rightarrow> lk_chan" where
  "lk_chan_of InDrain = LkFlags" | "lk_chan_of _ = LkLock"

fun wake_up :: "lk_chan list \<Rightarrow> lk_pstate \<Rightarrow> lk_pstate" where
  "wake_up cs (Waits pl ext w) = Waits pl ext (w \<or> lk_chan_of pl \<in> set cs)"
| "wake_up cs Outside = Outside"

text \<open>What a call takes from its caller at once, and what it grants when it succeeds.\<close>

fun gives_up :: "lk_type \<Rightarrow> int \<times> int \<Rightarrow> int \<times> int" where
  "gives_up LK_UPGRADE (a, b) = (a - 1, b)"
| "gives_up LK_EXCLUPGRADE (a, b) = (a - 1, b)"
| "gives_up _ h = h"

fun granted :: "lk_type \<Rightarrow> int \<times> int \<Rightarrow> int \<times> int" where
  "granted LK_SHARED (a, b) = (a + b + 1, 0)"
| "granted LK_DOWNGRADE (a, b) = (a + b, 0)"
| "granted LK_RELEASE (a, b) = (if b > 0 then (a, b - 1) else (a - 1, b))"
| "granted _ (a, b) = (a, b + 1)"

fun granted_at :: "lk_place \<Rightarrow> int \<times> int \<Rightarrow> int \<times> int" where
  "granted_at InShared (a, b) = (a + 1, b)"
| "granted_at _ (a, b) = (a, b + 1)"

definition set_holds :: "int \<Rightarrow> int \<times> int \<Rightarrow> lk_system \<Rightarrow> lk_system" where
  "set_holds p h s = s\<lparr>sys_shared := (sys_shared s)(p := fst h), sys_excl := (sys_excl s)(p := snd h)\<rparr>"

text \<open>The system after the routine of process \<open>p\<close> ends so; \<open>h\<close> is what it holds, \<open>h'\<close> what it is granted.\<close>

fun lk_after :: "int \<Rightarrow> int \<times> int \<Rightarrow> int \<times> int \<Rightarrow> lk_outcome \<Rightarrow> lk_system \<Rightarrow> lk_system option" where
  "lk_after p h h' (Ret l e) s =
     Some (set_holds p (if e = None then h' else h)
       (s\<lparr>sys_lock := l\<lparr>lk_wakeups := []\<rparr>, sys_proc := (wake_up (lk_wakeups l) \<circ> sys_proc s)(p := Outside)\<rparr>))"
| "lk_after p h h' (Sleeps l (pl, ext)) s =
     Some (set_holds p h
       (s\<lparr>sys_lock := l\<lparr>lk_wakeups := []\<rparr>, sys_proc := (wake_up (lk_wakeups l) \<circ> sys_proc s)(p := Waits pl ext False)\<rparr>))"
| "lk_after p h h' Panics s = None"

definition holds_of :: "lk_system \<Rightarrow> int \<Rightarrow> int \<times> int" where "holds_of s p = (sys_shared s p, sys_excl s p)"

text \<open>One action: a process calls \<open>lockmgr\<close>, or its \<open>tsleep\<close> returns. \<open>None\<close> is a panic, or an action that cannot happen.\<close>

fun lk_do :: "bool \<Rightarrow> lk_action \<Rightarrow> lk_system \<Rightarrow> lk_system option" where
  "lk_do diag (Call p ty flags) s =
     (if sys_proc s p = Outside then
        let h = gives_up ty (holds_of s p)
        in lk_after p h (granted ty h) (lockmgr diag (sys_lock s) ty flags (Some p)) s
      else None)"
| "lk_do diag (Wake p err) s =
     (case sys_proc s p of
        Outside \<Rightarrow> None
      | Waits pl ext woken \<Rightarrow>
          if err = None \<and> \<not> woken then None
          else lk_after p (holds_of s p) (granted_at pl (holds_of s p)) (lockmgr_wake pl p ext err (sys_lock s)) s)"

text \<open>
  The calls that the interface allows: a process upgrades a shared lock it holds, downgrades an exclusive one,
  releases what it holds, locks recursively only where this is permitted and not more than 32767 times, which is as far as the
  count goes, does not drain a lock it holds, and uses no decommissioned lock.
\<close>

fun proper_call :: "bool \<Rightarrow> lk_system \<Rightarrow> int \<Rightarrow> lk_type \<Rightarrow> lk_flag set \<Rightarrow> bool" where
  "proper_call diag s p ty flags \<longleftrightarrow>
     (diag \<longrightarrow> drain_check p ty flags (sys_lock s) \<noteq> None) \<and>
     (case ty of
        LK_SHARED \<Rightarrow> True
      | LK_EXCLUSIVE \<Rightarrow> sys_excl s p > 0 \<longrightarrow> LK_CANRECURSE \<in> lk_ext flags (sys_lock s) \<and> sys_excl s p < 32767
      | LK_UPGRADE \<Rightarrow> sys_shared s p > 0
      | LK_EXCLUPGRADE \<Rightarrow> sys_shared s p > 0
      | LK_DOWNGRADE \<Rightarrow> sys_excl s p > 0
      | LK_RELEASE \<Rightarrow> sys_shared s p > 0 \<or> sys_excl s p > 0
      | LK_DRAIN \<Rightarrow> sys_excl s p = 0
      | LK_BAD_TYPE \<Rightarrow> False)"

text \<open>
  Reachable systems: the processes \<open>ps\<close> make proper calls that the argument \<open>calls\<close> admits, and \<open>intr\<close> says whether a
  sleep can end with an error. The number of shared locks keeps a distance from the end of an \<open>int\<close>.
\<close>

definition lk_allowed :: "bool \<Rightarrow> int set \<Rightarrow> (lk_type \<Rightarrow> lk_flag set \<Rightarrow> bool) \<Rightarrow> bool \<Rightarrow> lk_action \<Rightarrow> lk_system \<Rightarrow> bool" where
  "lk_allowed diag ps calls intr a s \<longleftrightarrow>
     (case a of
        Call p ty flags \<Rightarrow> p \<in> ps \<and> proper_call diag s p ty flags \<and> calls ty (lk_ext flags (sys_lock s))
      | Wake p err \<Rightarrow> p \<in> ps \<and> (err \<noteq> None \<longrightarrow> intr)) \<and>
     lk_sharecount (sys_lock s) < 2 ^ 31 - 2 ^ 16"

definition lk_start :: "int \<Rightarrow> string \<Rightarrow> int \<Rightarrow> lk_flag set \<Rightarrow> lk_system" where
  "lk_start prio wmesg timo flags =
     \<lparr>sys_lock = lockinit prio wmesg timo flags, sys_proc = \<lambda>_. Outside, sys_shared = \<lambda>_. 0, sys_excl = \<lambda>_. 0\<rparr>"

inductive lk_reach ::
  "bool \<Rightarrow> int set \<Rightarrow> (lk_type \<Rightarrow> lk_flag set \<Rightarrow> bool) \<Rightarrow> bool \<Rightarrow> lk_system \<Rightarrow> bool" for diag ps calls intr where
  start: "lk_reach diag ps calls intr (lk_start prio wmesg timo flags)"
| step: "lk_reach diag ps calls intr s \<Longrightarrow> lk_allowed diag ps calls intr a s \<Longrightarrow> lk_do diag a s = Some s' \<Longrightarrow>
    lk_reach diag ps calls intr s'"

text \<open>A schedule.\<close>

fun lk_run ::
  "bool \<Rightarrow> int set \<Rightarrow> (lk_type \<Rightarrow> lk_flag set \<Rightarrow> bool) \<Rightarrow> bool \<Rightarrow> lk_action list \<Rightarrow> lk_system \<Rightarrow> lk_system option" where
  "lk_run diag ps calls intr [] s = Some s"
| "lk_run diag ps calls intr (a # as) s =
     (if lk_allowed diag ps calls intr a s then
        (case lk_do diag a s of Some s' \<Rightarrow> lk_run diag ps calls intr as s' | None \<Rightarrow> None)
      else None)"

lemma lk_run_reach:
  "lk_run diag ps calls intr as s = Some s' \<Longrightarrow> lk_reach diag ps calls intr s \<Longrightarrow> lk_reach diag ps calls intr s'"
  by (induction as arbitrary: s) (auto split: if_splits option.splits intro: lk_reach.step)

subsection \<open>The invariant of the lock\<close>

text \<open>
  \<open>U\<close> are the processes that wait for an upgrade, \<open>X\<close> those that hold the flag \<open>LK_WANT_EXCL\<close>, \<open>n\<close> the number of processes
  that wait. With \<open>strict\<close> nobody upgrades.
\<close>

definition linv ::
  "bool \<Rightarrow> int set \<Rightarrow> lock \<Rightarrow> (int \<Rightarrow> int) \<Rightarrow> (int \<Rightarrow> int) \<Rightarrow> int set \<Rightarrow> int set \<Rightarrow> int \<Rightarrow> bool" where
  "linv strict ps l sh ex U X n \<longleftrightarrow>
     finite ps \<and> LK_NOPROC \<notin> ps \<and> (\<forall>q. 0 \<le> sh q \<and> 0 \<le> ex q \<and> ex q \<le> 32767 \<and> (q \<notin> ps \<longrightarrow> sh q = 0)) \<and>
     lk_sharecount l = sum sh ps \<and> lk_waitcount l = n \<and>
     (if LK_HAVE_EXCL \<in> lk_flags l then
        lk_lockholder l \<in> ps \<and> lk_exclusivecount l = ex (lk_lockholder l) \<and> 0 < lk_exclusivecount l \<and>
        (\<forall>q. q \<noteq> lk_lockholder l \<longrightarrow> ex q = 0) \<and> lk_sharecount l = 0 \<and> LK_WANT_UPGRADE \<notin> lk_flags l
      else lk_exclusivecount l = 0 \<and> lk_lockholder l = LK_NOPROC \<and> (\<forall>q. ex q = 0)) \<and>
     (if LK_WANT_UPGRADE \<in> lk_flags l then \<exists>q. U = {q} else U = {}) \<and>
     (if LK_WANT_EXCL \<in> lk_flags l then \<exists>q. X = {q} else X = {}) \<and>
     (strict \<longrightarrow> U = {} \<and> (X = {} \<or> LK_HAVE_EXCL \<notin> lk_flags l))"

definition lgood ::
  "bool \<Rightarrow> int set \<Rightarrow> (int \<Rightarrow> int) \<Rightarrow> (int \<Rightarrow> int) \<Rightarrow> int set \<Rightarrow> int set \<Rightarrow> int \<Rightarrow> int \<Rightarrow> int \<times> int \<Rightarrow> int \<times> int \<Rightarrow> lk_outcome \<Rightarrow> bool" where
  "lgood strict ps sh ex U X n p h h' out \<longleftrightarrow>
     (case out of
        Ret l e \<Rightarrow> linv strict ps l (sh(p := fst (if e = None then h' else h))) (ex(p := snd (if e = None then h' else h))) U X n
      | Sleeps l (pl, ext) \<Rightarrow>
          linv strict ps l (sh(p := fst h)) (ex(p := snd h)) (if pl = InUpgrade then insert p U else U)
            (if pl = InExcl2 then insert p X else X) (if pl = InDrain then n else n + 1)
      | Panics \<Rightarrow> \<not> strict)"

lemma sum_upd: "finite ps \<Longrightarrow> p \<in> ps \<Longrightarrow> sum (f(p := a)) ps = sum f ps - f p + (a :: int)"
proof -
  assume "finite ps" "p \<in> ps"
  then have "sum g ps = g p + sum g (ps - {p})" for g :: "'a \<Rightarrow> int" by (rule sum.remove)
  moreover have "sum (f(p := a)) (ps - {p}) = sum f (ps - {p})" by (rule sum.cong) auto
  ultimately show ?thesis by simp
qed

lemma linv_log [simp]:
  "linv strict ps (lk_wakeup c l) = linv strict ps l"
  "linv strict ps (clear_flag LK_WAITDRAIN l) = linv strict ps l"
  "linv strict ps (set_flag LK_WAITDRAIN l) = linv strict ps l"
  "linv strict ps (l\<lparr>lk_wakeups := ws\<rparr>) = linv strict ps l"
  by (intro ext; simp add: linv_def lk_wakeup_def clear_flag_def set_flag_def)+

lemma lgood_finish [simp]:
  "lgood strict ps sh ex U X n p (a, b) (a', b') (lk_finish e l) \<longleftrightarrow>
     linv strict ps l (sh(p := if e = None then a' else a)) (ex(p := if e = None then b' else b)) U X n"
  by (simp add: lk_finish_def lgood_def)

lemma lgood_Panics [simp]: "lgood strict ps sh ex U X n p h h' Panics \<longleftrightarrow> \<not> strict"
  by (simp add: lgood_def)

lemma lgood_Sleeps [simp]:
  "lgood strict ps sh ex U X n p (a, b) h' (Sleeps l (pl, ext)) \<longleftrightarrow>
     linv strict ps l (sh(p := a)) (ex(p := b)) (if pl = InUpgrade then insert p U else U)
       (if pl = InExcl2 then insert p X else X) (if pl = InDrain then n else n + 1)"
  by (simp add: lgood_def)

lemma linv_wait: "linv strict ps l sh ex U X n \<Longrightarrow> linv strict ps (l\<lparr>lk_waitcount := w\<rparr>) sh ex U X w"
  by (auto simp: linv_def)

lemmas lock_ops = lk_wakeup_def clear_flag_def set_flag_def add_share_def

text \<open>The places: what is known when a wait ends there.\<close>

lemma linv_share:
  assumes "linv strict ps l sh ex U X n" "p \<in> ps" "LK_HAVE_EXCL \<notin> lk_flags l" "0 \<le> sh p + k"
  shows "linv strict ps (add_share k l) (sh(p := sh p + k)) ex U X n"
proof -
  have "finite ps" using assms(1) by (simp add: linv_def)
  from sum_upd [OF this assms(2), of sh "sh p + k"] show ?thesis using assms by (auto simp: linv_def add_share_def)
qed

lemma shared_got_good:
  assumes "linv strict ps l sh ex U X n" "p \<in> ps" "e = None \<longrightarrow> \<not> excl_or_upgrade l"
  shows "lgood strict ps sh ex U X n p (sh p, ex p) (sh p + 1, ex p) (shared_got e l)"
proof -
  have "0 \<le> sh p + 1" using assms(1) by (simp add: linv_def add_nonneg_nonneg)
  then show ?thesis using assms linv_share [OF assms(1,2)]
    by (cases e) (simp_all add: shared_got_def excl_or_upgrade_def)
qed

lemma take_excl_good:
  assumes "linv strict ps l sh ex U X n" "p \<in> ps" "\<not> shared_ahead l" "strict \<longrightarrow> LK_HAVE_EXCL \<notin> lk_flags l \<and> X = {}"
  shows "lgood strict ps sh ex U X n p (a, b) (sh p, ex p + 1) (take_excl p l)"
  using assms by (cases "LK_HAVE_EXCL \<in> lk_flags l") (auto simp: take_excl_def linv_def lock_ops shared_ahead_def Let_def)

lemma drop_upgrade:
  assumes "linv strict ps l sh ex (insert p U) X n" "p \<notin> U"
  shows "linv strict ps (clear_flag LK_WANT_UPGRADE l) sh ex U X n" "LK_HAVE_EXCL \<notin> lk_flags l" "\<not> strict" "U = {}"
proof -
  have u: "LK_WANT_UPGRADE \<in> lk_flags l" using assms(1) by (auto simp: linv_def split: if_splits)
  then have "\<exists>q. insert p U = {q}" using assms(1) by (simp add: linv_def)
  then show "U = {}" using assms(2) by auto
  then show "linv strict ps (clear_flag LK_WANT_UPGRADE l) sh ex U X n" using assms(1) u
    by (cases "LK_HAVE_EXCL \<in> lk_flags l") (simp_all add: linv_def lock_ops)
  show "LK_HAVE_EXCL \<notin> lk_flags l" "\<not> strict" using assms(1) u by (auto simp: linv_def)
qed

lemma drop_excl:
  assumes "linv strict ps l sh ex U (insert p X) n" "p \<notin> X"
  shows "linv strict ps (clear_flag LK_WANT_EXCL l) sh ex U X n" "strict \<Longrightarrow> LK_HAVE_EXCL \<notin> lk_flags l" "X = {}"
proof -
  have u: "LK_WANT_EXCL \<in> lk_flags l" using assms(1) by (auto simp: linv_def split: if_splits)
  then have "\<exists>q. insert p X = {q}" using assms(1) by (simp add: linv_def)
  then show "X = {}" using assms(2) by auto
  then show "linv strict ps (clear_flag LK_WANT_EXCL l) sh ex U X n" using assms(1) u
    by (cases "LK_HAVE_EXCL \<in> lk_flags l") (simp_all add: linv_def lock_ops)
  show "strict \<Longrightarrow> LK_HAVE_EXCL \<notin> lk_flags l" using assms(1) by (auto simp: linv_def)
qed

lemma clear_flag_sel [simp]: "lk_sharecount (clear_flag f l) = lk_sharecount l" "lk_flags (clear_flag f l) = lk_flags l - {f}"
  by (simp_all add: clear_flag_def)

lemma upgrade_got_good:
  assumes "linv strict ps l sh ex (insert p U) X n" "p \<in> ps" "p \<notin> U" "e = None \<longrightarrow> lk_sharecount l = 0"
  shows "lgood strict ps sh ex U X n p (sh p, ex p) (sh p, ex p + 1) (upgrade_got p e l)"
  using drop_upgrade [OF assms(1,3)] assms(2,4)
  by (cases e) (auto simp: upgrade_got_def Let_def shared_ahead_def intro!: take_excl_good)

lemma excl2_got_good:
  assumes "linv strict ps l sh ex U (insert p X) n" "p \<in> ps" "p \<notin> X" "e = None \<longrightarrow> \<not> shared_ahead l"
  shows "lgood strict ps sh ex U X n p (sh p, ex p) (sh p, ex p + 1) (excl2_got p e l)"
  using drop_excl [OF assms(1,3)] assms(2,4)
  by (cases e) (auto simp: excl2_got_def Let_def shared_ahead_def intro!: take_excl_good)

text \<open>What the invariant says about a process that holds something.\<close>

lemma linv_holds:
  assumes "linv strict ps l sh ex U X n" "p \<in> ps"
  shows "0 < sh p \<Longrightarrow> 0 < lk_sharecount l \<and> LK_HAVE_EXCL \<notin> lk_flags l \<and> lk_lockholder l = LK_NOPROC \<and> ex p = 0"
    "0 < ex p \<Longrightarrow> LK_HAVE_EXCL \<in> lk_flags l \<and> lk_lockholder l = p \<and> lk_exclusivecount l = ex p \<and> sh p = 0 \<and> lk_sharecount l = 0"
    "lk_lockholder l = p \<Longrightarrow> 0 < ex p"
    "lk_exclusivecount l \<noteq> 0 \<longleftrightarrow> LK_HAVE_EXCL \<in> lk_flags l"
    "LK_HAVE_EXCL \<in> lk_flags l \<Longrightarrow> sh q = 0"
    "p \<noteq> LK_NOPROC" "0 \<le> sh p" "0 \<le> ex p"
proof -
  have fin: "finite ps" "\<And>q. 0 \<le> sh q" "lk_sharecount l = sum sh ps" using assms(1) by (simp_all add: linv_def)
  have le: "q \<in> ps \<Longrightarrow> sh q \<le> sum sh ps" for q using fin by (intro member_le_sum) auto
  show "lk_exclusivecount l \<noteq> 0 \<longleftrightarrow> LK_HAVE_EXCL \<in> lk_flags l"
    using assms(1) by (cases "LK_HAVE_EXCL \<in> lk_flags l") (auto simp: linv_def)
  show none: "sh q = 0" if "LK_HAVE_EXCL \<in> lk_flags l" for q
    using assms(1) that le [of q] fin(2) [of q] fin(3) by (cases "q \<in> ps") (auto simp: linv_def)
  show "0 < lk_sharecount l \<and> LK_HAVE_EXCL \<notin> lk_flags l \<and> lk_lockholder l = LK_NOPROC \<and> ex p = 0" if "0 < sh p"
    using assms(1) that le [OF assms(2)] fin(3) by (auto simp: linv_def split: if_splits)
  show "LK_HAVE_EXCL \<in> lk_flags l \<and> lk_lockholder l = p \<and> lk_exclusivecount l = ex p \<and> sh p = 0 \<and> lk_sharecount l = 0" if "0 < ex p"
  proof -
    have excl: "LK_HAVE_EXCL \<in> lk_flags l" using assms(1) that by (auto simp: linv_def split: if_splits)
    then have rest: "q \<noteq> lk_lockholder l \<Longrightarrow> ex q = 0" "lk_exclusivecount l = ex (lk_lockholder l)" "lk_sharecount l = 0" for q
      using assms(1) by (simp_all add: linv_def)
    then have "lk_lockholder l = p" using that rest(1) [of p] by (cases "lk_lockholder l = p") auto
    then show ?thesis using excl rest(2,3) none [OF excl] by simp
  qed
  show "0 < ex p" if "lk_lockholder l = p"
    using assms that by (cases "LK_HAVE_EXCL \<in> lk_flags l") (auto simp: linv_def)
  show "p \<noteq> LK_NOPROC" "0 \<le> sh p" "0 \<le> ex p" using assms by (auto simp: linv_def)
qed

lemma linv_want_excl:
  "linv strict ps l sh ex U X n \<Longrightarrow> \<not> excl_ahead l \<Longrightarrow> linv strict ps (set_flag LK_WANT_EXCL l) sh ex U (insert p X) n"
  by (auto simp: linv_def excl_ahead_def lock_ops)

lemma linv_want_upgrade:
  "linv False ps l sh ex U X n \<Longrightarrow> LK_HAVE_EXCL \<notin> lk_flags l \<Longrightarrow> LK_WANT_UPGRADE \<notin> lk_flags l \<Longrightarrow>
    linv False ps (set_flag LK_WANT_UPGRADE l) sh ex (insert p U) X n"
  by (auto simp: linv_def lock_ops)

lemma lgood_upd [simp]:
  "lgood strict ps (sh(p := a)) ex U X n p h h' = lgood strict ps sh ex U X n p h h'"
  "lgood strict ps sh (ex(p := a)) U X n p h h' = lgood strict ps sh ex U X n p h h'"
  by (intro ext; simp add: lgood_def cong: kout.case_cong)+

lemma lgood_ACQUIRE:
  assumes "linv strict ps l sh ex (if pl = InUpgrade then insert p U else U) (if pl = InExcl2 then insert p X else X) n" "pl \<noteq> InDrain"
    "\<not> lk_wanted pl l \<Longrightarrow> lgood strict ps sh ex U X n p (sh p, ex p) h' (got None l)"
  shows "lgood strict ps sh ex U X n p (sh p, ex p) h' (ACQUIRE pl ext got l)"
  using assms linv_wait [OF assms(1), of "n + 1"] by (auto simp: ACQUIRE_def linv_def [of _ _ l])

lemma lgood_ACQUIRE_wake:
  assumes "linv strict ps l sh ex (if pl = InUpgrade then insert p U else U) (if pl = InExcl2 then insert p X else X) (n + 1)" "pl \<noteq> InDrain"
    "\<And>l e. linv strict ps l sh ex (if pl = InUpgrade then insert p U else U) (if pl = InExcl2 then insert p X else X) n \<Longrightarrow>
      (e = None \<Longrightarrow> \<not> lk_wanted pl l) \<Longrightarrow> lgood strict ps sh ex U X n p (sh p, ex p) h' (got e l)"
  shows "lgood strict ps sh ex U X n p (sh p, ex p) h' (ACQUIRE_wake pl ext got e l)"
proof -
  have l1: "linv strict ps (l\<lparr>lk_waitcount := lk_waitcount l - 1\<rparr>) sh ex
      (if pl = InUpgrade then insert p U else U) (if pl = InExcl2 then insert p X else X) n"
    using linv_wait [OF assms(1), of n] assms(1) by (simp add: linv_def [of _ _ l])
  show ?thesis using assms(3) [OF l1] lgood_ACQUIRE [OF l1 assms(2)] assms(2)
    by (auto simp: ACQUIRE_wake_def Let_def)
qed

lemma excl1_got_good:
  assumes "linv strict ps l sh ex U X n" "p \<in> ps" "p \<notin> X" "e = None \<longrightarrow> \<not> excl_ahead l"
  shows "lgood strict ps sh ex U X n p (sh p, ex p) (sh p, ex p + 1) (excl1_got p ext e l)"
proof (cases e)
  case None
  have w: "linv strict ps (set_flag LK_WANT_EXCL l) sh ex U (insert p X) n" using linv_want_excl [OF assms(1)] assms(4) None by simp
  have "lgood strict ps sh ex U X n p (sh p, ex p) (sh p, ex p + 1) (ACQUIRE InExcl2 ext (excl2_got p) (set_flag LK_WANT_EXCL l))"
    by (rule lgood_ACQUIRE) (use w excl2_got_good [OF w assms(2,3)] in simp_all)
  then show ?thesis using None by (simp add: excl1_got_def)
qed (use assms(1) in \<open>simp add: excl1_got_def\<close>)

subsection \<open>The calls keep the invariant\<close>

lemma downgrade_good:
  assumes "linv strict ps l sh ex U X n" "p \<in> ps" "0 < ex p" "0 \<le> k"
  shows "lgood strict ps sh ex U X n p (a, b) (sh p + ex p + k, 0) (lk_downgrade p (add_share k l))"
proof -
  note h = linv_holds [OF assms(1,2)]
  have l: "LK_HAVE_EXCL \<in> lk_flags l" "lk_lockholder l = p" "lk_exclusivecount l = ex p" "sh p = 0" "lk_sharecount l = 0"
    using h(2) [OF assms(3)] by auto
  define l1 where "l1 = clear_flag LK_HAVE_EXCL ((add_share (ex p) (add_share k l))\<lparr>lk_exclusivecount := 0, lk_lockholder := LK_NOPROC\<rparr>)"
  have "finite ps" using assms(1) by (simp add: linv_def)
  from sum_upd [OF this assms(2), of sh "sh p + ex p + k"] have "linv strict ps l1 (sh(p := sh p + ex p + k)) (ex(p := 0)) U X n"
    using assms l by (auto simp: l1_def linv_def lock_ops)
  moreover have "lk_downgrade p (add_share k l) = lk_finish None (if lk_waitcount l1 \<noteq> 0 then lk_wakeup LkLock l1 else l1)"
    using l assms(3) by (simp add: lk_downgrade_def l1_def Let_def add_share_def)
  ultimately show ?thesis by simp
qed

lemma shared_good:
  assumes "linv strict ps l sh ex U X n" "p \<in> ps"
  shows "lgood strict ps sh ex U X n p (sh p, ex p) (granted LK_SHARED (sh p, ex p)) (lk_shared p ext l)"
proof (cases "lk_lockholder l = p")
  case True
  then show ?thesis using downgrade_good [OF assms linv_holds(3) [OF assms True], where k = 1]
    by (simp add: lk_shared_def)
next
  case False
  then have "ex p = 0" using linv_holds(2,8) [OF assms] by fastforce
  have "lgood strict ps sh ex U X n p (sh p, ex p) (sh p + 1, ex p) (ACQUIRE InShared ext shared_got l)"
    by (rule lgood_ACQUIRE) (use assms shared_got_good [OF assms] in simp_all)
  moreover have "lgood strict ps sh ex U X n p (sh p, ex p) h (lk_finish (Some EBUSY) l)" for h
    using assms(1) by (cases h) simp
  ultimately show ?thesis using False \<open>ex p = 0\<close> unfolding lk_shared_def by (simp only: if_True if_False granted.simps add_0_right)
      (auto simp del: lgood_finish)
qed

lemma exclusive_good:
  assumes "linv strict ps l sh ex U X n" "p \<in> ps" "p \<notin> X" "0 < ex p \<longrightarrow> LK_CANRECURSE \<in> ext \<and> ex p < 32767"
  shows "lgood strict ps sh ex U X n p (sh p, ex p) (sh p, ex p + 1) (lk_exclusive p ext l)"
proof (cases "lk_lockholder l = p \<and> p \<noteq> LK_KERNPROC")
  case True
  then have pos: "0 < ex p" using linv_holds(3) [OF assms(1,2)] by simp
  then have "s16 (lk_exclusivecount l + 1) = lk_exclusivecount l + 1"
    using linv_holds(2) [OF assms(1,2)] assms(4) by (intro s16_id) auto
  moreover from pos have "linv strict ps (l\<lparr>lk_exclusivecount := lk_exclusivecount l + 1\<rparr>) sh (ex(p := ex p + 1)) U X n"
    using linv_holds(2) [OF assms(1,2)] assms(1,4) by (auto simp: linv_def)
  ultimately show ?thesis using True pos assms(4) by (simp add: lk_exclusive_def)
next
  case False
  have "lgood strict ps sh ex U X n p (sh p, ex p) (sh p, ex p + 1) (ACQUIRE InExcl1 ext (excl1_got p ext) l)"
    by (rule lgood_ACQUIRE) (use assms excl1_got_good [OF assms(1-3)] in simp_all)
  then show ?thesis using assms(1) unfolding lk_exclusive_def if_not_P [OF False] by simp
qed

lemma upgrade_good:
  assumes "linv False ps l sh ex U X n" "p \<in> ps" "p \<notin> U" "p \<notin> X" "0 < sh p"
  shows "lgood False ps sh ex U X n p (sh p - 1, ex p) (sh p - 1, ex p + 1) (lk_upgrade p ext l)"
proof -
  note h = linv_holds(1,6) [OF assms(1,2)]
  have l: "LK_HAVE_EXCL \<notin> lk_flags l" "lk_lockholder l \<noteq> p" "0 < lk_sharecount l" "ex p = 0" using h assms(5) by auto
  define l1 where "l1 = add_share (- 1) l"
  define sh1 where "sh1 = sh(p := sh p - 1)"
  have sh1: "sh1 p = sh p - 1" by (simp add: sh1_def)
  have l1: "linv False ps l1 sh1 ex U X n" unfolding l1_def sh1_def
    using linv_share [OF assms(1,2) l(1), of "- 1"] assms(5) by simp
  have f1: "lk_flags l1 = lk_flags l" "lk_lockholder l1 = lk_lockholder l" by (simp_all add: l1_def add_share_def)
  have acq: "lgood False ps sh1 ex U X n p (sh1 p, ex p) (sh1 p, ex p + 1) (ACQUIRE InUpgrade ext (upgrade_got p) (set_flag LK_WANT_UPGRADE l1))"
    if "LK_WANT_UPGRADE \<notin> lk_flags l"
  proof (rule lgood_ACQUIRE)
    have w: "linv False ps (set_flag LK_WANT_UPGRADE l1) sh1 ex (insert p U) X n"
      by (rule linv_want_upgrade [OF l1]) (use l that f1 in simp_all)
    then show "linv False ps (set_flag LK_WANT_UPGRADE l1) sh1 ex (if InUpgrade = InUpgrade then insert p U else U)
        (if InUpgrade = InExcl2 then insert p X else X) n" by simp
    show "\<not> lk_wanted InUpgrade (set_flag LK_WANT_UPGRADE l1) \<Longrightarrow>
        lgood False ps sh1 ex U X n p (sh1 p, ex p) (sh1 p, ex p + 1) (upgrade_got p None (set_flag LK_WANT_UPGRADE l1))"
      using upgrade_got_good [OF w assms(2,3)] by simp
  qed simp
  have excl: "lgood False ps sh1 ex U X n p (sh1 p, ex p) (sh1 p, ex p + 1)
      (lk_exclusive p ext (if lk_sharecount l1 = 0 \<and> lk_waitcount l1 \<noteq> 0 then lk_wakeup LkLock l1 else l1))"
    by (rule exclusive_good) (use l1 assms(2,4) l(4) in simp_all)
  have busy: "linv False ps l1 (sh1(p := sh1 p)) (ex(p := ex p)) U X n" using l1 by simp
  have "lgood False ps sh1 ex U X n p (sh1 p, ex p) (sh1 p, ex p + 1) (lk_upgrade p ext l)"
    using l acq excl busy unfolding lk_upgrade_def Let_def l1_def [symmetric] f1 by simp
  then show ?thesis by (simp add: sh1_def)
qed

lemma exclupgrade_good:
  assumes "linv False ps l sh ex U X n" "p \<in> ps" "p \<notin> U" "p \<notin> X" "0 < sh p"
  shows "lgood False ps sh ex U X n p (sh p - 1, ex p) (sh p - 1, ex p + 1) (lk_exclupgrade p ext l)"
proof -
  have "LK_HAVE_EXCL \<notin> lk_flags l" using linv_holds(1) [OF assms(1,2)] assms(5) by simp
  then have "linv False ps (add_share (- 1) l) (sh(p := sh p - 1)) ex U X n"
    using linv_share [OF assms(1,2), of "- 1"] assms(5) by simp
  then show ?thesis using upgrade_good [OF assms] by (simp add: lk_exclupgrade_def)
qed

lemma release_good:
  assumes "linv strict ps l sh ex U X n" "p \<in> ps" "0 < sh p \<or> 0 < ex p"
  shows "lgood strict ps sh ex U X n p (a, b) (granted LK_RELEASE (sh p, ex p)) (lk_release p l)"
proof -
  note h = linv_holds [OF assms(1,2)]
  show ?thesis
  proof (cases "0 < ex p")
    case True
    then have l: "LK_HAVE_EXCL \<in> lk_flags l" "lk_lockholder l = p" "lk_exclusivecount l = ex p" using h(2) by auto
    define l2 where "l2 = l\<lparr>lk_exclusivecount := ex p - 1\<rparr>"
    define l1 where "l1 = (if ex p = 1 then (clear_flag LK_HAVE_EXCL l2)\<lparr>lk_lockholder := LK_NOPROC\<rparr> else l2)"
    have le: "ex p \<le> 32767" using assms(1) by (simp add: linv_def)
    have le2: "ex (lk_lockholder l) \<le> 32768" using le l(2) by simp
    have w: "s16 (lk_exclusivecount l - 1) = ex p - 1" using le True l by (simp add: s16_id)
    have "linv strict ps l1 sh (ex(p := ex p - 1)) U X n"
      using assms(1,2) True l le2 by (cases "ex p = 1") (auto simp: l1_def l2_def linv_def lock_ops)
    moreover have "lk_release p l = lk_finish None (if lk_waitcount l1 \<noteq> 0 then lk_wakeup LkLock l1 else l1)"
      using l True by (simp add: lk_release_def l1_def l2_def Let_def w [unfolded l(3)])
    ultimately show ?thesis using True by simp
  next
    case False
    then have s: "0 < sh p" "LK_HAVE_EXCL \<notin> lk_flags l" "0 < lk_sharecount l" "lk_exclusivecount l = 0"
      using assms(3) h(1,4) by auto
    define l1 where "l1 = add_share (- 1) l"
    have "linv strict ps l1 (sh(p := sh p - 1)) ex U X n" unfolding l1_def
      using linv_share [OF assms(1,2) s(2), of "- 1"] s(1) by simp
    moreover have "lk_release p l = lk_finish None (if lk_waitcount l1 \<noteq> 0 then lk_wakeup LkLock l1 else l1)"
      using s by (simp add: lk_release_def l1_def Let_def)
    ultimately show ?thesis using False by simp
  qed
qed

lemma drain_loop_good:
  assumes "linv strict ps l sh ex U X n" "p \<in> ps"
  shows "lgood strict ps sh ex U X n p (sh p, ex p) (sh p, ex p + 1) (drain_loop p ext l)"
  using assms linv_holds(4) [OF assms]
  by (cases "lock_active l") (auto simp: drain_loop_def linv_def lock_ops lock_active_def excl_or_upgrade_def)

lemma drain_good:
  assumes "linv strict ps l sh ex U X n" "p \<in> ps" "ex p = 0"
  shows "lgood strict ps sh ex U X n p (sh p, ex p) (sh p, ex p + 1) (lk_drain p ext l)"
  using assms drain_loop_good [OF assms(1,2)] linv_holds(3) [OF assms(1,2)] by (auto simp: lk_drain_def fun_upd_idem)

subsection \<open>The invariant of the system\<close>

definition at_place :: "lk_place \<Rightarrow> lk_system \<Rightarrow> int set" where
  "at_place pl s = {q. \<exists>ext w. sys_proc s q = Waits pl ext w}"

definition waiters :: "lk_system \<Rightarrow> int set" where
  "waiters s = {q. \<exists>pl ext w. pl \<noteq> InDrain \<and> sys_proc s q = Waits pl ext w}"

definition lock_inv :: "bool \<Rightarrow> int set \<Rightarrow> lk_system \<Rightarrow> bool" where
  "lock_inv strict ps s \<longleftrightarrow>
     linv strict ps (sys_lock s) (sys_shared s) (sys_excl s) (at_place InUpgrade s) (at_place InExcl2 s) (int (card (waiters s))) \<and>
     (\<forall>q. q \<notin> ps \<longrightarrow> sys_proc s q = Outside)"

lemma wake_up_at [simp]:
  "(\<exists>ext w. wake_up ws st = Waits pl ext w) \<longleftrightarrow> (\<exists>ext w. st = Waits pl ext w)"
  "wake_up ws st = Outside \<longleftrightarrow> st = Outside"
  by (cases st; auto)+

lemma waiters_outside: "(\<forall>q. q \<notin> ps \<longrightarrow> sys_proc s q = Outside) \<Longrightarrow> waiters s \<subseteq> ps" "(\<forall>q. q \<notin> ps \<longrightarrow> sys_proc s q = Outside) \<Longrightarrow> at_place pl s \<subseteq> ps"
  by (force simp: waiters_def at_place_def)+

text \<open>One end of a routine of process \<open>p\<close>.\<close>

lemma lk_after_inv:
  assumes "finite ps" "p \<in> ps" "\<forall>q. q \<notin> ps \<longrightarrow> sys_proc s q = Outside" "lk_after p h h' out s = Some s'"
    "lgood strict ps (sys_shared s) (sys_excl s) (at_place InUpgrade s - {p}) (at_place InExcl2 s - {p}) (int (card (waiters s - {p}))) p h h' out"
  shows "lock_inv strict ps s'"
proof (cases out)
  case (Ret l e)
  then have s': "s' = set_holds p (if e = None then h' else h)
      (s\<lparr>sys_lock := l\<lparr>lk_wakeups := []\<rparr>, sys_proc := (wake_up (lk_wakeups l) \<circ> sys_proc s)(p := Outside)\<rparr>)" using assms(4) by simp
  have "at_place pl s' = at_place pl s - {p}" for pl by (auto simp: s' set_holds_def at_place_def)
  moreover have "waiters s' = waiters s - {p}"
  proof -
    have "q \<in> waiters s' \<longleftrightarrow> q \<in> waiters s - {p}" for q
      by (cases "sys_proc s q") (auto simp: s' set_holds_def waiters_def)
    then show ?thesis by blast
  qed
  ultimately show ?thesis using assms(3,5) Ret assms(2)
    by (auto simp: lock_inv_def lgood_def s' set_holds_def)
next
  case (Sleeps l k)
  obtain pl ext where k: "k = (pl, ext)" by fastforce
  then have s': "s' = set_holds p h
      (s\<lparr>sys_lock := l\<lparr>lk_wakeups := []\<rparr>, sys_proc := (wake_up (lk_wakeups l) \<circ> sys_proc s)(p := Waits pl ext False)\<rparr>)" using assms(4) Sleeps by simp
  have at: "at_place pl' s' = (if pl' = pl then insert p (at_place pl' s - {p}) else at_place pl' s - {p})" for pl'
    by (auto simp: s' set_holds_def at_place_def)
  have w: "waiters s' = (if pl = InDrain then waiters s - {p} else insert p (waiters s - {p}))"
  proof -
    have "q \<in> waiters s' \<longleftrightarrow> q \<in> (if pl = InDrain then waiters s - {p} else insert p (waiters s - {p}))" for q
      by (cases "sys_proc s q") (auto simp: s' set_holds_def waiters_def)
    then show ?thesis by blast
  qed
  have "finite (waiters s - {p})" using waiters_outside(1) [OF assms(3)] assms(1) by (auto intro: finite_subset)
  then have c: "int (card (waiters s')) = (if pl = InDrain then int (card (waiters s - {p})) else int (card (waiters s - {p})) + 1)"
    by (simp add: w del: insert_Diff_single)
  have "linv strict ps l ((sys_shared s)(p := fst h)) ((sys_excl s)(p := snd h)) (at_place InUpgrade s') (at_place InExcl2 s') (int (card (waiters s')))"
    using assms(5) unfolding lgood_def Sleeps k c at by (simp split: if_splits)
  moreover have "\<forall>q. q \<notin> ps \<longrightarrow> sys_proc s' q = Outside" using assms(2,3) by (auto simp: s' set_holds_def)
  ultimately show ?thesis unfolding lock_inv_def by (simp add: s' set_holds_def)
next
  case Panics
  then show ?thesis using assms(4) by simp
qed

lemma drain_check_linv:
  assumes "drain_check p ty flags l = Some l1"
  shows "linv strict ps l1 = linv strict ps l"
proof -
  have "linv strict ps (set_flag LK_DRAINED l) = linv strict ps l" "linv strict ps (clear_flag LK_DRAINING l) = linv strict ps l" for l
    by (intro ext; simp add: linv_def lock_ops)+
  then show ?thesis using assms by (auto simp: drain_check_def Let_def split: if_splits)
qed

lemma lockmgr_good:
  assumes "linv strict ps l sh ex U X n" "p \<in> ps" "p \<notin> U" "p \<notin> X" "l = sys_lock s" "sh = sys_shared s" "ex = sys_excl s"
    "proper_call diag s p ty flags" "strict \<longrightarrow> ty \<noteq> LK_UPGRADE \<and> ty \<noteq> LK_EXCLUPGRADE"
  shows "lgood strict ps sh ex U X n p (gives_up ty (sh p, ex p)) (granted ty (gives_up ty (sh p, ex p))) (lockmgr diag l ty flags (Some p))"
proof -
  obtain l1 where l1: "(if diag then drain_check p ty flags l else Some l) = Some l1"
    using assms(5,8) by (cases diag) auto
  then have inv: "linv strict ps l1 sh ex U X n" using assms(1) drain_check_linv by (auto split: if_splits)
  define ext where "ext = lk_ext flags l"
  have run: "lockmgr diag l ty flags (Some p) = lk_switch ty p ext l1" using l1 by (simp add: lockmgr_def ext_def)
  have add0: "add_share 0 l1 = l1" by (simp add: add_share_def)
  have "lgood strict ps sh ex U X n p (gives_up ty (sh p, ex p)) (granted ty (gives_up ty (sh p, ex p))) (lk_switch ty p ext l1)"
    using assms(5-9) inv shared_good [OF inv assms(2)] exclusive_good [OF inv assms(2,4), of ext] release_good [OF inv assms(2)]
      downgrade_good [OF inv assms(2), where k = 0, unfolded add0] drain_good [OF inv assms(2)]
      upgrade_good [of ps l1 sh ex U X n p ext, OF _ assms(2-4)] exclupgrade_good [of ps l1 sh ex U X n p ext, OF _ assms(2-4)]
    by (cases ty; cases strict) (simp_all add: ext_def)
  then show ?thesis by (simp only: run)
qed

lemma wake_good:
  assumes "linv strict ps l sh ex (if pl = InUpgrade then insert p U else U) (if pl = InExcl2 then insert p X else X) (if pl = InDrain then n else n + 1)"
    "p \<in> ps" "p \<notin> U" "p \<notin> X"
  shows "lgood strict ps sh ex U X n p (sh p, ex p) (granted_at pl (sh p, ex p)) (lockmgr_wake pl p ext e l)"
proof (cases pl)
  case InShared
  have "lgood strict ps sh ex U X n p (sh p, ex p) (sh p + 1, ex p) (ACQUIRE_wake InShared ext shared_got e l)"
    by (rule lgood_ACQUIRE_wake) (use assms InShared in \<open>auto intro!: shared_got_good\<close>)
  then show ?thesis using InShared by simp
next
  case InUpgrade
  have "lgood strict ps sh ex U X n p (sh p, ex p) (sh p, ex p + 1) (ACQUIRE_wake InUpgrade ext (upgrade_got p) e l)"
    by (rule lgood_ACQUIRE_wake) (use assms InUpgrade in \<open>auto intro!: upgrade_got_good\<close>)
  then show ?thesis using InUpgrade by simp
next
  case InExcl1
  have "lgood strict ps sh ex U X n p (sh p, ex p) (sh p, ex p + 1) (ACQUIRE_wake InExcl1 ext (excl1_got p ext) e l)"
    by (rule lgood_ACQUIRE_wake) (use assms InExcl1 in \<open>auto intro!: excl1_got_good\<close>)
  then show ?thesis using InExcl1 by simp
next
  case InExcl2
  have "lgood strict ps sh ex U X n p (sh p, ex p) (sh p, ex p + 1) (ACQUIRE_wake InExcl2 ext (excl2_got p) e l)"
    by (rule lgood_ACQUIRE_wake) (use assms InExcl2 in \<open>auto intro!: excl2_got_good\<close>)
  then show ?thesis using InExcl2 by simp
next
  case InDrain
  then show ?thesis using assms drain_loop_good [of strict ps l sh ex U X n p ext]
    by (auto simp: drain_wake_def) (auto simp: lgood_def)
qed

lemma start_inv: "finite ps \<Longrightarrow> LK_NOPROC \<notin> ps \<Longrightarrow> lock_inv strict ps (lk_start prio wmesg timo flags)"
  by (auto simp: lock_inv_def lk_start_def linv_def lockinit_def at_place_def waiters_def LK_EXTFLG_MASK_def)

lemma step_good:
  assumes "finite ps" "p \<in> ps" "\<forall>q. q \<notin> ps \<longrightarrow> sys_proc s q = Outside" "lk_do diag a s = lk_after p h h' out s"
    "lgood strict ps (sys_shared s) (sys_excl s) (at_place InUpgrade s - {p}) (at_place InExcl2 s - {p}) (int (card (waiters s - {p}))) p h h' out"
  shows "(lk_do diag a s = Some s' \<longrightarrow> lock_inv strict ps s') \<and> (strict \<longrightarrow> lk_do diag a s \<noteq> None)"
  using lk_after_inv [OF assms(1-3) _ assms(5)] assms(4,5) by (cases out) (auto simp: lgood_def)

lemma lock_inv_fin:
  assumes "lock_inv strict ps s"
  shows "finite ps" "finite (waiters s)" "\<forall>q. q \<notin> ps \<longrightarrow> sys_proc s q = Outside"
    "linv strict ps (sys_lock s) (sys_shared s) (sys_excl s) (at_place InUpgrade s) (at_place InExcl2 s) (int (card (waiters s)))"
  using assms waiters_outside(1) [of ps s] by (auto simp: lock_inv_def linv_def intro: finite_subset)

text \<open>A call, and the return of a sleep, keep the invariant and do not panic without upgrades.\<close>

lemma call_keeps:
  assumes "lock_inv strict ps s" "p \<in> ps" "proper_call diag s p ty flags" "strict \<longrightarrow> ty \<noteq> LK_UPGRADE \<and> ty \<noteq> LK_EXCLUPGRADE" "sys_proc s p = Outside"
  shows "(lk_do diag (Call p ty flags) s = Some s' \<longrightarrow> lock_inv strict ps s') \<and> (strict \<longrightarrow> lk_do diag (Call p ty flags) s \<noteq> None)"
proof -
  note f = lock_inv_fin [OF assms(1)]
  have not: "p \<notin> at_place InUpgrade s" "p \<notin> at_place InExcl2 s" "p \<notin> waiters s" using assms(5) by (simp_all add: at_place_def waiters_def)
  have g: "lgood strict ps (sys_shared s) (sys_excl s) (at_place InUpgrade s - {p}) (at_place InExcl2 s - {p}) (int (card (waiters s - {p}))) p
      (gives_up ty (holds_of s p)) (granted ty (gives_up ty (holds_of s p))) (lockmgr diag (sys_lock s) ty flags (Some p))"
    using lockmgr_good [OF f(4) assms(2) not(1,2) refl refl refl assms(3,4)] not by (simp add: holds_of_def)
  show ?thesis by (rule step_good [OF f(1) assms(2) f(3) _ g]) (use assms(5) in \<open>simp add: Let_def\<close>)
qed

lemma wake_keeps:
  assumes "lock_inv strict ps s" "p \<in> ps" "sys_proc s p = Waits pl ext w" "err = None \<longrightarrow> w"
  shows "(lk_do diag (Wake p err) s = Some s' \<longrightarrow> lock_inv strict ps s') \<and> (strict \<longrightarrow> lk_do diag (Wake p err) s \<noteq> None)"
proof -
  note f = lock_inv_fin [OF assms(1)]
  have U: "at_place InUpgrade s = (if pl = InUpgrade then insert p (at_place InUpgrade s - {p}) else at_place InUpgrade s - {p})"
    and X: "at_place InExcl2 s = (if pl = InExcl2 then insert p (at_place InExcl2 s - {p}) else at_place InExcl2 s - {p})"
    using assms(3) by (auto simp: at_place_def)
  have "p \<in> waiters s \<longleftrightarrow> pl \<noteq> InDrain" using assms(3) by (simp add: waiters_def)
  then have n: "int (card (waiters s)) = (if pl = InDrain then int (card (waiters s - {p})) else int (card (waiters s - {p})) + 1)"
    using card.remove [OF f(2), of p] by auto
  have g: "lgood strict ps (sys_shared s) (sys_excl s) (at_place InUpgrade s - {p}) (at_place InExcl2 s - {p}) (int (card (waiters s - {p}))) p
      (holds_of s p) (granted_at pl (holds_of s p)) (lockmgr_wake pl p ext err (sys_lock s))"
    unfolding holds_of_def by (rule wake_good) (use f(4) assms(2) in \<open>simp_all flip: U X n\<close>)
  show ?thesis by (rule step_good [OF f(1) assms(2) f(3) _ g]) (use assms(3,4) in auto)
qed

lemma action_keeps:
  assumes "lock_inv strict ps s" "lk_allowed diag ps calls intr a s" "lk_do diag a s = Some s'"
    "strict \<longrightarrow> (\<forall>ext. \<not> calls LK_UPGRADE ext \<and> \<not> calls LK_EXCLUPGRADE ext)"
  shows "lock_inv strict ps s'"
proof (cases a)
  case (Call p ty flags)
  moreover have "sys_proc s p = Outside" using assms(3) Call by (auto split: if_splits)
  ultimately show ?thesis using call_keeps [OF assms(1), of p diag ty flags s'] assms(2-4) by (auto simp: lk_allowed_def)
next
  case (Wake p err)
  then obtain pl ext w where "sys_proc s p = Waits pl ext w" "err = None \<longrightarrow> w"
    using assms(3) by (auto split: lk_pstate.splits if_splits)
  then show ?thesis using wake_keeps [OF assms(1), of p pl ext w err diag s'] assms(2,3) Wake by (auto simp: lk_allowed_def)
qed

lemma reach_inv:
  assumes "lk_reach diag ps calls intr s" "finite ps" "LK_NOPROC \<notin> ps"
    "strict \<longrightarrow> (\<forall>ext. \<not> calls LK_UPGRADE ext \<and> \<not> calls LK_EXCLUPGRADE ext)"
  shows "lock_inv strict ps s"
  using assms(1)
proof induction
  case start
  show ?case by (rule start_inv [OF assms(2,3)])
next
  case (step s a s')
  show ?case by (rule action_keeps [OF step.IH step.hyps(2,3) assms(4)])
qed

subsection \<open>No wakeup is lost\<close>

text \<open>
  Why a process that sleeps at a place, and has not been woken up, is right to sleep: what it waits for has not
  happened.
\<close>

fun stuck :: "lk_place \<Rightarrow> lock \<Rightarrow> bool" where
  "stuck InShared l \<longleftrightarrow> excl_or_upgrade l"
| "stuck InUpgrade l \<longleftrightarrow> lk_sharecount l \<noteq> 0 \<and> LK_WANT_UPGRADE \<in> lk_flags l"
| "stuck InExcl1 l \<longleftrightarrow> excl_ahead l"
| "stuck InExcl2 l \<longleftrightarrow> shared_ahead l \<or> LK_HAVE_EXCL \<in> lk_flags l"
| "stuck InDrain l \<longleftrightarrow> lock_active l \<and> LK_WAITDRAIN \<in> lk_flags l"

text \<open>
  From \<open>l\<close> to \<open>l'\<close>, with \<open>n\<close> other processes waiting, whoever is not stuck any more has been woken up. Those that
  drain are looked at when the routine ends.
\<close>

definition wakes :: "int \<Rightarrow> lock \<Rightarrow> lock \<Rightarrow> bool" where
  "wakes n l l' \<longleftrightarrow>
     0 \<le> n \<and> lk_waitcount l' = n \<and> 0 \<le> lk_sharecount l' \<and> (LK_WAITDRAIN \<in> lk_flags l \<longrightarrow> LK_WAITDRAIN \<in> lk_flags l') \<and>
     (\<forall>pl. pl \<noteq> InDrain \<longrightarrow> n \<noteq> 0 \<longrightarrow> stuck pl l \<longrightarrow> stuck pl l' \<or> LkLock \<in> set (lk_wakeups l'))"

definition wakes_out :: "int \<Rightarrow> lk_flag set \<Rightarrow> lock \<Rightarrow> lk_outcome \<Rightarrow> bool" where
  "wakes_out n ext l out \<longleftrightarrow>
     (case out of
        Ret l' e \<Rightarrow> \<forall>pl. stuck pl l \<longrightarrow> (pl \<noteq> InDrain \<longrightarrow> n \<noteq> 0) \<longrightarrow> stuck pl l' \<or> lk_chan_of pl \<in> set (lk_wakeups l')
      | Sleeps l' (pl', ext') \<Rightarrow> ext' = ext \<and> stuck pl' l' \<and>
          (\<forall>pl. stuck pl l \<longrightarrow> (pl \<noteq> InDrain \<longrightarrow> n \<noteq> 0) \<longrightarrow> stuck pl l' \<or> lk_chan_of pl \<in> set (lk_wakeups l'))
      | Panics \<Rightarrow> True)"

lemma chan_LkLock [simp]: "pl \<noteq> InDrain \<Longrightarrow> lk_chan_of pl = LkLock"
  by (cases pl) simp_all

lemma stuck_log [simp]: "pl \<noteq> InDrain \<Longrightarrow> stuck pl (lk_wakeup c l) = stuck pl l" "pl \<noteq> InDrain \<Longrightarrow> stuck pl (clear_flag LK_WAITDRAIN l) = stuck pl l"
  "pl \<noteq> InDrain \<Longrightarrow> stuck pl (set_flag LK_WAITDRAIN l) = stuck pl l" "pl \<noteq> InDrain \<Longrightarrow> stuck pl (l\<lparr>lk_waitcount := w\<rparr>) = stuck pl l"
  by (cases pl; simp add: lock_ops excl_or_upgrade_def excl_ahead_def shared_ahead_def)+

lemma finish_wakes: "wakes n l l1 \<Longrightarrow> wakes_out n ext l (lk_finish e l1)"
  unfolding wakes_out_def lk_finish_def kout.case
proof (intro allI impI)
  fix pl
  define l2 where "l2 = (if LK_WAITDRAIN \<in> lk_flags l1 \<and> \<not> lock_active l1 then lk_wakeup LkFlags (clear_flag LK_WAITDRAIN l1) else l1)"
  assume a: "wakes n l l1" "stuck pl l" "pl \<noteq> InDrain \<longrightarrow> n \<noteq> 0"
  have "stuck pl l2 \<or> lk_chan_of pl \<in> set (lk_wakeups l2)"
  proof (cases "pl = InDrain")
    case True
    then have "LK_WAITDRAIN \<in> lk_flags l1" using a(1,2) by (simp add: wakes_def)
    then show ?thesis using True by (auto simp: l2_def lock_ops)
  next
    case False
    then have "stuck pl l1 \<or> LkLock \<in> set (lk_wakeups l1)" using a by (simp add: wakes_def)
    then show ?thesis using False by (auto simp: l2_def) (auto simp: lock_ops)
  qed
  then show "stuck pl l2 \<or> lk_chan_of pl \<in> set (lk_wakeups l2)" .
qed

lemma sleep_wakes:
  assumes "wakes n l l1" "pl \<noteq> InDrain" "stuck pl l1"
  shows "wakes_out n ext l (Sleeps (l1\<lparr>lk_waitcount := lk_waitcount l1 + 1\<rparr>) (pl, ext))"
  unfolding wakes_out_def kout.case prod.case
proof (intro conjI allI impI refl)
  show "stuck pl (l1\<lparr>lk_waitcount := lk_waitcount l1 + 1\<rparr>)" using assms by simp
  fix pl'
  assume a: "stuck pl' l" "pl' \<noteq> InDrain \<longrightarrow> n \<noteq> 0"
  show "stuck pl' (l1\<lparr>lk_waitcount := lk_waitcount l1 + 1\<rparr>) \<or> lk_chan_of pl' \<in> set (lk_wakeups (l1\<lparr>lk_waitcount := lk_waitcount l1 + 1\<rparr>))"
  proof (cases "pl' = InDrain")
    case True
    then show ?thesis using assms(1) a(1) by (auto simp: wakes_def lock_active_def)
  next
    case False
    then show ?thesis using assms(1) a by (auto simp: wakes_def)
  qed
qed

lemma acquire_wakes:
  assumes "wakes n l l1" "pl \<noteq> InDrain" "lk_wanted pl l1 \<Longrightarrow> stuck pl l1" "\<not> lk_wanted pl l1 \<Longrightarrow> wakes_out n ext l (got None l1)"
  shows "wakes_out n ext l (ACQUIRE pl ext got l1)"
  using assms sleep_wakes [OF assms(1,2)] by (simp add: ACQUIRE_def)

lemmas place_defs = excl_or_upgrade_def excl_ahead_def shared_ahead_def

lemma all_places: "(\<forall>pl. pl \<noteq> InDrain \<longrightarrow> P pl) \<longleftrightarrow> P InShared \<and> P InUpgrade \<and> P InExcl1 \<and> P InExcl2"
  by (metis lk_place.distinct(7,13,17,19) lk_place.exhaust)

lemma wakes_step:
  assumes "wakes n l l1" "lk_waitcount l2 = lk_waitcount l1" "0 \<le> lk_sharecount l2" "LK_WAITDRAIN \<in> lk_flags l1 \<longrightarrow> LK_WAITDRAIN \<in> lk_flags l2"
    "set (lk_wakeups l1) \<subseteq> set (lk_wakeups l2)" "\<forall>pl. pl \<noteq> InDrain \<longrightarrow> n \<noteq> 0 \<longrightarrow> stuck pl l1 \<longrightarrow> stuck pl l2 \<or> LkLock \<in> set (lk_wakeups l2)"
  shows "wakes n l l2"
  using assms unfolding wakes_def by blast

lemma wakes_facts: "wakes n l l1 \<Longrightarrow> 0 \<le> lk_sharecount l1 \<and> 0 \<le> n \<and> lk_waitcount l1 = n"
  by (simp add: wakes_def)

text \<open>A process that takes the lock exclusively clears its flag.\<close>

lemma clear_take_wakes:
  assumes "wakes n l l1" "lk_sharecount l1 = 0" "f = LK_WANT_UPGRADE \<or> f = LK_WANT_EXCL"
  shows "wakes_out n ext l (take_excl p (clear_flag f l1))"
proof -
  have "wakes n l ((set_flag LK_HAVE_EXCL (clear_flag f l1))\<lparr>lk_lockholder := p, lk_exclusivecount := 1\<rparr>)"
    by (rule wakes_step [OF assms(1)]) (use assms(2,3) in \<open>auto simp: all_places place_defs lock_ops\<close>)
  then show ?thesis by (auto simp: take_excl_def Let_def wakes_out_def [of _ _ _ Panics] intro: finish_wakes)
qed

lemma set_flag_wakes:
  assumes "wakes n l l1" "f = LK_WANT_UPGRADE \<or> f = LK_WANT_EXCL"
  shows "wakes n l (set_flag f l1)"
  by (rule wakes_step [OF assms(1)]) (use wakes_facts [OF assms(1)] assms(2) in \<open>auto simp: all_places place_defs lock_ops\<close>)

lemma excl2_got_wakes: "wakes n l l1 \<Longrightarrow> \<not> shared_ahead l1 \<Longrightarrow> wakes_out n ext l (excl2_got p None l1)"
  by (simp add: excl2_got_def shared_ahead_def clear_take_wakes)

lemma upgrade_got_wakes: "wakes n l l1 \<Longrightarrow> lk_sharecount l1 = 0 \<Longrightarrow> wakes_out n ext l (upgrade_got p None l1)"
  by (simp add: upgrade_got_def clear_take_wakes)

lemma excl1_got_wakes: "wakes n l l1 \<Longrightarrow> wakes_out n ext l (excl1_got p ext None l1)"
  using set_flag_wakes [of n l l1 LK_WANT_EXCL] by (auto simp: excl1_got_def intro!: acquire_wakes excl2_got_wakes)

lemma shared_got_wakes:
  assumes "wakes n l l1"
  shows "wakes_out n ext l (shared_got None l1)"
proof -
  have "wakes n l (add_share 1 l1)"
    by (rule wakes_step [OF assms]) (use wakes_facts [OF assms] in \<open>auto simp: all_places place_defs lock_ops\<close>)
  then show ?thesis by (simp add: shared_got_def finish_wakes)
qed

subsection \<open>The calls\<close>

lemma downgrade_wakes:
  assumes "wakes n l l1" "0 \<le> lk_exclusivecount l1"
  shows "wakes_out n ext l (lk_downgrade p l1)"
proof -
  define l2 where "l2 = clear_flag LK_HAVE_EXCL ((add_share (lk_exclusivecount l1) l1)\<lparr>lk_exclusivecount := 0, lk_lockholder := LK_NOPROC\<rparr>)"
  have "wakes n l (if lk_waitcount l2 \<noteq> 0 then lk_wakeup LkLock l2 else l2)"
    by (rule wakes_step [OF assms(1)]) (use wakes_facts [OF assms(1)] assms(2-) in \<open>auto simp: l2_def lock_ops\<close>)
  then show ?thesis by (auto simp: lk_downgrade_def Let_def wakes_out_def [of _ _ _ Panics] l2_def intro: finish_wakes)
qed

lemma shared_wakes:
  assumes "wakes n l l1" "0 \<le> lk_exclusivecount l1" "lk_lockholder l1 = p \<longrightarrow> LK_HAVE_EXCL \<in> lk_flags l1 \<and> lk_sharecount l1 = 0"
  shows "wakes_out n ext l (lk_shared p ext l1)"
proof -
  have "wakes n l (add_share 1 l1)"
    by (rule wakes_step [OF assms(1)]) (use wakes_facts [OF assms(1)] in \<open>auto simp: all_places place_defs lock_ops\<close>)
  from downgrade_wakes [OF this] assms show ?thesis
    by (auto simp: lk_shared_def add_share_def intro!: acquire_wakes finish_wakes shared_got_wakes)
qed

lemma exclusive_wakes: "wakes n l l1 \<Longrightarrow> wakes_out n ext l (lk_exclusive p ext l1)"
proof -
  assume w: "wakes n l l1"
  have "wakes n l (l1\<lparr>lk_exclusivecount := s16 (lk_exclusivecount l1 + 1)\<rparr>)"
    by (rule wakes_step [OF w]) (use wakes_facts [OF w] in \<open>auto simp: all_places place_defs\<close>)
  with w show ?thesis
    by (auto simp: lk_exclusive_def wakes_out_def [of _ _ _ Panics] intro!: acquire_wakes finish_wakes excl1_got_wakes)
qed

lemma upgrade_wakes:
  assumes "wakes n l l1" "LK_NOWAIT \<notin> ext"
  shows "wakes_out n ext l (lk_upgrade p ext l1)"
proof (cases "lk_lockholder l1 = p \<or> lk_sharecount l1 \<le> 0")
  case True
  then show ?thesis by (simp add: lk_upgrade_def wakes_out_def)
next
  case False
  define l2 where "l2 = add_share (- 1) l1"
  have "wakes n l (set_flag LK_WANT_UPGRADE l2)" if "LK_WANT_UPGRADE \<notin> lk_flags l1"
    by (rule wakes_step [OF assms(1)]) (use wakes_facts [OF assms(1)] False that in \<open>auto simp: l2_def all_places place_defs lock_ops\<close>)
  moreover have "wakes n l (if lk_sharecount l2 = 0 \<and> lk_waitcount l2 \<noteq> 0 then lk_wakeup LkLock l2 else l2)" if "LK_WANT_UPGRADE \<in> lk_flags l1"
    by (rule wakes_step [OF assms(1)]) (use wakes_facts [OF assms(1)] False that in \<open>auto simp: l2_def all_places place_defs lock_ops\<close>)
  moreover have "LK_WANT_UPGRADE \<in> lk_flags (set_flag LK_WANT_UPGRADE l2)" by (simp add: set_flag_def)
  ultimately show ?thesis using False assms(2)
    by (auto simp: lk_upgrade_def Let_def l2_def [symmetric] intro!: acquire_wakes upgrade_got_wakes exclusive_wakes)
      (auto simp: l2_def add_share_def)
qed

lemma release_wakes:
  assumes "wakes n l l1"
  shows "wakes_out n ext l (lk_release p l1)"
proof -
  define l2 where "l2 =
     (if lk_exclusivecount l1 \<noteq> 0 then
        if s16 (lk_exclusivecount l1 - 1) = 0 then (clear_flag LK_HAVE_EXCL (l1\<lparr>lk_exclusivecount := 0\<rparr>))\<lparr>lk_lockholder := LK_NOPROC\<rparr>
        else l1\<lparr>lk_exclusivecount := s16 (lk_exclusivecount l1 - 1)\<rparr>
      else if lk_sharecount l1 \<noteq> 0 then add_share (- 1) l1 else l1)"
  have "wakes n l (if lk_waitcount l2 \<noteq> 0 then lk_wakeup LkLock l2 else l2)"
    by (rule wakes_step [OF assms]) (use wakes_facts [OF assms] in \<open>auto simp: l2_def lock_ops split: if_splits\<close>)
  moreover have "lk_release p l1 = (if lk_exclusivecount l1 \<noteq> 0 \<and> p \<noteq> lk_lockholder l1 then Panics
      else lk_finish None (if lk_waitcount l2 \<noteq> 0 then lk_wakeup LkLock l2 else l2))"
    by (simp add: lk_release_def l2_def Let_def)
  ultimately show ?thesis by (auto simp: wakes_out_def [of _ _ _ Panics] intro: finish_wakes)
qed

lemma drain_loop_wakes:
  assumes "wakes n l l1"
  shows "wakes_out n ext l (drain_loop p ext l1)"
proof (cases "lock_active l1")
  case True
  have "stuck pl l \<Longrightarrow> (pl \<noteq> InDrain \<longrightarrow> n \<noteq> 0) \<Longrightarrow> stuck pl (set_flag LK_WAITDRAIN l1) \<or> lk_chan_of pl \<in> set (lk_wakeups l1)" for pl
    using assms True by (cases "pl = InDrain") (auto simp: wakes_def lock_active_def place_defs set_flag_def [of _ l1, symmetric], simp_all add: set_flag_def)
  then show ?thesis using True
    by (auto simp: drain_loop_def wakes_out_def) (auto simp: lock_active_def place_defs lock_ops)
next
  case False
  have "wakes n l ((set_flag LK_DRAINING (set_flag LK_HAVE_EXCL l1))\<lparr>lk_lockholder := p, lk_exclusivecount := 1\<rparr>)"
    by (rule wakes_step [OF assms]) (use wakes_facts [OF assms] False in \<open>auto simp: all_places place_defs lock_active_def lock_ops\<close>)
  then show ?thesis using False by (auto simp: drain_loop_def intro: finish_wakes)
qed

lemma drain_wakes: "wakes n l l1 \<Longrightarrow> wakes_out n ext l (lk_drain p ext l1)"
  by (auto simp: lk_drain_def wakes_out_def [of _ _ _ Panics] intro: finish_wakes drain_loop_wakes)

definition awake_inv :: "lk_system \<Rightarrow> bool" where
  "awake_inv s \<longleftrightarrow> (\<forall>q pl ext w. sys_proc s q = Waits pl ext w \<longrightarrow> LK_SLEEPFAIL \<notin> ext \<and> (\<not> w \<longrightarrow> stuck pl (sys_lock s)))"

definition patient_call :: "lk_type \<Rightarrow> lk_flag set \<Rightarrow> bool" where
  "patient_call ty ext \<longleftrightarrow> ty \<noteq> LK_EXCLUPGRADE \<and> LK_SLEEPFAIL \<notin> ext \<and> (ty = LK_UPGRADE \<longrightarrow> LK_NOWAIT \<notin> ext)"

lemma stuck_wakeups [simp]: "stuck pl (l\<lparr>lk_wakeups := ws\<rparr>) = stuck pl l"
  by (cases pl) (simp_all add: place_defs lock_active_def)

text \<open>One end of a routine.\<close>

lemma awake_after:
  assumes "awake_inv s" "lk_after p h h' out s = Some s'" "wakes_out n ext (sys_lock s) out" "LK_SLEEPFAIL \<notin> ext"
    "\<And>q pl ext w. q \<noteq> p \<Longrightarrow> sys_proc s q = Waits pl ext w \<Longrightarrow> pl \<noteq> InDrain \<Longrightarrow> n \<noteq> 0"
  shows "awake_inv s'"
proof -
  obtain l' ps where s': "sys_lock s' = l'\<lparr>lk_wakeups := []\<rparr>" "sys_proc s' = (wake_up (lk_wakeups l') \<circ> sys_proc s)(p := ps)"
    and p: "\<And>pl ext w. ps = Waits pl ext w \<Longrightarrow> LK_SLEEPFAIL \<notin> ext \<and> stuck pl l'"
    and others: "\<And>pl. stuck pl (sys_lock s) \<Longrightarrow> (pl \<noteq> InDrain \<longrightarrow> n \<noteq> 0) \<Longrightarrow> stuck pl l' \<or> lk_chan_of pl \<in> set (lk_wakeups l')"
  proof (cases out)
    case (Ret l e)
    then show ?thesis using that [of l Outside] assms(2,3) by (auto simp: wakes_out_def set_holds_def)
  next
    case (Sleeps l k)
    obtain pl ext' where k: "k = (pl, ext')" by fastforce
    show ?thesis using that [of l "Waits pl ext' False"] assms(2-4) Sleeps k by (auto simp: wakes_out_def set_holds_def)
  next
    case Panics
    then show ?thesis using assms(2) by simp
  qed
  show ?thesis unfolding awake_inv_def
  proof (intro allI impI)
    fix q pl ext1 w
    assume q: "sys_proc s' q = Waits pl ext1 w"
    show "LK_SLEEPFAIL \<notin> ext1 \<and> (\<not> w \<longrightarrow> stuck pl (sys_lock s'))"
    proof (cases "q = p")
      case True
      then show ?thesis using q p s' by simp
    next
      case False
      then obtain w0 where w: "sys_proc s q = Waits pl ext1 w0" "w = (w0 \<or> lk_chan_of pl \<in> set (lk_wakeups l'))"
        using q s' by (cases "sys_proc s q") auto
      then have "LK_SLEEPFAIL \<notin> ext1" "\<not> w0 \<longrightarrow> stuck pl (sys_lock s)" using assms(1) unfolding awake_inv_def by blast+
      then show ?thesis using w others [of pl] assms(5) [OF False w(1)] s'(1) by auto
    qed
  qed
qed

lemma wakes_refl: "linv strict ps l sh ex U X n \<Longrightarrow> 0 \<le> n \<Longrightarrow> wakes n l l"
  by (auto simp: wakes_def linv_def intro: sum_nonneg)

lemma drain_check_wakes:
  assumes "drain_check p ty flags l = Some l1" "wakes n l0 l"
  shows "wakes n l0 l1"
proof -
  have f: "wakes n l0 (set_flag LK_DRAINED l)" "wakes n l0 (clear_flag LK_DRAINING l)" if "wakes n l0 l" for l
    by (rule wakes_step [OF that]; use wakes_facts [OF that] in \<open>auto simp: all_places place_defs lock_ops\<close>)+
  show ?thesis using assms f by (auto simp: drain_check_def Let_def split: if_splits)
qed

lemma lockmgr_wakes:
  assumes "linv False ps l sh ex U X n" "0 \<le> n" "p \<in> ps" "patient_call ty (lk_ext flags l)"
  shows "wakes_out n (lk_ext flags l) l (lockmgr diag l ty flags (Some p))"
proof (cases "if diag then drain_check p ty flags l else Some l")
  case None
  then show ?thesis by (simp add: lockmgr_def wakes_out_def)
next
  case (Some l1)
  define ext where "ext = lk_ext flags l"
  have inv: "linv False ps l1 sh ex U X n" using assms(1) Some drain_check_linv by (auto split: if_splits)
  have w: "wakes n l l1" using Some wakes_refl [OF assms(1,2)] drain_check_wakes by (auto split: if_splits)
  have run: "lockmgr diag l ty flags (Some p) = lk_switch ty p ext l1" using Some by (simp add: lockmgr_def ext_def)
  have e: "0 \<le> lk_exclusivecount l1" using inv by (auto simp: linv_def split: if_splits)
  have h: "lk_lockholder l1 = p \<longrightarrow> LK_HAVE_EXCL \<in> lk_flags l1 \<and> lk_sharecount l1 = 0"
    using linv_holds(2,3) [OF inv assms(3)] by blast
  have "wakes_out n ext l (lk_switch ty p ext l1)"
    using assms(4) shared_wakes [OF w e h] exclusive_wakes [OF w] upgrade_wakes [OF w] downgrade_wakes [OF w e]
      release_wakes [OF w] drain_wakes [OF w]
    by (cases ty) (auto simp: patient_call_def ext_def wakes_out_def [of _ _ _ Panics])
  then show ?thesis by (simp add: run ext_def)
qed

lemma wake_wakes:
  assumes "linv False ps l sh ex U X (if pl = InDrain then n else n + 1)" "0 \<le> n" "pl = InUpgrade \<longrightarrow> LK_WANT_UPGRADE \<in> lk_flags l" "LK_SLEEPFAIL \<notin> ext"
  shows "wakes_out n ext l (lockmgr_wake pl p ext None l)"
proof (cases "pl = InDrain")
  case True
  then show ?thesis using drain_loop_wakes [OF wakes_refl] assms by (simp add: drain_wake_def)
next
  case False
  define l1 where "l1 = l\<lparr>lk_waitcount := lk_waitcount l - 1\<rparr>"
  have wl: "lk_waitcount l = n + 1" using assms(1) False by (simp add: linv_def)
  have w0: "wakes (n + 1) l l" using wakes_refl [OF assms(1)] assms(2) False by simp
  have w: "wakes n l l1" unfolding wakes_def l1_def
    using wakes_facts [OF w0] assms(2) wl by simp
  have u: "pl = InUpgrade \<Longrightarrow> LK_WANT_UPGRADE \<in> lk_flags l1" using assms(3) by (simp add: l1_def)
  show ?thesis
  proof (cases pl)
    case InShared then show ?thesis using assms(4) w
      by (auto simp: ACQUIRE_wake_def Let_def l1_def [symmetric] intro!: acquire_wakes shared_got_wakes)
  next
    case InUpgrade then show ?thesis using assms(4) w u
      by (auto simp: ACQUIRE_wake_def Let_def l1_def [symmetric] intro!: acquire_wakes upgrade_got_wakes)
  next
    case InExcl1 then show ?thesis using assms(4) w
      by (auto simp: ACQUIRE_wake_def Let_def l1_def [symmetric] intro!: acquire_wakes excl1_got_wakes)
  next
    case InExcl2 then show ?thesis using assms(4) w
      by (auto simp: ACQUIRE_wake_def Let_def l1_def [symmetric] intro!: acquire_wakes excl2_got_wakes)
  qed (use False in simp)
qed

lemma card_others:
  assumes "finite (waiters s)" "q \<noteq> p" "sys_proc s q = Waits pl ext w" "pl \<noteq> InDrain"
  shows "int (card (waiters s - {p})) \<noteq> 0"
proof -
  have "q \<in> waiters s - {p}" using assms(2-4) by (simp add: waiters_def)
  moreover have "finite (waiters s - {p})" using assms(1) by simp
  ultimately have "card (waiters s - {p}) \<noteq> 0" by (metis card_eq_0_iff empty_iff)
  then show ?thesis by simp
qed

lemma awake_step:
  assumes "lock_inv False ps s" "awake_inv s" "lk_allowed diag ps patient_call False a s" "lk_do diag a s = Some s'"
  shows "awake_inv s'"
proof (cases a)
  case (Call p ty flags)
  note f = lock_inv_fin [OF assms(1)]
  have out: "sys_proc s p = Outside" using assms(4) Call by (auto split: if_splits)
  have w: "waiters s - {p} = waiters s" using out by (auto simp: waiters_def)
  have c: "p \<in> ps" "patient_call ty (lk_ext flags (sys_lock s))" using assms(3) Call by (auto simp: lk_allowed_def)
  have after: "lk_after p (gives_up ty (holds_of s p)) (granted ty (gives_up ty (holds_of s p)))
      (lockmgr diag (sys_lock s) ty flags (Some p)) s = Some s'" using assms(4) Call out by (simp add: Let_def)
  show ?thesis
  proof (rule awake_after [OF assms(2) after lockmgr_wakes [OF f(4) _ c]])
    show "LK_SLEEPFAIL \<notin> lk_ext flags (sys_lock s)" using c(2) by (simp add: patient_call_def)
    show "int (card (waiters s)) \<noteq> 0" if "q \<noteq> p" "sys_proc s q = Waits pl ext w" "pl \<noteq> InDrain" for q pl ext w
      using card_others [OF f(2) that] w by simp
  qed simp
next
  case (Wake p err)
  note f = lock_inv_fin [OF assms(1)]
  have e: "err = None" using assms(3) Wake by (simp add: lk_allowed_def)
  obtain pl ext where p: "sys_proc s p = Waits pl ext True" using assms(4) Wake e by (auto split: lk_pstate.splits if_splits)
  have "p \<in> waiters s \<longleftrightarrow> pl \<noteq> InDrain" using p by (auto simp: waiters_def)
  then have n: "int (card (waiters s)) = (if pl = InDrain then int (card (waiters s - {p})) else int (card (waiters s - {p})) + 1)"
    using card.remove [OF f(2), of p] by auto
  have "pl = InUpgrade \<Longrightarrow> at_place InUpgrade s \<noteq> {}" using p by (auto simp: at_place_def)
  then have u: "pl = InUpgrade \<longrightarrow> LK_WANT_UPGRADE \<in> lk_flags (sys_lock s)" using f(4) by (auto simp: linv_def split: if_splits)
  have sf: "LK_SLEEPFAIL \<notin> ext" using assms(2) p unfolding awake_inv_def by blast
  have after: "lk_after p (holds_of s p) (granted_at pl (holds_of s p)) (lockmgr_wake pl p ext None (sys_lock s)) s = Some s'"
    using assms(4) Wake e p by simp
  show ?thesis
    by (rule awake_after [OF assms(2) after wake_wakes [OF f(4) [unfolded n] _ u sf] sf]) (use card_others [OF f(2)] in auto)
qed

subsection \<open>The lock\<close>

lemma reach_awake:
  assumes "lk_reach diag ps patient_call False s" "finite ps" "LK_NOPROC \<notin> ps"
  shows "awake_inv s"
  using assms(1)
proof induction
  case start
  then show ?case by (simp add: awake_inv_def lk_start_def)
next
  case (step s a s')
  then show ?case using awake_step reach_inv [OF step.hyps(1) assms(2,3), of False] by blast
qed

text \<open>
  C1: A lock excludes. When processes call \<open>lockmgr\<close> properly (\<open>proper_call\<close>: they release, upgrade and downgrade only what they hold,
  lock recursively only where this is permitted and at most 32767 times, do not drain what they hold), in whatever order they are
  woken up and whichever of their sleeps fail: a process that holds the lock exclusively is the only one that holds it at all, the
  counts of the lock are the numbers of locks that are held, and \<open>lockstatus\<close> tells them.
\<close>
theorem lock_excludes:
  assumes "lk_reach diag ps calls intr s" "finite ps" "LK_NOPROC \<notin> ps"
  shows "(\<forall>p\<in>ps. \<forall>q. 0 < sys_excl s p \<longrightarrow> sys_shared s q = 0 \<and> (q \<noteq> p \<longrightarrow> sys_excl s q = 0)) \<and>
    lk_sharecount (sys_lock s) = sum (sys_shared s) ps \<and>
    (\<forall>p\<in>ps. 0 < sys_excl s p \<longrightarrow> lk_exclusivecount (sys_lock s) = sys_excl s p \<and> lk_lockholder (sys_lock s) = p) \<and>
    lockstatus (sys_lock s) =
      (if \<exists>p\<in>ps. 0 < sys_excl s p then Some LK_EXCLUSIVE else if \<exists>p\<in>ps. 0 < sys_shared s p then Some LK_SHARED else None)"
proof -
  have "lock_inv False ps s" using reach_inv [OF assms] by simp
  note l = lock_inv_fin(4) [OF this]
  note h = linv_holds [OF l]
  have sum: "lk_sharecount (sys_lock s) = sum (sys_shared s) ps" and nn: "\<And>q. 0 \<le> sys_shared s q"
    using l by (simp_all add: linv_def)
  have "sum (sys_shared s) ps = 0 \<longleftrightarrow> (\<forall>p\<in>ps. sys_shared s p = 0)" using nn assms(2) by (simp add: sum_nonneg_eq_0_iff)
  then have shared: "lk_sharecount (sys_lock s) \<noteq> 0 \<longleftrightarrow> (\<exists>p\<in>ps. 0 < sys_shared s p)" using sum nn by (metis less_le)
  have excl: "lk_exclusivecount (sys_lock s) \<noteq> 0 \<longleftrightarrow> (\<exists>p\<in>ps. 0 < sys_excl s p)"
  proof
    assume "lk_exclusivecount (sys_lock s) \<noteq> 0"
    then show "\<exists>p\<in>ps. 0 < sys_excl s p" using l by (intro bexI [of _ "lk_lockholder (sys_lock s)"]) (auto simp: linv_def split: if_splits)
  next
    assume "\<exists>p\<in>ps. 0 < sys_excl s p"
    then show "lk_exclusivecount (sys_lock s) \<noteq> 0" using h(2) by fastforce
  qed
  have "sys_excl s q = 0" if "p \<in> ps" "0 < sys_excl s p" "q \<noteq> p" for p q
    using h(2) [OF that(1,2)] l that(3) by (simp add: linv_def)
  then have one: "\<forall>p\<in>ps. \<forall>q. 0 < sys_excl s p \<longrightarrow> sys_shared s q = 0 \<and> (q \<noteq> p \<longrightarrow> sys_excl s q = 0)" using h(2,5) by blast
  have "\<forall>p\<in>ps. 0 < sys_excl s p \<longrightarrow> lk_exclusivecount (sys_lock s) = sys_excl s p \<and> lk_lockholder (sys_lock s) = p" using h(2) by blast
  moreover have "lockstatus (sys_lock s) =
      (if \<exists>p\<in>ps. 0 < sys_excl s p then Some LK_EXCLUSIVE else if \<exists>p\<in>ps. 0 < sys_shared s p then Some LK_SHARED else None)"
    unfolding lockstatus_def shared excl ..
  ultimately show ?thesis using one sum by blast
qed

text \<open>
  C32: While no process ever upgrades its lock, no proper call (as in C1, with at most 32767 recursive exclusive locks) and no return of a
  sleep panics. The lemma \<open>recursion_wraps\<close> shows what happens beyond that number.
\<close>
theorem lock_no_panic:
  assumes "lk_reach diag ps calls intr s" "finite ps" "LK_NOPROC \<notin> ps" "\<forall>ext. \<not> calls LK_UPGRADE ext \<and> \<not> calls LK_EXCLUPGRADE ext" "p \<in> ps"
  shows "(sys_proc s p = Outside \<and> proper_call diag s p ty flags \<and> calls ty ext \<longrightarrow> lk_do diag (Call p ty flags) s \<noteq> None) \<and>
    (sys_proc s p = Waits pl ext' w \<and> (err = None \<longrightarrow> w) \<longrightarrow> lk_do diag (Wake p err) s \<noteq> None)"
proof -
  have inv: "lock_inv True ps s" using reach_inv [OF assms(1-3), of True] assms(4) by simp
  have "lk_do diag (Call p ty flags) s \<noteq> None" if "sys_proc s p = Outside" "proper_call diag s p ty flags" "calls ty ext"
    using call_keeps [OF inv assms(5) that(2) _ that(1)] assms(4) that(3) by metis
  moreover have "lk_do diag (Wake p err) s \<noteq> None" if "sys_proc s p = Waits pl ext' w" "err = None \<longrightarrow> w"
    using wake_keeps [OF inv assms(5) that] by blast
  ultimately show ?thesis by blast
qed

text \<open>
  C4: No wakeup is lost among processes that make proper calls, neither use \<open>LK_EXCLUPGRADE\<close>, nor \<open>LK_SLEEPFAIL\<close>, nor try to upgrade
  without waiting, and whose sleeps end only by a wakeup, not by a signal or a timeout (the lemmas \<open>exclupgrade_loses_wakeup\<close> and \<open>interrupt_loses_wakeup\<close>
  show that the others can lose one): as long as a process waits, one that waits has been woken up or some process holds the lock.
\<close>
theorem lock_wakeups:
  assumes "lk_reach diag ps patient_call False s" "finite ps" "LK_NOPROC \<notin> ps" "sys_proc s p = Waits pl ext w"
  shows "\<exists>q\<in>ps. (\<exists>pl ext. sys_proc s q = Waits pl ext True) \<or> 0 < sys_shared s q \<or> 0 < sys_excl s q"
proof (rule ccontr)
  assume none: "\<not> ?thesis"
  have inv: "lock_inv False ps s" using reach_inv [OF assms(1-3)] by simp
  note l = lock_inv_fin(4) [OF inv]
  have ps: "sys_proc s q \<noteq> Outside \<Longrightarrow> q \<in> ps" for q using lock_inv_fin(3) [OF inv] by blast
  have asleep: "stuck pl (sys_lock s)" if "sys_proc s q = Waits pl ext w" for q pl ext w
    using reach_awake [OF assms(1-3)] that none ps [of q] unfolding awake_inv_def by (metis lk_pstate.distinct(1))
  have "sum (sys_shared s) ps = 0" using none l by (intro sum.neutral) (force simp: linv_def not_less order_antisym)
  then have share: "lk_sharecount (sys_lock s) = 0" using l by (simp add: linv_def)
  have noexcl: "LK_HAVE_EXCL \<notin> lk_flags (sys_lock s)" using none l by (auto simp: linv_def split: if_splits)
  have "at_place InUpgrade s = {}" using asleep [of _ InUpgrade] share by (force simp: at_place_def)
  then have up: "LK_WANT_UPGRADE \<notin> lk_flags (sys_lock s)" using l by (auto simp: linv_def split: if_splits)
  have "at_place InExcl2 s = {}" using asleep [of _ InExcl2] share noexcl up by (force simp: at_place_def shared_ahead_def)
  then have ex: "LK_WANT_EXCL \<notin> lk_flags (sys_lock s)" using l by (auto simp: linv_def split: if_splits)
  have "stuck pl (sys_lock s) \<Longrightarrow> pl = InDrain" for pl using share noexcl up ex by (cases pl) (auto simp: place_defs)
  then have "waiters s = {}" using asleep by (force simp: waiters_def)
  then have "\<not> lock_active (sys_lock s)" using share noexcl up ex l by (simp add: lock_active_def place_defs linv_def)
  then show False using asleep [OF assms(4)] \<open>\<And>pl. stuck pl (sys_lock s) \<Longrightarrow> pl = InDrain\<close> by fastforce
qed

subsection \<open>Schedules\<close>

lemma run_from_start:
  assumes "case lk_run diag ps calls intr as (lk_start prio wmesg timo flags) of Some s \<Rightarrow> P s | None \<Rightarrow> False"
  shows "\<exists>s. lk_reach diag ps calls intr s \<and> P s"
proof (cases "lk_run diag ps calls intr as (lk_start prio wmesg timo flags)")
  case (Some s)
  then show ?thesis using assms lk_run_reach [OF Some lk_reach.start] by auto
qed (use assms in simp)

text \<open>
  Without \<open>patient_call\<close> a wakeup can be lost: process 1 sleeps though nobody holds the lock and no other process is in
  \<open>lockmgr\<close>. First after a failed \<open>LK_EXCLUPGRADE\<close>, which gives up the last shared lock and wakes nobody; then
  after a process that held \<open>LK_WANT_EXCL\<close> was interrupted.
\<close>

lemma exclupgrade_loses_wakeup:
  "\<exists>s. lk_reach True {1, 2} (\<lambda>_ ext. ext = {}) False s \<and> sys_proc s 1 = Waits InUpgrade {} False \<and> sys_proc s 2 = Outside \<and>
    sys_shared s 1 = 0 \<and> sys_excl s 1 = 0 \<and> sys_shared s 2 = 0 \<and> sys_excl s 2 = 0"
  by (rule run_from_start [where as = "[Call 1 LK_SHARED {}, Call 2 LK_SHARED {}, Call 1 LK_UPGRADE {}, Call 2 LK_EXCLUPGRADE {}]"
      and prio = 0 and wmesg = "[]" and timo = 0 and flags = "{}"]) code_simp

lemma interrupt_loses_wakeup:
  "\<exists>s. lk_reach True {1, 2, 3} (\<lambda>ty ext. patient_call ty ext) True s \<and> sys_proc s 1 = Waits InShared {} False \<and>
    sys_proc s 2 = Outside \<and> sys_proc s 3 = Outside \<and> lockstatus (sys_lock s) = None"
  by (rule run_from_start [where as = "[Call 3 LK_SHARED {}, Call 2 LK_EXCLUSIVE {}, Call 1 LK_SHARED {}, Call 3 LK_RELEASE {}, Wake 1 None, Wake 2 (Some EINTR)]"
      and prio = 0 and wmesg = "[]" and timo = 0 and flags = "{}"]) code_simp

text \<open>
  The count of recursive locks is a \<open>short\<close>. A process that takes the lock once more when it holds it 32767 times makes the count negative;
  after 65536 times it is 0, \<open>lockstatus\<close> says that the lock is free, and a downgrade by the holder panics.
\<close>

lemma recursion_wraps:
  "s16 (32767 + 1) = - 32768" "s16 (- 1 + 1) = 0"
  "lk_lockholder l = p \<Longrightarrow> p \<noteq> LK_KERNPROC \<Longrightarrow> LK_CANRECURSE \<in> ext \<Longrightarrow> lk_exclusivecount l = - 1 \<Longrightarrow>
     lk_exclusive p ext l = lk_finish None (l\<lparr>lk_exclusivecount := 0\<rparr>)"
  "lk_exclusivecount l = 0 \<Longrightarrow> lk_downgrade p l = Panics"
  by (simp_all add: s16_def lk_exclusive_def lk_downgrade_def)

text \<open>
  An upgrade can overtake a request for an exclusive lock that has been woken up: the request waits for the shared locks to
  go, and does not look again whether somebody has taken the lock exclusively. So a kernel in which every call is proper and no sleep
  fails can panic: here process 2 holds the lock exclusively, and process 3 panics when it wakes up.
\<close>
theorem lock_upgrade_panics:
  "\<exists>s. lk_reach True {1, 2, 3} (\<lambda>ty ext. ty \<noteq> LK_EXCLUPGRADE \<and> ext = {}) False s \<and> sys_excl s 2 = 1 \<and>
    sys_proc s 3 = Waits InExcl2 {} True \<and> lk_do True (Wake 3 None) s = None"
  by (rule run_from_start [where as = "[Call 1 LK_SHARED {}, Call 2 LK_SHARED {}, Call 3 LK_EXCLUSIVE {}, Call 1 LK_RELEASE {}, Call 2 LK_UPGRADE {}]"
      and prio = 0 and wmesg = "[]" and timo = 0 and flags = "{}"]) code_simp

text \<open>
  A request with \<open>LK_NOWAIT\<close> does not sleep, with one exception: an upgrade of one of exactly two shared locks does, because the test
  runs after the caller's lock has been taken off the count and still asks for more than one.
\<close>
theorem lock_nowait:
  assumes "LK_NOWAIT \<in> lk_ext flags l" "diag \<longrightarrow> drain_check p ty flags l \<noteq> None"
  shows "(\<exists>l' k. lockmgr diag l ty flags (Some p) = Sleeps l' k) \<longleftrightarrow>
    (ty = LK_UPGRADE \<or> ty = LK_EXCLUPGRADE) \<and> lk_sharecount l = 2 \<and> LK_WANT_UPGRADE \<notin> lk_flags l \<and> lk_lockholder l \<noteq> p"
proof (cases "ty = LK_RELEASE")
  case True
  then show ?thesis by (auto simp: lockmgr_def lk_release_def Let_def lk_finish_def split: option.splits)
next
  case False
  then have run: "lockmgr diag l ty flags (Some p) = lk_switch ty p (lk_ext flags l) l"
    using assms(2) by (auto simp: lockmgr_def drain_check_def split: if_splits)
  have tx: "take_excl p l \<noteq> Sleeps l' k" for l l' k by (simp add: take_excl_def Let_def lk_finish_def)
  have excl: "lk_exclusive p (lk_ext flags l) l1 \<noteq> Sleeps l' k" for l1 l' k
    using assms(1) tx
    by (simp add: lk_exclusive_def ACQUIRE_def excl1_got_def excl2_got_def place_defs lock_ops lk_finish_def Let_def)
  have "lk_shared p (lk_ext flags l) l \<noteq> Sleeps l' k" "lk_downgrade p l \<noteq> Sleeps l' k" "lk_drain p (lk_ext flags l) l \<noteq> Sleeps l' k" for l' k
    using assms(1) by (simp_all add: lk_shared_def ACQUIRE_def shared_got_def lk_downgrade_def lk_drain_def drain_loop_def Let_def lk_finish_def)
  moreover have "(\<exists>l' k. lk_upgrade p (lk_ext flags l) l = Sleeps l' k) \<longleftrightarrow>
      lk_sharecount l = 2 \<and> LK_WANT_UPGRADE \<notin> lk_flags l \<and> lk_lockholder l \<noteq> p"
    using assms(1) excl tx
    by (auto simp: lk_upgrade_def ACQUIRE_def upgrade_got_def lock_ops Let_def lk_finish_def)
  ultimately show ?thesis unfolding run using False excl
    by (cases ty) (simp_all add: lk_exclupgrade_def lk_finish_def)
qed

lemma one_holds_one_waits:
  "\<exists>s. lk_reach True {1, 2} patient_call False s \<and> sys_excl s 1 = 1 \<and> sys_proc s 2 = Waits InShared {} False"
  by (rule run_from_start [where as = "[Call 1 LK_EXCLUSIVE {}, Call 2 LK_SHARED {}]" and prio = 0 and wmesg = "[]" and timo = 0 and flags = "{}"])
    code_simp

lemma noproc_12: "LK_NOPROC \<notin> {1, 2}"
  by (simp add: LK_NOPROC_def)

theorem lock_excludes_witness:
  "\<exists>s :: lk_system. sys_excl s 1 = 1 \<and> sys_shared s 2 = 0 \<and> lockstatus (sys_lock s) = Some LK_EXCLUSIVE"
proof -
  obtain s where s: "lk_reach True {1, 2} patient_call False s" "sys_excl s 1 = 1" using one_holds_one_waits by blast
  have "finite {1, 2 :: int}" by simp
  note e = lock_excludes [OF s(1) this noproc_12]
  have "sys_shared s 2 = 0" "lockstatus (sys_lock s) = Some LK_EXCLUSIVE" using e s(2) by auto
  then show ?thesis using s(2) by blast
qed

theorem lock_no_panic_witness: "lk_do True (Call 1 LK_EXCLUSIVE {}) (lk_start 0 [] 0 {}) \<noteq> None"
proof -
  have "lk_reach True {1, 2} (\<lambda>ty _. ty = LK_EXCLUSIVE) False (lk_start 0 [] 0 {})" by (rule lk_reach.start)
  moreover have "proper_call True (lk_start 0 [] 0 {}) 1 LK_EXCLUSIVE {}" "sys_proc (lk_start 0 [] 0 {}) 1 = Outside"
    by (simp_all add: lk_start_def drain_check_def lockinit_def)
  ultimately show ?thesis
    using lock_no_panic [where diag = True and ps = "{1, 2}" and calls = "\<lambda>ty _. ty = LK_EXCLUSIVE" and intr = False and s = "lk_start 0 [] 0 {}"
      and p = 1 and ty = LK_EXCLUSIVE and flags = "{}"] noproc_12 by simp
qed

theorem lock_wakeups_witness:
  "\<exists>(s :: lk_system) q. sys_proc s 2 = Waits InShared {} False \<and> q \<in> {1, 2 :: int} \<and>
    ((\<exists>pl ext. sys_proc s q = Waits pl ext True) \<or> 0 < sys_shared s q \<or> 0 < sys_excl s q)"
proof -
  obtain s where s: "lk_reach True {1, 2} patient_call False s" "sys_proc s 2 = Waits InShared {} False"
    using one_holds_one_waits by blast
  have "finite {1, 2 :: int}" by simp
  from lock_wakeups [OF s(1) this noproc_12 s(2)] s(2) show ?thesis by blast
qed

theorem lock_nowait_witness: "\<exists>l' k. lockmgr True ((lockinit 0 [] 0 {})\<lparr>lk_sharecount := 2\<rparr>) LK_UPGRADE {LK_NOWAIT} (Some 1) = Sleeps l' k"
  using lock_nowait [where l = "(lockinit 0 [] 0 {})\<lparr>lk_sharecount := 2\<rparr>" and diag = True and p = 1 and ty = LK_UPGRADE and flags = "{LK_NOWAIT}"]
  by (simp add: lk_ext_def LK_EXTFLG_MASK_def lockinit_def drain_check_def LK_NOPROC_def)

end
