(* ===== verification/Cksum.thy ===== *)
theory Cksum
  imports Mbuf
begin

text \<open>
  The checksum of Internet protocols over a chain of mbufs, \<^verbatim>\<open>sys/netinet/in_cksum.c\<close>. Bytes are read as 16-bit words
  of the machine, big-endian or little-endian; \<open>odd_at\<close> says whether the data of an mbuf starts
  at an odd address. The variable \<open>sum\<close> is a word of 32 bits, as the union that reduces it reads it. A pointer into the data
  is the list of the bytes from there on, and \<open>mlen\<close> goes below zero as in the code.
\<close>

definition word16 :: "bool \<Rightarrow> u8 \<Rightarrow> u8 \<Rightarrow> u32" where
  "word16 big c0 c1 = (if big then push_bit 8 (ucast c0) + ucast c1 else ucast c0 + push_bit 8 (ucast c1))"

definition ADDCARRY :: "u32 \<Rightarrow> u32" where "ADDCARRY x = (if x > 65535 then x - 65535 else x)"

definition REDUCE :: "u32 \<Rightarrow> u32" where "REDUCE sm = ADDCARRY ((sm AND 0xffff) + drop_bit 16 sm)"

text \<open>\<open>n\<close> additions of the unrolled loops.\<close>

fun add_words :: "bool \<Rightarrow> nat \<Rightarrow> u8 list \<Rightarrow> u32 \<Rightarrow> u32" where
  "add_words big 0 w sm = sm"
| "add_words big (Suc n) w sm = add_words big n (drop 2 w) (sm + word16 big (w ! 0) (w ! 1))"

text \<open>A loop \<open>while ((mlen -= 2 * n) >= 0)\<close> that adds \<open>n\<close> words at a time.\<close>

function words_loop :: "bool \<Rightarrow> nat \<Rightarrow> u8 list \<Rightarrow> int \<Rightarrow> u32 \<Rightarrow> u8 list \<times> int \<times> u32" where
  "words_loop big n w mlen sm =
     (if 0 < n \<and> mlen - 2 * int n \<ge> 0 then words_loop big n (drop (2 * n) w) (mlen - 2 * int n) (add_words big n w sm)
      else (w, mlen - 2 * int n, sm))"
  by pat_completeness auto
termination by (relation "measure (\<lambda>(big, n, w, mlen, sm). nat mlen)") auto

declare words_loop.simps [simp del]

record cksum =
  ck_sum :: u32
  ck_mlen :: int
  ck_len :: int
  ck_c0 :: u8

text \<open>The first byte, if it is the other half of a word that the last mbuf began.\<close>

definition cksum_span :: "bool \<Rightarrow> u8 list \<Rightarrow> nat \<Rightarrow> cksum \<Rightarrow> u8 list \<times> cksum" where
  "cksum_span big w len s =
     (if ck_mlen s = - 1 then
        (drop 1 w, s\<lparr>ck_sum := ck_sum s + word16 big (ck_c0 s) (w ! 0), ck_mlen := int len - 1, ck_len := ck_len s - 1\<rparr>)
      else (w, s\<lparr>ck_mlen := int len\<rparr>))"

text \<open>An odd address: the words after the first byte are added with their bytes swapped.\<close>

definition cksum_even :: "bool \<Rightarrow> u8 list \<Rightarrow> cksum \<Rightarrow> bool \<times> u8 list \<times> cksum" where
  "cksum_even odd_w w s =
     (if odd_w \<and> ck_mlen s > 0 then
        (True, drop 1 w, s\<lparr>ck_sum := push_bit 8 (REDUCE (ck_sum s)), ck_c0 := w ! 0, ck_mlen := ck_mlen s - 1\<rparr>)
      else (False, w, s))"

text \<open>The two unrolled loops.\<close>

definition cksum_blocks :: "bool \<Rightarrow> u8 list \<Rightarrow> cksum \<Rightarrow> u8 list \<times> cksum" where
  "cksum_blocks big w s =
     (case words_loop big 16 w (ck_mlen s) (ck_sum s) of (w1, mlen1, sum1) \<Rightarrow>
        (case words_loop big 4 w1 (mlen1 + 32) sum1 of (w2, mlen2, sum2) \<Rightarrow>
           (w2, s\<lparr>ck_mlen := mlen2 + 8, ck_sum := sum2\<rparr>)))"

text \<open>The rest of the words, and the odd byte.\<close>

definition cksum_rest :: "bool \<Rightarrow> bool \<Rightarrow> u8 list \<Rightarrow> cksum \<Rightarrow> cksum" where
  "cksum_rest big byte_swapped w s =
     (if ck_mlen s = 0 \<and> \<not> byte_swapped then s
      else
        (case words_loop big 1 w (ck_mlen s) (REDUCE (ck_sum s)) of (w1, mlen1, sum1) \<Rightarrow>
           if byte_swapped then
             let sum2 = push_bit 8 (REDUCE sum1)
             in if mlen1 = - 1 then s\<lparr>ck_sum := sum2 + word16 big (ck_c0 s) (w1 ! 0), ck_mlen := 0\<rparr>
                else s\<lparr>ck_sum := sum2, ck_mlen := - 1\<rparr>
           else if mlen1 = - 1 then s\<lparr>ck_sum := sum1, ck_mlen := mlen1, ck_c0 := w1 ! 0\<rparr>
           else s\<lparr>ck_sum := sum1, ck_mlen := mlen1\<rparr>))"

text \<open>The body of the loop for one mbuf that is not empty.\<close>

definition cksum_mbuf :: "bool \<Rightarrow> bool \<Rightarrow> u8 list \<Rightarrow> nat \<Rightarrow> cksum \<Rightarrow> cksum" where
  "cksum_mbuf big odd_w w len s =
     (case cksum_span big w len s of (w1, s1) \<Rightarrow>
        let mlen = (if ck_len s1 < ck_mlen s1 then ck_len s1 else ck_mlen s1);
            s2 = s1\<lparr>ck_mlen := mlen, ck_len := ck_len s1 - mlen\<rparr>
        in (case cksum_even (if ck_mlen s = - 1 then \<not> odd_w else odd_w) w1 s2 of (byte_swapped, w2, s3) \<Rightarrow>
              (case cksum_blocks big w2 s3 of (w3, s4) \<Rightarrow> cksum_rest big byte_swapped w3 s4)))"

fun cksum_loop :: "bool \<Rightarrow> (mbuf \<Rightarrow> bool) \<Rightarrow> mstate \<Rightarrow> mbuf list \<Rightarrow> cksum \<Rightarrow> cksum" where
  "cksum_loop big odd_at st [] s = s"
| "cksum_loop big odd_at st (m # ms) s =
     (if ck_len s = 0 then s
      else if m_len m = 0 then cksum_loop big odd_at st ms s
      else cksum_loop big odd_at st ms (cksum_mbuf big (odd_at m) (mbytes st m) (m_len m) s))"

text \<open>The result, and whether the message that the chain is too short was printed. The byte \<open>c0\<close> starts uninitialised.\<close>

definition in_cksum :: "bool \<Rightarrow> (mbuf \<Rightarrow> bool) \<Rightarrow> u8 \<Rightarrow> mstate \<Rightarrow> mbuf list \<Rightarrow> int \<Rightarrow> u32 \<times> bool" where
  "in_cksum big odd_at junk st m len =
     (let s = cksum_loop big odd_at st m \<lparr>ck_sum = 0, ck_mlen = 0, ck_len = len, ck_c0 = junk\<rparr>;
          sm = (if ck_mlen s = - 1 then ck_sum s + word16 big (ck_c0 s) 0 else ck_sum s)
      in (NOT (REDUCE sm) AND 0xffff, ck_len s \<noteq> 0))"

end
