(* ===== verification/Cksum_Correct.thy ===== *)
theory Cksum_Correct
  imports Cksum Mbuf_Chain
begin

text \<open>
  The checksum is the ones' complement of the ones' complement sum of the words of the first \<open>len\<close> bytes of the chain, whatever
  the lengths and addresses of its mbufs. Sums are compared modulo 65535 (\<open>eqv\<close>), where multiplying by 256
  swaps the bytes of all words; \<open>val\<close> is the sum of the bytes with the weight of their place in a word.
\<close>

subsection \<open>Sums modulo 65535\<close>

definition eqv :: "int \<Rightarrow> int \<Rightarrow> bool" where
  "eqv a b \<longleftrightarrow> 0 \<le> a \<and> 0 \<le> b \<and> a mod 65535 = b mod 65535 \<and> (a = 0 \<longleftrightarrow> b = 0)"

lemma eqv_refl: "0 \<le> a \<Longrightarrow> eqv a a" and eqv_trans: "eqv a b \<Longrightarrow> eqv b c \<Longrightarrow> eqv a c" and eqv_sym: "eqv a b \<Longrightarrow> eqv b a"
  by (simp_all add: eqv_def)

lemma eqv_add: "eqv a b \<Longrightarrow> 0 \<le> c \<Longrightarrow> eqv (a + c) (b + c)"
  unfolding eqv_def by (auto intro: mod_add_cong)

lemma eqv_add2: "eqv a b \<Longrightarrow> eqv c d \<Longrightarrow> eqv (a + c) (b + d)"
  unfolding eqv_def by (auto intro: mod_add_cong)

lemma eqv_mult: "eqv a b \<Longrightarrow> eqv (256 * a) (256 * b)"
  unfolding eqv_def by (auto intro: mod_mult_cong)

lemma eqv_65536: "0 \<le> a \<Longrightarrow> eqv (65536 * a) a"
proof -
  assume "0 \<le> a"
  moreover have "65536 * a mod 65535 = (a + a * 65535) mod 65535" by simp
  then have "65536 * a mod 65535 = a mod 65535" by (simp only: mod_mult_self1)
  ultimately show ?thesis by (auto simp: eqv_def)
qed

text \<open>The sum in the range of a word: zero only for nothing but zeros.\<close>

definition reduced :: "int \<Rightarrow> int" where "reduced v = (if v = 0 then 0 else (v - 1) mod 65535 + 1)"

lemma eqv_reduced:
  assumes "eqv a v" "a \<le> 65535"
  shows "a = reduced v"
proof (cases "v = 0")
  case True
  then show ?thesis using assms by (simp add: eqv_def reduced_def)
next
  case False
  then have a: "0 < a" using assms by (auto simp: eqv_def)
  have "(a - 1) mod 65535 = (v - 1) mod 65535" using assms(1) unfolding eqv_def by (intro mod_diff_cong) auto
  moreover have "(a - 1) mod 65535 = a - 1" using a assms(2) by (intro mod_pos_pos_trivial) auto
  ultimately show ?thesis using False by (simp add: reduced_def)
qed

lemma uint_REDUCE:
  "uint (REDUCE s) \<le> 65535" "eqv (uint (REDUCE s)) (uint s)"
proof -
  define h l where "h = uint s div 65536" and "l = uint s mod 65536"
  have s: "uint s = h * 65536 + l" by (simp add: h_def l_def)
  have "uint s < 4294967296" using uint_lt2p [of s] by simp
  moreover have "0 \<le> x \<Longrightarrow> x < 4294967296 \<Longrightarrow> 0 \<le> x div 65536 \<and> x div 65536 \<le> 65535 \<and> 0 \<le> x mod 65536 \<and> x mod 65536 \<le> 65535" for x :: int
    by linarith
  ultimately have hl: "0 \<le> h" "h \<le> 65535" "0 \<le> l" "l \<le> 65535" unfolding h_def l_def by (metis uint_nonnegative)+
  have lo: "uint (s AND 0xffff) = l"
  proof -
    have "(0xffff :: u32) = mask 16" by (simp add: mask_eq_exp_minus_1)
    then have "s AND 0xffff = take_bit 16 s" by (simp add: take_bit_eq_mask)
    then show ?thesis by (simp add: l_def take_bit_eq_mod uint_mod_distrib)
  qed
  have hi: "uint (drop_bit 16 s) = h" 
    using uint_lt2p [of s] by (subst unsigned_drop_bit_eq) (simp add: h_def drop_bit_eq_div take_bit_int_eq_self)
  have t: "uint ((s AND 0xffff) + drop_bit 16 s) = l + h" using hl by (simp add: uint_word_ariths lo hi mod_pos_pos_trivial)
  define r where "r = uint (REDUCE s)"
  have r: "r = (if l + h > 65535 then l + h - 65535 else l + h)"
  proof (cases "l + h > 65535")
    case True
    then have "(s AND 0xffff) + drop_bit 16 s > 65535" by (simp add: word_less_def t)
    moreover have "uint ((s AND 0xffff) + drop_bit 16 s - 65535) = l + h - 65535"
      using uint_sub_lem [where x = "(s AND 0xffff) + drop_bit 16 s" and y = 65535] True by (simp add: t)
    ultimately show ?thesis using True by (simp add: r_def REDUCE_def ADDCARRY_def)
  next
    case False
    then have "\<not> (s AND 0xffff) + drop_bit 16 s > 65535" by (simp add: word_less_def t)
    then show ?thesis using False by (simp add: r_def REDUCE_def ADDCARRY_def t)
  qed
  show "uint (REDUCE s) \<le> 65535" using r hl by (simp add: r_def split: if_splits)
  have "(h * 65536 + l) mod 65535 = (l + h + h * 65535) mod 65535" by (simp add: algebra_simps)
  then have "(h * 65536 + l) mod 65535 = (l + h) mod 65535" by (simp only: mod_mult_self1)
  moreover have "r mod 65535 = (l + h) mod 65535"
  proof (cases "l + h > 65535")
    case True
    then have "l + h = r + 1 * 65535" using r by simp
    then show ?thesis by (simp only: mod_mult_self1)
  qed (simp add: r)
  moreover have "r = 0 \<longleftrightarrow> h = 0 \<and> l = 0" using r hl by auto
  moreover have "h * 65536 + l = 0 \<longleftrightarrow> h = 0 \<and> l = 0" using hl by linarith
  ultimately show "eqv (uint (REDUCE s)) (uint s)" using hl r s by (auto simp: eqv_def r_def)
qed

lemma uint_shift8:
  assumes "uint s \<le> 65535"
  shows "uint (push_bit 8 s) = 256 * uint (s :: u32)"
  using assms by (subst unsigned_push_bit_eq) (simp add: take_bit_eq_mod push_bit_eq_mult mod_pos_pos_trivial)

lemma shift_eqv: "eqv (uint s) v \<Longrightarrow> eqv (uint (push_bit 8 (REDUCE s))) (256 * v)" "uint (push_bit 8 (REDUCE s)) \<le> 16776960"
proof -
  show "uint (push_bit 8 (REDUCE s)) \<le> 16776960" using uint_REDUCE(1) [of s] by (simp add: uint_shift8)
  assume "eqv (uint s) v"
  then have "eqv (uint (REDUCE s)) v" using uint_REDUCE(2) eqv_trans by blast
  then show "eqv (uint (push_bit 8 (REDUCE s))) (256 * v)" using eqv_mult uint_REDUCE(1) [of s] by (simp add: uint_shift8)
qed

subsection \<open>Bytes and words\<close>

text \<open>The weight of a byte in a word; \<open>o\<close> says that it is the second byte.\<close>

definition weight :: "bool \<Rightarrow> bool \<Rightarrow> int" where "weight big second = (if big = second then 1 else 256)"

fun val :: "bool \<Rightarrow> bool \<Rightarrow> u8 list \<Rightarrow> int" where
  "val big second [] = 0"
| "val big second (b # bs) = uint b * weight big second + val big (\<not> second) bs"

lemma uint_u8: "0 \<le> uint (b :: u8)" "uint (b :: u8) \<le> 255"
  using uint_lt2p [of b] by simp_all

lemma weight_pos: "0 < weight big second" by (simp add: weight_def)

lemma val_nonneg: "0 \<le> val big second bs"
  by (induction bs arbitrary: second) (simp_all add: weight_def)

lemma val_append: "val big second (xs @ ys) = val big second xs + val big (second \<noteq> odd (length xs)) ys"
proof (induction xs arbitrary: second)
  case (Cons x xs)
  then show ?case by (cases second; cases "odd (length xs)") simp_all
qed simp

lemma uint_word16: "uint (word16 big a b) = uint a * weight big False + uint b * weight big True" "uint (word16 big a b) \<le> 65535"
proof -
  have u: "uint (ucast x :: u32) = uint x" "uint (push_bit 8 (ucast x :: u32)) = 256 * uint x" for x :: u8
  proof -
    show e: "uint (ucast x :: u32) = uint x" using uint_u8 [of x] by (simp add: unsigned_ucast_eq take_bit_int_eq_self_iff)
    show "uint (push_bit 8 (ucast x :: u32)) = 256 * uint x" using uint_u8 [of x] by (subst uint_shift8) (simp_all only: e)
  qed
  have "uint (word16 big a b) = uint a * weight big False + uint b * weight big True \<and> uint (word16 big a b) \<le> 65535"
    using uint_u8 [of a] uint_u8 [of b]
    by (cases big) (simp_all add: word16_def weight_def uint_word_ariths u mod_pos_pos_trivial)
  then show "uint (word16 big a b) = uint a * weight big False + uint b * weight big True" "uint (word16 big a b) \<le> 65535" by auto
qed

text \<open>Multiplying by 256 exchanges the two bytes of every word.\<close>

lemma swap_bytes: "eqv (256 * val big second bs) (val big (\<not> second) bs)"
proof (induction bs arbitrary: second)
  case Nil
  then show ?case by (simp add: eqv_def)
next
  case (Cons b bs)
  have "eqv (256 * (uint b * weight big second)) (uint b * weight big (\<not> second))"
  proof (cases "big = second")
    case True
    then show ?thesis by (simp add: weight_def eqv_refl mult.commute [of 256])
  next
    case False
    then show ?thesis using eqv_65536 [of "uint b"] by (simp add: weight_def)
  qed
  from eqv_add2 [OF this Cons.IH [of "\<not> second"]] show ?case by (simp add: algebra_simps)
qed

subsection \<open>The loops\<close>

lemma uint_add_word:
  assumes "uint s + 65535 < 2 ^ 32"
  shows "uint (s + word16 big a b) = uint s + (uint a * weight big False + uint b * weight big True)"
    "uint (s + word16 big a b) \<le> uint s + 65535"
proof -
  have "uint (s + word16 big a b) = uint s + uint (word16 big a b)"
    using assms uint_word16(2) [of big a b] uint_add_lem [where x = s and y = "word16 big a b"] by simp
  then show "uint (s + word16 big a b) = uint s + (uint a * weight big False + uint b * weight big True)"
    "uint (s + word16 big a b) \<le> uint s + 65535" using uint_word16 [of big a b] by simp_all
qed

lemma take_two: "2 \<le> length w \<Longrightarrow> take (Suc (Suc k)) w = w ! 0 # w ! 1 # take k (drop 2 w)"
  by (cases w; cases "tl w") (auto simp: numeral_2_eq_2)

lemma add_words_spec:
  assumes "eqv (uint s) v" "2 * n \<le> length w" "uint s + 65535 * int n < 2 ^ 32"
  shows "eqv (uint (add_words big n w s)) (v + val big False (take (2 * n) w)) \<and> uint (add_words big n w s) \<le> uint s + 65535 * int n"
  using assms
proof (induction n arbitrary: w s v)
  case (Suc n)
  define s1 where "s1 = s + word16 big (w ! 0) (w ! 1)"
  define c where "c = uint (w ! 0) * weight big False + uint (w ! 1) * weight big True"
  have c: "0 \<le> c" using weight_pos [of big] by (simp add: c_def order_less_imp_le)
  have "uint s + 65535 < 2 ^ 32" using Suc.prems(3) by simp
  from uint_add_word [OF this, of big "w ! 0" "w ! 1"] have s1: "uint s1 = uint s + c" "uint s1 \<le> uint s + 65535"
    by (simp_all add: s1_def c_def)
  have "eqv (uint s1) (v + c)" unfolding s1(1) by (rule eqv_add [OF Suc.prems(1) c])
  moreover have "2 * n \<le> length (drop 2 w)" "uint s1 + 65535 * int n < 2 ^ 32" using Suc.prems(2,3) s1(2) by auto
  ultimately have "eqv (uint (add_words big n (drop 2 w) s1)) (v + c + val big False (take (2 * n) (drop 2 w))) \<and>
      uint (add_words big n (drop 2 w) s1) \<le> uint s1 + 65535 * int n" by (rule Suc.IH)
  then have "eqv (uint (add_words big n (drop 2 w) s1)) (v + c + val big False (take (2 * n) (drop 2 w))) \<and>
      uint (add_words big n (drop 2 w) s1) \<le> uint s + 65535 * int (Suc n)" using s1(2) by simp
  moreover have "val big False (take (2 * Suc n) w) = c + val big False (take (2 * n) (drop 2 w))"
    using take_two [of w "2 * n"] Suc.prems(2) by (simp add: c_def)
  ultimately show ?case by (simp add: s1_def add.assoc)
qed (simp add: eqv_def)

lemma words_loop_spec:
  assumes "0 < n" "l \<le> length w" "eqv (uint s) v" "2 * uint s + 65535 * int l < 2 ^ 33" "words_loop big n w (int l) s = (w', mlen', s')"
  shows "\<exists>j\<le>l. even j \<and> w' = drop j w \<and> mlen' = int l - int j - 2 * int n \<and> l - j < 2 * n \<and>
    eqv (uint s') (v + val big False (take j w)) \<and> 2 * uint s' \<le> 2 * uint s + 65535 * int j"
  using assms
proof (induction l arbitrary: w s v rule: less_induct)
  case (less l)
  show ?case
  proof (cases "2 * n \<le> l")
    case True
    define s1 where "s1 = add_words big n w s"
    have "words_loop big n w (int l) s = words_loop big n (drop (2 * n) w) (int l - 2 * int n) s1"
      using less.prems(1) True by (subst words_loop.simps) (simp add: s1_def)
    then have "words_loop big n (drop (2 * n) w) (int l - 2 * int n) s1 = (w', mlen', s')" using less.prems(5) by (simp only:)
    moreover have il: "int l - 2 * int n = int (l - 2 * n)" using True by (simp add: of_nat_diff)
    ultimately have run: "words_loop big n (drop (2 * n) w) (int (l - 2 * n)) s1 = (w', mlen', s')" by (simp only:)
    have "2 * n \<le> length w" using True less.prems(2) by simp
    moreover have "2 * int n \<le> int l" using True by linarith
    then have "uint s + 65535 * int n < 2 ^ 32" using less.prems(4) by simp
    ultimately have a: "eqv (uint s1) (v + val big False (take (2 * n) w))" "uint s1 \<le> uint s + 65535 * int n"
      using add_words_spec [OF less.prems(3)] unfolding s1_def by blast+
    have "l - 2 * n < l" "l - 2 * n \<le> length (drop (2 * n) w)" "2 * uint s1 + 65535 * int (l - 2 * n) < 2 ^ 33"
      using True less.prems(1,2,4) a(2) by (simp_all flip: il)
    from less.IH [OF this(1) less.prems(1) this(2) a(1) this(3) run]
    obtain j where j: "j \<le> l - 2 * n" "even j" "w' = drop j (drop (2 * n) w)" "mlen' = int (l - 2 * n) - int j - 2 * int n" "l - 2 * n - j < 2 * n"
      "eqv (uint s') (v + val big False (take (2 * n) w) + val big False (take j (drop (2 * n) w)))" "2 * uint s' \<le> 2 * uint s1 + 65535 * int j" by blast
    have len: "length (take (2 * n) w) = 2 * n" using True less.prems(2) by simp
    have "take (2 * n + j) w = take (2 * n) w @ take j (drop (2 * n) w)" by (rule take_add)
    then have "val big False (take (2 * n + j) w) = val big False (take (2 * n) w) + val big False (take j (drop (2 * n) w))"
      using len by (simp add: val_append)
    then have "eqv (uint s') (v + val big False (take (2 * n + j) w))" using j(6) by (simp only: add.assoc)
    moreover have "2 * n + j \<le> l" "w' = drop (2 * n + j) w" "mlen' = int l - int (2 * n + j) - 2 * int n" "l - (2 * n + j) < 2 * n"
      "2 * uint s' \<le> 2 * uint s + 65535 * int (2 * n + j)"
      using j(1,3,4,5,7) a(2) True by (simp_all add: add.commute flip: il)
    ultimately show ?thesis using j(2) by (intro exI [of _ "2 * n + j"]) simp
  next
    case False
    then have "words_loop big n w (int l) s = (w, int l - 2 * int n, s)" by (subst words_loop.simps) simp
    then show ?thesis using less.prems False by (intro exI [of _ 0]) simp
  qed
qed

subsection \<open>One mbuf\<close>

text \<open>
  The state when \<open>k\<close> bytes with the sum \<open>v\<close> have been read: after an odd number of bytes one of them waits in \<open>c0\<close> for its other
  half. The sum does not overflow: a sum that was shifted is below 16776961, and a word adds 65535 for two bytes.
\<close>

definition ck_ok :: "bool \<Rightarrow> int \<Rightarrow> nat \<Rightarrow> cksum \<Rightarrow> bool" where
  "ck_ok big v k s \<longleftrightarrow>
     (if ck_mlen s = - 1 then
        odd k \<and> eqv (uint (ck_sum s) + uint (ck_c0 s) * weight big False) v \<and> 2 * uint (ck_sum s) \<le> 33553920 + 65535 * (int k - 1)
      else even k \<and> eqv (uint (ck_sum s)) v \<and> 2 * uint (ck_sum s) \<le> 33553920 + 65535 * int k)"

lemma cksum_blocks_spec:
  assumes "cksum_blocks big w s = (w', s')" "ck_mlen s = int l" "l \<le> length w" "eqv (uint (ck_sum s)) v"
    "2 * uint (ck_sum s) + 65535 * int l < 2 ^ 33"
  shows "\<exists>j\<le>l. even j \<and> w' = drop j w \<and> (\<exists>sm. s' = s\<lparr>ck_mlen := int (l - j), ck_sum := sm\<rparr> \<and>
    eqv (uint sm) (v + val big False (take j w)) \<and> 2 * uint sm \<le> 2 * uint (ck_sum s) + 65535 * int j)"
proof -
  obtain w1 mlen1 sum1 where r1: "words_loop big 16 w (int l) (ck_sum s) = (w1, mlen1, sum1)" by (metis prod_cases3)
  obtain j where j: "j \<le> l" "even j" "w1 = drop j w" "mlen1 = int l - int j - 2 * int 16"
    "eqv (uint sum1) (v + val big False (take j w))" "2 * uint sum1 \<le> 2 * uint (ck_sum s) + 65535 * int j"
    using words_loop_spec [OF _ assms(3,4,5) r1] by auto
  obtain w2 mlen2 sum2 where r2: "words_loop big 4 w1 (int (l - j)) sum1 = (w2, mlen2, sum2)" by (metis prod_cases3)
  have "l - j \<le> length w1" "2 * uint sum1 + 65535 * int (l - j) < 2 ^ 33" using j(1,3,6) assms(3,5) by (simp_all add: of_nat_diff)
  from words_loop_spec [OF _ this(1) j(5) this(2) r2]
  obtain i where i: "i \<le> l - j" "even i" "w2 = drop i w1" "mlen2 = int (l - j) - int i - 2 * int 4"
    "eqv (uint sum2) (v + val big False (take j w) + val big False (take i w1))" "2 * uint sum2 \<le> 2 * uint sum1 + 65535 * int i"
    by auto
  have len: "length (take j w) = j" using j(1) assms(3) by simp
  have "val big False (take (j + i) w) = val big False (take j w) + val big False (take i w1)"
    unfolding take_add val_append len j(3) using j(2) by simp
  moreover have "mlen1 + 32 = int (l - j)" using j(1,4) by (simp add: of_nat_diff)
  then have "w' = w2" "s' = s\<lparr>ck_mlen := mlen2 + 8, ck_sum := sum2\<rparr>"
    using assms(1,2) r1 r2 by (simp_all add: cksum_blocks_def)
  moreover have "mlen2 + 8 = int (l - (j + i))" using i(1,4) j(1) by (simp add: of_nat_diff)
  ultimately show ?thesis using i j
    by (intro exI [of _ "j + i"]) (auto simp: add.commute add.assoc algebra_simps)
qed

lemma words_rest:
  assumes "words_loop big 1 w (int l) s = (w', mlen', s')" "l \<le> length w" "eqv (uint s) v" "2 * uint s + 65535 * int l < 2 ^ 33"
  shows "even l \<Longrightarrow> mlen' = - 2 \<and> eqv (uint s') (v + val big False (take l w)) \<and> 2 * uint s' \<le> 2 * uint s + 65535 * int l"
    "odd l \<Longrightarrow> mlen' = - 1 \<and> w' ! 0 = w ! (l - 1) \<and> eqv (uint s') (v + val big False (take (l - 1) w)) \<and>
      2 * uint s' \<le> 2 * uint s + 65535 * (int l - 1)"
proof -
  obtain j where j: "j \<le> l" "even j" "w' = drop j w" "mlen' = int l - int j - 2" "l - j < 2"
    "eqv (uint s') (v + val big False (take j w))" "2 * uint s' \<le> 2 * uint s + 65535 * int j"
    using words_loop_spec [OF _ assms(2,3,4,1)] by auto
  show "mlen' = - 2 \<and> eqv (uint s') (v + val big False (take l w)) \<and> 2 * uint s' \<le> 2 * uint s + 65535 * int l" if "even l"
  proof -
    have "j = l" using j(1,2,5) that by presburger
    then show ?thesis using j by simp
  qed
  show "mlen' = - 1 \<and> w' ! 0 = w ! (l - 1) \<and> eqv (uint s') (v + val big False (take (l - 1) w)) \<and> 2 * uint s' \<le> 2 * uint s + 65535 * (int l - 1)"
    if "odd l"
  proof -
    have "l = Suc j" using j(1,2,5) that by presburger
    then show ?thesis using j assms(2) by simp
  qed
qed

lemma val_last: "0 < l \<Longrightarrow> l \<le> length w \<Longrightarrow>
  val big second (take l w) = val big second (take (l - 1) w) + uint (w ! (l - 1)) * weight big (second \<noteq> even l)"
proof -
  assume l: "0 < l" "l \<le> length w"
  then have "take l w = take (l - 1) w @ [w ! (l - 1)]" using take_Suc_conv_app_nth [of "l - 1" w] by simp
  moreover have "length (take (l - 1) w) = l - 1" "odd (l - 1) = even l" using l by auto
  ultimately show ?thesis by (simp add: val_append)
qed

lemma cksum_rest_plain:
  assumes "ck_mlen s = int l" "l \<le> length w" "eqv (uint (ck_sum s)) v" "even k" "2 * uint (ck_sum s) \<le> 33553920 + 65535 * int k" "k + l \<le> 65535"
  shows "ck_ok big (v + val big False (take l w)) (k + l) (cksum_rest big False w s) \<and> ck_len (cksum_rest big False w s) = ck_len s"
proof (cases "l = 0")
  case True
  then show ?thesis using assms by (simp add: cksum_rest_def ck_ok_def)
next
  case False
  obtain w1 mlen1 s1 where r: "words_loop big 1 w (int l) (REDUCE (ck_sum s)) = (w1, mlen1, s1)" by (metis prod_cases3)
  have e: "eqv (uint (REDUCE (ck_sum s))) v" using uint_REDUCE(2) assms(3) eqv_trans by blast
  have b: "2 * uint (REDUCE (ck_sum s)) + 65535 * int l < 2 ^ 33" using uint_REDUCE(1) [of "ck_sum s"] assms(6) by simp
  note r' = words_rest [OF r assms(2) e b]
  have run: "cksum_rest big False w s =
      (if mlen1 = - 1 then s\<lparr>ck_sum := s1, ck_mlen := mlen1, ck_c0 := w1 ! 0\<rparr> else s\<lparr>ck_sum := s1, ck_mlen := mlen1\<rparr>)"
    using r assms(1) False by (simp add: cksum_rest_def)
  show ?thesis
  proof (cases "even l")
    case True
    then show ?thesis using r'(1) [OF True] uint_REDUCE(1) [of "ck_sum s"] assms(4) by (simp add: run ck_ok_def)
  next
    case odd: False
    note f = r'(2) [OF odd]
    have "eqv (uint s1 + uint (w ! (l - 1)) * weight big False) (v + val big False (take (l - 1) w) + uint (w ! (l - 1)) * weight big False)"
      using f weight_pos [of big False] by (intro eqv_add) (simp_all add: order_less_imp_le)
    moreover have "val big False (take l w) = val big False (take (l - 1) w) + uint (w ! (l - 1)) * weight big False"
      using val_last [of l w big False] odd assms(2) False by simp
    ultimately show ?thesis using f uint_REDUCE(1) [of "ck_sum s"] assms(4) odd by (simp add: run ck_ok_def add.assoc)
  qed
qed

lemma cksum_rest_swapped:
  assumes "ck_mlen s = int l" "l \<le> length w" "eqv (uint (ck_sum s)) (256 * v + u)" "0 \<le> v" "0 \<le> u"
    "even k" "k + 1 + l \<le> 65535" "2 * uint (ck_sum s) + 65535 * int l < 2 ^ 33"
    "\<And>j. j \<le> l \<Longrightarrow> even j \<Longrightarrow> u + val big False (take j w) = val big False (bs @ take j w)" "even (length bs)"
  shows "ck_ok big (v + uint (ck_c0 s) * weight big False + val big True (bs @ take l w)) (k + 1 + l) (cksum_rest big True w s) \<and>
    ck_len (cksum_rest big True w s) = ck_len s"
proof -
  obtain w1 mlen1 s1 where r: "words_loop big 1 w (int l) (REDUCE (ck_sum s)) = (w1, mlen1, s1)" by (metis prod_cases3)
  have e: "eqv (uint (REDUCE (ck_sum s))) (256 * v + u)" using uint_REDUCE(2) assms(3) eqv_trans by blast
  have b: "2 * uint (REDUCE (ck_sum s)) + 65535 * int l < 2 ^ 33" using uint_REDUCE(1) [of "ck_sum s"] assms(7) by simp
  note r' = words_rest [OF r assms(2) e b]
  define sum2 where "sum2 = push_bit 8 (REDUCE s1)"
  have sw: "eqv (uint sum2) (v + val big True (bs @ take j w))" if "eqv (uint s1) (256 * v + u + val big False (take j w))" "j \<le> l" "even j" for j
  proof -
    have "eqv (uint s1) (256 * v + val big False (bs @ take j w))" using that(1) assms(9) [OF that(2,3)] by (simp add: add.assoc)
    then have "eqv (uint sum2) (256 * (256 * v + val big False (bs @ take j w)))" unfolding sum2_def by (rule shift_eqv(1))
    moreover have "eqv (256 * (256 * v + val big False (bs @ take j w))) (v + val big True (bs @ take j w))"
      using eqv_add2 [OF eqv_65536 [OF assms(4)] swap_bytes [of big False "bs @ take j w"]] by (simp add: algebra_simps)
    ultimately show ?thesis by (rule eqv_trans)
  qed
  have c0: "0 \<le> uint (ck_c0 s) * weight big False" using weight_pos [of big False] by (simp add: order_less_imp_le)
  have small: "uint sum2 \<le> 16776960" unfolding sum2_def by (rule shift_eqv(2))
  show ?thesis
  proof (cases "even l")
    case True
    then have run: "cksum_rest big True w s = s\<lparr>ck_sum := sum2, ck_mlen := - 1\<rparr>"
      using r r'(1) [OF True] assms(1) by (simp add: cksum_rest_def sum2_def)
    have "eqv (uint sum2 + uint (ck_c0 s) * weight big False) (v + val big True (bs @ take l w) + uint (ck_c0 s) * weight big False)"
      using eqv_add [OF sw c0, of l] r'(1) [OF True] True by simp
    then show ?thesis using True small assms(6) by (simp add: run ck_ok_def ac_simps)
  next
    case odd: False
    then have l: "0 < l" by (cases l) auto
    define x where "x = w ! (l - 1)"
    have run: "cksum_rest big True w s = s\<lparr>ck_sum := sum2 + word16 big (ck_c0 s) x, ck_mlen := 0\<rparr>"
      using r r'(2) [OF odd] assms(1) by (simp add: cksum_rest_def sum2_def x_def Let_def)
    have add: "uint (sum2 + word16 big (ck_c0 s) x) = uint sum2 + (uint (ck_c0 s) * weight big False + uint x * weight big True)"
      "uint (sum2 + word16 big (ck_c0 s) x) \<le> uint sum2 + 65535" by (rule uint_add_word; use small in simp)+
    have x: "0 \<le> uint (ck_c0 s) * weight big False + uint x * weight big True"
      using weight_pos [of big False] weight_pos [of big True] by (simp add: order_less_imp_le)
    have "even (l - 1)" using odd by simp
    then have "eqv (uint sum2) (v + val big True (bs @ take (l - 1) w))" using sw [of "l - 1"] r'(2) [OF odd] by simp
    from eqv_add [OF this x]
    have "eqv (uint (sum2 + word16 big (ck_c0 s) x)) (v + val big True (bs @ take (l - 1) w) + (uint (ck_c0 s) * weight big False + uint x * weight big True))"
      unfolding add(1) .
    moreover have "val big True (bs @ take l w) = val big True (bs @ take (l - 1) w) + uint x * weight big True"
      using val_last [OF l assms(2), of big True] odd assms(10) by (simp add: val_append x_def)
    moreover have "1 \<le> int l" using l by simp
    ultimately show ?thesis using odd small add(2) assms(6) by (simp add: run ck_ok_def ac_simps)
  qed
qed

text \<open>The words of one mbuf, after an even number of bytes.\<close>

lemma cksum_words:
  assumes "cksum_even o2 w s = (swapped, w2, s3)" "cksum_blocks big w2 s3 = (w3, s4)"
    "ck_mlen s = int l" "l \<le> length w" "eqv (uint (ck_sum s)) v" "even k" "2 * uint (ck_sum s) \<le> 33553920 + 65535 * int k" "k + l \<le> 65535"
  shows "ck_ok big (v + val big False (take l w)) (k + l) (cksum_rest big swapped w3 s4) \<and> ck_len (cksum_rest big swapped w3 s4) = ck_len s"
proof (cases "o2 \<and> l > 0")
  case False
  then have s3: "swapped = False" "w2 = w" "s3 = s" using assms(1,3) by (auto simp: cksum_even_def split: if_splits)
  have b: "2 * uint (ck_sum s) + 65535 * int l < 2 ^ 33" using assms(7,8) by simp
  obtain j sm where j: "j \<le> l" "even j" "w3 = drop j w" "s4 = s\<lparr>ck_mlen := int (l - j), ck_sum := sm\<rparr>"
    "eqv (uint sm) (v + val big False (take j w))" "2 * uint sm \<le> 2 * uint (ck_sum s) + 65535 * int j"
    using cksum_blocks_spec [OF assms(2)] assms(3-5) b unfolding s3 by blast
  have "ck_ok big (v + val big False (take j w) + val big False (take (l - j) w3)) (k + j + (l - j)) (cksum_rest big False w3 s4) \<and>
      ck_len (cksum_rest big False w3 s4) = ck_len s4"
    by (rule cksum_rest_plain) (use j assms(4,6,7,8) in simp_all)
  moreover have "take l w = take j w @ take (l - j) w3" using j(1,3) by (metis le_add_diff_inverse take_add)
  moreover have "length (take j w) = j" using j(1) assms(4) by simp
  ultimately show ?thesis using j(1,2,4) by (simp add: s3 val_append add.assoc)
next
  case True
  define ys where "ys = drop 1 w"
  define l1 where "l1 = l - 1"
  have l: "l = Suc l1" "l1 \<le> length ys" using True assms(4) by (simp_all add: l1_def ys_def)
  have s3: "swapped" "w2 = ys" "s3 = s\<lparr>ck_sum := push_bit 8 (REDUCE (ck_sum s)), ck_c0 := w ! 0, ck_mlen := int l1\<rparr>"
    using assms(1,3) True l by (auto simp: cksum_even_def ys_def)
  have e: "eqv (uint (ck_sum s3)) (256 * v)" "uint (ck_sum s3) \<le> 16776960" using shift_eqv assms(5) by (simp_all add: s3)
  have "2 * uint (ck_sum s3) + 65535 * int l1 < 2 ^ 33" using e(2) assms(8) l by simp
  from cksum_blocks_spec [OF assms(2) _ _ e(1) this] l(2) s3
  obtain j sm where j: "j \<le> l1" "even j" "w3 = drop j ys" "s4 = s3\<lparr>ck_mlen := int (l1 - j), ck_sum := sm\<rparr>"
    "eqv (uint sm) (256 * v + val big False (take j ys))" "2 * uint sm \<le> 2 * uint (ck_sum s3) + 65535 * int j" by auto
  have lj: "length (take j ys) = j" using j(1) l(2) by simp
  have v: "0 \<le> v" using assms(5) by (simp add: eqv_def)
  have "ck_ok big (v + uint (ck_c0 s4) * weight big False + val big True (take j ys @ take (l1 - j) w3)) (k + j + 1 + (l1 - j)) (cksum_rest big True w3 s4) \<and>
      ck_len (cksum_rest big True w3 s4) = ck_len s4"
  proof (rule cksum_rest_swapped [where u = "val big False (take j ys)"])
    show "2 * uint (ck_sum s4) + 65535 * int (l1 - j) < 2 ^ 33" using e(2) j(1,4,6) assms(8) l by simp
    show "val big False (take j ys) + val big False (take i w3) = val big False (take j ys @ take i w3)" for i
      using j(2) lj by (simp add: val_append)
  qed (use j l v lj assms(6,8) in \<open>auto simp: val_nonneg\<close>)
  moreover have "take j ys @ take (l1 - j) w3 = take l1 ys" using j(1,3) by (metis le_add_diff_inverse take_add)
  moreover have "take l w = w ! 0 # take l1 ys" using l(1) assms(4) by (cases w) (simp_all add: ys_def)
  ultimately show ?thesis using j(1,4) l(1) s3 by (simp add: add.assoc)
qed

lemma cksum_mbuf_spec:
  assumes "ck_ok big v k s" "v = val big False bs" "k = length bs" "0 < ck_len s" "w \<noteq> []" "k + min (length w) (nat (ck_len s)) \<le> 65535"
  defines "c \<equiv> min (length w) (nat (ck_len s))"
  shows "ck_ok big (val big False (bs @ take c w)) (k + c) (cksum_mbuf big o2 w (length w) s) \<and>
    ck_len (cksum_mbuf big o2 w (length w) s) = ck_len s - int c"
proof -
  obtain w1 s1 where sp: "cksum_span big w (length w) s = (w1, s1)" by fastforce
  define mlen where "mlen = (if ck_len s1 < ck_mlen s1 then ck_len s1 else ck_mlen s1)"
  define s2 where "s2 = s1\<lparr>ck_mlen := mlen, ck_len := ck_len s1 - mlen\<rparr>"
  obtain sw w2 s3 where ev: "cksum_even (if ck_mlen s = - 1 then \<not> o2 else o2) w1 s2 = (sw, w2, s3)" by (metis prod_cases3)
  obtain w3 s4 where bl: "cksum_blocks big w2 s3 = (w3, s4)" by fastforce
  have run: "cksum_mbuf big o2 w (length w) s = cksum_rest big sw w3 s4"
    using sp ev bl by (simp add: cksum_mbuf_def Let_def flip: mlen_def s2_def)
  show ?thesis
  proof (cases "ck_mlen s = - 1")
    case True
    define s1v where "s1v = val big False (bs @ [w ! 0])"
    have w: "w = w ! 0 # w1" "length w = Suc (length w1)" using assms(5) sp True by (cases w; auto simp: cksum_span_def)+
    have s1: "s1 = s\<lparr>ck_sum := ck_sum s + word16 big (ck_c0 s) (w ! 0), ck_mlen := int (length w1), ck_len := ck_len s - 1\<rparr>"
      using sp True w(2) by (simp add: cksum_span_def)
    have ok: "odd k" "eqv (uint (ck_sum s) + uint (ck_c0 s) * weight big False) v" "2 * uint (ck_sum s) \<le> 33553920 + 65535 * (int k - 1)"
      using assms(1) True by (simp_all add: ck_ok_def)
    have "uint (ck_sum s) + 65535 < 2 ^ 32" using ok(3) assms(6) by simp
    from uint_add_word [OF this, of big "ck_c0 s" "w ! 0"]
    have add: "uint (ck_sum s1) = uint (ck_sum s) + uint (ck_c0 s) * weight big False + uint (w ! 0) * weight big True"
      "uint (ck_sum s1) \<le> uint (ck_sum s) + 65535" by (simp_all add: s1)
    have "0 \<le> uint (w ! 0) * weight big True" using weight_pos [of big True] by (simp add: order_less_imp_le)
    from eqv_add [OF ok(2) this] have e: "eqv (uint (ck_sum s1)) s1v"
      using ok(1) assms(2,3) by (simp add: add(1) s1v_def val_append)
    define l where "l = min (length w1) (nat (ck_len s - 1))"
    have mlen: "mlen = int l" using assms(4) by (auto simp: mlen_def s1 l_def)
    have c: "c = Suc l" using assms(4) w(2) by (auto simp: c_def l_def)
    have kc: "Suc k + l \<le> 65535" using assms(6) c unfolding c_def by simp
    have "ck_ok big (s1v + val big False (take l w1)) (Suc k + l) (cksum_rest big sw w3 s4) \<and> ck_len (cksum_rest big sw w3 s4) = ck_len s2"
      by (rule cksum_words [OF ev bl]) (use e ok add(2) kc mlen in \<open>simp_all add: s2_def l_def\<close>)
    moreover have "take c w = w ! 0 # take l w1" using w(1) c by (metis take_Suc_Cons)
    then have "val big False (bs @ take c w) = s1v + val big False (take l w1)" using ok(1) assms(3) by (simp add: s1v_def val_append)
    ultimately show ?thesis using c mlen by (simp add: run s2_def s1)
  next
    case False
    have s1: "w1 = w" "s1 = s\<lparr>ck_mlen := int (length w)\<rparr>" using sp False by (auto simp: cksum_span_def)
    have ok: "even k" "eqv (uint (ck_sum s)) v" "2 * uint (ck_sum s) \<le> 33553920 + 65535 * int k" using assms(1) False by (simp_all add: ck_ok_def)
    have mlen: "mlen = int c" using assms(4) by (auto simp: mlen_def s1 c_def)
    have "ck_ok big (v + val big False (take c w1)) (k + c) (cksum_rest big sw w3 s4) \<and> ck_len (cksum_rest big sw w3 s4) = ck_len s2"
      by (rule cksum_words [OF ev bl]) (use ok assms(6) mlen in \<open>simp_all add: s2_def s1 c_def\<close>)
    moreover have "val big False (bs @ take c w) = v + val big False (take c w1)" using ok(1) assms(2,3) by (simp add: val_append s1)
    ultimately show ?thesis using mlen by (simp add: run s2_def s1)
  qed
qed

subsection \<open>The chain\<close>

lemma cksum_loop_spec:
  assumes "\<forall>m\<in>set ms. wf_mbuf st m" "ck_ok big (val big False bs) (length bs) s" "0 \<le> ck_len s" "int (length bs) + ck_len s \<le> 65535"
  shows "ck_ok big (val big False (bs @ take (nat (ck_len s)) (cbytes st ms))) (length (bs @ take (nat (ck_len s)) (cbytes st ms)))
      (cksum_loop big odd_at st ms s) \<and>
    ck_len (cksum_loop big odd_at st ms s) = ck_len s - int (length (take (nat (ck_len s)) (cbytes st ms)))"
  using assms
proof (induction ms arbitrary: bs s)
  case (Cons m ms)
  have len: "length (mbytes st m) = m_len m" using Cons.prems(1) by (simp add: length_mbytes)
  show ?case
  proof (cases "ck_len s = 0 \<or> m_len m = 0")
    case True
    then show ?thesis
    proof (cases "ck_len s = 0")
      case False
      then have "mbytes st m = []" using True len by auto
      then show ?thesis using Cons.IH [OF _ Cons.prems(2-4)] Cons.prems(1) True False by simp
    qed (use Cons.prems(2) in simp)
  next
    case False
    define w where "w = mbytes st m"
    define s1 where "s1 = cksum_mbuf big (odd_at m) w (length w) s"
    define c where "c = min (length w) (nat (ck_len s))"
    have w: "w \<noteq> []" "0 < ck_len s" using False len Cons.prems(3) by (auto simp: w_def)
    have c65: "length bs + min (length w) (nat (ck_len s)) \<le> 65535" using Cons.prems(3,4) by linarith
    note one = cksum_mbuf_spec [OF Cons.prems(2) refl refl w(2,1) c65, of "odd_at m", folded s1_def c_def]
    have lc: "length (take c w) = c" by (simp add: c_def)
    have s1: "ck_len s1 = ck_len s - int c" "0 \<le> ck_len s1" using one w(2) by (auto simp: c_def)
    have ok1: "ck_ok big (val big False (bs @ take c w)) (length (bs @ take c w)) s1" using one lc by simp
    have le1: "int (length (bs @ take c w)) + ck_len s1 \<le> 65535" using Cons.prems(4) s1(1) lc by simp
    have "take (nat (ck_len s)) (w @ cbytes st ms) = take c w @ take (nat (ck_len s1)) (cbytes st ms)"
      using s1(1) w(2) by (cases "length w \<le> nat (ck_len s)") (auto simp: c_def min_def nat_diff_distrib)
    then have split: "take (nat (ck_len s)) (cbytes st (m # ms)) = take c w @ take (nat (ck_len s1)) (cbytes st ms)" by (simp add: w_def)
    have run: "cksum_loop big odd_at st (m # ms) s = cksum_loop big odd_at st ms s1" using False len by (simp add: s1_def w_def)
    have wf: "\<forall>m\<in>set ms. wf_mbuf st m" using Cons.prems(1) by simp
    show ?thesis unfolding run split using Cons.IH [OF wf ok1 s1(2) le1] s1(1) lc by simp
  qed
qed simp

subsection \<open>The checksum\<close>

text \<open>The reference: the ones' complement sum of the words, the last byte padded with zero.\<close>

definition ones_add :: "int \<Rightarrow> int \<Rightarrow> int" where
  "ones_add a b = (if a + b > 65535 then a + b - 65535 else a + b)"

definition word_val :: "bool \<Rightarrow> u8 \<Rightarrow> u8 \<Rightarrow> int" where
  "word_val big a b = (if big then 256 * uint a + uint b else uint a + 256 * uint b)"

fun ones_sum :: "bool \<Rightarrow> u8 list \<Rightarrow> int" where
  "ones_sum big [] = 0"
| "ones_sum big [a] = word_val big a 0"
| "ones_sum big (a # b # bs) = ones_add (word_val big a b) (ones_sum big bs)"

lemma word_val_weight: "word_val big a b = uint a * weight big False + uint b * weight big True"
  by (simp add: word_val_def weight_def)

lemma word_val_bounds: "0 \<le> word_val big a b" "word_val big a b \<le> 65535"
  using uint_u8 [of a] uint_u8 [of b] by (simp_all add: word_val_def)

lemma ones_add_eqv:
  assumes "0 \<le> a" "a \<le> 65535" "0 \<le> b" "b \<le> 65535"
  shows "eqv (ones_add a b) (a + b) \<and> ones_add a b \<le> 65535"
proof (cases "a + b > 65535")
  case True
  then have "a + b = ones_add a b + 1 * 65535" by (simp add: ones_add_def)
  then have "(a + b) mod 65535 = ones_add a b mod 65535" by (simp only: mod_mult_self1)
  then show ?thesis using True assms by (simp add: eqv_def ones_add_def)
next
  case False
  then show ?thesis using assms by (simp add: ones_add_def eqv_refl)
qed

lemma ones_sum_eqv: "eqv (ones_sum big bs) (val big False bs) \<and> ones_sum big bs \<le> 65535"
proof (induction big bs rule: ones_sum.induct)
  case (2 big a)
  show ?case using word_val_bounds [of big a 0] by (simp add: word_val_weight eqv_refl)
next
  case (3 big a b bs)
  have "0 \<le> ones_sum big bs" using 3 by (simp add: eqv_def)
  then have "eqv (ones_add (word_val big a b) (ones_sum big bs)) (word_val big a b + ones_sum big bs) \<and>
      ones_add (word_val big a b) (ones_sum big bs) \<le> 65535"
    using 3 by (intro ones_add_eqv word_val_bounds) auto
  moreover have "eqv (word_val big a b + ones_sum big bs) (word_val big a b + val big False bs)"
    using 3 by (intro eqv_add2 eqv_refl word_val_bounds) auto
  ultimately show ?case using eqv_trans by (fastforce simp: word_val_weight add.assoc)
qed (simp add: eqv_def)

lemma ones_sum_reduced: "ones_sum big bs = reduced (val big False bs)"
  using ones_sum_eqv eqv_reduced by blast

lemma uint_not_16:
  assumes "uint x \<le> 65535"
  shows "uint (NOT x AND 0xffff :: u32) = 65535 - uint x"
proof -
  have "(0xffff :: u32) = mask 16" by (simp add: mask_eq_exp_minus_1)
  then have "NOT x AND 0xffff = take_bit 16 (NOT x)" by (simp add: take_bit_eq_mask)
  then have "uint (NOT x AND 0xffff) = uint (NOT x) mod 65536" by (simp add: take_bit_eq_mod uint_mod_distrib)
  also have "uint (NOT x) = 4294967295 - uint x"
  proof -
    have u: "uint (- 1 :: u32) = 4294967295" by (simp add: unsigned_minus_1_eq_mask mask_eq_exp_minus_1)
    then have "uint x \<le> uint (- 1 :: u32)" using assms by linarith
    from iffD1 [OF uint_sub_lem this] show ?thesis unfolding u not_eq_complement by (simp only: minus_diff_commute)
  qed
  also have "(4294967295 - uint x) mod 65536 = (65535 - uint x + 65535 * 65536) mod 65536" by simp
  also have "\<dots> = 65535 - uint x" unfolding mod_mult_self1 using assms uint_nonnegative [of x] by (intro mod_pos_pos_trivial) linarith+
  finally show ?thesis .
qed

lemma in_cksum_eq:
  assumes "\<forall>m\<in>set ms. wf_mbuf st m" "0 \<le> len" "len \<le> 65535"
  shows "uint (fst (in_cksum big odd_at junk st ms len)) = 65535 - ones_sum big (take (nat len) (cbytes st ms)) \<and>
    (snd (in_cksum big odd_at junk st ms len) \<longleftrightarrow> int (length (cbytes st ms)) < len)"
proof -
  define s where "s = cksum_loop big odd_at st ms \<lparr>ck_sum = 0, ck_mlen = 0, ck_len = len, ck_c0 = junk\<rparr>"
  define bs where "bs = take (nat len) (cbytes st ms)"
  have "ck_ok big (val big False []) (length ([] :: u8 list)) \<lparr>ck_sum = 0, ck_mlen = 0, ck_len = len, ck_c0 = junk\<rparr>"
    by (simp add: ck_ok_def eqv_refl)
  from cksum_loop_spec [OF assms(1) this, of odd_at] assms(2,3)
  have s: "ck_ok big (val big False bs) (length bs) s" "ck_len s = len - int (length bs)" by (simp_all add: s_def bs_def)
  define sm where "sm = (if ck_mlen s = - 1 then ck_sum s + word16 big (ck_c0 s) 0 else ck_sum s)"
  have "length bs \<le> nat len" by (simp add: bs_def)
  then have lb: "int (length bs) \<le> 65535" using assms(2,3) by linarith
  have e: "eqv (uint sm) (val big False bs)"
  proof (cases "ck_mlen s = - 1")
    case True
    then have "uint (ck_sum s) + 65535 < 2 ^ 32" using s(1) lb by (simp add: ck_ok_def)
    from uint_add_word(1) [OF this, of big "ck_c0 s" 0] True s(1) show ?thesis by (simp add: sm_def ck_ok_def)
  qed (use s(1) in \<open>simp add: sm_def ck_ok_def\<close>)
  have "uint (REDUCE sm) = reduced (val big False bs)"
    using eqv_reduced [OF eqv_trans [OF uint_REDUCE(2) e] uint_REDUCE(1)] .
  then have r: "uint (NOT (REDUCE sm) AND 0xffff) = 65535 - ones_sum big bs"
    using uint_not_16 [OF uint_REDUCE(1), of sm] ones_sum_reduced by simp
  have "in_cksum big odd_at junk st ms len = (NOT (REDUCE sm) AND 0xffff, ck_len s \<noteq> 0)"
    by (simp add: in_cksum_def s_def sm_def Let_def)
  moreover have "ck_len s \<noteq> 0 \<longleftrightarrow> int (length (cbytes st ms)) < len" using assms(2) by (auto simp: s(2) bs_def)
  ultimately show ?thesis using r by (simp add: bs_def)
qed

lemma reduced_complement: "0 \<le> v \<Longrightarrow> reduced (v + (65535 - reduced v)) = 65535"
proof -
  assume v: "0 \<le> v"
  have e: "reduced v mod 65535 = v mod 65535" "0 \<le> reduced v" "reduced v \<le> 65535"
  proof -
    show "0 \<le> reduced v" "reduced v \<le> 65535" by (auto simp: reduced_def intro: order_trans [OF add_mono [of _ 65534 1 1]])
    show "reduced v mod 65535 = v mod 65535" by (simp add: reduced_def mod_simps)
  qed
  show ?thesis
  proof (cases "v = 0")
    case False
    define k where "k = v + (65535 - reduced v)"
    have "k mod 65535 = 0" unfolding k_def using e(1) by (metis add.commute add_diff_eq diff_self mod_0 mod_add_self2 mod_diff_cong)
    then obtain j where j: "k = 65535 * j" by auto
    have "0 < k" using False v e(3) by (simp add: k_def)
    then have "0 < j" using j by simp
    have "k - 1 = 65534 + (j - 1) * 65535" using j by simp
    then have "(k - 1) mod 65535 = 65534 mod 65535" by (simp only: mod_mult_self1)
    then have "(k - 1) mod 65535 = 65534" by simp
    then have "reduced k = 65535" using \<open>0 < k\<close> by (simp add: reduced_def)
    then show ?thesis unfolding k_def .
  qed (simp add: reduced_def)
qed

text \<open>
  C14: The checksum of the first \<open>len\<close> bytes of a chain is the ones' complement of the ones' complement sum of their 16-bit words, in the byte order of the
  machine and with a zero after an odd last byte. It does not matter how the bytes are spread over mbufs, of odd lengths or at odd
  addresses; and the message that data is missing is printed exactly for a chain that is shorter.
\<close>
theorem in_cksum_correct:
  assumes "\<forall>m\<in>set ms. wf_mbuf st m" "0 \<le> len" "len \<le> 65535"
  shows "in_cksum big odd_at junk st ms len =
    (word_of_int (65535 - ones_sum big (take (nat len) (cbytes st ms))), int (length (cbytes st ms)) < len)"
proof -
  have "fst (in_cksum big odd_at junk st ms len) = word_of_int (uint (fst (in_cksum big odd_at junk st ms len)))" by simp
  then show ?thesis using in_cksum_eq [OF assms, of big odd_at junk] by (simp add: prod_eq_iff del: word_of_int_uint)
qed

text \<open>
  C37: A message verifies: when its checksum field, a word at an even offset, holds the checksum of the message with zeros there, the checksum of
  the whole is 0, however sender and receiver lay out the message in mbufs.
\<close>
theorem cksum_verifies:
  assumes "\<forall>m\<in>set ms. wf_mbuf st m" "\<forall>m\<in>set ms'. wf_mbuf st' m" "even (length pre)"
    "cbytes st ms = pre @ [0, 0] @ post" "cbytes st' ms' = pre @ [a, b] @ post" "length pre + 2 + length post \<le> 65535"
    "word16 big a b = fst (in_cksum big odd_at junk st ms (int (length (cbytes st ms))))"
  shows "in_cksum big odd_at' junk' st' ms' (int (length (cbytes st' ms'))) = (0, False)"
proof -
  define v where "v = val big False (cbytes st ms)"
  have len: "int (length (cbytes st ms)) \<le> 65535" "int (length (cbytes st' ms')) \<le> 65535" using assms(4-6) by simp_all
  have "uint (word16 big a b) = 65535 - reduced v"
    using in_cksum_eq [OF assms(1) _ len(1), of big odd_at junk] by (simp add: assms(7) v_def ones_sum_reduced)
  moreover have "val big False (cbytes st' ms') = v + uint (word16 big a b)"
    using assms(3) by (simp add: v_def assms(4,5) val_append uint_word16(1))
  ultimately have "reduced (val big False (cbytes st' ms')) = 65535" using reduced_complement [of v] val_nonneg by (simp add: v_def)
  then show ?thesis using in_cksum_correct [OF assms(2) _ len(2), of big odd_at' junk'] by (simp add: ones_sum_reduced)
qed

text \<open>An example: one mbuf with its bytes in a cluster.\<close>

definition sample_state :: "u8 list \<Rightarrow> mstate" where
  "sample_state bs = \<lparr>ms_get = [], ms_bufs = \<lambda>_. bs, ms_refs = \<lambda>_. 1, mclfree = []\<rparr>"

definition sample_mbuf :: "nat \<Rightarrow> mbuf" where
  "sample_mbuf n = \<lparr>m_data = 0, m_len = n, m_type = 1, m_flags = M_EXT, m_pkthdr = \<lparr>rcvif = 0, ph_len = 0\<rparr>, m_ext = 0, m_dat = replicate MLEN 0\<rparr>"

lemma sample:
  assumes "length bs = n"
  shows "\<forall>m\<in>set [sample_mbuf n]. wf_mbuf (sample_state bs) m" "cbytes (sample_state bs) [sample_mbuf n] = bs"
  using assms by (simp_all add: sample_state_def sample_mbuf_def wf_mbuf_def has_flag_def M_EXT_def mbytes_def mbuffer_def)

lemma sample_3: "length [1, 2, 3 :: u8] = 3" and sample_5: "length [a, b, c, d, e :: u8] = 5"
  by simp_all

theorem in_cksum_correct_witness:
  "in_cksum True (\<lambda>_. True) 7 (sample_state [1, 2, 3]) [sample_mbuf 3] 3 = (word_of_int (65535 - ones_sum True [1, 2, 3]), False)"
  using in_cksum_correct [OF sample(1) [OF sample_3], of 3 True "\<lambda>_. True" 7] unfolding sample(2) [OF sample_3] by simp

lemma sample_value: "word16 True 251 253 = fst (in_cksum True odd_at junk (sample_state [1, 2, 0, 0, 3]) [sample_mbuf 5] 5)"
  using in_cksum_eq [OF sample(1) [OF sample_5 [of 1 2 0 0 3]], of 5 True odd_at junk] unfolding sample(2) [OF sample_5]
  by (intro word_uint_eqI) (simp add: uint_word16 weight_def word_val_def ones_add_def)

theorem cksum_verifies_witness:
  "in_cksum True (\<lambda>_. False) 0 (sample_state [1, 2, 251, 253, 3]) [sample_mbuf 5] 5 = (0, False)"
  using cksum_verifies [OF sample(1) [OF sample_5 [of 1 2 0 0 3]] sample(1) [OF sample_5 [of 1 2 251 253 3]],
      where pre = "[1, 2]" and post = "[3]" and a = 251 and b = 253 and big = True and odd_at = "\<lambda>_. True" and junk = 0 and odd_at' = "\<lambda>_. False" and junk' = 0]
    sample_value [of "\<lambda>_. True" 0]
  unfolding sample(2) [OF sample_5] by simp

end
