(* ===== verification/Sem.thy ===== *)
theory Sem
  imports Prelude
begin

text \<open>
  System V semaphores, \<^verbatim>\<open>sys/kern/sysv_sem.c\<close> with \<^verbatim>\<open>sys/sys/sem.h\<close>, \<^verbatim>\<open>sys/sys/ipc.h\<close> and \<open>ipcperm\<close> of
  \<^verbatim>\<open>sys/kern/sysv_ipc.c\<close>. A pointer into one of the pools is an index. The \<open>un_cnt\<close> valid entries of an undo
  structure are the list \<open>un_ent\<close>. A system call ends with \<open>None\<close> when the code would leave its arrays; the
  blocks of the sets lie in the pool of semaphores at all times (\<open>sem_inv\<close> in \<^verbatim>\<open>Sem_Pool.thy\<close>), so that
  accesses to it are plain. A process is its number. \<open>copyin\<close> and \<open>copyout\<close> do not sleep; what is
  readable or writable at the address a caller gives is an argument. An error is \<open>Inl\<close>.

  \<open>sleep\<close> and \<open>tsleep\<close> are where other processes run: a call that sleeps ends with \<open>Sleeps\<close> and its place, and
  \<open>sem_resume\<close> is what it does then. \<open>ss_wakeups\<close> logs the \<open>wakeup\<close> calls, newest first.
\<close>

subsection \<open>The structures\<close>

record sem =
  semval :: u16
  sempid :: int
  semncnt :: u16
  semzcnt :: u16

record ipc_perm =
  ipc_cuid :: u16
  ipc_cgid :: u16
  ipc_uid :: u16
  ipc_gid :: u16
  ipc_mode :: u16
  ipc_seq :: u16
  ipc_key :: int

record semid_ds =
  sem_perm :: ipc_perm
  sem_base :: nat
  sem_nsems :: u16
  sem_otime :: int
  sem_ctime :: int

record sembuf =
  sem_num :: u16
  sem_op :: u16
  sem_flg :: u16

record undo =
  un_adjval :: u16
  un_num :: u16
  un_id :: nat

record sem_undo =
  un_proc :: "int option"
  un_ent :: "undo list"

record seminfo =
  semmni :: int
  semmns :: int
  semmnu :: int
  semmsl :: int

record ucred =
  cr_uid :: u32
  cr_gid :: u32
  cr_groups :: "u32 list"

text \<open>What a process sleeps on: the lock of the facility, or the set with an index.\<close>

datatype sem_chan = SemLock | SemSet nat

record sem_state =
  ss_info :: seminfo
  ss_sema :: "semid_ds list"
  ss_sem :: "sem list"
  ss_semtot :: int
  ss_semu :: "sem_undo list"
  ss_semu_list :: "nat list"
  ss_holder :: "int option"
  ss_time :: int
  ss_wakeups :: "sem_chan list"

definition MAX_SOPS :: int where "MAX_SOPS = 5"
definition SEMUME :: nat where "SEMUME = 10"
definition SEM_ALLOC :: u16 where "SEM_ALLOC = 512"
definition SEM_UNDO :: u16 where "SEM_UNDO = 4096"
definition IPC_R :: u16 where "IPC_R = 256"
definition IPC_W :: u16 where "IPC_W = 128"
definition IPC_M :: u16 where "IPC_M = 4096"
definition IPC_CREAT :: u16 where "IPC_CREAT = 512"
definition IPC_EXCL :: u16 where "IPC_EXCL = 1024"
definition IPC_NOWAIT :: u16 where "IPC_NOWAIT = 2048"
definition IPC_PRIVATE :: int where "IPC_PRIVATE = 0"

definition IPCID_TO_IX :: "u32 \<Rightarrow> nat" where "IPCID_TO_IX semid = unat (semid AND 0xffff)"
definition IPCID_TO_SEQ :: "u32 \<Rightarrow> u16" where "IPCID_TO_SEQ semid = ucast (drop_bit 16 semid AND 0xffff)"

definition IXSEQ_TO_IPCID :: "nat \<Rightarrow> ipc_perm \<Rightarrow> u32" where
  "IXSEQ_TO_IPCID ix pm = push_bit 16 (ucast (ipc_seq pm)) OR (of_nat ix AND 0xffff)"

definition has :: "u16 \<Rightarrow> u16 \<Rightarrow> bool" where "has w f \<longleftrightarrow> w AND f \<noteq> 0"

definition allocated :: "semid_ds \<Rightarrow> bool" where "allocated d \<longleftrightarrow> has (ipc_mode (sem_perm d)) SEM_ALLOC"

subsection \<open>System calls and where they sleep\<close>

datatype semctl_cmd =
    IPC_RMID
  | IPC_SET "(u16 \<times> u16 \<times> u16) option"
  | IPC_STAT bool
  | GETNCNT | GETPID | GETVAL
  | GETALL "nat option"
  | GETZCNT
  | SETVAL "int option"
  | SETALL "u16 list option"
  | BAD_CMD

datatype sem_call =
    SemConfig int
  | SemGet ucred int int u16
  | SemCtl ucred u32 int semctl_cmd
  | SemOp ucred u32 u32 "sembuf list"

datatype sem_wait =
    InSemlock sem_call
  | InSemop u32 "sembuf list" nat nat bool
  | InSemexit

datatype sem_value = SemInt int | SemDs semid_ds | SemVals "u16 list"

type_synonym sem_outcome = "(sem_state, sem_wait, errno + sem_value) kout option"

abbreviation sem_fail :: "errno \<Rightarrow> sem_state \<Rightarrow> sem_outcome" where "sem_fail e s \<equiv> Some (Ret s (Inl e))"
abbreviation sem_ok :: "int \<Rightarrow> sem_state \<Rightarrow> sem_outcome" where "sem_ok n s \<equiv> Some (Ret s (Inr (SemInt n)))"

definition sem_wakeup :: "sem_chan \<Rightarrow> sem_state \<Rightarrow> sem_state" where "sem_wakeup c s = s\<lparr>ss_wakeups := c # ss_wakeups s\<rparr>"

definition upd_sem :: "nat \<Rightarrow> (sem \<Rightarrow> sem) \<Rightarrow> sem list \<Rightarrow> sem list" where "upd_sem k f pool = pool[k := f (pool ! k)]"

definition upd_ds :: "nat \<Rightarrow> (semid_ds \<Rightarrow> semid_ds) \<Rightarrow> sem_state \<Rightarrow> sem_state" where
  "upd_ds ix f s = s\<lparr>ss_sema := (ss_sema s)[ix := f (ss_sema s ! ix)]\<rparr>"

definition set_perm :: "(ipc_perm \<Rightarrow> ipc_perm) \<Rightarrow> semid_ds \<Rightarrow> semid_ds" where "set_perm f d = d\<lparr>sem_perm := f (sem_perm d)\<rparr>"

subsection \<open>Permissions\<close>

definition groupmember :: "u32 \<Rightarrow> ucred \<Rightarrow> bool" where "groupmember gid cred \<longleftrightarrow> gid \<in> set (cr_groups cred)"

definition perm_mask :: "u16 \<Rightarrow> u16 \<Rightarrow> u16 \<Rightarrow> u16" where
  "perm_mask mode r w = (if has mode IPC_R then r else 0) OR (if has mode IPC_W then w else 0)"

definition perm_check :: "ipc_perm \<Rightarrow> u16 \<Rightarrow> errno option" where
  "perm_check pm need = (if ipc_mode pm AND need = need then None else Some EACCES)"

definition ipcperm :: "ucred \<Rightarrow> ipc_perm \<Rightarrow> u16 \<Rightarrow> errno option" where
  "ipcperm cred pm mode =
     (let owner = cr_uid cred = ucast (ipc_uid pm) \<or> cr_uid cred = ucast (ipc_cuid pm);
          group = cr_gid cred = ucast (ipc_gid pm) \<or> groupmember (ucast (ipc_gid pm)) cred \<or>
                  cr_gid cred = ucast (ipc_cgid pm) \<or> groupmember (ucast (ipc_cgid pm)) cred
      in if cr_uid cred = 0 then None
         else if mode = IPC_M then (if owner then None else Some EPERM)
         else if owner then perm_check pm (perm_mask mode 256 128)
         else if group then perm_check pm (perm_mask mode 32 16)
         else perm_check pm (perm_mask mode 4 2))"

subsection \<open>The lock of the facility\<close>

text \<open>The pools as \<^verbatim>\<open>machdep.c\<close> allocates them, and what \<open>seminit\<close> makes of them.\<close>

definition seminit :: "sem_state \<Rightarrow> sem_state" where
  "seminit s =
     s\<lparr>ss_sema := map (\<lambda>d. d\<lparr>sem_base := 0, sem_perm := (sem_perm d)\<lparr>ipc_mode := 0\<rparr>\<rparr>) (ss_sema s),
       ss_semu := map (\<lambda>u. u\<lparr>un_proc := None\<rparr>) (ss_semu s), ss_semu_list := []\<rparr>"

definition semlock_waits :: "int \<Rightarrow> sem_state \<Rightarrow> bool" where
  "semlock_waits p s \<longleftrightarrow> (case ss_holder s of None \<Rightarrow> False | Some q \<Rightarrow> q \<noteq> p)"

text \<open>\<open>semlock(p)\<close>, and the rest of the call behind it.\<close>

definition semlock :: "int \<Rightarrow> sem_call \<Rightarrow> (sem_state \<Rightarrow> sem_outcome) \<Rightarrow> sem_state \<Rightarrow> sem_outcome" where
  "semlock p c body s = (if semlock_waits p s then Some (Sleeps s (InSemlock c)) else body s)"

definition sys_semconfig :: "int \<Rightarrow> int \<Rightarrow> sem_state \<Rightarrow> sem_outcome" where
  "sys_semconfig p flag =
     semlock p (SemConfig flag) (\<lambda>s.
       if flag = 0 then sem_ok 0 (s\<lparr>ss_holder := Some p\<rparr>)
       else if flag = 1 then sem_ok 0 (sem_wakeup SemLock (s\<lparr>ss_holder := None\<rparr>))
       else sem_fail EINVAL s)"

subsection \<open>Undo structures\<close>

definition upd_undo :: "nat \<Rightarrow> (sem_undo \<Rightarrow> sem_undo) \<Rightarrow> sem_state \<Rightarrow> sem_state" where
  "upd_undo i f s = s\<lparr>ss_semu := (ss_semu s)[i := f (ss_semu s ! i)]\<rparr>"

fun find_free :: "nat \<Rightarrow> sem_undo list \<Rightarrow> nat option" where
  "find_free i [] = None"
| "find_free i (u # us) = (if un_proc u = None then Some i else find_free (i + 1) us)"

definition semu_take :: "int \<Rightarrow> nat \<Rightarrow> sem_state \<Rightarrow> sem_state" where
  "semu_take p i s = upd_undo i (\<lambda>u. u\<lparr>un_ent := [], un_proc := Some p\<rparr>) (s\<lparr>ss_semu_list := i # ss_semu_list s\<rparr>)"

text \<open>The purge of the empty structures, and whether it found one.\<close>

fun purge_list :: "nat list \<Rightarrow> sem_undo list \<Rightarrow> nat list \<times> sem_undo list \<times> bool" where
  "purge_list [] us = ([], us, False)"
| "purge_list (i # is) us =
     (if un_ent (us ! i) = [] then
        (case purge_list is (us[i := (us ! i)\<lparr>un_proc := None\<rparr>]) of (is', us', did) \<Rightarrow> (is', us', True))
      else (case purge_list is us of (is', us', did) \<Rightarrow> (i # is', us', did)))"

definition semu_alloc :: "int \<Rightarrow> sem_state \<Rightarrow> (sem_state, unit, nat option) kout" where
  "semu_alloc p s =
     (case find_free 0 (ss_semu s) of
        Some i \<Rightarrow> Ret (semu_take p i s) (Some i)
      | None \<Rightarrow>
          (case purge_list (ss_semu_list s) (ss_semu s) of (is, us, did) \<Rightarrow>
             let s1 = s\<lparr>ss_semu_list := is, ss_semu := us\<rparr>
             in if \<not> did then Ret s1 None
                else (case find_free 0 us of Some i \<Rightarrow> Ret (semu_take p i s1) (Some i) | None \<Rightarrow> Panics)))"

fun find_undo :: "int \<Rightarrow> nat list \<Rightarrow> sem_undo list \<Rightarrow> nat option" where
  "find_undo p [] us = None"
| "find_undo p (i # is) us = (if un_proc (us ! i) = Some p then Some i else find_undo p is us)"

definition remove_ent :: "nat \<Rightarrow> undo list \<Rightarrow> undo list" where "remove_ent i es = butlast (es[i := last es])"

text \<open>The loop over the entries; \<open>None\<close> when there is none for the semaphore.\<close>

fun find_ent :: "nat \<Rightarrow> int \<Rightarrow> nat \<Rightarrow> undo list \<Rightarrow> nat option" where
  "find_ent semid semnum i [] = None"
| "find_ent semid semnum i (e # es) =
     (if un_id e \<noteq> semid \<or> sint (un_num e) \<noteq> semnum then find_ent semid semnum (i + 1) es else Some i)"

definition adjust_ents :: "nat \<Rightarrow> int \<Rightarrow> int \<Rightarrow> undo list \<Rightarrow> errno option \<times> undo list" where
  "adjust_ents semid semnum adjval es =
     (case find_ent semid semnum 0 es of
        Some i \<Rightarrow>
          let v = (if adjval = 0 then 0 else un_adjval (es ! i) + of_int adjval);
              es1 = es[i := (es ! i)\<lparr>un_adjval := v\<rparr>]
          in (None, if v = 0 then remove_ent i es1 else es1)
      | None \<Rightarrow>
          if adjval = 0 then (None, es)
          else if length es = SEMUME then (Some EINVAL, es)
          else (None, es @ [\<lparr>un_adjval = of_int adjval, un_num = of_int semnum, un_id = semid\<rparr>]))"

definition adjust_at ::
  "nat \<Rightarrow> nat \<Rightarrow> int \<Rightarrow> int \<Rightarrow> sem_state \<Rightarrow> (sem_state, unit, errno option \<times> nat option) kout" where
  "adjust_at i semid semnum adjval s =
     (case adjust_ents semid semnum adjval (un_ent (ss_semu s ! i)) of (e, es) \<Rightarrow>
        Ret (upd_undo i (\<lambda>u. u\<lparr>un_ent := es\<rparr>) s) (e, Some i))"

text \<open>The result is the error, and \<open>*supptr\<close>.\<close>

definition semundo_adjust ::
  "int \<Rightarrow> nat option \<Rightarrow> nat \<Rightarrow> int \<Rightarrow> int \<Rightarrow> sem_state \<Rightarrow> (sem_state, unit, errno option \<times> nat option) kout" where
  "semundo_adjust p suptr semid semnum adjval s =
     (case (case suptr of Some i \<Rightarrow> Some i | None \<Rightarrow> find_undo p (ss_semu_list s) (ss_semu s)) of
        Some i \<Rightarrow> adjust_at i semid semnum adjval s
      | None \<Rightarrow>
          if adjval = 0 then Ret s (None, None)
          else
            (case semu_alloc p s of
               Ret s1 None \<Rightarrow> Ret s1 (Some ENOSPC, None)
             | Ret s1 (Some i) \<Rightarrow> adjust_at i semid semnum adjval s1
             | _ \<Rightarrow> Panics))"

text \<open>The loop over the entries of one structure. With a number of its own it ends at the first entry of the set.\<close>

function clear_ents :: "nat \<Rightarrow> int \<Rightarrow> nat \<Rightarrow> undo list \<Rightarrow> undo list" where
  "clear_ents semid semnum i es =
     (if i < length es then
        if un_id (es ! i) = semid then
          let hit = (semnum = - 1 \<or> sint (un_num (es ! i)) = semnum);
              es1 = (if hit then remove_ent i es else es)
          in if semnum \<noteq> - 1 then es1 else clear_ents semid semnum (if hit \<and> i < length es1 then i else i + 1) es1
        else clear_ents semid semnum (i + 1) es
      else es)"
  by pat_completeness auto
termination
  by (relation "measure (\<lambda>(semid, semnum, i, es). length es - i)") (auto simp: remove_ent_def)

declare clear_ents.simps [simp del]

definition semundo_clear :: "nat \<Rightarrow> int \<Rightarrow> sem_state \<Rightarrow> sem_state" where
  "semundo_clear semid semnum s =
     fold (\<lambda>i. upd_undo i (\<lambda>u. u\<lparr>un_ent := clear_ents semid semnum 0 (un_ent u)\<rparr>)) (ss_semu_list s) s"


subsection \<open>semget and semctl\<close>

text \<open>The first set that satisfies a test.\<close>

fun find_ds :: "(semid_ds \<Rightarrow> bool) \<Rightarrow> nat \<Rightarrow> semid_ds list \<Rightarrow> nat option" where
  "find_ds P i [] = None"
| "find_ds P i (d # ds) = (if P d then Some i else find_ds P (i + 1) ds)"

definition sem_new :: "ucred \<Rightarrow> int \<Rightarrow> int \<Rightarrow> u16 \<Rightarrow> nat \<Rightarrow> sem_state \<Rightarrow> sem_state" where
  "sem_new cred key nsems semflg ix s =
     (let s1 = upd_ds ix (\<lambda>d. d\<lparr>sem_perm :=
                 \<lparr>ipc_cuid = ucast (cr_uid cred), ipc_cgid = ucast (cr_gid cred), ipc_uid = ucast (cr_uid cred),
                  ipc_gid = ucast (cr_gid cred), ipc_mode = (semflg AND 511) OR SEM_ALLOC,
                  ipc_seq = (ipc_seq (sem_perm d) + 1) AND 0x7fff, ipc_key = key\<rparr>,
                 sem_nsems := of_int nsems, sem_otime := 0, sem_ctime := ss_time s, sem_base := nat (ss_semtot s)\<rparr>) s
      in s1\<lparr>ss_semtot := ss_semtot s + nsems,
            ss_sem := fold (\<lambda>k. upd_sem k (\<lambda>_. \<lparr>semval = 0, sempid = 0, semncnt = 0, semzcnt = 0\<rparr>))
                        [nat (ss_semtot s)..<nat (ss_semtot s) + nat nsems] (ss_sem s)\<rparr>)"

definition sem_found :: "nat \<Rightarrow> sem_state \<Rightarrow> sem_outcome" where
  "sem_found ix s = sem_ok (sint (IXSEQ_TO_IPCID ix (sem_perm (ss_sema s ! ix)))) s"

definition sem_create :: "ucred \<Rightarrow> int \<Rightarrow> int \<Rightarrow> u16 \<Rightarrow> sem_state \<Rightarrow> sem_outcome" where
  "sem_create cred key nsems semflg s =
     (if key = IPC_PRIVATE \<or> has semflg IPC_CREAT then
        if nsems \<le> 0 \<or> nsems > semmsl (ss_info s) then sem_fail EINVAL s
        else if nsems > semmns (ss_info s) - ss_semtot s then sem_fail ENOSPC s
        else
          (case find_ds (\<lambda>d. \<not> allocated d) 0 (ss_sema s) of
             None \<Rightarrow> sem_fail ENOSPC s
           | Some ix \<Rightarrow> sem_found ix (sem_new cred key nsems semflg ix s))
      else sem_fail ENOENT s)"

definition sys_semget :: "int \<Rightarrow> ucred \<Rightarrow> int \<Rightarrow> int \<Rightarrow> u16 \<Rightarrow> sem_state \<Rightarrow> sem_outcome" where
  "sys_semget p cred key nsems semflg =
     semlock p (SemGet cred key nsems semflg) (\<lambda>s.
       case (if key \<noteq> IPC_PRIVATE then find_ds (\<lambda>d. allocated d \<and> ipc_key (sem_perm d) = key) 0 (ss_sema s) else None) of
         None \<Rightarrow> sem_create cred key nsems semflg s
       | Some ix \<Rightarrow>
           (case ipcperm cred (sem_perm (ss_sema s ! ix)) (semflg AND 448) of
              Some e \<Rightarrow> sem_fail e s
            | None \<Rightarrow>
                if nsems > 0 \<and> uint (sem_nsems (ss_sema s ! ix)) < nsems then sem_fail EINVAL s
                else if has semflg IPC_CREAT \<and> has semflg IPC_EXCL then sem_fail EEXIST s
                else sem_found ix s))"

definition sem_alive :: "u32 \<Rightarrow> nat \<Rightarrow> sem_state \<Rightarrow> bool" where
  "sem_alive semid ix s \<longleftrightarrow> allocated (ss_sema s ! ix) \<and> ipc_seq (sem_perm (ss_sema s ! ix)) = IPCID_TO_SEQ semid"

text \<open>The set an identifier stands for, and the rest of the call. The code compares with the wrong limit.\<close>

definition with_set :: "u32 \<Rightarrow> (nat \<Rightarrow> sem_outcome) \<Rightarrow> sem_state \<Rightarrow> sem_outcome" where
  "with_set semid body s =
     (let ix = IPCID_TO_IX semid
      in if int ix \<ge> semmsl (ss_info s) then sem_fail EINVAL s
         else if ix \<ge> length (ss_sema s) then None
         else if sem_alive semid ix s then body ix
         else sem_fail EINVAL s)"

definition sem_rmid :: "ucred \<Rightarrow> nat \<Rightarrow> sem_state \<Rightarrow> sem_state" where
  "sem_rmid cred ix s =
     (let d = ss_sema s ! ix;
          n = unat (sem_nsems d);
          s1 = upd_ds ix (set_perm (\<lambda>pm. pm\<lparr>ipc_cuid := ucast (cr_uid cred), ipc_uid := ucast (cr_uid cred)\<rparr>)) s;
          s2 = s1\<lparr>ss_semtot := ss_semtot s - int n\<rparr>;
          s3 = s2\<lparr>ss_sem := fold (\<lambda>i pool. upd_sem i (\<lambda>_. pool ! (i + n)) pool) [sem_base d..<nat (ss_semtot s2)] (ss_sem s)\<rparr>;
          s4 = s3\<lparr>ss_sema := map (\<lambda>d'. if allocated d' \<and> sem_base d' > sem_base d
                                        then d'\<lparr>sem_base := sem_base d' - n\<rparr> else d') (ss_sema s3)\<rparr>;
          s5 = upd_ds ix (set_perm (\<lambda>pm. pm\<lparr>ipc_mode := 0\<rparr>)) s4
      in sem_wakeup (SemSet ix) (semundo_clear ix (- 1) s5))"

text \<open>The commands that read one field of a semaphore.\<close>

definition sem_read :: "ucred \<Rightarrow> semid_ds \<Rightarrow> int \<Rightarrow> (sem \<Rightarrow> int) \<Rightarrow> sem_state \<Rightarrow> sem_outcome" where
  "sem_read cred d semnum f s =
     (case ipcperm cred (sem_perm d) IPC_R of
        Some e \<Rightarrow> sem_fail e s
      | None \<Rightarrow> if semnum < 0 \<or> semnum \<ge> uint (sem_nsems d) then sem_fail EINVAL s
                else sem_ok (f (ss_sem s ! (sem_base d + nat semnum))) s)"

text \<open>The values that \<open>SETALL\<close> reads, as far as they are readable.\<close>

fun set_values :: "nat \<Rightarrow> u16 list \<Rightarrow> nat \<Rightarrow> sem list \<Rightarrow> errno option \<times> sem list" where
  "set_values k vs 0 pool = (None, pool)"
| "set_values k [] (Suc n) pool = (Some EFAULT, pool)"
| "set_values k (v # vs) (Suc n) pool = set_values (k + 1) vs n (upd_sem k (\<lambda>x. x\<lparr>semval := v\<rparr>) pool)"

fun semctl_switch :: "ucred \<Rightarrow> nat \<Rightarrow> int \<Rightarrow> semctl_cmd \<Rightarrow> sem_state \<Rightarrow> sem_outcome" where
  "semctl_switch cred ix semnum IPC_RMID s =
     (case ipcperm cred (sem_perm (ss_sema s ! ix)) IPC_M of
        Some e \<Rightarrow> sem_fail e s
      | None \<Rightarrow> sem_ok 0 (sem_rmid cred ix s))"
| "semctl_switch cred ix semnum (IPC_SET arg) s =
     (case ipcperm cred (sem_perm (ss_sema s ! ix)) IPC_M of
        Some e \<Rightarrow> sem_fail e s
      | None \<Rightarrow>
          (case arg of
             None \<Rightarrow> sem_fail EFAULT s
           | Some (uid, gid, mode) \<Rightarrow>
               sem_ok 0 (upd_ds ix (\<lambda>d. (set_perm (\<lambda>pm. pm\<lparr>ipc_uid := uid, ipc_gid := gid,
                 ipc_mode := (ipc_mode pm AND NOT 511) OR (mode AND 511)\<rparr>) d)\<lparr>sem_ctime := ss_time s\<rparr>) s)))"
| "semctl_switch cred ix semnum (IPC_STAT writable) s =
     (case ipcperm cred (sem_perm (ss_sema s ! ix)) IPC_R of
        Some e \<Rightarrow> sem_fail e s
      | None \<Rightarrow> if writable then Some (Ret s (Inr (SemDs (ss_sema s ! ix)))) else sem_fail EFAULT s)"
| "semctl_switch cred ix semnum GETNCNT s = sem_read cred (ss_sema s ! ix) semnum (\<lambda>x. uint (semncnt x)) s"
| "semctl_switch cred ix semnum GETPID s = sem_read cred (ss_sema s ! ix) semnum sempid s"
| "semctl_switch cred ix semnum GETVAL s = sem_read cred (ss_sema s ! ix) semnum (\<lambda>x. uint (semval x)) s"
| "semctl_switch cred ix semnum (GETALL room) s =
     (case ipcperm cred (sem_perm (ss_sema s ! ix)) IPC_R of
        Some e \<Rightarrow> sem_fail e s
      | None \<Rightarrow>
          let d = ss_sema s ! ix; n = unat (sem_nsems d)
          in (case room of
                None \<Rightarrow> sem_fail EFAULT s
              | Some k \<Rightarrow> if k < n then sem_fail EFAULT s
                          else Some (Ret s (Inr (SemVals (map semval (take n (drop (sem_base d) (ss_sem s)))))))))"
| "semctl_switch cred ix semnum GETZCNT s = sem_read cred (ss_sema s ! ix) semnum (\<lambda>x. uint (semzcnt x)) s"
| "semctl_switch cred ix semnum (SETVAL arg) s =
     (case ipcperm cred (sem_perm (ss_sema s ! ix)) IPC_W of
        Some e \<Rightarrow> sem_fail e s
      | None \<Rightarrow>
          if semnum < 0 \<or> semnum \<ge> uint (sem_nsems (ss_sema s ! ix)) then sem_fail EINVAL s
          else
            (case arg of
               None \<Rightarrow> sem_fail EFAULT s
             | Some v \<Rightarrow>
                 let s1 = s\<lparr>ss_sem := upd_sem (sem_base (ss_sema s ! ix) + nat semnum) (\<lambda>x. x\<lparr>semval := of_int v\<rparr>) (ss_sem s)\<rparr>
                 in sem_ok 0 (sem_wakeup (SemSet ix) (semundo_clear ix semnum s1))))"
| "semctl_switch cred ix semnum (SETALL arg) s =
     (case ipcperm cred (sem_perm (ss_sema s ! ix)) IPC_W of
        Some e \<Rightarrow> sem_fail e s
      | None \<Rightarrow>
          (case arg of
             None \<Rightarrow> sem_fail EFAULT s
           | Some vs \<Rightarrow>
               (case set_values (sem_base (ss_sema s ! ix)) vs (unat (sem_nsems (ss_sema s ! ix))) (ss_sem s) of (err, pool) \<Rightarrow>
                  let s2 = sem_wakeup (SemSet ix) (semundo_clear ix (- 1) (s\<lparr>ss_sem := pool\<rparr>))
                  in (case err of Some e \<Rightarrow> sem_fail e s2 | None \<Rightarrow> sem_ok 0 s2))))"
| "semctl_switch cred ix semnum BAD_CMD s = sem_fail EINVAL s"

definition sys___semctl :: "int \<Rightarrow> ucred \<Rightarrow> u32 \<Rightarrow> int \<Rightarrow> semctl_cmd \<Rightarrow> sem_state \<Rightarrow> sem_outcome" where
  "sys___semctl p cred semid semnum cmd =
     semlock p (SemCtl cred semid semnum cmd) (\<lambda>s. with_set semid (\<lambda>ix. semctl_switch cred ix semnum cmd s) s)"


subsection \<open>semop\<close>

text \<open>One pass over the requests: through, stuck at one, or at a number out of range.\<close>

datatype sem_pass = Through "sem list" bool bool | Stuck "sem list" nat bool | OutOfRange "sem list"

definition add_val :: "u16 \<Rightarrow> sem \<Rightarrow> sem" where "add_val v x = x\<lparr>semval := semval x + v\<rparr>"

fun semop_pass :: "nat \<Rightarrow> u16 \<Rightarrow> sembuf list \<Rightarrow> nat \<Rightarrow> bool \<Rightarrow> bool \<Rightarrow> sem list \<Rightarrow> sem_pass" where
  "semop_pass base nsems [] i wk un pool = Through pool wk un"
| "semop_pass base nsems (q # qs) i wk un pool =
     (if sem_num q \<ge> nsems then OutOfRange pool
      else
        let k = base + unat (sem_num q);
            x = pool ! k;
            v = semval x + sem_op q;
            un' = (un \<or> has (sem_flg q) SEM_UNDO)
        in if sint (sem_op q) < 0 then
             if uint (semval x) + sint (sem_op q) < 0 then Stuck pool i un
             else semop_pass base nsems qs (i + 1) (wk \<or> v = 0 \<and> semzcnt x > 0) un' (upd_sem k (add_val (sem_op q)) pool)
           else if sem_op q = 0 then
             if semval x > 0 then Stuck pool i un else semop_pass base nsems qs (i + 1) wk un pool
           else semop_pass base nsems qs (i + 1) (wk \<or> semncnt x > 0) un' (upd_sem k (add_val (sem_op q)) pool))"

text \<open>The loop \<open>semval -= sem_op\<close> over some requests.\<close>

definition roll_back :: "nat \<Rightarrow> sembuf list \<Rightarrow> sem list \<Rightarrow> sem list" where
  "roll_back base qs = fold (\<lambda>q. upd_sem (base + unat (sem_num q)) (add_val (- sem_op q))) qs"

text \<open>The rollback of undo entries, given the requests done in reverse order.\<close>

definition no_undo :: "sembuf \<Rightarrow> bool" where "no_undo q \<longleftrightarrow> \<not> has (sem_flg q) SEM_UNDO \<or> sem_op q = 0"

fun undo_undos ::
  "int \<Rightarrow> nat \<Rightarrow> sembuf list \<Rightarrow> nat option \<Rightarrow> sem_state \<Rightarrow> (sem_state, unit, unit) kout" where
  "undo_undos p ix [] sp s = Ret s ()"
| "undo_undos p ix (q # qs) sp s =
     (if no_undo q then undo_undos p ix qs sp s
      else
        (case semundo_adjust p sp ix (uint (sem_num q)) (sint (sem_op q)) s of
           Ret s1 (None, sp1) \<Rightarrow> undo_undos p ix qs sp1 s1
         | _ \<Rightarrow> Panics))"

text \<open>The undo entries for the requests \<open>qs\<close>; \<open>dn\<close> are those before them, in reverse.\<close>

fun semop_undos ::
  "int \<Rightarrow> nat \<Rightarrow> sembuf list \<Rightarrow> sembuf list \<Rightarrow> nat option \<Rightarrow> sem_state \<Rightarrow> (sem_state, unit, errno option) kout" where
  "semop_undos p ix dn [] sp s = Ret s None"
| "semop_undos p ix dn (q # qs) sp s =
     (if no_undo q then semop_undos p ix (q # dn) qs sp s
      else
        (case semundo_adjust p sp ix (uint (sem_num q)) (- sint (sem_op q)) s of
           Ret s1 (None, sp1) \<Rightarrow> semop_undos p ix (q # dn) qs sp1 s1
         | Ret s1 (Some e, sp1) \<Rightarrow>
             (case undo_undos p ix dn sp1 s1 of Ret s2 _ \<Rightarrow> Ret s2 (Some e) | _ \<Rightarrow> Panics)
         | _ \<Rightarrow> Panics))"

text \<open>The label \<open>done\<close>.\<close>

definition semop_done :: "int \<Rightarrow> nat \<Rightarrow> sembuf list \<Rightarrow> bool \<Rightarrow> bool \<Rightarrow> sem_state \<Rightarrow> sem_outcome" where
  "semop_done p ix sops wk un s =
     (let base = sem_base (ss_sema s ! ix)
      in case (if un then semop_undos p ix [] sops None s else Ret s None) of
           Ret s1 (Some e) \<Rightarrow> sem_fail e (s1\<lparr>ss_sem := roll_back base sops (ss_sem s1)\<rparr>)
         | Ret s1 None \<Rightarrow>
             let s2 = s1\<lparr>ss_sem := fold (\<lambda>q. upd_sem (base + unat (sem_num q)) (\<lambda>x. x\<lparr>sempid := p\<rparr>)) sops (ss_sem s1)\<rparr>
             in sem_ok 0 (if wk then sem_wakeup (SemSet ix) s2 else s2)
         | _ \<Rightarrow> Some Panics)"

definition wait_count :: "(u16 \<Rightarrow> u16) \<Rightarrow> sembuf \<Rightarrow> sem \<Rightarrow> sem" where
  "wait_count f q x = (if sem_op q = 0 then x\<lparr>semzcnt := f (semzcnt x)\<rparr> else x\<lparr>semncnt := f (semncnt x)\<rparr>)"

text \<open>One turn of the loop \<open>for (;;)\<close>, up to its \<open>tsleep\<close>.\<close>

definition semop_turn :: "int \<Rightarrow> u32 \<Rightarrow> sembuf list \<Rightarrow> bool \<Rightarrow> sem_state \<Rightarrow> sem_outcome" where
  "semop_turn p semid sops un0 s =
     (let ix = IPCID_TO_IX semid;
          d = ss_sema s ! ix
      in case semop_pass (sem_base d) (sem_nsems d) sops 0 False un0 (ss_sem s) of
           OutOfRange pool \<Rightarrow> sem_fail EFBIG (s\<lparr>ss_sem := pool\<rparr>)
         | Through pool wk un \<Rightarrow> semop_done p ix sops wk un (s\<lparr>ss_sem := pool\<rparr>)
         | Stuck pool i un \<Rightarrow>
             let pool1 = roll_back (sem_base d) (take i sops) pool;
                 k = sem_base d + unat (sem_num (sops ! i))
             in if has (sem_flg (sops ! i)) IPC_NOWAIT then sem_fail EAGAIN (s\<lparr>ss_sem := pool1\<rparr>)
                else Some (Sleeps (s\<lparr>ss_sem := upd_sem k (wait_count (\<lambda>n. n + 1) (sops ! i)) pool1\<rparr>) (InSemop semid sops k i un)))"

text \<open>
  The size of the copy, an unsigned product, and what it delivers; \<open>user\<close> are the requests that are readable. A copy that
  goes beyond the five requests on the stack leaves the model, also when it ends in a fault; \<open>user\<close> has whole requests only.
\<close>

definition sops_size :: "u32 \<Rightarrow> nat" where "sops_size nsops = unat (nsops * 6)"

definition sys_semop :: "int \<Rightarrow> ucred \<Rightarrow> u32 \<Rightarrow> u32 \<Rightarrow> sembuf list \<Rightarrow> sem_state \<Rightarrow> sem_outcome" where
  "sys_semop p cred semid nsops user =
     semlock p (SemOp cred semid nsops user) (\<lambda>s. with_set semid (\<lambda>ix.
       case ipcperm cred (sem_perm (ss_sema s ! ix)) IPC_W of
         Some e \<Rightarrow> sem_fail e s
       | None \<Rightarrow>
           if sint nsops > MAX_SOPS then sem_fail E2BIG s
           else if sops_size nsops > nat (6 * MAX_SOPS) \<and> length user > nat MAX_SOPS then None
           else if sops_size nsops > 6 * length user then sem_fail EFAULT s
           else semop_turn p semid (take (nat (sint nsops)) user) False s) s)"

text \<open>\<open>tsleep\<close> returned; \<open>k\<close> is the index that \<open>semptr\<close> was before.\<close>

definition semop_resume ::
  "int \<Rightarrow> u32 \<Rightarrow> sembuf list \<Rightarrow> nat \<Rightarrow> nat \<Rightarrow> bool \<Rightarrow> errno option \<Rightarrow> sem_state \<Rightarrow> sem_outcome" where
  "semop_resume p semid sops k i un err s =
     (if err \<noteq> None then sem_fail EINTR s
      else if \<not> sem_alive semid (IPCID_TO_IX semid) s then sem_fail EINVAL s
      else semop_turn p semid sops un (s\<lparr>ss_sem := upd_sem k (wait_count (\<lambda>n. n - 1) (sops ! i)) (ss_sem s)\<rparr>))"

subsection \<open>The exit of a process\<close>

text \<open>The adjustments of the entries \<open>es\<close>, which stay in the structure.\<close>

fun exit_ents :: "undo list \<Rightarrow> sem_state \<Rightarrow> sem_outcome" where
  "exit_ents [] s = sem_ok 0 s"
| "exit_ents (e # es) s =
     (if un_id e \<ge> length (ss_sema s) then None
      else
        let d = ss_sema s ! un_id e
        in if \<not> allocated d \<or> sint (un_num e) \<ge> uint (sem_nsems d) then Some Panics
           else if sint (un_num e) < 0 then None
           else
             let k = sem_base d + nat (sint (un_num e));
                 f = (\<lambda>x. if sint (un_adjval e) < 0 \<and> uint (semval x) < - sint (un_adjval e) then x\<lparr>semval := 0\<rparr>
                          else add_val (un_adjval e) x)
             in exit_ents es (sem_wakeup (SemSet (un_id e)) (s\<lparr>ss_sem := upd_sem k f (ss_sem s)\<rparr>)))"

definition exit_unlock :: "int \<Rightarrow> sem_state \<Rightarrow> sem_state" where
  "exit_unlock p s = (if ss_holder s = Some p then sem_wakeup SemLock (s\<lparr>ss_holder := None\<rparr>) else s)"

definition exit_undo :: "int \<Rightarrow> nat \<Rightarrow> sem_state \<Rightarrow> sem_outcome" where
  "exit_undo p i s =
     (case exit_ents (un_ent (ss_semu s ! i)) s of
        Some (Ret s1 _) \<Rightarrow>
          sem_ok 0 (exit_unlock p (upd_undo i (\<lambda>u. u\<lparr>un_proc := None\<rparr>) (s1\<lparr>ss_semu_list := remove1 i (ss_semu_list s1)\<rparr>)))
      | r \<Rightarrow> r)"

definition semexit :: "int \<Rightarrow> sem_state \<Rightarrow> sem_outcome" where
  "semexit p s =
     (case find_undo p (ss_semu_list s) (ss_semu s) of
        None \<Rightarrow> sem_ok 0 (if semlock_waits p s then s else exit_unlock p s)
      | Some i \<Rightarrow> if semlock_waits p s then Some (Sleeps s InSemexit) else exit_undo p i s)"

definition semexit_resume :: "int \<Rightarrow> sem_state \<Rightarrow> sem_outcome" where
  "semexit_resume p s =
     (if ss_holder s \<noteq> None then Some (Sleeps s InSemexit)
      else (case find_undo p (ss_semu_list s) (ss_semu s) of None \<Rightarrow> Some Panics | Some i \<Rightarrow> exit_undo p i s))"

subsection \<open>All calls\<close>

fun sem_syscall :: "int \<Rightarrow> sem_call \<Rightarrow> sem_state \<Rightarrow> sem_outcome" where
  "sem_syscall p (SemConfig flag) s = sys_semconfig p flag s"
| "sem_syscall p (SemGet cred key nsems semflg) s = sys_semget p cred key nsems semflg s"
| "sem_syscall p (SemCtl cred semid semnum cmd) s = sys___semctl p cred semid semnum cmd s"
| "sem_syscall p (SemOp cred semid nsops user) s = sys_semop p cred semid nsops user s"

text \<open>What a process does when its sleep has ended. \<open>sleep\<close> in \<open>semlock\<close> and \<open>semexit\<close> returns no error.\<close>

fun sem_resume :: "int \<Rightarrow> sem_wait \<Rightarrow> errno option \<Rightarrow> sem_state \<Rightarrow> sem_outcome" where
  "sem_resume p (InSemlock c) err s = sem_syscall p c s"
| "sem_resume p (InSemop semid sops k i un) err s = semop_resume p semid sops k i un err s"
| "sem_resume p InSemexit err s = semexit_resume p s"

end
