(* ===== verification/Sem_Undo.thy ===== *)
theory Sem_Undo
  imports Sem "HOL-Library.Multiset"
begin

text \<open>
  Undo structures as a map: for each process, the entries it has (\<open>vec\<close>), and the adjustment of each
  semaphore (\<open>adj_of\<close>). Every operation on the structures is an update of this map.
\<close>

subsection \<open>The entries of one structure\<close>

definition ent_key :: "undo \<Rightarrow> nat \<times> int" where "ent_key e = (un_id e, sint (un_num e))"

definition adj_of :: "undo list \<Rightarrow> nat \<times> int \<Rightarrow> u16" where
  "adj_of es k = (case map_of (map (\<lambda>e. (ent_key e, un_adjval e)) es) k of None \<Rightarrow> 0 | Some v \<Rightarrow> v)"

definition ents_wf :: "undo list \<Rightarrow> bool" where
  "ents_wf es \<longleftrightarrow> distinct (map ent_key es) \<and> (\<forall>e\<in>set es. un_adjval e \<noteq> 0) \<and> length es \<le> SEMUME"

lemma adj_of_Nil [simp]: "adj_of [] k = 0"
  by (simp add: adj_of_def)

lemma adj_of_Cons: "adj_of (e # es) k = (if ent_key e = k then un_adjval e else adj_of es k)"
  by (simp add: adj_of_def)

lemma adj_of_eq_0: "ents_wf es \<Longrightarrow> adj_of es k = 0 \<longleftrightarrow> k \<notin> ent_key ` set es"
  by (induction es) (auto simp: ents_wf_def adj_of_Cons)

lemma adj_of_nth: "distinct (map ent_key es) \<Longrightarrow> i < length es \<Longrightarrow> adj_of es (ent_key (es ! i)) = un_adjval (es ! i)"
  by (induction es arbitrary: i) (auto simp: adj_of_Cons nth_Cons' image_iff dest: nth_mem)

lemma find_ent_None: "find_ent a b i es = None \<longleftrightarrow> (a, b) \<notin> ent_key ` set es"
  by (induction es arbitrary: i) (auto simp: ent_key_def)

lemma find_ent_Some: "find_ent a b n es = Some i \<Longrightarrow> n \<le> i \<and> i < n + length es \<and> ent_key (es ! (i - n)) = (a, b)"
proof (induction es arbitrary: n)
  case (Cons e es)
  show ?case
  proof (cases "ent_key e = (a, b)")
    case True
    then show ?thesis using Cons.prems by (auto simp: ent_key_def)
  next
    case False
    then have "find_ent a b (n + 1) es = Some i" using Cons.prems by (auto simp: ent_key_def split: if_splits)
    from Cons.IH[OF this] have r: "n + 1 \<le> i" "i < n + 1 + length es" "ent_key (es ! (i - (n + 1))) = (a, b)" by auto
    have "(e # es) ! (i - n) = es ! (i - (n + 1))" using r(1) by (simp add: nth_Cons')
    then show ?thesis using r by simp
  qed
qed simp

lemma remove_ent_snoc: "i < length (es @ [e]) \<Longrightarrow> remove_ent i (es @ [e]) = (if i = length es then es else es[i := e])"
  by (auto simp: remove_ent_def list_update_append)

lemma length_remove_ent [simp]: "i < length es \<Longrightarrow> length (remove_ent i es) = length es - 1"
  by (simp add: remove_ent_def)

lemma mset_remove_ent:
  assumes "i < length es"
  shows "mset es = add_mset (es ! i) (mset (remove_ent i es))"
proof (cases es rule: rev_cases)
  case (snoc xs e)
  then show ?thesis
    using assms by (cases "i = length xs") (simp_all add: remove_ent_snoc mset_update nth_append)
qed (use assms in simp)

lemma remove_ent_facts:
  assumes "i < length es" "distinct (map ent_key es)"
  shows "distinct (map ent_key (remove_ent i es))" "set (remove_ent i es) = set es - {es ! i}"
proof -
  have m: "mset es = add_mset (es ! i) (mset (remove_ent i es))" by (rule mset_remove_ent[OF assms(1)])
  have "mset (map ent_key es) = add_mset (ent_key (es ! i)) (mset (map ent_key (remove_ent i es)))"
    using m by (simp add: mset_map)
  then have "distinct (map ent_key (es ! i # remove_ent i es))"
    using assms(2) by (metis mset.simps(2) list.simps(9) mset_eq_imp_distinct_iff)
  moreover have "set es = insert (es ! i) (set (remove_ent i es))" using m by (metis set_mset_add_mset_insert set_mset_mset)
  ultimately show "distinct (map ent_key (remove_ent i es))" "set (remove_ent i es) = set es - {es ! i}"
    by auto
qed

lemma adj_of_map_of: "distinct (map ent_key es) \<Longrightarrow> e \<in> set es \<Longrightarrow> adj_of es (ent_key e) = un_adjval e"
  by (metis adj_of_nth in_set_conv_nth)

lemma adj_of_other: "k \<notin> ent_key ` set es \<Longrightarrow> adj_of es k = 0"
  by (induction es) (auto simp: adj_of_Cons)

lemma adj_of_remove:
  assumes "i < length es" "distinct (map ent_key es)"
  shows "adj_of (remove_ent i es) = (adj_of es)(ent_key (es ! i) := 0)"
proof
  fix k
  note r = remove_ent_facts[OF assms]
  have inj: "inj_on ent_key (set es)" using assms(2) by (simp add: distinct_map)
  show "adj_of (remove_ent i es) k = ((adj_of es)(ent_key (es ! i) := 0)) k"
  proof (cases "k = ent_key (es ! i)")
    case True
    have "k \<notin> ent_key ` set (remove_ent i es)"
    proof
      assume "k \<in> ent_key ` set (remove_ent i es)"
      then obtain e where "e \<in> set (remove_ent i es)" "ent_key e = ent_key (es ! i)" using True by force
      then have e: "e \<in> set es" "e \<noteq> es ! i" "ent_key e = ent_key (es ! i)" unfolding r(2) by auto
      then show False using inj_onD[OF inj e(3) e(1) nth_mem[OF assms(1)]] by simp
    qed
    then show ?thesis using True by (simp add: adj_of_other)
  next
    case False
    show ?thesis
    proof (cases "k \<in> ent_key ` set es")
      case True
      then obtain e where e: "e \<in> set es" "k = ent_key e" by blast
      then have "e \<in> set (remove_ent i es)" using r(2) False by auto
      then show ?thesis using e False adj_of_map_of[OF r(1)] adj_of_map_of[OF assms(2)] by simp
    next
      case False
      then have "k \<notin> ent_key ` set (remove_ent i es)" using r(2) by auto
      then show ?thesis using False assms(1) by (simp add: adj_of_other image_iff)
    qed
  qed
qed

lemma update_val_facts:
  assumes "i < length es" "distinct (map ent_key es)"
  shows "map ent_key (es[i := (es ! i)\<lparr>un_adjval := v\<rparr>]) = map ent_key es"
    "adj_of (es[i := (es ! i)\<lparr>un_adjval := v\<rparr>]) = (adj_of es)(ent_key (es ! i) := v)"
proof -
  have [simp]: "ent_key (e\<lparr>un_adjval := v\<rparr>) = ent_key e" for e by (simp add: ent_key_def)
  show k: "map ent_key (es[i := (es ! i)\<lparr>un_adjval := v\<rparr>]) = map ent_key es"
    using assms(1) by (simp add: map_update list_update_same_conv)
  show "adj_of (es[i := (es ! i)\<lparr>un_adjval := v\<rparr>]) = (adj_of es)(ent_key (es ! i) := v)"
    using assms
  proof (induction es arbitrary: i)
    case (Cons e es)
    show ?case
    proof (cases i)
      case 0
      then show ?thesis by (auto simp: adj_of_Cons fun_eq_iff)
    next
      case (Suc j)
      then have "ent_key e \<noteq> ent_key (es ! j)" using Cons.prems by (auto simp: image_iff dest: nth_mem)
      have "adj_of (es[j := (es ! j)\<lparr>un_adjval := v\<rparr>]) = (adj_of es)(ent_key (es ! j) := v)"
        using Cons.IH[of j] Cons.prems Suc by (simp add: fun_upd_def)
      then show ?thesis using Suc \<open>ent_key e \<noteq> ent_key (es ! j)\<close> by (intro ext) (simp add: adj_of_Cons)
    qed
  qed simp
qed

subsection \<open>An adjustment\<close>

lemma of_int_uminus_u16: "of_int (- a) = - (of_int a :: u16)"
  by simp

lemma adjust_ents_ok:
  assumes "ents_wf es" "adjust_ents ix num a es = (None, es')" "(of_int a :: u16) \<noteq> 0" "- 32768 \<le> num" "num < 32768"
  shows "ents_wf es'" "adj_of es' = (adj_of es)((ix, num) := adj_of es (ix, num) + of_int a)"
    "ent_key ` set es' \<subseteq> insert (ix, num) (ent_key ` set es)"
proof -
  have a0: "a \<noteq> 0" using assms(3) by auto
  have wf: "distinct (map ent_key es)" "\<forall>e\<in>set es. un_adjval e \<noteq> 0" "length es \<le> SEMUME"
    using assms(1) by (auto simp: ents_wf_def)
  have "ents_wf es' \<and> adj_of es' = (adj_of es)((ix, num) := adj_of es (ix, num) + of_int a) \<and>
        ent_key ` set es' \<subseteq> insert (ix, num) (ent_key ` set es)"
  proof (cases "find_ent ix num 0 es")
    case None
    have nk: "(ix, num) \<notin> ent_key ` set es" using None by (simp add: find_ent_None)
    let ?e = "\<lparr>un_adjval = of_int a, un_num = of_int num, un_id = ix\<rparr>"
    have es': "es' = es @ [?e]" and l: "length es \<noteq> SEMUME"
      using assms(2) None a0 by (auto simp: adjust_ents_def split: if_splits)
    have "sint (of_int num :: u16) = num"
      using assms(4,5) by (simp add: signed_of_int signed_take_bit_int_eq_self)
    then have ke: "ent_key ?e = (ix, num)" by (simp add: ent_key_def)
    have "adj_of (es @ [?e]) k = (if k \<in> ent_key ` set es then adj_of es k else if k = (ix, num) then of_int a else 0)" for k
      using ke by (induction es) (auto simp: adj_of_Cons)
    then have "adj_of es' = (adj_of es)((ix, num) := adj_of es (ix, num) + of_int a)"
      using nk es' by (auto simp: fun_eq_iff adj_of_other)
    moreover have "ents_wf es'" using wf nk es' ke l assms(3) by (auto simp: ents_wf_def)
    ultimately show ?thesis using es' ke by auto
  next
    case (Some i)
    have i: "i < length es" "ent_key (es ! i) = (ix, num)" using find_ent_Some[OF Some] by auto
    define v where "v = un_adjval (es ! i) + of_int a"
    define es1 where "es1 = es[i := (es ! i)\<lparr>un_adjval := v\<rparr>]"
    have es': "es' = (if v = 0 then remove_ent i es1 else es1)"
      using assms(2) Some a0 by (auto simp: adjust_ents_def v_def es1_def Let_def)
    have u: "map ent_key es1 = map ent_key es" "adj_of es1 = (adj_of es)((ix, num) := v)" "length es1 = length es"
      using update_val_facts[OF i(1) wf(1), of v] i(2) by (auto simp: es1_def)
    have d1: "distinct (map ent_key es1)" using u(1) wf(1) by simp
    have key1: "ent_key (es1 ! i) = (ix, num)" using u(1) i by (metis length_map nth_map)
    have v: "v = adj_of es (ix, num) + of_int a" using adj_of_nth[OF wf(1) i(1)] i(2) by (simp add: v_def)
    have s1: "ent_key ` set es1 = ent_key ` set es" using u(1) by (metis list.set_map)
    show ?thesis
    proof (cases "v = 0")
      case True
      have "adj_of (remove_ent i es1) = (adj_of es)((ix, num) := 0)"
        using adj_of_remove[of i es1] i d1 u key1 by simp
      moreover have "\<forall>e\<in>set (remove_ent i es1). un_adjval e \<noteq> 0"
      proof
        fix e assume e: "e \<in> set (remove_ent i es1)"
        then have "e \<in> set es1 - {es1 ! i}" using remove_ent_facts(2)[of i es1] i d1 u(3) by simp
        then obtain j where "j < length es" "j \<noteq> i" "e = es1 ! j" using u(3) by (metis Diff_iff in_set_conv_nth singletonI)
        then show "un_adjval e \<noteq> 0" using wf(2) by (simp add: es1_def)
      qed
      ultimately show ?thesis
        using True v es' remove_ent_facts[of i es1] i d1 u(3) wf(3) s1 by (auto simp: ents_wf_def)
    next
      case False
      have "\<forall>e\<in>set es1. un_adjval e \<noteq> 0"
        using False wf(2) set_update_subset_insert[of es i "(es ! i)\<lparr>un_adjval := v\<rparr>"] by (auto simp: es1_def)
      then show ?thesis using False es' u d1 wf(3) v s1 by (auto simp: ents_wf_def)
    qed
  qed
  then show "ents_wf es'" "adj_of es' = (adj_of es)((ix, num) := adj_of es (ix, num) + of_int a)"
    "ent_key ` set es' \<subseteq> insert (ix, num) (ent_key ` set es)" by auto
qed

lemma adjust_ents_err:
  assumes "adjust_ents ix num a es = (Some e, es')"
  shows "es' = es" "e = EINVAL" "length es = SEMUME" "(ix, num) \<notin> ent_key ` set es"
  using assms by (auto simp: adjust_ents_def Let_def find_ent_None split: option.splits if_splits)

lemma ents_wf_card: "ents_wf es \<Longrightarrow> length es = card {k. adj_of es k \<noteq> 0}"
proof -
  assume w: "ents_wf es"
  have "{k. adj_of es k \<noteq> 0} = ent_key ` set es" using adj_of_eq_0[OF w] by auto
  moreover have "card (ent_key ` set es) = length es"
    using w by (metis distinct_card ents_wf_def length_map list.set_map)
  ultimately show ?thesis by simp
qed

text \<open>What was adjusted can be adjusted back, in any entries with the same adjustments as after it.\<close>

lemma adjust_ents_back:
  assumes "ents_wf es" "adjust_ents ix num a es = (None, es1)" "(of_int a :: u16) \<noteq> 0" "- 32768 \<le> num" "num < 32768"
    "ents_wf es2" "adj_of es2 = adj_of es1"
  obtains es3 where "adjust_ents ix num (- a) es2 = (None, es3)" "ents_wf es3" "adj_of es3 = adj_of es"
proof (cases "adjust_ents ix num (- a) es2")
  case (Pair e es3)
  note o = adjust_ents_ok[OF assms(1-5)]
  have a': "(of_int (- a) :: u16) \<noteq> 0" using assms(3) by simp
  have "e = None"
  proof (rule ccontr)
    assume "e \<noteq> None"
    then obtain x where "e = Some x" by blast
    note f = adjust_ents_err[OF Pair[unfolded this]]
    have z: "adj_of es1 (ix, num) = 0" using f(4) adj_of_other[of "(ix, num)" es2] assms(7) by simp
    then have "adj_of es (ix, num) \<noteq> 0" using o(2) assms(3) by auto
    then have "{k. adj_of es k \<noteq> 0} = insert (ix, num) {k. adj_of es1 k \<noteq> 0}" using o(2) by auto
    moreover have "finite {k. adj_of es1 k \<noteq> 0}"
      using adj_of_eq_0[OF o(1)] by (metis (mono_tags, lifting) List.finite_set finite_imageI finite_subset mem_Collect_eq subsetI)
    moreover have "(ix, num) \<notin> {k. adj_of es1 k \<noteq> 0}" using z by simp
    ultimately have "card {k. adj_of es k \<noteq> 0} = Suc (card {k. adj_of es1 k \<noteq> 0})" by simp
    then have "length es = Suc (length es2)"
      using ents_wf_card[OF assms(1)] ents_wf_card[OF assms(6)] assms(7) by simp
    then show False using f(3) assms(1) by (simp add: ents_wf_def)
  qed
  then have p: "adjust_ents ix num (- a) es2 = (None, es3)" using Pair by simp
  note q = adjust_ents_ok[OF assms(6) p a' assms(4,5)]
  have "adj_of es3 = adj_of es" using q(2) o(2) assms(7) by (auto simp: fun_eq_iff)
  then show ?thesis using that p q(1) by blast
qed

subsection \<open>The loop that clears entries\<close>

lemma clear_all_ents:
  "distinct (map ent_key es) \<Longrightarrow> (\<forall>j<i. j < length es \<longrightarrow> un_id (es ! j) \<noteq> ix) \<Longrightarrow>
   distinct (map ent_key (clear_ents ix (- 1) i es)) \<and> set (clear_ents ix (- 1) i es) = {e \<in> set es. un_id e \<noteq> ix}"
proof (induction ix "- 1 :: int" i es rule: clear_ents.induct)
  case (1 ix i es)
  show ?case
  proof (cases "i < length es")
    case False
    then have "\<forall>e\<in>set es. un_id e \<noteq> ix" using 1(4) by (metis in_set_conv_nth less_le_trans not_le)
    then have "set es = {e \<in> set es. un_id e \<noteq> ix}" by blast
    moreover have "clear_ents ix (- 1) i es = es" using False by (subst clear_ents.simps) simp
    ultimately show ?thesis using 1(3) by simp
  next
    case i: True
    show ?thesis
    proof (cases "un_id (es ! i) = ix")
      case True
      let ?r = "remove_ent i es"
      have eq: "clear_ents ix (- 1) i es = clear_ents ix (- 1) (if i < length ?r then i else i + 1) ?r"
        using i True by (subst clear_ents.simps) (simp add: Let_def)
      note r = remove_ent_facts[OF i 1(3)]
      have before: "\<forall>j<(if i < length ?r then i else i + 1). j < length ?r \<longrightarrow> un_id (?r ! j) \<noteq> ix"
      proof (intro allI impI)
        fix j assume j: "j < (if i < length ?r then i else i + 1)" "j < length ?r"
        then have "j < i" using i by (auto split: if_splits)
        then have "?r ! j = es ! j" using j(2) i by (simp add: remove_ent_def nth_butlast)
        then show "un_id (?r ! j) \<noteq> ix" using 1(4) \<open>j < i\<close> i by simp
      qed
      have "{e \<in> set ?r. un_id e \<noteq> ix} = {e \<in> set es. un_id e \<noteq> ix}" using r(2) True by auto
      then show ?thesis using 1(1)[OF i True refl refl] r(1) before eq by simp
    next
      case False
      have "clear_ents ix (- 1) i es = clear_ents ix (- 1) (i + 1) es"
        using i False by (subst clear_ents.simps) simp
      moreover have "\<forall>j<i + 1. j < length es \<longrightarrow> un_id (es ! j) \<noteq> ix" using 1(4) False less_Suc_eq by auto
      ultimately show ?thesis using 1(2)[OF i False] 1(3) by simp
    qed
  qed
qed

text \<open>With a number, entries only go, and those of other sets stay.\<close>

lemma clear_one_ents:
  "num \<noteq> - 1 \<Longrightarrow> distinct (map ent_key es) \<Longrightarrow>
   clear_ents ix num i es = es \<or> (\<exists>j<length es. ent_key (es ! j) = (ix, num) \<and> clear_ents ix num i es = remove_ent j es)"
proof (induction ix num i es rule: clear_ents.induct)
  case (1 ix num i es)
  show ?case
  proof (cases "i < length es \<and> un_id (es ! i) \<noteq> ix")
    case True
    then have "clear_ents ix num i es = clear_ents ix num (i + 1) es" by (subst clear_ents.simps) simp
    then show ?thesis using 1(2) True 1(3,4) by simp
  next
    case False
    then show ?thesis using 1(3) by (subst (1 2) clear_ents.simps) (auto simp: Let_def ent_key_def)
  qed
qed

lemma clear_ents_facts:
  assumes "ents_wf es" "num = - 1 \<or> 0 \<le> num"
  shows "ents_wf (clear_ents ix num 0 es)" "set (clear_ents ix num 0 es) \<subseteq> set es"
    "\<forall>k. fst k \<noteq> ix \<longrightarrow> adj_of (clear_ents ix num 0 es) k = adj_of es k"
    "num = - 1 \<Longrightarrow> \<forall>e\<in>set (clear_ents ix num 0 es). un_id e \<noteq> ix"
    "num = - 1 \<Longrightarrow> \<forall>k. fst k = ix \<longrightarrow> adj_of (clear_ents ix num 0 es) k = 0"
proof -
  let ?c = "clear_ents ix num 0 es"
  have d: "distinct (map ent_key es)" using assms(1) by (simp add: ents_wf_def)
  have dc: "distinct (map ent_key ?c) \<and> set ?c \<subseteq> set es \<and> (\<forall>e\<in>set es. un_id e \<noteq> ix \<longrightarrow> e \<in> set ?c)"
  proof (cases "num = - 1")
    case True
    then show ?thesis using clear_all_ents[OF d, of 0 ix] by auto
  next
    case False
    show ?thesis
      using clear_one_ents[OF False d, of ix 0] d remove_ent_facts(1)[OF _ d] remove_ent_facts(2)[OF _ d]
      by (auto simp: ent_key_def)
  qed
  show s: "set ?c \<subseteq> set es" using dc by blast
  have "length ?c \<le> length es"
    using dc s by (metis card_mono distinct_card List.finite_set distinct_map d)
  then show w: "ents_wf ?c" using dc s assms(1) by (auto simp: ents_wf_def)
  show "\<forall>k. fst k \<noteq> ix \<longrightarrow> adj_of ?c k = adj_of es k"
  proof (intro allI impI)
    fix k :: "nat \<times> int" assume k: "fst k \<noteq> ix"
    show "adj_of ?c k = adj_of es k"
    proof (cases "k \<in> ent_key ` set es")
      case True
      then obtain e where e: "e \<in> set es" "k = ent_key e" by blast
      then have "e \<in> set ?c" using dc k by (simp add: ent_key_def)
      then show ?thesis using e dc d by (simp add: adj_of_map_of)
    next
      case False
      then have "k \<notin> ent_key ` set ?c" using s by blast
      then show ?thesis using False by (simp add: adj_of_other)
    qed
  qed
  show n: "num = - 1 \<Longrightarrow> \<forall>e\<in>set ?c. un_id e \<noteq> ix" using clear_all_ents[OF d, of 0 ix] by auto
  show "num = - 1 \<Longrightarrow> \<forall>k. fst k = ix \<longrightarrow> adj_of ?c k = 0"
  proof (intro allI impI)
    fix k :: "nat \<times> int" assume "num = - 1" "fst k = ix"
    then have "k \<notin> ent_key ` set ?c" using n by (auto simp: ent_key_def)
    then show "adj_of ?c k = 0" by (rule adj_of_other)
  qed
qed

subsection \<open>The structures of all processes\<close>

definition undo_ok :: "sem_state \<Rightarrow> bool" where
  "undo_ok s \<longleftrightarrow>
     distinct (ss_semu_list s) \<and>
     set (ss_semu_list s) = {i. i < length (ss_semu s) \<and> un_proc (ss_semu s ! i) \<noteq> None} \<and>
     inj_on (\<lambda>i. un_proc (ss_semu s ! i)) (set (ss_semu_list s)) \<and>
     (\<forall>i\<in>set (ss_semu_list s). ents_wf (un_ent (ss_semu s ! i)))"

definition vec_at :: "sem_state \<Rightarrow> int \<Rightarrow> nat option" where
  "vec_at s p = find_undo p (ss_semu_list s) (ss_semu s)"

definition vec :: "sem_state \<Rightarrow> int \<Rightarrow> undo list option" where
  "vec s p = map_option (\<lambda>i. un_ent (ss_semu s ! i)) (vec_at s p)"

definition ents :: "sem_state \<Rightarrow> int \<Rightarrow> undo list" where
  "ents s p = (case vec s p of None \<Rightarrow> [] | Some es \<Rightarrow> es)"

text \<open>Only the undo structures change, and other processes lose at most an empty one.\<close>

definition undo_frame :: "int \<Rightarrow> sem_state \<Rightarrow> sem_state \<Rightarrow> bool" where
  "undo_frame p s s' \<longleftrightarrow>
     s' = s\<lparr>ss_semu := ss_semu s', ss_semu_list := ss_semu_list s'\<rparr> \<and> length (ss_semu s') = length (ss_semu s) \<and>
     (\<forall>q. q \<noteq> p \<longrightarrow> vec s' q = vec s q \<or> vec s q = Some [] \<and> vec s' q = None)"

lemma undo_frame_refl [simp]: "undo_frame p s s"
  by (simp add: undo_frame_def)

lemma undo_frame_trans: "undo_frame p s s1 \<Longrightarrow> undo_frame p s1 s2 \<Longrightarrow> undo_frame p s s2"
  by (cases s; cases s1; cases s2) (fastforce simp: undo_frame_def)

lemma undo_frame_ents: "undo_frame p s s' \<Longrightarrow> q \<noteq> p \<Longrightarrow> ents s' q = ents s q"
  by (fastforce simp: undo_frame_def ents_def)

lemma undo_frame_fields:
  assumes "undo_frame p s s'"
  shows "ss_sema s' = ss_sema s" "ss_sem s' = ss_sem s" "ss_semtot s' = ss_semtot s" "ss_info s' = ss_info s"
    "ss_holder s' = ss_holder s" "ss_wakeups s' = ss_wakeups s" "length (ss_semu s') = length (ss_semu s)" "ss_time s' = ss_time s"
  using assms by (cases s; cases s'; auto simp: undo_frame_def)+

lemma find_undo_SomeD: "find_undo p is us = Some i \<Longrightarrow> i \<in> set is \<and> un_proc (us ! i) = Some p"
  by (induction "is") (auto split: if_splits)

lemma find_undo_None: "find_undo p is us = None \<longleftrightarrow> (\<forall>i\<in>set is. un_proc (us ! i) \<noteq> Some p)"
  by (induction "is") auto

lemma vec_at_iff:
  assumes "undo_ok s"
  shows "vec_at s p = Some i \<longleftrightarrow> i \<in> set (ss_semu_list s) \<and> un_proc (ss_semu s ! i) = Some p"
proof
  assume "vec_at s p = Some i"
  then show "i \<in> set (ss_semu_list s) \<and> un_proc (ss_semu s ! i) = Some p" unfolding vec_at_def by (rule find_undo_SomeD)
next
  assume i: "i \<in> set (ss_semu_list s) \<and> un_proc (ss_semu s ! i) = Some p"
  then obtain j where j: "vec_at s p = Some j" unfolding vec_at_def using find_undo_None by fastforce
  then have "j \<in> set (ss_semu_list s) \<and> un_proc (ss_semu s ! j) = Some p" unfolding vec_at_def by (rule find_undo_SomeD)
  moreover have "inj_on (\<lambda>i. un_proc (ss_semu s ! i)) (set (ss_semu_list s))" using assms unfolding undo_ok_def by blast
  ultimately have "i = j" using i
    by (intro inj_onD[of "\<lambda>i. un_proc (ss_semu s ! i)" "set (ss_semu_list s)" i j]) auto
  then show "vec_at s p = Some i" using j by simp
qed

lemma vec_Some_iff:
  "undo_ok s \<Longrightarrow> vec s p = Some es \<longleftrightarrow> (\<exists>i\<in>set (ss_semu_list s). un_proc (ss_semu s ! i) = Some p \<and> un_ent (ss_semu s ! i) = es)"
  by (auto simp: vec_def vec_at_iff)

lemma vec_None_iff: "vec s p = None \<longleftrightarrow> (\<forall>i\<in>set (ss_semu_list s). un_proc (ss_semu s ! i) \<noteq> Some p)"
  by (simp add: vec_def vec_at_def find_undo_None)

lemma ents_wf_ents: "undo_ok s \<Longrightarrow> ents_wf (ents s p)"
  by (auto simp: ents_def undo_ok_def vec_def vec_at_def ents_wf_def[of "[]"] split: option.split dest!: find_undo_SomeD)

lemma listed_lt: "undo_ok s \<Longrightarrow> i \<in> set (ss_semu_list s) \<Longrightarrow> i < length (ss_semu s)"
  by (simp add: undo_ok_def)

text \<open>The entries of one structure are replaced.\<close>

lemma undo_ok_upd_ents:
  assumes "undo_ok s" "vec_at s p = Some i" "ents_wf es"
  defines "s' \<equiv> upd_undo i (\<lambda>u. u\<lparr>un_ent := es\<rparr>) s"
  shows "undo_ok s'" "vec_at s' = vec_at s" "vec s' = (vec s)(p := Some es)" "undo_frame p s s'" "ents s' = (ents s)(p := es)"
proof -
  have i: "i \<in> set (ss_semu_list s)" "un_proc (ss_semu s ! i) = Some p" "i < length (ss_semu s)"
    using assms(1,2) vec_at_iff listed_lt by auto
  have pr: "un_proc (ss_semu s' ! j) = un_proc (ss_semu s ! j)" for j
    using i by (cases "j = i") (simp_all add: s'_def upd_undo_def)
  have l: "ss_semu_list s' = ss_semu_list s" "length (ss_semu s') = length (ss_semu s)" by (simp_all add: s'_def upd_undo_def)
  have en: "un_ent (ss_semu s' ! j) = (if j = i then es else un_ent (ss_semu s ! j))" for j
    using i by (simp add: s'_def upd_undo_def)
  show ok: "undo_ok s'" using assms(1,3) by (auto simp: undo_ok_def l pr en inj_on_def)
  have same: "find_undo q is (ss_semu s') = find_undo q is (ss_semu s)" for q "is"
    by (induction "is") (auto simp: pr)
  show va: "vec_at s' = vec_at s" by (simp add: fun_eq_iff vec_at_def l same)
  show v: "vec s' = (vec s)(p := Some es)"
  proof
    fix q
    show "vec s' q = ((vec s)(p := Some es)) q"
    proof (cases "vec_at s q")
      case None then show ?thesis using assms(2) by (auto simp: vec_def va)
    next
      case (Some j)
      then have "un_proc (ss_semu s ! j) = Some q" using vec_at_iff[OF assms(1)] by blast
      then have "j = i \<longleftrightarrow> q = p" using assms(2) i Some by auto
      then show ?thesis using Some by (auto simp: vec_def va en)
    qed
  qed
  show "undo_frame p s s'" using v l by (simp add: undo_frame_def) (simp add: s'_def upd_undo_def)
  show "ents s' = (ents s)(p := es)" using v by (auto simp: fun_eq_iff ents_def)
qed

lemma adjust_at_eq:
  assumes "adjust_ents ix num a (un_ent (ss_semu s ! i)) = (e, es)"
  shows "adjust_at i ix num a s = Ret (upd_undo i (\<lambda>u. u\<lparr>un_ent := es\<rparr>) s) (e, Some i)"
  using assms by (simp add: adjust_at_def)

subsection \<open>A new structure\<close>

lemma find_free_Some: "find_free n us = Some i \<Longrightarrow> n \<le> i \<and> i < n + length us \<and> un_proc (us ! (i - n)) = None"
  by (induction us arbitrary: n) (fastforce split: if_splits simp: nth_Cons')+

lemma find_free_None: "find_free n us = None \<longleftrightarrow> (\<forall>u\<in>set us. un_proc u \<noteq> None)"
  by (induction us arbitrary: n) auto

lemma semu_take_ok:
  assumes "undo_ok s" "find_free 0 (ss_semu s) = Some i" "vec s p = None"
  shows "undo_ok (semu_take p i s)" "vec_at (semu_take p i s) p = Some i" "vec (semu_take p i s) = (vec s)(p := Some [])"
    "undo_frame p s (semu_take p i s)"
proof -
  let ?s = "semu_take p i s"
  have i: "i < length (ss_semu s)" "un_proc (ss_semu s ! i) = None" using find_free_Some[OF assms(2)] by auto
  then have ni: "i \<notin> set (ss_semu_list s)" using assms(1) by (simp add: undo_ok_def)
  have l: "ss_semu_list ?s = i # ss_semu_list s" "length (ss_semu ?s) = length (ss_semu s)"
    by (simp_all add: semu_take_def upd_undo_def)
  have u: "ss_semu ?s ! j = (if j = i then (ss_semu s ! i)\<lparr>un_ent := [], un_proc := Some p\<rparr> else ss_semu s ! j)" for j
    using i by (simp add: semu_take_def upd_undo_def)
  have np: "\<forall>j\<in>set (ss_semu_list s). un_proc (ss_semu s ! j) \<noteq> Some p" using assms(3) by (simp add: vec_None_iff)
  show ok: "undo_ok ?s"
  proof -
    have "set (i # ss_semu_list s) = {j. j < length (ss_semu s) \<and> un_proc (ss_semu ?s ! j) \<noteq> None}"
      using assms(1) i by (auto simp: undo_ok_def u)
    moreover have "inj_on (\<lambda>j. un_proc (ss_semu ?s ! j)) (set (i # ss_semu_list s))"
    proof (rule inj_onI)
      fix a b assume ab: "a \<in> set (i # ss_semu_list s)" "b \<in> set (i # ss_semu_list s)"
        "un_proc (ss_semu ?s ! a) = un_proc (ss_semu ?s ! b)"
      show "a = b"
      proof (cases "a = i \<or> b = i")
        case True
        then show ?thesis using ab np by (auto simp: u split: if_splits)
      next
        case False
        then have "a \<in> set (ss_semu_list s)" "b \<in> set (ss_semu_list s)"
          "un_proc (ss_semu s ! a) = un_proc (ss_semu s ! b)" using ab by (auto simp: u)
        then show ?thesis using assms(1) by (auto simp: undo_ok_def inj_on_def)
      qed
    qed
    ultimately show ?thesis using assms(1) ni by (auto simp: undo_ok_def l u ents_wf_def)
  qed
  show va: "vec_at ?s p = Some i" using ok by (simp add: vec_at_iff l u)
  have same: "i \<notin> set is \<Longrightarrow> find_undo q is (ss_semu ?s) = find_undo q is (ss_semu s)" for q "is"
    by (induction "is") (auto simp: u)
  show v: "vec ?s = (vec s)(p := Some [])"
  proof
    fix q
    show "vec ?s q = ((vec s)(p := Some [])) q"
    proof (cases "q = p")
      case True then show ?thesis using va by (simp add: vec_def u)
    next
      case False
      then have "vec_at ?s q = vec_at s q" using ni by (simp add: vec_at_def l u same)
      moreover have "vec_at s q \<noteq> Some i" using ni vec_at_iff[OF assms(1)] by auto
      ultimately show ?thesis using False by (cases "vec_at s q") (auto simp: vec_def u)
    qed
  qed
  show "undo_frame p s ?s" using v l by (simp add: undo_frame_def) (simp add: semu_take_def upd_undo_def)
qed

lemma purge_list_spec:
  "purge_list is us = (is', us', did) \<Longrightarrow> distinct is \<Longrightarrow> \<forall>i\<in>set is. i < length us \<Longrightarrow>
   is' = filter (\<lambda>i. un_ent (us ! i) \<noteq> []) is \<and> length us' = length us \<and>
   (\<forall>j. us' ! j = (if j \<in> set is \<and> un_ent (us ! j) = [] then (us ! j)\<lparr>un_proc := None\<rparr> else us ! j)) \<and>
   did = (\<exists>i\<in>set is. un_ent (us ! i) = [])"
proof (induction "is" us arbitrary: is' us' did rule: purge_list.induct)
  case (2 i "is" us)
  show ?case
  proof (cases "un_ent (us ! i) = []")
    case True
    let ?us = "us[i := (us ! i)\<lparr>un_proc := None\<rparr>]"
    obtain d where p: "purge_list is ?us = (is', us', d)" "did"
      using 2(3) True by (auto split: prod.splits)
    have o: "j \<in> set is \<Longrightarrow> ?us ! j = us ! j" for j using 2(4) by (cases "j = i") auto
    have "is' = filter (\<lambda>i. un_ent (?us ! i) \<noteq> []) is \<and> length us' = length ?us \<and>
      (\<forall>j. us' ! j = (if j \<in> set is \<and> un_ent (?us ! j) = [] then (?us ! j)\<lparr>un_proc := None\<rparr> else ?us ! j))"
      using 2(1)[OF True p(1)] 2(4,5) by simp
    moreover have "filter (\<lambda>i. un_ent (?us ! i) \<noteq> []) is = filter (\<lambda>i. un_ent (us ! i) \<noteq> []) is"
      by (rule filter_cong) (use o in auto)
    ultimately show ?thesis using True 2(4,5) p(2) o by (auto simp: nth_list_update)
  next
    case False
    obtain is1 where p: "purge_list is us = (is1, us', did)" "is' = i # is1"
      using 2(3) False by (auto split: prod.splits)
    then show ?thesis using 2(2)[OF False p(1)] 2(4,5) False by auto
  qed
qed auto

lemma semu_alloc_ok:
  assumes "undo_ok s" "vec s p = None"
  shows "(\<exists>s' i. semu_alloc p s = Ret s' (Some i) \<and> undo_ok s' \<and> vec_at s' p = Some i \<and> vec s' p = Some [] \<and> undo_frame p s s') \<or>
         semu_alloc p s = Ret s None"
proof (cases "find_free 0 (ss_semu s)")
  case (Some i)
  then show ?thesis using semu_take_ok[OF assms(1) Some assms(2)] by (auto simp: semu_alloc_def)
next
  case None
  obtain is1 us1 did where p: "purge_list (ss_semu_list s) (ss_semu s) = (is1, us1, did)" by (metis prod_cases3)
  have d: "distinct (ss_semu_list s)" "\<forall>i\<in>set (ss_semu_list s). i < length (ss_semu s)"
    using assms(1) by (auto simp: undo_ok_def)
  note ps = purge_list_spec[OF p d]
  let ?s1 = "s\<lparr>ss_semu_list := is1, ss_semu := us1\<rparr>"
  have in1: "i \<in> set is1 \<longleftrightarrow> i \<in> set (ss_semu_list s) \<and> un_ent (ss_semu s ! i) \<noteq> []" for i using ps by auto
  have nth1: "us1 ! j = (if j \<in> set (ss_semu_list s) \<and> un_ent (ss_semu s ! j) = [] then (ss_semu s ! j)\<lparr>un_proc := None\<rparr>
                         else ss_semu s ! j)" for j using ps by blast
  have n1: "i \<in> set is1 \<Longrightarrow> us1 ! i = ss_semu s ! i" for i by (simp add: in1 nth1)
  have ok1: "undo_ok ?s1"
  proof -
    have "set is1 = {i. i < length us1 \<and> un_proc (us1 ! i) \<noteq> None}"
      using ps assms(1) by (auto simp: undo_ok_def nth1)
    moreover have "inj_on (\<lambda>i. un_proc (us1 ! i)) (set is1)"
    proof (rule inj_onI)
      fix a b assume ab: "a \<in> set is1" "b \<in> set is1" "un_proc (us1 ! a) = un_proc (us1 ! b)"
      then have "a \<in> set (ss_semu_list s)" "b \<in> set (ss_semu_list s)" "un_proc (ss_semu s ! a) = un_proc (ss_semu s ! b)"
        using n1 in1 by auto
      then show "a = b" using assms(1) by (auto simp: undo_ok_def inj_on_def)
    qed
    moreover have "distinct is1" using ps d(1) by simp
    moreover have "\<forall>i\<in>set is1. ents_wf (un_ent (us1 ! i))" using assms(1) n1 in1 by (simp add: undo_ok_def)
    ultimately show ?thesis by (simp add: undo_ok_def)
  qed
  have v1: "vec ?s1 q = (if vec s q = Some [] then None else vec s q)" for q
  proof (cases "vec s q")
    case None
    then have "vec ?s1 q = None" using n1 in1 by (simp add: vec_None_iff)
    then show ?thesis using None by simp
  next
    case (Some es)
    then obtain i where i: "i \<in> set (ss_semu_list s)" "un_proc (ss_semu s ! i) = Some q" "un_ent (ss_semu s ! i) = es"
      using vec_Some_iff[OF assms(1)] by auto
    show ?thesis
    proof (cases "es = []")
      case True
      have "vec ?s1 q = None"
        unfolding vec_None_iff
      proof
        fix j assume "j \<in> set (ss_semu_list ?s1)"
        then have j: "j \<in> set is1" by simp
        show "un_proc (ss_semu ?s1 ! j) \<noteq> Some q"
        proof
          assume "un_proc (ss_semu ?s1 ! j) = Some q"
          then have "un_proc (ss_semu s ! j) = un_proc (ss_semu s ! i)" using n1[OF j] i by simp
          then have "j = i" using assms(1) j i in1 by (auto simp: undo_ok_def inj_on_def)
          then show False using i in1 j True by simp
        qed
      qed
      then show ?thesis using Some True by simp
    next
      case False
      then have "i \<in> set is1" using i in1 by simp
      then have "vec ?s1 q = Some es" using vec_Some_iff[OF ok1] i n1 by auto
      then show ?thesis using Some False by simp
    qed
  qed
  show ?thesis
  proof (cases did)
    case False
    then have "is1 = ss_semu_list s" using ps by (auto simp: filter_id_conv)
    moreover have "us1 = ss_semu s" using ps False by (intro nth_equalityI) auto
    ultimately have "semu_alloc p s = Ret s None" using None p False by (simp add: semu_alloc_def Let_def)
    then show ?thesis by simp
  next
    case True
    then obtain i where i: "i \<in> set (ss_semu_list s)" "un_ent (ss_semu s ! i) = []" using ps by auto
    then have "un_proc (us1 ! i) = None" "i < length us1" using nth1 d(2) ps by auto
    then have "find_free 0 us1 \<noteq> None" by (metis find_free_None nth_mem)
    then obtain j where j: "find_free 0 us1 = Some j" by auto
    have r: "semu_alloc p s = Ret (semu_take p j ?s1) (Some j)" using None p True j by (simp add: semu_alloc_def Let_def)
    have vp: "vec ?s1 p = None" using v1 assms(2) by simp
    have jf: "find_free 0 (ss_semu ?s1) = Some j" using j by simp
    note t = semu_take_ok[OF ok1 jf vp]
    have f1: "undo_frame p s ?s1" using v1 ps by (simp add: undo_frame_def)
    have "vec (semu_take p j ?s1) p = Some []" using t(3) by simp
    then show ?thesis using r t(1,2) undo_frame_trans[OF f1 t(4)] by blast
  qed
qed

subsection \<open>semundo_adjust\<close>

lemma semundo_adjust_spec:
  assumes "undo_ok s" "sp = None \<or> sp = vec_at s p" "(of_int a :: u16) \<noteq> 0" "0 \<le> num" "num < 32768"
  obtains s' e sp' where "semundo_adjust p sp ix num a s = Ret s' (e, sp')" "undo_ok s'" "undo_frame p s s'"
    "e = None \<Longrightarrow> sp' = vec_at s' p \<and> sp' \<noteq> None \<and> adjust_ents ix num a (ents s p) = (None, ents s' p)"
    "e \<noteq> None \<Longrightarrow> ents s' p = ents s p \<and> (vec s p = None \<or> adjust_ents ix num a (ents s p) = (e, ents s p)) \<and>
      (sp' = None \<and> vec_at s p = None \<or> sp' = vec_at s' p \<and> sp' \<noteq> None)"
proof -
  note found = that
  have a0: "a \<noteq> 0" using assms(3) by auto
  have at: thesis if *: "undo_ok s1" "undo_frame p s s1" "vec_at s1 p = Some i" "ents s1 p = ents s p"
    "semundo_adjust p sp ix num a s = adjust_at i ix num a s1" for s1 i
  proof -
    obtain e es where e: "adjust_ents ix num a (ents s p) = (e, es)" by (metis surj_pair)
    have "un_ent (ss_semu s1 ! i) = ents s p" using *(3,4) by (simp add: ents_def vec_def)
    then have r: "semundo_adjust p sp ix num a s = Ret (upd_undo i (\<lambda>u. u\<lparr>un_ent := es\<rparr>) s1) (e, Some i)"
      using *(5) adjust_at_eq[of ix num a s1 i] e by simp
    have w: "ents_wf es"
    proof (cases e)
      case None
      show ?thesis using adjust_ents_ok(1)[OF ents_wf_ents[OF assms(1)] e[unfolded None] assms(3)] assms(4,5) by simp
    next
      case (Some x)
      show ?thesis using adjust_ents_err(1)[OF e[unfolded Some]] ents_wf_ents[OF assms(1)] by simp
    qed
    note u = undo_ok_upd_ents[OF *(1) *(3) w]
    have en: "ents (upd_undo i (\<lambda>u. u\<lparr>un_ent := es\<rparr>) s1) p = es" using u(5) by simp
    show thesis
      by (rule found[OF r u(1) undo_frame_trans[OF *(2) u(4)]])
        (use e en *(3) u(2) adjust_ents_err(1) in auto)
  qed
  show thesis
  proof (cases "vec_at s p")
    case (Some i)
    then have "semundo_adjust p sp ix num a s = adjust_at i ix num a s"
      using assms(2) by (auto simp: semundo_adjust_def vec_at_def)
    then show thesis using at[of s i] assms(1) Some by simp
  next
    case None
    then have sp: "sp = None" "vec s p = None" using assms(2) by (auto simp: vec_def)
    consider s1 i where "semu_alloc p s = Ret s1 (Some i)" "undo_ok s1" "vec_at s1 p = Some i" "vec s1 p = Some []" "undo_frame p s s1"
      | "semu_alloc p s = Ret s None"
      using semu_alloc_ok[OF assms(1) sp(2)] by blast
    then show thesis
    proof cases
      case 1
      have "ents s1 p = ents s p" using 1(4) sp(2) by (simp add: ents_def)
      moreover have "semundo_adjust p sp ix num a s = adjust_at i ix num a s1"
        using sp None a0 1(1) by (simp add: semundo_adjust_def vec_at_def)
      ultimately show thesis using at 1 by blast
    next
      case 2
      have "semundo_adjust p sp ix num a s = Ret s (Some ENOSPC, None)"
        using sp None a0 2 by (simp add: semundo_adjust_def vec_at_def)
      then show thesis by (rule found) (use assms(1) sp None in auto)
    qed
  qed
qed

subsection \<open>The undo entries of a semop\<close>

text \<open>The entries \<open>es0\<close> become \<open>es\<close> by the requests \<open>dn\<close>, the last one first.\<close>

fun undo_steps :: "nat \<Rightarrow> sembuf list \<Rightarrow> undo list \<Rightarrow> undo list \<Rightarrow> bool" where
  "undo_steps ix [] es0 es \<longleftrightarrow> es = es0"
| "undo_steps ix (q # dn) es0 es \<longleftrightarrow>
     (\<exists>es1. undo_steps ix dn es0 es1 \<and>
            (if no_undo q then es = es1 else adjust_ents ix (uint (sem_num q)) (- sint (sem_op q)) es1 = (None, es)))"

definition small_num :: "sembuf \<Rightarrow> bool" where "small_num q \<longleftrightarrow> uint (sem_num q) < 32768"

definition undo_sum :: "nat \<Rightarrow> sembuf list \<Rightarrow> nat \<times> int \<Rightarrow> u16" where
  "undo_sum ix qs k = sum_list (map (\<lambda>q. if \<not> no_undo q \<and> k = (ix, uint (sem_num q)) then sem_op q else 0) qs)"

lemma of_int_sint_u16 [simp]: "of_int (sint w) = (w :: u16)"
  by simp

lemma op_nonzero: "\<not> no_undo q \<Longrightarrow> (of_int (sint (sem_op q)) :: u16) \<noteq> 0" "\<not> no_undo q \<Longrightarrow> (of_int (- sint (sem_op q)) :: u16) \<noteq> 0"
  by (simp_all add: no_undo_def)

lemma num_range: "0 \<le> uint (sem_num q)" "- 32768 \<le> uint (sem_num q)"
  using uint_nonnegative[of "sem_num q"] by linarith+

lemma undo_steps_facts:
  "undo_steps ix dn es0 es \<Longrightarrow> ents_wf es0 \<Longrightarrow> \<forall>q\<in>set dn. small_num q \<Longrightarrow>
   ents_wf es \<and> (\<forall>k. adj_of es k = adj_of es0 k - undo_sum ix dn k) \<and>
   ent_key ` set es \<subseteq> ent_key ` set es0 \<union> {(ix, uint (sem_num q)) | q. q \<in> set dn}"
proof (induction dn arbitrary: es)
  case Nil
  then show ?case by (simp add: undo_sum_def)
next
  case (Cons q dn)
  then obtain es1 where e1: "undo_steps ix dn es0 es1"
    "if no_undo q then es = es1 else adjust_ents ix (uint (sem_num q)) (- sint (sem_op q)) es1 = (None, es)" by auto
  have ih: "ents_wf es1" "\<forall>k. adj_of es1 k = adj_of es0 k - undo_sum ix dn k"
    "ent_key ` set es1 \<subseteq> ent_key ` set es0 \<union> {(ix, uint (sem_num q)) | q. q \<in> set dn}"
    using Cons.IH[OF e1(1) Cons.prems(2)] Cons.prems(3) by auto
  show ?case
  proof (cases "no_undo q")
    case True
    then show ?thesis using e1(2) ih by (auto simp: undo_sum_def)
  next
    case False
    have "adjust_ents ix (uint (sem_num q)) (- sint (sem_op q)) es1 = (None, es)" using e1(2) False by simp
    note o = adjust_ents_ok[OF ih(1) this op_nonzero(2)[OF False] num_range(2)]
    have s: "uint (sem_num q) < 32768" using Cons.prems(3) by (simp add: small_num_def)
    have "adj_of es k = adj_of es0 k - undo_sum ix (q # dn) k" for k
      using o(2)[OF s] ih(2)[rule_format, of k] ih(2)[rule_format, of "(ix, uint (sem_num q))"] False
      by (cases "k = (ix, uint (sem_num q))") (simp_all add: undo_sum_def del: split_paired_All)
    moreover have "ents_wf es" using o(1)[OF s] .
    moreover have "ent_key ` set es \<subseteq> ent_key ` set es0 \<union> {(ix, uint (sem_num r)) | r. r \<in> set (q # dn)}"
      by (rule order_trans[OF o(3)[OF s]]) (use ih(3) in auto)
    ultimately show ?thesis by blast
  qed
qed

lemma undo_undos_spec:
  "undo_ok s \<Longrightarrow> undo_steps ix dn es0 es \<Longrightarrow> ents_wf es0 \<Longrightarrow> adj_of (ents s p) = adj_of es \<Longrightarrow> \<forall>q\<in>set dn. small_num q \<Longrightarrow>
   sp \<noteq> None \<and> sp = vec_at s p \<or> (\<forall>q\<in>set dn. no_undo q) \<Longrightarrow>
   \<exists>s'. undo_undos p ix dn sp s = Ret s' () \<and> undo_ok s' \<and> undo_frame p s s' \<and> adj_of (ents s' p) = adj_of es0"
proof (induction dn arbitrary: es sp s)
  case (Cons q dn)
  from Cons.prems(2) obtain es1 where e1: "undo_steps ix dn es0 es1"
    "if no_undo q then es = es1 else adjust_ents ix (uint (sem_num q)) (- sint (sem_op q)) es1 = (None, es)" by auto
  have small: "\<forall>q\<in>set dn. small_num q" "uint (sem_num q) < 32768" using Cons.prems(5) by (auto simp: small_num_def)
  note f1 = undo_steps_facts[OF e1(1) Cons.prems(3) small(1)]
  show ?case
  proof (cases "no_undo q")
    case True
    then show ?thesis using Cons.IH[OF Cons.prems(1) e1(1) Cons.prems(3) _ small(1)] Cons.prems(4,6) e1(2) by simp
  next
    case False
    have a1: "adjust_ents ix (uint (sem_num q)) (- sint (sem_op q)) es1 = (None, es)" using e1(2) False by simp
    have sp: "sp \<noteq> None" "sp = vec_at s p" using Cons.prems(6) False by auto
    then have v: "vec s p \<noteq> None" by (simp add: vec_def)
    obtain es3 where es3: "adjust_ents ix (uint (sem_num q)) (- (- sint (sem_op q))) (ents s p) = (None, es3)" "adj_of es3 = adj_of es1"
      by (rule adjust_ents_back[OF conjunct1[OF f1] a1 op_nonzero(2)[OF False] num_range(2) small(2) ents_wf_ents[OF Cons.prems(1)] Cons.prems(4)])
    then have es3': "adjust_ents ix (uint (sem_num q)) (sint (sem_op q)) (ents s p) = (None, es3)" by simp
    obtain s1 e sp1 where r: "semundo_adjust p sp ix (uint (sem_num q)) (sint (sem_op q)) s = Ret s1 (e, sp1)" "undo_ok s1" "undo_frame p s s1"
      "e = None \<Longrightarrow> sp1 = vec_at s1 p \<and> sp1 \<noteq> None \<and> adjust_ents ix (uint (sem_num q)) (sint (sem_op q)) (ents s p) = (None, ents s1 p)"
      "e \<noteq> None \<Longrightarrow> ents s1 p = ents s p \<and> (vec s p = None \<or> adjust_ents ix (uint (sem_num q)) (sint (sem_op q)) (ents s p) = (e, ents s p)) \<and>
        (sp1 = None \<and> vec_at s p = None \<or> sp1 = vec_at s1 p \<and> sp1 \<noteq> None)"
      using semundo_adjust_spec[OF Cons.prems(1) disjI2[OF sp(2)] op_nonzero(1)[OF False] num_range(1) small(2), where ix = ix]
      by metis
    have e: "e = None" using r(5) v es3' by fastforce
    have "adj_of (ents s1 p) = adj_of es1" using r(4)[OF e] es3' es3(2) by simp
    then obtain s2 where "undo_undos p ix dn sp1 s1 = Ret s2 ()" "undo_ok s2" "undo_frame p s1 s2" "adj_of (ents s2 p) = adj_of es0"
      using Cons.IH[OF r(2) e1(1) Cons.prems(3) _ small(1), of sp1] r(4)[OF e] by auto
    then show ?thesis using False r(1) e undo_frame_trans[OF r(3)] by auto
  qed
qed simp

lemma semop_undos_spec:
  "undo_ok s \<Longrightarrow> undo_steps ix dn es0 (ents s p) \<Longrightarrow> ents_wf es0 \<Longrightarrow> \<forall>q\<in>set dn \<union> set qs. small_num q \<Longrightarrow>
   sp = vec_at s p \<or> sp = None \<and> (\<forall>q\<in>set dn. no_undo q) \<Longrightarrow> sp = None \<longrightarrow> (\<forall>q\<in>set dn. no_undo q) \<Longrightarrow>
   \<exists>s' e. semop_undos p ix dn qs sp s = Ret s' e \<and> undo_ok s' \<and> undo_frame p s s' \<and>
     (e = None \<longrightarrow> undo_steps ix (rev qs @ dn) es0 (ents s' p)) \<and> (e \<noteq> None \<longrightarrow> adj_of (ents s' p) = adj_of es0)"
proof (induction qs arbitrary: dn sp s)
  case (Cons q qs)
  have small: "\<forall>q\<in>set dn. small_num q" "uint (sem_num q) < 32768" "\<forall>r\<in>set (q # dn) \<union> set qs. small_num r"
    using Cons.prems(4) by (auto simp: small_num_def)
  show ?case
  proof (cases "no_undo q")
    case True
    have "undo_steps ix (q # dn) es0 (ents s p)" using Cons.prems(2) True by simp
    from Cons.IH[OF Cons.prems(1) this Cons.prems(3) small(3), of sp] Cons.prems(5,6) True
    obtain s' e where r: "semop_undos p ix (q # dn) qs sp s = Ret s' e" "undo_ok s'" "undo_frame p s s'"
      "e = None \<longrightarrow> undo_steps ix (rev qs @ q # dn) es0 (ents s' p)" "e \<noteq> None \<longrightarrow> adj_of (ents s' p) = adj_of es0"
      by auto
    have "semop_undos p ix dn (q # qs) sp s = Ret s' e" using r(1) True by simp
    moreover have "rev (q # qs) @ dn = rev qs @ q # dn" by simp
    ultimately show ?thesis using r(2-5) by (metis (no_types))
  next
    case False
    obtain s1 e sp1 where r: "semundo_adjust p sp ix (uint (sem_num q)) (- sint (sem_op q)) s = Ret s1 (e, sp1)" "undo_ok s1" "undo_frame p s s1"
      "e = None \<Longrightarrow> sp1 = vec_at s1 p \<and> sp1 \<noteq> None \<and> adjust_ents ix (uint (sem_num q)) (- sint (sem_op q)) (ents s p) = (None, ents s1 p)"
      "e \<noteq> None \<Longrightarrow> ents s1 p = ents s p \<and> (vec s p = None \<or> adjust_ents ix (uint (sem_num q)) (- sint (sem_op q)) (ents s p) = (e, ents s p)) \<and>
        (sp1 = None \<and> vec_at s p = None \<or> sp1 = vec_at s1 p \<and> sp1 \<noteq> None)"
      using semundo_adjust_spec[OF Cons.prems(1) _ op_nonzero(2)[OF False] num_range(1) small(2), where p = p and sp = sp and ix = ix] Cons.prems(5)
      by metis
    show ?thesis
    proof (cases e)
      case None
      have "undo_steps ix (q # dn) es0 (ents s1 p)" using Cons.prems(2) False r(4)[OF None] by auto
      from Cons.IH[OF r(2) this Cons.prems(3) small(3), of sp1] r(4)[OF None]
      obtain s' e' where r': "semop_undos p ix (q # dn) qs sp1 s1 = Ret s' e'" "undo_ok s'" "undo_frame p s1 s'"
        "e' = None \<longrightarrow> undo_steps ix (rev qs @ q # dn) es0 (ents s' p)" "e' \<noteq> None \<longrightarrow> adj_of (ents s' p) = adj_of es0"
        by auto
      have "semop_undos p ix dn (q # qs) sp s = Ret s' e'" using r(1) r'(1) False None by simp
      moreover have "rev (q # qs) @ dn = rev qs @ q # dn" by simp
      ultimately show ?thesis using r'(2,4,5) undo_frame_trans[OF r(3) r'(3)] by (metis (no_types))
    next
      case (Some x)
      note f = r(5)[unfolded Some, simplified]
      have "sp1 \<noteq> None \<and> sp1 = vec_at s1 p \<or> (\<forall>q\<in>set dn. no_undo q)"
      proof (cases "sp = None")
        case True
        then show ?thesis using Cons.prems(6) by simp
      next
        case sp: False
        then have "vec_at s p \<noteq> None" using Cons.prems(5) by metis
        then show ?thesis using f by auto
      qed
      then obtain s2 where u: "undo_undos p ix dn sp1 s1 = Ret s2 ()" "undo_ok s2" "undo_frame p s1 s2" "adj_of (ents s2 p) = adj_of es0"
        using undo_undos_spec[OF r(2) Cons.prems(2,3) _ small(1), where p = p and sp = sp1] f by auto
      have "semop_undos p ix dn (q # qs) sp s = Ret s2 (Some x)" using r(1) u(1) False Some by simp
      then show ?thesis using u(2,4) undo_frame_trans[OF r(3) u(3)] by auto
    qed
  qed
qed auto

subsection \<open>Clearing and removing\<close>

lemma fold_upd_undo:
  "distinct is \<Longrightarrow> \<forall>i\<in>set is. i < length (ss_semu s) \<Longrightarrow>
   fold (\<lambda>i. upd_undo i f) is s = s\<lparr>ss_semu := ss_semu (fold (\<lambda>i. upd_undo i f) is s)\<rparr> \<and>
   length (ss_semu (fold (\<lambda>i. upd_undo i f) is s)) = length (ss_semu s) \<and>
   (\<forall>j. ss_semu (fold (\<lambda>i. upd_undo i f) is s) ! j = (if j \<in> set is then f (ss_semu s ! j) else ss_semu s ! j))"
proof (induction "is" arbitrary: s)
  case (Cons i "is")
  let ?s = "upd_undo i f s"
  have l: "length (ss_semu ?s) = length (ss_semu s)" by (simp add: upd_undo_def)
  note ih = Cons.IH[of ?s]
  have "distinct is" "\<forall>i\<in>set is. i < length (ss_semu ?s)" using Cons.prems l by auto
  note ih = ih[OF this]
  have n: "ss_semu ?s ! j = (if j = i then f (ss_semu s ! j) else ss_semu s ! j)" for j
    using Cons.prems by (simp add: upd_undo_def)
  have u: "?s\<lparr>ss_semu := us\<rparr> = s\<lparr>ss_semu := us\<rparr>" for us by (simp add: upd_undo_def)
  have "fold (\<lambda>i. upd_undo i f) (i # is) s = s\<lparr>ss_semu := ss_semu (fold (\<lambda>i. upd_undo i f) (i # is) s)\<rparr>"
    using conjunct1[OF ih] unfolding u fold.simps o_apply .
  moreover have "length (ss_semu (fold (\<lambda>i. upd_undo i f) (i # is) s)) = length (ss_semu s)" 
    using conjunct1[OF conjunct2[OF ih]] l by simp
  moreover have "ss_semu (fold (\<lambda>i. upd_undo i f) (i # is) s) ! j = (if j \<in> set (i # is) then f (ss_semu s ! j) else ss_semu s ! j)" for j
  proof -
    have "ss_semu (fold (\<lambda>i. upd_undo i f) (i # is) s) ! j = (if j \<in> set is then f (ss_semu ?s ! j) else ss_semu ?s ! j)"
      using conjunct2[OF conjunct2[OF ih]] by simp
    then show ?thesis using Cons.prems(1) n[of j] by auto
  qed
  ultimately show ?case by blast
qed simp

lemma semundo_clear_ok:
  fixes ix :: nat
  assumes "undo_ok s" "num = - 1 \<or> 0 \<le> num"
  defines "s' \<equiv> semundo_clear ix num s"
  shows "undo_ok s'" "vec s' p = map_option (clear_ents ix num 0) (vec s p)" "ss_semu_list s' = ss_semu_list s"
    "s' = s\<lparr>ss_semu := ss_semu s'\<rparr>" "length (ss_semu s') = length (ss_semu s)"
proof -
  let ?f = "\<lambda>u. u\<lparr>un_ent := clear_ents ix num 0 (un_ent u)\<rparr>"
  have d: "distinct (ss_semu_list s)" "\<forall>i\<in>set (ss_semu_list s). i < length (ss_semu s)"
    using assms(1) by (auto simp: undo_ok_def)
  note f = fold_upd_undo[OF d, of ?f, folded semundo_clear_def[of ix num s], folded s'_def]
  show e: "s' = s\<lparr>ss_semu := ss_semu s'\<rparr>" and l: "length (ss_semu s') = length (ss_semu s)" using f by auto
  show sl: "ss_semu_list s' = ss_semu_list s" by (subst e) simp
  have pr: "un_proc (ss_semu s' ! j) = un_proc (ss_semu s ! j)" for j using f by simp
  have en: "j \<in> set (ss_semu_list s) \<Longrightarrow> un_ent (ss_semu s' ! j) = clear_ents ix num 0 (un_ent (ss_semu s ! j))" for j
    using f by simp
  show "undo_ok s'"
    using assms(1) clear_ents_facts(1)[OF _ assms(2)] by (auto simp: undo_ok_def sl l pr en)
  have same: "find_undo q is (ss_semu s') = find_undo q is (ss_semu s)" for q "is"
    by (induction "is") (auto simp: pr)
  have "vec_at s' p = vec_at s p" by (simp add: vec_at_def sl same)
  moreover have "vec_at s p = Some i \<Longrightarrow> i \<in> set (ss_semu_list s)" for i using vec_at_iff[OF assms(1)] by simp
  ultimately show "vec s' p = map_option (clear_ents ix num 0) (vec s p)"
    by (cases "vec_at s p") (simp_all add: vec_def en)
qed

text \<open>A process gives its structure back.\<close>

lemma undo_remove_ok:
  assumes "undo_ok s" "vec_at s p = Some i"
  defines "s' \<equiv> upd_undo i (\<lambda>u. u\<lparr>un_proc := None\<rparr>) (s\<lparr>ss_semu_list := remove1 i (ss_semu_list s)\<rparr>)"
  shows "undo_ok s'" "vec s' = (vec s)(p := None)" "length (ss_semu s') = length (ss_semu s)"
proof -
  have i: "i \<in> set (ss_semu_list s)" "un_proc (ss_semu s ! i) = Some p" "i < length (ss_semu s)"
    using assms(1,2) vec_at_iff listed_lt by auto
  have sl: "ss_semu_list s' = remove1 i (ss_semu_list s)" by (simp add: s'_def upd_undo_def)
  show l: "length (ss_semu s') = length (ss_semu s)" by (simp add: s'_def upd_undo_def)
  have u: "ss_semu s' ! j = (if j = i then (ss_semu s ! i)\<lparr>un_proc := None\<rparr> else ss_semu s ! j)" for j
    using i by (simp add: s'_def upd_undo_def)
  have st: "set (remove1 i (ss_semu_list s)) = set (ss_semu_list s) - {i}" using assms(1) by (simp add: undo_ok_def)
  show ok: "undo_ok s'"
    using assms(1) by (auto simp: undo_ok_def sl l u st inj_on_def)
  show "vec s' = (vec s)(p := None)"
  proof
    fix q
    show "vec s' q = ((vec s)(p := None)) q"
    proof (cases "vec s q")
      case None
      then have "vec s' q = None" unfolding vec_None_iff by (auto simp: sl u st)
      then show ?thesis using None by auto
    next
      case (Some es)
      then obtain j where j: "j \<in> set (ss_semu_list s)" "un_proc (ss_semu s ! j) = Some q" "un_ent (ss_semu s ! j) = es"
        using vec_Some_iff[OF assms(1)] by blast
      show ?thesis
      proof (cases "q = p")
        case True
        have "\<forall>k\<in>set (ss_semu_list s'). un_proc (ss_semu s' ! k) \<noteq> Some p"
          using i assms(1) by (auto simp: sl st u undo_ok_def inj_on_def)
        then show ?thesis using True vec_None_iff by simp
      next
        case False
        then have "j \<noteq> i" using j i by auto
        then have "vec s' q = Some es" using vec_Some_iff[OF ok] j by (auto simp: sl st u)
        then show ?thesis using Some False by simp
      qed
    qed
  qed
qed

end
