(* ===== verification/Sem_Pool.thy ===== *)
theory Sem_Pool
  imports Sem_Undo
begin

text \<open>
  The pool of semaphores and the sets in it: what each operation of \<^verbatim>\<open>Sem.thy\<close> does to the semaphores
  of every set, and the invariant \<open>sem_inv\<close>, which all of them keep without a panic (\<open>good\<close>).
\<close>

subsection \<open>Additions to the pool\<close>

text \<open>Additions to the values of some semaphores.\<close>

definition shift_vals :: "nat \<Rightarrow> (sembuf \<Rightarrow> u16) \<Rightarrow> sembuf list \<Rightarrow> sem list \<Rightarrow> sem list" where
  "shift_vals base f qs = fold (\<lambda>q. upd_sem (base + unat (sem_num q)) (add_val (f q))) qs"

definition net_at :: "nat \<Rightarrow> (sembuf \<Rightarrow> u16) \<Rightarrow> sembuf list \<Rightarrow> nat \<Rightarrow> u16" where
  "net_at base f qs l = sum_list (map (\<lambda>q. if base + unat (sem_num q) = l then f q else 0) qs)"

lemma add_val_0 [simp]: "add_val 0 x = x"
  by (simp add: add_val_def)

lemma add_val_add [simp]: "add_val a (add_val b x) = add_val (b + a) x"
  by (simp add: add_val_def add.assoc)

lemma upd_sem_nth: "l < length pool \<Longrightarrow> upd_sem k f pool ! l = (if l = k then f (pool ! l) else pool ! l)"
  by (cases "k < length pool") (auto simp: upd_sem_def)

lemma length_upd_sem [simp]: "length (upd_sem k f pool) = length pool"
  by (simp add: upd_sem_def)

lemma shift_vals_Nil [simp]: "shift_vals base f [] pool = pool"
  by (simp add: shift_vals_def)

lemma shift_vals_Cons [simp]:
  "shift_vals base f (q # qs) pool = shift_vals base f qs (upd_sem (base + unat (sem_num q)) (add_val (f q)) pool)"
  by (simp add: shift_vals_def)

lemma length_shift_vals [simp]: "length (shift_vals base f qs pool) = length pool"
  by (induction qs arbitrary: pool) auto

lemma shift_vals_nth: "l < length pool \<Longrightarrow> shift_vals base f qs pool ! l = add_val (net_at base f qs l) (pool ! l)"
  by (induction qs arbitrary: pool) (auto simp: net_at_def upd_sem_nth)

lemma net_at_uminus: "net_at base (\<lambda>q. - f q) qs l = - net_at base f qs l"
  by (induction qs) (auto simp: net_at_def)

lemma roll_back_shift: "roll_back base qs = shift_vals base (\<lambda>q. - sem_op q) qs"
  by (simp add: roll_back_def shift_vals_def fun_eq_iff)

lemma roll_back_undoes: "roll_back base qs (shift_vals base sem_op qs pool) = pool"
  by (rule nth_equalityI) (simp_all add: roll_back_shift shift_vals_nth net_at_uminus)

text \<open>A pass adds the operations it went through.\<close>

lemma sint_u16_zero: "\<not> sint w < 0 \<Longrightarrow> w = 0 \<or> 0 < sint w" for w :: u16
  by (metis linorder_neqE_linordered_idom signed_eq_0_iff)

lemma semop_pass_Through:
  "semop_pass base n qs i wk un pool = Through pool' wk' un' \<Longrightarrow>
   pool' = shift_vals base sem_op qs pool \<and> (\<forall>q\<in>set qs. sem_num q < n) \<and>
   (un' \<longleftrightarrow> un \<or> (\<exists>q\<in>set qs. \<not> no_undo q)) "
proof (induction qs arbitrary: i wk un pool)
  case (Cons q qs)
  show ?case
  proof (cases "sem_op q = 0")
    case True
    then have u: "upd_sem (base + unat (sem_num q)) (add_val (sem_op q)) pool = pool"
      by (simp add: upd_sem_def)
    show ?thesis using Cons True unfolding shift_vals_Cons u
      by (fastforce simp: no_undo_def Let_def split: if_splits)
  next
    case False
    show ?thesis using Cons False
      by (fastforce simp: no_undo_def Let_def not_le split: if_splits)
  qed
qed simp

lemma semop_pass_Stuck:
  "semop_pass base n qs i wk un pool = Stuck pool' j un' \<Longrightarrow>
   i \<le> j \<and> j < i + length qs \<and> pool' = shift_vals base sem_op (take (j - i) qs) pool \<and>
   (\<forall>q\<in>set (take (j - i + 1) qs). sem_num q < n)"
proof (induction qs arbitrary: i wk un pool)
  case (Cons q qs)
  show ?case
  proof (cases "j = i")
    case True
    then have "pool' = pool \<and> sem_num q < n"
    proof -
      have "semop_pass base n qs (i + 1) wk2 un2 pool2 \<noteq> Stuck pool' i un'" for wk2 un2 pool2
        using Cons.IH[of "i + 1" wk2 un2 pool2] True by auto
      then show ?thesis using Cons.prems True by (auto simp: Let_def not_le split: if_splits)
    qed
    then show ?thesis using True by simp
  next
    case False
    obtain wk2 un2 where s: "semop_pass base n qs (i + 1) wk2 un2 (upd_sem (base + unat (sem_num q)) (add_val (sem_op q)) pool) = Stuck pool' j un'"
      "sem_num q < n"
    proof (cases "sem_op q = 0")
      case True
      then have u: "upd_sem (base + unat (sem_num q)) (add_val (sem_op q)) pool = pool" by (simp add: upd_sem_def)
      show thesis by (rule that[of wk un]) (use Cons.prems False True u[unfolded True] in \<open>auto simp: not_le split: if_splits\<close>)
    next
      case op: False
      show thesis using that Cons.prems False op by (auto simp: Let_def not_le split: if_splits)
    qed
    note ih = Cons.IH[OF s(1)]
    have "take (j - i) (q # qs) = q # take (j - (i + 1)) qs" "take (j - i + 1) (q # qs) = q # take (j - (i + 1) + 1) qs"
      using ih by (simp_all add: take_Cons' Suc_diff_Suc)
    then show ?thesis using ih s(2) by auto
  qed
qed simp

lemma semop_pass_OutOfRange:
  "semop_pass base n qs i wk un pool = OutOfRange pool' \<Longrightarrow> \<exists>q\<in>set qs. n \<le> sem_num q"
  by (induction qs arbitrary: i wk un pool) (auto simp: Let_def split: if_splits)

lemma semop_pass_length:
  "semop_pass base n qs i wk un pool = OutOfRange pool' \<Longrightarrow> length pool' = length pool"
  by (induction qs arbitrary: i wk un pool) (fastforce simp: Let_def split: if_splits)+

subsection \<open>The sets in the pool\<close>

definition ds_at :: "sem_state \<Rightarrow> nat \<Rightarrow> semid_ds" where "ds_at s ix = ss_sema s ! ix"
definition is_set :: "sem_state \<Rightarrow> nat \<Rightarrow> bool" where "is_set s ix \<longleftrightarrow> ix < length (ss_sema s) \<and> allocated (ss_sema s ! ix)"
definition ds_size :: "semid_ds \<Rightarrow> nat" where "ds_size d = unat (sem_nsems d)"

definition sem_keys :: "sem_state \<Rightarrow> (nat \<times> int) set" where
  "sem_keys s = {(ix, n). is_set s ix \<and> 0 \<le> n \<and> n < int (ds_size (ss_sema s ! ix))}"

text \<open>The place of a semaphore in the pool, and the semaphore.\<close>

definition sem_loc :: "sem_state \<Rightarrow> nat \<times> int \<Rightarrow> nat" where "sem_loc s k = sem_base (ss_sema s ! fst k) + nat (snd k)"
definition the_sem :: "sem_state \<Rightarrow> nat \<times> int \<Rightarrow> sem" where "the_sem s k = ss_sem s ! sem_loc s k"

definition pool_ok :: "sem_state \<Rightarrow> bool" where
  "pool_ok s \<longleftrightarrow>
     int (length (ss_sem s)) = semmns (ss_info s) \<and> semmns (ss_info s) \<le> 32767 \<and>
     0 \<le> ss_semtot s \<and> ss_semtot s \<le> semmns (ss_info s) \<and>
     (\<forall>ix. is_set s ix \<longrightarrow> 0 < ds_size (ss_sema s ! ix) \<and>
        sem_base (ss_sema s ! ix) + ds_size (ss_sema s ! ix) \<le> nat (ss_semtot s)) \<and>
     (\<forall>ix jx. is_set s ix \<and> is_set s jx \<and> ix \<noteq> jx \<longrightarrow>
        sem_base (ss_sema s ! ix) + ds_size (ss_sema s ! ix) \<le> sem_base (ss_sema s ! jx) \<or>
        sem_base (ss_sema s ! jx) + ds_size (ss_sema s ! jx) \<le> sem_base (ss_sema s ! ix)) \<and>
     ss_semtot s = (\<Sum>ix | is_set s ix. int (ds_size (ss_sema s ! ix)))"

definition ents_ok :: "sem_state \<Rightarrow> bool" where
  "ents_ok s \<longleftrightarrow> (\<forall>p. ent_key ` set (ents s p) \<subseteq> sem_keys s)"

definition sem_inv :: "sem_state \<Rightarrow> bool" where
  "sem_inv s \<longleftrightarrow> pool_ok s \<and> undo_ok s \<and> ents_ok s"

lemma pool_block:
  "pool_ok s \<Longrightarrow> is_set s ix \<Longrightarrow>
   0 < ds_size (ss_sema s ! ix) \<and> sem_base (ss_sema s ! ix) + ds_size (ss_sema s ! ix) \<le> nat (ss_semtot s)"
  unfolding pool_ok_def by blast

lemma pool_disjoint:
  "pool_ok s \<Longrightarrow> is_set s ix \<Longrightarrow> is_set s jx \<Longrightarrow> ix \<noteq> jx \<Longrightarrow>
   sem_base (ss_sema s ! ix) + ds_size (ss_sema s ! ix) \<le> sem_base (ss_sema s ! jx) \<or>
   sem_base (ss_sema s ! jx) + ds_size (ss_sema s ! jx) \<le> sem_base (ss_sema s ! ix)"
  unfolding pool_ok_def by blast

lemma pool_sizes:
  "pool_ok s \<Longrightarrow> int (length (ss_sem s)) = semmns (ss_info s)" "pool_ok s \<Longrightarrow> semmns (ss_info s) \<le> 32767"
  "pool_ok s \<Longrightarrow> 0 \<le> ss_semtot s" "pool_ok s \<Longrightarrow> ss_semtot s \<le> semmns (ss_info s)"
  "pool_ok s \<Longrightarrow> ss_semtot s = (\<Sum>ix | is_set s ix. int (ds_size (ss_sema s ! ix)))"
  unfolding pool_ok_def by blast+

lemma sem_loc_lt: "pool_ok s \<Longrightarrow> k \<in> sem_keys s \<Longrightarrow> sem_loc s k < nat (ss_semtot s)"
  by (fastforce simp: pool_ok_def sem_keys_def sem_loc_def)

lemma sem_loc_length: "pool_ok s \<Longrightarrow> k \<in> sem_keys s \<Longrightarrow> sem_loc s k < length (ss_sem s)"
  using sem_loc_lt[of s k] by (auto simp: pool_ok_def)

lemma sem_loc_inj:
  assumes "pool_ok s" "k \<in> sem_keys s" "k' \<in> sem_keys s" "sem_loc s k = sem_loc s k'"
  shows "k = k'"
proof -
  obtain ix n jx m where k: "k = (ix, n)" "k' = (jx, m)" by (cases k, cases k') auto
  have i: "is_set s ix" "0 \<le> n" "nat n < ds_size (ss_sema s ! ix)" "is_set s jx" "0 \<le> m" "nat m < ds_size (ss_sema s ! jx)"
    using assms(2,3) k by (auto simp: sem_keys_def)
  have e: "sem_base (ss_sema s ! ix) + nat n = sem_base (ss_sema s ! jx) + nat m"
    using assms(4) k by (simp add: sem_loc_def)
  have "ix = jx"
  proof (rule ccontr)
    assume "ix \<noteq> jx"
    then have "sem_base (ss_sema s ! ix) + ds_size (ss_sema s ! ix) \<le> sem_base (ss_sema s ! jx) \<or>
        sem_base (ss_sema s ! jx) + ds_size (ss_sema s ! jx) \<le> sem_base (ss_sema s ! ix)"
      using assms(1) i by (simp add: pool_ok_def)
    then show False using e i by linarith
  qed
  then show ?thesis using k e i by simp
qed

text \<open>States with the same sets.\<close>

lemma same_sets:
  assumes "ss_sema s' = ss_sema s"
  shows "is_set s' = is_set s" "sem_keys s' = sem_keys s" "sem_loc s' = sem_loc s"
  using assms by (simp_all add: is_set_def sem_keys_def sem_loc_def fun_eq_iff)

lemma pool_ok_cong:
  "ss_sema s' = ss_sema s \<Longrightarrow> length (ss_sem s') = length (ss_sem s) \<Longrightarrow> ss_semtot s' = ss_semtot s \<Longrightarrow>
   ss_info s' = ss_info s \<Longrightarrow> pool_ok s' = pool_ok s"
  by (simp add: pool_ok_def is_set_def)

lemma undo_ok_cong: "ss_semu s' = ss_semu s \<Longrightarrow> ss_semu_list s' = ss_semu_list s \<Longrightarrow> undo_ok s' = undo_ok s"
  by (simp add: undo_ok_def)

lemma vec_cong:
  assumes "ss_semu s' = ss_semu s" "ss_semu_list s' = ss_semu_list s"
  shows "vec s' = vec s" "vec_at s' = vec_at s" "ents s' = ents s"
  using assms by (simp_all add: vec_def vec_at_def ents_def fun_eq_iff)

lemma sem_inv_cong:
  "ss_sema s' = ss_sema s \<Longrightarrow> length (ss_sem s') = length (ss_sem s) \<Longrightarrow> ss_semtot s' = ss_semtot s \<Longrightarrow>
   ss_info s' = ss_info s \<Longrightarrow> ss_semu s' = ss_semu s \<Longrightarrow> ss_semu_list s' = ss_semu_list s \<Longrightarrow> sem_inv s' = sem_inv s"
  using pool_ok_cong[of s' s] undo_ok_cong[of s' s] vec_cong(3)[of s' s] same_sets(2)[of s' s]
  by (simp add: sem_inv_def ents_ok_def)

subsection \<open>One turn of semop\<close>

definition set_pids :: "nat \<Rightarrow> int \<Rightarrow> sembuf list \<Rightarrow> sem list \<Rightarrow> sem list" where
  "set_pids base p qs = fold (\<lambda>q. upd_sem (base + unat (sem_num q)) (\<lambda>x. x\<lparr>sempid := p\<rparr>)) qs"

lemma set_pids_facts:
  "length (set_pids base p qs pool) = length pool \<and>
   (\<forall>l<length pool. semval (set_pids base p qs pool ! l) = semval (pool ! l) \<and>
      semncnt (set_pids base p qs pool ! l) = semncnt (pool ! l) \<and> semzcnt (set_pids base p qs pool ! l) = semzcnt (pool ! l))"
proof (induction qs arbitrary: pool)
  case (Cons q qs)
  let ?p = "upd_sem (base + unat (sem_num q)) (\<lambda>x. x\<lparr>sempid := p\<rparr>) pool"
  have "set_pids base p (q # qs) pool = set_pids base p qs ?p" by (simp add: set_pids_def)
  then show ?case using Cons.IH[of ?p] by (auto simp: upd_sem_nth)
qed (simp add: set_pids_def)

lemma length_set_pids [simp]: "length (set_pids base p qs pool) = length pool"
  using set_pids_facts by blast

lemma undo_steps_none: "\<forall>q\<in>set dn. no_undo q \<Longrightarrow> undo_steps ix dn es es' \<longleftrightarrow> es' = es"
  by (induction dn arbitrary: es') auto

lemma small_nums:
  assumes "pool_ok s" "is_set s ix" "\<forall>q\<in>set qs. sem_num q < sem_nsems (ss_sema s ! ix)"
  shows "\<forall>q\<in>set qs. small_num q" "\<forall>q\<in>set qs. (ix, uint (sem_num q)) \<in> sem_keys s"
proof -
  have "int (ds_size (ss_sema s ! ix)) \<le> 32767" using assms(1,2) by (fastforce simp: pool_ok_def)
  then have n: "uint (sem_nsems (ss_sema s ! ix)) \<le> 32767" by (simp add: ds_size_def)
  have u: "\<forall>q\<in>set qs. uint (sem_num q) < uint (sem_nsems (ss_sema s ! ix))" using assms(3) by (simp add: word_less_def)
  show "\<forall>q\<in>set qs. small_num q" using u n by (fastforce simp: small_num_def)
  show "\<forall>q\<in>set qs. (ix, uint (sem_num q)) \<in> sem_keys s" using u assms(2) by (simp add: sem_keys_def ds_size_def)
qed

lemma undo_frame_sem:
  assumes "undo_frame p (s\<lparr>ss_sem := pool\<rparr>) s1"
  shows "undo_frame p s (s1\<lparr>ss_sem := ss_sem s\<rparr>)"
proof -
  have v: "vec (s\<lparr>ss_sem := x\<rparr>) = vec s" for s :: sem_state and x by (rule vec_cong) simp_all
  show ?thesis using assms undo_frame_fields[OF assms] unfolding undo_frame_def v by auto
qed

lemma semop_turn_outcome:
  assumes "sem_inv s" "ix = IPCID_TO_IX semid" "is_set s ix"
  defines "d \<equiv> ss_sema s ! ix"
  obtains
    (range) pool where "semop_turn p semid sops un0 s = sem_fail EFBIG (s\<lparr>ss_sem := pool\<rparr>)" "length pool = length (ss_sem s)"
      "\<exists>q\<in>set sops. sem_nsems d \<le> sem_num q"
  | (again) pool i un where "semop_pass (sem_base d) (sem_nsems d) sops 0 False un0 (ss_sem s) = Stuck pool i un"
      "i < length sops" "has (sem_flg (sops ! i)) IPC_NOWAIT" "semop_turn p semid sops un0 s = sem_fail EAGAIN s"
  | (sleep) pool i un k where "semop_pass (sem_base d) (sem_nsems d) sops 0 False un0 (ss_sem s) = Stuck pool i un"
      "i < length sops" "\<not> has (sem_flg (sops ! i)) IPC_NOWAIT" "k = sem_base d + unat (sem_num (sops ! i))"
      "sem_num (sops ! i) < sem_nsems d"
      "semop_turn p semid sops un0 s =
         Some (Sleeps (s\<lparr>ss_sem := upd_sem k (wait_count (\<lambda>n. n + 1) (sops ! i)) (ss_sem s)\<rparr>) (InSemop semid sops k i un))"
  | (failed) wk un e s' where
      "semop_pass (sem_base d) (sem_nsems d) sops 0 False un0 (ss_sem s) = Through (shift_vals (sem_base d) sem_op sops (ss_sem s)) wk un"
      "\<forall>q\<in>set sops. sem_num q < sem_nsems d" "un"
      "semop_turn p semid sops un0 s = sem_fail e s'" "undo_frame p s s'" "undo_ok s'" "adj_of (ents s' p) = adj_of (ents s p)"
  | (through) wk un s1 s2 where
      "semop_pass (sem_base d) (sem_nsems d) sops 0 False un0 (ss_sem s) = Through (shift_vals (sem_base d) sem_op sops (ss_sem s)) wk un"
      "\<forall>q\<in>set sops. sem_num q < sem_nsems d"
      "undo_frame p s s1" "undo_ok s1" "undo_steps ix (rev sops) (ents s p) (ents s1 p)"
      "s2 = s1\<lparr>ss_sem := set_pids (sem_base d) p sops (shift_vals (sem_base d) sem_op sops (ss_sem s))\<rparr>"
      "semop_turn p semid sops un0 s = sem_ok 0 (if wk then sem_wakeup (SemSet ix) s2 else s2)"
proof (cases "semop_pass (sem_base d) (sem_nsems d) sops 0 False un0 (ss_sem s)")
  case (OutOfRange pool)
  have "semop_turn p semid sops un0 s = sem_fail EFBIG (s\<lparr>ss_sem := pool\<rparr>)"
    using OutOfRange assms(2) by (simp add: semop_turn_def d_def)
  then show ?thesis using range semop_pass_length[OF OutOfRange] semop_pass_OutOfRange[OF OutOfRange] by blast
next
  case (Stuck pool i un)
  note st = semop_pass_Stuck[OF Stuck]
  have pool: "roll_back (sem_base d) (take i sops) pool = ss_sem s" using st roll_back_undoes by simp
  have "sops ! i \<in> set (take (i - 0 + 1) sops)" using st by (simp add: in_set_conv_nth) (metis lessI nth_take)
  then have num: "sem_num (sops ! i) < sem_nsems d" using st by blast
  show ?thesis
  proof (cases "has (sem_flg (sops ! i)) IPC_NOWAIT")
    case True
    then have "semop_turn p semid sops un0 s = sem_fail EAGAIN s"
      using Stuck assms(2) pool by (simp add: semop_turn_def d_def Let_def)
    then show ?thesis using again Stuck st True by simp
  next
    case False
    then have "semop_turn p semid sops un0 s =
         Some (Sleeps (s\<lparr>ss_sem := upd_sem (sem_base d + unat (sem_num (sops ! i))) (wait_count (\<lambda>n. n + 1) (sops ! i)) (ss_sem s)\<rparr>)
           (InSemop semid sops (sem_base d + unat (sem_num (sops ! i))) i un))"
      using Stuck assms(2) pool by (simp add: semop_turn_def d_def Let_def)
    then show ?thesis using sleep Stuck st num False by simp
  qed
next
  case (Through pool wk un)
  note th = semop_pass_Through[OF Through]
  have inv: "pool_ok s" "undo_ok s" using assms(1) by (auto simp: sem_inv_def)
  have small: "\<forall>q\<in>set sops. small_num q" using small_nums(1)[OF inv(1) assms(3), of sops] th unfolding d_def by blast
  let ?s1 = "s\<lparr>ss_sem := pool\<rparr>"
  have ok1: "undo_ok ?s1" using inv(2) undo_ok_cong[of ?s1 s] by simp
  have en1: "ents ?s1 p = ents s p" using vec_cong(3)[of ?s1 s] by simp
  have t: "semop_turn p semid sops un0 s = semop_done p ix sops wk un ?s1"
    using Through assms(2) by (simp add: semop_turn_def d_def Let_def)
  obtain s2 e where u: "(if un then semop_undos p ix [] sops None ?s1 else Ret ?s1 None) = Ret s2 e" "undo_ok s2" "undo_frame p ?s1 s2"
      "e = None \<longrightarrow> undo_steps ix (rev sops) (ents s p) (ents s2 p)" "e \<noteq> None \<longrightarrow> adj_of (ents s2 p) = adj_of (ents s p)" "e \<noteq> None \<longrightarrow> un"
  proof (cases un)
    case True
    have "undo_steps ix [] (ents s p) (ents ?s1 p)" using en1 by simp
    from semop_undos_spec[OF ok1 this ents_wf_ents[OF inv(2)], of sops None] small
    show thesis using that True by auto
  next
    case False
    then have "\<forall>q\<in>set (rev sops). no_undo q" using th by auto
    then show thesis using that[of ?s1 None] False ok1 en1 undo_steps_none by simp
  qed
  note fr = undo_frame_fields[OF u(3)]
  show ?thesis
  proof (cases e)
    case (Some x)
    let ?s3 = "s2\<lparr>ss_sem := ss_sem s\<rparr>"
    have "roll_back (sem_base d) sops (ss_sem s2) = ss_sem s" using fr(2) th roll_back_undoes by simp
    then have "semop_turn p semid sops un0 s = sem_fail x ?s3"
      using t u(1) Some by (simp add: semop_done_def d_def)
    moreover have "undo_frame p s ?s3" using u(3) by (rule undo_frame_sem)
    moreover have "undo_ok ?s3" "ents ?s3 p = ents s2 p" using u(2) undo_ok_cong[of ?s3 s2] vec_cong(3)[of ?s3 s2] by simp_all
    ultimately show ?thesis using failed[of wk un ?s3 x] Through th u(5,6) Some by simp
  next
    case None
    let ?s3 = "s2\<lparr>ss_sem := ss_sem s\<rparr>"
    have f: "undo_frame p s ?s3" using u(3) by (rule undo_frame_sem)
    have k: "undo_ok ?s3" "ents ?s3 p = ents s2 p" using u(2) undo_ok_cong[of ?s3 s2] vec_cong(3)[of ?s3 s2] by simp_all
    have "semop_turn p semid sops un0 s =
        sem_ok 0 (if wk then sem_wakeup (SemSet ix) (?s3\<lparr>ss_sem := set_pids (sem_base d) p sops (shift_vals (sem_base d) sem_op sops (ss_sem s))\<rparr>)
                  else ?s3\<lparr>ss_sem := set_pids (sem_base d) p sops (shift_vals (sem_base d) sem_op sops (ss_sem s))\<rparr>)"
      unfolding conjunct1[OF th, symmetric] using t u(1) None fr(2) by (simp add: semop_done_def d_def set_pids_def Let_def)
    then show ?thesis using through[OF _ _ f k(1) _ refl] Through th u(4) None k(2) by simp
  qed
qed

subsection \<open>What keeps the invariant\<close>

lemma ent_keys_adj: "ents_wf es \<Longrightarrow> ent_key ` set es = {k. adj_of es k \<noteq> 0}"
  using adj_of_eq_0 by blast

lemma undo_frame_inv:
  assumes "sem_inv s" "undo_frame p s s'" "undo_ok s'" "ent_key ` set (ents s' p) \<subseteq> sem_keys s"
  shows "sem_inv s'"
proof -
  note f = undo_frame_fields[OF assms(2)]
  have "pool_ok s'" using assms(1) pool_ok_cong[of s' s] f by (simp add: sem_inv_def)
  moreover have "ents_ok s'"
    unfolding ents_ok_def same_sets(2)[OF f(1)]
  proof
    fix q
    show "ent_key ` set (ents s' q) \<subseteq> sem_keys s"
    proof (cases "q = p")
      case False
      then show ?thesis using undo_frame_ents[OF assms(2) False] assms(1) by (auto simp: sem_inv_def ents_ok_def)
    qed (use assms(4) in simp)
  qed
  ultimately show ?thesis using assms(3) by (simp add: sem_inv_def)
qed

subsection \<open>Outcomes\<close>

text \<open>The call does not panic and keeps the invariant, the configuration and the size of the table of sets.\<close>

definition keeps :: "sem_state \<Rightarrow> sem_state \<Rightarrow> bool" where
  "keeps s s' \<longleftrightarrow> sem_inv s' \<and> ss_info s' = ss_info s \<and> length (ss_sema s') = length (ss_sema s)"

definition good :: "sem_state \<Rightarrow> sem_outcome \<Rightarrow> bool" where
  "good s r \<longleftrightarrow> (case r of None \<Rightarrow> True | Some (Ret s' v) \<Rightarrow> keeps s s' | Some (Sleeps s' w) \<Rightarrow> keeps s s' | Some Panics \<Rightarrow> False)"

lemma good_simps [simp]:
  "good s (Some (Ret s' v)) = keeps s s'" "good s (Some (Sleeps s' w)) = keeps s s'" "good s None" "\<not> good s (Some Panics)"
  by (simp_all add: good_def)

lemma keeps_refl [simp]: "keeps s s \<longleftrightarrow> sem_inv s"
  by (simp add: keeps_def)

lemma keeps_trans: "keeps s s1 \<Longrightarrow> keeps s1 s2 \<Longrightarrow> keeps s s2"
  by (simp add: keeps_def)

lemma sem_wakeup_fields [simp]:
  "ss_sema (sem_wakeup c s) = ss_sema s" "ss_sem (sem_wakeup c s) = ss_sem s" "ss_semtot (sem_wakeup c s) = ss_semtot s"
  "ss_info (sem_wakeup c s) = ss_info s" "ss_semu (sem_wakeup c s) = ss_semu s" "ss_semu_list (sem_wakeup c s) = ss_semu_list s"
  "ss_holder (sem_wakeup c s) = ss_holder s"
  by (simp_all add: sem_wakeup_def)

lemma sem_inv_wakeup [simp]: "sem_inv (sem_wakeup c s) = sem_inv s"
  by (rule sem_inv_cong) simp_all

lemma keeps_wakeup [simp]: "keeps s (sem_wakeup c s') = keeps s s'"
  by (simp add: keeps_def)

lemma keeps_holder [simp]: "keeps s (s'\<lparr>ss_holder := h\<rparr>) = keeps s s'"
  by (simp add: keeps_def sem_inv_cong[of "s'\<lparr>ss_holder := h\<rparr>" s'])

lemma keeps_sem [simp]: "length pool = length (ss_sem s') \<Longrightarrow> keeps s (s'\<lparr>ss_sem := pool\<rparr>) = keeps s s'"
  by (simp add: keeps_def sem_inv_cong[of "s'\<lparr>ss_sem := pool\<rparr>" s'])

lemma good_semlock: "sem_inv s \<Longrightarrow> (\<not> semlock_waits p s \<Longrightarrow> good s (body s)) \<Longrightarrow> good s (semlock p c body s)"
  by (simp add: semlock_def)

lemma good_semconfig: "sem_inv s \<Longrightarrow> good s (sys_semconfig p flag s)"
  unfolding sys_semconfig_def by (rule good_semlock) simp_all

subsection \<open>semop\<close>

lemma good_semop_turn:
  assumes "sem_inv s" "ix = IPCID_TO_IX semid" "is_set s ix"
  shows "good s (semop_turn p semid sops un0 s)"
  using assms
proof (cases rule: semop_turn_outcome[where p = p and sops = sops and ?un0.0 = un0])
  case (range pool)
  then show ?thesis using assms(1) by simp
next
  case (again pool i un)
  then show ?thesis using assms(1) by simp
next
  case (sleep pool i un k)
  then show ?thesis using assms(1) by simp
next
  case (failed wk un e s')
  have "ent_key ` set (ents s' p) = ent_key ` set (ents s p)"
    using failed(6,7) assms(1) by (simp add: ent_keys_adj ents_wf_ents sem_inv_def)
  then have "sem_inv s'" using undo_frame_inv[OF assms(1) failed(5,6)] assms(1) by (simp add: sem_inv_def ents_ok_def)
  then show ?thesis using failed(4) undo_frame_fields[OF failed(5)] by (simp add: keeps_def)
next
  case (through wk un s1 s2)
  note sn = small_nums[OF _ assms(3) through(2)]
  have inv: "pool_ok s" "undo_ok s" "ents_ok s" using assms(1) by (auto simp: sem_inv_def)
  have "\<forall>q\<in>set (rev sops). small_num q" using sn(1)[OF inv(1)] by simp
  from conjunct2[OF conjunct2[OF undo_steps_facts[OF through(5) ents_wf_ents[OF inv(2)] this]]]
  have "ent_key ` set (ents s1 p) \<subseteq> ent_key ` set (ents s p) \<union> {(ix, uint (sem_num q)) | q. q \<in> set (rev sops)}" .
  moreover have "ent_key ` set (ents s p) \<subseteq> sem_keys s" using inv(3) by (simp add: ents_ok_def)
  moreover have "{(ix, uint (sem_num q)) | q. q \<in> set (rev sops)} \<subseteq> sem_keys s" using sn(2)[OF inv(1)] by auto
  ultimately have "ent_key ` set (ents s1 p) \<subseteq> sem_keys s" by blast
  then have k: "keeps s s1" using undo_frame_inv[OF assms(1) through(3,4)] undo_frame_fields[OF through(3)] by (simp add: keeps_def)
  have "length (set_pids (sem_base (ss_sema s ! ix)) p sops (shift_vals (sem_base (ss_sema s ! ix)) sem_op sops (ss_sem s))) = length (ss_sem s1)"
    using undo_frame_fields[OF through(3)] by simp
  then have "keeps s s2" using k through(6) by simp
  then show ?thesis using through(7) by simp
qed

lemma good_with_set: "sem_inv s \<Longrightarrow> (\<And>ix. ix = IPCID_TO_IX semid \<Longrightarrow> is_set s ix \<Longrightarrow> good s (body ix)) \<Longrightarrow> good s (with_set semid body s)"
  by (simp add: with_set_def Let_def sem_alive_def is_set_def)

lemma good_semop: "sem_inv s \<Longrightarrow> good s (sys_semop p cred semid nsops user s)"
  unfolding sys_semop_def
proof (rule good_semlock)
  show "good s (with_set semid (\<lambda>ix. case ipcperm cred (sem_perm (ss_sema s ! ix)) IPC_W of
         Some e \<Rightarrow> sem_fail e s
       | None \<Rightarrow>
           if sint nsops > MAX_SOPS then sem_fail E2BIG s
           else if sops_size nsops > nat (6 * MAX_SOPS) \<and> length user > nat MAX_SOPS then None
           else if sops_size nsops > 6 * length user then sem_fail EFAULT s
           else semop_turn p semid (take (nat (sint nsops)) user) False s) s)" if "sem_inv s"
    by (rule good_with_set[OF that]) (use that in \<open>simp add: good_semop_turn split: option.split\<close>)
qed

lemma good_semop_resume:
  assumes "sem_inv s" "IPCID_TO_IX semid < length (ss_sema s)"
  shows "good s (semop_resume p semid sops k i un err s)"
proof -
  let ?s = "s\<lparr>ss_sem := upd_sem k (wait_count (\<lambda>n. n - 1) (sops ! i)) (ss_sem s)\<rparr>"
  have k: "keeps s ?s" using assms(1) by simp
  have "sem_alive semid (IPCID_TO_IX semid) s \<Longrightarrow> is_set ?s (IPCID_TO_IX semid)"
    using assms(2) by (simp add: sem_alive_def is_set_def)
  then have "sem_alive semid (IPCID_TO_IX semid) s \<Longrightarrow> good ?s (semop_turn p semid sops un ?s)"
    using good_semop_turn[OF _ refl] k by (simp add: keeps_def)
  then have "sem_alive semid (IPCID_TO_IX semid) s \<Longrightarrow> good s (semop_turn p semid sops un ?s)"
    using keeps_trans[OF k] by (auto simp: good_def split: option.splits kout.splits)
  then show ?thesis using assms(1) by (simp add: semop_resume_def)
qed

subsection \<open>semget\<close>

lemma has_alloc_or [simp]: "has (w OR SEM_ALLOC) SEM_ALLOC"
proof -
  have "(w OR SEM_ALLOC) AND SEM_ALLOC = SEM_ALLOC" by (simp add: bit_eq_iff bit_simps)
  then show ?thesis by (simp add: has_def SEM_ALLOC_def)
qed

lemma has_alloc_set [simp]: "has ((w AND NOT 511) OR (m AND 511)) SEM_ALLOC = has w SEM_ALLOC"
proof -
  have "((w AND NOT c) OR (m AND c)) AND a = w AND a" if "c AND a = 0" for c a :: u16
  proof (rule bit_word_eqI)
    fix n assume "n < LENGTH(16)"
    have "\<not> bit (c AND a) n" using that by simp
    then show "bit (((w AND NOT c) OR (m AND c)) AND a) n = bit (w AND a) n"
      using \<open>n < LENGTH(16)\<close> by (auto simp: bit_and_iff bit_or_iff bit_not_iff)
  qed
  from this[of 511 SEM_ALLOC] have "((w AND NOT 511) OR (m AND 511)) AND SEM_ALLOC = w AND SEM_ALLOC"
    by (simp add: SEM_ALLOC_def)
  then show ?thesis by (simp add: has_def)
qed

lemma find_ds_Some: "find_ds P n ds = Some i \<Longrightarrow> n \<le> i \<and> i < n + length ds \<and> P (ds ! (i - n))"
proof (induction ds arbitrary: n)
  case (Cons d ds)
  show ?case
  proof (cases "P d")
    case False
    then have "find_ds P (n + 1) ds = Some i" using Cons.prems by simp
    from Cons.IH[OF this] have r: "n + 1 \<le> i" "i < n + 1 + length ds" "P (ds ! (i - (n + 1)))" by auto
    have "(d # ds) ! (i - n) = ds ! (i - (n + 1))" using r(1) by (simp add: nth_Cons')
    then show ?thesis using r by simp
  qed (use Cons.prems in auto)
qed simp

lemma find_ds_0: "find_ds P 0 ds = Some i \<Longrightarrow> i < length ds \<and> P (ds ! i)"
  using find_ds_Some[of P 0 ds i] by simp

lemma clear_block_nth:
  "l < length pool \<Longrightarrow> fold (\<lambda>k. upd_sem k (\<lambda>_. z)) [a..<b] pool ! l = (if a \<le> l \<and> l < b then z else pool ! l)"
proof (induction b)
  case (Suc b)
  have len: "length (fold (\<lambda>k. upd_sem k (\<lambda>_. z)) [a..<b] pool) = length pool" for b
    by (induction b) (simp_all)
  show ?case using Suc by (cases "a \<le> b") (auto simp: upd_sem_nth len)
qed simp

lemma length_clear_block [simp]: "length (fold (\<lambda>k. upd_sem k (\<lambda>_. z)) ks pool) = length pool"
  by (induction ks arbitrary: pool) simp_all

text \<open>A new set has zeroed semaphores, and nothing else changes.\<close>

lemma sem_new_spec:
  fixes cred :: ucred and key :: int and semflg :: u16
  assumes "sem_inv s" "ix < length (ss_sema s)" "\<not> allocated (ss_sema s ! ix)" "0 < nsems" "nsems \<le> semmns (ss_info s) - ss_semtot s"
  defines "s' \<equiv> sem_new cred key nsems semflg ix s"
  shows "keeps s s'" "sem_keys s' = sem_keys s \<union> {ix} \<times> {0..<nsems}" "\<And>k. k \<in> sem_keys s \<Longrightarrow> the_sem s' k = the_sem s k"
    "\<And>n. n \<in> {0..<nsems} \<Longrightarrow> the_sem s' (ix, n) = \<lparr>semval = 0, sempid = 0, semncnt = 0, semzcnt = 0\<rparr>"
    "vec s' = vec s" "\<And>jx. jx \<noteq> ix \<Longrightarrow> ss_sema s' ! jx = ss_sema s ! jx" "is_set s' ix"
    "ss_semtot s' = ss_semtot s + nsems" "ss_holder s' = ss_holder s" "ss_wakeups s' = ss_wakeups s"
proof -
  have po: "pool_ok s" using assms(1) by (simp add: sem_inv_def)
  then have pf: "int (length (ss_sem s)) = semmns (ss_info s)" "semmns (ss_info s) \<le> 32767" "0 \<le> ss_semtot s"
      "ss_semtot s \<le> semmns (ss_info s)" by (use pool_sizes(1-4)[OF po] in auto)
  let ?d = "ss_sema s' ! ix"
  have sema: "ss_sema s' = (ss_sema s)[ix := ?d]" and len: "length (ss_sem s') = length (ss_sem s)"
    and d: "allocated ?d" "sem_base ?d = nat (ss_semtot s)" "sem_nsems ?d = of_int nsems"
    and rest: "ss_info s' = ss_info s" "ss_semu s' = ss_semu s" "ss_semu_list s' = ss_semu_list s"
    using assms(2) by (simp_all add: s'_def sem_new_def upd_ds_def Let_def allocated_def)
  show tot: "ss_semtot s' = ss_semtot s + nsems" "ss_holder s' = ss_holder s" "ss_wakeups s' = ss_wakeups s"
    by (simp_all add: s'_def sem_new_def upd_ds_def Let_def)
  have lsem: "length (ss_sema s') = length (ss_sema s)" by (subst sema) simp
  have nn: "nsems < 65536" using assms(5) pf by linarith
  have size: "ds_size ?d = nat nsems"
    using d(3) assms(4) nn by (simp add: ds_size_def unsigned_of_int take_bit_int_eq_self)
  show other: "jx \<noteq> ix \<Longrightarrow> ss_sema s' ! jx = ss_sema s ! jx" for jx by (subst sema) simp
  show set_ix: "is_set s' ix" using d(1) lsem assms(2) by (simp add: is_set_def)
  have sets: "is_set s' jx \<longleftrightarrow> jx = ix \<or> is_set s jx" for jx
    using set_ix other[of jx] assms(3) lsem by (cases "jx = ix") (auto simp: is_set_def)
  have nset: "\<not> is_set s ix" using assms(3) by (simp add: is_set_def)
  have ss: "{jx. is_set s' jx} = insert ix {jx. is_set s jx}" using sets by auto
  have fin: "finite {jx. is_set s jx}" by (rule finite_subset[of _ "{..<length (ss_sema s)}"]) (auto simp: is_set_def)
  show keys: "sem_keys s' = sem_keys s \<union> {ix} \<times> {0..<nsems}"
  proof (rule set_eqI)
    fix k :: "nat \<times> int"
    obtain jx n where k: "k = (jx, n)" by (cases k)
    show "k \<in> sem_keys s' \<longleftrightarrow> k \<in> sem_keys s \<union> {ix} \<times> {0..<nsems}"
      using k sets[of jx] nset other[of jx] size assms(4) by (cases "jx = ix") (auto simp: sem_keys_def)
  qed
  have po': "pool_ok s'"
    unfolding pool_ok_def
  proof (intro conjI allI impI)
    have "(\<Sum>jx | is_set s' jx. int (ds_size (ss_sema s' ! jx))) = nsems + (\<Sum>jx | is_set s jx. int (ds_size (ss_sema s' ! jx)))"
      using fin nset size assms(4) by (simp add: ss)
    also have "(\<Sum>jx | is_set s jx. int (ds_size (ss_sema s' ! jx))) = (\<Sum>jx | is_set s jx. int (ds_size (ss_sema s ! jx)))"
      by (rule sum.cong) (use nset other in \<open>simp_all, metis\<close>)
    finally show "ss_semtot s' = (\<Sum>jx | is_set s' jx. int (ds_size (ss_sema s' ! jx)))" using pool_sizes(5)[OF po] tot(1) by simp
  next
    fix jx assume "is_set s' jx"
    then show "0 < ds_size (ss_sema s' ! jx)" using pool_block[OF po] sets other size assms(4) by (cases "jx = ix") auto
  next
    fix jx assume a: "is_set s' jx"
    show "sem_base (ss_sema s' ! jx) + ds_size (ss_sema s' ! jx) \<le> nat (ss_semtot s')"
    proof (cases "jx = ix")
      case True
      then show ?thesis using d size tot(1) pf assms(4) by simp
    next
      case False
      then have "sem_base (ss_sema s ! jx) + ds_size (ss_sema s ! jx) \<le> nat (ss_semtot s)" using a pool_block[OF po] sets by simp
      then show ?thesis using False other tot(1) assms(4) by simp
    qed
  next
    fix jx kx assume a: "is_set s' jx \<and> is_set s' kx \<and> jx \<noteq> kx"
    have b: "is_set s m \<Longrightarrow> sem_base (ss_sema s ! m) + ds_size (ss_sema s ! m) \<le> nat (ss_semtot s)" for m
      using pool_block[OF po] by simp
    show "sem_base (ss_sema s' ! jx) + ds_size (ss_sema s' ! jx) \<le> sem_base (ss_sema s' ! kx) \<or>
          sem_base (ss_sema s' ! kx) + ds_size (ss_sema s' ! kx) \<le> sem_base (ss_sema s' ! jx)"
    proof (cases "jx = ix \<or> kx = ix")
      case True
      then show ?thesis using a sets b d(2) other by auto
    next
      case False
      then show ?thesis using a pool_disjoint[OF po, of jx kx] sets other by simp
    qed
  qed (use pf len rest tot assms(4,5) in simp_all)
  show v: "vec s' = vec s" by (rule vec_cong(1)) (fact rest)+
  have "undo_ok s'" using undo_ok_cong[OF rest(2,3)] assms(1) by (simp add: sem_inv_def)
  moreover have "ents_ok s'" using assms(1) vec_cong(3)[OF rest(2,3)] keys by (fastforce simp: sem_inv_def ents_ok_def)
  ultimately show "keeps s s'" using po' rest lsem by (simp add: keeps_def sem_inv_def)
  have pool: "l < length (ss_sem s) \<Longrightarrow> ss_sem s' ! l = (if nat (ss_semtot s) \<le> l \<and> l < nat (ss_semtot s) + nat nsems
     then \<lparr>semval = 0, sempid = 0, semncnt = 0, semzcnt = 0\<rparr> else ss_sem s ! l)" for l
    by (simp add: s'_def sem_new_def Let_def upd_ds_def clear_block_nth)
  show "k \<in> sem_keys s \<Longrightarrow> the_sem s' k = the_sem s k" for k
  proof -
    assume k: "k \<in> sem_keys s"
    then have "fst k \<noteq> ix" using nset by (auto simp: sem_keys_def)
    then have "sem_loc s' k = sem_loc s k" by (simp add: sem_loc_def other)
    then show ?thesis using sem_loc_lt[OF po k] sem_loc_length[OF po k] pool by (simp add: the_sem_def)
  qed
  show "n \<in> {0..<nsems} \<Longrightarrow> the_sem s' (ix, n) = \<lparr>semval = 0, sempid = 0, semncnt = 0, semzcnt = 0\<rparr>" for n
  proof -
    assume n: "n \<in> {0..<nsems}"
    have "int (nat (ss_semtot s)) = ss_semtot s" "int (nat n) = n" using n pf by simp_all
    moreover have "ss_semtot s + n < int (length (ss_sem s))" using n pf assms(5) by simp
    ultimately have "nat (ss_semtot s) + nat n < length (ss_sem s)" by linarith
    then show ?thesis using pool[of "nat (ss_semtot s) + nat n"] n d(2) by (simp add: the_sem_def sem_loc_def)
  qed
qed

lemma good_semget: "sem_inv s \<Longrightarrow> good s (sys_semget p cred key nsems semflg s)"
  unfolding sys_semget_def
proof (rule good_semlock)
  assume inv: "sem_inv s"
  have "good s (sem_create cred key nsems semflg s)"
    using inv sem_new_spec(1)[OF inv, of _ nsems cred key semflg]
    by (auto simp: sem_create_def sem_found_def split: option.split dest!: find_ds_0)
  then show "good s (case if key \<noteq> IPC_PRIVATE then find_ds (\<lambda>d. allocated d \<and> ipc_key (sem_perm d) = key) 0 (ss_sema s) else None of
        None \<Rightarrow> sem_create cred key nsems semflg s
      | Some ix \<Rightarrow>
          (case ipcperm cred (sem_perm (ss_sema s ! ix)) (semflg AND 448) of
             Some e \<Rightarrow> sem_fail e s
           | None \<Rightarrow>
               if nsems > 0 \<and> uint (sem_nsems (ss_sema s ! ix)) < nsems then sem_fail EINVAL s
               else if has semflg IPC_CREAT \<and> has semflg IPC_EXCL then sem_fail EEXIST s
               else sem_found ix s))"
    using inv by (auto simp: sem_found_def split: option.split)
qed

subsection \<open>semctl\<close>

lemma clear_ents_Nil [simp]: "clear_ents ix num 0 [] = []"
  by (subst clear_ents.simps) simp

lemma ents_clear:
  assumes "undo_ok s" "num = - 1 \<or> 0 \<le> num"
  shows "ents (semundo_clear ix num s) p = clear_ents ix num 0 (ents s p)"
  using semundo_clear_ok(2)[OF assms] by (cases "vec s p") (simp_all add: ents_def)

lemma clear_fields:
  assumes "undo_ok s" "num = - 1 \<or> 0 \<le> num"
  shows "ss_sema (semundo_clear ix num s) = ss_sema s" "ss_sem (semundo_clear ix num s) = ss_sem s"
    "ss_semtot (semundo_clear ix num s) = ss_semtot s" "ss_info (semundo_clear ix num s) = ss_info s"
    "ss_holder (semundo_clear ix num s) = ss_holder s" "ss_wakeups (semundo_clear ix num s) = ss_wakeups s"
  by (subst semundo_clear_ok(4)[OF assms], simp)+

lemma sem_inv_clear_gen:
  assumes "pool_ok s" "undo_ok s" "num = - 1 \<or> 0 \<le> num"
    "\<And>p. ent_key ` set (ents s p) \<subseteq> sem_keys s \<union> (if num = - 1 then {ix} \<times> UNIV else {})"
  shows "sem_inv (semundo_clear ix num s)"
proof -
  let ?s = "semundo_clear ix num s"
  note f = clear_fields[OF assms(2,3)]
  have "ents_ok ?s"
    unfolding ents_ok_def same_sets(2)[OF f(1)] ents_clear[OF assms(2,3)]
  proof
    fix p
    note c = clear_ents_facts[OF ents_wf_ents[OF assms(2)] assms(3)]
    show "ent_key ` set (clear_ents ix num 0 (ents s p)) \<subseteq> sem_keys s"
    proof
      fix k assume "k \<in> ent_key ` set (clear_ents ix num 0 (ents s p))"
      then obtain e where e: "e \<in> set (clear_ents ix num 0 (ents s p))" "k = ent_key e" by blast
      then have "k \<in> sem_keys s \<union> (if num = - 1 then {ix} \<times> UNIV else {})" using c(2) assms(4) by blast
      moreover have "num = - 1 \<Longrightarrow> fst k \<noteq> ix" using c(4) e by (simp add: ent_key_def)
      ultimately show "k \<in> sem_keys s" by (auto split: if_splits)
    qed
  qed
  then show ?thesis
    using semundo_clear_ok(1)[OF assms(2,3)] pool_ok_cong[of ?s s] f assms(1) by (simp add: sem_inv_def)
qed

lemma keeps_clear:
  assumes "sem_inv s" "num = - 1 \<or> 0 \<le> num"
  shows "keeps s (semundo_clear ix num s)"
proof -
  have s: "pool_ok s" "undo_ok s" "ents_ok s" using assms(1) by (auto simp: sem_inv_def)
  have "sem_inv (semundo_clear ix num s)"
    by (rule sem_inv_clear_gen[OF s(1,2) assms(2)]) (use s(3) in \<open>auto simp: ents_ok_def\<close>)
  then show ?thesis using clear_fields[OF s(2) assms(2)] by (simp add: keeps_def)
qed

lemma shift_down_nth:
  "l < length pool \<Longrightarrow> b - 0 + n \<le> length pool \<Longrightarrow>
   fold (\<lambda>i pool. upd_sem i (\<lambda>_. pool ! (i + n)) pool) [a..<b] pool ! l = (if a \<le> l \<and> l < b then pool ! (l + n) else pool ! l)"
  and length_shift_down: "length (fold (\<lambda>i pool. upd_sem i (\<lambda>_. pool ! (i + n)) pool) [a..<b] pool) = length pool"
proof -
  show len: "length (fold (\<lambda>i pool. upd_sem i (\<lambda>_. pool ! (i + n)) pool) [a..<b] pool) = length pool" for b
    by (induction b) simp_all
  show "l < length pool \<Longrightarrow> b - 0 + n \<le> length pool \<Longrightarrow>
   fold (\<lambda>i pool. upd_sem i (\<lambda>_. pool ! (i + n)) pool) [a..<b] pool ! l = (if a \<le> l \<and> l < b then pool ! (l + n) else pool ! l)"
  proof (induction b arbitrary: l)
    case (Suc b)
    let ?f = "fold (\<lambda>i pool. upd_sem i (\<lambda>_. pool ! (i + n)) pool) [a..<b] pool"
    have ih: "m < length pool \<Longrightarrow> ?f ! m = (if a \<le> m \<and> m < b then pool ! (m + n) else pool ! m)" for m
      using Suc by simp
    show ?case
    proof (cases "a \<le> b")
      case True
      have "?f ! (b + n) = pool ! (b + n)" using ih[of "b + n"] Suc.prems(2) by simp
      then show ?thesis using True ih[OF Suc.prems(1)] Suc.prems len by (auto simp: upd_sem_nth less_Suc_eq)
    qed (use Suc.prems in auto)
  qed simp
qed

text \<open>A set is removed: the others keep their semaphores, and its undo entries go.\<close>

lemma sem_rmid_spec:
  fixes cred :: ucred
  assumes "sem_inv s" "is_set s ix"
  defines "s' \<equiv> sem_rmid cred ix s"
  shows "keeps s s'" "sem_keys s' = {k \<in> sem_keys s. fst k \<noteq> ix}" "\<And>k. k \<in> sem_keys s' \<Longrightarrow> the_sem s' k = the_sem s k"
    "\<And>p k. fst k \<noteq> ix \<Longrightarrow> adj_of (ents s' p) k = adj_of (ents s p) k"
    "ss_wakeups s' = SemSet ix # ss_wakeups s" "ss_holder s' = ss_holder s"
    "\<And>jx. jx \<noteq> ix \<Longrightarrow> jx < length (ss_sema s) \<Longrightarrow> sem_perm (ss_sema s' ! jx) = sem_perm (ss_sema s ! jx)"
proof -
  define d where "d = ss_sema s ! ix"
  define n where "n = ds_size d"
  define s5 where "s5 = upd_ds ix (set_perm (\<lambda>pm. pm\<lparr>ipc_mode := 0\<rparr>))
    ((upd_ds ix (set_perm (\<lambda>pm. pm\<lparr>ipc_cuid := ucast (cr_uid cred), ipc_uid := ucast (cr_uid cred)\<rparr>)) s)
      \<lparr>ss_semtot := ss_semtot s - int n,
       ss_sem := fold (\<lambda>i pool. upd_sem i (\<lambda>_. pool ! (i + n)) pool) [sem_base d..<nat (ss_semtot s - int n)] (ss_sem s),
       ss_sema := map (\<lambda>d'. if allocated d' \<and> sem_base d' > sem_base d then d'\<lparr>sem_base := sem_base d' - n\<rparr> else d')
         (ss_sema (upd_ds ix (set_perm (\<lambda>pm. pm\<lparr>ipc_cuid := ucast (cr_uid cred), ipc_uid := ucast (cr_uid cred)\<rparr>)) s))\<rparr>)"
  have s': "s' = sem_wakeup (SemSet ix) (semundo_clear ix (- 1) s5)"
    unfolding s5_def n_def d_def ds_size_def by (simp add: s'_def sem_rmid_def Let_def upd_ds_def)
  have po: "pool_ok s" and uo: "undo_ok s" and eo: "ents_ok s" using assms(1) by (auto simp: sem_inv_def)
  have ix: "ix < length (ss_sema s)" "allocated (ss_sema s ! ix)" using assms(2) by (auto simp: is_set_def)
  have blk: "0 < n" "sem_base d + n \<le> nat (ss_semtot s)" using pool_block[OF po assms(2)] by (auto simp: d_def n_def)
  define db where "db jx = (if is_set s jx \<and> sem_base (ss_sema s ! jx) > sem_base d
     then sem_base (ss_sema s ! jx) - n else sem_base (ss_sema s ! jx))" for jx
  have len5: "length (ss_sema s5) = length (ss_sema s)" by (simp add: s5_def upd_ds_def)
  have other: "ss_sema s5 ! jx = (ss_sema s ! jx)\<lparr>sem_base := db jx\<rparr>" if "jx \<noteq> ix" "jx < length (ss_sema s)" for jx
    using that by (simp add: s5_def upd_ds_def db_def is_set_def)
  have mode0: "\<not> allocated (ss_sema s5 ! ix)"
    using ix by (simp add: s5_def upd_ds_def allocated_def set_perm_def has_def)
  have alloc_upd: "allocated (e\<lparr>sem_base := b\<rparr>) = allocated e" "ds_size (e\<lparr>sem_base := b\<rparr>) = ds_size e" for e b
    by (simp_all add: allocated_def ds_size_def)
  have sets: "is_set s5 jx \<longleftrightarrow> jx \<noteq> ix \<and> is_set s jx" for jx
  proof (cases "jx = ix")
    case True
    then show ?thesis using mode0 by (simp add: is_set_def)
  next
    case False
    then show ?thesis using len5 other[OF False] alloc_upd by (auto simp: is_set_def)
  qed
  have ds5: "is_set s5 jx \<Longrightarrow> ds_size (ss_sema s5 ! jx) = ds_size (ss_sema s ! jx) \<and> sem_base (ss_sema s5 ! jx) = db jx" for jx
    using sets[of jx] other[of jx] alloc_upd by (auto simp: is_set_def)
  have dist: "is_set s5 jx \<Longrightarrow> sem_base (ss_sema s ! jx) + ds_size (ss_sema s ! jx) \<le> sem_base d \<or> sem_base d + n \<le> sem_base (ss_sema s ! jx)" for jx
    using pool_disjoint[OF po assms(2), of jx] sets[of jx] by (auto simp: d_def n_def)
  have f5: "ss_info s5 = ss_info s" "ss_semu s5 = ss_semu s" "ss_semu_list s5 = ss_semu_list s" "ss_semtot s5 = ss_semtot s - int n"
    "ss_holder s5 = ss_holder s" "ss_wakeups s5 = ss_wakeups s"
    by (simp_all add: s5_def upd_ds_def)
  have lsem: "length (ss_sem s5) = length (ss_sem s)" by (simp add: s5_def upd_ds_def length_shift_down)
  have tot: "int (nat (ss_semtot s)) = ss_semtot s" "nat (ss_semtot s) \<le> length (ss_sem s)" "nat (ss_semtot s - int n) = nat (ss_semtot s) - n"
    using pool_sizes(1-4)[OF po] by (simp_all add: nat_diff_distrib)
  have pool5: "l < length (ss_sem s) \<Longrightarrow> ss_sem s5 ! l = (if sem_base d \<le> l \<and> l < nat (ss_semtot s) - n then ss_sem s ! (l + n) else ss_sem s ! l)" for l
  proof -
    assume l: "l < length (ss_sem s)"
    have "nat (ss_semtot s) - n - 0 + n \<le> length (ss_sem s)" using tot(2) blk by linarith
    from shift_down_nth[OF l this, of "sem_base d"] show ?thesis
      using tot(3) by (simp add: s5_def upd_ds_def)
  qed
  have db_le: "is_set s5 jx \<Longrightarrow> db jx + ds_size (ss_sema s ! jx) \<le> nat (ss_semtot s) - n" for jx
    using dist[of jx] blk pool_block[OF po, of jx] sets[of jx] by (auto simp: db_def)
  have po5: "pool_ok s5"
    unfolding pool_ok_def
  proof (intro conjI allI impI)
    have fin: "finite {jx. is_set s jx}" by (rule finite_subset[of _ "{..<length (ss_sema s)}"]) (auto simp: is_set_def)
    have "{jx. is_set s jx} = insert ix {jx. is_set s5 jx}" using sets assms(2) by auto
    then have "(\<Sum>jx | is_set s jx. int (ds_size (ss_sema s ! jx))) = int n + (\<Sum>jx | is_set s5 jx. int (ds_size (ss_sema s ! jx)))"
      using fin sets by (simp add: d_def n_def)
    moreover have "(\<Sum>jx | is_set s5 jx. int (ds_size (ss_sema s ! jx))) = (\<Sum>jx | is_set s5 jx. int (ds_size (ss_sema s5 ! jx)))"
      by (rule sum.cong) (use ds5 in auto)
    ultimately show "ss_semtot s5 = (\<Sum>jx | is_set s5 jx. int (ds_size (ss_sema s5 ! jx)))"
      using pool_sizes(5)[OF po] f5(4) by linarith
  next
    fix jx assume a: "is_set s5 jx"
    show "0 < ds_size (ss_sema s5 ! jx)" using ds5[OF a] pool_block[OF po, of jx] sets[of jx] a by simp
    show "sem_base (ss_sema s5 ! jx) + ds_size (ss_sema s5 ! jx) \<le> nat (ss_semtot s5)"
      using ds5[OF a] db_le[OF a] f5(4) tot(3) by simp
  next
    fix jx kx assume a: "is_set s5 jx \<and> is_set s5 kx \<and> jx \<noteq> kx"
    show "sem_base (ss_sema s5 ! jx) + ds_size (ss_sema s5 ! jx) \<le> sem_base (ss_sema s5 ! kx) \<or>
          sem_base (ss_sema s5 ! kx) + ds_size (ss_sema s5 ! kx) \<le> sem_base (ss_sema s5 ! jx)"
      using a ds5[of jx] ds5[of kx] dist[of jx] dist[of kx] pool_disjoint[OF po, of jx kx] sets[of jx] sets[of kx] blk
      by (auto simp: db_def)
  qed (use pool_sizes(1-4)[OF po] lsem f5 blk tot in auto)
  have uo5: "undo_ok s5" using uo undo_ok_cong[OF f5(2,3)] by simp
  have en5: "ents s5 = ents s" using vec_cong(3)[OF f5(2,3)] .
  have keys5: "sem_keys s5 = {k \<in> sem_keys s. fst k \<noteq> ix}"
    using sets ds5 by (auto simp: sem_keys_def)
  have inv5: "sem_inv (semundo_clear ix (- 1) s5)"
  proof (rule sem_inv_clear_gen[OF po5 uo5])
    fix p
    have "ent_key ` set (ents s5 p) \<subseteq> sem_keys s" using eo en5 by (simp add: ents_ok_def)
    also have "sem_keys s \<subseteq> sem_keys s5 \<union> {ix} \<times> UNIV" unfolding keys5 by force
    finally show "ent_key ` set (ents s5 p) \<subseteq> sem_keys s5 \<union> (if - 1 = (- 1 :: int) then {ix} \<times> UNIV else {})" by simp
  qed simp
  note c = clear_fields[OF uo5, of "- 1", simplified]
  show "keeps s s'" using inv5 c f5(1) len5 by (simp add: s' keeps_def)
  show keys: "sem_keys s' = {k \<in> sem_keys s. fst k \<noteq> ix}"
    using keys5 same_sets(2)[of s' s5] c by (simp add: s')
  show "ss_wakeups s' = SemSet ix # ss_wakeups s" "ss_holder s' = ss_holder s"
    using c f5 by (simp_all add: s' sem_wakeup_def)
  show "jx \<noteq> ix \<Longrightarrow> jx < length (ss_sema s) \<Longrightarrow> sem_perm (ss_sema s' ! jx) = sem_perm (ss_sema s ! jx)" for jx
    using other[of jx] c by (simp add: s')
  show "fst k \<noteq> ix \<Longrightarrow> adj_of (ents s' p) k = adj_of (ents s p) k" for p k
  proof -
    assume k: "fst k \<noteq> ix"
    have "ents s' p = clear_ents ix (- 1) 0 (ents s p)"
      using ents_clear[OF uo5, of "- 1" ix p] vec_cong(3)[of s' "semundo_clear ix (- 1) s5"] en5 by (simp add: s')
    moreover have "\<forall>k. fst k \<noteq> ix \<longrightarrow> adj_of (clear_ents ix (- 1) 0 (ents s p)) k = adj_of (ents s p) k"
      by (rule clear_ents_facts(3)[OF ents_wf_ents[OF uo]]) simp
    ultimately show ?thesis using k by metis
  qed
  show "k \<in> sem_keys s' \<Longrightarrow> the_sem s' k = the_sem s k" for k
  proof -
    assume k: "k \<in> sem_keys s'"
    obtain jx m where km: "k = (jx, m)" by (cases k)
    have "k \<in> sem_keys s" "jx \<noteq> ix" using k km unfolding keys by auto
    then have k5: "is_set s5 jx" "0 \<le> m" "m < int (ds_size (ss_sema s ! jx))"
      using km sets by (auto simp: sem_keys_def)
    have "the_sem s' k = ss_sem s5 ! (db jx + nat m)"
      using c ds5[OF k5(1)] by (simp add: the_sem_def sem_loc_def s' km)
    also have "\<dots> = ss_sem s ! (sem_base (ss_sema s ! jx) + nat m)"
    proof -
      have m: "nat m < ds_size (ss_sema s ! jx)" using k5 by linarith
      have l: "db jx + nat m < nat (ss_semtot s) - n" using db_le[OF k5(1)] m by linarith
      then have "db jx + nat m < length (ss_sem s)" using tot(2) by linarith
      from pool5[OF this] show ?thesis
        using dist[OF k5(1)] k5(1) sets[of jx] m l blk by (auto simp: db_def)
    qed
    finally show "the_sem s' k = the_sem s k" by (simp add: the_sem_def sem_loc_def km)
  qed
qed

lemma length_set_values: "set_values k vs n pool = (e, pool') \<Longrightarrow> length pool' = length pool"
  by (induction k vs n pool rule: set_values.induct) auto

lemma good_sem_read: "sem_inv s \<Longrightarrow> good s (sem_read cred d semnum f s)"
  by (simp add: sem_read_def split: option.split)

lemma keeps_upd_ds:
  assumes "sem_inv s" "\<And>d. sem_base (f d) = sem_base d \<and> sem_nsems (f d) = sem_nsems d \<and> allocated (f d) = allocated d"
  shows "keeps s (upd_ds ix f s)"
proof -
  let ?s = "upd_ds ix f s"
  have len: "length (ss_sema ?s) = length (ss_sema s)" by (simp add: upd_ds_def)
  have d: "jx < length (ss_sema s) \<Longrightarrow> ds_size (ss_sema ?s ! jx) = ds_size (ss_sema s ! jx) \<and>
     sem_base (ss_sema ?s ! jx) = sem_base (ss_sema s ! jx) \<and> allocated (ss_sema ?s ! jx) = allocated (ss_sema s ! jx)" for jx
    using assms(2) by (cases "jx = ix") (simp_all add: upd_ds_def ds_size_def)
  have sets: "is_set ?s = is_set s" using len d by (auto simp: fun_eq_iff is_set_def)
  have d': "is_set s jx \<Longrightarrow> ds_size (ss_sema ?s ! jx) = ds_size (ss_sema s ! jx) \<and> sem_base (ss_sema ?s ! jx) = sem_base (ss_sema s ! jx)" for jx
    using d[of jx] by (simp add: is_set_def)
  have keys: "sem_keys ?s = sem_keys s" using d' by (auto simp: sem_keys_def sets)
  have f: "ss_sem ?s = ss_sem s" "ss_semtot ?s = ss_semtot s" "ss_info ?s = ss_info s" "ss_semu ?s = ss_semu s" "ss_semu_list ?s = ss_semu_list s"
    by (simp_all add: upd_ds_def)
  have po: "pool_ok s" using assms(1) by (simp add: sem_inv_def)
  have "(\<Sum>ix | is_set s ix. int (ds_size (ss_sema ?s ! ix))) = (\<Sum>ix | is_set s ix. int (ds_size (ss_sema s ! ix)))"
    by (rule sum.cong) (use d' in auto)
  then have "pool_ok ?s"
    unfolding pool_ok_def f sets
    using pool_sizes[OF po] pool_block[OF po] pool_disjoint[OF po] d' by metis
  then show ?thesis
    using assms(1) undo_ok_cong[OF f(4,5)] vec_cong(3)[OF f(4,5)] keys len f by (simp add: keeps_def sem_inv_def ents_ok_def)
qed

lemma good_semctl_switch:
  assumes "sem_inv s" "is_set s ix"
  shows "good s (semctl_switch cred ix semnum cmd s)"
proof (cases cmd)
  case IPC_RMID
  then show ?thesis using sem_rmid_spec(1)[OF assms] assms(1) by (simp split: option.split)
next
  case (IPC_SET arg)
  have "keeps s (upd_ds ix (\<lambda>d. (set_perm (\<lambda>pm. pm\<lparr>ipc_uid := uid, ipc_gid := gid,
                 ipc_mode := (ipc_mode pm AND NOT 511) OR (mode AND 511)\<rparr>) d)\<lparr>sem_ctime := ss_time s\<rparr>) s)" for uid gid mode
    by (rule keeps_upd_ds[OF assms(1)]) (simp add: set_perm_def allocated_def has_alloc_set[simplified])
  then show ?thesis using IPC_SET assms(1) by (simp split: option.split prod.split)
next
  case (SETVAL arg)
  have "keeps s (semundo_clear ix semnum (s\<lparr>ss_sem := pool\<rparr>))" if "length pool = length (ss_sem s)" "0 \<le> semnum" for pool
  proof (rule keeps_trans)
    show k: "keeps s (s\<lparr>ss_sem := pool\<rparr>)" using assms(1) that by simp
    show "keeps (s\<lparr>ss_sem := pool\<rparr>) (semundo_clear ix semnum (s\<lparr>ss_sem := pool\<rparr>))"
      by (rule keeps_clear) (use k that in \<open>auto simp: keeps_def\<close>)
  qed
  then show ?thesis using SETVAL assms(1) by (simp add: Let_def split: option.split)
next
  case (SETALL arg)
  have "keeps s (semundo_clear ix (- 1) (s\<lparr>ss_sem := pool\<rparr>))" if "length pool = length (ss_sem s)" for pool
  proof (rule keeps_trans)
    show k: "keeps s (s\<lparr>ss_sem := pool\<rparr>)" using assms(1) that by simp
    show "keeps (s\<lparr>ss_sem := pool\<rparr>) (semundo_clear ix (- 1) (s\<lparr>ss_sem := pool\<rparr>))"
      by (rule keeps_clear) (use k in \<open>auto simp: keeps_def\<close>)
  qed
  then show ?thesis using SETALL assms(1) length_set_values by (auto simp: Let_def split: option.split prod.split)
qed (use assms(1) in \<open>auto simp: good_sem_read Let_def split: option.split\<close>)

lemma good_semctl: "sem_inv s \<Longrightarrow> good s (sys___semctl p cred semid semnum cmd s)"
  unfolding sys___semctl_def
proof (rule good_semlock)
  assume inv: "sem_inv s"
  show "good s (with_set semid (\<lambda>ix. semctl_switch cred ix semnum cmd s) s)"
    by (rule good_with_set[OF inv]) (simp add: good_semctl_switch inv)
qed

lemma good_syscall: "sem_inv s \<Longrightarrow> good s (sem_syscall p c s)"
  by (cases c) (simp_all add: good_semconfig good_semget good_semctl good_semop)

subsection \<open>The exit of a process\<close>

text \<open>The value after the exit of a process with the adjustment \<open>a\<close>.\<close>

definition exit_val :: "u16 \<Rightarrow> u16 \<Rightarrow> u16" where
  "exit_val a v = (if sint a < 0 \<and> uint v < - sint a then 0 else v + a)"

lemma exit_val_0 [simp]: "exit_val 0 v = v"
  by (simp add: exit_val_def)

lemma exit_ents_spec:
  "pool_ok s \<Longrightarrow> distinct (map ent_key es) \<Longrightarrow> ent_key ` set es \<subseteq> sem_keys s \<Longrightarrow>
   \<exists>s1. exit_ents es s = sem_ok 0 s1 \<and> s1 = s\<lparr>ss_sem := ss_sem s1, ss_wakeups := ss_wakeups s1\<rparr> \<and> length (ss_sem s1) = length (ss_sem s) \<and>
     (\<forall>k\<in>sem_keys s. the_sem s1 k = (the_sem s k)\<lparr>semval := exit_val (adj_of es k) (semval (the_sem s k))\<rparr>) \<and>
     (\<forall>e\<in>set es. SemSet (un_id e) \<in> set (ss_wakeups s1)) \<and> set (ss_wakeups s) \<subseteq> set (ss_wakeups s1)"
proof (induction es arbitrary: s)
  case (Cons e es)
  let ?k = "ent_key e"
  have k: "?k \<in> sem_keys s" using Cons.prems(3) by simp
  then have e: "is_set s (un_id e)" "0 \<le> sint (un_num e)" "sint (un_num e) < int (ds_size (ss_sema s ! un_id e))"
    by (auto simp: sem_keys_def ent_key_def)
  define f where "f = (\<lambda>x. if sint (un_adjval e) < 0 \<and> uint (semval x) < - sint (un_adjval e) then x\<lparr>semval := 0\<rparr> else add_val (un_adjval e) x)"
  define s1 where "s1 = sem_wakeup (SemSet (un_id e)) (s\<lparr>ss_sem := upd_sem (sem_loc s ?k) f (ss_sem s)\<rparr>)"
  have f: "f x = x\<lparr>semval := exit_val (un_adjval e) (semval x)\<rparr>" for x by (simp add: f_def exit_val_def add_val_def)
  have loc: "sem_loc s ?k = sem_base (ss_sema s ! un_id e) + nat (sint (un_num e))" by (simp add: sem_loc_def ent_key_def)
  have step: "exit_ents (e # es) s = exit_ents es s1"
    using e unfolding s1_def loc f_def by (simp add: is_set_def ds_size_def Let_def)
  have same: "ss_sema s1 = ss_sema s" by (simp add: s1_def)
  note ss = same_sets[OF same]
  have po1: "pool_ok s1" using Cons.prems(1) pool_ok_cong[of s1 s] by (simp add: s1_def)
  obtain s2 where s2: "exit_ents es s1 = sem_ok 0 s2" "s2 = s1\<lparr>ss_sem := ss_sem s2, ss_wakeups := ss_wakeups s2\<rparr>"
    "length (ss_sem s2) = length (ss_sem s1)"
    "\<forall>k\<in>sem_keys s. the_sem s2 k = (the_sem s1 k)\<lparr>semval := exit_val (adj_of es k) (semval (the_sem s1 k))\<rparr>"
    "\<forall>e\<in>set es. SemSet (un_id e) \<in> set (ss_wakeups s2)" "set (ss_wakeups s1) \<subseteq> set (ss_wakeups s2)"
    using Cons.IH[OF po1] Cons.prems(2,3) ss(2) by auto
  have one: "the_sem s1 k' = (if k' = ?k then f (the_sem s k') else the_sem s k')" if "k' \<in> sem_keys s" for k'
    using sem_loc_inj[OF Cons.prems(1) that k] sem_loc_length[OF Cons.prems(1) that]
    by (auto simp: the_sem_def ss(3) upd_sem_nth) (auto simp: s1_def upd_sem_nth)
  have nk: "adj_of es ?k = 0" using Cons.prems(2) by (auto intro: adj_of_other)
  have "\<forall>k'\<in>sem_keys s. the_sem s2 k' = (the_sem s k')\<lparr>semval := exit_val (adj_of (e # es) k') (semval (the_sem s k'))\<rparr>"
  proof
    fix k' assume k': "k' \<in> sem_keys s"
    show "the_sem s2 k' = (the_sem s k')\<lparr>semval := exit_val (adj_of (e # es) k') (semval (the_sem s k'))\<rparr>"
    proof (cases "k' = ?k")
      case True
      then show ?thesis using s2(4)[rule_format, OF k'] one[OF k'] f nk by (simp add: adj_of_Cons)
    next
      case False
      then show ?thesis using s2(4)[rule_format, OF k'] one[OF k'] by (simp add: adj_of_Cons)
    qed
  qed
  moreover have "s2 = s\<lparr>ss_sem := ss_sem s2, ss_wakeups := ss_wakeups s2\<rparr>"
    by (subst s2(2)) (simp add: s1_def sem_wakeup_def)
  moreover have "length (ss_sem s2) = length (ss_sem s)" using s2(3) by (simp add: s1_def)
  moreover have "SemSet (un_id e) \<in> set (ss_wakeups s2)" "set (ss_wakeups s) \<subseteq> set (ss_wakeups s2)"
    using s2(6) by (auto simp: s1_def sem_wakeup_def)
  ultimately show ?case using step s2(1,5) by auto
qed simp

lemma exit_unlock_fields [simp]:
  "ss_sema (exit_unlock p s) = ss_sema s" "ss_sem (exit_unlock p s) = ss_sem s" "ss_semtot (exit_unlock p s) = ss_semtot s"
  "ss_info (exit_unlock p s) = ss_info s" "ss_semu (exit_unlock p s) = ss_semu s" "ss_semu_list (exit_unlock p s) = ss_semu_list s"
  by (simp_all add: exit_unlock_def)

lemma sem_inv_unlock [simp]: "sem_inv (exit_unlock p s) = sem_inv s"
  by (rule sem_inv_cong) simp_all

lemma exit_undo_spec:
  assumes "sem_inv s" "vec_at s p = Some i"
  obtains s' where "exit_undo p i s = sem_ok 0 s'" "keeps s s'" "ss_sema s' = ss_sema s" "vec s' = (vec s)(p := None)"
    "\<And>k. k \<in> sem_keys s \<Longrightarrow> the_sem s' k = (the_sem s k)\<lparr>semval := exit_val (adj_of (ents s p) k) (semval (the_sem s k))\<rparr>"
    "\<forall>e\<in>set (ents s p). SemSet (un_id e) \<in> set (ss_wakeups s')" "ss_holder s' \<noteq> Some p"
proof -
  have inv: "pool_ok s" "undo_ok s" "ents_ok s" using assms(1) by (auto simp: sem_inv_def)
  have es: "un_ent (ss_semu s ! i) = ents s p" using assms(2) by (simp add: ents_def vec_def)
  have d: "distinct (map ent_key (ents s p))" using ents_wf_ents[OF inv(2)] by (simp add: ents_wf_def)
  have ks: "ent_key ` set (ents s p) \<subseteq> sem_keys s" using inv(3) by (simp add: ents_ok_def)
  obtain s1 where s1: "exit_ents (ents s p) s = sem_ok 0 s1" "s1 = s\<lparr>ss_sem := ss_sem s1, ss_wakeups := ss_wakeups s1\<rparr>"
      "length (ss_sem s1) = length (ss_sem s)"
      "\<forall>k\<in>sem_keys s. the_sem s1 k = (the_sem s k)\<lparr>semval := exit_val (adj_of (ents s p) k) (semval (the_sem s k))\<rparr>"
      "\<forall>e\<in>set (ents s p). SemSet (un_id e) \<in> set (ss_wakeups s1)"
    using exit_ents_spec[OF inv(1) d ks] by blast
  have f1: "ss_sema s1 = ss_sema s" "ss_semu s1 = ss_semu s" "ss_semu_list s1 = ss_semu_list s" "ss_semtot s1 = ss_semtot s"
    "ss_info s1 = ss_info s" "ss_holder s1 = ss_holder s"
    by (subst s1(2), simp)+
  define s2 where "s2 = upd_undo i (\<lambda>u. u\<lparr>un_proc := None\<rparr>) (s1\<lparr>ss_semu_list := remove1 i (ss_semu_list s1)\<rparr>)"
  have u1: "undo_ok s1" "vec_at s1 p = Some i" "vec s1 = vec s"
    using undo_ok_cong[OF f1(2,3)] inv(2) vec_cong[OF f1(2,3)] assms(2) by simp_all
  note r = undo_remove_ok[OF u1(1,2), folded s2_def]
  have f2: "ss_sema s2 = ss_sema s" "ss_sem s2 = ss_sem s1" "ss_semtot s2 = ss_semtot s" "ss_info s2 = ss_info s" "ss_wakeups s2 = ss_wakeups s1"
    using f1 by (simp_all add: s2_def upd_undo_def)
  have "pool_ok s2" using inv(1) pool_ok_cong[of s2 s] f2 s1(3) by simp
  moreover have "ents_ok s2"
  proof -
    have "ents s2 q = (if q = p then [] else ents s q)" for q using r(2) u1(3) by (simp add: ents_def)
    then show ?thesis using inv(3) same_sets(2)[OF f2(1)] by (auto simp: ents_ok_def)
  qed
  ultimately have inv2: "sem_inv s2" using r(1) by (simp add: sem_inv_def)
  let ?s = "exit_unlock p s2"
  have "exit_undo p i s = sem_ok 0 ?s" using s1(1) es by (simp add: exit_undo_def s2_def)
  moreover have "keeps s ?s" using inv2 f2 by (simp add: keeps_def)
  moreover have "vec ?s = (vec s)(p := None)" using vec_cong(1)[of ?s s2] r(2) u1(3) by simp
  moreover have "k \<in> sem_keys s \<Longrightarrow> the_sem ?s k = (the_sem s k)\<lparr>semval := exit_val (adj_of (ents s p) k) (semval (the_sem s k))\<rparr>" for k
    using s1(4) f1(1) f2 by (simp add: the_sem_def sem_loc_def)
  moreover have "\<forall>e\<in>set (ents s p). SemSet (un_id e) \<in> set (ss_wakeups ?s)"
    using s1(5) f2(5) by (auto simp: exit_unlock_def sem_wakeup_def)
  moreover have "ss_holder ?s \<noteq> Some p" by (simp add: exit_unlock_def)
  moreover have "ss_sema ?s = ss_sema s" using f2 by simp
  ultimately show thesis using that by blast
qed

lemma good_semexit: "sem_inv s \<Longrightarrow> good s (semexit p s)"
proof -
  assume inv: "sem_inv s"
  show ?thesis
  proof (cases "vec_at s p")
    case None
    have "keeps s (exit_unlock p s)" using inv by (simp add: keeps_def)
    then show ?thesis using None inv by (simp add: semexit_def vec_at_def)
  next
    case (Some i)
    obtain s' where "exit_undo p i s = sem_ok 0 s'" "keeps s s'" by (rule exit_undo_spec[OF inv Some])
    then show ?thesis using Some inv by (simp add: semexit_def vec_at_def)
  qed
qed

lemma good_semexit_resume:
  assumes "sem_inv s" "ss_holder s \<noteq> None \<or> vec s p \<noteq> None"
  shows "good s (semexit_resume p s)"
proof (cases "ss_holder s = None")
  case True
  then obtain i where i: "vec_at s p = Some i" using assms(2) by (auto simp: vec_def)
  obtain s' where "exit_undo p i s = sem_ok 0 s'" "keeps s s'" by (rule exit_undo_spec[OF assms(1) i])
  then show ?thesis using i assms(1) by (simp add: semexit_resume_def vec_at_def)
qed (use assms(1) in \<open>simp add: semexit_resume_def\<close>)

end
