(* ===== verification/Sem_System.thy ===== *)
theory Sem_System
  imports Sem_Pool
begin

text \<open>
  Processes that make semaphore calls, sleep in them, are woken up or interrupted, and exit (\<open>sem_do\<close>, executable);
  and when a vector of requests can proceed (\<open>can_proceed\<close>).
\<close>

subsection \<open>Processes\<close>

text \<open>A process runs, sleeps in a call (and has been woken up or not), or is gone.\<close>

datatype sem_pstate = SemRun | SemWait sem_wait bool | SemDead

record sem_system =
  sy_state :: sem_state
  sy_proc :: "int \<Rightarrow> sem_pstate"

datatype sem_action = SemCalls int sem_call | SemExits int | SemWakes int "errno option"

fun sem_chan_of :: "sem_wait \<Rightarrow> sem_chan" where
  "sem_chan_of (InSemop semid sops k i un) = SemSet (IPCID_TO_IX semid)"
| "sem_chan_of w = SemLock"

fun sem_wake :: "sem_chan list \<Rightarrow> sem_pstate \<Rightarrow> sem_pstate" where
  "sem_wake cs (SemWait w b) = SemWait w (b \<or> sem_chan_of w \<in> set cs)"
| "sem_wake cs x = x"

text \<open>Only the sleep in \<open>semop\<close> has \<^verbatim>\<open>PCATCH\<close>.\<close>

fun can_interrupt :: "sem_wait \<Rightarrow> bool" where
  "can_interrupt (InSemop semid sops k i un) = True"
| "can_interrupt w = False"

text \<open>What an action leads to; \<open>None\<close> if it cannot happen.\<close>

fun sem_effect :: "sem_action \<Rightarrow> sem_system \<Rightarrow> sem_outcome option" where
  "sem_effect (SemCalls p c) S = (if sy_proc S p = SemRun then Some (sem_syscall p c (sy_state S)) else None)"
| "sem_effect (SemExits p) S = (if sy_proc S p = SemRun then Some (semexit p (sy_state S)) else None)"
| "sem_effect (SemWakes p err) S =
     (case sy_proc S p of
        SemWait w b \<Rightarrow> if (if err = None then b else can_interrupt w) then Some (sem_resume p w err (sy_state S)) else None
      | _ \<Rightarrow> None)"

fun sem_actor :: "sem_action \<Rightarrow> int" where
  "sem_actor (SemCalls p c) = p" | "sem_actor (SemExits p) = p" | "sem_actor (SemWakes p err) = p"

fun sem_leaving :: "sem_action \<Rightarrow> sem_system \<Rightarrow> bool" where
  "sem_leaving (SemCalls p c) S = False"
| "sem_leaving (SemExits p) S = True"
| "sem_leaving (SemWakes p err) S = (\<exists>b\<in>{True, False}. sy_proc S p = SemWait InSemexit b)"

definition sem_do :: "sem_action \<Rightarrow> sem_system \<Rightarrow> sem_system option" where
  "sem_do a S =
     (case sem_effect a S of
        Some (Some (Ret s v)) \<Rightarrow>
          Some \<lparr>sy_state = s\<lparr>ss_wakeups := []\<rparr>,
            sy_proc = (sem_wake (ss_wakeups s) \<circ> sy_proc S)(sem_actor a := if sem_leaving a S then SemDead else SemRun)\<rparr>
      | Some (Some (Sleeps s w)) \<Rightarrow>
          Some \<lparr>sy_state = s\<lparr>ss_wakeups := []\<rparr>, sy_proc = (sem_wake (ss_wakeups s) \<circ> sy_proc S)(sem_actor a := SemWait w False)\<rparr>
      | _ \<Rightarrow> None)"

text \<open>The pools as they are allocated.\<close>

definition sem_config :: "sem_state \<Rightarrow> bool" where
  "sem_config s \<longleftrightarrow> int (length (ss_sem s)) = semmns (ss_info s) \<and> semmns (ss_info s) \<le> 32767 \<and> ss_semtot s = 0"

inductive sem_reach :: "sem_system \<Rightarrow> bool" where
  start: "sem_config s \<Longrightarrow> sem_reach \<lparr>sy_state = seminit s, sy_proc = (\<lambda>_. SemRun)\<rparr>"
| step: "sem_reach S \<Longrightarrow> sem_do a S = Some S' \<Longrightarrow> sem_reach S'"

fun sem_run :: "sem_action list \<Rightarrow> sem_system \<Rightarrow> sem_system option" where
  "sem_run [] S = Some S"
| "sem_run (a # as) S = (case sem_do a S of None \<Rightarrow> None | Some S' \<Rightarrow> sem_run as S')"

lemma sem_run_reach: "sem_run as S = Some S' \<Longrightarrow> sem_reach S \<Longrightarrow> sem_reach S'"
  by (induction as arbitrary: S) (auto split: option.splits intro: sem_reach.step)

text \<open>Calls that make the code leave its arrays: an index that only the wrong limit admits, and a negative count.\<close>

fun wild_call :: "nat \<Rightarrow> sem_call \<Rightarrow> bool" where
  "wild_call n (SemCtl cred semid semnum cmd) = (IPCID_TO_IX semid \<ge> n)"
| "wild_call n (SemOp cred semid nsops user) = (IPCID_TO_IX semid \<ge> n \<or> sint nsops < 0)"
| "wild_call n c = False"

lemma sem_inv_seminit:
  assumes "sem_config s"
  shows "sem_inv (seminit s)"
proof -
  have ns: "\<not> is_set (seminit s) ix" for ix by (simp add: is_set_def seminit_def allocated_def has_def)
  have "ss_semu_list (seminit s) = []" by (simp add: seminit_def)
  then have "vec (seminit s) p = None" for p by (simp add: vec_None_iff)
  then have "ents_ok (seminit s)" by (simp add: ents_ok_def ents_def)
  moreover have "pool_ok (seminit s)" using assms ns by (simp add: pool_ok_def sem_config_def) (simp add: seminit_def)
  moreover have "undo_ok (seminit s)" by (auto simp: undo_ok_def seminit_def)
  ultimately show ?thesis by (simp add: sem_inv_def)
qed

text \<open>Where a call sleeps.\<close>

definition place_ok :: "sem_state \<Rightarrow> sem_wait \<Rightarrow> bool" where
  "place_ok s w \<longleftrightarrow> (case w of InSemop semid sops k i un \<Rightarrow> IPCID_TO_IX semid < length (ss_sema s) | _ \<Rightarrow> True)"

lemma place_ok_cong: "length (ss_sema s') = length (ss_sema s) \<Longrightarrow> place_ok s' w = place_ok s w"
  by (cases w) (simp_all add: place_ok_def)

lemma exit_ents_no_sleep: "exit_ents es s \<noteq> Some (Sleeps s' w)"
  by (induction es arbitrary: s) (auto simp: Let_def)

lemma exit_undo_no_sleep: "exit_undo p i s \<noteq> Some (Sleeps s' w)"
  using exit_ents_no_sleep by (auto simp: exit_undo_def split: option.splits kout.splits)

lemma place_ok_turn:
  assumes "semop_turn p semid sops un0 s = Some (Sleeps s' w)" "IPCID_TO_IX semid < length (ss_sema s)"
  shows "place_ok s w"
  using assms by (auto simp: semop_turn_def semop_done_def place_ok_def Let_def split: sem_pass.splits if_splits kout.splits option.splits)

lemma semlock_Sleeps: "semlock p c body s = Some (Sleeps s' w) \<Longrightarrow> w = InSemlock c \<or> body s = Some (Sleeps s' w)"
  by (auto simp: semlock_def split: if_splits)

lemma with_set_Sleeps: "with_set semid body s = Some (Sleeps s' w) \<Longrightarrow>
  body (IPCID_TO_IX semid) = Some (Sleeps s' w) \<and> IPCID_TO_IX semid < length (ss_sema s)"
  by (auto simp: with_set_def Let_def split: if_splits)

lemma semctl_no_sleep: "semctl_switch cred ix semnum cmd s \<noteq> Some (Sleeps s' w)"
  by (cases cmd) (auto simp: sem_read_def Let_def split: option.splits prod.splits)

lemma place_ok_syscall:
  assumes "sem_syscall p c s = Some (Sleeps s' w)"
  shows "place_ok s w"
proof (cases c)
  case (SemConfig flag)
  then show ?thesis using assms by (auto simp: sys_semconfig_def semlock_def place_ok_def split: if_splits)
next
  case (SemGet cred key nsems semflg)
  then show ?thesis using assms
    by (auto simp: sys_semget_def semlock_def place_ok_def sem_create_def sem_found_def split: if_splits option.splits)
next
  case (SemCtl cred semid semnum cmd)
  have "w = InSemlock c \<or> with_set semid (\<lambda>ix. semctl_switch cred ix semnum cmd s) s = Some (Sleeps s' w)"
    using semlock_Sleeps assms SemCtl by (fastforce simp: sys___semctl_def)
  then show ?thesis
  proof
    assume "w = InSemlock c" then show ?thesis by (simp add: place_ok_def)
  next
    assume "with_set semid (\<lambda>ix. semctl_switch cred ix semnum cmd s) s = Some (Sleeps s' w)"
    then show ?thesis using with_set_Sleeps semctl_no_sleep by blast
  qed
next
  case (SemOp cred semid nsops user)
  have "sys_semop p cred semid nsops user s = Some (Sleeps s' w)" using assms SemOp by simp
  from semlock_Sleeps[OF this[unfolded sys_semop_def]] show ?thesis
  proof
    assume "w = InSemlock (SemOp cred semid nsops user)" then show ?thesis by (simp add: place_ok_def)
  next
    assume "with_set semid (\<lambda>ix. case ipcperm cred (sem_perm (ss_sema s ! ix)) IPC_W of Some e \<Rightarrow> sem_fail e s
       | None \<Rightarrow>
           if sint nsops > MAX_SOPS then sem_fail E2BIG s
           else if sops_size nsops > nat (6 * MAX_SOPS) \<and> length user > nat MAX_SOPS then None
           else if sops_size nsops > 6 * length user then sem_fail EFAULT s
           else semop_turn p semid (take (nat (sint nsops)) user) False s) s = Some (Sleeps s' w)"
    from with_set_Sleeps[OF this] show ?thesis using place_ok_turn by (auto split: option.splits if_splits)
  qed
qed

lemma place_ok_resume:
  assumes "sem_resume p w err s = Some (Sleeps s' w')" "place_ok s w"
  shows "place_ok s w'"
proof (cases w)
  case (InSemlock c)
  then show ?thesis using assms(1) place_ok_syscall by simp
next
  case (InSemop semid sops k i un)
  let ?s = "s\<lparr>ss_sem := upd_sem k (wait_count (\<lambda>n. n - 1) (sops ! i)) (ss_sem s)\<rparr>"
  have l: "IPCID_TO_IX semid < length (ss_sema ?s)" using assms(2) InSemop by (simp add: place_ok_def)
  have "semop_turn p semid sops un ?s = Some (Sleeps s' w')"
    using assms(1) InSemop by (auto simp: semop_resume_def split: if_splits)
  from place_ok_turn[OF this l] show ?thesis using place_ok_cong[of ?s s] by simp
next
  case InSemexit
  then show ?thesis using assms(1)
    by (auto simp: semexit_resume_def place_ok_def exit_undo_no_sleep split: if_splits option.splits)
qed

text \<open>The state of the system is good, and processes sleep at proper places.\<close>

definition sys_inv :: "sem_system \<Rightarrow> bool" where
  "sys_inv S \<longleftrightarrow> sem_inv (sy_state S) \<and> (\<forall>p w b. sy_proc S p = SemWait w b \<longrightarrow> place_ok (sy_state S) w)"

text \<open>The one panic of \<open>semexit\<close> that can happen.\<close>

definition undo_disappeared :: "sem_action \<Rightarrow> sem_system \<Rightarrow> bool" where
  "undo_disappeared a S \<longleftrightarrow>
     (\<exists>p err b. a = SemWakes p err \<and> sy_proc S p = SemWait InSemexit b \<and> ss_holder (sy_state S) = None \<and> vec (sy_state S) p = None)"

lemma sem_effect_good:
  assumes "sys_inv S" "sem_effect a S = Some r" "\<not> undo_disappeared a S"
  shows "good (sy_state S) r"
proof (cases a)
  case (SemCalls p c)
  then show ?thesis using assms good_syscall by (auto simp: sys_inv_def split: if_splits)
next
  case (SemExits p)
  then show ?thesis using assms good_semexit by (auto simp: sys_inv_def split: if_splits)
next
  case (SemWakes p err)
  then obtain w b where w: "sy_proc S p = SemWait w b" "r = sem_resume p w err (sy_state S)"
    using assms(2) by (auto split: sem_pstate.splits if_splits)
  have inv: "sem_inv (sy_state S)" "place_ok (sy_state S) w" using assms(1) w(1) by (auto simp: sys_inv_def)
  show ?thesis
  proof (cases w)
    case (InSemlock c)
    then show ?thesis using w(2) good_syscall[OF inv(1)] by simp
  next
    case (InSemop semid sops k i un)
    then show ?thesis using w(2) good_semop_resume[OF inv(1)] inv(2) by (simp add: place_ok_def)
  next
    case InSemexit
    then have "ss_holder (sy_state S) \<noteq> None \<or> vec (sy_state S) p \<noteq> None" using assms(3) w(1) SemWakes by (auto simp: undo_disappeared_def)
    then show ?thesis using w(2) InSemexit good_semexit_resume[OF inv(1)] by simp
  qed
qed

lemma sem_effect_place:
  assumes "sys_inv S" "sem_effect a S = Some (Some (Sleeps s w))"
  shows "place_ok (sy_state S) w"
proof (cases a)
  case (SemCalls p c)
  then show ?thesis using assms place_ok_syscall by (auto split: if_splits)
next
  case (SemExits p)
  then show ?thesis using assms(2)
    by (auto simp: semexit_def place_ok_def exit_undo_no_sleep split: if_splits option.splits)
next
  case (SemWakes p err)
  then obtain w0 b where w: "sy_proc S p = SemWait w0 b" "sem_resume p w0 err (sy_state S) = Some (Sleeps s w)"
    using assms(2) by (auto split: sem_pstate.splits if_splits)
  then show ?thesis using place_ok_resume[OF w(2)] assms(1) by (auto simp: sys_inv_def)
qed

lemma sem_wake_SemWait: "sem_wake cs x = SemWait w b \<Longrightarrow> \<exists>b'. x = SemWait w b'"
  by (cases x) auto

lemma sys_inv_after:
  assumes "sys_inv S" "keeps (sy_state S) s" "\<And>w b. x = SemWait w b \<Longrightarrow> place_ok (sy_state S) w"
  shows "sys_inv \<lparr>sy_state = s\<lparr>ss_wakeups := []\<rparr>, sy_proc = (sem_wake (ss_wakeups s) \<circ> sy_proc S)(p := x)\<rparr>"
proof -
  have "sem_inv (s\<lparr>ss_wakeups := []\<rparr>)" using assms(2) sem_inv_cong[of "s\<lparr>ss_wakeups := []\<rparr>" s] by (simp add: keeps_def)
  moreover have pl: "place_ok (s\<lparr>ss_wakeups := []\<rparr>) w = place_ok (sy_state S) w" for w
    by (rule place_ok_cong) (use assms(2) in \<open>simp add: keeps_def\<close>)
  moreover have "place_ok (sy_state S) w" if "sem_wake (ss_wakeups s) (sy_proc S q) = SemWait w b" for q w b
    using sem_wake_SemWait[OF that] assms(1) by (auto simp: sys_inv_def)
  ultimately show ?thesis using assms(3) by (auto simp: sys_inv_def)
qed

lemma sem_do_inv:
  assumes "sys_inv S" "sem_do a S = Some S'"
  shows "sys_inv S'"
proof -
  obtain r where r: "sem_effect a S = Some (Some r)" "r \<noteq> Panics" using assms(2) by (auto simp: sem_do_def split: option.splits kout.splits)
  have "\<not> undo_disappeared a S"
  proof
    assume u: "undo_disappeared a S"
    then obtain p err b where p: "a = SemWakes p err" "sy_proc S p = SemWait InSemexit b" "ss_holder (sy_state S) = None" "vec (sy_state S) p = None"
      by (auto simp: undo_disappeared_def)
    then have "sem_effect a S = Some (semexit_resume p (sy_state S))" using r(1) by (auto split: if_splits)
    moreover have "find_undo p (ss_semu_list (sy_state S)) (ss_semu (sy_state S)) = None" using p(4) by (simp add: vec_def vec_at_def)
    ultimately show False using r p(3) by (simp add: semexit_resume_def)
  qed
  then have g: "good (sy_state S) (Some r)" using sem_effect_good[OF assms(1) r(1)] by simp
  show ?thesis
  proof (cases r)
    case (Ret s v)
    have "S' = \<lparr>sy_state = s\<lparr>ss_wakeups := []\<rparr>,
        sy_proc = (sem_wake (ss_wakeups s) \<circ> sy_proc S)(sem_actor a := if sem_leaving a S then SemDead else SemRun)\<rparr>"
      using assms(2) r Ret by (simp add: sem_do_def)
    moreover have "sys_inv \<dots>" by (rule sys_inv_after[OF assms(1)]) (use g Ret in \<open>auto split: if_splits\<close>)
    ultimately show ?thesis by simp
  next
    case (Sleeps s w)
    have "S' = \<lparr>sy_state = s\<lparr>ss_wakeups := []\<rparr>, sy_proc = (sem_wake (ss_wakeups s) \<circ> sy_proc S)(sem_actor a := SemWait w False)\<rparr>"
      using assms(2) r Sleeps by (simp add: sem_do_def)
    moreover have "sys_inv \<dots>"
      by (rule sys_inv_after[OF assms(1)]) (use g Sleeps sem_effect_place[OF assms(1)] r in auto)
    ultimately show ?thesis by simp
  qed (use r in simp)
qed


lemma sem_reach_inv: "sem_reach S \<Longrightarrow> sys_inv S"
proof (induction rule: sem_reach.induct)
  case (start s)
  then show ?case using sem_inv_seminit by (simp add: sys_inv_def)
next
  case (step S a S')
  then show ?case using sem_do_inv by blast
qed

lemma with_set_None: "with_set semid body s = None \<Longrightarrow> IPCID_TO_IX semid \<ge> length (ss_sema s) \<or> body (IPCID_TO_IX semid) = None"
  by (auto simp: with_set_def Let_def split: if_splits)

lemma semop_turn_None: "sem_inv s \<Longrightarrow> is_set s (IPCID_TO_IX semid) \<Longrightarrow> semop_turn p semid sops un0 s \<noteq> None"
  by (rule semop_turn_outcome[OF _ refl, of s semid p sops un0]) auto

lemma sops_size_small: "0 \<le> sint nsops \<Longrightarrow> sint nsops \<le> MAX_SOPS \<Longrightarrow> sops_size nsops = 6 * nat (sint nsops)"
  for nsops :: u32
proof -
  assume a: "0 \<le> sint nsops" "sint nsops \<le> MAX_SOPS"
  have u: "uint nsops = sint nsops"
    using sint_nonneg_u32[OF a(1)] by simp
  have "uint (nsops * 6) = (uint nsops * 6) mod 2 ^ 32" by (simp add: uint_word_ariths)
  also have "\<dots> = uint nsops * 6" using a u by (simp add: MAX_SOPS_def)
  finally have "unat (nsops * 6) = nat (uint nsops * 6)" by (metis unat_eq_nat_uint)
  then show ?thesis using u a by (simp add: sops_size_def nat_mult_distrib)
qed

lemma sem_syscall_None:
  assumes "sem_inv s" "sem_syscall p c s = None"
  shows "wild_call (length (ss_sema s)) c"
proof (cases c)
  case (SemConfig flag)
  then show ?thesis using assms by (auto simp: sys_semconfig_def semlock_def split: if_splits)
next
  case (SemGet cred key nsems semflg)
  then show ?thesis using assms
    by (auto simp: sys_semget_def semlock_def sem_create_def sem_found_def split: if_splits option.splits)
next
  case (SemCtl cred semid semnum cmd)
  have n: "semctl_switch cred ix semnum cmd s \<noteq> None" for ix
    by (cases cmd) (auto simp: sem_read_def Let_def split: option.splits prod.splits)
  have "with_set semid (\<lambda>ix. semctl_switch cred ix semnum cmd s) s = None"
    using assms(2) SemCtl by (auto simp: sys___semctl_def semlock_def split: if_splits)
  from with_set_None[OF this] n have "IPCID_TO_IX semid \<ge> length (ss_sema s)" by blast
  then show ?thesis using SemCtl by simp
next
  case (SemOp cred semid nsops user)
  show ?thesis
  proof (rule ccontr)
    assume "\<not> wild_call (length (ss_sema s)) c"
    then have n: "IPCID_TO_IX semid < length (ss_sema s)" "0 \<le> sint nsops" using SemOp by auto
    have t: "sem_alive semid (IPCID_TO_IX semid) s \<Longrightarrow> semop_turn p semid qs False s \<noteq> None" for qs
      using semop_turn_None[OF assms(1)] n(1) by (simp add: is_set_def sem_alive_def)
    have "sem_alive semid (IPCID_TO_IX semid) s \<and> semop_turn p semid (take (nat (sint nsops)) user) False s = None"
      using assms(2) SemOp n(1) sops_size_small[OF n(2)]
      by (auto simp: sys_semop_def semlock_def with_set_def Let_def MAX_SOPS_def split: if_splits option.splits)
    then show False using t by blast
  qed
qed

lemma semexit_not_None:
  assumes "sem_inv s"
  shows "semexit p s \<noteq> None" "semexit_resume p s \<noteq> None"
proof -
  have "exit_undo p i s \<noteq> None" if "vec_at s p = Some i" for i
    by (rule exit_undo_spec[OF assms that]) simp
  then show "semexit p s \<noteq> None" "semexit_resume p s \<noteq> None"
    by (auto simp: semexit_def semexit_resume_def vec_at_def split: option.split)
qed

subsection \<open>When a vector of requests can proceed\<close>

definition sem_vals :: "sem_state \<Rightarrow> nat \<times> int \<Rightarrow> int" where "sem_vals s k = uint (semval (the_sem s k))"

definition op_sum :: "sembuf list \<Rightarrow> int \<Rightarrow> int" where
  "op_sum qs n = sum_list (map (\<lambda>q. if uint (sem_num q) = n then sint (sem_op q) else 0) qs)"

text \<open>
  With the values \<open>v\<close> of the set: no request is stuck once those before it are done. No value exceeds 16 bits
  on the way.
\<close>

definition can_proceed :: "(int \<Rightarrow> int) \<Rightarrow> sembuf list \<Rightarrow> bool" where
  "can_proceed v qs \<longleftrightarrow>
     (\<forall>i<length qs. let n = uint (sem_num (qs ! i)); x = v n + op_sum (take i qs) n; a = sint (sem_op (qs ! i))
        in (a < 0 \<longrightarrow> x + a \<ge> 0) \<and> (a = 0 \<longrightarrow> x = 0))"

definition no_wrap :: "(int \<Rightarrow> int) \<Rightarrow> sembuf list \<Rightarrow> bool" where
  "no_wrap v qs \<longleftrightarrow> (\<forall>i<length qs. v (uint (sem_num (qs ! i))) + op_sum (take (i + 1) qs) (uint (sem_num (qs ! i))) \<le> 65535)"

lemma op_sum_Nil [simp]: "op_sum [] n = 0"
  by (simp add: op_sum_def)

lemma op_sum_Cons [simp]: "op_sum (q # qs) n = (if uint (sem_num q) = n then sint (sem_op q) else 0) + op_sum qs n"
  by (simp add: op_sum_def)

lemma all_less_Suc: "(\<forall>i<Suc n. P i) \<longleftrightarrow> P 0 \<and> (\<forall>i<n. P (Suc i))"
  using less_Suc_eq_0_disj by auto

lemma can_proceed_Nil [simp]: "can_proceed v []"
  by (simp add: can_proceed_def)

lemma can_proceed_Cons:
  "can_proceed v (q # qs) \<longleftrightarrow>
     (sint (sem_op q) < 0 \<longrightarrow> v (uint (sem_num q)) + sint (sem_op q) \<ge> 0) \<and> (sint (sem_op q) = 0 \<longrightarrow> v (uint (sem_num q)) = 0) \<and>
     can_proceed (v(uint (sem_num q) := v (uint (sem_num q)) + sint (sem_op q))) qs"
proof -
  have e: "v n + op_sum (q # take i qs) n = (v(uint (sem_num q) := v (uint (sem_num q)) + sint (sem_op q))) n + op_sum (take i qs) n" for n i
    by simp
  show ?thesis
    unfolding can_proceed_def length_Cons all_less_Suc nth_Cons_0 nth_Cons_Suc take_Suc_Cons e by (simp add: Let_def)
qed

lemma no_wrap_Nil [simp]: "no_wrap v []"
  by (simp add: no_wrap_def)

lemma no_wrap_Cons:
  "no_wrap v (q # qs) \<longleftrightarrow> v (uint (sem_num q)) + sint (sem_op q) \<le> 65535 \<and>
     no_wrap (v(uint (sem_num q) := v (uint (sem_num q)) + sint (sem_op q))) qs"
proof -
  have e: "v n + op_sum (q # take i qs) n = (v(uint (sem_num q) := v (uint (sem_num q)) + sint (sem_op q))) n + op_sum (take i qs) n" for n i
    by simp
  show ?thesis
    unfolding no_wrap_def length_Cons all_less_Suc nth_Cons_0 nth_Cons_Suc Suc_eq_plus1[symmetric] take_Suc_Cons e by simp
qed

lemma proceed_range:
  "can_proceed v qs \<Longrightarrow> no_wrap v qs \<Longrightarrow> \<forall>n. 0 \<le> v n \<and> v n \<le> 65535 \<Longrightarrow> 0 \<le> v n + op_sum qs n \<and> v n + op_sum qs n \<le> 65535"
proof (induction qs arbitrary: v)
  case (Cons q qs)
  let ?v = "v(uint (sem_num q) := v (uint (sem_num q)) + sint (sem_op q))"
  have c: "can_proceed ?v qs" "no_wrap ?v qs" "sint (sem_op q) < 0 \<longrightarrow> v (uint (sem_num q)) + sint (sem_op q) \<ge> 0"
    "v (uint (sem_num q)) + sint (sem_op q) \<le> 65535"
    using Cons.prems(1,2) by (auto simp: can_proceed_Cons no_wrap_Cons)
  have "0 \<le> v (uint (sem_num q)) + sint (sem_op q)"
    using c(3) Cons.prems(3) by (cases "sint (sem_op q) < 0") (auto simp: not_less add_nonneg_nonneg)
  then have "\<forall>n. 0 \<le> ?v n \<and> ?v n \<le> 65535" using Cons.prems(3) c(4) by simp
  from Cons.IH[OF c(1,2) this] show ?case by (auto simp: add.assoc)
qed simp

lemma uint_add_sint: "0 \<le> uint x + sint y \<Longrightarrow> uint x + sint y \<le> 65535 \<Longrightarrow> uint (x + y) = uint x + sint y" for x y :: u16
proof -
  assume a: "0 \<le> uint x + sint y" "uint x + sint y \<le> 65535"
  have "uint (x + y) = uint (of_int (uint x + sint y) :: u16)" by simp
  also have "\<dots> = (uint x + sint y) mod 2 ^ 16" by (simp add: unsigned_of_int take_bit_eq_mod del: of_int_add)
  finally show ?thesis using a by simp
qed

text \<open>The pass gets through exactly then.\<close>

lemma pass_Through_iff:
  "\<forall>q\<in>set qs. sem_num q < nsems \<Longrightarrow> \<forall>n. 0 \<le> n \<and> n < uint nsems \<longrightarrow> v n = uint (semval (pool ! (base + nat n))) \<Longrightarrow>
   base + unat nsems \<le> length pool \<Longrightarrow> no_wrap v qs \<Longrightarrow>
   (\<exists>a b c. semop_pass base nsems qs i wk un pool = Through a b c) \<longleftrightarrow> can_proceed v qs"
proof (induction qs arbitrary: v i wk un pool)
  case (Cons q qs)
  let ?n = "uint (sem_num q)" and ?a = "sint (sem_op q)"
  let ?k = "base + unat (sem_num q)"
  let ?v = "v(?n := v ?n + ?a)"
  let ?pool = "upd_sem ?k (add_val (sem_op q)) pool"
  have nr: "0 \<le> ?n" "?n < uint nsems" using Cons.prems(1) by (auto simp: word_less_def)
  have "unat (sem_num q) < unat nsems" using Cons.prems(1) by (simp add: word_less_nat_alt)
  then have k: "?k < length pool" "base + nat ?n = ?k" using Cons.prems(3) by simp_all
  have vn: "v ?n = uint (semval (pool ! ?k))" using Cons.prems(2) nr k(2) by metis
  have nw: "v ?n + ?a \<le> 65535" "no_wrap ?v qs" using Cons.prems(4) by (auto simp: no_wrap_Cons)
  have v': "\<forall>n. 0 \<le> n \<and> n < uint nsems \<longrightarrow> ?v n = uint (semval (?pool ! (base + nat n)))" if "0 \<le> v ?n + ?a"
  proof (intro allI impI)
    fix n assume n: "0 \<le> n \<and> n < uint nsems"
    show "?v n = uint (semval (?pool ! (base + nat n)))"
    proof (cases "n = ?n")
      case True
      have "uint (semval (pool ! ?k) + sem_op q) = uint (semval (pool ! ?k)) + ?a"
        by (rule uint_add_sint) (use that vn nw(1) in simp_all)
      then show ?thesis using True k vn by (simp add: upd_sem_def add_val_def)
    next
      case False
      have "int (nat n) = n" "int (unat (sem_num q)) = ?n" using n by simp_all
      then have "nat n \<noteq> unat (sem_num q)" using False by metis
      then have "?pool ! (base + nat n) = pool ! (base + nat n)" by (simp add: upd_sem_def)
      then show ?thesis using False Cons.prems(2) n by simp
    qed
  qed
  have ih: "(\<exists>a b c. semop_pass base nsems qs j wk2 un2 ?pool = Through a b c) \<longleftrightarrow> can_proceed ?v qs" if "0 \<le> v ?n + ?a" for j wk2 un2
    by (rule Cons.IH[OF _ v'[OF that] _ nw(2)]) (use Cons.prems(1,3) in simp_all)
  have lt: "\<not> nsems \<le> sem_num q" using Cons.prems(1) by (simp add: not_le)
  consider "?a < 0" "uint (semval (pool ! ?k)) + ?a < 0" | "?a < 0" "\<not> uint (semval (pool ! ?k)) + ?a < 0" | "sem_op q = 0" | "0 < ?a"
    using sint_u16_zero[of "sem_op q"] by linarith
  then show ?case
  proof cases
    case 1
    then show ?thesis using lt vn by (auto simp: Let_def can_proceed_Cons)
  next
    case 2
    then have "semop_pass base nsems (q # qs) i wk un pool =
      semop_pass base nsems qs (i + 1) (wk \<or> semval (pool ! ?k) + sem_op q = 0 \<and> semzcnt (pool ! ?k) > 0)
        (un \<or> has (sem_flg q) SEM_UNDO) ?pool" using lt by (simp add: Let_def)
    then show ?thesis using ih 2 vn by (simp add: can_proceed_Cons)
  next
    case 3
    have u: "?pool = pool" using 3 by (simp add: upd_sem_def)
    show ?thesis
    proof (cases "semval (pool ! ?k) > 0")
      case True
      then show ?thesis using 3 lt vn by (auto simp: Let_def can_proceed_Cons word_less_def)
    next
      case False
      then have z: "semval (pool ! ?k) = 0" by (simp add: word_gt_0)
      have "semop_pass base nsems (q # qs) i wk un pool = semop_pass base nsems qs (i + 1) wk un ?pool"
        using 3 False lt u[unfolded 3] by (simp add: Let_def)
      then show ?thesis using ih 3 z vn by (simp add: can_proceed_Cons)
    qed
  next
    case 4
    then have "sem_op q \<noteq> 0" "\<not> ?a < 0" by auto
    then have "semop_pass base nsems (q # qs) i wk un pool =
      semop_pass base nsems qs (i + 1) (wk \<or> semncnt (pool ! ?k) > 0) (un \<or> has (sem_flg q) SEM_UNDO) ?pool"
      using lt by (simp add: Let_def)
    then show ?thesis using ih 4 vn by (simp add: can_proceed_Cons)
  qed
qed simp

lemma sys_semop_turn:
  assumes "\<not> semlock_waits p s" "IPCID_TO_IX semid = ix" "int ix < semmsl (ss_info s)" "is_set s ix" "sem_alive semid ix s"
    "ipcperm cred (sem_perm (ss_sema s ! ix)) IPC_W = None" "length qs \<le> 5" "nsops = of_nat (length qs)"
  shows "sys_semop p cred semid nsops qs s = semop_turn p semid qs False s"
proof -
  have u: "uint nsops = int (length qs)" using assms(7,8) by (simp add: unsigned_of_nat take_bit_nat_eq_self)
  then have n: "sint nsops = int (length qs)" using assms(7) sint_u32[of nsops] by simp
  then have "sops_size nsops = 6 * length qs" using sops_size_small[of nsops] assms(7) by (simp add: MAX_SOPS_def)
  then show ?thesis using assms n by (simp add: sys_semop_def semlock_def with_set_def Let_def MAX_SOPS_def is_set_def)
qed

end
