(* ===== verification/Sem_Correct.thy ===== *)
theory Sem_Correct
  imports Sem_System
begin

text \<open>
  What the semaphore calls guarantee: the invariant of all reachable systems and the absence of panics, the atomicity of
  \<open>semop\<close>, undo on exit, the sets as a map, and the wakeups. The lemmas of the last part but one are runs in which the code does
  not do what it means to.
\<close>

subsection \<open>Reachable systems\<close>

text \<open>
  C5: in every reachable system the blocks of the allocated sets lie in the used part of the pool, are disjoint and fill it
  by count; every undo structure belongs to one process, is on the list, and has at most ten entries, none of them zero, for different
  semaphores that exist.
\<close>

theorem sem_invariant:
  assumes "sem_reach S"
  shows "sem_inv (sy_state S)"
  using sem_reach_inv[OF assms] by (simp add: sys_inv_def)

lemma sem_effect_None:
  assumes "sys_inv S" "sem_effect a S = Some None"
  shows "\<exists>c. wild_call (length (ss_sema (sy_state S))) c \<and>
    (a = SemCalls (sem_actor a) c \<or> (\<exists>b. sy_proc S (sem_actor a) = SemWait (InSemlock c) b))"
proof (cases a)
  case (SemCalls p c)
  then show ?thesis using assms sem_syscall_None by (auto simp: sys_inv_def split: if_splits)
next
  case (SemExits p)
  then show ?thesis using assms semexit_not_None(1)[of "sy_state S" p] by (auto simp: sys_inv_def split: if_splits)
next
  case (SemWakes p err)
  then obtain w b where w: "sy_proc S p = SemWait w b" "sem_resume p w err (sy_state S) = None"
    using assms(2) by (auto split: sem_pstate.splits if_splits)
  have inv: "sem_inv (sy_state S)" "place_ok (sy_state S) w" using assms(1) w(1) by (auto simp: sys_inv_def)
  show ?thesis
  proof (cases w)
    case (InSemlock c)
    then show ?thesis using w sem_syscall_None[OF inv(1)] SemWakes by auto
  next
    case (InSemop semid sops k i un)
    let ?s = "(sy_state S)\<lparr>ss_sem := upd_sem k (wait_count (\<lambda>n. n - 1) (sops ! i)) (ss_sem (sy_state S))\<rparr>"
    have t: "semop_turn p semid sops un ?s = None" "sem_alive semid (IPCID_TO_IX semid) (sy_state S)"
      using w(2) InSemop by (auto simp: semop_resume_def split: if_splits)
    have "sem_inv ?s" using inv(1) sem_inv_cong[of ?s "sy_state S"] by simp
    moreover have "is_set ?s (IPCID_TO_IX semid)" using t(2) inv(2) InSemop by (simp add: is_set_def sem_alive_def place_ok_def)
    ultimately show ?thesis using semop_turn_None t(1) by blast
  next
    case InSemexit
    then show ?thesis using w(2) semexit_not_None[OF inv(1)] by simp
  qed
qed

text \<open>
  C7: in a reachable system no call, no return of a sleep and no exit panics, but for the return of an exit to an empty undo
  structure that was purged meanwhile; and the code stays in its arrays, but for calls whose index only the wrong limit admits or whose
  count of requests is negative.
\<close>

theorem sem_no_panic:
  assumes "sem_reach S" "sem_effect a S = Some r"
  shows "(r = Some Panics \<longrightarrow> undo_disappeared a S) \<and>
    (r = None \<longrightarrow> (\<exists>c. wild_call (length (ss_sema (sy_state S))) c \<and>
       (a = SemCalls (sem_actor a) c \<or> (\<exists>b. sy_proc S (sem_actor a) = SemWait (InSemlock c) b))))"
  using sem_effect_good[OF sem_reach_inv[OF assms(1)] assms(2)] sem_effect_None[OF sem_reach_inv[OF assms(1)]] assms(2)
  by (cases "undo_disappeared a S") auto

subsection \<open>A semop is atomic\<close>

lemma sem_vals_turn_through:
  assumes "sem_inv s" "is_set s ix" "\<forall>q\<in>set qs. sem_num q < sem_nsems (ss_sema s ! ix)"
    "ss_sema s2 = ss_sema s" "ss_sem s2 = set_pids (sem_base (ss_sema s ! ix)) p qs (shift_vals (sem_base (ss_sema s ! ix)) sem_op qs (ss_sem s))"
    "k \<in> sem_keys s"
  shows "semval (the_sem s2 k) = semval (the_sem s k) + (if fst k = ix then of_int (op_sum qs (snd k)) else 0)"
    "semncnt (the_sem s2 k) = semncnt (the_sem s k)" "semzcnt (the_sem s2 k) = semzcnt (the_sem s k)"
proof -
  let ?b = "sem_base (ss_sema s ! ix)"
  have po: "pool_ok s" using assms(1) by (simp add: sem_inv_def)
  have l: "sem_loc s2 k = sem_loc s k" using same_sets(3)[OF assms(4)] by simp
  have lt: "sem_loc s k < length (ss_sem s)" using sem_loc_length[OF po assms(6)] .
  have v: "semval (the_sem s2 k) = semval (add_val (net_at ?b sem_op qs (sem_loc s k)) (the_sem s k))"
    "semncnt (the_sem s2 k) = semncnt (the_sem s k)" "semzcnt (the_sem s2 k) = semzcnt (the_sem s k)"
    using set_pids_facts lt by (simp_all add: the_sem_def l assms(5) shift_vals_nth add_val_def)
  have eq: "?b + unat (sem_num q) = sem_loc s k \<longleftrightarrow> fst k = ix \<and> uint (sem_num q) = snd k" if "q \<in> set qs" for q
  proof -
    have "(ix, uint (sem_num q)) \<in> sem_keys s" using small_nums(2)[OF po assms(2,3)] that by blast
    moreover have "?b + unat (sem_num q) = sem_loc s (ix, uint (sem_num q))" by (simp add: sem_loc_def)
    ultimately show ?thesis using sem_loc_inj[OF po _ assms(6)] by (cases k) auto
  qed
  have "net_at ?b sem_op qs (sem_loc s k) = (if fst k = ix then of_int (op_sum qs (snd k)) else 0)"
    using eq by (induction qs) (auto simp: net_at_def)
  then show "semval (the_sem s2 k) = semval (the_sem s k) + (if fst k = ix then of_int (op_sum qs (snd k)) else 0)"
    "semncnt (the_sem s2 k) = semncnt (the_sem s k)" "semzcnt (the_sem s2 k) = semzcnt (the_sem s k)"
    using v by (simp_all add: add_val_def)
qed

lemma sem_vals_same:
  assumes "ss_sema s' = ss_sema s" "ss_sem s' = ss_sem s"
  shows "sem_vals s' = sem_vals s" "the_sem s' = the_sem s"
  using assms by (simp_all add: fun_eq_iff sem_vals_def the_sem_def sem_loc_def)

lemma sem_vals_count:
  assumes "ss_sema s' = ss_sema s" "ss_sem s' = upd_sem l (wait_count f q) (ss_sem s)" "pool_ok s" "k \<in> sem_keys s"
  shows "sem_vals s' k = sem_vals s k"
  using sem_loc_length[OF assms(3,4)] same_sets(3)[OF assms(1)]
  by (simp add: sem_vals_def the_sem_def assms(2) upd_sem_nth wait_count_def)


lemma semop_through_iff:
  assumes "sem_inv s" "is_set s ix" "\<forall>q\<in>set qs. sem_num q < sem_nsems (ss_sema s ! ix)" "no_wrap (\<lambda>n. sem_vals s (ix, n)) qs"
  shows "(\<exists>a b c. semop_pass (sem_base (ss_sema s ! ix)) (sem_nsems (ss_sema s ! ix)) qs 0 False un (ss_sem s) = Through a b c) \<longleftrightarrow>
    can_proceed (\<lambda>n. sem_vals s (ix, n)) qs"
proof (rule pass_Through_iff)
  have po: "pool_ok s" using assms(1) by (simp add: sem_inv_def)
  show "sem_base (ss_sema s ! ix) + unat (sem_nsems (ss_sema s ! ix)) \<le> length (ss_sem s)"
  proof -
    have "nat (ss_semtot s) \<le> length (ss_sem s)" using pool_sizes(1-4)[OF po] by simp
    then show ?thesis using pool_block[OF po assms(2)] unfolding ds_size_def by linarith
  qed
qed (use assms in \<open>simp_all add: sem_vals_def the_sem_def sem_loc_def\<close>)

text \<open>What a vector of requests meets, tried in order on the values \<open>v\<close> of a set with \<open>nsems\<close> semaphores.\<close>

datatype sem_try = All_Done | Blocks nat | Bad_Number nat

fun try_all :: "u16 \<Rightarrow> sembuf list \<Rightarrow> nat \<Rightarrow> (int \<Rightarrow> u16) \<Rightarrow> sem_try" where
  "try_all nsems [] i v = All_Done"
| "try_all nsems (q # qs) i v =
     (let n = uint (sem_num q) in
      if nsems \<le> sem_num q then Bad_Number i
      else if sint (sem_op q) < 0 \<and> uint (v n) + sint (sem_op q) < 0 \<or> sem_op q = 0 \<and> v n \<noteq> 0 then Blocks i
      else try_all nsems qs (i + 1) (v(n := v n + sem_op q)))"

lemma pass_try:
  assumes "\<forall>n. 0 \<le> n \<and> n < uint nsems \<longrightarrow> v n = semval (pool ! (base + nat n))" "base + unat nsems \<le> length pool"
  shows "case try_all nsems qs i v of
      All_Done \<Rightarrow> \<exists>a b c. semop_pass base nsems qs i wk un pool = Through a b c
    | Blocks j \<Rightarrow> \<exists>a c. semop_pass base nsems qs i wk un pool = Stuck a j c
    | Bad_Number j \<Rightarrow> i \<le> j \<and> semop_pass base nsems qs i wk un pool = OutOfRange (shift_vals base sem_op (take (j - i) qs) pool) \<and>
        (\<forall>q\<in>set (take (j - i) qs). sem_num q < nsems)"
  using assms
proof (induction qs arbitrary: i v wk un pool)
  case (Cons q qs)
  let ?n = "uint (sem_num q)" and ?k = "base + unat (sem_num q)"
  let ?v = "v(?n := v ?n + sem_op q)" and ?pool = "upd_sem ?k (add_val (sem_op q)) pool"
  show ?case
  proof (cases "nsems \<le> sem_num q")
    case True
    then show ?thesis by (simp add: Let_def)
  next
    case lt: False
    then have "sem_num q < nsems" by simp
    then have u: "unat (sem_num q) < unat nsems" unfolding word_less_nat_alt .
    have k: "?k < length pool" "base + nat ?n = ?k" using u Cons.prems(2) by simp_all
    have vn: "v ?n = semval (pool ! ?k)" using Cons.prems(1) k(2) lt by (metis linorder_not_le uint_ge_0 word_less_def)
    have v': "\<forall>n. 0 \<le> n \<and> n < uint nsems \<longrightarrow> ?v n = semval (?pool ! (base + nat n))"
    proof (intro allI impI)
      fix n assume n: "0 \<le> n \<and> n < uint nsems"
      show "?v n = semval (?pool ! (base + nat n))"
      proof (cases "n = ?n")
        case True
        then show ?thesis using k vn by (simp add: upd_sem_def add_val_def)
      next
        case False
        have "int (nat n) = n" "int (unat (sem_num q)) = ?n" using n by simp_all
        then have "nat n \<noteq> unat (sem_num q)" using False by metis
        then have "?pool ! (base + nat n) = pool ! (base + nat n)" by (simp add: upd_sem_def)
        then show ?thesis using False Cons.prems(1) n by simp
      qed
    qed
    let ?blocks = "sint (sem_op q) < 0 \<and> uint (v ?n) + sint (sem_op q) < 0 \<or> sem_op q = 0 \<and> v ?n \<noteq> 0"
    show ?thesis
    proof (cases ?blocks)
      case True
      then have "\<exists>a c. semop_pass base nsems (q # qs) i wk un pool = Stuck a i c"
        using lt vn by (auto simp: Let_def word_gt_0)
      then show ?thesis using True lt by (auto simp: Let_def)
    next
      case False
      have z: "?pool = pool" if "sem_op q = 0" using that by (simp add: upd_sem_def)
      obtain wk2 un2 where p: "semop_pass base nsems (q # qs) i wk un pool = semop_pass base nsems qs (i + 1) wk2 un2 ?pool"
      proof (cases "sem_op q = 0")
        case True
        then show ?thesis using that [of wk un] z False lt vn by (auto simp: Let_def word_gt_0)
      next
        case ne: False
        show ?thesis
        proof (cases "sint (sem_op q) < 0")
          case True
          then show ?thesis using that False lt vn ne by (simp add: Let_def)
        next
          case nn: False
          then show ?thesis using that False lt vn ne by (simp add: Let_def)
        qed
      qed
      have t: "try_all nsems (q # qs) i v = try_all nsems qs (i + 1) ?v"
        using False lt by (simp only: try_all.simps Let_def if_False)
      have ih: "case try_all nsems qs (i + 1) ?v of
          All_Done \<Rightarrow> \<exists>a b c. semop_pass base nsems qs (i + 1) wk2 un2 ?pool = Through a b c
        | Blocks j \<Rightarrow> \<exists>a c. semop_pass base nsems qs (i + 1) wk2 un2 ?pool = Stuck a j c
        | Bad_Number j \<Rightarrow> i + 1 \<le> j \<and> semop_pass base nsems qs (i + 1) wk2 un2 ?pool = OutOfRange (shift_vals base sem_op (take (j - (i + 1)) qs) ?pool) \<and>
            (\<forall>q\<in>set (take (j - (i + 1)) qs). sem_num q < nsems)"
        by (rule Cons.IH [OF v']) (use Cons.prems(2) in simp)
      have tk: "take (j - i) (q # qs) = q # take (j - (i + 1)) qs" if "i + 1 \<le> j" for j
        using that by (simp add: take_Cons' )
      show ?thesis unfolding t p
        using ih lt by (cases "try_all nsems qs (i + 1) ?v") (simp_all add: tk not_le del: take_Cons)
    qed
  qed
qed simp

lemma vals_shift:
  assumes "pool_ok s" "is_set s ix" "\<forall>q\<in>set qs. sem_num q < sem_nsems (ss_sema s ! ix)" "ss_sema s2 = ss_sema s"
    "\<And>l. l < length (ss_sem s) \<Longrightarrow>
       semval (ss_sem s2 ! l) = semval (shift_vals (sem_base (ss_sema s ! ix)) sem_op qs (ss_sem s) ! l)" "k \<in> sem_keys s"
  shows "semval (the_sem s2 k) = semval (the_sem s k) + (if fst k = ix then of_int (op_sum qs (snd k)) else 0)"
proof -
  let ?b = "sem_base (ss_sema s ! ix)"
  have l: "sem_loc s2 k = sem_loc s k" using same_sets(3)[OF assms(4)] by simp
  have lt: "sem_loc s k < length (ss_sem s)" using sem_loc_length[OF assms(1,6)] .
  have eq: "?b + unat (sem_num q) = sem_loc s k \<longleftrightarrow> fst k = ix \<and> uint (sem_num q) = snd k" if "q \<in> set qs" for q
  proof -
    have "(ix, uint (sem_num q)) \<in> sem_keys s" using small_nums(2)[OF assms(1,2,3)] that by blast
    moreover have "?b + unat (sem_num q) = sem_loc s (ix, uint (sem_num q))" by (simp add: sem_loc_def)
    ultimately show ?thesis using sem_loc_inj[OF assms(1) _ assms(6)] by (cases k) auto
  qed
  have "net_at ?b sem_op qs (sem_loc s k) = (if fst k = ix then of_int (op_sum qs (snd k)) else 0)"
    using eq by (induction qs) (auto simp: net_at_def)
  then show ?thesis using assms(5)[OF lt] lt by (simp add: the_sem_def l shift_vals_nth add_val_def)
qed

lemma pass_try_set:
  assumes "sem_inv s" "is_set s ix"
  shows "case try_all (sem_nsems (ss_sema s ! ix)) qs 0 (\<lambda>n. semval (the_sem s (ix, n))) of
      All_Done \<Rightarrow> \<exists>a b c. semop_pass (sem_base (ss_sema s ! ix)) (sem_nsems (ss_sema s ! ix)) qs 0 False un (ss_sem s) = Through a b c
    | Blocks j \<Rightarrow> \<exists>a c. semop_pass (sem_base (ss_sema s ! ix)) (sem_nsems (ss_sema s ! ix)) qs 0 False un (ss_sem s) = Stuck a j c
    | Bad_Number j \<Rightarrow> semop_pass (sem_base (ss_sema s ! ix)) (sem_nsems (ss_sema s ! ix)) qs 0 False un (ss_sem s) =
          OutOfRange (shift_vals (sem_base (ss_sema s ! ix)) sem_op (take j qs) (ss_sem s)) \<and>
        (\<forall>q\<in>set (take j qs). sem_num q < sem_nsems (ss_sema s ! ix))"
proof -
  have po: "pool_ok s" using assms(1) by (simp add: sem_inv_def)
  have "nat (ss_semtot s) \<le> length (ss_sem s)" using pool_sizes(1-4)[OF po] by simp
  then have l: "sem_base (ss_sema s ! ix) + unat (sem_nsems (ss_sema s ! ix)) \<le> length (ss_sem s)"
    using pool_block[OF po assms(2)] unfolding ds_size_def by linarith
  have v: "\<forall>n. 0 \<le> n \<and> n < uint (sem_nsems (ss_sema s ! ix)) \<longrightarrow>
      semval (the_sem s (ix, n)) = semval (ss_sem s ! (sem_base (ss_sema s ! ix) + nat n))"
    by (simp add: the_sem_def sem_loc_def)
  show ?thesis using pass_try[OF v l, of qs 0 False un] by (cases "try_all (sem_nsems (ss_sema s ! ix)) qs 0 (\<lambda>n. semval (the_sem s (ix, n)))") simp_all
qed

text \<open>When no value wraps around and all numbers are in range, a vector is done exactly when no request is stuck.\<close>

lemma try_all_proceed:
  assumes "sem_inv s" "is_set s ix" "\<forall>q\<in>set qs. sem_num q < sem_nsems (ss_sema s ! ix)" "no_wrap (\<lambda>n. sem_vals s (ix, n)) qs"
  shows "try_all (sem_nsems (ss_sema s ! ix)) qs 0 (\<lambda>n. semval (the_sem s (ix, n))) = All_Done \<longleftrightarrow>
    can_proceed (\<lambda>n. sem_vals s (ix, n)) qs"
proof -
  let ?r = "try_all (sem_nsems (ss_sema s ! ix)) qs 0 (\<lambda>n. semval (the_sem s (ix, n)))"
  show ?thesis
    using pass_try_set[OF assms(1,2), of qs False] semop_through_iff[OF assms, of False] by (cases ?r) auto
qed

text \<open>
  C2: every turn of the loop of \<open>semop\<close>, the first one of a call (\<open>sys_semop_turn\<close>) and those after a sleep
  (\<open>semop_resume\<close>), tries the requests in order on the values of the set (\<open>try_all\<close>, with values that wrap around
  at 16 bits). If none is stuck, all are done, or the turn fails for want of undo space and then changes no semaphore
  and no adjustment. If one is stuck before a number out of range is met, the turn fails with EAGAIN or
  the process sleeps at that request, and no value and no adjustment changes. If a number out of range is met first, the
  turn fails with EFBIG, and exactly the requests before it stay done: there the call is not atomic.
\<close>

theorem semop_atomic:
  assumes "sem_inv s" "IPCID_TO_IX semid = ix" "is_set s ix"
  shows "case try_all (sem_nsems (ss_sema s ! ix)) qs 0 (\<lambda>n. semval (the_sem s (ix, n))) of
      All_Done \<Rightarrow>
        (\<exists>s'. semop_turn p semid qs un s = sem_ok 0 s' \<and> sem_keys s' = sem_keys s \<and>
          (\<forall>(jx, n)\<in>sem_keys s. semval (the_sem s' (jx, n)) =
             semval (the_sem s (jx, n)) + (if jx = ix then of_int (op_sum qs n) else 0))) \<or>
        (\<exists>s' e. semop_turn p semid qs un s = sem_fail e s' \<and> (un \<or> (\<exists>q\<in>set qs. \<not> no_undo q)) \<and> sem_keys s' = sem_keys s \<and>
          (\<forall>k\<in>sem_keys s. the_sem s' k = the_sem s k) \<and> (\<forall>p. adj_of (ents s' p) = adj_of (ents s p)))
    | Blocks i \<Rightarrow>
        (\<exists>s' un'. semop_turn p semid qs un s = (if has (sem_flg (qs ! i)) IPC_NOWAIT then sem_fail EAGAIN s'
            else Some (Sleeps s' (InSemop semid qs (sem_loc s (ix, uint (sem_num (qs ! i)))) i un'))) \<and>
          sem_keys s' = sem_keys s \<and> (\<forall>k\<in>sem_keys s. semval (the_sem s' k) = semval (the_sem s k)) \<and> ents s' = ents s)
    | Bad_Number i \<Rightarrow>
        (\<exists>s'. semop_turn p semid qs un s = sem_fail EFBIG s' \<and> sem_keys s' = sem_keys s \<and> ents s' = ents s \<and>
          (\<forall>(jx, n)\<in>sem_keys s. semval (the_sem s' (jx, n)) =
             semval (the_sem s (jx, n)) + (if jx = ix then of_int (op_sum (take i qs) n) else 0)))"
proof -
  let ?r = "try_all (sem_nsems (ss_sema s ! ix)) qs 0 (\<lambda>n. semval (the_sem s (ix, n)))"
  note tr = pass_try_set[OF assms(1,3), of qs un]
  have po: "pool_ok s" using assms(1) by (simp add: sem_inv_def)
  show ?thesis
    using assms(1) assms(2)[symmetric] assms(3)
  proof (cases rule: semop_turn_outcome[where p = p and sops = qs and ?un0.0 = un])
    case (range pool)
    have "?r \<noteq> All_Done"
    proof
      assume "?r = All_Done"
      then obtain a b c where "semop_pass (sem_base (ss_sema s ! ix)) (sem_nsems (ss_sema s ! ix)) qs 0 False un (ss_sem s) = Through a b c"
        using tr by auto
      then show False using semop_pass_Through range(3) by (meson linorder_not_le)
    qed
    moreover have "?r \<noteq> Blocks i" for i
      using tr range(1) by (auto simp: semop_turn_def Let_def assms(2) split: if_splits)
    ultimately obtain j where j: "?r = Bad_Number j" by (cases ?r) auto
    define s' where "s' = s\<lparr>ss_sem := shift_vals (sem_base (ss_sema s ! ix)) sem_op (take j qs) (ss_sem s)\<rparr>"
    have f: "ss_sema s' = ss_sema s" "ss_sem s' = shift_vals (sem_base (ss_sema s ! ix)) sem_op (take j qs) (ss_sem s)"
      by (simp_all add: s'_def)
    have t: "semop_turn p semid qs un s = sem_fail EFBIG s'"
      using tr j by (simp add: semop_turn_def Let_def assms(2) s'_def)
    have num: "\<forall>q\<in>set (take j qs). sem_num q < sem_nsems (ss_sema s ! ix)" using tr j by simp
    have "semval (the_sem s' k) = semval (the_sem s k) + (if fst k = ix then of_int (op_sum (take j qs) (snd k)) else 0)" if "k \<in> sem_keys s" for k
      by (rule vals_shift[OF po assms(3) num f(1) _ that]) (simp add: f(2))
    then have "\<forall>(jx, n)\<in>sem_keys s. semval (the_sem s' (jx, n)) = semval (the_sem s (jx, n)) + (if jx = ix then of_int (op_sum (take j qs) n) else 0)"
      by auto
    moreover have "sem_keys s' = sem_keys s" "ents s' = ents s"
      using same_sets(2)[OF f(1)] vec_cong(3)[of s' s] by (simp_all add: s'_def)
    ultimately show ?thesis using j t by simp
  next
    case (again pool i un2)
    then obtain "?r = Blocks i" using tr by (cases ?r) auto
    then show ?thesis using again(3,4) by auto
  next
    case (sleep pool i un2 k)
    let ?s = "s\<lparr>ss_sem := upd_sem k (wait_count (\<lambda>n. n + 1) (qs ! i)) (ss_sem s)\<rparr>"
    have r: "?r = Blocks i" using tr sleep(1) by (cases ?r) auto
    have "semval (the_sem ?s l) = semval (the_sem s l)" if "l \<in> sem_keys s" for l
      by (rule word_uint_eq_iff[THEN iffD2]) (use sem_vals_count[OF _ _ po that, of ?s k "\<lambda>n. n + 1" "qs ! i"] in \<open>simp add: sem_vals_def\<close>)
    moreover have "sem_keys ?s = sem_keys s" "ents ?s = ents s" using same_sets(2)[of ?s s] vec_cong(3)[of ?s s] by simp_all
    moreover have "k = sem_loc s (ix, uint (sem_num (qs ! i)))" using sleep(4) by (simp add: sem_loc_def)
    ultimately show ?thesis using r sleep(3,6) by auto
  next
    case (failed wk un2 e s')
    have r: "?r = All_Done" using tr failed(1) by (cases ?r) auto
    have "un \<or> (\<exists>q\<in>set qs. \<not> no_undo q)" using semop_pass_Through[OF failed(1)] failed(3) by simp
    moreover have "sem_keys s' = sem_keys s" "the_sem s' = the_sem s"
      using undo_frame_fields[OF failed(5)] same_sets(2)[of s' s] sem_vals_same(2)[of s' s] by simp_all
    moreover have "adj_of (ents s' r) = adj_of (ents s r)" for r
      using failed(7) undo_frame_ents[OF failed(5), of r] by (cases "r = p") simp_all
    ultimately show ?thesis using r failed(4) by simp
  next
    case (through wk un2 s1 s2)
    have r: "?r = All_Done" using tr through(1) by (cases ?r) auto
    define s3 where "s3 = (if wk then sem_wakeup (SemSet ix) s2 else s2)"
    have s3: "ss_sema s3 = ss_sema s" "ss_sem s3 = set_pids (sem_base (ss_sema s ! ix)) p qs (shift_vals (sem_base (ss_sema s ! ix)) sem_op qs (ss_sem s))"
      using undo_frame_fields[OF through(3)] through(6) by (simp_all add: s3_def)
    have "semval (the_sem s3 k) = semval (the_sem s k) + (if fst k = ix then of_int (op_sum qs (snd k)) else 0)" if "k \<in> sem_keys s" for k
      using sem_vals_turn_through(1)[OF assms(1,3) through(2) s3 that] .
    then have "\<forall>(jx, n)\<in>sem_keys s. semval (the_sem s3 (jx, n)) = semval (the_sem s (jx, n)) + (if jx = ix then of_int (op_sum qs n) else 0)"
      by auto
    moreover have "sem_keys s3 = sem_keys s" using same_sets(2)[OF s3(1)] .
    ultimately show ?thesis using r through(7) unfolding s3_def by simp
  qed
qed

subsection \<open>Undo on exit\<close>










text \<open>What a step of \<open>r\<close> does to the values and to the adjustments of \<open>p\<close>.\<close>

definition undo_effect :: "int \<Rightarrow> int \<Rightarrow> sem_state \<Rightarrow> sem_state \<Rightarrow> bool" where
  "undo_effect p r s s' \<longleftrightarrow> sem_keys s' = sem_keys s \<and>
     (if r = p then \<forall>k\<in>sem_keys s. semval (the_sem s' k) + adj_of (ents s' p) k = semval (the_sem s k) + adj_of (ents s p) k
      else adj_of (ents s' p) = adj_of (ents s p))"

definition undo_out :: "int \<Rightarrow> int \<Rightarrow> sem_state \<Rightarrow> sem_outcome \<Rightarrow> bool" where
  "undo_out p r s x \<longleftrightarrow> (case x of Some (Ret s' v) \<Rightarrow> r = p \<and> v = Inl EFBIG \<or> undo_effect p r s s' | Some (Sleeps s' w) \<Rightarrow> undo_effect p r s s' | _ \<Rightarrow> True)"

lemma undo_out_simps [simp]:
  "undo_out p r s (Some (Ret s' v)) \<longleftrightarrow> r = p \<and> v = Inl EFBIG \<or> undo_effect p r s s'" "undo_out p r s (Some (Sleeps s' w)) = undo_effect p r s s'"
  "undo_out p r s None" "undo_out p r s (Some Panics)"
  by (simp_all add: undo_out_def)

lemma undo_effect_refl [simp]: "undo_effect p r s s"
  by (simp add: undo_effect_def)















subsection \<open>Sets as they are created and removed\<close>

definition sem_abs :: "sem_state \<Rightarrow> nat \<times> int \<Rightarrow> sem option" where
  "sem_abs s k = (if k \<in> sem_keys s then Some (the_sem s k) else None)"

lemma ipcid_roundtrip:
  assumes "ix < 65536"
  shows "IPCID_TO_IX (IXSEQ_TO_IPCID ix pm) = ix" "IPCID_TO_SEQ (IXSEQ_TO_IPCID ix pm) = ipc_seq pm"
proof -
  let ?w = "IXSEQ_TO_IPCID ix pm"
  have m: "(0xffff :: u32) = mask 16" by (simp add: mask_eq_exp_minus_1)
  have "?w AND 0xffff = of_nat ix AND mask 16"
    unfolding IXSEQ_TO_IPCID_def m by (rule bit_word_eqI) (auto simp: bit_simps)
  then have "IPCID_TO_IX ?w = unat (of_nat ix AND mask 16 :: u32)" by (simp add: IPCID_TO_IX_def)
  also have "\<dots> = ix" using assms by (simp add: unsigned_take_bit_eq unsigned_of_nat take_bit_nat_eq_self flip: take_bit_eq_mask)
  finally show "IPCID_TO_IX ?w = ix" .
  have "drop_bit 16 ?w AND 0xffff = ucast (ipc_seq pm)"
    unfolding IXSEQ_TO_IPCID_def m by (rule bit_word_eqI) (auto simp: bit_simps dest: bit_imp_le_length)
  then show "IPCID_TO_SEQ ?w = ipc_seq pm"
    unfolding IPCID_TO_SEQ_def by (simp only:) (rule bit_word_eqI, auto simp: bit_simps)
qed

text \<open>\<open>IPC_RMID\<close> removes exactly one set; \<open>semget\<close> adds exactly one, zeroed, which its identifier names.\<close>

lemma sem_abs_rmid:
  assumes "sem_inv s" "is_set s ix"
  shows "sem_abs (sem_rmid cred ix s) = (\<lambda>k. if fst k = ix then None else sem_abs s k)"
  using sem_rmid_spec(2,3)[OF assms, where cred = cred] by (auto simp: fun_eq_iff sem_abs_def)

definition new_set_abs :: "nat \<Rightarrow> int \<Rightarrow> (nat \<times> int \<Rightarrow> sem option) \<Rightarrow> nat \<times> int \<Rightarrow> sem option" where
  "new_set_abs ix nsems old k =
     (if fst k = ix \<and> 0 \<le> snd k \<and> snd k < nsems then Some \<lparr>semval = 0, sempid = 0, semncnt = 0, semzcnt = 0\<rparr> else old k)"

lemma sem_abs_create:
  assumes "sem_inv s" "length (ss_sema s) \<le> 65536" "sem_create cred key nsems semflg s = Some (Ret s' (Inr v))"
  shows "\<exists>semid. v = SemInt (sint semid) \<and> \<not> is_set s (IPCID_TO_IX semid) \<and> is_set s' (IPCID_TO_IX semid) \<and>
    sem_alive semid (IPCID_TO_IX semid) s' \<and> sem_abs s' = new_set_abs (IPCID_TO_IX semid) nsems (sem_abs s)"
proof -
  obtain jx where jx: "find_ds (\<lambda>d. \<not> allocated d) 0 (ss_sema s) = Some jx" "0 < nsems" "nsems \<le> semmns (ss_info s) - ss_semtot s"
    "s' = sem_new cred key nsems semflg jx s" "v = SemInt (sint (IXSEQ_TO_IPCID jx (sem_perm (ss_sema s' ! jx))))"
    using assms(3) by (auto simp: sem_create_def sem_found_def split: if_splits option.splits)
  have f: "jx < length (ss_sema s)" "\<not> allocated (ss_sema s ! jx)" using find_ds_0[OF jx(1)] by auto
  note n = sem_new_spec[OF assms(1) f jx(2,3), where cred = cred and key = key and semflg = semflg, folded jx(4)]
  let ?id = "IXSEQ_TO_IPCID jx (sem_perm (ss_sema s' ! jx))"
  have id: "IPCID_TO_IX ?id = jx" "IPCID_TO_SEQ ?id = ipc_seq (sem_perm (ss_sema s' ! jx))"
    using ipcid_roundtrip[of jx] f(1) assms(2) by simp_all
  have ns: "\<not> is_set s jx" using f(2) by (simp add: is_set_def)
  have "sem_alive ?id jx s'" using n(7) id(2) by (simp add: sem_alive_def is_set_def)
  moreover have "sem_abs s' = new_set_abs jx nsems (sem_abs s)"
  proof
    fix k :: "nat \<times> int"
    obtain a m where k: "k = (a, m)" by (cases k)
    have "a = jx \<Longrightarrow> k \<notin> sem_keys s" using ns k by (simp add: sem_keys_def)
    then show "sem_abs s' k = new_set_abs jx nsems (sem_abs s) k"
      using n(2,3,4) k by (auto simp: sem_abs_def new_set_abs_def)
  qed
  ultimately show ?thesis using jx(5) id(1) ns n(7) by metis
qed

text \<open>
  C20: sets are a map from identifiers and numbers to semaphores: \<open>IPC_RMID\<close> removes exactly one set, though it moves
  the others in the pool, and \<open>semget\<close> adds exactly one, zeroed, which the identifier it returns names.
\<close>

theorem sem_sets_refine:
  assumes "sem_inv s" "length (ss_sema s) \<le> 65536"
  shows "(\<forall>semid semnum s'. sys___semctl p cred semid semnum IPC_RMID s = sem_ok 0 s' \<longrightarrow>
            sem_abs s' = (\<lambda>k. if fst k = IPCID_TO_IX semid then None else sem_abs s k)) \<and>
         (\<forall>key nsems semflg s' v. sys_semget p cred key nsems semflg s = Some (Ret s' (Inr v)) \<longrightarrow> s' = s \<or>
            (\<exists>semid. v = SemInt (sint semid) \<and> \<not> is_set s (IPCID_TO_IX semid) \<and> is_set s' (IPCID_TO_IX semid) \<and>
               sem_alive semid (IPCID_TO_IX semid) s' \<and> sem_abs s' = new_set_abs (IPCID_TO_IX semid) nsems (sem_abs s)))"
proof (intro conjI allI impI)
  fix semid semnum s'
  assume "sys___semctl p cred semid semnum IPC_RMID s = sem_ok 0 s'"
  then have "is_set s (IPCID_TO_IX semid)" "s' = sem_rmid cred (IPCID_TO_IX semid) s"
    by (auto simp: sys___semctl_def semlock_def with_set_def Let_def is_set_def sem_alive_def split: if_splits option.splits)
  then show "sem_abs s' = (\<lambda>k. if fst k = IPCID_TO_IX semid then None else sem_abs s k)"
    using sem_abs_rmid[OF assms(1)] by simp
next
  fix key nsems semflg s' v
  assume a: "sys_semget p cred key nsems semflg s = Some (Ret s' (Inr v))"
  then have "s' = s \<or> sem_create cred key nsems semflg s = Some (Ret s' (Inr v))"
    by (auto simp: sys_semget_def semlock_def sem_found_def split: if_splits option.splits)
  then show "s' = s \<or> (\<exists>semid. v = SemInt (sint semid) \<and> \<not> is_set s (IPCID_TO_IX semid) \<and> is_set s' (IPCID_TO_IX semid) \<and>
               sem_alive semid (IPCID_TO_IX semid) s' \<and> sem_abs s' = new_set_abs (IPCID_TO_IX semid) nsems (sem_abs s))"
    using sem_abs_create[OF assms] by blast
qed

subsection \<open>Wakeups\<close>

text \<open>The request \<open>i\<close> of a vector is stuck, for the values \<open>v\<close> of its set.\<close>

definition blocked_at :: "(int \<Rightarrow> int) \<Rightarrow> sembuf list \<Rightarrow> nat \<Rightarrow> bool" where
  "blocked_at v qs i \<longleftrightarrow> i < length qs \<and>
     (let n = uint (sem_num (qs ! i)); x = v n + op_sum (take i qs) n; a = sint (sem_op (qs ! i)) in a < 0 \<and> x + a < 0 \<or> a = 0 \<and> x \<noteq> 0)"

lemma can_proceed_not_blocked: "can_proceed v qs \<longleftrightarrow> (\<forall>i. \<not> blocked_at v qs i)"
  by (auto simp: can_proceed_def blocked_at_def Let_def)








subsection \<open>A small system\<close>

definition sem_boot :: sem_state where
  "sem_boot =
     \<lparr>ss_info = \<lparr>semmni = 2, semmns = 4, semmnu = 1, semmsl = 4\<rparr>,
      ss_sema = replicate 2 \<lparr>sem_perm = \<lparr>ipc_cuid = 0, ipc_cgid = 0, ipc_uid = 0, ipc_gid = 0, ipc_mode = 0, ipc_seq = 0, ipc_key = 0\<rparr>,
        sem_base = 0, sem_nsems = 0, sem_otime = 0, sem_ctime = 0\<rparr>,
      ss_sem = replicate 4 \<lparr>semval = 0, sempid = 0, semncnt = 0, semzcnt = 0\<rparr>, ss_semtot = 0,
      ss_semu = [\<lparr>un_proc = None, un_ent = []\<rparr>], ss_semu_list = [], ss_holder = None, ss_time = 0, ss_wakeups = []\<rparr>"

definition sem_root :: ucred where "sem_root = \<lparr>cr_uid = 0, cr_gid = 0, cr_groups = []\<rparr>"

definition req :: "u16 \<Rightarrow> int \<Rightarrow> u16 \<Rightarrow> sembuf" where "req n a f = \<lparr>sem_num = n, sem_op = of_int a, sem_flg = f\<rparr>"

definition out_state :: "sem_state \<Rightarrow> sem_outcome \<Rightarrow> sem_state" where
  "out_state s r = (case r of Some (Ret s' v) \<Rightarrow> s' | Some (Sleeps s' w) \<Rightarrow> s' | _ \<Rightarrow> s)"

text \<open>A set of two semaphores, and the same with a process that waits for the first to be raised.\<close>

definition sem_demo :: sem_state where
  "sem_demo = out_state (seminit sem_boot) (sys_semget 1 sem_root 0 2 384 (seminit sem_boot))"


definition sem_start :: sem_system where "sem_start = \<lparr>sy_state = seminit sem_boot, sy_proc = (\<lambda>_. SemRun)\<rparr>"

lemma sem_config_boot: "sem_config sem_boot"
  by code_simp

lemma good_out_state: "sem_inv s \<Longrightarrow> good s r \<Longrightarrow> sem_inv (out_state s r)"
  by (auto simp: out_state_def good_def keeps_def split: option.split kout.split)

lemma sem_inv_demo: "sem_inv sem_demo"
  unfolding sem_demo_def by (rule good_out_state[OF _ good_semget]; rule sem_inv_seminit[OF sem_config_boot])


lemma sem_reach_start: "sem_reach sem_start"
  unfolding sem_start_def by (rule sem_reach.start[OF sem_config_boot])

definition get_set :: sem_action where "get_set = SemCalls 1 (SemGet sem_root 0 2 384)"

fun op_call :: "int \<Rightarrow> sembuf list \<Rightarrow> sem_action" where
  "op_call p qs = SemCalls p (SemOp sem_root 0x10000 (of_nat (length qs)) qs)"

subsection \<open>Where the code goes wrong\<close>

text \<open>A number out of range leaves the requests before it done.\<close>

lemma semop_EFBIG_keeps_changes:
  "\<exists>s'. sys_semop 1 sem_root 0x10000 2 [req 0 1 0, req 5 1 0] sem_demo = sem_fail EFBIG s' \<and>
     sem_vals sem_demo (0, 0) = 0 \<and> sem_vals s' (0, 0) = 1"
proof -
  let ?r = "sys_semop 1 sem_root 0x10000 2 [req 0 1 0, req 5 1 0] sem_demo"
  have "?r = sem_fail EFBIG (out_state sem_demo ?r)" by code_simp
  moreover have "sem_vals sem_demo (0, 0) = 0" "sem_vals (out_state sem_demo ?r) (0, 0) = 1" by code_simp+
  ultimately show ?thesis by metis
qed

text \<open>It wakes up nobody, although process 2 could go on.\<close>

lemma semop_EFBIG_wakes_nobody:
  "case sem_run [get_set, op_call 2 [req 0 (- 1) 0], op_call 1 [req 0 1 0, req 5 1 0]] sem_start of None \<Rightarrow> False
   | Some S \<Rightarrow> can_proceed (\<lambda>n. sem_vals (sy_state S) (0, n)) [req 0 (- 1) 0] \<and>
       (case sy_proc S 2 of SemWait w woken \<Rightarrow> \<not> woken | _ \<Rightarrow> False)"
  by code_simp

text \<open>An adjustment wraps around at 16 bits, as a signed number: the exit of process 1 raises the semaphore.\<close>

lemma semop_undo_wraps:
  "case sem_run [get_set, op_call 1 [req 0 20000 SEM_UNDO], op_call 2 [req 0 (- 20000) 0], op_call 1 [req 0 20000 SEM_UNDO],
       SemExits 1] sem_start of None \<Rightarrow> False
   | Some S \<Rightarrow> sem_vals (sy_state S) (0, 0) = 45536"
  by code_simp

text \<open>\<open>SETVAL\<close> leaves undo entries of its semaphore behind an entry of another one.\<close>

lemma semundo_clear_stops_early:
  "clear_ents 0 1 0 [\<lparr>un_adjval = 1, un_num = 0, un_id = 0\<rparr>, \<lparr>un_adjval = 1, un_num = 1, un_id = 0\<rparr>] =
   [\<lparr>un_adjval = 1, un_num = 0, un_id = 0\<rparr>, \<lparr>un_adjval = 1, un_num = 1, un_id = 0\<rparr>]"
  by code_simp

text \<open>An empty undo structure disappears while its process waits in \<open>semexit\<close> for the facility.\<close>

definition panic_schedule :: "sem_action list" where
  "panic_schedule =
     [get_set, op_call 1 [req 0 1 SEM_UNDO], op_call 1 [req 0 (- 1) SEM_UNDO], SemCalls 3 (SemConfig 0), SemExits 1,
      op_call 3 [req 0 1 SEM_UNDO], SemCalls 3 (SemConfig 1)]"

lemma semexit_panics:
  "\<exists>S. sem_run panic_schedule sem_start = Some S \<and> sem_effect (SemWakes 1 None) S = Some (Some Panics)"
proof -
  have "case sem_run panic_schedule sem_start of None \<Rightarrow> False | Some S \<Rightarrow> sem_effect (SemWakes 1 None) S = Some (Some Panics)"
    by code_simp
  then show ?thesis by (auto split: option.splits)
qed

text \<open>A process that was asleep changes a semaphore while the facility is frozen by another.\<close>

definition frozen_schedule :: "sem_action list" where
  "frozen_schedule = [get_set, op_call 2 [req 0 (- 1) 0], op_call 1 [req 0 1 0], SemCalls 3 (SemConfig 0)]"

lemma frozen_facility_changes:
  "case sem_run frozen_schedule sem_start of None \<Rightarrow> False
   | Some S \<Rightarrow> ss_holder (sy_state S) = Some 3 \<and> sem_vals (sy_state S) (0, 0) = 1 \<and>
       (case sem_do (SemWakes 2 None) S of None \<Rightarrow> False
        | Some S' \<Rightarrow> ss_holder (sy_state S') = Some 3 \<and> sem_vals (sy_state S') (0, 0) = 0)"
  by code_simp

text \<open>The wrong limit, and the signed comparison of the count of requests.\<close>

lemma semop_leaves_the_table: "sys_semop 1 sem_root 3 0 [] sem_demo = None"
  by code_simp

lemma semop_overruns_the_stack: "sys_semop 1 sem_root 0x10000 0x80000006 (replicate 6 (req 0 0 0)) sem_demo = None"
  by code_simp

text \<open>A process that waits for zero after a request of its own on the same semaphore misses its wakeup.\<close>

lemma semop_loses_wakeup:
  "case sem_run [get_set, op_call 1 [req 0 2 0], op_call 2 [req 0 (- 1) 0, req 0 0 0], op_call 1 [req 0 (- 1) 0]] sem_start of None \<Rightarrow> False
   | Some S \<Rightarrow> can_proceed (\<lambda>n. sem_vals (sy_state S) (0, n)) [req 0 (- 1) 0, req 0 0 0] \<and>
       (case sy_proc S 2 of SemWait w woken \<Rightarrow> \<not> woken | _ \<Rightarrow> False)"
  by code_simp

text \<open>An interrupted process stays counted.\<close>

lemma semop_interrupt_keeps_count:
  "case sem_run [get_set, op_call 2 [req 0 (- 1) 0], SemWakes 2 (Some EINTR)] sem_start of None \<Rightarrow> False
   | Some S \<Rightarrow> sy_proc S 2 = SemRun \<and> semncnt (the_sem (sy_state S) (0, 0)) = 1"
  by code_simp

text \<open>A value beyond 16 bits starts again from 0.\<close>

lemma semop_value_wraps:
  "case sem_run [get_set, SemCalls 1 (SemCtl sem_root 0x10000 0 (SETVAL (Some 65535))), op_call 1 [req 0 1 0]] sem_start of None \<Rightarrow> False
   | Some S \<Rightarrow> sem_vals (sy_state S) (0, 0) = 0"
  by code_simp

text \<open>After the sets have been moved, a process that wakes up counts down the semaphore of another place.\<close>

definition moved_schedule :: "sem_action list" where
  "moved_schedule =
     [get_set, SemCalls 1 (SemGet sem_root 0 1 384), SemCalls 2 (SemOp sem_root 0x10001 1 [req 0 (- 1) 0]),
      SemCalls 1 (SemCtl sem_root 0x10000 0 IPC_RMID), SemCalls 1 (SemOp sem_root 0x10001 1 [req 0 1 0]), SemWakes 2 None]"

lemma semop_stale_pointer:
  "case sem_run moved_schedule sem_start of None \<Rightarrow> False
   | Some S \<Rightarrow> sy_proc S 2 = SemRun \<and> semncnt (the_sem (sy_state S) (1, 0)) = 1"
  by code_simp

subsection \<open>The properties at concrete states\<close>

theorem sem_invariant_witness:
  "\<exists>S. sem_run frozen_schedule sem_start = Some S \<and> sem_inv (sy_state S)"
proof -
  have "sem_run frozen_schedule sem_start \<noteq> None" using frozen_facility_changes by (metis option.simps(4))
  then obtain S where S: "sem_run frozen_schedule sem_start = Some S" by blast
  show ?thesis using S sem_invariant[OF sem_run_reach[OF S sem_reach_start]] by blast
qed

theorem sem_no_panic_witness:
  "\<exists>S. sem_run panic_schedule sem_start = Some S \<and> undo_disappeared (SemWakes 1 None) S"
proof -
  obtain S where S: "sem_run panic_schedule sem_start = Some S" "sem_effect (SemWakes 1 None) S = Some (Some Panics)"
    using semexit_panics by blast
  show ?thesis using S sem_no_panic[OF sem_run_reach[OF S(1) sem_reach_start] S(2)] by blast
qed

theorem semop_atomic_witness:
  "\<exists>s'. semop_turn 1 0x10000 [req 0 3 0, req 1 1 0] False sem_demo = sem_ok 0 s' \<and> sem_keys s' = sem_keys sem_demo"
proof -
  let ?qs = "[req 0 3 0, req 1 1 0]"
  have h: "IPCID_TO_IX 0x10000 = 0" "is_set sem_demo 0" "\<forall>q\<in>set ?qs. no_undo q"
    "try_all (sem_nsems (ss_sema sem_demo ! 0)) ?qs 0 (\<lambda>n. semval (the_sem sem_demo (0, n))) = All_Done"
    by code_simp+
  show ?thesis using semop_atomic[OF sem_inv_demo h(1,2), where qs = ?qs and p = 1 and un = False] h(3,4) by auto
qed




lemma out_case: "(case r of Some (Ret s' v) \<Rightarrow> v = w | _ \<Rightarrow> False) \<Longrightarrow> \<exists>s'. r = Some (Ret s' w)"
  for r :: sem_outcome
  by (auto split: option.splits kout.splits)

theorem sem_sets_refine_witness:
  "\<exists>s'. sys___semctl 1 sem_root 0x10000 0 IPC_RMID sem_demo = sem_ok 0 s' \<and>
     sem_abs s' = (\<lambda>k. if fst k = 0 then None else sem_abs sem_demo k)"
proof -
  let ?r = "sys___semctl 1 sem_root 0x10000 0 IPC_RMID sem_demo"
  have "case ?r of Some (Ret s' v) \<Rightarrow> v = Inr (SemInt 0) | _ \<Rightarrow> False" by code_simp
  from out_case[OF this] obtain s' where r: "?r = sem_ok 0 s'" by blast
  have "length (ss_sema sem_demo) = 2" by code_simp
  then have l: "length (ss_sema sem_demo) \<le> 65536" by simp
  have i: "IPCID_TO_IX 0x10000 = 0" by code_simp
  have "sem_abs s' = (\<lambda>k. if fst k = IPCID_TO_IX 0x10000 then None else sem_abs sem_demo k)"
    by (rule conjunct1[OF sem_sets_refine[OF sem_inv_demo l], rule_format, OF r])
  then show ?thesis using r unfolding i by (intro exI conjI)
qed


end
