(* ===== verification/Spec2Isabelle.thy ===== *)
theory Spec2Isabelle
  imports Extent_Correct Bpf_Correct Rmap_Correct Lockf_Correct Descrip_Correct Clist_Correct Mbuf_Correct Callout_Correct Quad_Div Lock_Correct Cksum_Correct Sem_Correct
begin

text \<open>
  A verification library for NetBSD: self-contained parts of the kernel under \<^verbatim>\<open>src/sys\<close>, translated routine by
  routine from the C source, with the theorems that make each of them correct.

  The program and its parts. The kernel keeps the tables that all of its clients share, and these are what is
  modelled here: who holds which range of an address space (extents for bus and I/O space, resource
  maps for swap and System V shared memory), which bytes of a file are locked and by whom, which
  process holds a kernel lock, which
  descriptor of which process refers to which open file, where the bytes of a packet are in a chain of network buffers,
  which characters wait in the queue of a terminal, which functions are to be called at which clock tick, and the values of
  the semaphores that processes share. Two
  pieces of pure computation complete them: the interpreter of packet filters, which runs programs of
  users inside the kernel, and the arithmetic on 64-bit numbers that the compiler calls on 32-bit machines.

  How the parts meet. The filter reads packets that are chains of mbufs (\<open>bpf_filter\<close> over \<open>m_xword\<close> and
  \<open>m_xhalf\<close>), and the checksum of protocols is taken over such a chain (\<open>in_cksum\<close>). Descriptors carry the advisory locks of a process: closing a descriptor (\<open>closef\<close>) and
  \<open>fcntl\<close> call the lock code through the vnode. \<open>sys_open\<close> is the client of \<open>falloc\<close> and \<open>ffree\<close>. The locks, the
  extents and the semaphores sleep and are woken up: a routine that sleeps ends with \<open>Sleeps\<close> and the rest of it is a
  definition of its own (\<open>lf_setlock_wake\<close>, \<open>extent_alloc_region_wake\<close>, \<open>semop_resume\<close>), so that anything can happen in between.

  \<^bold>\<open>Theories.\<close> For every part there is a theory with the code and one or more (\<open>_Correct\<close>, \<open>Mbuf_Chain\<close>, \<open>Quad_Div\<close>, \<open>Sem_Undo\<close>, \<open>Sem_Pool\<close>,
  \<open>Sem_System\<close>) with the proofs. All operations are executable.

  \<^item> \<^verbatim>\<open>Prelude\<close>: machine types of the ports with 32-bit \<open>long\<close>s and pointers, error numbers, the ends of a kernel
    routine (\<open>kout\<close>: it returns, sleeps or panics), and facts about words and lists. \<^verbatim>\<open>Machine\<close>: loops of
    the form \<open>while (1)\<close> as \<open>iterate\<close>, whose value is \<open>None\<close> for a loop that does not end, and the locale
    \<open>forward_machine\<close> in which such a loop is proved to end with a good result. \<^verbatim>\<open>Allocator\<close>: the locale of
    an allocator and what its clients can rely on.
  \<^item> \<^verbatim>\<open>Extent\<close>: \<^verbatim>\<open>sys/kern/subr_extent.c\<close>, \<^verbatim>\<open>sys/sys/extent.h\<close>. \<open>struct extent\<close> is the record \<open>extent\<close>, the sorted list
    of its regions is \<open>ex_regions\<close>. The lemmas show the invariant \<open>extent_wf\<close> (sorted, disjoint,
    inside the extent), the effect of every operation on the set of allocated addresses, that
    the search finds a block whenever there is one, and the contract of an exact allocator.
  \<^item> \<^verbatim>\<open>Rmap\<close>: \<^verbatim>\<open>sys/kern/subr_rmap.c\<close>. The array of slots is a list of fixed length, with the word after it as a field of its own. \<open>rmalloc\<close> is a best fit; \<open>rmfree\<close> ends and
    loses space only when the map is full, but for the one case in which it looks at the word after the array; the contract of an allocator.
  \<^item> \<^verbatim>\<open>Bpf\<close>: \<^verbatim>\<open>sys/net/bpf_filter.c\<close>, \<^verbatim>\<open>sys/net/bpf.h\<close>. The interpreter is an iterated step on the record of its registers.
    An accepted program returns on every packet, and the only wrong accesses left are of
    instructions that \<open>bpf_validate\<close> does not look at, which are named.
  \<^item> \<^verbatim>\<open>Lockf\<close>: \<^verbatim>\<open>sys/kern/vfs_lockf.c\<close>. The list of locks of one inode, its blocked requests and the processes that wait. What
    each call does to the bytes an owner holds, and an inductive step relation for any number of
    processes in which no two owners ever hold conflicting locks, for requests that \<open>lf_call_ok\<close> describes and until an
    interrupted waiter follows a freed lock.
  \<^item> \<^verbatim>\<open>Lock\<close>: \<^verbatim>\<open>sys/kern/kern_lock.c\<close>, \<^verbatim>\<open>sys/sys/lock.h\<close>. \<open>lockmgr\<close> with the places it sleeps at; \<open>lk_do\<close> is one call or one
    return from a sleep in a system of processes, and \<open>lk_reach\<close> the systems they can reach. For callers that
    release what they hold and lock recursively at most 32,767 times (\<open>proper_call\<close>), an exclusive holder is the only
    holder; wakeups are not lost for patient callers, and a panic needs an upgrade, of which there is an example.
  \<^item> \<^verbatim>\<open>Sem\<close>: \<^verbatim>\<open>sys/kern/sysv_sem.c\<close>, \<^verbatim>\<open>sys/sys/sem.h\<close>, \<^verbatim>\<open>sys/sys/ipc.h\<close> and \<open>ipcperm\<close> of \<^verbatim>\<open>sys/kern/sysv_ipc.c\<close>. The record
    \<open>sem_state\<close> has the table of sets, the one pool of semaphores their blocks are taken from (lists, with indices for the
    pointers \<open>sem_base\<close>) and the undo structures. \<^verbatim>\<open>Sem_Undo\<close> shows what the undo structures record, \<^verbatim>\<open>Sem_Pool\<close> that the blocks stay
    disjoint and packed when sets are made and removed, \<^verbatim>\<open>Sem_System\<close> has the processes (\<open>sem_do\<close>, one call or one return from a
    sleep, and \<open>sem_reach\<close>) and their invariant, \<^verbatim>\<open>Sem_Correct\<close> the properties: a vector of requests is done
    as a whole or not at all, in each of its turns, an exit takes back what \<open>SEM_UNDO\<close> asked for while the adjustments fit in a \<open>short\<close>, the sets are a map from identifiers, a process that
    can go on is woken up, and the one panic is named. The runs in which the code misses this are lemmas as well.
  \<^item> \<^verbatim>\<open>Descrip\<close>: \<^verbatim>\<open>sys/kern/kern_descrip.c\<close> and \<open>sys_open\<close> of \<^verbatim>\<open>sys/kern/vfs_syscalls.c\<close>. The file table, the descriptor tables and
    the processes are maps from names. In the step relation \<open>desc_step\<close> processes call \<open>dup\<close>, \<open>dup2\<close>, \<open>close\<close>, \<open>fcntl\<close>, \<open>flock\<close>, \<open>fstat\<close>,
    \<open>fpathconf\<close> and \<open>open\<close>, execute programs, fork and exit, as long as no file has more than 32,767 references (\<open>f_count\<close> is a \<open>short\<close>). In
    every reachable state the reference counts are exact, the tables well-formed, and nothing panics. References held by messages between
    sockets and the other calls that make descriptors (\<open>pipe\<close>, \<open>socket\<close>, \<open>accept\<close>) are not in the relation.
  \<^item> \<^verbatim>\<open>Clist\<close>: \<^verbatim>\<open>sys/kern/tty_subr.c\<close>. The ring buffers of terminals with quote bits, which refine a bounded queue of
    characters (locale \<open>char_queue\<close>).
  \<^item> \<^verbatim>\<open>Mbuf\<close>, \<^verbatim>\<open>Mbuf_Chain\<close>, \<^verbatim>\<open>Mbuf_Correct\<close>: \<^verbatim>\<open>sys/kern/uipc_mbuf.c\<close>, \<^verbatim>\<open>sys/sys/mbuf.h\<close>. A chain is the string of its
    bytes, \<open>cbytes\<close>, and each routine does to that string what its name says; shared external buffers are counted.
  \<^item> \<^verbatim>\<open>Cksum\<close>: \<^verbatim>\<open>sys/netinet/in_cksum.c\<close>, over the chains of \<^verbatim>\<open>Mbuf\<close>: the unrolled and byte-swapping loops compute the
    complement of the ones' complement sum of the bytes of the chain.
  \<^item> \<^verbatim>\<open>Callout\<close>: the timeout queue of \<^verbatim>\<open>sys/kern/kern_clock.c\<close>. The queue of differences stands for the list of
    events with their times. \<open>clock_step\<close> is a clock interrupt, a round of \<open>softclock\<close> or a call from elsewhere, and clock interrupts come between the
    rounds; an event is called at most once, never early, and is called by when \<open>softclock\<close> has come to rest after the tick it was asked for.
  \<^item> \<^verbatim>\<open>Quad\<close>, \<^verbatim>\<open>Quad_Correct\<close>, \<^verbatim>\<open>Quad_Div\<close>: \<^verbatim>\<open>sys/lib/libkern\<close>, \<open>quad.h\<close> and the routines on 64-bit numbers. All of them are
    the operations on 64-bit words, long division included; the remainder of signed numbers is the exception that its property states.

  \<^bold>\<open>State and data.\<close> A C structure is a record and a pointer to one that others also hold is a name in a map of the
  state; a linked list that one owner walks is a list, and a pointer into it a position. Integers are words
  where the code relies on wrap-around or could overflow in what is modelled (addresses of extents, the filter, quads). The \<open>short\<close>s that
  the code increments without a test (\<open>f_count\<close>, \<open>lk_exclusivecount\<close>, the adjustments of \<open>SEM_UNDO\<close>) and the offsets of requests for
  file locks are integers that wrap around, by \<open>s16\<close> and \<open>s64\<close>; the properties that need them not to wrap say so. The remaining
  \<open>int\<close> and \<open>nat\<close> are counts and lengths that the invariants or named conditions keep in range. A
  \<open>panic\<close> and a null pointer that is followed are the value \<open>None\<close> or \<open>Panics\<close>, and the theorems say when they do not
  occur. Memory allocation, sleeping, and the vnode and protocol code that the parts call are arguments of the operations.

  \<^bold>\<open>Bounds.\<close> No operation runs on fuel. A loop that is not structurally recursive is a \<open>function\<close> with a measure, or
  \<open>iterate\<close>, for which a theorem gives the result: \<open>bpf_validate_sound\<close>, \<open>rmfree_spec\<close>, \<open>softclock_returns\<close>,
  \<open>m_pullup_contiguous\<close>, \<open>clist_refines\<close>.

  \<^bold>\<open>Not modelled.\<close> Of the files above: console output (\<open>extent_print\<close>, \<open>lf_print\<close>), the memory pools behind mbufs and
  their statistics, the other system calls of \<^verbatim>\<open>vfs_syscalls.c\<close>, which look up paths, and the clock discipline of
  \<^verbatim>\<open>kern_clock.c\<close>. Of the repository: virtual memory, file systems, protocols and drivers, whose state is the whole
  machine or hardware that the repository does not describe; machine-dependent code, partly in assembly; the programs and
  libraries of user space, many of them imported from elsewhere. Apart from the clock interrupts of \<open>clock_step\<close>, interrupts are not modelled: each routine
  runs as one step up to where it sleeps. In the code many of them raise the priority for that (\<open>splhigh\<close>, \<open>splimp\<close>,
  \<open>spltty\<close>), and the others (extents, resource maps, locks, file locks, descriptors, semaphores) rely on the kernel not being preempted
  and not being entered from interrupts with the same structure. Copies between user space and the semaphores are taken not to sleep.
\<close>

end
